(* ===== verification/Prelude.thy ===== *)
theory Prelude
  imports Main "HOL-Library.Word" "HOL-Library.AList" "HOL-Library.Multiset"
begin

unbundle bit_operations_syntax

section \<open>Shared types, list operations and automation\<close>

text \<open>
  The vocabulary every component uses: the machine integer types of the crate (a 64-bit target,
  so \<open>usize\<close> is a 64-bit word), the \<open>Vec\<close> operations the code calls
  (\<open>swap_remove\<close>, \<open>pop\<close>, \<open>position\<close>), and the fault values that stand for undefined
  behaviour and failed internal assertions.  The collection \<open>slot_bits\<close> is filled by \<open>Slot\<close> with
  the facts that read the completion word.
\<close>

named_theorems slot_bits "facts that read and update the completion word of a slot"

type_synonym u8 = "8 word"
type_synonym u64 = "64 word"
type_synonym usize = "64 word"

type_synonym slot_id = nat      \<comment> \<open>the address an \<open>Arc<Slot>\<close> points to\<close>
type_synonym handle = nat       \<comment> \<open>the name of a value the client owns\<close>
type_synonym thread_id = nat

subsection \<open>Faults\<close>

text \<open>
  What the source rules out by argument (its SAFETY comments) or by a debug assertion is a value
  here, so that the absence of these faults is a theorem and not a convention.  The last value is no
  undefined behaviour: it ends the model of a program where the destructor of an outcome panics out of
  an operation of the crate (or, during another panic, aborts the process).
\<close>

datatype fault =
    UninitRead          \<comment> \<open>the outcome cell is read while it holds no value\<close>
  | UninitDrop          \<comment> \<open>the outcome cell is dropped while it holds no value\<close>
  | Dangling            \<comment> \<open>a slot is accessed after its allocation was released\<close>
  | CompletedTwice      \<comment> \<open>\<open>debug_assert_eq!(previous & COMPLETED, 0)\<close>\<close>
  | OwnersUnderflow     \<comment> \<open>\<open>debug_assert!(*future_owners > 0)\<close>\<close>
  | DestructorPanicked  \<comment> \<open>not undefined: a panic of an outcome's destructor leaves the operation\<close>

subsection \<open>Wakers and panics\<close>

text \<open>
  A \<open>std::task::Waker\<close> is a data pointer and a vtable pointer, and \<open>will_wake\<close> compares the two.
  What waking does is the user's code: whether it panics is a parameter of the operations that
  wake.
\<close>

record waker =
  wdata :: nat
  wvtable :: nat

definition will_wake :: "waker \<Rightarrow> waker \<Rightarrow> bool" where
  "will_wake a b \<longleftrightarrow> wdata a = wdata b \<and> wvtable a = wvtable b"

lemma will_wake_eq [simp]: "will_wake a b \<longleftrightarrow> a = b"
  by (cases a, cases b) (simp add: will_wake_def)

text \<open>The panics the crate raises, and the result of a call that returns or panics.\<close>

datatype panic =
    SubjectCompletedTwice
  | GenerationExhausted
  | RegistrationCountOverflowed
  | TimeoutOverflowsInstant
  | WakePanicked waker
  | OutcomeDropPanicked

datatype 'a call = Ret 'a | Panic panic

subsection \<open>Options and words\<close>

text \<open>\<open>usize::MAX\<close> and \<open>usize::checked_add(1)\<close>.\<close>

definition USIZE_MAX :: usize where
  "USIZE_MAX = 0xFFFFFFFFFFFFFFFF"

definition checked_inc :: "usize \<Rightarrow> usize option" where
  "checked_inc n = (if n = USIZE_MAX then None else Some (n + 1))"

lemma USIZE_MAX_minus_1: "USIZE_MAX = - 1"
  by (simp add: USIZE_MAX_def)

lemma checked_inc_Some: "checked_inc n = Some m \<Longrightarrow> unat m = unat n + 1"
  using unatSuc [of n]
  by (auto simp: checked_inc_def USIZE_MAX_minus_1 eq_neg_iff_add_eq_0 add.commute split: if_splits)

lemma unat_USIZE_MAX: "unat USIZE_MAX = 2 ^ 64 - 1"
  by (simp add: USIZE_MAX_def)

lemma checked_inc_small: "unat n + 1 < 2 ^ 64 \<Longrightarrow> checked_inc n = Some (n + 1)"
  by (auto simp: checked_inc_def unat_USIZE_MAX)

lemma bit_mask: "bit (push_bit n 1 :: 'a::len word) m \<longleftrightarrow> n = m \<and> n < LENGTH('a)"
  by (auto simp: bit_exp_iff)

lemma and_mask_bit: "(w :: 'a::len word) AND push_bit n 1 = 0 \<longleftrightarrow> \<not> bit w n"
proof -
  have "bit (w AND push_bit n 1) m \<longleftrightarrow> bit w m \<and> n = m" for m
    by (auto simp: bit_and_iff bit_mask simp del: push_bit_of_1 dest: bit_imp_le_length)
  then show ?thesis by (metis bit_0_eq bit_word_eqI bot_apply bot_bool_def)
qed

lemma option_eqI: "(\<And>x. a = Some x \<longleftrightarrow> b = Some x) \<Longrightarrow> a = b"
  by (cases a; cases b) auto

subsection \<open>Lists\<close>

text \<open>\<open>Vec::swap_remove\<close>: the last element takes the place of the removed one.\<close>

definition swap_remove :: "nat \<Rightarrow> 'a list \<Rightarrow> 'a list" where
  "swap_remove i xs = (if i = length xs - 1 then butlast xs else (butlast xs)[i := last xs])"

text \<open>\<open>Iterator::position\<close>: the index of the first element that satisfies the test.\<close>

fun position :: "('a \<Rightarrow> bool) \<Rightarrow> 'a list \<Rightarrow> nat option" where
  "position P [] = None"
| "position P (x # xs) = (if P x then Some 0 else map_option Suc (position P xs))"

text \<open>\<open>Vec::pop\<close>: the last element, if there is one, and the list without it.\<close>

definition pop :: "'a list \<Rightarrow> 'a option \<times> 'a list" where
  "pop xs = (if xs = [] then (None, []) else (Some (last xs), butlast xs))"

lemma position_Some:
  "position P xs = Some i \<Longrightarrow> i < length xs \<and> P (xs ! i) \<and> (\<forall>j<i. \<not> P (xs ! j))"
proof (induction xs arbitrary: i)
  case Nil
  then show ?case by simp
next
  case (Cons x xs)
  show ?case
  proof (cases "P x")
    case True
    with Cons.prems show ?thesis by simp
  next
    case False
    with Cons.prems obtain j where "position P xs = Some j" "i = Suc j" by auto
    with Cons.IH [of j] False show ?thesis by (auto simp: less_Suc_eq_0_disj)
  qed
qed

lemma position_None: "position P xs = None \<longleftrightarrow> (\<forall>x\<in>set xs. \<not> P x)"
  by (induction xs) auto

lemma mset_swap_remove:
  "i < length xs \<Longrightarrow> add_mset (xs ! i) (mset (swap_remove i xs)) = mset xs"
proof (cases xs rule: rev_cases)
  case Nil
  then show "i < length xs \<Longrightarrow> ?thesis" by simp
next
  case (snoc ys y)
  assume "i < length xs"
  with snoc show ?thesis
    by (auto simp: swap_remove_def nth_append mset_update)
qed

lemma set_swap_remove_subset: "i < length xs \<Longrightarrow> set (swap_remove i xs) \<subseteq> set xs"
  using mset_swap_remove [of i xs] by (metis mset_subset_eq_add_right set_mset_mono set_mset_mset
      add_mset_add_single mset_subset_eq_add_left)

lemma length_swap_remove: "i < length xs \<Longrightarrow> length (swap_remove i xs) = length xs - 1"
  by (simp add: swap_remove_def)

lemma pop_None [simp]: "pop xs = (None, ys) \<longleftrightarrow> xs = [] \<and> ys = []"
  by (auto simp: pop_def)

lemma pop_Some: "pop xs = (Some x, ys) \<longleftrightarrow> xs = ys @ [x]"
  by (auto simp: pop_def)

subsection \<open>Association lists\<close>

lemma alist_split:
  assumes "distinct (map fst xs)" and "map_of xs h = Some x"
  shows "mset xs = add_mset (h, x) (mset (AList.delete h xs))"
  using assms
proof (induction xs)
  case (Cons y ys)
  show ?case
  proof (cases "fst y = h")
    case True
    with Cons.prems have "y = (h, x)" "h \<notin> fst ` set ys" by (auto simp: image_iff)
    then have "AList.delete h ys = ys" by simp
    with \<open>y = (h, x)\<close> show ?thesis by simp
  next
    case False
    with Cons show ?thesis by auto
  qed
qed simp

lemma alist_update_mset:
  assumes "distinct (map fst xs)" and "map_of xs h = Some x"
  shows "mset (AList.update h y xs) = add_mset (h, y) (mset (AList.delete h xs))"
  using assms
proof (induction xs)
  case (Cons z zs)
  show ?case
  proof (cases "fst z = h")
    case True
    with Cons.prems have "h \<notin> fst ` set zs" by (auto simp: image_iff)
    then have "AList.delete h zs = zs" by simp
    with True show ?thesis by (cases z) simp
  next
    case False
    with Cons show ?thesis by (cases z) auto
  qed
qed simp

lemma map_fst_update: "map_of xs h = Some x \<Longrightarrow> map fst (AList.update h y xs) = map fst xs"
  by (induction xs) auto

lemma set_delete_subset: "set (AList.delete h xs) \<subseteq> set xs"
  by (auto simp: AList.delete_eq)

lemma in_deleteD: "x \<in> set (AList.delete h xs) \<Longrightarrow> x \<in> set xs"
  by (simp add: AList.delete_eq)

lemma delete_subset_mset: "mset (AList.delete h xs) \<subseteq># mset xs"
  by (simp add: AList.delete_eq mset_filter)

lemma fst_delete: "fst ` set (AList.delete h xs) = fst ` set xs - {h}"
  by (force simp: AList.delete_eq)

lemma distinct_map_delete: "distinct (map fst xs) \<Longrightarrow> distinct (map fst (AList.delete h xs))"
  by (rule AList.distinct_delete)

lemma distinct_count_le: "distinct xs \<longleftrightarrow> (\<forall>x. count (mset xs) x \<le> 1)"
proof
  assume "distinct xs"
  then show "\<forall>x. count (mset xs) x \<le> 1" by (simp add: distinct_count_atmost_1)
next
  assume le: "\<forall>x. count (mset xs) x \<le> 1"
  have "count (mset xs) x = (if x \<in> set xs then 1 else 0)" for x
  proof (cases "x \<in> set xs")
    case True
    then have "count (mset xs) x > 0" by simp
    with True le show ?thesis by (simp add: le_antisym Suc_le_eq)
  next
    case False
    then show ?thesis by (simp add: not_in_iff [symmetric])
  qed
  then show "distinct xs" by (simp add: distinct_count_atmost_1)
qed

lemma distinct_subset_mset: "mset xs \<subseteq># mset ys \<Longrightarrow> distinct ys \<Longrightarrow> distinct xs"
  unfolding distinct_count_le by (meson le_trans mset_subset_eq_count)

lemma map_update_same:
  "map_of xs h = Some x \<Longrightarrow> f (h, y) = f (h, x) \<Longrightarrow> map f (AList.update h y xs) = map f xs"
  by (induction xs) auto

lemma set_update:
  "distinct (map fst xs) \<Longrightarrow> (h', z) \<in> set (AList.update h y xs) \<longleftrightarrow>
     (if h' = h then z = y else (h', z) \<in> set xs)"
  by (induction xs) (auto simp: image_iff)

end
