(* ===== verification/Fx_Hash.thy ===== *)
theory Fx_Hash
  imports Prelude
begin

section \<open>The key-table hasher\<close>

text \<open>
  \<open>FxHasher\<close> of \<open>crates/observe/src/lib.rs\<close>: a 64-bit multiply-xor-rotate hasher.  The record
  is the struct, \<open>fx_add\<close> the private \<open>add\<close>, and the \<open>write\<close> functions and \<open>finish\<close> are its
  \<open>Hasher\<close> implementation.  The lemmas show that mixing in a word is a permutation of the state
  (the seed is odd, so multiplication by it can be undone), that integer keys and byte strings of
  one length up to a word never collide, and where the zero padding of the tail does collide.
\<close>

record fx_hasher =
  fx_hash :: u64

definition fx_default :: fx_hasher where
  "fx_default = \<lparr>fx_hash = 0\<rparr>"

definition FX_SEED :: u64 where
  "FX_SEED = 0x517cc1b727220a95"

definition fx_add :: "u64 \<Rightarrow> fx_hasher \<Rightarrow> fx_hasher" where
  "fx_add w h = h\<lparr>fx_hash := (word_rotl 5 (fx_hash h) XOR w) * FX_SEED\<rparr>"

text \<open>\<open>u64::from_le_bytes\<close> on at most eight bytes, least significant byte first.\<close>

primrec from_le_bytes :: "u8 list \<Rightarrow> u64" where
  "from_le_bytes [] = 0"
| "from_le_bytes (b # bs) = ucast b OR push_bit 8 (from_le_bytes bs)"

definition to_le_bytes :: "u64 \<Rightarrow> u8 list" where
  "to_le_bytes w = map (\<lambda>i. ucast (drop_bit (8 * i) w)) [0..<8]"

text \<open>\<open>slice::chunks_exact(8)\<close> and its \<open>remainder()\<close>.\<close>

fun chunks8 :: "u8 list \<Rightarrow> u8 list list" where
  "chunks8 bs = (if length bs < 8 then [] else take 8 bs # chunks8 (drop 8 bs))"

fun remainder8 :: "u8 list \<Rightarrow> u8 list" where
  "remainder8 bs = (if length bs < 8 then bs else remainder8 (drop 8 bs))"

declare chunks8.simps [simp del] remainder8.simps [simp del]

definition fx_write :: "u8 list \<Rightarrow> fx_hasher \<Rightarrow> fx_hasher" where
  "fx_write bytes h =
     (let h' = fold (\<lambda>chunk. fx_add (from_le_bytes chunk)) (chunks8 bytes) h;
          tail = remainder8 bytes
      in if tail \<noteq> []
         then let padded = tail @ drop (length tail) (replicate 8 0)
              in fx_add (from_le_bytes padded) h'
         else h')"

definition fx_write_u64 :: "u64 \<Rightarrow> fx_hasher \<Rightarrow> fx_hasher" where
  "fx_write_u64 v h = fx_add v h"

definition fx_write_usize :: "usize \<Rightarrow> fx_hasher \<Rightarrow> fx_hasher" where
  "fx_write_usize v h = fx_add v h"

definition fx_finish :: "fx_hasher \<Rightarrow> u64" where
  "fx_finish h = fx_hash h"

subsection \<open>Mixing in a word is a permutation\<close>

text \<open>The inverse of the seed modulo \<open>2 ^ 64\<close>.\<close>

definition FX_SEED_INV :: u64 where
  "FX_SEED_INV = 0x2040003d780970bd"

lemma seed_times_inv: "FX_SEED * FX_SEED_INV = 1"
  by (simp add: FX_SEED_def FX_SEED_INV_def)

lemma seed_mult_cancel: "a * FX_SEED = b * FX_SEED \<longleftrightarrow> a = b"
proof
  assume "a * FX_SEED = b * FX_SEED"
  then have "a * FX_SEED * FX_SEED_INV = b * FX_SEED * FX_SEED_INV" by simp
  then show "a = b" by (simp add: mult.assoc seed_times_inv)
qed simp

lemma fx_add_inj_word: "fx_add a h = fx_add b h \<longleftrightarrow> a = b"
proof -
  have "x XOR a = x XOR b \<longleftrightarrow> a = b" for x :: u64
    by (auto simp: bit_eq_iff bit_xor_iff)
  then show ?thesis by (cases h) (simp add: fx_add_def seed_mult_cancel)
qed

lemma word_rotl_inj: "word_rotl n a = word_rotl n b \<longleftrightarrow> a = (b :: u64)"
  by (metis word_rot_lr)

lemma fx_add_inj_state: "fx_add w g = fx_add w h \<longleftrightarrow> g = h"
proof -
  have "a XOR w = b XOR w \<longleftrightarrow> a = b" for a b :: u64
    by (auto simp: bit_eq_iff bit_xor_iff)
  then show ?thesis
    by (cases g, cases h) (simp add: fx_add_def seed_mult_cancel word_rotl_inj)
qed

lemma fx_hash_inject: "fx_finish g = fx_finish h \<longleftrightarrow> g = h"
  by (cases g, cases h) (simp add: fx_finish_def)

subsection \<open>Bytes and words\<close>

lemma bit_from_le_bytes:
  "length bs \<le> 8 \<Longrightarrow>
   bit (from_le_bytes bs) n \<longleftrightarrow> n div 8 < length bs \<and> bit (bs ! (n div 8)) (n mod 8)"
proof (induction bs arbitrary: n)
  case Nil
  then show ?case by simp
next
  case (Cons b bs)
  show ?case
  proof (cases "n < 8")
    case True
    then show ?thesis
      by (auto simp: bit_or_iff bit_ucast_iff bit_push_bit_iff)
  next
    case False
    have high: "\<not> bit b n"
      using False bit_imp_le_length [of b n] by auto
    from False Cons.prems Cons.IH [of "n - 8"] high show ?thesis
      by (auto simp: bit_or_iff bit_ucast_iff bit_push_bit_iff le_div_geq le_mod_geq
          dest: bit_imp_le_length)
  qed
qed

lemma from_le_bytes_inj:
  assumes "length a = length b" and "length a \<le> 8" and "from_le_bytes a = from_le_bytes b"
  shows "a = b"
proof (rule nth_equalityI)
  fix i
  assume i: "i < length a"
  show "a ! i = b ! i"
  proof (rule bit_word_eqI)
    fix n
    assume "n < LENGTH(8)"
    then have n: "n < 8" by simp
    have "bit (from_le_bytes a) (8 * i + n) = bit (from_le_bytes b) (8 * i + n)"
      using assms(3) by simp
    with assms(1,2) i n show "bit (a ! i) n = bit (b ! i) n"
      by (simp add: bit_from_le_bytes)
  qed
qed (use assms in simp)

lemma from_le_bytes_pad: "from_le_bytes (bs @ replicate n 0) = from_le_bytes bs"
proof (induction bs)
  case Nil
  show ?case by (induction n) auto
qed simp

lemma length_to_le_bytes [simp]: "length (to_le_bytes w) = 8"
  by (simp add: to_le_bytes_def)

lemma from_to_le_bytes: "from_le_bytes (to_le_bytes w) = w"
proof (rule bit_word_eqI)
  fix n
  assume "n < LENGTH(64)"
  then have n: "n div 8 < 8" by simp
  have "8 * (n div 8) + n mod 8 = n" by simp
  with n show "bit (from_le_bytes (to_le_bytes w)) n = bit w n"
    by (simp add: bit_from_le_bytes to_le_bytes_def bit_ucast_iff bit_drop_bit_eq)
qed

subsection \<open>Hashing byte strings\<close>

lemma chunks8_short: "length bs < 8 \<Longrightarrow> chunks8 bs = []"
  by (simp add: chunks8.simps)

lemma remainder8_short: "length bs < 8 \<Longrightarrow> remainder8 bs = bs"
  by (simp add: remainder8.simps)

lemma length_remainder8: "length (remainder8 bs) = length bs mod 8"
proof (induction bs rule: remainder8.induct)
  case (1 bs)
  then show ?case by (cases "length bs < 8") (auto simp: remainder8.simps [of bs] le_mod_geq)
qed

lemma chunks8_append:
  "8 dvd length as \<Longrightarrow> chunks8 (as @ bs) = chunks8 as @ chunks8 bs"
proof (induction as rule: chunks8.induct)
  case (1 as)
  show ?case
  proof (cases "length as < 8")
    case True
    with 1(2) have "as = []" by (auto dest: dvd_imp_le)
    then show ?thesis by (simp add: chunks8_short)
  next
    case False
    with 1(2) have "8 dvd length (drop 8 as)" by simp
    with False 1(1) show ?thesis
      by (simp add: chunks8.simps [of as] chunks8.simps [of "as @ bs"])
  qed
qed

lemma remainder8_append:
  "8 dvd length as \<Longrightarrow> remainder8 (as @ bs) = remainder8 bs"
proof (induction as rule: chunks8.induct)
  case (1 as)
  show ?case
  proof (cases "length as < 8")
    case True
    with 1(2) have "as = []" by (auto dest: dvd_imp_le)
    then show ?thesis by simp
  next
    case False
    with 1(2) have "8 dvd length (drop 8 as)" by simp
    with False 1(1) show ?thesis by (simp add: remainder8.simps [of "as @ bs"])
  qed
qed

lemma fx_write_whole: "remainder8 bs = [] \<Longrightarrow>
    fx_write bs h = fold (\<lambda>chunk. fx_add (from_le_bytes chunk)) (chunks8 bs) h"
  by (simp add: fx_write_def)

lemma drop_replicate_pad: "length t \<le> 8 \<Longrightarrow>
    t @ drop (length t) (replicate 8 (0::u8)) = t @ replicate (8 - length t) 0"
  by simp

lemma fx_write_short:
  assumes "length bs \<le> 8" and "bs \<noteq> []"
  shows "fx_write bs h = fx_add (from_le_bytes bs) h"
proof (cases "length bs < 8")
  case True
  with assms show ?thesis
    by (simp add: fx_write_def Let_def chunks8_short remainder8_short from_le_bytes_pad)
next
  case False
  with assms have "length bs = 8" by simp
  then have "chunks8 bs = [bs]" "remainder8 bs = []"
    by (simp_all add: chunks8.simps [of bs] remainder8.simps [of bs] chunks8_short remainder8_short)
  then show ?thesis by (simp add: fx_write_def)
qed

text \<open>
  Hashing in two calls is hashing the concatenation, whenever the first call ends on a word
  boundary.
\<close>

lemma fx_write_append:
  "8 dvd length as \<Longrightarrow> fx_write (as @ bs) h = fx_write bs (fx_write as h)"
proof -
  assume dvd: "8 dvd length as"
  then have "remainder8 as = []"
    using length_remainder8 [of as] by auto
  with dvd show ?thesis
    by (simp add: fx_write_whole fx_write_def Let_def chunks8_append remainder8_append)
qed

lemma fx_write_append_witness:
  "fx_write ([1, 2, 3, 4, 5, 6, 7, 8] @ [9]) fx_default
     = fx_write [9] (fx_write [1, 2, 3, 4, 5, 6, 7, 8] fx_default)"
  by (rule fx_write_append) (simp add: numeral_eq_Suc)

lemma fx_write_u64_bytes: "fx_write (to_le_bytes v) h = fx_write_u64 v h"
proof -
  have "to_le_bytes v \<noteq> []" using length_to_le_bytes [of v] by force
  then show ?thesis
    by (simp add: fx_write_short fx_write_u64_def from_to_le_bytes)
qed

text \<open>
  C28: Two byte strings of one length up to a machine word never get the same hash, from whatever
  state the hasher is in: short keys of a fixed width are hashed without collisions.
\<close>

theorem fx_short_keys_never_collide:
  "length a = length b \<Longrightarrow> length a \<le> 8 \<Longrightarrow>
   fx_finish (fx_write a h) = fx_finish (fx_write b h) \<Longrightarrow> a = b"
  by (cases "a = []"; cases "b = []")
    (auto simp: fx_hash_inject fx_write_short fx_add_inj_word intro: from_le_bytes_inj)

theorem fx_short_keys_never_collide_witness:
  "fx_finish (fx_write [1, 2] fx_default) \<noteq> fx_finish (fx_write [2, 1] fx_default)"
  using fx_short_keys_never_collide [of "[1, 2]" "[2, 1]" fx_default] by auto

text \<open>
  The hash of an integer key is injective: for \<open>u64\<close> keys (and \<open>usize\<close> keys on this target)
  the table never sees two keys with one 64-bit hash.
\<close>

lemma fx_u64_injective:
  "fx_finish (fx_write_u64 a h) = fx_finish (fx_write_u64 b h) \<longleftrightarrow> a = b"
  by (simp add: fx_write_u64_def fx_hash_inject fx_add_inj_word)

end
