(* ===== verification/Key_Table.thy ===== *)
theory Key_Table
  imports Prelude
begin

section \<open>The key table\<close>

text \<open>
  \<open>SlotEntry\<close>, \<open>SmallMap\<close> and its operations from \<open>crates/observe/src/lib.rs\<close>: an inline vector of
  \<open>(key, entry)\<close> pairs that promotes itself to a hash map when a fifth key arrives.  The standard
  library's \<open>HashMap\<close> is an association list with distinct keys, because the code never looks at
  its order.  The locale \<open>key_table\<close> is what the rest of the crate relies on; its interpretation
  \<open>table\<close> proves it of \<open>SmallMap\<close>, so promotion is invisible to every client.
\<close>

record slot_entry =
  generation :: usize
  entry_slot :: slot_id

definition INLINE_CAP :: nat where
  "INLINE_CAP = 4"

datatype 'k small_map =
    Inline "('k \<times> slot_entry) list"
  | Hash "('k \<times> slot_entry) list"

definition sm_default :: "'k small_map" where
  "sm_default = Inline []"

fun sm_get :: "'k \<Rightarrow> 'k small_map \<Rightarrow> slot_entry option" where
  "sm_get key (Inline entries) = map_option snd (List.find (\<lambda>(k, _). k = key) entries)"
| "sm_get key (Hash hm) = map_of hm key"

fun is_vacant :: "'k \<Rightarrow> 'k small_map \<Rightarrow> bool" where
  "is_vacant key (Inline entries) = (\<not> list_ex (\<lambda>(k, _). k = key) entries)"
| "is_vacant key (Hash hm) = (map_of hm key = None)"

text \<open>\<open>map.extend(entries.drain(..))\<close>: the inline pairs enter the hash map one after the other.\<close>

definition hash_extend :: "('k \<times> slot_entry) list \<Rightarrow> ('k \<times> slot_entry) list \<Rightarrow> ('k \<times> slot_entry) list" where
  "hash_extend hm entries = fold (\<lambda>(k, e). AList.update k e) entries hm"

fun insert_vacant :: "'k \<Rightarrow> slot_entry \<Rightarrow> 'k small_map \<Rightarrow> 'k small_map" where
  "insert_vacant key entry (Inline entries) =
     (if length entries \<ge> INLINE_CAP
      then Hash (AList.update key entry (hash_extend [] entries))
      else Inline (entries @ [(key, entry)]))"
| "insert_vacant key entry (Hash hm) = Hash (AList.update key entry hm)"

fun remove_if :: "'k \<Rightarrow> usize \<Rightarrow> 'k small_map \<Rightarrow> bool \<times> 'k small_map" where
  "remove_if key gen (Inline entries) =
     (case position (\<lambda>(k, _). k = key) entries of
        Some index \<Rightarrow>
          if generation (snd (entries ! index)) = gen
          then (True, Inline (swap_remove index entries))
          else (False, Inline entries)
      | None \<Rightarrow> (False, Inline entries))"
| "remove_if key gen (Hash hm) =
     (case map_of hm key of
        Some entry \<Rightarrow>
          if generation entry = gen then (True, Hash (AList.delete key hm)) else (False, Hash hm)
      | None \<Rightarrow> (False, Hash hm))"

fun sm_entries :: "'k small_map \<Rightarrow> ('k \<times> slot_entry) list" where
  "sm_entries (Inline entries) = entries"
| "sm_entries (Hash hm) = hm"

text \<open>Well-formedness: no key twice, and the inline form never outgrows its capacity.\<close>

fun sm_wf :: "'k small_map \<Rightarrow> bool" where
  "sm_wf (Inline entries) = (distinct (map fst entries) \<and> length entries \<le> INLINE_CAP)"
| "sm_wf (Hash hm) = distinct (map fst hm)"

subsection \<open>A client and a reference\<close>

text \<open>
  What \<open>ObservationSpace\<close> and \<open>Subject\<close> do with the table: they look a key up, insert it when it is
  vacant, and remove it when the generation is theirs.  \<open>map_replies\<close> is the same client on a map.
\<close>

datatype ('k, 'e, 'g) table_op = Lookup 'k | Insert_if_vacant 'k 'e | Remove_generation 'k 'g

datatype 'e table_reply = Found "'e option" | Inserted bool | Removed bool

fun table_replies :: "('k \<Rightarrow> 't \<Rightarrow> 'e option) \<Rightarrow> ('k \<Rightarrow> 't \<Rightarrow> bool) \<Rightarrow> ('k \<Rightarrow> 'e \<Rightarrow> 't \<Rightarrow> 't) \<Rightarrow>
    ('k \<Rightarrow> 'g \<Rightarrow> 't \<Rightarrow> bool \<times> 't) \<Rightarrow> ('k, 'e, 'g) table_op list \<Rightarrow> 't \<Rightarrow> 'e table_reply list" where
  "table_replies look vac ins rem [] t = []"
| "table_replies look vac ins rem (Lookup k # ops) t = Found (look k t) # table_replies look vac ins rem ops t"
| "table_replies look vac ins rem (Insert_if_vacant k e # ops) t =
     Inserted (vac k t) # table_replies look vac ins rem ops (if vac k t then ins k e t else t)"
| "table_replies look vac ins rem (Remove_generation k g # ops) t =
     (case rem k g t of (b, t') \<Rightarrow> Removed b # table_replies look vac ins rem ops t')"

definition map_remove :: "('e \<Rightarrow> 'g) \<Rightarrow> 'k \<Rightarrow> 'g \<Rightarrow> ('k \<rightharpoonup> 'e) \<Rightarrow> bool \<times> ('k \<rightharpoonup> 'e)" where
  "map_remove gen k g m = (case m k of
     Some e \<Rightarrow> if gen e = g then (True, m(k := None)) else (False, m)
   | None \<Rightarrow> (False, m))"

definition map_replies :: "('e \<Rightarrow> 'g) \<Rightarrow> ('k, 'e, 'g) table_op list \<Rightarrow> ('k \<rightharpoonup> 'e) \<Rightarrow> 'e table_reply list" where
  "map_replies gen = table_replies (\<lambda>k m. m k) (\<lambda>k m. m k = None) (\<lambda>k e m. m(k \<mapsto> e)) (map_remove gen)"

subsection \<open>The interface\<close>

text \<open>
  \<open>content\<close> is the multiset of pairs the table owns: it says which \<open>Arc\<close> handles the table
  holds, which the lookup function alone does not.
\<close>

locale key_table =
  fixes empty :: "'t"
    and lookup :: "'k \<Rightarrow> 't \<Rightarrow> 'e option"
    and vacant :: "'k \<Rightarrow> 't \<Rightarrow> bool"
    and insert :: "'k \<Rightarrow> 'e \<Rightarrow> 't \<Rightarrow> 't"
    and remove :: "'k \<Rightarrow> 'g \<Rightarrow> 't \<Rightarrow> bool \<times> 't"
    and gen :: "'e \<Rightarrow> 'g"
    and content :: "'t \<Rightarrow> ('k \<times> 'e) multiset"
    and invar :: "'t \<Rightarrow> bool"
  assumes invar_empty: "invar empty"
    and invar_insert: "invar t \<Longrightarrow> lookup k t = None \<Longrightarrow> invar (insert k e t)"
    and invar_remove: "invar t \<Longrightarrow> invar (snd (remove k g t))"
    and content_empty: "content empty = {#}"
    and lookup_content: "invar t \<Longrightarrow> lookup k t = Some e \<longleftrightarrow> (k, e) \<in># content t"
    and vacant_lookup: "invar t \<Longrightarrow> vacant k t \<longleftrightarrow> lookup k t = None"
    and content_insert: "invar t \<Longrightarrow> lookup k t = None \<Longrightarrow>
          content (insert k e t) = add_mset (k, e) (content t)"
    and remove_hit: "invar t \<Longrightarrow> lookup k t = Some e \<Longrightarrow> gen e = g \<Longrightarrow>
          fst (remove k g t) \<and> add_mset (k, e) (content (snd (remove k g t))) = content t"
    and remove_gone: "invar t \<Longrightarrow> fst (remove k g t) \<Longrightarrow> lookup k (snd (remove k g t)) = None"
    and remove_miss: "invar t \<Longrightarrow> \<forall>e. lookup k t = Some e \<longrightarrow> gen e \<noteq> g \<Longrightarrow>
          remove k g t = (False, t)"
begin

lemma lookup_empty: "lookup k empty = None"
  using lookup_content [OF invar_empty, of k] content_empty by (cases "lookup k empty") auto

lemma lookup_insert:
  assumes "invar t" and "lookup k t = None"
  shows "lookup k' (insert k e t) = (if k' = k then Some e else lookup k' t)"
proof -
  have iff: "lookup k' (insert k e t) = Some x \<longleftrightarrow> (k' = k \<and> x = e) \<or> lookup k' t = Some x" for x
    using lookup_content [OF invar_insert [OF assms]] lookup_content [OF assms(1)]
    by (auto simp: content_insert [OF assms])
  show ?thesis
  proof (cases "k' = k")
    case True
    with iff [of e] show ?thesis by simp
  next
    case False
    then have "lookup k' (insert k e t) = lookup k' t"
      using iff by (intro option_eqI) simp
    with False show ?thesis by simp
  qed
qed

lemma remove_iff: "invar t \<Longrightarrow> fst (remove k g t) \<longleftrightarrow> (\<exists>e. lookup k t = Some e \<and> gen e = g)"
  using remove_hit [of t k] remove_miss [of t k g] by (metis fst_conv)

lemma lookup_remove:
  assumes "invar t"
  shows "lookup k' (snd (remove k g t)) =
    (if k' = k \<and> (\<exists>e. lookup k t = Some e \<and> gen e = g) then None else lookup k' t)"
proof (cases "\<exists>e. lookup k t = Some e \<and> gen e = g")
  case True
  then obtain e where e: "lookup k t = Some e" "gen e = g" by auto
  let ?t = "snd (remove k g t)"
  have inv: "invar ?t" using assms by (rule invar_remove)
  have cont: "add_mset (k, e) (content ?t) = content t"
    using remove_hit [OF assms e] by simp
  have split: "lookup k'' t = Some x \<longleftrightarrow> (k'' = k \<and> x = e) \<or> lookup k'' ?t = Some x" for k'' x
    using lookup_content [OF assms, of k'' x] lookup_content [OF inv, of k'' x]
    by (auto simp flip: cont)
  have gone: "lookup k ?t = None"
    using remove_gone [OF assms] remove_hit [OF assms e] by blast
  show ?thesis
  proof (cases "k' = k")
    case eq: True
    from True have "(if k' = k \<and> (\<exists>e. lookup k t = Some e \<and> gen e = g) then None else lookup k' t) = None"
      using eq by (simp only: simp_thms if_True)
    with gone eq show ?thesis by simp
  next
    case False
    then have "lookup k' ?t = lookup k' t"
      using split [of k'] by (intro option_eqI) simp
    with False show ?thesis by simp
  qed
next
  case False
  then show ?thesis using remove_miss [OF assms, of k g] by auto
qed

text \<open>Taking an entry out again right after putting it in is invisible.\<close>

lemma insert_remove:
  assumes "invar t" and "lookup k t = None"
  shows "fst (remove k (gen e) (insert k e t))"
    and "lookup k' (snd (remove k (gen e) (insert k e t))) = lookup k' t"
  using assms lookup_remove [OF invar_insert [OF assms], of k' k "gen e" e]
    remove_iff [OF invar_insert [OF assms], of k "gen e" e]
  by (auto simp: lookup_insert)

text \<open>An entry of another generation is never removed, and nothing else changes.\<close>

lemma remove_stale:
  "invar t \<Longrightarrow> lookup k t = Some e \<Longrightarrow> gen e \<noteq> g \<Longrightarrow> remove k g t = (False, t)"
  by (rule remove_miss) auto

text \<open>Whatever its representation, a table answers like a map.\<close>

lemma same_replies:
  "invar t \<Longrightarrow> (\<And>k. lookup k t = m k) \<Longrightarrow> table_replies lookup vacant insert remove ops t = map_replies gen ops m"
proof (induction ops arbitrary: t m)
  case Nil
  then show ?case by (simp add: map_replies_def)
next
  case (Cons op ops)
  show ?case
  proof (cases op)
    case (Lookup k)
    with Cons.IH [OF Cons.prems] Cons.prems(2) show ?thesis by (simp add: map_replies_def)
  next
    case (Insert_if_vacant k e)
    show ?thesis
    proof (cases "lookup k t")
      case None
      have "lookup k' (insert k e t) = (m(k \<mapsto> e)) k'" for k'
        by (simp add: lookup_insert [OF Cons.prems(1) None] Cons.prems(2))
      from Cons.IH [OF invar_insert [OF Cons.prems(1) None] this] None Cons.prems Insert_if_vacant
      show ?thesis by (simp add: map_replies_def vacant_lookup del: fun_upd_apply)
    next
      case (Some x)
      with Cons.IH [OF Cons.prems] Cons.prems Insert_if_vacant show ?thesis by (simp add: map_replies_def vacant_lookup)
    qed
  next
    case (Remove_generation k g)
    have "lookup k' (snd (remove k g t)) = snd (map_remove gen k g m) k'" for k'
      by (auto simp: lookup_remove [OF Cons.prems(1)] Cons.prems(2) map_remove_def split: option.split)
    note rest = Cons.IH [OF invar_remove [OF Cons.prems(1)] this]
    have "fst (remove k g t) = fst (map_remove gen k g m)"
      by (auto simp: remove_iff [OF Cons.prems(1)] Cons.prems(2) map_remove_def split: option.split)
    with rest Remove_generation show ?thesis by (simp add: map_replies_def case_prod_unfold)
  qed
qed

lemma remove_other: "invar t \<Longrightarrow> k' \<noteq> k \<Longrightarrow> lookup k' (snd (remove k g t)) = lookup k' t"
  by (simp add: lookup_remove)

end

subsection \<open>The small map provides it\<close>

lemma find_map_of: "map_option snd (List.find (\<lambda>(k, _). k = key) xs) = map_of xs key"
  by (induction xs) auto

lemma sm_get_map_of: "sm_get key m = map_of (sm_entries m) key"
  by (cases m) (simp_all add: find_map_of)

lemma sm_wf_distinct: "sm_wf m \<Longrightarrow> distinct (map fst (sm_entries m))"
  by (cases m) simp_all

lemma is_vacant_get: "is_vacant key m \<longleftrightarrow> sm_get key m = None"
  by (cases m) (force simp: sm_get_map_of list_ex_iff map_of_eq_None_iff)+

lemma AList_update_fresh: "k \<notin> fst ` set xs \<Longrightarrow> AList.update k e xs = xs @ [(k, e)]"
  by (induction xs) auto

lemma hash_extend_fresh:
  "distinct (map fst xs) \<Longrightarrow> fst ` set xs \<inter> fst ` set m = {} \<Longrightarrow> hash_extend m xs = m @ xs"
proof (induction xs arbitrary: m)
  case Nil
  then show ?case by (simp add: hash_extend_def)
next
  case (Cons x xs)
  then have "AList.update (fst x) (snd x) m = m @ [x]"
    by (simp add: AList_update_fresh)
  moreover have "hash_extend (m @ [x]) xs = (m @ [x]) @ xs"
    using Cons.prems by (intro Cons.IH) auto
  ultimately show ?case by (simp add: hash_extend_def case_prod_unfold)
qed

lemma sm_entries_insert:
  assumes "sm_wf m" and "sm_get key m = None"
  shows "sm_entries (insert_vacant key e m) = sm_entries m @ [(key, e)]"
  using assms
  by (cases m)
    (simp_all add: sm_get_map_of map_of_eq_None_iff hash_extend_fresh AList_update_fresh)

lemma sm_wf_insert:
  assumes "sm_wf m" and "sm_get key m = None"
  shows "sm_wf (insert_vacant key e m)"
proof -
  have "distinct (map fst (sm_entries (insert_vacant key e m)))"
    using assms sm_wf_distinct [of m]
    by (auto simp: sm_entries_insert sm_get_map_of map_of_eq_None_iff)
  moreover have "length (sm_entries (insert_vacant key e m)) \<le> INLINE_CAP"
    if "insert_vacant key e m = Inline xs" for xs
    using that assms by (cases m) (auto split: if_splits)
  ultimately show ?thesis by (cases "insert_vacant key e m") auto
qed

lemma position_key:
  assumes "distinct (map fst xs)"
  shows "position (\<lambda>(k, _). k = key) xs = Some i \<longleftrightarrow> i < length xs \<and> fst (xs ! i) = key"
proof
  assume "position (\<lambda>(k, _). k = key) xs = Some i"
  then show "i < length xs \<and> fst (xs ! i) = key"
    by (auto dest: position_Some simp: case_prod_unfold)
next
  assume i: "i < length xs \<and> fst (xs ! i) = key"
  then have "position (\<lambda>(k, _). k = key) xs \<noteq> None"
    by (auto simp: position_None case_prod_unfold)
  then obtain j where j: "position (\<lambda>(k, _). k = key) xs = Some j" by auto
  then have "j < length xs" "fst (xs ! j) = key"
    by (auto dest: position_Some simp: case_prod_unfold)
  with i assms have "j = i"
    by (metis distinct_conv_nth length_map nth_map)
  with j show "position (\<lambda>(k, _). k = key) xs = Some i" by simp
qed

lemma map_of_nth_key:
  "distinct (map fst xs) \<Longrightarrow> map_of xs key = Some e \<longleftrightarrow> (\<exists>i<length xs. xs ! i = (key, e))"
  by (auto simp: in_set_conv_nth)

lemma sm_remove_hit:
  assumes wf: "sm_wf m" and get: "sm_get key m = Some e" and gen: "generation e = g"
  shows "fst (remove_if key g m)"
    and "add_mset (key, e) (mset (sm_entries (snd (remove_if key g m)))) = mset (sm_entries m)"
    and "sm_wf (snd (remove_if key g m))"
proof -
  have "fst (remove_if key g m) \<and>
      add_mset (key, e) (mset (sm_entries (snd (remove_if key g m)))) = mset (sm_entries m) \<and>
      sm_wf (snd (remove_if key g m))"
  proof (cases m)
    case (Inline xs)
    with wf have dist: "distinct (map fst xs)" and len: "length xs \<le> INLINE_CAP" by auto
    from get Inline obtain i where i: "i < length xs" "xs ! i = (key, e)"
      using map_of_nth_key [OF dist, of key e] by (auto simp: sm_get_map_of)
    have pos: "position (\<lambda>(k, _). k = key) xs = Some i"
      using i by (simp add: position_key [OF dist])
    have ms: "add_mset (key, e) (mset (swap_remove i xs)) = mset xs"
      using mset_swap_remove [OF i(1)] i(2) by simp
    then have "mset (key # map fst (swap_remove i xs)) = mset (map fst xs)"
      by (metis image_mset_add_mset mset.simps(2) mset_map fst_conv)
    with dist have "distinct (map fst (swap_remove i xs))"
      by (metis mset_eq_imp_distinct_iff distinct.simps(2))
    with ms pos i Inline len gen show ?thesis
      by (auto simp: length_swap_remove)
  next
    case (Hash xs)
    with wf have dist: "distinct (map fst xs)" by auto
    from get Hash have mem: "(key, e) \<in> set xs"
      by (auto simp: sm_get_map_of dest: map_of_SomeD)
    have "mset xs = add_mset (key, e) (mset (AList.delete key xs))"
      using dist mem by (intro alist_split) auto
    with Hash get gen dist show ?thesis
      by (auto simp: sm_get_map_of AList.distinct_delete)
  qed
  then show "fst (remove_if key g m)"
    and "add_mset (key, e) (mset (sm_entries (snd (remove_if key g m)))) = mset (sm_entries m)"
    and "sm_wf (snd (remove_if key g m))" by auto
qed

lemma sm_remove_miss:
  assumes "sm_wf m" and "\<forall>e. sm_get key m = Some e \<longrightarrow> generation e \<noteq> g"
  shows "remove_if key g m = (False, m)"
proof (cases m)
  case (Inline xs)
  with assms have dist: "distinct (map fst xs)" by auto
  show ?thesis
  proof (cases "position (\<lambda>(k, _). k = key) xs")
    case (Some i)
    then have "i < length xs" "fst (xs ! i) = key" using position_key [OF dist] by auto
    then have "map_of xs key = Some (snd (xs ! i))"
      by (metis dist map_of_is_SomeI nth_mem prod.collapse)
    with assms(2) Inline Some show ?thesis by (simp add: sm_get_map_of)
  qed (use Inline in simp)
next
  case (Hash xs)
  with assms show ?thesis by (auto simp: sm_get_map_of split: option.splits)
qed

interpretation table: key_table sm_default sm_get is_vacant insert_vacant remove_if generation
  "\<lambda>m. mset (sm_entries m)" sm_wf
proof (unfold_locales, goal_cases)
  case 1 show ?case by (simp add: sm_default_def)
next
  case 2 then show ?case by (rule sm_wf_insert)
next
  case (3 t k g)
  then show ?case
    using sm_remove_hit(3) sm_remove_miss by (metis snd_conv)
next
  case 4 show ?case by (simp add: sm_default_def)
next
  case 5 then show ?case by (simp add: sm_get_map_of sm_wf_distinct)
next
  case 6 show ?case by (rule is_vacant_get)
next
  case 7 then show ?case by (simp add: sm_entries_insert)
next
  case (8 t k e g) then show ?case using sm_remove_hit(1,2) [of t k e g] by simp
next
  case (9 t k g)
  then obtain e where e: "sm_get k t = Some e" "generation e = g"
    using sm_remove_miss by (metis fst_conv)
  have dist: "distinct (map fst (sm_entries t))" using 9 by (simp add: sm_wf_distinct)
  have "mset (map fst (sm_entries t)) = mset (k # map fst (sm_entries (snd (remove_if k g t))))"
    using sm_remove_hit(2) [OF 9(1) e] by (metis image_mset_add_mset mset.simps(2) mset_map fst_conv)
  with dist have "k \<notin> set (map fst (sm_entries (snd (remove_if k g t))))"
    by (metis mset_eq_imp_distinct_iff distinct.simps(2))
  then show ?case by (simp add: sm_get_map_of map_of_eq_None_iff)
next
  case 10 then show ?case by (rule sm_remove_miss)
qed

text \<open>
  C29: the key table is a map.  Every sequence of lookups, insertions of vacant keys and removals by
  generation gets from the table, which starts inline and promotes itself to a hash map, the answers
  it gets from a map; the promotion cannot be observed.
\<close>

theorem small_map_answers_like_a_map:
  "table_replies sm_get is_vacant insert_vacant remove_if ops sm_default = map_replies generation ops Map.empty"
  by (rule table.same_replies [OF table.invar_empty table.lookup_empty])

end
