(* ===== verification/Slot.thy ===== *)
theory Slot
  imports Prelude
begin

section \<open>The completion slot\<close>

text \<open>
  \<open>Slot<O>\<close> of \<open>crates/observe/src/lib.rs\<close>: the completion word, the outcome cell and the lazily
  created waiter registry.  The outcome cell is a \<open>MaybeUninit\<close>: \<open>None\<close> is an uninitialised (or
  moved-out) cell, and reading or dropping it then is a fault.  The registry pointer is \<open>None\<close>
  until the first waiter.  Here every operation of the slot runs on its own; \<open>Protocol\<close> takes the
  same operations apart into the atomic steps that other threads can interleave with.
\<close>

definition COMPLETED :: usize where
  "COMPLETED = push_bit 0 1"

definition HAS_WAITER :: usize where
  "HAS_WAITER = push_bit 1 1"

definition OUTCOME_VALID :: usize where
  "OUTCOME_VALID = push_bit 2 1"

datatype waiter =
    Thread thread_id
  | Waker (waker_of: waker) (persistent: bool) (future_owners: usize)

record 'o slot =
  state :: usize
  outcome :: "'o option"
  waiters :: "waiter list option"

definition slot_new :: "'o slot" where
  "slot_new = \<lparr>state = 0, outcome = None, waiters = None\<rparr>"

subsection \<open>The outcome cell and the completion word\<close>

definition outcome_ref :: "'o slot \<Rightarrow> fault + 'o" where
  "outcome_ref s = (case outcome s of None \<Rightarrow> Inl UninitRead | Some v \<Rightarrow> Inr v)"

definition set_outcome :: "'o \<Rightarrow> 'o slot \<Rightarrow> 'o slot" where
  "set_outcome v s = s\<lparr>outcome := Some v\<rparr>"

text \<open>
  \<open>drop_outcome\<close> runs the destructor of the user's type, which may panic: \<open>dp v\<close> says whether that of \<open>v\<close>
  does.  The value is gone in either case, and the cell must not be dropped again.
\<close>

definition drop_outcome :: "('o \<Rightarrow> bool) \<Rightarrow> 'o slot \<Rightarrow> fault + unit call \<times> 'o list \<times> 'o slot" where
  "drop_outcome dp s = (case outcome s of
     None \<Rightarrow> Inl UninitDrop
   | Some v \<Rightarrow> Inr (if dp v then Panic OutcomeDropPanicked else Ret (), [v], s\<lparr>outcome := None\<rparr>))"

text \<open>The two read-modify-write operations on the word; both return the previous value.\<close>

definition fetch_or :: "usize \<Rightarrow> 'o slot \<Rightarrow> usize \<times> 'o slot" where
  "fetch_or m s = (state s, s\<lparr>state := state s OR m\<rparr>)"

definition fetch_and :: "usize \<Rightarrow> 'o slot \<Rightarrow> usize \<times> 'o slot" where
  "fetch_and m s = (state s, s\<lparr>state := state s AND m\<rparr>)"

text \<open>\<open>Slot::waiters\<close>: the registry, created by the first access.\<close>

definition registry :: "'o slot \<Rightarrow> waiter list \<times> 'o slot" where
  "registry s = (case waiters s of
     Some ws \<Rightarrow> (ws, s)
   | None \<Rightarrow> ([], s\<lparr>waiters := Some []\<rparr>))"

subsection \<open>Publication\<close>

text \<open>What a notified waiter sees.\<close>

datatype wake_event = Unparked thread_id | Woken waker

text \<open>
  The drain loop of \<open>Slot::complete\<close>: every waiter is notified, a panicking \<open>wake\<close> is caught and
  remembered, and the loop goes on.  \<open>wp w\<close> says whether the user's \<open>wake\<close> of \<open>w\<close> panics.
\<close>

fun notify_all :: "(waker \<Rightarrow> bool) \<Rightarrow> waiter list \<Rightarrow> wake_event list \<times> panic list" where
  "notify_all wp [] = ([], [])"
| "notify_all wp (Thread t # ws) =
     (let (evs, panics) = notify_all wp ws in (Unparked t # evs, panics))"
| "notify_all wp (Waker w p n # ws) =
     (let (evs, panics) = notify_all wp ws
      in (Woken w # evs, if wp w then WakePanicked w # panics else panics))"

definition slot_complete ::
  "(waker \<Rightarrow> bool) \<Rightarrow> 'o \<Rightarrow> 'o slot \<Rightarrow> fault + unit call \<times> wake_event list \<times> 'o slot" where
  "slot_complete wp v s =
     (let s1 = set_outcome v s;
          (previous, s2) = fetch_or (COMPLETED OR OUTCOME_VALID) s1
      in if previous AND COMPLETED \<noteq> 0 then Inl CompletedTwice
         else if previous AND HAS_WAITER \<noteq> 0 then
           let (ws, s3) = registry s2;
               s4 = s3\<lparr>waiters := Some []\<rparr>;
               (evs, panics) = notify_all wp ws
           in (case panics of
                 p # _ \<Rightarrow> Inr (Panic p, evs, s4)
               | [] \<Rightarrow> Inr (Ret (), evs, s4))
         else Inr (Ret (), [], s2))"

subsection \<open>Recycling and destruction\<close>

text \<open>
  A panic of the destructor unwinds out of \<open>reset\<close> before the registry is cleared and the word stored:
  \<open>OUTCOME_VALID\<close> is then still set over a cell whose value is gone.
\<close>

definition slot_reset :: "('o \<Rightarrow> bool) \<Rightarrow> 'o slot \<Rightarrow> fault + unit call \<times> 'o list \<times> 'o slot" where
  "slot_reset dp s =
     (let st = state s
      in case (if st AND OUTCOME_VALID \<noteq> 0 then drop_outcome dp s else Inr (Ret (), [], s)) of
           Inl f \<Rightarrow> Inl f
         | Inr (Panic p, dropped, s1) \<Rightarrow> Inr (Panic p, dropped, s1)
         | Inr (Ret _, dropped, s1) \<Rightarrow>
             let s2 = (if st AND HAS_WAITER \<noteq> 0
                       then (case waiters s1 of
                               None \<Rightarrow> s1
                             | Some _ \<Rightarrow> s1\<lparr>waiters := Some []\<rparr>)
                       else s1)
             in Inr (Ret (), dropped, s2\<lparr>state := 0\<rparr>))"

text \<open>
  \<open>Drop for Slot\<close>: the values it destroys.  The registry goes with the slot when it returns; when the
  destructor of the outcome panics, the box of the registry is not freed.
\<close>

definition slot_drop :: "('o \<Rightarrow> bool) \<Rightarrow> 'o slot \<Rightarrow> fault + unit call \<times> 'o list" where
  "slot_drop dp s =
     (if state s AND OUTCOME_VALID \<noteq> 0 then
        (case drop_outcome dp s of Inl f \<Rightarrow> Inl f | Inr (r, dropped, _) \<Rightarrow> Inr (r, dropped))
      else Inr (Ret (), []))"

subsection \<open>Reading the completion word\<close>

abbreviation completed :: "'o slot \<Rightarrow> bool" where
  "completed s \<equiv> bit (state s) 0"

abbreviation has_waiter :: "'o slot \<Rightarrow> bool" where
  "has_waiter s \<equiv> bit (state s) (Suc 0)"

abbreviation outcome_valid :: "'o slot \<Rightarrow> bool" where
  "outcome_valid s \<equiv> bit (state s) 2"

lemma test_bits [slot_bits]:
  "w AND COMPLETED = 0 \<longleftrightarrow> \<not> bit w 0"
  "w AND HAS_WAITER = 0 \<longleftrightarrow> \<not> bit w (Suc 0)"
  "w AND OUTCOME_VALID = 0 \<longleftrightarrow> \<not> bit w 2"
  unfolding COMPLETED_def HAS_WAITER_def OUTCOME_VALID_def One_nat_def by (rule and_mask_bit)+

lemma mask_bits [slot_bits]:
  "bit COMPLETED n \<longleftrightarrow> n = 0"
  "bit HAS_WAITER n \<longleftrightarrow> n = Suc 0"
  "bit OUTCOME_VALID n \<longleftrightarrow> n = 2"
  unfolding COMPLETED_def HAS_WAITER_def OUTCOME_VALID_def bit_mask by auto

lemma word_bits [slot_bits]:
  "bit (a OR b :: usize) n \<longleftrightarrow> bit a n \<or> bit b n"
  "bit (a AND b :: usize) n \<longleftrightarrow> bit a n \<and> bit b n"
  by (simp_all add: bit_or_iff bit_and_iff)

definition registered :: "'o slot \<Rightarrow> waiter list" where
  "registered s = (case waiters s of None \<Rightarrow> [] | Some ws \<Rightarrow> ws)"

lemma registry_registered [simp]:
  "fst (registry s) = registered s"
  "registered (snd (registry s)) = registered s"
  "state (snd (registry s)) = state s"
  "outcome (snd (registry s)) = outcome s"
  "waiters (snd (registry s)) \<noteq> None"
  "waiters (snd (registry s)) = Some (registered s)"
  by (auto simp: registry_def registered_def split: option.splits)

lemma registry_eq: "registry s = (registered s, s\<lparr>waiters := Some (registered s)\<rparr>)"
  by (cases s) (auto simp: registry_def registered_def split: option.splits)

lemma registered_update [simp]:
  "registered (s\<lparr>waiters := Some ws\<rparr>) = ws"
  "registered (s\<lparr>state := x\<rparr>) = registered s"
  "registered (s\<lparr>outcome := y\<rparr>) = registered s"
  by (simp_all add: registered_def)

subsection \<open>Well-formed slots\<close>

text \<open>
  Between operations the three bits, the cell and the registry agree: the cell holds a value
  exactly when \<open>OUTCOME_VALID\<close> is set, \<open>COMPLETED\<close> and \<open>OUTCOME_VALID\<close> go together, nobody is
  registered unless \<open>HAS_WAITER\<close> is set, \<open>HAS_WAITER\<close> implies that the registry exists, a
  completed slot has been drained, and no two registry entries stand for one waker.
\<close>

fun wakers_of :: "waiter list \<Rightarrow> waker list" where
  "wakers_of [] = []"
| "wakers_of (Thread t # ws) = wakers_of ws"
| "wakers_of (Waker w p n # ws) = w # wakers_of ws"

fun live_waiter :: "waiter \<Rightarrow> bool" where
  "live_waiter (Thread t) = True"
| "live_waiter (Waker w p n) = (p \<or> n \<noteq> 0)"

definition registry_ok :: "waiter list \<Rightarrow> bool" where
  "registry_ok ws \<longleftrightarrow> distinct (wakers_of ws) \<and> list_all live_waiter ws"

definition slot_ok :: "'o slot \<Rightarrow> bool" where
  "slot_ok s \<longleftrightarrow>
     (completed s \<longleftrightarrow> outcome_valid s) \<and>
     (outcome_valid s \<longleftrightarrow> outcome s \<noteq> None) \<and>
     (\<not> has_waiter s \<longrightarrow> registered s = []) \<and>
     (has_waiter s \<longrightarrow> waiters s \<noteq> None) \<and>
     (completed s \<longrightarrow> registered s = []) \<and>
     registry_ok (registered s)"

definition cell :: "'o slot \<Rightarrow> 'o list" where
  "cell s = (case outcome s of None \<Rightarrow> [] | Some v \<Rightarrow> [v])"

lemma registry_ok_Nil [simp]: "registry_ok []"
  by (simp add: registry_ok_def)

lemma slot_new_ok [simp]: "slot_ok slot_new"
  by (simp add: slot_ok_def slot_new_def registered_def)

lemma slot_new_simps [simp]:
  "state slot_new = 0" "outcome slot_new = None" "registered slot_new = []"
  by (simp_all add: slot_new_def registered_def)

lemma slot_ok_outcome: "slot_ok s \<Longrightarrow> completed s \<longleftrightarrow> outcome s \<noteq> None"
  by (auto simp: slot_ok_def)

lemma slot_ok_drained: "slot_ok s \<Longrightarrow> completed s \<Longrightarrow> registered s = []"
  by (auto simp: slot_ok_def)

lemma set_wakers_of: "w \<in> set (wakers_of ws) \<longleftrightarrow> (\<exists>p n. Waker w p n \<in> set ws)"
  by (induction ws rule: wakers_of.induct) auto

lemma wakers_of_append [simp]: "wakers_of (as @ bs) = wakers_of as @ wakers_of bs"
  by (induction as rule: wakers_of.induct) auto

subsection \<open>What publication does\<close>

fun event_of :: "waiter \<Rightarrow> wake_event" where
  "event_of (Thread t) = Unparked t"
| "event_of (Waker w p n) = Woken w"

text \<open>The value a drain returns: the panic of the first waker, in registration order, that panics.\<close>

definition drain_result :: "(waker \<Rightarrow> bool) \<Rightarrow> waiter list \<Rightarrow> unit call" where
  "drain_result wp ws = (case filter wp (wakers_of ws) of
     [] \<Rightarrow> Ret ()
   | w # _ \<Rightarrow> Panic (WakePanicked w))"

lemma notify_all_eq:
  "notify_all wp ws = (map event_of ws, map WakePanicked (filter wp (wakers_of ws)))"
  by (induction wp ws rule: notify_all.induct) auto

definition published_slot :: "'o \<Rightarrow> 'o slot \<Rightarrow> 'o slot" where
  "published_slot v s = s\<lparr>outcome := Some v, state := state s OR (COMPLETED OR OUTCOME_VALID),
     waiters := (if has_waiter s then Some [] else waiters s)\<rparr>"

lemma slot_complete_eq:
  assumes "slot_ok s" and "\<not> completed s"
  shows "slot_complete wp v s =
    Inr (drain_result wp (registered s), map event_of (registered s), published_slot v s)"
  using assms
  by (auto simp: slot_complete_def Let_def fetch_or_def set_outcome_def slot_bits registry_eq
      notify_all_eq drain_result_def published_slot_def slot_ok_def split: list.splits)

lemma slot_complete_twice: "completed s \<Longrightarrow> slot_complete wp v s = Inl CompletedTwice"
  by (simp add: slot_complete_def Let_def fetch_or_def set_outcome_def slot_bits)

lemma published_slot_simps [simp]:
  "completed (published_slot v s)"
  "outcome_valid (published_slot v s)"
  "outcome (published_slot v s) = Some v"
  "has_waiter (published_slot v s) = has_waiter s"
  by (simp_all add: published_slot_def slot_bits)

lemma published_slot_ok: "slot_ok s \<Longrightarrow> slot_ok (published_slot v s) \<and> registered (published_slot v s) = []"
  by (auto simp: slot_ok_def published_slot_def slot_bits registered_def)

text \<open>
  Publication on a pending slot always succeeds and notifies every registered waiter exactly
  once, in registration order, whatever the user's wakers do: a waker that panics strands no other
  waiter, and the panic that reaches the publisher is that of the first panicking waker.  The
  outcome is readable afterwards and the registry is empty.
\<close>

lemma complete_notifies_everyone:
  assumes "slot_ok s" and "\<not> completed s"
  shows "\<exists>s'. slot_complete wp v s = Inr (drain_result wp (registered s), map event_of (registered s), s')
     \<and> completed s' \<and> outcome s' = Some v \<and> registered s' = [] \<and> slot_ok s'"
  using slot_complete_eq [OF assms] published_slot_ok [OF assms(1), of v] by auto

definition waker_a :: waker where
  "waker_a = \<lparr>wdata = 0, wvtable = 0\<rparr>"

definition waker_b :: waker where
  "waker_b = \<lparr>wdata = 1, wvtable = 0\<rparr>"

lemma waker_a_b [simp]: "waker_a \<noteq> waker_b" "waker_b \<noteq> waker_a"
  by (simp_all add: waker_a_def waker_b_def)

lemma complete_notifies_everyone_witness:
  "\<exists>s'. slot_complete (\<lambda>w. True) (7 :: nat)
        \<lparr>state = 2, outcome = None, waiters = Some [Waker waker_a True 0, Thread 3, Waker waker_b False 1]\<rparr>
      = Inr (Panic (WakePanicked waker_a), [Woken waker_a, Unparked 3, Woken waker_b], s')"
proof -
  let ?s = "\<lparr>state = 2, outcome = None, waiters = Some [Waker waker_a True 0, Thread 3, Waker waker_b False 1]\<rparr>
      :: nat slot"
  have "slot_ok ?s" "\<not> completed ?s"
    by (simp_all add: slot_ok_def registered_def registry_ok_def)
  from complete_notifies_everyone [OF this, of "\<lambda>w. True" 7] show ?thesis
    by (auto simp: registered_def drain_result_def)
qed

subsection \<open>What recycling and destruction do\<close>

definition pristine_slot :: "'o slot \<Rightarrow> 'o slot" where
  "pristine_slot s = \<lparr>state = 0, outcome = None, waiters = map_option (\<lambda>_. []) (waiters s)\<rparr>"

definition drop_call :: "('o \<Rightarrow> bool) \<Rightarrow> 'o slot \<Rightarrow> unit call" where
  "drop_call dp s = (if list_ex dp (cell s) then Panic OutcomeDropPanicked else Ret ())"

lemma drop_call_quiet [simp]: "drop_call (\<lambda>_. False) s = Ret ()"
  by (simp add: drop_call_def list_ex_iff)

lemma slot_reset_eq:
  assumes "slot_ok s"
  shows "slot_reset dp s = Inr (drop_call dp s, cell s,
    if list_ex dp (cell s) then s\<lparr>outcome := None\<rparr> else pristine_slot s)"
  using assms
  by (cases s)
    (auto simp: slot_reset_def Let_def slot_bits drop_outcome_def drop_call_def slot_ok_def cell_def
      pristine_slot_def registered_def split: option.splits)

lemma pristine_slot_ok [simp]:
  "slot_ok (pristine_slot s)" "\<not> completed (pristine_slot s)" "outcome (pristine_slot s) = None"
  "registered (pristine_slot s) = []" "state (pristine_slot s) = 0"
  by (cases "waiters s"; simp add: slot_ok_def pristine_slot_def registered_def)+

lemma slot_drop_eq: "slot_ok s \<Longrightarrow> slot_drop dp s = Inr (drop_call dp s, cell s)"
  by (auto simp: slot_drop_def slot_bits drop_outcome_def drop_call_def slot_ok_def cell_def split: option.splits)

text \<open>
  What a panicking destructor leaves behind: a cell without a value under a word that says that it has
  one, so that dropping the slot drops the outcome a second time.
\<close>

lemma reset_panics_then_drop:
  assumes "slot_ok s" and "outcome s = Some v" and "dp v"
  shows "slot_reset dp s = Inr (Panic OutcomeDropPanicked, [v], s\<lparr>outcome := None\<rparr>)"
    and "slot_drop dp (s\<lparr>outcome := None\<rparr>) = Inl UninitDrop"
  using assms slot_reset_eq [OF assms(1), of dp]
  by (auto simp: cell_def drop_call_def slot_drop_def drop_outcome_def slot_bits slot_ok_def)

lemma cell_simps [simp]:
  "cell slot_new = []" "cell (pristine_slot s) = []" "cell (published_slot v s) = [v]"
  by (simp_all add: cell_def)

text \<open>
  A recycled slot is indistinguishable from a fresh one: no completion bit, no outcome, no
  registration of the previous generation survives, and the previous outcome, if there was one and its
  destructor returns, is destroyed exactly once.
\<close>

lemma reset_isolates_generations:
  assumes "slot_ok s" and "\<not> list_ex dp (cell s)"
  shows "\<exists>s'. slot_reset dp s = Inr (Ret (), cell s, s') \<and> state s' = 0 \<and> outcome s' = None
      \<and> registered s' = [] \<and> slot_drop dp s' = Inr (Ret (), [])"
  using slot_reset_eq [OF assms(1), of dp] slot_drop_eq [of "pristine_slot s" dp] assms(2)
  by (auto simp: drop_call_def)

lemma reset_isolates_generations_witness:
  "\<exists>s'. slot_reset (\<lambda>v. v = 3) \<lparr>state = 7, outcome = Some (5 :: nat), waiters = Some []\<rparr> = Inr (Ret (), [5], s')
      \<and> state s' = 0 \<and> outcome s' = None"
proof -
  let ?s = "\<lparr>state = 7, outcome = Some 5, waiters = Some []\<rparr> :: nat slot"
  have "slot_ok ?s" "\<not> list_ex (\<lambda>v. v = 3) (cell ?s)" by (simp_all add: slot_ok_def registered_def cell_def)
  from reset_isolates_generations [OF this] show ?thesis by (auto simp: cell_def)
qed

end
