(* ===== verification/Observer.thy ===== *)
theory Observer
  imports Slot
begin

section \<open>Observers of one slot\<close>

text \<open>
  The operations \<open>Observation<O>\<close> and \<open>ObservationFuture<O>\<close> of \<open>crates/observe/src/lib.rs\<close> perform
  on the slot they hold: reading, blocking, direct waker registration, polling, cancellation and
  moving the outcome out.  Each function is the code between the first and the last access to the
  slot, run without interference; the ownership of the handles is added in \<open>Space\<close> and the
  interleaving in \<open>Protocol\<close>.
\<close>

subsection \<open>Reading\<close>

definition try_get :: "'o slot \<Rightarrow> fault + 'o option" where
  "try_get s =
     (if state s AND COMPLETED \<noteq> 0
      then (case outcome_ref s of Inl f \<Rightarrow> Inl f | Inr v \<Rightarrow> Inr (Some v))
      else Inr None)"

text \<open>
  The part of \<open>into_outcome\<close> that runs on the slot once \<open>Arc::try_unwrap\<close> has handed it over: the
  value is moved out of the cell, and \<open>OUTCOME_VALID\<close> is cleared so that dropping the slot does
  not destroy it again.
\<close>

definition take_outcome :: "'o slot \<Rightarrow> fault + 'o option \<times> 'o slot" where
  "take_outcome s =
     (if state s AND COMPLETED \<noteq> 0
      then (case outcome_ref s of
              Inl f \<Rightarrow> Inl f
            | Inr v \<Rightarrow> Inr (Some v, snd (fetch_and (NOT OUTCOME_VALID) (s\<lparr>outcome := None\<rparr>))))
      else Inr (None, s))"

subsection \<open>Blocking\<close>

text \<open>
  One round of the loop of \<open>wait\<close>, up to the point where the thread parks.  \<open>push_thread\<close> is the
  guarded \<open>push\<close> of the loop, \<open>remove_thread\<close> the \<open>retain\<close> that deregisters.
\<close>

datatype 'o wait_result = Outcome 'o | Parking | TimedOut

definition push_thread :: "thread_id \<Rightarrow> waiter list \<Rightarrow> waiter list" where
  "push_thread t ws = (if ws \<noteq> [] \<and> last ws = Thread t then ws else ws @ [Thread t])"

definition remove_thread :: "thread_id \<Rightarrow> waiter list \<Rightarrow> waiter list" where
  "remove_thread t ws = filter (\<lambda>x. x \<noteq> Thread t) ws"

definition wait_round :: "thread_id \<Rightarrow> 'o slot \<Rightarrow> fault + 'o wait_result \<times> 'o slot" where
  "wait_round t s =
     (if state s AND COMPLETED \<noteq> 0
      then (case outcome_ref s of Inl f \<Rightarrow> Inl f | Inr v \<Rightarrow> Inr (Outcome v, s))
      else
        let s1 = snd (fetch_or HAS_WAITER s);
            (ws, s2) = registry s1;
            ws' = push_thread t ws;
            s3 = s2\<lparr>waiters := Some ws'\<rparr>
        in if state s3 AND COMPLETED \<noteq> 0
           then (case outcome_ref s3 of
                   Inl f \<Rightarrow> Inl f
                 | Inr v \<Rightarrow> Inr (Outcome v, s3\<lparr>waiters := Some (remove_thread t ws')\<rparr>))
           else Inr (Parking, s3))"

text \<open>
  \<open>wait_timeout\<close> adds a deadline, computed once with a checked addition, and a test of the clock
  before every park.  Instants are natural numbers up to the largest one the platform has.
\<close>

definition wait_deadline :: "nat \<Rightarrow> nat \<Rightarrow> nat \<Rightarrow> nat call" where
  "wait_deadline instant_max now timeout =
     (if now + timeout \<le> instant_max then Ret (now + timeout) else Panic TimeoutOverflowsInstant)"

definition park_until :: "nat \<Rightarrow> nat \<Rightarrow> bool" where
  "park_until now deadline = (\<not> now \<ge> deadline)"

definition wait_timeout_round ::
  "thread_id \<Rightarrow> nat \<Rightarrow> nat \<Rightarrow> 'o slot \<Rightarrow> fault + 'o wait_result \<times> 'o slot" where
  "wait_timeout_round t now deadline s =
     (case wait_round t s of
        Inl f \<Rightarrow> Inl f
      | Inr (Outcome v, s1) \<Rightarrow> Inr (Outcome v, s1)
      | Inr (r, s1) \<Rightarrow>
          if \<not> park_until now deadline
          then let (ws, s2) = registry s1
               in Inr (TimedOut, s2\<lparr>waiters := Some (remove_thread t ws)\<rparr>)
          else Inr (Parking, s1))"

subsection \<open>Waker registration\<close>

text \<open>
  The loops over the registry: \<open>None\<close> when no entry will wake the task.  The first loop sets the
  \<open>persistent\<close> flag of a direct registration, the second counts one more owning future, with a
  checked addition that panics.
\<close>

fun mark_persistent :: "waker \<Rightarrow> waiter list \<Rightarrow> waiter list option" where
  "mark_persistent w [] = None"
| "mark_persistent w (Thread t # ws) = map_option ((#) (Thread t)) (mark_persistent w ws)"
| "mark_persistent w (Waker existing p n # ws) =
     (if will_wake existing w then Some (Waker existing True n # ws)
      else map_option ((#) (Waker existing p n)) (mark_persistent w ws))"

fun add_owner :: "waker \<Rightarrow> waiter list \<Rightarrow> waiter list call option" where
  "add_owner w [] = None"
| "add_owner w (Thread t # ws) =
     (case add_owner w ws of
        Some (Ret ws') \<Rightarrow> Some (Ret (Thread t # ws'))
      | r \<Rightarrow> r)"
| "add_owner w (Waker existing p n # ws) =
     (if will_wake existing w then
        (case checked_inc n of
           Some n' \<Rightarrow> Some (Ret (Waker existing p n' # ws))
         | None \<Rightarrow> Some (Panic RegistrationCountOverflowed))
      else (case add_owner w ws of
              Some (Ret ws') \<Rightarrow> Some (Ret (Waker existing p n # ws'))
            | r \<Rightarrow> r))"

definition register_waker :: "waker \<Rightarrow> 'o slot \<Rightarrow> bool \<times> 'o slot" where
  "register_waker w s =
     (if state s AND COMPLETED \<noteq> 0 then (True, s)
      else
        let s1 = snd (fetch_or HAS_WAITER s);
            (ws, s2) = registry s1
        in if state s2 AND COMPLETED \<noteq> 0 then (True, s2)
           else (case mark_persistent w ws of
                   Some ws' \<Rightarrow> (False, s2\<lparr>waiters := Some ws'\<rparr>)
                 | None \<Rightarrow> (False, s2\<lparr>waiters := Some (ws @ [Waker w True 0])\<rparr>)))"

definition register_future_waker :: "waker \<Rightarrow> 'o slot \<Rightarrow> bool call \<times> 'o slot" where
  "register_future_waker w s =
     (if state s AND COMPLETED \<noteq> 0 then (Ret True, s)
      else
        let s1 = snd (fetch_or HAS_WAITER s);
            (ws, s2) = registry s1
        in if state s2 AND COMPLETED \<noteq> 0 then (Ret True, s2)
           else (case add_owner w ws of
                   Some (Ret ws') \<Rightarrow> (Ret False, s2\<lparr>waiters := Some ws'\<rparr>)
                 | Some (Panic p) \<Rightarrow> (Panic p, s2)
                 | None \<Rightarrow> (Ret False, s2\<lparr>waiters := Some (ws @ [Waker w False 1])\<rparr>)))"

subsection \<open>Futures\<close>

datatype 'o poll = Ready 'o | Pending

text \<open>
  \<open>ObservationFuture::poll\<close>: \<open>mine\<close> is the future's own list of wakers, returned updated.  A panic
  of the registration leaves it as it was.
\<close>

definition future_poll ::
  "waker \<Rightarrow> waker list \<Rightarrow> 'o slot \<Rightarrow> fault + 'o poll call \<times> waker list \<times> 'o slot" where
  "future_poll w mine s =
     (case try_get s of
        Inl f \<Rightarrow> Inl f
      | Inr (Some v) \<Rightarrow> Inr (Ret (Ready v), mine, s)
      | Inr None \<Rightarrow>
          let known_waker = list_ex (\<lambda>m. will_wake m w) mine;
              (registration, s1) =
                (if \<not> known_waker then register_future_waker w s else (Ret False, s))
          in (case registration of
                Panic p \<Rightarrow> Inr (Panic p, mine, s1)
              | Ret _ \<Rightarrow>
                  (case try_get s1 of
                     Inl f \<Rightarrow> Inl f
                   | Inr (Some v) \<Rightarrow> Inr (Ret (Ready v), mine, s1)
                   | Inr None \<Rightarrow>
                       Inr (Ret Pending, (if \<not> known_waker then mine @ [w] else mine), s1))))"

text \<open>The \<open>retain_mut\<close> of \<open>Drop for ObservationFuture\<close>.\<close>

fun cancel :: "waker list \<Rightarrow> waiter list \<Rightarrow> fault + waiter list" where
  "cancel mine [] = Inr []"
| "cancel mine (Thread t # ws) =
     (case cancel mine ws of Inl f \<Rightarrow> Inl f | Inr ws' \<Rightarrow> Inr (Thread t # ws'))"
| "cancel mine (Waker w p n # ws) =
     (if \<not> list_ex (\<lambda>m. will_wake m w) mine
      then (case cancel mine ws of Inl f \<Rightarrow> Inl f | Inr ws' \<Rightarrow> Inr (Waker w p n # ws'))
      else if \<not> n > 0 then Inl OwnersUnderflow
      else let n' = n - 1
           in (case cancel mine ws of
                 Inl f \<Rightarrow> Inl f
               | Inr ws' \<Rightarrow> Inr (if p \<or> n' \<noteq> 0 then Waker w p n' # ws' else ws')))"

definition future_drop :: "waker list \<Rightarrow> 'o slot \<Rightarrow> fault + 'o slot" where
  "future_drop mine s =
     (if mine = [] then Inr s
      else let (ws, s1) = registry s
           in (case cancel mine ws of
                 Inl f \<Rightarrow> Inl f
               | Inr ws' \<Rightarrow> Inr (s1\<lparr>waiters := Some ws'\<rparr>)))"

subsection \<open>What the registry says about a waker\<close>

text \<open>
  \<open>owners w\<close> is the number of futures the entry of \<open>w\<close> counts, \<open>direct w\<close> whether it was also
  registered directly, and \<open>threads\<close> the blocked threads in order.
\<close>

fun owners :: "waker \<Rightarrow> waiter list \<Rightarrow> nat" where
  "owners w [] = 0"
| "owners w (Thread t # ws) = owners w ws"
| "owners w (Waker e p n # ws) = (if e = w then unat n else owners w ws)"

fun direct :: "waker \<Rightarrow> waiter list \<Rightarrow> bool" where
  "direct w [] = False"
| "direct w (Thread t # ws) = direct w ws"
| "direct w (Waker e p n # ws) = (if e = w then p else direct w ws)"

fun threads :: "waiter list \<Rightarrow> thread_id list" where
  "threads [] = []"
| "threads (Thread t # ws) = t # threads ws"
| "threads (Waker e p n # ws) = threads ws"

lemma owners_absent: "w \<notin> set (wakers_of ws) \<Longrightarrow> owners w ws = 0 \<and> \<not> direct w ws"
  by (induction w ws rule: owners.induct) auto

lemma threads_member: "t \<in> set (threads ws) \<longleftrightarrow> Thread t \<in> set ws"
  by (induction ws rule: threads.induct) auto

lemma direct_mem: "direct w ws \<Longrightarrow> w \<in> set (wakers_of ws)"
  by (induction w ws rule: direct.induct) (auto split: if_splits)

lemma live_registered:
  "list_all live_waiter ws \<Longrightarrow> w \<in> set (wakers_of ws) \<longleftrightarrow> owners w ws > 0 \<or> direct w ws"
  by (induction w ws rule: owners.induct) (auto simp: unat_gt_0)

lemma owners_append: "owners w (as @ bs) = (if w \<in> set (wakers_of as) then owners w as else owners w bs)"
  by (induction w as rule: owners.induct) auto

lemma direct_append: "direct w (as @ bs) = (if w \<in> set (wakers_of as) then direct w as else direct w bs)"
  by (induction w as rule: direct.induct) auto

lemma threads_append [simp]: "threads (as @ bs) = threads as @ threads bs"
  by (induction as rule: threads.induct) auto

lemma owners_bound: "owners w ws < 2 ^ 64"
proof -
  have "unat n < 2 ^ LENGTH(64)" for n :: usize
    by (rule unsigned_less)
  then have "unat n < 2 ^ 64" for n :: usize
    by simp
  then show ?thesis by (induction w ws rule: owners.induct) auto
qed

subsection \<open>Direct registration\<close>

definition direct_registered :: "waker \<Rightarrow> waiter list \<Rightarrow> waiter list" where
  "direct_registered w ws =
     (case mark_persistent w ws of Some ws' \<Rightarrow> ws' | None \<Rightarrow> ws @ [Waker w True 0])"

lemma mark_persistent_None: "mark_persistent w ws = None \<longleftrightarrow> w \<notin> set (wakers_of ws)"
  by (induction w ws rule: mark_persistent.induct) auto

lemma mark_persistent_Some:
  "mark_persistent w ws = Some ws' \<Longrightarrow>
     wakers_of ws' = wakers_of ws \<and> owners x ws' = owners x ws \<and>
     (direct x ws' \<longleftrightarrow> direct x ws \<or> x = w) \<and> threads ws' = threads ws \<and>
     (list_all live_waiter ws \<longrightarrow> list_all live_waiter ws')"
  by (induction w ws arbitrary: ws' rule: mark_persistent.induct) (auto split: if_splits)

lemma direct_registered_simps:
  "owners x (direct_registered w ws) = owners x ws"
  "direct x (direct_registered w ws) \<longleftrightarrow> direct x ws \<or> x = w"
  "threads (direct_registered w ws) = threads ws"
  "set (wakers_of (direct_registered w ws)) = insert w (set (wakers_of ws))"
  "registry_ok ws \<Longrightarrow> registry_ok (direct_registered w ws)"
  using mark_persistent_Some [of w ws _ x] mark_persistent_None [of w ws] owners_absent [of w ws]
  by (auto simp: direct_registered_def owners_append direct_append registry_ok_def
      owners_absent split: option.splits)

subsection \<open>Future registration\<close>

definition future_registered :: "waker \<Rightarrow> waiter list \<Rightarrow> waiter list call" where
  "future_registered w ws =
     (case add_owner w ws of Some r \<Rightarrow> r | None \<Rightarrow> Ret (ws @ [Waker w False 1]))"

lemma add_owner_None: "add_owner w ws = None \<longleftrightarrow> w \<notin> set (wakers_of ws)"
  by (induction w ws rule: add_owner.induct) (auto split: option.splits call.splits)

lemma add_owner_Ret:
  "add_owner w ws = Some (Ret ws') \<Longrightarrow>
     wakers_of ws' = wakers_of ws \<and> owners x ws' = owners x ws + (if x = w then 1 else 0) \<and>
     (direct x ws' \<longleftrightarrow> direct x ws) \<and> threads ws' = threads ws \<and>
     (list_all live_waiter ws \<longrightarrow> list_all live_waiter ws')"
proof (induction w ws arbitrary: ws' rule: add_owner.induct)
  case (3 w e p n ws)
  show ?case
  proof (cases "e = w")
    case True
    with 3 obtain n' where n': "checked_inc n = Some n'" and ws': "ws' = Waker e p n' # ws"
      by (auto split: option.splits)
    have "unat n' = unat n + 1" using n' by (rule checked_inc_Some)
    moreover from this have "n' \<noteq> 0" by auto
    ultimately show ?thesis using True ws' by auto
  next
    case False
    with 3 show ?thesis by (auto split: option.splits call.splits)
  qed
qed (auto split: option.splits call.splits)

lemma add_owner_Panic:
  "add_owner w ws = Some (Panic p) \<Longrightarrow> p = RegistrationCountOverflowed \<and> owners w ws = 2 ^ 64 - 1"
  by (induction w ws rule: add_owner.induct)
    (auto simp: checked_inc_def unat_USIZE_MAX split: if_splits option.splits call.splits)

lemma future_registered_Ret:
  assumes "future_registered w ws = Ret ws'"
  shows "owners x ws' = owners x ws + (if x = w then 1 else 0)"
    and "direct x ws' \<longleftrightarrow> direct x ws"
    and "threads ws' = threads ws"
    and "set (wakers_of ws') = insert w (set (wakers_of ws))"
    and "registry_ok ws \<Longrightarrow> registry_ok ws'"
  using assms add_owner_Ret [of w ws _ x] add_owner_None [of w ws] owners_absent [of w ws]

  by (auto simp: future_registered_def owners_append direct_append registry_ok_def
      owners_absent split: option.splits if_splits dest: direct_mem)

lemma future_registered_Panic:
  "future_registered w ws = Panic p \<Longrightarrow> p = RegistrationCountOverflowed \<and> owners w ws = 2 ^ 64 - 1"
  by (auto simp: future_registered_def dest: add_owner_Panic split: option.splits)

subsection \<open>Cancellation\<close>

lemma list_ex_mem [simp]: "list_ex (\<lambda>m. m = w) mine \<longleftrightarrow> w \<in> set mine"
  by (auto simp: list_ex_iff)

lemma cancel_ok:
  assumes "distinct (wakers_of ws)" and "list_all live_waiter ws"
    and "\<forall>w\<in>set mine. w \<in> set (wakers_of ws) \<longrightarrow> owners w ws > 0"
  shows "\<exists>ws'. cancel mine ws = Inr ws' \<and> distinct (wakers_of ws') \<and> list_all live_waiter ws' \<and>
     set (wakers_of ws') \<subseteq> set (wakers_of ws) \<and> threads ws' = threads ws \<and>
     (\<forall>x. owners x ws' = owners x ws - (if x \<in> set mine then 1 else 0)) \<and>
     (\<forall>x. direct x ws' \<longleftrightarrow> direct x ws)"
  using assms
proof (induction mine ws rule: cancel.induct)
  case (3 mine e p n ws)
  from "3.prems"(1) have e: "e \<notin> set (wakers_of ws)" "distinct (wakers_of ws)" by auto
  have pre: "\<forall>w\<in>set mine. w \<in> set (wakers_of ws) \<longrightarrow> owners w ws > 0"
    using "3.prems"(3) e by (fastforce split: if_splits)
  have IH: "\<exists>ws'. cancel mine ws = Inr ws' \<and> distinct (wakers_of ws') \<and> list_all live_waiter ws' \<and>
     set (wakers_of ws') \<subseteq> set (wakers_of ws) \<and> threads ws' = threads ws \<and>
     (\<forall>x. owners x ws' = owners x ws - (if x \<in> set mine then 1 else 0)) \<and>
     (\<forall>x. direct x ws' \<longleftrightarrow> direct x ws)"
    using "3.IH" e(2) "3.prems"(2) pre "3.prems"(3) by (cases "e \<in> set mine") (auto simp: word_gt_0 unat_gt_0)
  then obtain ws' where ws': "cancel mine ws = Inr ws'" "distinct (wakers_of ws')"
      "list_all live_waiter ws'" "set (wakers_of ws') \<subseteq> set (wakers_of ws)"
      "threads ws' = threads ws"
      "\<forall>x. owners x ws' = owners x ws - (if x \<in> set mine then 1 else 0)"
      "\<forall>x. direct x ws' \<longleftrightarrow> direct x ws" by blast
  have e': "e \<notin> set (wakers_of ws')" using e(1) ws'(4) by auto
  show ?case
  proof (cases "e \<in> set mine")
    case False
    with ws' e' "3.prems"(2) show ?thesis by auto
  next
    case True
    with "3.prems"(3) have n: "n > 0" by (auto simp: word_gt_0 unat_gt_0)
    have dec: "unat (n - 1) = unat n - 1"
      using n by (simp add: unat_minus_one word_gt_0)
    show ?thesis
    proof (cases "p \<or> n - 1 \<noteq> 0")
      case keep: True
      with True n ws' e' dec show ?thesis by auto
    next
      case gone: False
      then have "unat n = 1" by auto
      with gone True n ws' e e' owners_absent [OF e'] owners_absent [OF e(1)] show ?thesis by auto
    qed
  qed
qed (auto split: sum.splits)

subsection \<open>The operations on a well-formed slot\<close>

definition with_registry :: "waiter list \<Rightarrow> 'o slot \<Rightarrow> 'o slot" where
  "with_registry ws s = s\<lparr>state := state s OR HAS_WAITER, waiters := Some ws\<rparr>"

lemma with_registry_simps [simp]:
  "registered (with_registry ws s) = ws"
  "outcome (with_registry ws s) = outcome s"
  "completed (with_registry ws s) = completed s"
  "outcome_valid (with_registry ws s) = outcome_valid s"
  "has_waiter (with_registry ws s)"
  "waiters (with_registry ws s) = Some ws"
  "cell (with_registry ws s) = cell s"
  by (simp_all add: with_registry_def slot_bits cell_def)

lemma with_registry_ok:
  "slot_ok s \<Longrightarrow> \<not> completed s \<Longrightarrow> registry_ok ws \<Longrightarrow> slot_ok (with_registry ws s)"
  by (auto simp: slot_ok_def)

lemma try_get_ok [simp]: "slot_ok s \<Longrightarrow> try_get s = Inr (outcome s)"
  by (auto simp: try_get_def slot_bits outcome_ref_def slot_ok_def split: option.splits)

lemma register_waker_completed: "completed s \<Longrightarrow> register_waker w s = (True, s)"
  by (simp add: register_waker_def slot_bits)

lemma register_waker_pending:
  "\<not> completed s \<Longrightarrow>
   register_waker w s = (False, with_registry (direct_registered w (registered s)) s)"
  by (auto simp: register_waker_def Let_def fetch_or_def registry_eq slot_bits with_registry_def
      direct_registered_def split: option.splits)

lemma register_future_waker_completed: "completed s \<Longrightarrow> register_future_waker w s = (Ret True, s)"
  by (simp add: register_future_waker_def slot_bits)

lemma register_future_waker_pending:
  "\<not> completed s \<Longrightarrow> register_future_waker w s =
     (case future_registered w (registered s) of
        Ret ws' \<Rightarrow> (Ret False, with_registry ws' s)
      | Panic p \<Rightarrow> (Panic p, with_registry (registered s) s))"
  by (auto simp: register_future_waker_def Let_def fetch_or_def registry_eq slot_bits with_registry_def
      future_registered_def split: option.splits call.splits)

lemma wait_round_completed:
  "slot_ok s \<Longrightarrow> completed s \<Longrightarrow> \<exists>v. outcome s = Some v \<and> wait_round t s = Inr (Outcome v, s)"
  by (auto simp: wait_round_def slot_bits outcome_ref_def slot_ok_def)

lemma wait_round_pending:
  "\<not> completed s \<Longrightarrow>
   wait_round t s = Inr (Parking, with_registry (push_thread t (registered s)) s)"
  by (auto simp: wait_round_def Let_def fetch_or_def registry_eq slot_bits with_registry_def)

lemma push_thread_simps [simp]:
  "wakers_of (push_thread t ws) = wakers_of ws"
  "owners x (push_thread t ws) = owners x ws"
  "direct x (push_thread t ws) = direct x ws"
  "registry_ok (push_thread t ws) = registry_ok ws"
  "Thread t \<in> set (push_thread t ws)"
  by (auto simp: push_thread_def owners_append direct_append owners_absent registry_ok_def
      split: if_splits dest: last_in_set direct_mem)

lemma remove_thread_simps [simp]:
  "wakers_of (remove_thread t ws) = wakers_of ws"
  "owners x (remove_thread t ws) = owners x ws"
  "direct x (remove_thread t ws) = direct x ws"
  "Thread u \<in> set (remove_thread t ws) \<longleftrightarrow> u \<noteq> t \<and> Thread u \<in> set ws"
  by (induction ws rule: wakers_of.induct) (auto simp: remove_thread_def)

lemma list_all_remove_thread: "list_all live_waiter ws \<Longrightarrow> list_all live_waiter (remove_thread t ws)"
  by (auto simp: remove_thread_def list_all_iff)

lemma registry_ok_remove_thread: "registry_ok ws \<Longrightarrow> registry_ok (remove_thread t ws)"
  by (simp add: registry_ok_def list_all_remove_thread)

lemma future_poll_completed:
  "slot_ok s \<Longrightarrow> outcome s = Some v \<Longrightarrow> future_poll w mine s = Inr (Ret (Ready v), mine, s)"
  by (simp add: future_poll_def)

lemma future_poll_known:
  "slot_ok s \<Longrightarrow> outcome s = None \<Longrightarrow> w \<in> set mine \<Longrightarrow>
   future_poll w mine s = Inr (Ret Pending, mine, s)"
  by (simp add: future_poll_def)

lemma future_poll_fresh:
  assumes "slot_ok s" and "outcome s = None" and "w \<notin> set mine"
  shows "future_poll w mine s =
    (case future_registered w (registered s) of
       Ret ws' \<Rightarrow> Inr (Ret Pending, mine @ [w], with_registry ws' s)
     | Panic p \<Rightarrow> Inr (Panic p, mine, with_registry (registered s) s))"
proof -
  have pending: "\<not> completed s" using assms slot_ok_outcome by blast
  have ok: "registry_ok (registered s)" using assms(1) by (simp add: slot_ok_def)
  have "slot_ok (with_registry ws' s)" if "future_registered w (registered s) = Ret ws'" for ws'
    by (rule with_registry_ok [OF assms(1) pending future_registered_Ret(5) [OF that ok]])
  then show ?thesis
    using assms
    by (auto simp: future_poll_def register_future_waker_pending [OF pending] split: call.splits)
qed

lemma future_drop_eq:
  "future_drop mine s = (if mine = [] then Inr s
     else (case cancel mine (registered s) of
             Inl f \<Rightarrow> Inl f
           | Inr ws' \<Rightarrow> Inr (s\<lparr>waiters := Some ws'\<rparr>)))"
  by (simp add: future_drop_def registry_eq split: sum.splits)

lemma set_registry_ok:
  "slot_ok s \<Longrightarrow> set (wakers_of ws) \<subseteq> set (wakers_of (registered s)) \<Longrightarrow>
   threads ws = threads (registered s) \<Longrightarrow> registry_ok ws \<Longrightarrow> slot_ok (s\<lparr>waiters := Some ws\<rparr>)"
proof -
  assume a: "slot_ok s" "set (wakers_of ws) \<subseteq> set (wakers_of (registered s))"
    "threads ws = threads (registered s)" "registry_ok ws"
  have "ws = []" if "registered s = []"
  proof -
    have "wakers_of ws = []" "threads ws = []" using a(2,3) by (simp_all add: that)
    then show "ws = []" by (induction ws rule: threads.induct) auto
  qed
  with a(1,4) show ?thesis by (auto simp: slot_ok_def)
qed

subsection \<open>Registration properties\<close>

lemma mark_persistent_again: "mark_persistent w ws = Some ws' \<Longrightarrow> mark_persistent w ws' = Some ws'"
  by (induction w ws arbitrary: ws' rule: mark_persistent.induct) (auto split: if_splits)

lemma mark_persistent_append:
  "w \<notin> set (wakers_of ws) \<Longrightarrow> mark_persistent w (ws @ [Waker w True n]) = Some (ws @ [Waker w True n])"
  by (induction w ws rule: mark_persistent.induct) auto

lemma direct_registered_again: "direct_registered w (direct_registered w ws) = direct_registered w ws"
  by (auto simp: direct_registered_def mark_persistent_again mark_persistent_None
      mark_persistent_append split: option.splits)

lemma with_registry_again: "with_registry ws (with_registry ws s) = with_registry ws s"
  by (simp add: with_registry_def or.assoc)

text \<open>
  Direct registration of a waker on a pending slot always succeeds (it returns \<open>false\<close> with
  the waker registered), keeps the slot well formed, never makes a second entry for a waker, and
  doing it again changes nothing.
\<close>

lemma register_waker_idempotent:
  assumes "slot_ok s" and "\<not> completed s"
  shows "\<exists>s'. register_waker w s = (False, s') \<and> slot_ok s' \<and> \<not> completed s'
      \<and> direct w (registered s') \<and> distinct (wakers_of (registered s'))
      \<and> register_waker w s' = (False, s')"
proof -
  let ?s = "with_registry (direct_registered w (registered s)) s"
  have reg: "registry_ok (registered s)" using assms(1) by (simp add: slot_ok_def)
  then have ok: "registry_ok (direct_registered w (registered s))" by (rule direct_registered_simps(5))
  have "slot_ok ?s" using assms ok by (rule with_registry_ok)
  moreover have "register_waker w ?s = (False, ?s)"
    using assms(2) by (simp add: register_waker_pending direct_registered_again with_registry_again)
  ultimately show ?thesis
    using assms(2) ok by (auto simp: register_waker_pending direct_registered_simps registry_ok_def)
qed

lemma register_waker_idempotent_witness:
  "\<exists>s'. register_waker waker_a (slot_new :: nat slot) = (False, s') \<and> direct waker_a (registered s')
      \<and> register_waker waker_a s' = (False, s')"
proof -
  have "slot_ok (slot_new :: nat slot)" "\<not> completed (slot_new :: nat slot)" by simp_all
  from register_waker_idempotent [OF this, of waker_a] show ?thesis by blast
qed

lemma cancel_append:
  "set mine \<inter> set (wakers_of ws) = {} \<Longrightarrow>
   cancel mine (ws @ bs) = (case cancel mine bs of Inl f \<Rightarrow> Inl f | Inr bs' \<Rightarrow> Inr (ws @ bs'))"
  by (induction mine ws rule: cancel.induct) (auto split: sum.splits)

lemma cancel_none: "set mine \<inter> set (wakers_of ws) = {} \<Longrightarrow> cancel mine ws = Inr ws"
  using cancel_append [of mine ws "[]"] by simp

lemma cancel_add_owner:
  "add_owner w ws = Some (Ret ws') \<Longrightarrow> registry_ok ws \<Longrightarrow> cancel [w] ws' = Inr ws"
proof (induction w ws arbitrary: ws' rule: add_owner.induct)
  case (3 w e p n ws)
  show ?case
  proof (cases "e = w")
    case True
    with "3.prems" obtain n' where n': "checked_inc n = Some n'" and ws': "ws' = Waker e p n' # ws"
      by (auto split: option.splits)
    have un: "unat n' = unat n + 1" using n' by (rule checked_inc_Some)
    then have pos: "n' > 0" by (auto simp: word_gt_0)
    then have "unat (n' - 1) = unat n" using un by (simp add: unat_minus_one word_gt_0)
    then have prev: "n' - 1 = n" by (simp add: word_unat_eq_iff)
    have "cancel [w] ws = Inr ws"
      using "3.prems"(2) True by (intro cancel_none) (auto simp: registry_ok_def)
    with True ws' pos prev "3.prems"(2) show ?thesis by (auto simp: registry_ok_def)
  next
    case False
    with "3.prems" obtain us where us: "add_owner w ws = Some (Ret us)" "ws' = Waker e p n # us"
      by (auto split: option.splits call.splits)
    have "cancel [w] us = Inr ws"
      using "3.IH" False us(1) "3.prems"(2) by (auto simp: registry_ok_def)
    with False us(2) show ?thesis by auto
  qed
qed (auto simp: registry_ok_def split: option.splits call.splits)

lemma cancel_future_registered:
  assumes "future_registered w ws = Ret ws'" and "registry_ok ws"
  shows "cancel [w] ws' = Inr ws"
proof (cases "add_owner w ws")
  case None
  then have "set [w] \<inter> set (wakers_of ws) = {}" by (simp add: add_owner_None)
  from cancel_append [OF this, of "[Waker w False 1]"] None assms(1) show ?thesis
    by (simp add: future_registered_def)
next
  case (Some r)
  with assms show ?thesis by (auto simp: future_registered_def intro: cancel_add_owner)
qed

text \<open>
  Polling a fresh future once and dropping it leaves the registry exactly as it was: a
  cancelled observation leaves no stale registration, and a registration that was already there
  (another future of the same task, or a direct one) is not touched.
\<close>

lemma poll_then_cancel_leaves_no_trace:
  assumes "slot_ok s" and "\<not> completed s" and "owners w (registered s) + 1 < 2 ^ 64"
  shows "\<exists>s' s''. future_poll w [] s = Inr (Ret Pending, [w], s') \<and> owners w (registered s') = owners w (registered s) + 1
      \<and> future_drop [w] s' = Inr s'' \<and> registered s'' = registered s \<and> slot_ok s''"
proof -
  have none: "outcome s = None" using assms slot_ok_outcome by blast
  have ok: "registry_ok (registered s)" using assms(1) by (simp add: slot_ok_def)
  obtain ws' where ws': "future_registered w (registered s) = Ret ws'"
    using assms(3) future_registered_Panic [of w "registered s"]
    by (cases "future_registered w (registered s)") auto
  have "slot_ok (with_registry ws' s)"
    by (rule with_registry_ok [OF assms(1,2) future_registered_Ret(5) [OF ws' ok]])
  then have "slot_ok ((with_registry ws' s)\<lparr>waiters := Some (registered s)\<rparr>)"
    using assms(2) ok by (auto simp: slot_ok_def)
  with ws' none assms(1) ok show ?thesis
    by (simp add: future_poll_fresh future_drop_eq cancel_future_registered future_registered_Ret(1))
qed

lemma poll_then_cancel_leaves_no_trace_witness:
  "\<exists>s' s''. future_poll waker_a [] \<lparr>state = 2, outcome = None, waiters = Some [Waker waker_a False 1, Thread 4]\<rparr>
        = Inr (Ret Pending :: nat poll call, [waker_a], s')
      \<and> future_drop [waker_a] s' = Inr s'' \<and> registered s'' = [Waker waker_a False 1, Thread 4]"
proof -
  let ?s = "\<lparr>state = 2, outcome = None, waiters = Some [Waker waker_a False 1, Thread 4]\<rparr> :: nat slot"
  have "slot_ok ?s" "\<not> completed ?s" "owners waker_a (registered ?s) + 1 < 2 ^ 64"
    by (simp_all add: slot_ok_def registered_def registry_ok_def)
  from poll_then_cancel_leaves_no_trace [OF this] show ?thesis by (auto simp: registered_def)
qed

lemma future_drop_ok:
  assumes "slot_ok s" and "\<forall>w\<in>set mine. w \<in> set (wakers_of (registered s)) \<longrightarrow> owners w (registered s) > 0"
  shows "\<exists>s'. future_drop mine s = Inr s' \<and> slot_ok s' \<and> outcome s' = outcome s \<and> state s' = state s
    \<and> (\<forall>x. owners x (registered s') = owners x (registered s) - (if x \<in> set mine then 1 else 0))
    \<and> (\<forall>x. direct x (registered s') \<longleftrightarrow> direct x (registered s))
    \<and> threads (registered s') = threads (registered s)"
proof (cases "mine = []")
  case True
  with assms show ?thesis by (simp add: future_drop_eq)
next
  case False
  have "distinct (wakers_of (registered s))" "list_all live_waiter (registered s)"
    using assms(1) by (auto simp: slot_ok_def registry_ok_def)
  from cancel_ok [OF this assms(2)] obtain ws' where ws': "cancel mine (registered s) = Inr ws'"
    "distinct (wakers_of ws')" "list_all live_waiter ws'"
    "set (wakers_of ws') \<subseteq> set (wakers_of (registered s))" "threads ws' = threads (registered s)"
    "\<forall>x. owners x ws' = owners x (registered s) - (if x \<in> set mine then 1 else 0)"
    "\<forall>x. direct x ws' \<longleftrightarrow> direct x (registered s)" by blast
  have "slot_ok (s\<lparr>waiters := Some ws'\<rparr>)"
    using ws' by (intro set_registry_ok [OF assms(1)]) (auto simp: registry_ok_def)
  with ws' False show ?thesis by (auto simp: future_drop_eq)
qed

lemma woken_wakers: "Woken w \<in> set (map event_of ws) \<longleftrightarrow> w \<in> set (wakers_of ws)"
  by (induction ws rule: wakers_of.induct) auto

text \<open>
  Cancellation is exact.  After a future that owns the wakers \<open>mine\<close> is dropped, publication
  wakes exactly the wakers that still have an owner: those the future did not own, those another
  future also owns, and those registered directly.  A sibling never loses its wake and a cancelled
  sole owner is never woken.
\<close>

lemma cancellation_exact:
  assumes "slot_ok s" and "\<not> completed s"
    and "\<forall>w\<in>set mine. owners w (registered s) > 0"
  shows "\<exists>s' r evs s''. future_drop mine s = Inr s' \<and> slot_complete wp v s' = Inr (r, evs, s'')
    \<and> (\<forall>w. Woken w \<in> set evs \<longleftrightarrow> w \<in> set (wakers_of (registered s))
          \<and> (w \<notin> set mine \<or> owners w (registered s) > 1 \<or> direct w (registered s)))"
proof -
  from future_drop_ok [OF assms(1), of mine] assms(3)
  obtain s' where s': "future_drop mine s = Inr s'" "slot_ok s'" "state s' = state s"
    "\<forall>x. owners x (registered s') = owners x (registered s) - (if x \<in> set mine then 1 else 0)"
    "\<forall>x. direct x (registered s') \<longleftrightarrow> direct x (registered s)" by blast
  have live: "list_all live_waiter (registered s)" "list_all live_waiter (registered s')"
    using assms(1) s'(2) by (auto simp: slot_ok_def registry_ok_def)
  have "\<not> completed s'" using assms(2) s'(3) by simp
  note complete = slot_complete_eq [OF s'(2) this]
  have "w \<in> set (wakers_of (registered s')) \<longleftrightarrow> w \<in> set (wakers_of (registered s))
          \<and> (w \<notin> set mine \<or> owners w (registered s) > 1 \<or> direct w (registered s))" for w
    using live_registered [OF live(1), of w] live_registered [OF live(2), of w] s'(4,5) by auto
  with s'(1) complete show ?thesis by (auto simp: woken_wakers simp del: set_map)
qed

lemma cancellation_exact_witness:
  "\<exists>s' r evs s''. future_drop [waker_a, waker_b]
        \<lparr>state = 2, outcome = None, waiters = Some [Waker waker_a False 2, Waker waker_b False 1]\<rparr> = Inr s'
      \<and> slot_complete (\<lambda>w. False) (9 :: nat) s' = Inr (r, evs, s'')
      \<and> Woken waker_a \<in> set evs \<and> Woken waker_b \<notin> set evs"
proof -
  let ?s = "\<lparr>state = 2, outcome = None, waiters = Some [Waker waker_a False 2, Waker waker_b False 1]\<rparr> :: nat slot"
  have "slot_ok ?s" "\<not> completed ?s" "\<forall>w\<in>set [waker_a, waker_b]. owners w (registered ?s) > 0"
    by (simp_all add: slot_ok_def registered_def registry_ok_def)
  from cancellation_exact [OF this, of "\<lambda>w. False" 9] show ?thesis
    by (fastforce simp: registered_def)
qed

subsection \<open>Blocking and moving out\<close>

text \<open>
  C24: A blocked thread never parks unregistered, and a wait that ends by its deadline leaves no
  registration behind, so a later completion cannot wake it.  On a completed slot the outcome is
  returned whatever the clock says.
\<close>

theorem wait_timeout_registration:
  assumes "slot_ok s"
  shows "\<exists>r s'. wait_timeout_round t now deadline s = Inr (r, s') \<and> slot_ok s' \<and>
     (case r of
        Outcome v \<Rightarrow> outcome s = Some v \<and> s' = s
      | Parking \<Rightarrow> outcome s = None \<and> now < deadline \<and> Thread t \<in> set (registered s')
      | TimedOut \<Rightarrow> outcome s = None \<and> now \<ge> deadline \<and> Thread t \<notin> set (registered s'))"
proof (cases "completed s")
  case True
  with wait_round_completed [OF assms True, of t] assms show ?thesis
    by (auto simp: wait_timeout_round_def)
next
  case False
  have none: "outcome s = None" using assms False slot_ok_outcome by blast
  have reg: "registry_ok (registered s)" using assms by (simp add: slot_ok_def)
  let ?ws = "push_thread t (registered s)"
  have park: "slot_ok (with_registry ?ws s)"
    using reg by (intro with_registry_ok [OF assms False]) simp
  have "slot_ok ((with_registry ?ws s)\<lparr>waiters := Some (remove_thread t ?ws)\<rparr>)"
    using park False reg registry_ok_remove_thread [of ?ws t] by (auto simp: slot_ok_def)
  with park none False show ?thesis
    by (auto simp: wait_timeout_round_def wait_round_pending park_until_def registry_eq)
qed

theorem wait_timeout_registration_witness:
  "\<exists>s'. wait_timeout_round 3 10 5 (slot_new :: nat slot) = Inr (TimedOut, s')
     \<and> Thread 3 \<notin> set (registered s')"
proof -
  have ok: "slot_ok (slot_new :: nat slot)" by simp
  obtain r s' where *: "wait_timeout_round 3 10 5 (slot_new :: nat slot) = Inr (r, s')"
     "case r of Outcome v \<Rightarrow> outcome (slot_new :: nat slot) = Some v \<and> s' = slot_new
      | Parking \<Rightarrow> outcome (slot_new :: nat slot) = None \<and> (10::nat) < 5 \<and> Thread 3 \<in> set (registered s')
      | TimedOut \<Rightarrow> outcome (slot_new :: nat slot) = None \<and> (10::nat) \<ge> 5 \<and> Thread 3 \<notin> set (registered s')"
    using wait_timeout_registration [OF ok, of 3 10 5] by blast
  then show ?thesis by (cases r) auto
qed

lemma take_outcome_eq:
  assumes "slot_ok s"
  shows "\<exists>s'. take_outcome s = Inr (outcome s, s') \<and> (\<forall>dp. slot_drop dp s' = Inr (Ret (), []))"
proof (cases "outcome s")
  case None
  then have "\<not> completed s" using assms slot_ok_outcome by blast
  with None assms show ?thesis by (auto simp: take_outcome_def slot_bits slot_drop_eq cell_def drop_call_def)
next
  case (Some v)
  then have "completed s" using assms slot_ok_outcome by blast
  with Some show ?thesis
    by (auto simp: take_outcome_def slot_bits outcome_ref_def fetch_and_def slot_drop_def
        word_and_not bit_not_iff)
qed

text \<open>
  \<open>into_outcome\<close> moves the value out exactly once: after the move the dying slot destroys
  nothing, and on a pending slot nothing is fabricated.
\<close>

lemma take_outcome_moves_once:
  assumes "slot_ok s"
  shows "\<exists>s'. take_outcome s = Inr (outcome s, s') \<and> slot_drop dp s' = Inr (Ret (), [])"
  using take_outcome_eq [OF assms] by blast

lemma take_outcome_moves_once_witness:
  "\<exists>s'. take_outcome \<lparr>state = 5, outcome = Some (8 :: nat), waiters = None\<rparr> = Inr (Some 8, s')
     \<and> slot_drop (\<lambda>_. True) s' = Inr (Ret (), [])"
proof -
  let ?s = "\<lparr>state = 5, outcome = Some 8, waiters = None\<rparr> :: nat slot"
  have "slot_ok ?s" by (simp add: slot_ok_def registered_def)
  from take_outcome_moves_once [OF this] show ?thesis by simp
qed

end
