(* ===== verification/World.thy ===== *)
theory World
  imports Key_Table Observer
begin

section \<open>The state of a program that uses the crate\<close>

text \<open>
  One namespace (\<open>ObservationSpace\<close> with its shared \<open>Inner\<close>), any number of direct pairs, and every
  value of the crate's types that the program owns, each under a handle.  A slot lives in \<open>heap\<close>
  while its allocation does.  Rust's ownership is explicit: an operation that consumes a value
  removes its handle, and a \<open>Subject\<close> whose \<open>Drop::drop\<close> body has run but whose fields have not
  been dropped yet is in \<open>retiring\<close>, then, when only its slot field is left, in \<open>dying\<close>: the three
  steps release different locks and counters, and other threads can run between them.

  The lists \<open>created\<close>, \<open>dropped\<close> and \<open>moved\<close> record the outcome values handed to \<open>complete\<close>, destroyed
  by the crate, and moved out to the caller; \<open>woken\<close> records the notifications.  \<open>drop_panics\<close> is the
  user's: it says which outcomes have a destructor that panics, and no operation changes it.

  \<open>Arc\<close> is a third-party type (\<open>triomphe\<close>).  What the code asks of it is the number of handles that
  share an allocation: \<open>strong_count\<close> reads it, \<open>try_unwrap\<close> succeeds when it is one, and dropping
  the last handle drops the value.  That count is the parameter \<open>sc\<close> of every operation that needs
  it.  \<open>arc_sound\<close> states that the count never misses a handle, \<open>arc_exact\<close> that it counts nothing
  else (a handle another thread is still dropping, say).
\<close>

record 'k entries =
  kmap :: "'k small_map"
  pool :: "slot_id list"

record 'k inner =
  next_generation :: usize
  entries_of :: "'k entries"

definition SLOT_POOL_CAP :: nat where
  "SLOT_POOL_CAP = 128"

record 'k subject =
  subject_key :: 'k
  subject_generation :: usize
  subject_slot :: slot_id
  subject_completed :: bool

record future =
  future_slot :: slot_id
  future_wakers :: "waker list"

record ('k, 'o) world =
  heap :: "slot_id \<rightharpoonup> 'o slot"
  next_slot :: slot_id
  next_handle :: handle
  inner :: "'k inner option"
  spaces :: "(handle \<times> unit) list"
  subjects :: "(handle \<times> 'k subject) list"
  retiring :: "(handle \<times> 'k subject) list"
  dying :: "(handle \<times> slot_id) list"
  publishers :: "(handle \<times> slot_id) list"
  observations :: "(handle \<times> slot_id) list"
  futures :: "(handle \<times> future) list"
  created :: "'o list"
  dropped :: "'o list"
  moved :: "'o list"
  woken :: "wake_event list"
  drop_panics :: "'o \<Rightarrow> bool"

text \<open>
  \<open>ObservationSpace::new()\<close>: the program starts with one handle, number 0, to a fresh namespace.  In
  \<open>space_new\<close> the destructors of the outcomes return, in \<open>space_with dp\<close> that of \<open>v\<close> panics when \<open>dp v\<close>.
\<close>

definition space_new :: "('k, 'o) world" where
  "space_new = \<lparr>heap = Map.empty, next_slot = 0, next_handle = 1,
     inner = Some \<lparr>next_generation = 1, entries_of = \<lparr>kmap = sm_default, pool = []\<rparr>\<rparr>,
     spaces = [(0, ())], subjects = [], retiring = [], dying = [], publishers = [], observations = [], futures = [],
     created = [], dropped = [], moved = [], woken = [], drop_panics = (\<lambda>_. False)\<rparr>"

definition space_with :: "('o \<Rightarrow> bool) \<Rightarrow> ('k, 'o) world" where
  "space_with dp = space_new\<lparr>drop_panics := dp\<rparr>"

subsection \<open>Handles\<close>

definition table_refs :: "'k inner option \<Rightarrow> slot_id multiset" where
  "table_refs i = (case i of
     None \<Rightarrow> {#}
   | Some i \<Rightarrow> image_mset (entry_slot \<circ> snd) (mset (sm_entries (kmap (entries_of i))))
             + mset (pool (entries_of i)))"

text \<open>Every \<open>Arc<Slot>\<close> the program and the namespace hold, with multiplicity.\<close>

definition slot_refs :: "('k, 'o) world \<Rightarrow> slot_id multiset" where
  "slot_refs w = table_refs (inner w)
     + image_mset (subject_slot \<circ> snd) (mset (subjects w))
     + image_mset (subject_slot \<circ> snd) (mset (retiring w))
     + image_mset snd (mset (dying w))
     + image_mset snd (mset (publishers w))
     + image_mset snd (mset (observations w))
     + image_mset (future_slot \<circ> snd) (mset (futures w))"

datatype arc = SlotArc slot_id | InnerArc

fun handle_count :: "('k, 'o) world \<Rightarrow> arc \<Rightarrow> nat" where
  "handle_count w (SlotArc s) = count (slot_refs w) s"
| "handle_count w InnerArc = length (spaces w) + length (subjects w) + length (retiring w)"

type_synonym ('k, 'o) arc_count = "('k, 'o) world \<Rightarrow> arc \<Rightarrow> nat"

definition arc_sound :: "('k, 'o) arc_count \<Rightarrow> bool" where
  "arc_sound sc \<longleftrightarrow> (\<forall>w a. handle_count w a \<le> sc w a)"

definition arc_exact :: "('k, 'o) arc_count \<Rightarrow> bool" where
  "arc_exact sc \<longleftrightarrow> (\<forall>w a. sc w a = handle_count w a)"

lemma arc_exact_sound: "arc_exact sc \<Longrightarrow> arc_sound sc"
  by (simp add: arc_exact_def arc_sound_def)

lemma handle_count_exact [simp]: "arc_exact handle_count"
  by (simp add: arc_exact_def)

lemma handle_count_sound [simp]: "arc_sound handle_count"
  by (simp add: arc_exact_sound)

subsection \<open>Memory\<close>

text \<open>An access to a slot through a handle; the slot must still be allocated.\<close>

definition on_slot ::
  "slot_id \<Rightarrow> ('o slot \<Rightarrow> fault + 'r \<times> 'o slot) \<Rightarrow> ('k, 'o) world \<Rightarrow> fault + 'r \<times> ('k, 'o) world" where
  "on_slot s f w = (case heap w s of
     None \<Rightarrow> Inl Dangling
   | Some sl \<Rightarrow> (case f sl of
       Inl e \<Rightarrow> Inl e
     | Inr (r, sl') \<Rightarrow> Inr (r, w\<lparr>heap := (heap w)(s \<mapsto> sl')\<rparr>)))"

text \<open>\<open>Arc::new(Slot::new())\<close>.\<close>

definition alloc_slot :: "('k, 'o) world \<Rightarrow> slot_id \<times> ('k, 'o) world" where
  "alloc_slot w = (next_slot w,
     w\<lparr>heap := (heap w)(next_slot w \<mapsto> slot_new), next_slot := next_slot w + 1\<rparr>)"

text \<open>
  The destructor of the slot, when its last handle goes away, and the end of its allocation.  The panic
  of an outcome's destructor ends the model.
\<close>

definition free_slot :: "slot_id \<Rightarrow> ('k, 'o) world \<Rightarrow> fault + ('k, 'o) world" where
  "free_slot s w = (case heap w s of
     None \<Rightarrow> Inl Dangling
   | Some sl \<Rightarrow> (case slot_drop (drop_panics w) sl of
       Inl e \<Rightarrow> Inl e
     | Inr (Panic _, ds) \<Rightarrow> Inl DestructorPanicked
     | Inr (Ret _, ds) \<Rightarrow> Inr (w\<lparr>heap := (heap w)(s := None), dropped := dropped w @ ds\<rparr>)))"

text \<open>
  Dropping one \<open>Arc<Slot>\<close>, after its owner has let go of it (so the handle is no longer one of the
  world's): the slot dies when no handle is left.
\<close>

definition release :: "('k, 'o) arc_count \<Rightarrow> slot_id \<Rightarrow> ('k, 'o) world \<Rightarrow> fault + ('k, 'o) world" where
  "release sc s w = (if sc w (SlotArc s) = 0 then free_slot s w else Inr w)"

fun release_all ::
  "('k, 'o) arc_count \<Rightarrow> slot_id list \<Rightarrow> ('k, 'o) world \<Rightarrow> fault + ('k, 'o) world" where
  "release_all sc [] w = Inr w"
| "release_all sc (s # ss) w =
     (case release sc s w of Inl e \<Rightarrow> Inl e | Inr w' \<Rightarrow> release_all sc ss w')"

text \<open>
  Dropping one \<open>Arc<Inner>\<close>: the last one drops the key table and the pool, and with them their
  handles to slots.
\<close>

definition release_inner :: "('k, 'o) arc_count \<Rightarrow> ('k, 'o) world \<Rightarrow> fault + ('k, 'o) world" where
  "release_inner sc w = (case inner w of
     None \<Rightarrow> Inl Dangling
   | Some i \<Rightarrow>
       if sc w InnerArc = 0
       then release_all sc
              (map (entry_slot \<circ> snd) (sm_entries (kmap (entries_of i))) @ pool (entries_of i))
              (w\<lparr>inner := None\<rparr>)
       else Inr w)"

text \<open>A new handle, for a value the operation returns.\<close>

definition fresh_handle :: "('k, 'o) world \<Rightarrow> handle \<times> ('k, 'o) world" where
  "fresh_handle w = (next_handle w, w\<lparr>next_handle := next_handle w + 1\<rparr>)"

end
