(* ===== verification/Space.thy ===== *)
theory Space
  imports World
begin

section \<open>The operations of the crate\<close>

text \<open>
  The public functions and the destructors of \<open>crates/observe/src/lib.rs\<close> on the state of \<open>World\<close>:
  \<open>ObservationSpace::subject\<close> and \<open>observe\<close>, \<open>Subject::complete\<close> and its two-phase drop,
  \<open>pair\<close>, \<open>Publisher\<close>, \<open>Observation\<close> and \<open>ObservationFuture\<close>.  Each runs without interference, as
  the locks make the namespace operations do.  A result is a fault, or a reply (or panic) with the
  new state; \<open>sc\<close> is the \<open>Arc\<close> count, \<open>wp\<close> says which of the user's wakers panic, \<open>drop_panics\<close> of the
  world which of the outcomes' destructors do.  The panic of a destructor is followed to the end of
  the operation's own unwinding, where \<open>DestructorPanicked\<close> ends the model.
\<close>

datatype ('k, 'o) reply =
    NewHandle handle
  | NewPair handle handle
  | SubjectExists 'k
  | UnknownSubject 'k
  | Value "'o option"
  | Flag bool
  | Polled "'o poll"
  | Waited "'o wait_result"
  | Done

type_synonym ('k, 'o) result = "fault + ('k, 'o) reply call \<times> ('k, 'o) world"

text \<open>An operation named with a handle nobody owns: the type system excludes it.\<close>

abbreviation no_handle :: "('k, 'o) result" where
  "no_handle \<equiv> Inl Dangling"

subsection \<open>Registering and observing\<close>

text \<open>
  The slot of a new generation: a recycled one, reset, or a fresh one.  When \<open>reset\<close> panics, the popped
  \<open>Arc\<close> is dropped by the unwinding before the panic leaves \<open>subject\<close>.
\<close>

definition acquire_slot ::
  "('k, 'o) arc_count \<Rightarrow> slot_id option \<Rightarrow> ('k, 'o) world \<Rightarrow> fault + slot_id \<times> ('k, 'o) world" where
  "acquire_slot sc pooled w = (case pooled of
     Some s \<Rightarrow>
       (case on_slot s
               (\<lambda>sl. case slot_reset (drop_panics w) sl of
                  Inl f \<Rightarrow> Inl f
                | Inr (r, ds, sl') \<Rightarrow> Inr ((r, ds), sl')) w of
          Inl f \<Rightarrow> Inl f
        | Inr ((Ret _, ds), w') \<Rightarrow> Inr (s, w'\<lparr>dropped := dropped w' @ ds\<rparr>)
        | Inr ((Panic _, ds), w') \<Rightarrow>
            (case release sc s (w'\<lparr>dropped := dropped w' @ ds\<rparr>) of
               Inl f \<Rightarrow> Inl f
             | Inr _ \<Rightarrow> Inl DestructorPanicked))
   | None \<Rightarrow> Inr (alloc_slot w))"

definition space_subject :: "('k, 'o) arc_count \<Rightarrow> 'k \<Rightarrow> ('k, 'o) world \<Rightarrow> ('k, 'o) result" where
  "space_subject sc key w = (case inner w of
     None \<Rightarrow> no_handle
   | Some i \<Rightarrow>
       let es = entries_of i;
           (pooled, rest) = pop (pool es)
       in if \<not> is_vacant key (kmap es) then
            let restored = (case pooled of Some s \<Rightarrow> rest @ [s] | None \<Rightarrow> rest)
            in Inr (Ret (SubjectExists key),
                    w\<lparr>inner := Some (i\<lparr>entries_of := es\<lparr>pool := restored\<rparr>\<rparr>)\<rparr>)
          else
            let gen = next_generation i;
                i1 = i\<lparr>next_generation := gen + 1, entries_of := es\<lparr>pool := rest\<rparr>\<rparr>;
                w1 = w\<lparr>inner := Some i1\<rparr>
            in if gen = USIZE_MAX then
                 (case (case pooled of Some s \<Rightarrow> release sc s w1 | None \<Rightarrow> Inr w1) of
                    Inl f \<Rightarrow> Inl f
                  | Inr w2 \<Rightarrow> Inr (Panic GenerationExhausted, w2))
               else
                 (case acquire_slot sc pooled w1 of
                    Inl f \<Rightarrow> Inl f
                  | Inr (s, w2) \<Rightarrow>
                      let es1 = entries_of i1;
                          entry = \<lparr>generation = gen, entry_slot = s\<rparr>;
                          i2 = i1\<lparr>entries_of := es1\<lparr>kmap := insert_vacant key entry (kmap es1)\<rparr>\<rparr>;
                          (h, w3) = fresh_handle (w2\<lparr>inner := Some i2\<rparr>);
                          sub = \<lparr>subject_key = key, subject_generation = gen, subject_slot = s,
                                 subject_completed = False\<rparr>
                      in Inr (Ret (NewHandle h), w3\<lparr>subjects := subjects w3 @ [(h, sub)]\<rparr>)))"

definition space_observe :: "'k \<Rightarrow> ('k, 'o) world \<Rightarrow> ('k, 'o) result" where
  "space_observe key w = (case inner w of
     None \<Rightarrow> no_handle
   | Some i \<Rightarrow>
       (case sm_get key (kmap (entries_of i)) of
          None \<Rightarrow> Inr (Ret (UnknownSubject key), w)
        | Some entry \<Rightarrow>
            let (h, w1) = fresh_handle w
            in Inr (Ret (NewHandle h),
                    w1\<lparr>observations := observations w1 @ [(h, entry_slot entry)]\<rparr>)))"

definition space_clone :: "('k, 'o) world \<Rightarrow> ('k, 'o) result" where
  "space_clone w =
     (let (h, w1) = fresh_handle w
      in Inr (Ret (NewHandle h), w1\<lparr>spaces := spaces w1 @ [(h, ())]\<rparr>))"

definition space_drop :: "('k, 'o) arc_count \<Rightarrow> handle \<Rightarrow> ('k, 'o) world \<Rightarrow> ('k, 'o) result" where
  "space_drop sc h w =
     (case map_of (spaces w) h of
        None \<Rightarrow> no_handle
      | Some _ \<Rightarrow>
          (case release_inner sc (w\<lparr>spaces := AList.delete h (spaces w)\<rparr>) of
             Inl f \<Rightarrow> Inl f
           | Inr w' \<Rightarrow> Inr (Ret Done, w')))"

subsection \<open>Publishing\<close>

text \<open>The common part of the two \<open>complete\<close> functions: the slot operation and its notifications.\<close>

definition publish ::
  "(waker \<Rightarrow> bool) \<Rightarrow> slot_id \<Rightarrow> 'o \<Rightarrow> ('k, 'o) world \<Rightarrow> fault + unit call \<times> ('k, 'o) world" where
  "publish wp s v w =
     (case on_slot s
             (\<lambda>sl. case slot_complete wp v sl of
                Inl f \<Rightarrow> Inl f
              | Inr (r, evs, sl') \<Rightarrow> Inr ((r, evs), sl')) w of
        Inl f \<Rightarrow> Inl f
      | Inr ((r, evs), w') \<Rightarrow>
          Inr (r, w'\<lparr>created := created w' @ [v], woken := woken w' @ evs\<rparr>))"

fun done_or_panic :: "unit call \<Rightarrow> ('k, 'o) reply call" where
  "done_or_panic (Ret _) = Ret Done"
| "done_or_panic (Panic p) = Panic p"

definition subject_complete ::
  "(waker \<Rightarrow> bool) \<Rightarrow> handle \<Rightarrow> 'o \<Rightarrow> ('k, 'o) world \<Rightarrow> ('k, 'o) result" where
  "subject_complete wp h v w = (case map_of (subjects w) h of
     None \<Rightarrow> no_handle
   | Some sub \<Rightarrow>
       if subject_completed sub
       then if drop_panics w v then Inl DestructorPanicked
            else Inr (Panic SubjectCompletedTwice,
                   w\<lparr>created := created w @ [v], dropped := dropped w @ [v]\<rparr>)
       else
         let w1 = w\<lparr>subjects := AList.update h (sub\<lparr>subject_completed := True\<rparr>) (subjects w)\<rparr>
         in (case publish wp (subject_slot sub) v w1 of
               Inl f \<Rightarrow> Inl f
             | Inr (r, w2) \<Rightarrow> Inr (done_or_panic r, w2)))"

text \<open>
  \<open>Drop for Subject\<close>: the body runs under the entries lock and may pool the slot; the fields
  (\<open>inner\<close>, then \<open>slot\<close>) are dropped afterwards, without the lock.
\<close>

definition subject_drop :: "('k, 'o) arc_count \<Rightarrow> handle \<Rightarrow> ('k, 'o) world \<Rightarrow> ('k, 'o) result" where
  "subject_drop sc h w = (case (map_of (subjects w) h, inner w) of
     (Some sub, Some i) \<Rightarrow>
       let es = entries_of i;
           key = subject_key sub;
           (removed, kmap') = remove_if key (subject_generation sub) (kmap es);
           w1 = w\<lparr>inner := Some (i\<lparr>entries_of := es\<lparr>kmap := kmap'\<rparr>\<rparr>)\<rparr>
       in (case (if removed
                 then (case sm_get key (kmap es) of
                         Some entry \<Rightarrow> release sc (entry_slot entry) w1
                       | None \<Rightarrow> Inr w1)
                 else Inr w1) of
             Inl f \<Rightarrow> Inl f
           | Inr w2 \<Rightarrow>
               let poolable = removed \<and> sc w2 (SlotArc (subject_slot sub)) = 1
                                \<and> length (pool es) < SLOT_POOL_CAP;
                   w3 = (if poolable
                         then w2\<lparr>inner := Some (i\<lparr>entries_of :=
                                es\<lparr>kmap := kmap', pool := pool es @ [subject_slot sub]\<rparr>\<rparr>)\<rparr>
                         else w2)
               in Inr (Ret Done, w3\<lparr>subjects := AList.delete h (subjects w3),
                                    retiring := retiring w3 @ [(h, sub)]\<rparr>))
   | _ \<Rightarrow> no_handle)"

definition subject_drop_inner :: "('k, 'o) arc_count \<Rightarrow> handle \<Rightarrow> ('k, 'o) world \<Rightarrow> ('k, 'o) result" where
  "subject_drop_inner sc h w = (case map_of (retiring w) h of
     None \<Rightarrow> no_handle
   | Some sub \<Rightarrow>
       (case release_inner sc (w\<lparr>retiring := AList.delete h (retiring w),
                                dying := dying w @ [(h, subject_slot sub)]\<rparr>) of
          Inl f \<Rightarrow> Inl f
        | Inr w1 \<Rightarrow> Inr (Ret Done, w1)))"

definition subject_drop_slot :: "('k, 'o) arc_count \<Rightarrow> handle \<Rightarrow> ('k, 'o) world \<Rightarrow> ('k, 'o) result" where
  "subject_drop_slot sc h w = (case map_of (dying w) h of
     None \<Rightarrow> no_handle
   | Some s \<Rightarrow>
       (case release sc s (w\<lparr>dying := AList.delete h (dying w)\<rparr>) of
          Inl f \<Rightarrow> Inl f
        | Inr w1 \<Rightarrow> Inr (Ret Done, w1)))"

subsection \<open>Direct pairs\<close>

definition pair_new :: "('k, 'o) world \<Rightarrow> ('k, 'o) result" where
  "pair_new w =
     (let (s, w1) = alloc_slot w;
          (hp, w2) = fresh_handle w1;
          (ho, w3) = fresh_handle w2
      in Inr (Ret (NewPair hp ho),
              w3\<lparr>publishers := publishers w3 @ [(hp, s)],
                 observations := observations w3 @ [(ho, s)]\<rparr>))"

text \<open>\<open>Publisher::complete\<close> consumes the publisher, also when a waker panics.\<close>

definition publisher_complete ::
  "('k, 'o) arc_count \<Rightarrow> (waker \<Rightarrow> bool) \<Rightarrow> handle \<Rightarrow> 'o \<Rightarrow> ('k, 'o) world \<Rightarrow> ('k, 'o) result" where
  "publisher_complete sc wp h v w = (case map_of (publishers w) h of
     None \<Rightarrow> no_handle
   | Some s \<Rightarrow>
       (case publish wp s v w of
          Inl f \<Rightarrow> Inl f
        | Inr (r, w1) \<Rightarrow>
            (case release sc s (w1\<lparr>publishers := AList.delete h (publishers w1)\<rparr>) of
               Inl f \<Rightarrow> Inl f
             | Inr w2 \<Rightarrow> Inr (done_or_panic r, w2))))"

definition publisher_drop :: "('k, 'o) arc_count \<Rightarrow> handle \<Rightarrow> ('k, 'o) world \<Rightarrow> ('k, 'o) result" where
  "publisher_drop sc h w = (case map_of (publishers w) h of
     None \<Rightarrow> no_handle
   | Some s \<Rightarrow>
       (case release sc s (w\<lparr>publishers := AList.delete h (publishers w)\<rparr>) of
          Inl f \<Rightarrow> Inl f
        | Inr w1 \<Rightarrow> Inr (Ret Done, w1)))"

subsection \<open>Observations\<close>

definition observation_clone :: "handle \<Rightarrow> ('k, 'o) world \<Rightarrow> ('k, 'o) result" where
  "observation_clone h w = (case map_of (observations w) h of
     None \<Rightarrow> no_handle
   | Some s \<Rightarrow>
       let (h', w1) = fresh_handle w
       in Inr (Ret (NewHandle h'), w1\<lparr>observations := observations w1 @ [(h', s)]\<rparr>))"

definition observation_drop :: "('k, 'o) arc_count \<Rightarrow> handle \<Rightarrow> ('k, 'o) world \<Rightarrow> ('k, 'o) result" where
  "observation_drop sc h w = (case map_of (observations w) h of
     None \<Rightarrow> no_handle
   | Some s \<Rightarrow>
       (case release sc s (w\<lparr>observations := AList.delete h (observations w)\<rparr>) of
          Inl f \<Rightarrow> Inl f
        | Inr w1 \<Rightarrow> Inr (Ret Done, w1)))"

definition observation_try_get :: "handle \<Rightarrow> ('k, 'o) world \<Rightarrow> ('k, 'o) result" where
  "observation_try_get h w = (case map_of (observations w) h of
     None \<Rightarrow> no_handle
   | Some s \<Rightarrow>
       (case on_slot s (\<lambda>sl. case try_get sl of Inl f \<Rightarrow> Inl f | Inr r \<Rightarrow> Inr (r, sl)) w of
          Inl f \<Rightarrow> Inl f
        | Inr (r, w1) \<Rightarrow> Inr (Ret (Value r), w1)))"

definition observation_into_outcome ::
  "('k, 'o) arc_count \<Rightarrow> handle \<Rightarrow> ('k, 'o) world \<Rightarrow> ('k, 'o) result" where
  "observation_into_outcome sc h w = (case map_of (observations w) h of
     None \<Rightarrow> no_handle
   | Some s \<Rightarrow>
       let w1 = w\<lparr>observations := AList.delete h (observations w)\<rparr>
       in if sc w (SlotArc s) = 1 then
            (case heap w s of
               None \<Rightarrow> no_handle
             | Some sl \<Rightarrow>
                 (case take_outcome sl of
                    Inl f \<Rightarrow> Inl f
                  | Inr (r, sl') \<Rightarrow>
                      (case slot_drop (drop_panics w) sl' of
                         Inl f \<Rightarrow> Inl f
                       | Inr (Panic _, ds) \<Rightarrow> Inl DestructorPanicked
                       | Inr (Ret _, ds) \<Rightarrow>
                           Inr (Ret (Value r),
                                w1\<lparr>heap := (heap w1)(s := None),
                                   moved := moved w1 @ (case r of None \<Rightarrow> [] | Some v \<Rightarrow> [v]),
                                   dropped := dropped w1 @ ds\<rparr>))))
          else
            (case release sc s w1 of
               Inl f \<Rightarrow> Inl f
             | Inr w2 \<Rightarrow> Inr (Ret (Value None), w2)))"

definition observation_register_waker :: "handle \<Rightarrow> waker \<Rightarrow> ('k, 'o) world \<Rightarrow> ('k, 'o) result" where
  "observation_register_waker h k w = (case map_of (observations w) h of
     None \<Rightarrow> no_handle
   | Some s \<Rightarrow>
       (case on_slot s (\<lambda>sl. Inr (register_waker k sl)) w of
          Inl f \<Rightarrow> Inl f
        | Inr (r, w1) \<Rightarrow> Inr (Ret (Flag r), w1)))"

definition observation_wait :: "handle \<Rightarrow> thread_id \<Rightarrow> ('k, 'o) world \<Rightarrow> ('k, 'o) result" where
  "observation_wait h t w = (case map_of (observations w) h of
     None \<Rightarrow> no_handle
   | Some s \<Rightarrow>
       (case on_slot s (wait_round t) w of
          Inl f \<Rightarrow> Inl f
        | Inr (r, w1) \<Rightarrow> Inr (Ret (Waited r), w1)))"

definition observation_wait_timeout ::
  "handle \<Rightarrow> thread_id \<Rightarrow> nat \<Rightarrow> nat \<Rightarrow> nat \<Rightarrow> nat \<Rightarrow> ('k, 'o) world \<Rightarrow> ('k, 'o) result" where
  "observation_wait_timeout h t instant_max start timeout now w = (case map_of (observations w) h of
     None \<Rightarrow> no_handle
   | Some s \<Rightarrow>
       (case wait_deadline instant_max start timeout of
          Panic p \<Rightarrow> Inr (Panic p, w)
        | Ret deadline \<Rightarrow>
            (case on_slot s (wait_timeout_round t now deadline) w of
               Inl f \<Rightarrow> Inl f
             | Inr (r, w1) \<Rightarrow> Inr (Ret (Waited r), w1))))"

subsection \<open>Futures\<close>

definition into_future :: "handle \<Rightarrow> ('k, 'o) world \<Rightarrow> ('k, 'o) result" where
  "into_future h w = (case map_of (observations w) h of
     None \<Rightarrow> no_handle
   | Some s \<Rightarrow>
       Inr (Ret (NewHandle h),
            w\<lparr>observations := AList.delete h (observations w),
              futures := futures w @ [(h, \<lparr>future_slot = s, future_wakers = []\<rparr>)]\<rparr>))"

definition observation_future_poll :: "handle \<Rightarrow> waker \<Rightarrow> ('k, 'o) world \<Rightarrow> ('k, 'o) result" where
  "observation_future_poll h k w = (case map_of (futures w) h of
     None \<Rightarrow> no_handle
   | Some fut \<Rightarrow>
       (case on_slot (future_slot fut)
               (\<lambda>sl. case future_poll k (future_wakers fut) sl of
                  Inl f \<Rightarrow> Inl f
                | Inr (r, mine, sl') \<Rightarrow> Inr ((r, mine), sl')) w of
          Inl f \<Rightarrow> Inl f
        | Inr ((r, mine), w1) \<Rightarrow>
            Inr ((case r of Ret p \<Rightarrow> Ret (Polled p) | Panic p \<Rightarrow> Panic p),
                 w1\<lparr>futures := AList.update h (fut\<lparr>future_wakers := mine\<rparr>) (futures w1)\<rparr>)))"

definition observation_future_drop :: "('k, 'o) arc_count \<Rightarrow> handle \<Rightarrow> ('k, 'o) world \<Rightarrow> ('k, 'o) result" where
  "observation_future_drop sc h w = (case map_of (futures w) h of
     None \<Rightarrow> no_handle
   | Some fut \<Rightarrow>
       (case on_slot (future_slot fut)
               (\<lambda>sl. case future_drop (future_wakers fut) sl of
                  Inl f \<Rightarrow> Inl f
                | Inr sl' \<Rightarrow> Inr ((), sl')) w of
          Inl f \<Rightarrow> Inl f
        | Inr (_, w1) \<Rightarrow>
            (case release sc (future_slot fut) (w1\<lparr>futures := AList.delete h (futures w1)\<rparr>) of
               Inl f \<Rightarrow> Inl f
             | Inr w2 \<Rightarrow> Inr (Ret Done, w2))))"

end
