(* ===== verification/Invariant.thy ===== *)
theory Invariant
  imports Space
begin

section \<open>The invariant of the program state\<close>

text \<open>
  What every operation keeps.  Slots are well formed; every handle points to an allocated slot;
  handles have one name each; the key table holds exactly the entries of the live subjects; every
  slot has at most one publication authority (a live subject, a publisher, or the pool), and
  nobody reads a pooled slot; the completion bit of a slot agrees with its authority; the owner
  counts of the registry are the numbers of futures; and every outcome value is accounted for.
\<close>

definition heap_inv :: "('k, 'o) world \<Rightarrow> bool" where
  "heap_inv w \<longleftrightarrow> (\<forall>s sl. heap w s = Some sl \<longrightarrow> slot_ok sl \<and> s < next_slot w)"

definition ref_inv :: "('k, 'o) world \<Rightarrow> bool" where
  "ref_inv w \<longleftrightarrow> (\<forall>s. s \<in># slot_refs w \<longrightarrow> heap w s \<noteq> None)"

definition all_handles :: "('k, 'o) world \<Rightarrow> handle list" where
  "all_handles w = map fst (spaces w) @ map fst (subjects w) @ map fst (retiring w)
     @ map fst (dying w) @ map fst (publishers w) @ map fst (observations w) @ map fst (futures w)"

definition handle_inv :: "('k, 'o) world \<Rightarrow> bool" where
  "handle_inv w \<longleftrightarrow> distinct (all_handles w) \<and> (\<forall>h\<in>set (all_handles w). h < next_handle w)"

definition entry_of :: "'k subject \<Rightarrow> 'k \<times> slot_entry" where
  "entry_of sub = (subject_key sub,
     \<lparr>generation = subject_generation sub, entry_slot = subject_slot sub\<rparr>)"

definition table_inv :: "('k, 'o) world \<Rightarrow> bool" where
  "table_inv w \<longleftrightarrow>
     (inner w = None \<longrightarrow> spaces w = [] \<and> subjects w = [] \<and> retiring w = []) \<and>
     (\<forall>i. inner w = Some i \<longrightarrow>
        sm_wf (kmap (entries_of i)) \<and> length (pool (entries_of i)) \<le> SLOT_POOL_CAP
        \<and> image_mset (entry_of \<circ> snd) (mset (subjects w)) = mset (sm_entries (kmap (entries_of i))))"

definition pool_of :: "('k, 'o) world \<Rightarrow> slot_id list" where
  "pool_of w = (case inner w of None \<Rightarrow> [] | Some i \<Rightarrow> pool (entries_of i))"

definition authority_slots :: "('k, 'o) world \<Rightarrow> slot_id list" where
  "authority_slots w = map (subject_slot \<circ> snd) (subjects w) @ map snd (publishers w) @ pool_of w"

definition reader_slots :: "('k, 'o) world \<Rightarrow> slot_id set" where
  "reader_slots w = snd ` set (observations w) \<union> (future_slot \<circ> snd) ` set (futures w)"

definition authority_inv :: "('k, 'o) world \<Rightarrow> bool" where
  "authority_inv w \<longleftrightarrow> distinct (authority_slots w) \<and> set (pool_of w) \<inter> reader_slots w = {}"

definition completion_inv :: "('k, 'o) world \<Rightarrow> bool" where
  "completion_inv w \<longleftrightarrow>
     (\<forall>h sub sl. (h, sub) \<in> set (subjects w) \<longrightarrow> heap w (subject_slot sub) = Some sl \<longrightarrow>
        (completed sl \<longleftrightarrow> subject_completed sub)) \<and>
     (\<forall>h s sl. (h, s) \<in> set (publishers w) \<longrightarrow> heap w s = Some sl \<longrightarrow> \<not> completed sl)"

definition future_owners_of :: "(handle \<times> future) list \<Rightarrow> slot_id \<Rightarrow> waker \<Rightarrow> nat" where
  "future_owners_of fs s x =
     length (filter (\<lambda>(h, f). future_slot f = s \<and> x \<in> set (future_wakers f)) fs)"

definition future_inv :: "('k, 'o) world \<Rightarrow> bool" where
  "future_inv w \<longleftrightarrow> (\<forall>s sl x. heap w s = Some sl \<longrightarrow> \<not> completed sl \<longrightarrow>
     owners x (registered sl) = future_owners_of (futures w) s x)"

definition heap_cells :: "(slot_id \<rightharpoonup> 'o slot) \<Rightarrow> nat \<Rightarrow> 'o multiset" where
  "heap_cells hp n = (\<Sum>s<n. case hp s of None \<Rightarrow> {#} | Some sl \<Rightarrow> mset (cell sl))"

definition account_inv :: "('k, 'o) world \<Rightarrow> bool" where
  "account_inv w \<longleftrightarrow>
     mset (created w) = mset (dropped w) + mset (moved w) + heap_cells (heap w) (next_slot w)"

text \<open>No destructor of an outcome panics; \<open>Destructors\<close> follows programs where one does.\<close>

definition quiet_inv :: "('k, 'o) world \<Rightarrow> bool" where
  "quiet_inv w \<longleftrightarrow> drop_panics w = (\<lambda>_. False)"

definition wf :: "('k, 'o) world \<Rightarrow> bool" where
  "wf w \<longleftrightarrow> heap_inv w \<and> ref_inv w \<and> handle_inv w \<and> table_inv w \<and> authority_inv w
     \<and> completion_inv w \<and> future_inv w \<and> account_inv w \<and> quiet_inv w"

lemma wfI [intro?]:
  "heap_inv w \<Longrightarrow> ref_inv w \<Longrightarrow> handle_inv w \<Longrightarrow> table_inv w \<Longrightarrow> authority_inv w \<Longrightarrow>
   completion_inv w \<Longrightarrow> future_inv w \<Longrightarrow> account_inv w \<Longrightarrow> quiet_inv w \<Longrightarrow> wf w"
  by (simp add: wf_def)

lemma wfD:
  assumes "wf w"
  shows "heap_inv w" "ref_inv w" "handle_inv w" "table_inv w" "authority_inv w"
    "completion_inv w" "future_inv w" "account_inv w" "quiet_inv w"
  using assms by (simp_all add: wf_def)

lemma wf_quiet: "wf w \<Longrightarrow> drop_panics w = (\<lambda>_. False)"
  by (simp add: wf_def quiet_inv_def)

subsection \<open>The start\<close>

lemma space_new_wf: "wf space_new"
  by (simp add: wf_def heap_inv_def ref_inv_def handle_inv_def all_handles_def table_inv_def
      authority_inv_def authority_slots_def pool_of_def reader_slots_def completion_inv_def
      future_inv_def account_inv_def quiet_inv_def heap_cells_def space_new_def slot_refs_def table_refs_def
      sm_default_def SLOT_POOL_CAP_def INLINE_CAP_def)

subsection \<open>Counting outcome values\<close>

lemma heap_cells_upd:
  assumes "s < n"
  shows "heap_cells (hp(s := x)) n + (case hp s of None \<Rightarrow> {#} | Some sl \<Rightarrow> mset (cell sl))
       = heap_cells hp n + (case x of None \<Rightarrow> {#} | Some sl \<Rightarrow> mset (cell sl))"
proof -
  let ?f = "\<lambda>hp s. case hp s of None \<Rightarrow> {#} | Some sl \<Rightarrow> mset (cell sl)"
  have fin: "finite {..<n}" and mem: "s \<in> {..<n}" using assms by auto
  have "(\<Sum>t\<in>{..<n} - {s}. ?f (hp(s := x)) t) = (\<Sum>t\<in>{..<n} - {s}. ?f hp t)"
    by (rule sum.cong) auto
  then show ?thesis
    unfolding heap_cells_def
    using sum.remove [OF fin mem, of "?f hp"] sum.remove [OF fin mem, of "?f (hp(s := x))"]
    by (simp add: ac_simps)
qed

lemma heap_cells_same:
  assumes "s < n" and "hp s = Some sl" and "cell sl' = cell sl"
  shows "heap_cells (hp(s \<mapsto> sl')) n = heap_cells hp n"
  using heap_cells_upd [OF assms(1), of hp "Some sl'"] assms by simp

lemma heap_cells_free:
  assumes "s < n" and "hp s = Some sl"
  shows "heap_cells hp n = heap_cells (hp(s := None)) n + mset (cell sl)"
  using heap_cells_upd [OF assms(1), of hp None] assms by simp

lemma heap_cells_alloc:
  "heap_cells (hp(n \<mapsto> slot_new)) (Suc n) = heap_cells hp n"
proof -
  have "(\<Sum>s<n. case (hp(n \<mapsto> slot_new)) s of None \<Rightarrow> {#} | Some sl \<Rightarrow> mset (cell sl)) =
        (\<Sum>s<n. case hp s of None \<Rightarrow> {#} | Some sl \<Rightarrow> mset (cell sl))"
    by (rule sum.cong) auto
  then show ?thesis by (simp add: heap_cells_def)
qed

end
