(* ===== verification/Preservation.thy ===== *)
theory Preservation
  imports Invariant
begin

section \<open>Steps that keep the invariant\<close>

text \<open>
  The building blocks of the operations, each with its effect on the state in closed form and the
  proof that it keeps \<open>wf\<close>: touching a slot without completing it, publishing, letting go of a
  handle, handing out a handle, allocating, recycling and freeing.
\<close>

lemma pool_of_simps [simp]:
  "pool_of (w\<lparr>heap := a\<rparr>) = pool_of w"
  "pool_of (w\<lparr>next_slot := b\<rparr>) = pool_of w"
  "pool_of (w\<lparr>next_handle := b\<rparr>) = pool_of w"
  "pool_of (w\<lparr>inner := Some i\<rparr>) = pool (entries_of i)"
  "pool_of (w\<lparr>inner := None\<rparr>) = []"
  "pool_of (w\<lparr>spaces := c\<rparr>) = pool_of w"
  "pool_of (w\<lparr>subjects := d\<rparr>) = pool_of w"
  "pool_of (w\<lparr>retiring := d\<rparr>) = pool_of w"
  "pool_of (w\<lparr>dying := e\<rparr>) = pool_of w"
  "pool_of (w\<lparr>publishers := e\<rparr>) = pool_of w"
  "pool_of (w\<lparr>observations := e\<rparr>) = pool_of w"
  "pool_of (w\<lparr>futures := f\<rparr>) = pool_of w"
  "pool_of (w\<lparr>created := g\<rparr>) = pool_of w"
  "pool_of (w\<lparr>dropped := g\<rparr>) = pool_of w"
  "pool_of (w\<lparr>moved := g\<rparr>) = pool_of w"
  "pool_of (w\<lparr>woken := k\<rparr>) = pool_of w"
  by (simp_all add: pool_of_def)

lemma pool_of_inner: "inner w = Some i \<Longrightarrow> pool_of w = pool (entries_of i)"
  by (simp add: pool_of_def)

lemma wf_woken [simp]: "wf (w\<lparr>woken := x\<rparr>) = wf w"
  by (simp add: wf_def heap_inv_def ref_inv_def handle_inv_def all_handles_def
      table_inv_def authority_inv_def authority_slots_def pool_of_def reader_slots_def
      completion_inv_def future_inv_def account_inv_def quiet_inv_def slot_refs_def)

text \<open>Letting go of handles, and nothing else.\<close>

lemma wf_shrink:
  assumes "wf w"
    and same: "heap w' = heap w" "next_slot w' = next_slot w" "next_handle w' = next_handle w"
      "inner w' = inner w" "subjects w' = subjects w" "futures w' = futures w"
      "created w' = created w" "dropped w' = dropped w" "moved w' = moved w" "drop_panics w' = drop_panics w"
    and less: "mset (spaces w') \<subseteq># mset (spaces w)" "mset (retiring w') \<subseteq># mset (retiring w)"
      "mset (dying w') \<subseteq># mset (dying w)"
      "mset (publishers w') \<subseteq># mset (publishers w)" "mset (observations w') \<subseteq># mset (observations w)"
  shows "wf w'"
proof
  note inv = wfD [OF assms(1)]
  have sets: "set (publishers w') \<subseteq> set (publishers w)" "set (observations w') \<subseteq> set (observations w)"
    using less(4,5) by (metis set_mset_mono set_mset_mset)+
  show "heap_inv w'" using inv(1) same by (simp add: heap_inv_def)
  have "slot_refs w' \<subseteq># slot_refs w"
    unfolding slot_refs_def same by (intro subset_mset.add_mono image_mset_subseteq_mono less) auto
  then show "ref_inv w'" using inv(2) same(1) by (auto simp: ref_inv_def dest: mset_subset_eqD)
  have sub: "mset (all_handles w') \<subseteq># mset (all_handles w)"
    unfolding all_handles_def same mset_append mset_map
    by (intro subset_mset.add_mono image_mset_subseteq_mono less) auto
  then have "set (all_handles w') \<subseteq> set (all_handles w)" by (metis set_mset_mono set_mset_mset)
  with sub inv(3) show "handle_inv w'"
    using distinct_subset_mset [OF sub] same by (auto simp: handle_inv_def)
  show "table_inv w'"
    using inv(4) less(1,2) same by (auto simp: table_inv_def)
  have "mset (authority_slots w') \<subseteq># mset (authority_slots w)"
    unfolding authority_slots_def pool_of_def same mset_append mset_map
    by (intro subset_mset.add_mono image_mset_subseteq_mono less) auto
  moreover have "reader_slots w' \<subseteq> reader_slots w"
    using sets same by (auto simp: reader_slots_def)
  moreover have "pool_of w' = pool_of w" using same by (simp add: pool_of_def)
  ultimately show "authority_inv w'"
    using inv(5) distinct_subset_mset by (auto simp: authority_inv_def)
  show "completion_inv w'" using inv(6) same sets by (auto simp: completion_inv_def)
  show "future_inv w'" using inv(7) same by (auto simp: future_inv_def)
  show "quiet_inv w'" using inv(9) same by (simp add: quiet_inv_def)
  show "account_inv w'" using inv(8) same by (auto simp: account_inv_def)
qed

text \<open>An access to a slot that leaves its outcome and the owner counts alone.\<close>

lemma wf_touch:
  assumes "wf w" and hp: "heap w s = Some sl" and ok: "slot_ok sl'"
    and same: "outcome sl' = outcome sl"
    and own: "\<not> completed sl \<Longrightarrow> \<forall>x. owners x (registered sl') = owners x (registered sl)"
  shows "wf (w\<lparr>heap := (heap w)(s \<mapsto> sl')\<rparr>)"
proof
  note inv = wfD [OF assms(1)]
  let ?w = "w\<lparr>heap := (heap w)(s \<mapsto> sl')\<rparr>"
  have s: "s < next_slot w" "slot_ok sl" using inv(1) hp by (auto simp: heap_inv_def)
  have comp: "completed sl' = completed sl"
    using same slot_ok_outcome ok s(2) by metis
  have cell: "cell sl' = cell sl" using same by (simp add: cell_def)
  show "heap_inv ?w" using inv(1) s ok by (auto simp: heap_inv_def)
  show "ref_inv ?w" using inv(2) by (auto simp: ref_inv_def slot_refs_def)
  show "handle_inv ?w" using inv(3) by (simp add: handle_inv_def all_handles_def)
  show "table_inv ?w" using inv(4) by (simp add: table_inv_def)
  show "authority_inv ?w"
    using inv(5) by (simp add: authority_inv_def authority_slots_def pool_of_def reader_slots_def)
  show "completion_inv ?w" using inv(6) hp comp by (auto simp: completion_inv_def)
  show "future_inv ?w"
    unfolding future_inv_def
  proof (intro allI impI)
    fix t tl x
    assume t: "heap ?w t = Some tl" "\<not> completed tl"
    show "owners x (registered tl) = future_owners_of (futures ?w) t x"
    proof (cases "t = s")
      case True
      then have "tl = sl'" using t(1) by simp
      then have "owners x (registered tl) = owners x (registered sl)" using own t(2) comp by simp
      with True t(2) \<open>tl = sl'\<close> comp hp inv(7) show ?thesis by (simp add: future_inv_def)
    next
      case False
      with t inv(7) show ?thesis by (simp add: future_inv_def)
    qed
  qed
  show "quiet_inv ?w" using inv(9) by (simp add: quiet_inv_def)
  show "account_inv ?w" using inv(8) hp s cell by (simp add: account_inv_def heap_cells_same)
qed

lemma handle_inv_fresh:
  assumes "handle_inv w" and eq: "mset (all_handles w') = add_mset (next_handle w) (mset (all_handles w))"
    and "next_handle w' = next_handle w + 1"
  shows "handle_inv w'"
proof -
  have new: "next_handle w \<notin> set (all_handles w)" using assms(1) by (auto simp: handle_inv_def)
  have eq': "mset (all_handles w') = mset (next_handle w # all_handles w)" using eq by simp
  have "distinct (all_handles w')"
    using mset_eq_imp_distinct_iff [OF eq'] new assms(1) by (simp add: handle_inv_def)
  moreover have "set (all_handles w') = insert (next_handle w) (set (all_handles w))"
    using mset_eq_setD [OF eq'] by simp
  ultimately show ?thesis using assms(1,3) by (auto simp: handle_inv_def)
qed

text \<open>Handing out an observation of an allocated slot that is not pooled.\<close>

lemma wf_new_observation:
  assumes "wf w" and "heap w s \<noteq> None" and "s \<notin> set (pool_of w)"
  shows "wf (w\<lparr>next_handle := next_handle w + 1, observations := observations w @ [(next_handle w, s)]\<rparr>)"
    (is "wf ?w")
proof
  note inv = wfD [OF assms(1)]
  show "heap_inv ?w" using inv(1) by (simp add: heap_inv_def)
  show "ref_inv ?w" using inv(2) assms(2) by (auto simp: ref_inv_def slot_refs_def)
  show "handle_inv ?w" by (rule handle_inv_fresh [OF inv(3)]) (simp_all add: all_handles_def)
  show "table_inv ?w" using inv(4) by (simp add: table_inv_def)
  show "authority_inv ?w"
    using inv(5) assms(3) by (auto simp: authority_inv_def authority_slots_def pool_of_def reader_slots_def)
  show "completion_inv ?w" using inv(6) by (auto simp: completion_inv_def)
  show "future_inv ?w" using inv(7) by (auto simp: future_inv_def)
  show "quiet_inv ?w" using inv(9) by (simp add: quiet_inv_def)
  show "account_inv ?w" using inv(8) by (simp add: account_inv_def)
qed

subsection \<open>The end of a slot\<close>

definition released :: "('k, 'o) arc_count \<Rightarrow> slot_id \<Rightarrow> ('k, 'o) world \<Rightarrow> ('k, 'o) world" where
  "released sc s w =
     (if sc w (SlotArc s) = 0
      then w\<lparr>heap := (heap w)(s := None), dropped := dropped w @ cell (the (heap w s))\<rparr>
      else w)"

lemma release_eq:
  assumes "wf w" and "heap w s \<noteq> None"
  shows "release sc s w = Inr (released sc s w)"
proof -
  obtain sl where sl: "heap w s = Some sl" using assms(2) by auto
  then have "slot_ok sl" using wfD(1) [OF assms(1)] by (auto simp: heap_inv_def)
  with sl show ?thesis by (simp add: release_def released_def free_slot_def slot_drop_eq wf_quiet [OF assms(1)])
qed

lemma wf_free:
  assumes "wf w" and hp: "heap w s = Some sl" and free: "s \<notin># slot_refs w"
    and acc: "mset (dropped w') + mset (moved w') = mset (dropped w) + mset (moved w) + mset (cell sl)"
    and w': "heap w' = (heap w)(s := None)" "next_slot w' = next_slot w" "next_handle w' = next_handle w"
      "inner w' = inner w" "spaces w' = spaces w" "subjects w' = subjects w" "retiring w' = retiring w"
      "dying w' = dying w" "publishers w' = publishers w" "observations w' = observations w" "futures w' = futures w"
      "created w' = created w" "drop_panics w' = drop_panics w"
  shows "wf w'"
proof
  note inv = wfD [OF assms(1)]
  have s: "s < next_slot w" using inv(1) hp by (auto simp: heap_inv_def)
  have refs: "slot_refs w' = slot_refs w" by (simp add: slot_refs_def w')
  show "heap_inv w'" using inv(1) w' by (simp add: heap_inv_def)
  show "ref_inv w'" using inv(2) free refs w'(1) by (auto simp: ref_inv_def)
  show "handle_inv w'" using inv(3) w' by (simp add: handle_inv_def all_handles_def)
  show "table_inv w'" using inv(4) w' by (simp add: table_inv_def)
  show "authority_inv w'"
    using inv(5) w' by (simp add: authority_inv_def authority_slots_def pool_of_def reader_slots_def)
  show "completion_inv w'" using inv(6) w' by (auto simp: completion_inv_def)
  show "future_inv w'" using inv(7) w' by (auto simp: future_inv_def)
  have "mset (created w) = mset (dropped w) + mset (moved w) + mset (cell sl)
      + heap_cells ((heap w)(s := None)) (next_slot w)"
    using inv(8) heap_cells_free [of s "next_slot w" "heap w" sl] s hp
    by (simp add: account_inv_def ac_simps)
  also have "\<dots> = mset (dropped w') + mset (moved w') + heap_cells ((heap w)(s := None)) (next_slot w)"
    by (simp only: acc)
  finally show "account_inv w'" by (simp only: account_inv_def w')
  show "quiet_inv w'" using inv(9) w' by (simp add: quiet_inv_def)
qed

lemma arc_sound_zero: "arc_sound sc \<Longrightarrow> sc w (SlotArc s) = 0 \<Longrightarrow> s \<notin># slot_refs w"
proof -
  assume "arc_sound sc" "sc w (SlotArc s) = 0"
  then have "handle_count w (SlotArc s) \<le> 0" unfolding arc_sound_def by metis
  then show "s \<notin># slot_refs w" by (simp add: not_in_iff)
qed

lemma wf_released:
  assumes "wf w" and "heap w s \<noteq> None" and "arc_sound sc"
  shows "wf (released sc s w)"
proof (cases "sc w (SlotArc s) = 0")
  case True
  obtain sl where sl: "heap w s = Some sl" using assms(2) by auto
  show ?thesis
    by (rule wf_free [OF assms(1) sl arc_sound_zero [OF assms(3) True]])
      (use True sl in \<open>simp_all add: released_def\<close>)
next
  case False
  then show ?thesis using assms(1) by (simp add: released_def)
qed

lemma released_simps [simp]:
  "next_slot (released sc s w) = next_slot w"
  "next_handle (released sc s w) = next_handle w"
  "inner (released sc s w) = inner w"
  "spaces (released sc s w) = spaces w"
  "subjects (released sc s w) = subjects w"
  "retiring (released sc s w) = retiring w"
  "dying (released sc s w) = dying w"
  "publishers (released sc s w) = publishers w"
  "observations (released sc s w) = observations w"
  "futures (released sc s w) = futures w"
  "created (released sc s w) = created w"
  "moved (released sc s w) = moved w"
  "woken (released sc s w) = woken w"
  "slot_refs (released sc s w) = slot_refs w"
  by (simp_all add: released_def slot_refs_def)

text \<open>A slot somebody still holds survives.\<close>

lemma released_keeps:
  "arc_sound sc \<Longrightarrow> t \<in># slot_refs w \<Longrightarrow> heap (released sc s w) t = heap w t"
  using arc_sound_zero [of sc w s] by (auto simp: released_def)

subsection \<open>Shrinking\<close>

lemma ref_inv_sub:
  "ref_inv w \<Longrightarrow> set_mset (slot_refs w') \<subseteq> set_mset (slot_refs w) \<Longrightarrow>
   (\<And>s. heap w s \<noteq> None \<Longrightarrow> heap w' s \<noteq> None) \<Longrightarrow> ref_inv w'"
  by (auto simp: ref_inv_def)

lemma handle_inv_sub:
  assumes "handle_inv w" and "mset (all_handles w') \<subseteq># mset (all_handles w)"
    and "next_handle w' = next_handle w"
  shows "handle_inv w'"
proof -
  have "set (all_handles w') \<subseteq> set (all_handles w)"
    using set_mset_mono [OF assms(2)] by simp
  with assms distinct_subset_mset [OF assms(2)] show ?thesis by (auto simp: handle_inv_def)
qed

lemma authority_inv_sub:
  assumes "authority_inv w" and "mset (authority_slots w') \<subseteq># mset (authority_slots w)"
    and "set (pool_of w') \<inter> reader_slots w' \<subseteq> set (pool_of w) \<inter> reader_slots w"
  shows "authority_inv w'"
  using assms(1,3) distinct_subset_mset [OF assms(2)] by (auto simp: authority_inv_def)

subsection \<open>One authority per slot\<close>

lemma handles_distinct:
  assumes "wf w"
  shows "distinct (map fst (spaces w))" "distinct (map fst (subjects w))"
    "distinct (map fst (retiring w))" "distinct (map fst (dying w))"
    "distinct (map fst (publishers w))" "distinct (map fst (observations w))"
    "distinct (map fst (futures w))"
  using wfD(3) [OF assms] by (auto simp: handle_inv_def all_handles_def)

lemma subject_slot_unique:
  assumes "wf w" and "(h, sub) \<in> set (subjects w)" and "(h', sub') \<in> set (subjects w)"
    and "subject_slot sub' = subject_slot sub"
  shows "h' = h \<and> sub' = sub"
proof -
  have "inj_on (subject_slot \<circ> snd) (set (subjects w))"
    using wfD(5) [OF assms(1)] by (simp add: authority_inv_def authority_slots_def distinct_map)
  from inj_onD [OF this, of "(h, sub)" "(h', sub')"] assms(2-4) show ?thesis by simp
qed

lemma publisher_slot_unique:
  assumes "wf w" and "(h, s) \<in> set (publishers w)" and "(h', s) \<in> set (publishers w)"
  shows "h' = h"
proof -
  have "inj_on snd (set (publishers w))"
    using wfD(5) [OF assms(1)] by (simp add: authority_inv_def authority_slots_def distinct_map)
  from inj_onD [OF this, of "(h, s)" "(h', s)"] assms(2,3) show ?thesis by simp
qed

lemma subject_not_publisher:
  "wf w \<Longrightarrow> (h, sub) \<in> set (subjects w) \<Longrightarrow> (h', subject_slot sub) \<notin> set (publishers w)"
  using wfD(5) [of w] by (force simp: authority_inv_def authority_slots_def)

lemma subject_not_pooled:
  "wf w \<Longrightarrow> (h, sub) \<in> set (subjects w) \<Longrightarrow> subject_slot sub \<notin> set (pool_of w)"
  using wfD(5) [of w] by (force simp: authority_inv_def authority_slots_def)

lemma slot_refs_iff:
  "s \<in># slot_refs w \<longleftrightarrow> s \<in># table_refs (inner w)
     \<or> (\<exists>h sub. (h, sub) \<in> set (subjects w) \<and> subject_slot sub = s)
     \<or> (\<exists>h sub. (h, sub) \<in> set (retiring w) \<and> subject_slot sub = s)
     \<or> (\<exists>h. (h, s) \<in> set (dying w)) \<or> (\<exists>h. (h, s) \<in> set (publishers w))
     \<or> (\<exists>h. (h, s) \<in> set (observations w))
     \<or> (\<exists>h f. (h, f) \<in> set (futures w) \<and> future_slot f = s)"
  by (auto simp: slot_refs_def image_iff Bex_def)

lemma ref_heap: "wf w \<Longrightarrow> s \<in># slot_refs w \<Longrightarrow> heap w s \<noteq> None"
  using wfD(2) [of w] by (simp add: ref_inv_def)

lemma subject_slot_heap:
  "wf w \<Longrightarrow> (h, sub) \<in> set (subjects w) \<Longrightarrow> heap w (subject_slot sub) \<noteq> None"
  by (rule ref_heap) (auto simp: slot_refs_iff)

lemma publisher_slot_heap: "wf w \<Longrightarrow> (h, s) \<in> set (publishers w) \<Longrightarrow> heap w s \<noteq> None"
  by (rule ref_heap) (auto simp: slot_refs_iff)

lemma observation_slot_heap: "wf w \<Longrightarrow> (h, s) \<in> set (observations w) \<Longrightarrow> heap w s \<noteq> None"
  by (rule ref_heap) (auto simp: slot_refs_iff)

lemma future_slot_heap: "wf w \<Longrightarrow> (h, f) \<in> set (futures w) \<Longrightarrow> heap w (future_slot f) \<noteq> None"
  by (rule ref_heap) (auto simp: slot_refs_iff)

lemma heap_slot_ok: "wf w \<Longrightarrow> heap w s = Some sl \<Longrightarrow> slot_ok sl \<and> s < next_slot w"
  using wfD(1) [of w] by (simp add: heap_inv_def)

subsection \<open>Publication\<close>

lemma heap_cells_publish:
  assumes "s < n" and "hp s = Some sl" and "slot_ok sl" and "\<not> completed sl"
  shows "heap_cells (hp(s \<mapsto> published_slot v sl)) n = add_mset v (heap_cells hp n)"
proof -
  have "outcome sl = None" using assms slot_ok_outcome by blast
  then have "cell sl = []" by (simp add: cell_def)
  with heap_cells_upd [OF assms(1), of hp "Some (published_slot v sl)"] assms(2) show ?thesis by simp
qed

lemma wf_publish_subject:
  assumes "wf w" and sub: "map_of (subjects w) h = Some sub" and hp: "heap w (subject_slot sub) = Some sl"
    and pend: "\<not> subject_completed sub"
  shows "wf (w\<lparr>subjects := AList.update h (sub\<lparr>subject_completed := True\<rparr>) (subjects w),
             heap := (heap w)(subject_slot sub \<mapsto> published_slot v sl), created := created w @ [v]\<rparr>)"
    (is "wf ?w")
proof
  note inv = wfD [OF assms(1)]
  let ?sub = "sub\<lparr>subject_completed := True\<rparr>"
  have mem: "(h, sub) \<in> set (subjects w)" using sub by (rule map_of_SomeD)
  have ok: "slot_ok sl" "subject_slot sub < next_slot w" using heap_slot_ok [OF assms(1) hp] by auto
  have pending: "\<not> completed sl" using inv(6) mem hp pend by (auto simp: completion_inv_def)
  have slots: "map (subject_slot \<circ> snd) (AList.update h ?sub (subjects w)) = map (subject_slot \<circ> snd) (subjects w)"
    and keys: "map fst (AList.update h ?sub (subjects w)) = map fst (subjects w)"
    and ents: "map (entry_of \<circ> snd) (AList.update h ?sub (subjects w)) = map (entry_of \<circ> snd) (subjects w)"
    by (rule map_update_same [OF sub]; simp add: entry_of_def)+
  note msets = slots [THEN arg_cong [where f = mset], unfolded mset_map]
    ents [THEN arg_cong [where f = mset], unfolded mset_map]
  show "heap_inv ?w" using inv(1) ok published_slot_ok [OF ok(1), of v] by (auto simp: heap_inv_def)
  show "ref_inv ?w" using inv(2) msets(1) by (auto simp: ref_inv_def slot_refs_def)
  show "handle_inv ?w" using inv(3) keys by (simp add: handle_inv_def all_handles_def)
  show "table_inv ?w"
    using inv(4) msets(2) keys by (auto simp: table_inv_def)
  show "authority_inv ?w"
    using inv(5) slots by (simp add: authority_inv_def authority_slots_def pool_of_def reader_slots_def)
  show "completion_inv ?w"
    unfolding completion_inv_def
  proof (intro conjI allI impI)
    fix h' sub' sl'
    assume a: "(h', sub') \<in> set (subjects ?w)" "heap ?w (subject_slot sub') = Some sl'"
    show "completed sl' = subject_completed sub'"
    proof (cases "h' = h")
      case True
      with a set_update [OF handles_distinct(2) [OF assms(1)]] show ?thesis by auto
    next
      case False
      then have old: "(h', sub') \<in> set (subjects w)"
        using a(1) set_update [OF handles_distinct(2) [OF assms(1)]] by auto
      then have "subject_slot sub' \<noteq> subject_slot sub"
        using subject_slot_unique [OF assms(1) mem old] False by auto
      with old a(2) inv(6) show ?thesis by (auto simp: completion_inv_def)
    qed
  next
    fix h' s sl'
    assume a: "(h', s) \<in> set (publishers ?w)" "heap ?w s = Some sl'"
    then have "s \<noteq> subject_slot sub" using subject_not_publisher [OF assms(1) mem] by auto
    with a inv(6) show "\<not> completed sl'" by (auto simp: completion_inv_def)
  qed
  show "future_inv ?w" using inv(7) by (auto simp: future_inv_def)
  show "quiet_inv ?w" using inv(9) by (simp add: quiet_inv_def)
  show "account_inv ?w"
    using inv(8) heap_cells_publish [of "subject_slot sub" "next_slot w" "heap w" sl v] ok hp pending
    by (simp add: account_inv_def)
qed

lemma wf_publish_publisher:
  assumes "wf w" and pub: "map_of (publishers w) h = Some s" and hp: "heap w s = Some sl"
  shows "wf (w\<lparr>heap := (heap w)(s \<mapsto> published_slot v sl), created := created w @ [v],
             publishers := AList.delete h (publishers w)\<rparr>)"
    (is "wf ?w")
proof
  note inv = wfD [OF assms(1)]
  have mem: "(h, s) \<in> set (publishers w)" using pub by (rule map_of_SomeD)
  have ok: "slot_ok sl" "s < next_slot w" using heap_slot_ok [OF assms(1) hp] by auto
  have pending: "\<not> completed sl" using inv(6) mem hp by (auto simp: completion_inv_def)
  have sub: "mset (AList.delete h (publishers w)) \<subseteq># mset (publishers w)"
    by (rule delete_subset_mset)
  have set: "set (AList.delete h (publishers w)) \<subseteq> set (publishers w)" by (rule set_delete_subset)
  show "heap_inv ?w" using inv(1) ok published_slot_ok [OF ok(1), of v] by (auto simp: heap_inv_def)
  show "ref_inv ?w"
    by (rule ref_inv_sub [OF inv(2) set_mset_mono])
      (simp_all add: slot_refs_def image_mset_subseteq_mono sub subset_mset.add_mono)
  show "handle_inv ?w"
    by (rule handle_inv_sub [OF inv(3)])
      (simp_all add: all_handles_def image_mset_subseteq_mono sub subset_mset.add_mono)
  show "table_inv ?w" using inv(4) by (simp add: table_inv_def)
  show "authority_inv ?w"
    by (rule authority_inv_sub [OF inv(5)])
      (simp_all add: authority_slots_def pool_of_def reader_slots_def image_mset_subseteq_mono sub
        subset_mset.add_mono)
  show "completion_inv ?w"
    unfolding completion_inv_def
  proof (intro conjI allI impI)
    fix h' sub' sl'
    assume a: "(h', sub') \<in> set (subjects ?w)" "heap ?w (subject_slot sub') = Some sl'"
    then have "subject_slot sub' \<noteq> s" using subject_not_publisher [OF assms(1)] mem by auto
    with a inv(6) show "completed sl' = subject_completed sub'" by (auto simp: completion_inv_def)
  next
    fix h' s' sl'
    assume a: "(h', s') \<in> set (publishers ?w)" "heap ?w s' = Some sl'"
    then have "(h', s') \<in> set (publishers w)" "h' \<noteq> h" by (simp_all add: AList.delete_eq)
    then have "s' \<noteq> s" using publisher_slot_unique [OF assms(1) mem] by auto
    with a \<open>(h', s') \<in> set (publishers w)\<close> inv(6) show "\<not> completed sl'" by (auto simp: completion_inv_def)
  qed
  show "future_inv ?w" using inv(7) by (auto simp: future_inv_def)
  show "quiet_inv ?w" using inv(9) by (simp add: quiet_inv_def)
  show "account_inv ?w"
    using inv(8) heap_cells_publish [of s "next_slot w" "heap w" sl v] ok hp pending
    by (simp add: account_inv_def)
qed

subsection \<open>New pairs and new generations\<close>

lemma ref_less: "wf w \<Longrightarrow> s \<in># slot_refs w \<Longrightarrow> s < next_slot w"
  using ref_heap [of w s] heap_slot_ok [of w s] by auto

lemma next_slot_unused:
  assumes "wf w"
  shows "heap w (next_slot w) = None" and "next_slot w \<notin># slot_refs w"
  using heap_slot_ok [OF assms, of "next_slot w"] ref_less [OF assms, of "next_slot w"]
  by (cases "heap w (next_slot w)"; auto)+

lemma authority_refs: "set (authority_slots w) \<subseteq> set_mset (slot_refs w)"
  by (auto simp: authority_slots_def pool_of_def slot_refs_def table_refs_def split: option.splits)

lemma reader_refs: "reader_slots w \<subseteq> set_mset (slot_refs w)"
  by (auto simp: reader_slots_def slot_refs_def)

lemma future_owners_none:
  "s \<notin> (future_slot \<circ> snd) ` set fs \<Longrightarrow> future_owners_of fs s x = 0"
  by (force simp: future_owners_of_def filter_empty_conv)

lemma wf_pair:
  assumes "wf w"
  shows "wf (w\<lparr>heap := (heap w)(next_slot w \<mapsto> slot_new), next_slot := next_slot w + 1,
             next_handle := next_handle w + 2,
             publishers := publishers w @ [(next_handle w, next_slot w)],
             observations := observations w @ [(next_handle w + 1, next_slot w)]\<rparr>)"
    (is "wf ?w")
proof
  note inv = wfD [OF assms(1)]
  note new = next_slot_unused [OF assms]
  let ?s = "next_slot w"
  have nauth: "?s \<notin> set (authority_slots w)" using new(2) authority_refs by blast
  have nread: "?s \<notin> reader_slots w" using new(2) reader_refs by blast
  have npool: "?s \<notin> set (pool_of w)" using nauth by (simp add: authority_slots_def)
  show "heap_inv ?w" using inv(1) by (auto simp: heap_inv_def less_SucI)
  show "ref_inv ?w" using inv(2) by (auto simp: ref_inv_def slot_refs_def)
  show "handle_inv ?w"
  proof -
    let ?v = "w\<lparr>next_handle := next_handle w + 1, publishers := publishers w @ [(next_handle w, ?s)]\<rparr>"
    have "handle_inv ?v" by (rule handle_inv_fresh [OF inv(3)]) (simp_all add: all_handles_def)
    then show ?thesis by (rule handle_inv_fresh) (simp_all add: all_handles_def)
  qed
  show "table_inv ?w" using inv(4) by (simp add: table_inv_def)
  have "mset (authority_slots ?w) = add_mset ?s (mset (authority_slots w))"
    by (simp add: authority_slots_def)
  then have "distinct (authority_slots ?w)"
    using mset_eq_imp_distinct_iff [of "authority_slots ?w" "?s # authority_slots w"] nauth inv(5)
    by (simp add: authority_inv_def)
  moreover have "reader_slots ?w = insert ?s (reader_slots w)"
    by (auto simp: reader_slots_def)
  ultimately show "authority_inv ?w"
    using inv(5) npool by (auto simp: authority_inv_def)
  have "subject_slot sub \<noteq> ?s" if "(h, sub) \<in> set (subjects w)" for h sub
    using that nauth by (force simp: authority_slots_def)
  moreover have "(h, ?s) \<notin> set (publishers w)" for h
    using nauth by (force simp: authority_slots_def)
  ultimately show "completion_inv ?w" using inv(6) by (auto simp: completion_inv_def)
  have "future_owners_of (futures w) ?s x = 0" for x
    using nread by (intro future_owners_none) (auto simp: reader_slots_def)
  then show "future_inv ?w" using inv(7) by (simp add: future_inv_def)
  show "quiet_inv ?w" using inv(9) by (simp add: quiet_inv_def)
  show "account_inv ?w"
    using inv(8) heap_cells_alloc [of "heap w" ?s] by (simp add: account_inv_def)
qed

text \<open>
  A new generation.  \<open>w\<close> is the state once the slot has been acquired: allocated, outside every
  handle and registered by nobody.
\<close>

lemma wf_new_subject:
  fixes gen :: usize and w :: "('k, 'o) world" and key :: 'k
  assumes inv: "heap_inv w" "ref_inv w" "handle_inv w" "table_inv w" "authority_inv w"
      "completion_inv w" "future_inv w" "account_inv w" "quiet_inv w"
    and i: "inner w = Some i" and vacant: "sm_get key (kmap (entries_of i)) = None"
    and s: "heap w s = Some sl" "\<not> completed sl" "s \<notin> set (authority_slots w)"
  defines "sub \<equiv> \<lparr>subject_key = key, subject_generation = gen, subject_slot = s, subject_completed = False\<rparr>"
    and "es \<equiv> entries_of i"
  shows "wf (w\<lparr>inner := Some (i\<lparr>entries_of :=
                 es\<lparr>kmap := insert_vacant key \<lparr>generation = gen, entry_slot = s\<rparr> (kmap es)\<rparr>\<rparr>),
             next_handle := next_handle w + 1, subjects := subjects w @ [(next_handle w, sub)]\<rparr>)"
    (is "wf ?w")
proof
  let ?e = "\<lparr>generation = gen, entry_slot = s\<rparr>"
  have wfm: "sm_wf (kmap es)" using inv(4) i by (auto simp: table_inv_def es_def)
  have vac: "sm_get key (kmap es) = None" using vacant by (simp add: es_def)
  have cont: "mset (sm_entries (insert_vacant key ?e (kmap es))) = add_mset (key, ?e) (mset (sm_entries (kmap es)))"
    by (rule table.content_insert [OF wfm vac])
  show "heap_inv ?w" using inv(1) by (simp add: heap_inv_def)
  have "set_mset (slot_refs ?w) = insert s (set_mset (slot_refs w))"
    using cont i by (auto simp: slot_refs_def table_refs_def sub_def es_def)
  then show "ref_inv ?w" using inv(2) s(1) by (auto simp: ref_inv_def)
  show "handle_inv ?w" by (rule handle_inv_fresh [OF inv(3)]) (simp_all add: all_handles_def)
  have "entry_of sub = (key, ?e)" by (simp add: entry_of_def sub_def)
  then show "table_inv ?w"
    using inv(4) i cont table.invar_insert [OF wfm vac] by (auto simp: table_inv_def es_def)
  have pool: "pool_of w = pool es" using i by (simp add: pool_of_inner es_def)
  have "mset (authority_slots ?w) = add_mset s (mset (authority_slots w))"
    by (simp add: authority_slots_def pool sub_def)
  then have "distinct (authority_slots ?w)"
    using mset_eq_imp_distinct_iff [of "authority_slots ?w" "s # authority_slots w"] s(3) inv(5)
    by (simp add: authority_inv_def)
  then show "authority_inv ?w"
    using inv(5) pool by (simp add: authority_inv_def reader_slots_def)
  show "completion_inv ?w" using inv(6) s by (auto simp: completion_inv_def sub_def)
  show "future_inv ?w" using inv(7) by (simp add: future_inv_def)
  show "quiet_inv ?w" using inv(9) by (simp add: quiet_inv_def)
  show "account_inv ?w" using inv(8) by (simp add: account_inv_def)
qed

lemma wf_pool_shrink:
  assumes "wf w" and i: "inner w = Some i" and sub: "mset rest \<subseteq># mset (pool (entries_of i))"
  shows "wf (w\<lparr>inner := Some (i\<lparr>next_generation := g, entries_of := (entries_of i)\<lparr>pool := rest\<rparr>\<rparr>)\<rparr>)"
    (is "wf ?w")
proof
  note inv = wfD [OF assms(1)]
  have set: "set rest \<subseteq> set (pool (entries_of i))" using set_mset_mono [OF sub] by simp
  show "heap_inv ?w" using inv(1) by (simp add: heap_inv_def)
  show "ref_inv ?w"
    by (rule ref_inv_sub [OF inv(2)]) (use set i in \<open>auto simp: slot_refs_def table_refs_def\<close>)
  show "handle_inv ?w" using inv(3) by (simp add: handle_inv_def all_handles_def)
  show "table_inv ?w"
    using inv(4) i size_mset_mono [OF sub] by (auto simp: table_inv_def)
  show "authority_inv ?w"
    by (rule authority_inv_sub [OF inv(5)])
      (use sub set i in \<open>auto simp: authority_slots_def pool_of_inner reader_slots_def\<close>)
  show "completion_inv ?w" using inv(6) by (simp add: completion_inv_def)
  show "future_inv ?w" using inv(7) by (simp add: future_inv_def)
  show "quiet_inv ?w" using inv(9) by (simp add: quiet_inv_def)
  show "account_inv ?w" using inv(8) by (simp add: account_inv_def)
qed

lemma wf_recycle:
  assumes "wf w" and hp: "heap w s = Some sl" and free: "s \<notin> set (authority_slots w)" "s \<notin> reader_slots w"
  shows "wf (w\<lparr>heap := (heap w)(s \<mapsto> pristine_slot sl), dropped := dropped w @ cell sl\<rparr>)"
    (is "wf ?w")
proof
  note inv = wfD [OF assms(1)]
  have s: "s < next_slot w" "slot_ok sl" using heap_slot_ok [OF assms(1) hp] by auto
  show "heap_inv ?w" using inv(1) s by (auto simp: heap_inv_def)
  show "ref_inv ?w" using inv(2) by (auto simp: ref_inv_def slot_refs_def)
  show "handle_inv ?w" using inv(3) by (simp add: handle_inv_def all_handles_def)
  show "table_inv ?w" using inv(4) by (simp add: table_inv_def)
  show "authority_inv ?w"
    using inv(5) by (simp add: authority_inv_def authority_slots_def reader_slots_def)
  have "subject_slot sub \<noteq> s" if "(h, sub) \<in> set (subjects w)" for h sub
    using that free(1) by (force simp: authority_slots_def)
  moreover have "(h, s) \<notin> set (publishers w)" for h
    using free(1) by (force simp: authority_slots_def)
  ultimately show "completion_inv ?w" using inv(6) by (auto simp: completion_inv_def)
  have "future_owners_of (futures w) s x = 0" for x
    using free(2) by (intro future_owners_none) (auto simp: reader_slots_def)
  then show "future_inv ?w" using inv(7) by (simp add: future_inv_def)
  show "quiet_inv ?w" using inv(9) by (simp add: quiet_inv_def)
  show "account_inv ?w"
    using inv(8) heap_cells_upd [OF s(1), of "heap w" "Some (pristine_slot sl)"] hp
    by (simp add: account_inv_def ac_simps)
qed

lemma wf_alloc:
  assumes "wf w"
  shows "wf (w\<lparr>heap := (heap w)(next_slot w \<mapsto> slot_new), next_slot := next_slot w + 1\<rparr>)"
    (is "wf ?w")
proof
  note inv = wfD [OF assms(1)]
  note new = next_slot_unused [OF assms]
  let ?s = "next_slot w"
  have nauth: "?s \<notin> set (authority_slots w)" using new(2) authority_refs by blast
  have nread: "?s \<notin> reader_slots w" using new(2) reader_refs by blast
  show "heap_inv ?w" using inv(1) by (auto simp: heap_inv_def less_SucI)
  show "ref_inv ?w" using inv(2) by (auto simp: ref_inv_def slot_refs_def)
  show "handle_inv ?w" using inv(3) by (simp add: handle_inv_def all_handles_def)
  show "table_inv ?w" using inv(4) by (simp add: table_inv_def)
  show "authority_inv ?w"
    using inv(5) by (simp add: authority_inv_def authority_slots_def reader_slots_def)
  have "subject_slot sub \<noteq> ?s" if "(h, sub) \<in> set (subjects w)" for h sub
    using that nauth by (force simp: authority_slots_def)
  moreover have "(h, ?s) \<notin> set (publishers w)" for h
    using nauth by (force simp: authority_slots_def)
  ultimately show "completion_inv ?w" using inv(6) by (auto simp: completion_inv_def)
  have "future_owners_of (futures w) ?s x = 0" for x
    using nread by (intro future_owners_none) (auto simp: reader_slots_def)
  then show "future_inv ?w" using inv(7) by (simp add: future_inv_def)
  show "quiet_inv ?w" using inv(9) by (simp add: quiet_inv_def)
  show "account_inv ?w"
    using inv(8) heap_cells_alloc [of "heap w" ?s] by (simp add: account_inv_def)
qed

subsection \<open>Retirement\<close>

lemma subject_entry:
  assumes "wf w" and "inner w = Some i" and "(h, sub) \<in> set (subjects w)"
  shows "sm_get (subject_key sub) (kmap (entries_of i))
    = Some \<lparr>generation = subject_generation sub, entry_slot = subject_slot sub\<rparr>"
proof -
  have t: "sm_wf (kmap (entries_of i))"
    "image_mset (entry_of \<circ> snd) (mset (subjects w)) = mset (sm_entries (kmap (entries_of i)))"
    using wfD(4) [OF assms(1)] assms(2) by (auto simp: table_inv_def)
  have "entry_of sub \<in># image_mset (entry_of \<circ> snd) (mset (subjects w))"
    using assms(3) by force
  with t show ?thesis by (simp add: entry_of_def table.lookup_content)
qed

lemma entry_subject:
  assumes "wf w" and "inner w = Some i" and "sm_get k (kmap (entries_of i)) = Some e"
  shows "\<exists>h sub. (h, sub) \<in> set (subjects w) \<and> subject_key sub = k
     \<and> subject_slot sub = entry_slot e \<and> subject_generation sub = generation e"
proof -
  have t: "sm_wf (kmap (entries_of i))"
    "image_mset (entry_of \<circ> snd) (mset (subjects w)) = mset (sm_entries (kmap (entries_of i)))"
    using wfD(4) [OF assms(1)] assms(2) by (auto simp: table_inv_def)
  have "(k, e) \<in># image_mset (entry_of \<circ> snd) (mset (subjects w))"
    using t assms(3) table.lookup_content by metis
  then show ?thesis by (force simp: entry_of_def)
qed

lemma subject_inner: "wf w \<Longrightarrow> (h, sub) \<in> set (subjects w) \<Longrightarrow> \<exists>i. inner w = Some i"
  using wfD(4) [of w] by (cases "inner w") (auto simp: table_inv_def)

lemma wf_retire:
  assumes "wf w" and i: "inner w = Some i" and sub: "map_of (subjects w) h = Some sub"
    and km: "km = snd (remove_if (subject_key sub) (subject_generation sub) (kmap (entries_of i)))"
    and pl: "pl = pool (entries_of i) \<or> pl = pool (entries_of i) @ [subject_slot sub]
        \<and> length (pool (entries_of i)) < SLOT_POOL_CAP \<and> subject_slot sub \<notin> reader_slots w"
  shows "wf (w\<lparr>inner := Some (i\<lparr>entries_of := (entries_of i)\<lparr>kmap := km, pool := pl\<rparr>\<rparr>),
             subjects := AList.delete h (subjects w), retiring := retiring w @ [(h, sub)]\<rparr>)"
    (is "wf ?w")
proof
  note inv = wfD [OF assms(1)]
  let ?es = "entries_of i" and ?s = "subject_slot sub"
  have mem: "(h, sub) \<in> set (subjects w)" using sub by (rule map_of_SomeD)
  have subs: "mset (subjects w) = add_mset (h, sub) (mset (AList.delete h (subjects w)))"
    by (rule alist_split [OF handles_distinct(2) [OF assms(1)] sub])
  have t: "sm_wf (kmap ?es)"
    "image_mset (entry_of \<circ> snd) (mset (subjects w)) = mset (sm_entries (kmap ?es))"
    "length (pool ?es) \<le> SLOT_POOL_CAP"
    using inv(4) i by (auto simp: table_inv_def)
  note get = subject_entry [OF assms(1) i mem]
  note rem = sm_remove_hit [OF t(1) get, of "subject_generation sub", simplified, folded km]
  have ents: "add_mset (entry_of sub) (mset (sm_entries km)) = mset (sm_entries (kmap ?es))"
    using rem(2) by (simp add: entry_of_def)
  show "heap_inv ?w" using inv(1) by (simp add: heap_inv_def)
  have "set_mset (slot_refs ?w) \<subseteq> set_mset (slot_refs w)"
  proof -
    have "set (sm_entries km) \<subseteq> set (sm_entries (kmap ?es))"
      using ents by (metis set_mset_mset set_mset_add_mset_insert subset_insertI)
    then show ?thesis
      using pl subs i mem
      by (auto simp: slot_refs_def table_refs_def dest: in_deleteD)
  qed
  then show "ref_inv ?w" by (rule ref_inv_sub [OF inv(2)]) simp
  show "handle_inv ?w"
    by (rule handle_inv_sub [OF inv(3)]) (simp_all add: all_handles_def subs)
  have "add_mset (entry_of sub) (image_mset (entry_of \<circ> snd) (mset (AList.delete h (subjects w))))
      = add_mset (entry_of sub) (mset (sm_entries km))"
    using t(2) by (simp only: ents subs image_mset_add_mset o_apply snd_conv)
  then have "image_mset (entry_of \<circ> snd) (mset (AList.delete h (subjects w))) = mset (sm_entries km)"
    by (simp only: add_mset_add_mset_same_iff)
  then show "table_inv ?w" using rem(3) t(3) pl i by (auto simp: table_inv_def)
  have readers: "reader_slots ?w = reader_slots w" by (simp add: reader_slots_def)
  show "authority_inv ?w"
  proof (rule authority_inv_sub [OF inv(5)])
    show "mset (authority_slots ?w) \<subseteq># mset (authority_slots w)"
      using pl by (auto simp: authority_slots_def pool_of_inner [OF i] subs ac_simps)
    show "set (pool_of ?w) \<inter> reader_slots ?w \<subseteq> set (pool_of w) \<inter> reader_slots w"
      using pl readers by (auto simp: pool_of_inner [OF i])
  qed
  show "completion_inv ?w" using inv(6) by (auto simp: completion_inv_def dest: in_deleteD)
  show "future_inv ?w" using inv(7) by (simp add: future_inv_def)
  show "quiet_inv ?w" using inv(9) by (simp add: quiet_inv_def)
  show "account_inv ?w" using inv(8) by (simp add: account_inv_def)
qed

end
