(* ===== verification/Operations.thy ===== *)
theory Operations
  imports Preservation
begin

section \<open>Every operation in closed form\<close>

text \<open>
  For each operation of \<open>Space\<close>, what it returns and the state it leaves when it starts in a state
  with \<open>wf\<close>, and that \<open>wf\<close> holds again.  None of them can fault there.  The names follow the
  operations: \<open>x_eq\<close> is the closed form, \<open>x_wf\<close> the preservation.
\<close>

lemma map_of_not_Nil: "map_of xs h = Some x \<Longrightarrow> xs \<noteq> []"
  by auto

lemma on_slot_eq: "heap w s = Some sl \<Longrightarrow> f sl = Inr (r, sl') \<Longrightarrow>
    on_slot s f w = Inr (r, w\<lparr>heap := (heap w)(s \<mapsto> sl')\<rparr>)"
  by (simp add: on_slot_def)

lemma heap_same: "heap w s = Some sl \<Longrightarrow> w\<lparr>heap := (heap w)(s \<mapsto> sl)\<rparr> = w"
  by (simp add: fun_upd_idem)

subsection \<open>Letting go of the namespace\<close>

definition inner_released :: "('k, 'o) arc_count \<Rightarrow> ('k, 'o) world \<Rightarrow> ('k, 'o) world" where
  "inner_released sc w =
     (if sc w InnerArc = 0 then fold (released sc) (pool_of w) (w\<lparr>inner := None\<rparr>) else w)"

lemma released_other: "t \<noteq> s \<Longrightarrow> heap (released sc s w) t = heap w t"
  by (simp add: released_def)

lemma release_all_eq:
  assumes "wf w" and "arc_sound sc" and "distinct ss" and "\<forall>s\<in>set ss. heap w s \<noteq> None"
  shows "release_all sc ss w = Inr (fold (released sc) ss w) \<and> wf (fold (released sc) ss w)"
  using assms
proof (induction ss arbitrary: w)
  case (Cons s ss)
  have s: "heap w s \<noteq> None" using Cons.prems(4) by simp
  have "wf (released sc s w)" by (rule wf_released [OF Cons.prems(1) s Cons.prems(2)])
  moreover have "\<forall>t\<in>set ss. heap (released sc s w) t \<noteq> None"
    using Cons.prems(3,4) released_other by (metis distinct.simps(2) list.set_intros(2))
  ultimately have "release_all sc ss (released sc s w) = Inr (fold (released sc) ss (released sc s w))
      \<and> wf (fold (released sc) ss (released sc s w))"
    using Cons.IH Cons.prems(2,3) by simp
  then show ?case using release_eq [OF Cons.prems(1) s, of sc] by simp
qed simp

lemma fold_released_simps [simp]:
  "next_slot (fold (released sc) ss w) = next_slot w"
  "next_handle (fold (released sc) ss w) = next_handle w"
  "inner (fold (released sc) ss w) = inner w"
  "spaces (fold (released sc) ss w) = spaces w"
  "subjects (fold (released sc) ss w) = subjects w"
  "retiring (fold (released sc) ss w) = retiring w"
  "dying (fold (released sc) ss w) = dying w"
  "publishers (fold (released sc) ss w) = publishers w"
  "observations (fold (released sc) ss w) = observations w"
  "futures (fold (released sc) ss w) = futures w"
  "created (fold (released sc) ss w) = created w"
  "moved (fold (released sc) ss w) = moved w"
  "woken (fold (released sc) ss w) = woken w"
  "slot_refs (fold (released sc) ss w) = slot_refs w"
  by (induction ss arbitrary: w) simp_all

lemma fold_released_keeps:
  "arc_sound sc \<Longrightarrow> t \<in># slot_refs w \<Longrightarrow> heap (fold (released sc) ss w) t = heap w t"
  by (induction ss arbitrary: w) (simp_all add: released_keeps)

lemma arc_sound_inner:
  "arc_sound sc \<Longrightarrow> sc w InnerArc = 0 \<Longrightarrow> spaces w = [] \<and> subjects w = [] \<and> retiring w = []"
proof -
  assume "arc_sound sc" "sc w InnerArc = 0"
  then have "handle_count w InnerArc \<le> 0" unfolding arc_sound_def by metis
  then show ?thesis by simp
qed

lemma wf_no_inner:
  assumes "wf w" and "spaces w = []" and "subjects w = []" and "retiring w = []"
  shows "wf (w\<lparr>inner := None\<rparr>)" (is "wf ?w")
proof
  note inv = wfD [OF assms(1)]
  show "heap_inv ?w" using inv(1) by (simp add: heap_inv_def)
  show "ref_inv ?w"
    by (rule ref_inv_sub [OF inv(2)]) (auto simp: slot_refs_def table_refs_def)
  show "handle_inv ?w" using inv(3) by (simp add: handle_inv_def all_handles_def)
  show "table_inv ?w" using assms by (simp add: table_inv_def)
  show "authority_inv ?w"
    using inv(5) assms(3) by (simp add: authority_inv_def authority_slots_def)
  show "completion_inv ?w" using inv(6) by (simp add: completion_inv_def)
  show "future_inv ?w" using inv(7) by (simp add: future_inv_def)
  show "quiet_inv ?w" using inv(9) by (simp add: quiet_inv_def)
  show "account_inv ?w" using inv(8) by (simp add: account_inv_def)
qed

lemma release_inner_eq:
  assumes "wf w" and "inner w \<noteq> None" and "arc_sound sc"
  shows "release_inner sc w = Inr (inner_released sc w) \<and> wf (inner_released sc w)"
proof (cases "sc w InnerArc = 0")
  case True
  note none = arc_sound_inner [OF assms(3) True]
  obtain i where i: "inner w = Some i" using assms(2) by auto
  have ents: "sm_entries (kmap (entries_of i)) = []"
    using wfD(4) [OF assms(1)] i none by (simp add: table_inv_def)
  have "distinct (pool_of w)"
    using wfD(5) [OF assms(1)] by (simp add: authority_inv_def authority_slots_def)
  moreover have "\<forall>s\<in>set (pool_of w). heap (w\<lparr>inner := None\<rparr>) s \<noteq> None"
    using ref_heap [OF assms(1)] authority_refs [of w] by (auto simp: authority_slots_def)
  ultimately show ?thesis
    using release_all_eq [OF wf_no_inner [OF assms(1)] assms(3), of "pool_of w"] none True i ents
    by (simp add: release_inner_def inner_released_def pool_of_inner)
next
  case False
  with assms show ?thesis by (auto simp: release_inner_def inner_released_def)
qed

lemma inner_released_simps [simp]:
  "next_slot (inner_released sc w) = next_slot w"
  "next_handle (inner_released sc w) = next_handle w"
  "spaces (inner_released sc w) = spaces w"
  "subjects (inner_released sc w) = subjects w"
  "retiring (inner_released sc w) = retiring w"
  "dying (inner_released sc w) = dying w"
  "publishers (inner_released sc w) = publishers w"
  "observations (inner_released sc w) = observations w"
  "futures (inner_released sc w) = futures w"
  "created (inner_released sc w) = created w"
  "moved (inner_released sc w) = moved w"
  "woken (inner_released sc w) = woken w"
  by (simp_all add: inner_released_def)


lemma inner_released_keeps:
  assumes "arc_sound sc" and "t \<in># slot_refs (w\<lparr>inner := None\<rparr>)"
  shows "heap (inner_released sc w) t = heap w t"
  using fold_released_keeps [OF assms, of "pool_of w"] by (simp add: inner_released_def)

subsection \<open>Cloning and dropping namespace handles\<close>

lemma space_clone_eq:
  "space_clone w = Inr (Ret (NewHandle (next_handle w)),
     w\<lparr>next_handle := next_handle w + 1, spaces := spaces w @ [(next_handle w, ())]\<rparr>)"
  by (simp add: space_clone_def fresh_handle_def)

lemma space_clone_wf:
  assumes "wf w" and "inner w \<noteq> None"
  shows "wf (w\<lparr>next_handle := next_handle w + 1, spaces := spaces w @ [(next_handle w, ())]\<rparr>)"
    (is "wf ?w")
proof
  note inv = wfD [OF assms(1)]
  show "heap_inv ?w" using inv(1) by (simp add: heap_inv_def)
  show "ref_inv ?w" using inv(2) by (simp add: ref_inv_def slot_refs_def)
  show "handle_inv ?w" by (rule handle_inv_fresh [OF inv(3)]) (simp_all add: all_handles_def)
  show "table_inv ?w" using inv(4) assms(2) by (simp add: table_inv_def)
  show "authority_inv ?w"
    using inv(5) by (simp add: authority_inv_def authority_slots_def reader_slots_def)
  show "completion_inv ?w" using inv(6) by (simp add: completion_inv_def)
  show "future_inv ?w" using inv(7) by (simp add: future_inv_def)
  show "quiet_inv ?w" using inv(9) by (simp add: quiet_inv_def)
  show "account_inv ?w" using inv(8) by (simp add: account_inv_def)
qed

lemma space_inner: "wf w \<Longrightarrow> spaces w \<noteq> [] \<Longrightarrow> inner w \<noteq> None"
  using wfD(4) [of w] by (auto simp: table_inv_def)

lemma retiring_inner: "wf w \<Longrightarrow> retiring w \<noteq> [] \<Longrightarrow> inner w \<noteq> None"
  using wfD(4) [of w] by (auto simp: table_inv_def)

lemma space_drop_eq:
  assumes "wf w" and "arc_sound sc" and h: "map_of (spaces w) h = Some u"
  shows "space_drop sc h w = Inr (Ret Done, inner_released sc (w\<lparr>spaces := AList.delete h (spaces w)\<rparr>))"
    and "wf (inner_released sc (w\<lparr>spaces := AList.delete h (spaces w)\<rparr>))"
proof -
  let ?w = "w\<lparr>spaces := AList.delete h (spaces w)\<rparr>"
  have "inner w \<noteq> None" by (rule space_inner [OF assms(1) map_of_not_Nil [OF h]])
  moreover have "wf ?w" by (rule wf_shrink [OF assms(1)]) (simp_all add: delete_subset_mset)
  ultimately have "release_inner sc ?w = Inr (inner_released sc ?w) \<and> wf (inner_released sc ?w)"
    by (intro release_inner_eq assms(2)) simp_all
  with h show "space_drop sc h w = Inr (Ret Done, inner_released sc ?w)" "wf (inner_released sc ?w)"
    by (simp_all add: space_drop_def)
qed

lemma wf_dying:
  assumes "wf w" and h: "map_of (retiring w) h = Some sub"
  shows "wf (w\<lparr>retiring := AList.delete h (retiring w), dying := dying w @ [(h, subject_slot sub)]\<rparr>)"
    (is "wf ?w")
proof
  note inv = wfD [OF assms(1)]
  have subs: "mset (retiring w) = add_mset (h, sub) (mset (AList.delete h (retiring w)))"
    by (rule alist_split [OF handles_distinct(3) [OF assms(1)] h])
  show "heap_inv ?w" using inv(1) by (simp add: heap_inv_def)
  have "slot_refs ?w = slot_refs w" by (simp add: slot_refs_def subs)
  then show "ref_inv ?w" using inv(2) by (simp add: ref_inv_def)
  show "handle_inv ?w"
    by (rule handle_inv_sub [OF inv(3)]) (simp_all add: all_handles_def subs)
  show "table_inv ?w" using inv(4) h by (auto simp: table_inv_def)
  show "authority_inv ?w"
    using inv(5) by (simp add: authority_inv_def authority_slots_def reader_slots_def)
  show "completion_inv ?w" using inv(6) by (simp add: completion_inv_def)
  show "future_inv ?w" using inv(7) by (simp add: future_inv_def)
  show "quiet_inv ?w" using inv(9) by (simp add: quiet_inv_def)
  show "account_inv ?w" using inv(8) by (simp add: account_inv_def)
qed

lemma subject_drop_inner_eq:
  assumes "wf w" and "arc_sound sc" and h: "map_of (retiring w) h = Some sub"
  defines "w1 \<equiv> w\<lparr>retiring := AList.delete h (retiring w), dying := dying w @ [(h, subject_slot sub)]\<rparr>"
  shows "subject_drop_inner sc h w = Inr (Ret Done, inner_released sc w1)"
    and "wf (inner_released sc w1)"
proof -
  have "inner w \<noteq> None" by (rule retiring_inner [OF assms(1) map_of_not_Nil [OF h]])
  moreover have "wf w1" unfolding w1_def by (rule wf_dying [OF assms(1) h])
  ultimately have "release_inner sc w1 = Inr (inner_released sc w1) \<and> wf (inner_released sc w1)"
    by (intro release_inner_eq assms(2)) (simp_all add: w1_def)
  with h show "subject_drop_inner sc h w = Inr (Ret Done, inner_released sc w1)"
    "wf (inner_released sc w1)"
    by (simp_all add: subject_drop_inner_def w1_def)
qed

subsection \<open>Dropping handles to slots\<close>

lemma subject_drop_slot_eq:
  assumes "wf w" and "arc_sound sc" and h: "map_of (dying w) h = Some s"
  defines "w1 \<equiv> w\<lparr>dying := AList.delete h (dying w)\<rparr>"
  shows "subject_drop_slot sc h w = Inr (Ret Done, released sc s w1)"
    and "wf (released sc s w1)"
proof -
  have "heap w s \<noteq> None"
    using map_of_SomeD [OF h] by (intro ref_heap [OF assms(1)]) (auto simp: slot_refs_iff)
  then have hp: "heap w1 s \<noteq> None" by (simp add: w1_def)
  have wf1: "wf w1"
    by (rule wf_shrink [OF assms(1)]) (simp_all add: w1_def delete_subset_mset)
  show "subject_drop_slot sc h w = Inr (Ret Done, released sc s w1)"
    using h release_eq [OF wf1 hp, of sc] by (simp add: subject_drop_slot_def w1_def)
  show "wf (released sc s w1)" by (rule wf_released [OF wf1 hp assms(2)])
qed

lemma publisher_drop_eq:
  assumes "wf w" and "arc_sound sc" and h: "map_of (publishers w) h = Some s"
  defines "w1 \<equiv> w\<lparr>publishers := AList.delete h (publishers w)\<rparr>"
  shows "publisher_drop sc h w = Inr (Ret Done, released sc s w1)"
    and "wf (released sc s w1)"
proof -
  have hp: "heap w1 s \<noteq> None"
    using publisher_slot_heap [OF assms(1) map_of_SomeD [OF h]] by (simp add: w1_def)
  have wf1: "wf w1"
    by (rule wf_shrink [OF assms(1)]) (simp_all add: w1_def delete_subset_mset)
  show "publisher_drop sc h w = Inr (Ret Done, released sc s w1)"
    using h release_eq [OF wf1 hp, of sc] by (simp add: publisher_drop_def w1_def)
  show "wf (released sc s w1)" by (rule wf_released [OF wf1 hp assms(2)])
qed

lemma observation_drop_eq:
  assumes "wf w" and "arc_sound sc" and h: "map_of (observations w) h = Some s"
  defines "w1 \<equiv> w\<lparr>observations := AList.delete h (observations w)\<rparr>"
  shows "observation_drop sc h w = Inr (Ret Done, released sc s w1)"
    and "wf (released sc s w1)"
proof -
  have hp: "heap w1 s \<noteq> None"
    using observation_slot_heap [OF assms(1) map_of_SomeD [OF h]] by (simp add: w1_def)
  have wf1: "wf w1"
    by (rule wf_shrink [OF assms(1)]) (simp_all add: w1_def delete_subset_mset)
  show "observation_drop sc h w = Inr (Ret Done, released sc s w1)"
    using h release_eq [OF wf1 hp, of sc] by (simp add: observation_drop_def w1_def)
  show "wf (released sc s w1)" by (rule wf_released [OF wf1 hp assms(2)])
qed

subsection \<open>Publishing\<close>

lemma subject_complete_eq:
  assumes "wf w" and h: "map_of (subjects w) h = Some sub" and pend: "\<not> subject_completed sub"
    and hp: "heap w (subject_slot sub) = Some sl"
  shows "subject_complete wp h v w = Inr (done_or_panic (drain_result wp (registered sl)),
      w\<lparr>subjects := AList.update h (sub\<lparr>subject_completed := True\<rparr>) (subjects w),
        heap := (heap w)(subject_slot sub \<mapsto> published_slot v sl),
        created := created w @ [v], woken := woken w @ map event_of (registered sl)\<rparr>)"
proof -
  have "\<not> completed sl"
    using wfD(6) [OF assms(1)] map_of_SomeD [OF h] hp pend by (auto simp: completion_inv_def)
  then have "slot_complete wp v sl
      = Inr (drain_result wp (registered sl), map event_of (registered sl), published_slot v sl)"
    using heap_slot_ok [OF assms(1) hp] by (intro slot_complete_eq) simp_all
  with h pend hp show ?thesis by (simp add: subject_complete_def publish_def on_slot_def)
qed

lemma subject_complete_wf:
  assumes "wf w" and h: "map_of (subjects w) h = Some sub" and pend: "\<not> subject_completed sub"
    and hp: "heap w (subject_slot sub) = Some sl"
  shows "wf (w\<lparr>subjects := AList.update h (sub\<lparr>subject_completed := True\<rparr>) (subjects w),
        heap := (heap w)(subject_slot sub \<mapsto> published_slot v sl),
        created := created w @ [v], woken := x\<rparr>)"
  using wf_publish_subject [OF assms(1) h hp pend, of v] by (rule wf_woken [THEN iffD2])

lemma subject_complete_twice:
  assumes "wf w" and "map_of (subjects w) h = Some sub" and "subject_completed sub"
  shows "subject_complete wp h v w = Inr (Panic SubjectCompletedTwice,
     w\<lparr>created := created w @ [v], dropped := dropped w @ [v]\<rparr>)"
  using assms(2,3) wf_quiet [OF assms(1)] by (simp add: subject_complete_def)

lemma wf_account:
  assumes "wf w"
  shows "wf (w\<lparr>created := created w @ [v], dropped := dropped w @ [v]\<rparr>)"
  using assms
  by (simp add: wf_def heap_inv_def ref_inv_def handle_inv_def all_handles_def table_inv_def
      authority_inv_def authority_slots_def reader_slots_def completion_inv_def future_inv_def
      account_inv_def quiet_inv_def slot_refs_def)

lemma publisher_complete_eq:
  fixes w :: "('k, 'o) world" and v :: 'o
  assumes "wf w" and "arc_sound sc" and h: "map_of (publishers w) h = Some s"
    and hp: "heap w s = Some sl"
  defines "w1 \<equiv> w\<lparr>heap := (heap w)(s \<mapsto> published_slot v sl), created := created w @ [v],
      publishers := AList.delete h (publishers w), woken := woken w @ map event_of (registered sl)\<rparr>"
  shows "publisher_complete sc wp h v w
      = Inr (done_or_panic (drain_result wp (registered sl)), released sc s w1)"
    and "wf (released sc s w1)"
proof -
  have "\<not> completed sl"
    using wfD(6) [OF assms(1)] map_of_SomeD [OF h] hp by (auto simp: completion_inv_def)
  then have comp: "slot_complete wp v sl
      = Inr (drain_result wp (registered sl), map event_of (registered sl), published_slot v sl)"
    using heap_slot_ok [OF assms(1) hp] by (intro slot_complete_eq) simp_all
  have wf1: "wf w1"
    unfolding w1_def using wf_publish_publisher [OF assms(1) h hp, of v] by (rule wf_woken [THEN iffD2])
  have hp1: "heap w1 s \<noteq> None" by (simp add: w1_def)
  have "w1 = w\<lparr>heap := (heap w)(s \<mapsto> published_slot v sl), created := created w @ [v],
      woken := woken w @ map event_of (registered sl), publishers := AList.delete h (publishers w)\<rparr>"
    by (simp add: w1_def)
  then show "publisher_complete sc wp h v w
      = Inr (done_or_panic (drain_result wp (registered sl)), released sc s w1)"
    using h hp comp release_eq [OF wf1 hp1, of sc]
    by (simp add: publisher_complete_def publish_def on_slot_def)
  show "wf (released sc s w1)" by (rule wf_released [OF wf1 hp1 assms(2)])
qed

lemma pair_new_eq:
  "pair_new w = Inr (Ret (NewPair (next_handle w) (next_handle w + 1)),
     w\<lparr>heap := (heap w)(next_slot w \<mapsto> slot_new), next_slot := next_slot w + 1,
       next_handle := next_handle w + 2,
       publishers := publishers w @ [(next_handle w, next_slot w)],
       observations := observations w @ [(next_handle w + 1, next_slot w)]\<rparr>)"
  by (simp add: pair_new_def alloc_slot_def fresh_handle_def)

subsection \<open>The first phase of dropping a subject\<close>

lemma arc_sound_ge: "arc_sound sc \<Longrightarrow> count (slot_refs w) s \<le> sc w (SlotArc s)"
proof -
  assume "arc_sound sc"
  then have "handle_count w (SlotArc s) \<le> sc w (SlotArc s)" unfolding arc_sound_def by metis
  then show ?thesis by simp
qed

definition poolable :: "('k, 'o) arc_count \<Rightarrow> 'k subject \<Rightarrow> 'k small_map \<Rightarrow> ('k, 'o) world \<Rightarrow> bool" where
  "poolable sc sub km w \<longleftrightarrow> (\<forall>i. inner w = Some i \<longrightarrow>
     sc (w\<lparr>inner := Some (i\<lparr>entries_of := (entries_of i)\<lparr>kmap := km\<rparr>\<rparr>)\<rparr>) (SlotArc (subject_slot sub)) = 1
     \<and> length (pool (entries_of i)) < SLOT_POOL_CAP)"

definition retired :: "('k, 'o) arc_count \<Rightarrow> handle \<Rightarrow> 'k subject \<Rightarrow> 'k inner \<Rightarrow> ('k, 'o) world \<Rightarrow> ('k, 'o) world" where
  "retired sc h sub i w =
     (let km = snd (remove_if (subject_key sub) (subject_generation sub) (kmap (entries_of i)));
          pl = (if poolable sc sub km w then pool (entries_of i) @ [subject_slot sub] else pool (entries_of i))
      in w\<lparr>inner := Some (i\<lparr>entries_of := (entries_of i)\<lparr>kmap := km, pool := pl\<rparr>\<rparr>),
           subjects := AList.delete h (subjects w), retiring := retiring w @ [(h, sub)]\<rparr>)"

lemma subject_drop_eq:
  assumes "wf w" and "arc_sound sc" and h: "map_of (subjects w) h = Some sub" and i: "inner w = Some i"
  shows "subject_drop sc h w = Inr (Ret Done, retired sc h sub i w)"
proof -
  note mem = map_of_SomeD [OF h]
  let ?s = "subject_slot sub" and ?es = "entries_of i"
  have t: "sm_wf (kmap ?es)" using wfD(4) [OF assms(1)] i by (auto simp: table_inv_def)
  note get = subject_entry [OF assms(1) i mem]
  obtain km where km: "remove_if (subject_key sub) (subject_generation sub) (kmap ?es) = (True, km)"
    using sm_remove_hit(1) [OF t get] by (cases "remove_if (subject_key sub) (subject_generation sub) (kmap ?es)") auto
  let ?w1 = "w\<lparr>inner := Some (i\<lparr>entries_of := ?es\<lparr>kmap := km\<rparr>\<rparr>)\<rparr>"
  have "?s \<in># slot_refs ?w1" using mem by (auto simp: slot_refs_iff)
  then have "sc ?w1 (SlotArc ?s) \<noteq> 0" using arc_sound_zero [OF assms(2)] by blast
  then have rel: "release sc ?s ?w1 = Inr ?w1" by (simp add: release_def)
  show ?thesis
    using h i km get rel by (auto simp: subject_drop_def Let_def retired_def poolable_def)
qed

lemma sole_owner:
  assumes "arc_sound sc" and "sc w (SlotArc s) = 1" and "slot_refs w = add_mset s refs"
  shows "s \<notin># refs"
  using arc_sound_ge [OF assms(1), of w s] assms(2,3) by (simp add: not_in_iff)

lemma retired_wf:
  assumes "wf w" and "arc_sound sc" and h: "map_of (subjects w) h = Some sub" and i: "inner w = Some i"
  shows "wf (retired sc h sub i w)"
proof -
  let ?s = "subject_slot sub" and ?es = "entries_of i"
  let ?km = "snd (remove_if (subject_key sub) (subject_generation sub) (kmap ?es))"
  let ?w1 = "w\<lparr>inner := Some (i\<lparr>entries_of := ?es\<lparr>kmap := ?km\<rparr>\<rparr>)\<rparr>"
  have subs: "mset (subjects w) = add_mset (h, sub) (mset (AList.delete h (subjects w)))"
    by (rule alist_split [OF handles_distinct(2) [OF assms(1)] h])
  have "?s \<notin> reader_slots w" if "sc ?w1 (SlotArc ?s) = 1"
  proof -
    let ?w2 = "?w1\<lparr>subjects := AList.delete h (subjects w)\<rparr>"
    have "slot_refs ?w1 = add_mset ?s (slot_refs ?w2)" by (simp add: slot_refs_def subs)
    from sole_owner [OF assms(2) that this] show ?thesis
      using reader_refs [of ?w2] by (auto simp: reader_slots_def)
  qed
  then show ?thesis
    unfolding retired_def Let_def poolable_def
    by (intro wf_retire [OF assms(1) i h refl]) (use i in auto)
qed

subsection \<open>Registering and observing\<close>

definition acquired :: "slot_id list \<Rightarrow> ('k, 'o) world \<Rightarrow> slot_id \<times> ('k, 'o) world" where
  "acquired pl w = (if pl = []
     then (next_slot w, w\<lparr>heap := (heap w)(next_slot w \<mapsto> slot_new), next_slot := next_slot w + 1\<rparr>)
     else (last pl, w\<lparr>heap := (heap w)(last pl \<mapsto> pristine_slot (the (heap w (last pl)))),
                    dropped := dropped w @ cell (the (heap w (last pl)))\<rparr>))"

definition new_generation :: "'k \<Rightarrow> 'k inner \<Rightarrow> ('k, 'o) world \<Rightarrow> ('k, 'o) world" where
  "new_generation key i w =
     (let (s, w1) = acquired (pool (entries_of i)) w;
          e = \<lparr>generation = next_generation i, entry_slot = s\<rparr>
      in w1\<lparr>inner := Some (i\<lparr>next_generation := next_generation i + 1, entries_of := (entries_of i)
              \<lparr>pool := butlast (pool (entries_of i)), kmap := insert_vacant key e (kmap (entries_of i))\<rparr>\<rparr>),
            next_handle := next_handle w + 1,
            subjects := subjects w @ [(next_handle w, \<lparr>subject_key = key,
               subject_generation = next_generation i, subject_slot = s, subject_completed = False\<rparr>)]\<rparr>)"

lemma space_subject_exists:
  assumes "inner w = Some i" and "sm_get key (kmap (entries_of i)) \<noteq> None"
  shows "space_subject sc key w = Inr (Ret (SubjectExists key), w)"
proof -
  obtain pooled rest where p: "pop (pool (entries_of i)) = (pooled, rest)" by force
  have "(case pooled of Some s \<Rightarrow> rest @ [s] | None \<Rightarrow> rest) = pool (entries_of i)"
    using p by (auto simp: pop_Some split: option.splits)
  then show ?thesis using assms p by (simp add: space_subject_def is_vacant_get)
qed

lemma space_subject_new:
  assumes "wf w" and i: "inner w = Some i" and vacant: "sm_get key (kmap (entries_of i)) = None"
    and gen: "next_generation i \<noteq> USIZE_MAX"
  shows "space_subject sc key w = Inr (Ret (NewHandle (next_handle w)), new_generation key i w)"
proof (cases "pool (entries_of i) = []")
  case True
  then show ?thesis
    using i vacant gen
    by (simp add: space_subject_def is_vacant_get pop_def acquire_slot_def alloc_slot_def
        fresh_handle_def new_generation_def acquired_def Let_def)
next
  case False
  let ?s = "last (pool (entries_of i))"
  have "?s \<in># slot_refs w" using False i by (simp add: slot_refs_iff table_refs_def)
  then obtain sl where sl: "heap w ?s = Some sl" using ref_heap [OF assms(1)] by blast
  have "slot_reset (\<lambda>_. False) sl = Inr (Ret (), cell sl, pristine_slot sl)"
    using heap_slot_ok [OF assms(1) sl] slot_reset_eq [of sl "\<lambda>_. False"] by (simp add: list_ex_iff)
  then show ?thesis
    using i vacant gen False sl wf_quiet [OF assms(1)]
    by (simp add: space_subject_def is_vacant_get pop_def acquire_slot_def on_slot_def
        fresh_handle_def new_generation_def acquired_def Let_def)
qed

lemma new_generation_wf:
  assumes "wf w" and i: "inner w = Some i" and vacant: "sm_get key (kmap (entries_of i)) = None"
  shows "wf (new_generation key i w)"
proof -
  let ?es = "entries_of i"
  let ?i = "i\<lparr>next_generation := next_generation i + 1, entries_of := ?es\<lparr>pool := butlast (pool ?es)\<rparr>\<rparr>"
  let ?w = "w\<lparr>inner := Some ?i\<rparr>"
  obtain s w1 where a: "acquired (pool ?es) ?w = (s, w1)" by force
  have shrink: "mset (butlast (pool ?es)) \<subseteq># mset (pool ?es)"
    by (cases "pool ?es" rule: rev_cases) auto
  have wf0: "wf ?w" by (rule wf_pool_shrink [OF assms(1) i shrink])
  have acq: "wf w1 \<and> (\<exists>sl. heap w1 s = Some sl \<and> \<not> completed sl) \<and> s \<notin> set (authority_slots w1)"
  proof (cases "pool ?es = []")
    case True
    with a have e: "s = next_slot w"
      "w1 = ?w\<lparr>heap := (heap ?w)(next_slot ?w \<mapsto> slot_new), next_slot := next_slot ?w + 1\<rparr>"
      by (auto simp: acquired_def)
    have "next_slot ?w \<notin> set (authority_slots ?w)"
      using next_slot_unused(2) [OF wf0] authority_refs by blast
    then show ?thesis using wf_alloc [OF wf0] e by (simp add: authority_slots_def)
  next
    case False
    let ?t = "last (pool ?es)"
    have t: "pool ?es = butlast (pool ?es) @ [?t]" using False by simp
    have "?t \<in> set (authority_slots w)" using False i by (simp add: authority_slots_def pool_of_inner)
    then obtain sl where sl: "heap w ?t = Some sl"
      using ref_heap [OF assms(1)] authority_refs by blast
    have d: "distinct (authority_slots w)" "set (pool_of w) \<inter> reader_slots w = {}"
      using wfD(5) [OF assms(1)] by (simp_all add: authority_inv_def)
    have "mset (authority_slots w) = add_mset ?t (mset (authority_slots ?w))"
      using arg_cong [OF t, of mset] i by (simp add: authority_slots_def pool_of_inner)
    then have "?t \<notin> set (authority_slots ?w)"
      using mset_eq_imp_distinct_iff [of "authority_slots w" "?t # authority_slots ?w"] d(1) by simp
    moreover have "?t \<notin> reader_slots ?w"
    proof -
      have "?t \<in> set (pool_of w)" using False i by (simp add: pool_of_inner)
      then have "?t \<notin> reader_slots w" using d(2) by blast
      then show ?thesis by (simp add: reader_slots_def)
    qed
    ultimately have "wf (?w\<lparr>heap := (heap ?w)(?t \<mapsto> pristine_slot sl), dropped := dropped ?w @ cell sl\<rparr>)"
      using sl by (intro wf_recycle [OF wf0]) simp_all
    moreover from a False sl have "s = ?t"
      "w1 = ?w\<lparr>heap := (heap ?w)(?t \<mapsto> pristine_slot sl), dropped := dropped ?w @ cell sl\<rparr>"
      by (auto simp: acquired_def)
    ultimately show ?thesis
      using \<open>?t \<notin> set (authority_slots ?w)\<close> by (simp add: authority_slots_def)
  qed
  then obtain sl where sl: "heap w1 s = Some sl" "\<not> completed sl" by blast
  have i1: "inner w1 = Some ?i" using a by (auto simp: acquired_def split: if_splits)
  note new = wf_new_subject [OF wfD [OF acq [THEN conjunct1]] i1 _ sl acq [THEN conjunct2, THEN conjunct2],
    of key "next_generation i"]
  from new show ?thesis
    using vacant a
    by (auto simp: new_generation_def Let_def acquired_def split: if_splits)
qed

definition generation_exhausted :: "('k, 'o) arc_count \<Rightarrow> 'k inner \<Rightarrow> ('k, 'o) world \<Rightarrow> ('k, 'o) world" where
  "generation_exhausted sc i w =
     (let pl = pool (entries_of i);
          w1 = w\<lparr>inner := Some (i\<lparr>next_generation := 0, entries_of := (entries_of i)\<lparr>pool := butlast pl\<rparr>\<rparr>)\<rparr>
      in if pl = [] then w1 else released sc (last pl) w1)"

lemma space_subject_exhausted:
  assumes "wf w" and "arc_sound sc" and i: "inner w = Some i"
    and vacant: "sm_get key (kmap (entries_of i)) = None"
    and gen: "next_generation i = USIZE_MAX"
  shows "space_subject sc key w = Inr (Panic GenerationExhausted, generation_exhausted sc i w)"
    and "wf (generation_exhausted sc i w)"
proof -
  let ?pl = "pool (entries_of i)"
  let ?w = "w\<lparr>inner := Some (i\<lparr>next_generation := 0, entries_of := (entries_of i)\<lparr>pool := butlast ?pl\<rparr>\<rparr>)\<rparr>"
  have wrap: "USIZE_MAX + 1 = 0" by (simp add: USIZE_MAX_minus_1)
  have shrink: "mset (butlast ?pl) \<subseteq># mset ?pl" by (cases ?pl rule: rev_cases) auto
  have wf1: "wf ?w" by (rule wf_pool_shrink [OF assms(1) i shrink])
  have hp: "heap ?w (last ?pl) \<noteq> None" if "?pl \<noteq> []"
    using ref_heap [OF assms(1), of "last ?pl"] that i by (simp add: slot_refs_iff table_refs_def)
  show "space_subject sc key w = Inr (Panic GenerationExhausted, generation_exhausted sc i w)"
    using i vacant gen wrap hp release_eq [OF wf1 hp, of sc]
    by (auto simp: space_subject_def is_vacant_get pop_def generation_exhausted_def Let_def)
  show "wf (generation_exhausted sc i w)"
    using wf1 wf_released [OF wf1 hp assms(2)]
    by (cases "?pl = []") (simp_all add: generation_exhausted_def Let_def)
qed

lemma space_observe_unknown:
  "inner w = Some i \<Longrightarrow> sm_get key (kmap (entries_of i)) = None \<Longrightarrow>
   space_observe key w = Inr (Ret (UnknownSubject key), w)"
  by (simp add: space_observe_def)

lemma space_observe_eq:
  assumes "wf w" and "inner w = Some i" and "sm_get key (kmap (entries_of i)) = Some e"
  shows "space_observe key w = Inr (Ret (NewHandle (next_handle w)),
      w\<lparr>next_handle := next_handle w + 1, observations := observations w @ [(next_handle w, entry_slot e)]\<rparr>)"
    and "wf (w\<lparr>next_handle := next_handle w + 1,
                observations := observations w @ [(next_handle w, entry_slot e)]\<rparr>)"
proof -
  show "space_observe key w = Inr (Ret (NewHandle (next_handle w)),
      w\<lparr>next_handle := next_handle w + 1, observations := observations w @ [(next_handle w, entry_slot e)]\<rparr>)"
    using assms(2,3) by (simp add: space_observe_def fresh_handle_def)
  obtain h sub where sub: "(h, sub) \<in> set (subjects w)" "subject_slot sub = entry_slot e"
    using entry_subject [OF assms] by blast
  have "heap w (entry_slot e) \<noteq> None" "entry_slot e \<notin> set (pool_of w)"
    using subject_slot_heap [OF assms(1) sub(1)] subject_not_pooled [OF assms(1) sub(1)] sub(2) by simp_all
  then show "wf (w\<lparr>next_handle := next_handle w + 1,
                observations := observations w @ [(next_handle w, entry_slot e)]\<rparr>)"
    by (rule wf_new_observation [OF assms(1)])
qed

subsection \<open>Observations\<close>

lemma observed_slot:
  assumes "wf w" and "map_of (observations w) h = Some s"
  obtains sl where "heap w s = Some sl" and "slot_ok sl" and "s < next_slot w"
  using observation_slot_heap [OF assms(1) map_of_SomeD [OF assms(2)]] heap_slot_ok [OF assms(1)]
  by blast

lemma observation_clone_eq:
  assumes "wf w" and h: "map_of (observations w) h = Some s"
  shows "observation_clone h w = Inr (Ret (NewHandle (next_handle w)),
      w\<lparr>next_handle := next_handle w + 1, observations := observations w @ [(next_handle w, s)]\<rparr>)"
    and "wf (w\<lparr>next_handle := next_handle w + 1, observations := observations w @ [(next_handle w, s)]\<rparr>)"
proof -
  show "observation_clone h w = Inr (Ret (NewHandle (next_handle w)),
      w\<lparr>next_handle := next_handle w + 1, observations := observations w @ [(next_handle w, s)]\<rparr>)"
    using h by (simp add: observation_clone_def fresh_handle_def)
  note mem = map_of_SomeD [OF h]
  have "s \<in> reader_slots w" using mem by (force simp: reader_slots_def)
  then have "s \<notin> set (pool_of w)" using wfD(5) [OF assms(1)] by (auto simp: authority_inv_def)
  then show "wf (w\<lparr>next_handle := next_handle w + 1, observations := observations w @ [(next_handle w, s)]\<rparr>)"
    by (rule wf_new_observation [OF assms(1) observation_slot_heap [OF assms(1) mem]])
qed

lemma observation_try_get_eq:
  assumes "wf w" and h: "map_of (observations w) h = Some s" and hp: "heap w s = Some sl"
  shows "observation_try_get h w = Inr (Ret (Value (outcome sl)), w)"
  using assms heap_slot_ok [OF assms(1) hp]
  by (simp add: observation_try_get_def on_slot_def heap_same)

lemma observation_register_waker_eq:
  fixes k :: waker
  assumes "wf w" and h: "map_of (observations w) h = Some s" and hp: "heap w s = Some sl"
  defines "sl' \<equiv> (if completed sl then sl else with_registry (direct_registered k (registered sl)) sl)"
  shows "observation_register_waker h k w = Inr (Ret (Flag (completed sl)), w\<lparr>heap := (heap w)(s \<mapsto> sl')\<rparr>)"
    and "wf (w\<lparr>heap := (heap w)(s \<mapsto> sl')\<rparr>)"
proof -
  have ok: "slot_ok sl" using heap_slot_ok [OF assms(1) hp] by simp
  then have reg: "registry_ok (registered sl)" by (simp add: slot_ok_def)
  show "observation_register_waker h k w = Inr (Ret (Flag (completed sl)), w\<lparr>heap := (heap w)(s \<mapsto> sl')\<rparr>)"
    using h hp by (simp add: observation_register_waker_def on_slot_def register_waker_completed
        register_waker_pending sl'_def)
  show "wf (w\<lparr>heap := (heap w)(s \<mapsto> sl')\<rparr>)"
    by (rule wf_touch [OF assms(1) hp])
      (use ok in \<open>auto simp: sl'_def direct_registered_simps(1) intro: with_registry_ok
        direct_registered_simps(5) [OF reg]\<close>)
qed

lemma wait_round_eq:
  assumes "slot_ok sl"
  shows "wait_round t sl = (case outcome sl of
      Some v \<Rightarrow> Inr (Outcome v, sl)
    | None \<Rightarrow> Inr (Parking, with_registry (push_thread t (registered sl)) sl))"
  using wait_round_completed [OF assms, of t] wait_round_pending [of sl t] slot_ok_outcome [OF assms]
  by (cases "outcome sl") auto

lemma observation_wait_eq:
  assumes "wf w" and h: "map_of (observations w) h = Some s" and hp: "heap w s = Some sl"
  shows "observation_wait h t w = (case outcome sl of
      Some v \<Rightarrow> Inr (Ret (Waited (Outcome v)), w)
    | None \<Rightarrow> Inr (Ret (Waited Parking),
         w\<lparr>heap := (heap w)(s \<mapsto> with_registry (push_thread t (registered sl)) sl)\<rparr>))"
  using h hp heap_slot_ok [OF assms(1) hp]
  by (simp add: observation_wait_def on_slot_def wait_round_eq heap_same split: option.splits)

lemma wf_push_thread:
  assumes "wf w" and hp: "heap w s = Some sl" and "outcome sl = None"
  shows "wf (w\<lparr>heap := (heap w)(s \<mapsto> with_registry (push_thread t (registered sl)) sl)\<rparr>)"
proof -
  have ok: "slot_ok sl" using heap_slot_ok [OF assms(1) hp] by simp
  then have reg: "registry_ok (registered sl)" and "\<not> completed sl"
    using slot_ok_outcome [OF ok] assms(3) by (simp_all add: slot_ok_def)
  then have "slot_ok (with_registry (push_thread t (registered sl)) sl)"
    using ok by (intro with_registry_ok) simp_all
  then show ?thesis by (intro wf_touch [OF assms(1) hp]) simp_all
qed

lemma observation_wait_timeout_eq:
  assumes "wf w" and h: "map_of (observations w) h = Some s" and hp: "heap w s = Some sl"
  shows "observation_wait_timeout h t instant_max start timeout now w =
     (if start + timeout > instant_max then Inr (Panic TimeoutOverflowsInstant, w)
      else case outcome sl of
        Some v \<Rightarrow> Inr (Ret (Waited (Outcome v)), w)
      | None \<Rightarrow>
          let ws = push_thread t (registered sl)
          in if now \<ge> start + timeout
             then Inr (Ret (Waited TimedOut),
                       w\<lparr>heap := (heap w)(s \<mapsto> with_registry (remove_thread t ws) sl)\<rparr>)
             else Inr (Ret (Waited Parking), w\<lparr>heap := (heap w)(s \<mapsto> with_registry ws sl)\<rparr>))"
proof -
  have ok: "slot_ok sl" using heap_slot_ok [OF assms(1) hp] by simp
  have "(with_registry ws sl)\<lparr>waiters := Some ws'\<rparr> = with_registry ws' sl" for ws ws'
    by (simp add: with_registry_def)
  with h hp ok show ?thesis
    by (simp add: observation_wait_timeout_def wait_deadline_def on_slot_def wait_timeout_round_def
        wait_round_eq park_until_def registry_eq heap_same Let_def split: option.splits)
qed

lemma wf_remove_thread:
  assumes "wf w" and hp: "heap w s = Some sl" and "outcome sl = None"
  shows "wf (w\<lparr>heap := (heap w)(s \<mapsto>
      with_registry (remove_thread t (push_thread u (registered sl))) sl)\<rparr>)"
proof -
  have ok: "slot_ok sl" using heap_slot_ok [OF assms(1) hp] by simp
  then have reg: "registry_ok (registered sl)" and "\<not> completed sl"
    using slot_ok_outcome [OF ok] assms(3) by (simp_all add: slot_ok_def)
  then have "slot_ok (with_registry (remove_thread t (push_thread u (registered sl))) sl)"
    using ok by (intro with_registry_ok registry_ok_remove_thread) simp_all
  then show ?thesis by (intro wf_touch [OF assms(1) hp]) simp_all
qed

lemma observation_wait_wf:
  assumes "wf w" and "map_of (observations w) h = Some s"
  shows "\<exists>r w'. observation_wait h t w = Inr (r, w') \<and> wf w'"
    and "\<exists>r w'. observation_wait_timeout h t instant_max start timeout now w = Inr (r, w') \<and> wf w'"
proof -
  obtain sl where sl: "heap w s = Some sl" using observed_slot [OF assms] .
  show "\<exists>r w'. observation_wait h t w = Inr (r, w') \<and> wf w'"
    using assms(1) sl observation_wait_eq [OF assms sl] wf_push_thread
    by (cases "outcome sl") auto
  show "\<exists>r w'. observation_wait_timeout h t instant_max start timeout now w = Inr (r, w') \<and> wf w'"
    using assms(1) sl observation_wait_timeout_eq [OF assms sl] wf_push_thread wf_remove_thread
    by (cases "outcome sl") (auto simp: Let_def)
qed

lemma observation_into_outcome_eq:
  assumes "wf w" and h: "map_of (observations w) h = Some s" and hp: "heap w s = Some sl"
  defines "w1 \<equiv> w\<lparr>observations := AList.delete h (observations w)\<rparr>"
  shows "observation_into_outcome sc h w =
     (if sc w (SlotArc s) = 1
      then Inr (Ret (Value (outcome sl)),
                w1\<lparr>heap := (heap w)(s := None), moved := moved w @ cell sl\<rparr>)
      else Inr (Ret (Value None), released sc s w1))"
proof -
  have ok: "slot_ok sl" using heap_slot_ok [OF assms(1) hp] by simp
  have wf1: "wf w1" by (rule wf_shrink [OF assms(1)]) (simp_all add: w1_def delete_subset_mset)
  have hp1: "heap w1 s \<noteq> None" by (simp add: w1_def hp)
  obtain sl' where sl': "take_outcome sl = Inr (outcome sl, sl')"
    "slot_drop (drop_panics w) sl' = Inr (Ret (), [])"
    using take_outcome_eq [OF ok] by blast
  have "cell sl = (case outcome sl of None \<Rightarrow> [] | Some v \<Rightarrow> [v])" by (simp add: cell_def)
  with h hp sl' release_eq [OF wf1 hp1, of sc] show ?thesis
    by (simp add: observation_into_outcome_def Let_def w1_def)
qed

lemma observation_into_outcome_wf:
  assumes "wf w" and "arc_sound sc" and h: "map_of (observations w) h = Some s"
  shows "\<exists>r w'. observation_into_outcome sc h w = Inr (r, w') \<and> wf w'"
proof -
  obtain sl where sl: "heap w s = Some sl" using observed_slot [OF assms(1) h] .
  let ?w1 = "w\<lparr>observations := AList.delete h (observations w)\<rparr>"
  have wf1: "wf ?w1" by (rule wf_shrink [OF assms(1)]) (simp_all add: delete_subset_mset)
  show ?thesis
  proof (cases "sc w (SlotArc s) = 1")
    case True
    have "mset (observations w) = add_mset (h, s) (mset (AList.delete h (observations w)))"
      by (rule alist_split [OF handles_distinct(6) [OF assms(1)] h])
    then have "slot_refs w = add_mset s (slot_refs ?w1)" by (simp add: slot_refs_def)
    then have free: "s \<notin># slot_refs ?w1" by (rule sole_owner [OF assms(2) True])
    have "wf (?w1\<lparr>heap := (heap w)(s := None), moved := moved w @ cell sl\<rparr>)"
      by (rule wf_free [OF wf1 _ free, of sl]) (simp_all add: sl)
    with True observation_into_outcome_eq [OF assms(1) h sl, of sc] show ?thesis by simp
  next
    case False
    have "wf (released sc s ?w1)" by (rule wf_released [OF wf1 _ assms(2)]) (simp add: sl)
    with False observation_into_outcome_eq [OF assms(1) h sl, of sc] show ?thesis by simp
  qed
qed

subsection \<open>Futures\<close>

lemma into_future_eq:
  assumes "wf w" and h: "map_of (observations w) h = Some s"
  defines "w' \<equiv> w\<lparr>observations := AList.delete h (observations w),
      futures := futures w @ [(h, \<lparr>future_slot = s, future_wakers = []\<rparr>)]\<rparr>"
  shows "into_future h w = Inr (Ret (NewHandle h), w')" and "wf w'"
proof -
  show "into_future h w = Inr (Ret (NewHandle h), w')" using h by (simp add: into_future_def w'_def)
  note inv = wfD [OF assms(1)]
  have obs: "mset (observations w) = add_mset (h, s) (mset (AList.delete h (observations w)))"
    by (rule alist_split [OF handles_distinct(6) [OF assms(1)] h])
  show "wf w'"
  proof
    show "heap_inv w'" using inv(1) by (simp add: heap_inv_def w'_def)
    have "slot_refs w' = slot_refs w" by (simp add: slot_refs_def w'_def obs)
    then show "ref_inv w'" using inv(2) by (simp add: ref_inv_def w'_def)
    show "handle_inv w'"
      by (rule handle_inv_sub [OF inv(3)]) (simp_all add: all_handles_def w'_def obs)
    show "table_inv w'" using inv(4) by (simp add: table_inv_def w'_def)
    have "reader_slots w' \<subseteq> reader_slots w"
      using map_of_SomeD [OF h] by (force simp: reader_slots_def w'_def dest: in_deleteD)
    then show "authority_inv w'"
      by (intro authority_inv_sub [OF inv(5)]) (auto simp: authority_slots_def w'_def)
    show "completion_inv w'" using inv(6) by (simp add: completion_inv_def w'_def)
    show "future_inv w'" using inv(7) by (simp add: future_inv_def w'_def future_owners_of_def)
    show "quiet_inv w'" using inv(9) by (simp add: quiet_inv_def w'_def)
    show "account_inv w'" using inv(8) by (simp add: account_inv_def w'_def)
  qed
qed

lemma future_owners_mset:
  "future_owners_of fs s x = size (filter_mset (\<lambda>(h, f). future_slot f = s \<and> x \<in> set (future_wakers f)) (mset fs))"
  by (simp add: future_owners_of_def flip: mset_filter)

lemma future_owners_split:
  assumes "distinct (map fst fs)" and "map_of fs h = Some f"
  shows "future_owners_of fs s x = future_owners_of (AList.delete h fs) s x
      + (if future_slot f = s \<and> x \<in> set (future_wakers f) then 1 else 0)"
    and "future_owners_of (AList.update h f' fs) s x = future_owners_of (AList.delete h fs) s x
      + (if future_slot f' = s \<and> x \<in> set (future_wakers f') then 1 else 0)"
  using alist_split [OF assms] alist_update_mset [OF assms, of f']
  by (simp_all add: future_owners_mset)

lemma wf_future_step:
  assumes "wf w" and hp: "heap w s = Some sl" and ok: "slot_ok sl'" and same: "outcome sl' = outcome sl"
    and slots: "mset (map (future_slot \<circ> snd) fs) \<subseteq># mset (map (future_slot \<circ> snd) (futures w))"
    and handles: "mset (map fst fs) \<subseteq># mset (map fst (futures w))"
    and here: "\<And>x. \<not> completed sl \<Longrightarrow> owners x (registered sl') = future_owners_of fs s x"
    and there: "\<And>t x. t \<noteq> s \<Longrightarrow> future_owners_of fs t x = future_owners_of (futures w) t x"
  shows "wf (w\<lparr>heap := (heap w)(s \<mapsto> sl'), futures := fs\<rparr>)" (is "wf ?w")
proof
  note inv = wfD [OF assms(1)]
  have s: "s < next_slot w" "slot_ok sl" using heap_slot_ok [OF assms(1) hp] by auto
  have comp: "completed sl' = completed sl" using same slot_ok_outcome ok s(2) by metis
  have cell: "cell sl' = cell sl" using same by (simp add: cell_def)
  have slots': "(future_slot \<circ> snd) ` set fs \<subseteq> (future_slot \<circ> snd) ` set (futures w)"
    using set_mset_mono [OF slots] by simp
  show "heap_inv ?w" using inv(1) s ok by (auto simp: heap_inv_def)
  have "set_mset (slot_refs ?w) \<subseteq> set_mset (slot_refs w)"
    using slots by (intro set_mset_mono) (simp add: slot_refs_def subset_mset.add_mono)
  then show "ref_inv ?w" by (rule ref_inv_sub [OF inv(2)]) simp
  show "handle_inv ?w"
    using handles by (intro handle_inv_sub [OF inv(3)]) (simp_all add: all_handles_def subset_mset.add_mono)
  show "table_inv ?w" using inv(4) by (simp add: table_inv_def)
  have "reader_slots ?w \<subseteq> reader_slots w" using slots' by (simp add: reader_slots_def le_supI2)
  then show "authority_inv ?w"
    by (intro authority_inv_sub [OF inv(5)]) (auto simp: authority_slots_def)
  show "completion_inv ?w" using inv(6) hp comp by (auto simp: completion_inv_def)
  show "future_inv ?w"
    using inv(7) comp here there by (auto simp: future_inv_def)
  show "quiet_inv ?w" using inv(9) by (simp add: quiet_inv_def)
  show "account_inv ?w" using inv(8) hp s cell by (simp add: account_inv_def heap_cells_same)
qed

lemma update_same: "map_of xs h = Some y \<Longrightarrow> AList.update h y xs = xs"
  by (induction xs) auto

lemma future_poll_eq:
  assumes "wf w" and h: "map_of (futures w) h = Some fut" and hp: "heap w (future_slot fut) = Some sl"
  shows "observation_future_poll h k w =
    (case outcome sl of
       Some v \<Rightarrow> Inr (Ret (Polled (Ready v)), w)
     | None \<Rightarrow>
         if k \<in> set (future_wakers fut) then Inr (Ret (Polled Pending), w)
         else (case future_registered k (registered sl) of
            Ret ws \<Rightarrow> Inr (Ret (Polled Pending),
               w\<lparr>heap := (heap w)(future_slot fut \<mapsto> with_registry ws sl), futures :=
                   AList.update h (fut\<lparr>future_wakers := future_wakers fut @ [k]\<rparr>) (futures w)\<rparr>)
          | Panic p \<Rightarrow> Inr (Panic p,
               w\<lparr>heap := (heap w)(future_slot fut \<mapsto> with_registry (registered sl) sl)\<rparr>)))"
  using h hp heap_slot_ok [OF assms(1) hp]
  by (auto simp: observation_future_poll_def on_slot_def future_poll_completed future_poll_known
      future_poll_fresh update_same heap_same split: option.splits call.splits)

lemma future_poll_wf:
  assumes "wf w" and h: "map_of (futures w) h = Some fut" and hp: "heap w (future_slot fut) = Some sl"
    and none: "outcome sl = None" and new: "k \<notin> set (future_wakers fut)"
    and ws: "future_registered k (registered sl) = Ret ws"
  shows "wf (w\<lparr>heap := (heap w)(future_slot fut \<mapsto> with_registry ws sl), futures :=
                   AList.update h (fut\<lparr>future_wakers := future_wakers fut @ [k]\<rparr>) (futures w)\<rparr>)"
proof -
  let ?f = "fut\<lparr>future_wakers := future_wakers fut @ [k]\<rparr>"
  have ok: "slot_ok sl" using heap_slot_ok [OF assms(1) hp] by simp
  then have pend: "\<not> completed sl" and reg: "registry_ok (registered sl)"
    using slot_ok_outcome [OF ok] none by (simp_all add: slot_ok_def)
  have own: "owners x (registered sl) = future_owners_of (futures w) (future_slot fut) x" for x
    using wfD(7) [OF assms(1)] hp pend by (simp add: future_inv_def)
  note fut = future_owners_split(1) [OF handles_distinct(7) [OF assms(1)] h]
    future_owners_split(2) [OF handles_distinct(7) [OF assms(1)] h, where f' = ?f]
  have "map (future_slot \<circ> snd) (AList.update h ?f (futures w)) = map (future_slot \<circ> snd) (futures w)"
    "map fst (AList.update h ?f (futures w)) = map fst (futures w)"
    by (rule map_update_same [OF h]; simp)+
  then show ?thesis
  proof (intro wf_future_step [OF assms(1) hp])
    show "slot_ok (with_registry ws sl)"
      by (rule with_registry_ok [OF ok pend future_registered_Ret(5) [OF ws reg]])
    show "owners x (registered (with_registry ws sl))
        = future_owners_of (AList.update h ?f (futures w)) (future_slot fut) x" for x
      using own [of x] fut(1) [of "future_slot fut" x] fut(2) [of "future_slot fut" x] new
        future_registered_Ret(1) [OF ws, of x] by auto
    show "future_owners_of (AList.update h ?f (futures w)) t x = future_owners_of (futures w) t x"
      if "t \<noteq> future_slot fut" for t x
      using fut(1) [of t x] fut(2) [of t x] that by simp
  qed simp_all
qed

lemma observation_future_poll_wf:
  assumes "wf w" and h: "map_of (futures w) h = Some fut"
  shows "\<exists>r w'. observation_future_poll h k w = Inr (r, w') \<and> wf w'"
proof -
  obtain sl where sl: "heap w (future_slot fut) = Some sl"
    using future_slot_heap [OF assms(1) map_of_SomeD [OF h]] by blast
  have ok: "slot_ok sl" using heap_slot_ok [OF assms(1) sl] by simp
  then have reg: "registry_ok (registered sl)" by (simp add: slot_ok_def)
  note eq = future_poll_eq [OF assms sl, of k]
  show ?thesis
  proof (cases "outcome sl")
    case None
    have "slot_ok (with_registry (registered sl) sl)"
      using None slot_ok_outcome [OF ok] by (intro with_registry_ok [OF ok _ reg]) simp
    then have "wf (w\<lparr>heap := (heap w)(future_slot fut \<mapsto> with_registry (registered sl) sl)\<rparr>)"
      by (rule wf_touch [OF assms(1) sl]) simp_all
    with None eq assms(1) future_poll_wf [OF assms sl None] show ?thesis
      by (auto split: call.splits if_splits)
  next
    case (Some v)
    with eq assms(1) show ?thesis by simp
  qed
qed

text \<open>Dropping a future: its registrations go, then its handle.\<close>

lemma observation_future_drop_eq:
  assumes "wf w" and "arc_sound sc" and h: "map_of (futures w) h = Some fut"
    and hp: "heap w (future_slot fut) = Some sl"
  obtains sl' where "future_drop (future_wakers fut) sl = Inr sl'"
    and "observation_future_drop sc h w = Inr (Ret Done, released sc (future_slot fut)
       (w\<lparr>heap := (heap w)(future_slot fut \<mapsto> sl'), futures := AList.delete h (futures w)\<rparr>))"
    and "wf (w\<lparr>heap := (heap w)(future_slot fut \<mapsto> sl'), futures := AList.delete h (futures w)\<rparr>)"
    and "outcome sl' = outcome sl" and "slot_ok sl'"
    and "\<And>x. owners x (registered sl') = owners x (registered sl) - (if x \<in> set (future_wakers fut) then 1 else 0)"
    and "\<And>x. direct x (registered sl') \<longleftrightarrow> direct x (registered sl)"
    and "threads (registered sl') = threads (registered sl)"
proof -
  let ?s = "future_slot fut" and ?mine = "future_wakers fut"
  have ok: "slot_ok sl" using heap_slot_ok [OF assms(1) hp] by simp
  note fut = future_owners_split(1) [OF handles_distinct(7) [OF assms(1)] h]
  have own: "owners x (registered sl) = future_owners_of (futures w) ?s x" if "\<not> completed sl" for x
    using wfD(7) [OF assms(1)] hp that by (simp add: future_inv_def)
  have "\<forall>x\<in>set ?mine. x \<in> set (wakers_of (registered sl)) \<longrightarrow> owners x (registered sl) > 0"
    using own fut [of ?s] slot_ok_drained [OF ok] by (cases "completed sl") auto
  from future_drop_ok [OF ok this] obtain sl' where sl': "future_drop ?mine sl = Inr sl'"
    "slot_ok sl'" "outcome sl' = outcome sl"
    "\<And>x. owners x (registered sl') = owners x (registered sl) - (if x \<in> set ?mine then 1 else 0)"
    "\<And>x. direct x (registered sl') \<longleftrightarrow> direct x (registered sl)"
    "threads (registered sl') = threads (registered sl)" by blast
  let ?w = "w\<lparr>heap := (heap w)(?s \<mapsto> sl'), futures := AList.delete h (futures w)\<rparr>"
  have split: "mset (futures w) = add_mset (h, fut) (mset (AList.delete h (futures w)))"
    by (rule alist_split [OF handles_distinct(7) [OF assms(1)] h])
  have wf1: "wf ?w"
  proof (rule wf_future_step [OF assms(1) hp sl'(2,3)])
    show "owners x (registered sl') = future_owners_of (AList.delete h (futures w)) ?s x"
      if "\<not> completed sl" for x
      using sl'(4) [of x] own [OF that, of x] fut [of ?s x] by auto
    show "future_owners_of (AList.delete h (futures w)) t x = future_owners_of (futures w) t x"
      if "t \<noteq> ?s" for t x
      using fut [of t x] that by simp
  qed (simp_all add: split)
  have "release sc ?s ?w = Inr (released sc ?s ?w)" by (rule release_eq [OF wf1]) simp
  then have "observation_future_drop sc h w = Inr (Ret Done, released sc ?s ?w)"
    using h hp sl'(1) by (simp add: observation_future_drop_def on_slot_def)
  with sl' wf1 that show thesis by blast
qed

end
