(* ===== verification/System.thy ===== *)
theory System
  imports Operations
begin

section \<open>Programs over the crate\<close>

text \<open>
  A safe program is a sequence of operations, each on a value the program owns.  \<open>owns\<close> is what
  Rust's ownership enforces, \<open>exec\<close> the dispatch to the operations of \<open>Space\<close>, \<open>reach\<close> the states
  such a program can be in, and \<open>run\<close> its execution.  The three phases of dropping a \<open>Subject\<close> are
  three operations, so the operations of other threads can come between them.
\<close>

datatype ('k, 'o) op =
    MakeSubject 'k
  | Observe 'k
  | CloneSpace
  | DropSpace handle
  | Complete handle 'o
  | DropSubject handle
  | DropSubjectInner handle
  | DropSubjectSlot handle
  | MakePair
  | Publish handle 'o
  | DropPublisher handle
  | CloneObservation handle
  | DropObservation handle
  | TryGet handle
  | IntoOutcome handle
  | RegisterWaker handle waker
  | Wait handle thread_id
  | WaitTimeout handle thread_id nat nat nat nat
  | IntoFuture handle
  | Poll handle waker
  | DropFuture handle

fun exec :: "('k, 'o) arc_count \<Rightarrow> (waker \<Rightarrow> bool) \<Rightarrow> ('k, 'o) op \<Rightarrow> ('k, 'o) world \<Rightarrow> ('k, 'o) result" where
  "exec sc wp (MakeSubject key) w = space_subject sc key w"
| "exec sc wp (Observe key) w = space_observe key w"
| "exec sc wp CloneSpace w = space_clone w"
| "exec sc wp (DropSpace h) w = space_drop sc h w"
| "exec sc wp (Complete h v) w = subject_complete wp h v w"
| "exec sc wp (DropSubject h) w = subject_drop sc h w"
| "exec sc wp (DropSubjectInner h) w = subject_drop_inner sc h w"
| "exec sc wp (DropSubjectSlot h) w = subject_drop_slot sc h w"
| "exec sc wp MakePair w = pair_new w"
| "exec sc wp (Publish h v) w = publisher_complete sc wp h v w"
| "exec sc wp (DropPublisher h) w = publisher_drop sc h w"
| "exec sc wp (CloneObservation h) w = observation_clone h w"
| "exec sc wp (DropObservation h) w = observation_drop sc h w"
| "exec sc wp (TryGet h) w = observation_try_get h w"
| "exec sc wp (IntoOutcome h) w = observation_into_outcome sc h w"
| "exec sc wp (RegisterWaker h k) w = observation_register_waker h k w"
| "exec sc wp (Wait h t) w = observation_wait h t w"
| "exec sc wp (WaitTimeout h t imax start timeout now) w =
     observation_wait_timeout h t imax start timeout now w"
| "exec sc wp (IntoFuture h) w = into_future h w"
| "exec sc wp (Poll h k) w = observation_future_poll h k w"
| "exec sc wp (DropFuture h) w = observation_future_drop sc h w"

fun owns :: "('k, 'o) op \<Rightarrow> ('k, 'o) world \<Rightarrow> bool" where
  "owns (MakeSubject key) w = (spaces w \<noteq> [])"
| "owns (Observe key) w = (spaces w \<noteq> [])"
| "owns CloneSpace w = (spaces w \<noteq> [])"
| "owns (DropSpace h) w = (map_of (spaces w) h \<noteq> None)"
| "owns (Complete h v) w = (map_of (subjects w) h \<noteq> None)"
| "owns (DropSubject h) w = (map_of (subjects w) h \<noteq> None)"
| "owns (DropSubjectInner h) w = (map_of (retiring w) h \<noteq> None)"
| "owns (DropSubjectSlot h) w = (map_of (dying w) h \<noteq> None)"
| "owns MakePair w = True"
| "owns (Publish h v) w = (map_of (publishers w) h \<noteq> None)"
| "owns (DropPublisher h) w = (map_of (publishers w) h \<noteq> None)"
| "owns (CloneObservation h) w = (map_of (observations w) h \<noteq> None)"
| "owns (DropObservation h) w = (map_of (observations w) h \<noteq> None)"
| "owns (TryGet h) w = (map_of (observations w) h \<noteq> None)"
| "owns (IntoOutcome h) w = (map_of (observations w) h \<noteq> None)"
| "owns (RegisterWaker h k) w = (map_of (observations w) h \<noteq> None)"
| "owns (Wait h t) w = (map_of (observations w) h \<noteq> None)"
| "owns (WaitTimeout h t imax start timeout now) w = (map_of (observations w) h \<noteq> None)"
| "owns (IntoFuture h) w = (map_of (observations w) h \<noteq> None)"
| "owns (Poll h k) w = (map_of (futures w) h \<noteq> None)"
| "owns (DropFuture h) w = (map_of (futures w) h \<noteq> None)"

fun run :: "('k, 'o) arc_count \<Rightarrow> (waker \<Rightarrow> bool) \<Rightarrow> ('k, 'o) op list \<Rightarrow> ('k, 'o) world \<Rightarrow>
    fault + ('k, 'o) reply call list \<times> ('k, 'o) world" where
  "run sc wp [] w = Inr ([], w)"
| "run sc wp (op # ops) w =
     (if \<not> owns op w then Inl Dangling
      else (case exec sc wp op w of
         Inl f \<Rightarrow> Inl f
       | Inr (r, w') \<Rightarrow>
           (case run sc wp ops w' of
              Inl f \<Rightarrow> Inl f
            | Inr (rs, w'') \<Rightarrow> Inr (r # rs, w''))))"

inductive reach :: "('k, 'o) arc_count \<Rightarrow> ('k, 'o) world \<Rightarrow> bool" for sc where
  start: "reach sc space_new"
| step: "reach sc w \<Longrightarrow> owns op w \<Longrightarrow> exec sc wp op w = Inr (r, w') \<Longrightarrow> reach sc w'"

subsection \<open>Every operation keeps the invariant\<close>

lemma subject_ops_wf:
  assumes "wf w" and "arc_sound sc" and h: "map_of (subjects w) h = Some sub"
  shows "\<exists>r w'. subject_complete wp h v w = Inr (r, w') \<and> wf w'"
    and "\<exists>r w'. subject_drop sc h w = Inr (r, w') \<and> wf w'"
proof -
  obtain sl where sl: "heap w (subject_slot sub) = Some sl"
    using subject_slot_heap [OF assms(1) map_of_SomeD [OF h]] by blast
  show "\<exists>r w'. subject_complete wp h v w = Inr (r, w') \<and> wf w'"
  proof (cases "subject_completed sub")
    case True
    with h wf_account [OF assms(1)] show ?thesis by (simp add: subject_complete_twice [OF assms(1)])
  next
    case False
    show ?thesis
      using subject_complete_eq [OF assms(1) h False sl] subject_complete_wf [OF assms(1) h False sl]
      by simp
  qed
  obtain i where "inner w = Some i" using subject_inner [OF assms(1) map_of_SomeD [OF h]] by blast
  then show "\<exists>r w'. subject_drop sc h w = Inr (r, w') \<and> wf w'"
    using subject_drop_eq [OF assms] retired_wf [OF assms] by blast
qed

lemma space_ops_wf:
  assumes "wf w" and "arc_sound sc" and "spaces w \<noteq> []"
  shows "\<exists>r w'. space_subject sc key w = Inr (r, w') \<and> wf w'"
    and "\<exists>r w'. space_observe key w = Inr (r, w') \<and> wf w'"
    and "\<exists>r w'. space_clone w = Inr (r, w') \<and> wf w'"
proof -
  obtain i where i: "inner w = Some i" using space_inner [OF assms(1,3)] by blast
  show "\<exists>r w'. space_subject sc key w = Inr (r, w') \<and> wf w'"
  proof (cases "sm_get key (kmap (entries_of i))")
    case None
    show ?thesis
    proof (cases "next_generation i = USIZE_MAX")
      case True
      with space_subject_exhausted [OF assms(1,2) i None] show ?thesis by blast
    next
      case False
      with space_subject_new [OF assms(1) i None, of sc] new_generation_wf [OF assms(1) i None]
      show ?thesis by blast
    qed
  next
    case (Some e)
    with space_subject_exists [OF i, of key sc] assms(1) show ?thesis by blast
  qed
  show "\<exists>r w'. space_observe key w = Inr (r, w') \<and> wf w'"
    using assms(1) space_observe_unknown [OF i, of key] space_observe_eq [OF assms(1) i, of key]
    by (cases "sm_get key (kmap (entries_of i))") blast+
  show "\<exists>r w'. space_clone w = Inr (r, w') \<and> wf w'"
    using space_clone_eq space_clone_wf [OF assms(1)] i by blast
qed

lemma exec_wf:
  assumes "wf w" and "arc_sound sc" and "owns op w"
  shows "\<exists>r w'. exec sc wp op w = Inr (r, w') \<and> wf w'"
proof (cases op)
  case (DropSpace h)
  with assms space_drop_eq [OF assms(1,2), of h] show ?thesis by auto
next
  case (DropSubjectInner h)
  with assms(3) obtain sub where "map_of (retiring w) h = Some sub" by auto
  from subject_drop_inner_eq [OF assms(1,2) this] DropSubjectInner show ?thesis by simp
next
  case (DropSubjectSlot h)
  with assms(3) obtain s where "map_of (dying w) h = Some s" by auto
  from subject_drop_slot_eq [OF assms(1,2) this] DropSubjectSlot show ?thesis by simp
next
  case (Publish h v)
  with assms(3) obtain s where s: "map_of (publishers w) h = Some s" by auto
  then obtain sl where "heap w s = Some sl"
    using publisher_slot_heap [OF assms(1) map_of_SomeD [OF s]] by blast
  from publisher_complete_eq [OF assms(1,2) s this] Publish show ?thesis by simp
next
  case (DropPublisher h)
  with assms(3) obtain s where "map_of (publishers w) h = Some s" by auto
  from publisher_drop_eq [OF assms(1,2) this] DropPublisher show ?thesis by simp
next
  case (DropObservation h)
  with assms(3) obtain s where "map_of (observations w) h = Some s" by auto
  from observation_drop_eq [OF assms(1,2) this] DropObservation show ?thesis by simp
next
  case (CloneObservation h)
  with assms(3) obtain s where "map_of (observations w) h = Some s" by auto
  from observation_clone_eq [OF assms(1) this] CloneObservation show ?thesis by simp
next
  case (TryGet h)
  with assms(3) obtain s where s: "map_of (observations w) h = Some s" by auto
  then obtain sl where "heap w s = Some sl" using observed_slot [OF assms(1)] by metis
  from observation_try_get_eq [OF assms(1) s this] TryGet assms(1) show ?thesis by simp
next
  case (RegisterWaker h k)
  with assms(3) obtain s where s: "map_of (observations w) h = Some s" by auto
  then obtain sl where "heap w s = Some sl" using observed_slot [OF assms(1)] by metis
  from observation_register_waker_eq [OF assms(1) s this] RegisterWaker show ?thesis by simp
next
  case (DropFuture h)
  with assms(3) obtain fut where fut: "map_of (futures w) h = Some fut" by auto
  then obtain sl where "heap w (future_slot fut) = Some sl"
    using future_slot_heap [OF assms(1) map_of_SomeD [OF fut]] by blast
  from observation_future_drop_eq [OF assms(1,2) fut this] obtain sl' where
    "observation_future_drop sc h w = Inr (Ret Done, released sc (future_slot fut)
       (w\<lparr>heap := (heap w)(future_slot fut \<mapsto> sl'), futures := AList.delete h (futures w)\<rparr>))"
    and "wf (w\<lparr>heap := (heap w)(future_slot fut \<mapsto> sl'), futures := AList.delete h (futures w)\<rparr>)"
    by metis
  with DropFuture wf_released [OF this(2) _ assms(2), of "future_slot fut"] show ?thesis by simp
next
  case MakePair
  then show ?thesis using pair_new_eq [of w] wf_pair [OF assms(1)] by simp
next
  case (IntoFuture h)
  with assms(3) obtain s where "map_of (observations w) h = Some s" by auto
  from into_future_eq [OF assms(1) this] IntoFuture show ?thesis by simp
qed (use assms subject_ops_wf [OF assms(1,2)] space_ops_wf [OF assms(1,2)]
      observation_into_outcome_wf [OF assms(1,2)] observation_wait_wf [OF assms(1)]
      observation_future_poll_wf [OF assms(1)] in \<open>auto\<close>)

lemma reach_wf:
  assumes "arc_sound sc"
  shows "reach sc w \<Longrightarrow> wf w"
proof (induction rule: reach.induct)
  case start
  show ?case by (rule space_new_wf)
next
  case (step w op wp r w')
  then show ?case using exec_wf [OF step.IH assms step.hyps(2), of wp] by auto
qed

lemma run_reach:
  "run sc wp ops w = Inr (rs, w') \<Longrightarrow> reach sc w \<Longrightarrow> reach sc w'"
proof (induction ops arbitrary: w rs)
  case (Cons op ops)
  then obtain r w1 rs' where "owns op w" "exec sc wp op w = Inr (r, w1)"
    "run sc wp ops w1 = Inr (rs', w')"
    by (auto split: sum.splits if_splits)
  with Cons.IH Cons.prems(2) reach.step show ?case by blast
qed simp

end
