(* ===== verification/Frame.thy ===== *)
theory Frame
  imports System
begin

section \<open>What one operation does to a slot somebody reads\<close>

text \<open>
  A slot that an observation or a future holds changes its outcome only when its own publication
  authority completes it, and a direct waker registration stays until then.  No other operation of
  the program, on this slot or elsewhere, has an effect on it.
\<close>

definition value_at :: "('k, 'o) world \<Rightarrow> slot_id \<Rightarrow> 'o option" where
  "value_at w t = (case heap w t of None \<Rightarrow> None | Some sl \<Rightarrow> outcome sl)"

definition waiting_at :: "('k, 'o) world \<Rightarrow> slot_id \<Rightarrow> waiter list" where
  "waiting_at w t = (case heap w t of None \<Rightarrow> [] | Some sl \<Rightarrow> registered sl)"

text \<open>The slot and the value of the publication an operation makes, if it makes one.\<close>

fun completes :: "('k, 'o) op \<Rightarrow> ('k, 'o) world \<Rightarrow> (slot_id \<times> 'o) option" where
  "completes (Complete h v) w = (case map_of (subjects w) h of
     None \<Rightarrow> None
   | Some sub \<Rightarrow> if subject_completed sub then None else Some (subject_slot sub, v))"
| "completes (Publish h v) w = map_option (\<lambda>s. (s, v)) (map_of (publishers w) h)"
| "completes _ w = None"

definition kept :: "'o slot \<Rightarrow> 'o slot \<Rightarrow> bool" where
  "kept sl sl' \<longleftrightarrow> outcome sl' = outcome sl
     \<and> (\<forall>x. direct x (registered sl) \<longrightarrow> direct x (registered sl'))"

definition kept_at :: "('k, 'o) world \<Rightarrow> ('k, 'o) world \<Rightarrow> slot_id \<Rightarrow> bool" where
  "kept_at w w' t \<longleftrightarrow> (\<exists>sl sl'. heap w t = Some sl \<and> heap w' t = Some sl' \<and> kept sl sl')"

lemma kept_refl [simp]: "kept sl sl"
  by (simp add: kept_def)

lemma kept_at_same: "heap w' t = heap w t \<Longrightarrow> heap w t \<noteq> None \<Longrightarrow> kept_at w w' t"
  by (auto simp: kept_at_def)

lemma kept_at_upd:
  "heap w s = Some sl \<Longrightarrow> kept sl sl' \<Longrightarrow> heap w t \<noteq> None \<Longrightarrow> heap w' t = ((heap w)(s \<mapsto> sl')) t \<Longrightarrow>
   kept_at w w' t"
  by (cases "t = s") (auto simp: kept_at_def)

lemma kept_at_value: "kept_at w w' t \<Longrightarrow> value_at w' t = value_at w t"
  by (auto simp: kept_at_def kept_def value_at_def)

lemma kept_at_direct: "kept_at w w' t \<Longrightarrow> direct x (waiting_at w t) \<Longrightarrow> direct x (waiting_at w' t)"
  by (auto simp: kept_at_def kept_def waiting_at_def)

lemma reader_heap: "wf w \<Longrightarrow> t \<in> reader_slots w \<Longrightarrow> heap w t \<noteq> None"
  using ref_heap reader_refs by (metis subsetD)

lemma released_kept:
  "arc_sound sc \<Longrightarrow> t \<in># slot_refs (released sc s w) \<Longrightarrow> heap (released sc s w) t = heap w t"
  by (simp add: released_keeps)

lemma inner_released_kept:
  assumes "arc_sound sc" and "t \<in># slot_refs (inner_released sc w)"
  shows "heap (inner_released sc w) t = heap w t"
proof (cases "sc w InnerArc = 0")
  case True
  with assms have "t \<in># slot_refs (w\<lparr>inner := None\<rparr>)" by (simp add: inner_released_def)
  then show ?thesis by (rule inner_released_keeps [OF assms(1)])
qed (simp add: inner_released_def)

subsection \<open>The operations of the namespace\<close>

lemma new_generation_kept:
  assumes "wf w" and i: "inner w = Some i" and t: "t \<in> reader_slots w"
  shows "heap (new_generation key i w) t = heap w t"
proof -
  have "t \<noteq> next_slot w" using next_slot_unused(2) [OF assms(1)] reader_refs t by blast
  moreover have "t \<noteq> last (pool (entries_of i))" if "pool (entries_of i) \<noteq> []"
  proof -
    have "last (pool (entries_of i)) \<in> set (pool_of w)" using that i by (simp add: pool_of_inner)
    moreover have "set (pool_of w) \<inter> reader_slots w = {}"
      using wfD(5) [OF assms(1)] by (simp add: authority_inv_def)
    ultimately show ?thesis using t by blast
  qed
  ultimately show ?thesis by (simp add: new_generation_def acquired_def Let_def)
qed

lemma space_subject_kept:
  assumes "wf w" and "arc_sound sc" and "spaces w \<noteq> []" and t: "t \<in> reader_slots w"
    and ex: "space_subject sc key w = Inr (r, w')" and ref: "t \<in># slot_refs w'"
  shows "kept_at w w' t"
proof (rule kept_at_same)
  show "heap w t \<noteq> None" by (rule reader_heap [OF assms(1) t])
  obtain i where i: "inner w = Some i" using space_inner [OF assms(1,3)] by blast
  show "heap w' t = heap w t"
  proof (cases "sm_get key (kmap (entries_of i))")
    case (Some e)
    with space_subject_exists [OF i, of key sc] ex show ?thesis by auto
  next
    case None
    show ?thesis
    proof (cases "next_generation i = USIZE_MAX")
      case True
      with space_subject_exhausted(1) [OF assms(1,2) i None] ex
      have w': "w' = generation_exhausted sc i w" by simp
      show ?thesis
        using released_kept [OF assms(2), of t] ref unfolding w' generation_exhausted_def Let_def
        by (auto split: if_splits)
    next
      case False
      with space_subject_new [OF assms(1) i None, of sc] ex
      have "w' = new_generation key i w" by simp
      then show ?thesis using new_generation_kept [OF assms(1) i t] by simp
    qed
  qed
qed

lemma space_observe_kept:
  assumes "wf w" and "spaces w \<noteq> []" and t: "t \<in> reader_slots w"
    and ex: "space_observe key w = Inr (r, w')"
  shows "kept_at w w' t"
proof (rule kept_at_same)
  show "heap w t \<noteq> None" by (rule reader_heap [OF assms(1) t])
  show "heap w' t = heap w t"
    using ex by (auto simp: space_observe_def fresh_handle_def split: option.splits)
qed

subsection \<open>The operations of observers\<close>

lemma observation_op_kept:
  assumes "wf w" and "heap w t \<noteq> None" and h: "map_of (observations w) h = Some s"
  shows "observation_register_waker h k w = Inr (r, w') \<Longrightarrow> kept_at w w' t"
    and "observation_wait h u w = Inr (r, w') \<Longrightarrow> kept_at w w' t"
    and "observation_wait_timeout h u imax start timeout now w = Inr (r, w') \<Longrightarrow> kept_at w w' t"
    and "observation_try_get h w = Inr (r, w') \<Longrightarrow> kept_at w w' t"
proof -
  obtain sl where sl: "heap w s = Some sl" using observed_slot [OF assms(1) h] .
  have k: "kept sl (with_registry (direct_registered k (registered sl)) sl)"
    "kept sl (with_registry (push_thread u (registered sl)) sl)"
    "kept sl (with_registry (remove_thread u (push_thread u (registered sl))) sl)"
    by (simp_all add: kept_def direct_registered_simps(2))
  have same: "kept_at w w t" by (rule kept_at_same [OF refl assms(2)])
  have touch: "kept_at w (w\<lparr>heap := (heap w)(s \<mapsto> sl')\<rparr>) t" if "kept sl sl'" for sl'
    by (rule kept_at_upd [OF sl that assms(2)]) simp
  show "kept_at w w' t" if "observation_register_waker h k w = Inr (r, w')"
    using that observation_register_waker_eq(1) [OF assms(1) h sl, of k] touch [OF k(1)]
      touch [OF kept_refl] by (auto split: if_splits)
  show "kept_at w w' t" if "observation_wait h u w = Inr (r, w')"
    using that observation_wait_eq [OF assms(1) h sl, of u] touch [OF k(2)] same
    by (cases "outcome sl") auto
  show "kept_at w w' t" if "observation_wait_timeout h u imax start timeout now w = Inr (r, w')"
    using that observation_wait_timeout_eq [OF assms(1) h sl, of u imax start timeout now]
      touch [OF k(2)] touch [OF k(3)] same
    by (cases "outcome sl") (auto simp: Let_def split: if_splits)
  show "kept_at w w' t" if "observation_try_get h w = Inr (r, w')"
    using that observation_try_get_eq [OF assms(1) h sl] same by simp
qed

lemma into_outcome_kept:
  assumes "wf w" and "arc_sound sc" and "heap w t \<noteq> None" and h: "map_of (observations w) h = Some s"
    and ex: "observation_into_outcome sc h w = Inr (r, w')" and ref: "t \<in># slot_refs w'"
  shows "kept_at w w' t"
proof (rule kept_at_same [OF _ assms(3)])
  obtain sl where sl: "heap w s = Some sl" using observed_slot [OF assms(1) h] .
  let ?w1 = "w\<lparr>observations := AList.delete h (observations w)\<rparr>"
  note eq = observation_into_outcome_eq [OF assms(1) h sl, of sc]
  show "heap w' t = heap w t"
  proof (cases "sc w (SlotArc s) = 1")
    case True
    with eq ex have w': "w' = ?w1\<lparr>heap := (heap w)(s := None), moved := moved w @ cell sl\<rparr>" by simp
    have "mset (observations w) = add_mset (h, s) (mset (AList.delete h (observations w)))"
      by (rule alist_split [OF handles_distinct(6) [OF assms(1)] h])
    then have "slot_refs w = add_mset s (slot_refs ?w1)" by (simp add: slot_refs_def)
    then have "s \<notin># slot_refs ?w1" by (rule sole_owner [OF assms(2) True])
    moreover have "slot_refs w' = slot_refs ?w1" by (simp add: slot_refs_def w')
    ultimately have "t \<noteq> s" using ref by auto
    then show ?thesis by (simp add: w')
  next
    case False
    with eq ex have "w' = released sc s ?w1" by simp
    then show ?thesis using released_kept [OF assms(2)] ref by auto
  qed
qed

lemma future_poll_kept:
  assumes "wf w" and "heap w t \<noteq> None" and h: "map_of (futures w) h = Some fut"
    and ex: "observation_future_poll h k w = Inr (r, w')"
  shows "kept_at w w' t"
proof -
  obtain sl where sl: "heap w (future_slot fut) = Some sl"
    using future_slot_heap [OF assms(1) map_of_SomeD [OF h]] by blast
  have k: "kept sl (with_registry (registered sl) sl)"
    "future_registered k (registered sl) = Ret ws \<Longrightarrow> kept sl (with_registry ws sl)" for ws
    by (simp_all add: kept_def future_registered_Ret(2))
  have same: "kept_at w w t" by (rule kept_at_same [OF refl assms(2)])
  have touch: "kept_at w (w\<lparr>heap := (heap w)(future_slot fut \<mapsto> sl')\<rparr>) t"
    "kept_at w (w\<lparr>heap := (heap w)(future_slot fut \<mapsto> sl'), futures := fs\<rparr>) t" if "kept sl sl'" for sl' fs
    by (rule kept_at_upd [OF sl that assms(2)]; simp)+
  show ?thesis
    using ex future_poll_eq [OF assms(1) h sl, of k] same touch(1) [OF k(1)] touch(2) [OF k(2)]
    by (auto split: option.splits if_splits call.splits)
qed

lemma future_drop_kept:
  assumes "wf w" and "arc_sound sc" and "heap w t \<noteq> None" and h: "map_of (futures w) h = Some fut"
    and ex: "observation_future_drop sc h w = Inr (r, w')" and ref: "t \<in># slot_refs w'"
  shows "kept_at w w' t"
proof -
  obtain sl where sl: "heap w (future_slot fut) = Some sl"
    using future_slot_heap [OF assms(1) map_of_SomeD [OF h]] by blast
  from observation_future_drop_eq [OF assms(1,2) h sl] obtain sl' where
    "observation_future_drop sc h w = Inr (Ret Done, released sc (future_slot fut)
       (w\<lparr>heap := (heap w)(future_slot fut \<mapsto> sl'), futures := AList.delete h (futures w)\<rparr>))"
    and keep: "kept sl sl'" unfolding kept_def by metis
  with ex have w': "w' = released sc (future_slot fut)
       (w\<lparr>heap := (heap w)(future_slot fut \<mapsto> sl'), futures := AList.delete h (futures w)\<rparr>)" by simp
  have "heap w' t = ((heap w)(future_slot fut \<mapsto> sl')) t"
    using released_kept [OF assms(2)] ref w' by simp
  then show ?thesis by (rule kept_at_upd [OF sl keep assms(3)])
qed

subsection \<open>Any operation\<close>

lemma complete_kept:
  assumes "wf w" and "heap w t \<noteq> None" and h: "map_of (subjects w) h = Some sub"
    and ex: "subject_complete wp h v w = Inr (r, w')"
    and other: "\<And>x. completes (Complete h v) w \<noteq> Some (t, x)"
  shows "kept_at w w' t"
proof (rule kept_at_same [OF _ assms(2)])
  show "heap w' t = heap w t"
  proof (cases "subject_completed sub")
    case True
    with ex h show ?thesis by (auto simp: subject_complete_twice [OF assms(1)])
  next
    case False
    obtain sl where sl: "heap w (subject_slot sub) = Some sl"
      using subject_slot_heap [OF assms(1) map_of_SomeD [OF h]] by blast
    have "t \<noteq> subject_slot sub" using other [of v] h False by auto
    with subject_complete_eq [OF assms(1) h False sl] ex show ?thesis by auto
  qed
qed

lemma publish_kept:
  assumes "wf w" and "arc_sound sc" and "heap w t \<noteq> None" and h: "map_of (publishers w) h = Some s"
    and ex: "publisher_complete sc wp h v w = Inr (r, w')" and ref: "t \<in># slot_refs w'" and "t \<noteq> s"
  shows "kept_at w w' t"
proof (rule kept_at_same [OF _ assms(3)])
  obtain sl where sl: "heap w s = Some sl"
    using publisher_slot_heap [OF assms(1) map_of_SomeD [OF h]] by blast
  let ?w1 = "w\<lparr>heap := (heap w)(s \<mapsto> published_slot v sl), created := created w @ [v],
      publishers := AList.delete h (publishers w), woken := woken w @ map event_of (registered sl)\<rparr>"
  have "w' = released sc s ?w1"
    using publisher_complete_eq(1) [OF assms(1,2) h sl, of wp v] ex by simp
  then show "heap w' t = heap w t"
    using released_kept [OF assms(2), of t s ?w1] ref \<open>t \<noteq> s\<close> by simp
qed

lemma exec_kept:
  assumes "wf w" and "arc_sound sc" and "owns op w" and t: "t \<in> reader_slots w"
    and ex: "exec sc wp op w = Inr (r, w')" and ref: "t \<in># slot_refs w'"
    and other: "\<And>v. completes op w \<noteq> Some (t, v)"
  shows "kept_at w w' t"
proof -
  note hp = reader_heap [OF assms(1) t]
  note same = kept_at_same [OF _ hp]
  note obs = observation_op_kept [OF assms(1) hp]
  show ?thesis
  proof (cases op)
    case (MakeSubject key)
    with space_subject_kept [OF assms(1,2) _ t _ ref] assms(3) ex show ?thesis by simp
  next
    case (Observe key)
    with space_observe_kept [OF assms(1) _ t] assms(3) ex show ?thesis by simp
  next
    case CloneSpace
    with ex show ?thesis by (auto simp: space_clone_eq intro: same)
  next
    case (DropSpace h)
    with assms(3) obtain u where "map_of (spaces w) h = Some u" by auto
    with space_drop_eq(1) [OF assms(1,2) this] ex DropSpace
    have "w' = inner_released sc (w\<lparr>spaces := AList.delete h (spaces w)\<rparr>)" by simp
    with inner_released_kept [OF assms(2)] ref show ?thesis by (auto intro!: same)
  next
    case (Complete h v)
    with assms(3) obtain sub where h: "map_of (subjects w) h = Some sub" by auto
    have "subject_complete wp h v w = Inr (r, w')" "\<And>x. completes (Complete h v) w \<noteq> Some (t, x)"
      using ex other Complete by auto
    then show ?thesis by (rule complete_kept [OF assms(1) hp h])
  next
    case (DropSubject h)
    with assms(3) obtain sub where h: "map_of (subjects w) h = Some sub" by auto
    obtain i where i: "inner w = Some i" using subject_inner [OF assms(1) map_of_SomeD [OF h]] by blast
    from subject_drop_eq [OF assms(1,2) h i] ex DropSubject
    have "w' = retired sc h sub i w" by simp
    then show ?thesis by (auto simp: retired_def Let_def intro!: same)
  next
    case (DropSubjectInner h)
    with assms(3) obtain sub where h: "map_of (retiring w) h = Some sub" by auto
    from subject_drop_inner_eq(1) [OF assms(1,2) h] ex DropSubjectInner
    have "w' = inner_released sc (w\<lparr>retiring := AList.delete h (retiring w),
        dying := dying w @ [(h, subject_slot sub)]\<rparr>)" by simp
    with inner_released_kept [OF assms(2)] ref show ?thesis by (auto intro!: same)
  next
    case (DropSubjectSlot h)
    with assms(3) obtain s where h: "map_of (dying w) h = Some s" by auto
    from subject_drop_slot_eq(1) [OF assms(1,2) h] ex DropSubjectSlot
    have "w' = released sc s (w\<lparr>dying := AList.delete h (dying w)\<rparr>)" by simp
    with released_kept [OF assms(2)] ref show ?thesis by (auto intro!: same)
  next
    case MakePair
    have "t \<noteq> next_slot w" using next_slot_unused(2) [OF assms(1)] reader_refs t by blast
    with MakePair ex show ?thesis by (auto simp: pair_new_eq intro!: same)
  next
    case (Publish h v)
    with assms(3) obtain s where h: "map_of (publishers w) h = Some s" by auto
    with other [of v] Publish have "t \<noteq> s" by auto
    with publish_kept [OF assms(1,2) hp h _ ref] ex Publish show ?thesis by simp
  next
    case (DropPublisher h)
    with assms(3) obtain s where h: "map_of (publishers w) h = Some s" by auto
    from publisher_drop_eq(1) [OF assms(1,2) h] ex DropPublisher
    have "w' = released sc s (w\<lparr>publishers := AList.delete h (publishers w)\<rparr>)" by simp
    with released_kept [OF assms(2)] ref show ?thesis by (auto intro!: same)
  next
    case (CloneObservation h)
    with assms(3) obtain s where h: "map_of (observations w) h = Some s" by auto
    from observation_clone_eq(1) [OF assms(1) h] ex CloneObservation show ?thesis by (auto intro!: same)
  next
    case (DropObservation h)
    with assms(3) obtain s where h: "map_of (observations w) h = Some s" by auto
    from observation_drop_eq(1) [OF assms(1,2) h] ex DropObservation
    have "w' = released sc s (w\<lparr>observations := AList.delete h (observations w)\<rparr>)" by simp
    with released_kept [OF assms(2)] ref show ?thesis by (auto intro!: same)
  next
    case (IntoOutcome h)
    with assms(3) into_outcome_kept [OF assms(1,2) hp _ _ ref] ex show ?thesis by auto
  next
    case (IntoFuture h)
    with assms(3) obtain s where h: "map_of (observations w) h = Some s" by auto
    from into_future_eq(1) [OF assms(1) h] ex IntoFuture show ?thesis by (auto intro!: same)
  next
    case (Poll h k)
    with assms(3) future_poll_kept [OF assms(1) hp] ex show ?thesis by auto
  next
    case (DropFuture h)
    with assms(3) future_drop_kept [OF assms(1,2) hp _ _ ref] ex show ?thesis by auto
  qed (use assms(3) ex obs in \<open>auto simp del: not_None_eq\<close>)
qed

lemma exec_publishes:
  assumes "wf w" and "arc_sound sc" and ex: "exec sc wp op w = Inr (r, w')"
    and comp: "completes op w = Some (t, v)"
  obtains sl where "heap w t = Some sl" and "slot_ok sl" and "outcome sl = None"
    and "r = done_or_panic (drain_result wp (registered sl))"
    and "woken w' = woken w @ map event_of (registered sl)" and "created w' = created w @ [v]"
    and "t \<in># slot_refs w' \<Longrightarrow> heap w' t = Some (published_slot v sl)"
proof (cases op)
  case (Complete h x)
  with comp obtain sub where sub: "map_of (subjects w) h = Some sub" "\<not> subject_completed sub"
    "t = subject_slot sub" "v = x" by (auto split: option.splits if_splits)
  then obtain sl where sl: "heap w t = Some sl"
    using subject_slot_heap [OF assms(1) map_of_SomeD [OF sub(1)]] by blast
  have ok: "slot_ok sl" using heap_slot_ok [OF assms(1) sl] by simp
  have "\<not> completed sl"
    using wfD(6) [OF assms(1)] map_of_SomeD [OF sub(1)] sl sub(2,3) by (auto simp: completion_inv_def)
  then have "outcome sl = None" using slot_ok_outcome [OF ok] by simp
  with that sl ok subject_complete_eq [OF assms(1) sub(1,2), of sl wp v] ex Complete sub(3,4)
  show thesis by auto
next
  case (Publish h x)
  with comp have h: "map_of (publishers w) h = Some t" and "v = x" by auto
  then obtain sl where sl: "heap w t = Some sl"
    using publisher_slot_heap [OF assms(1) map_of_SomeD [OF h]] by blast
  have ok: "slot_ok sl" using heap_slot_ok [OF assms(1) sl] by simp
  have "\<not> completed sl"
    using wfD(6) [OF assms(1)] map_of_SomeD [OF h] sl by (auto simp: completion_inv_def)
  then have none: "outcome sl = None" using slot_ok_outcome [OF ok] by simp
  let ?w1 = "w\<lparr>heap := (heap w)(t \<mapsto> published_slot v sl), created := created w @ [v],
      publishers := AList.delete h (publishers w), woken := woken w @ map event_of (registered sl)\<rparr>"
  have w': "w' = released sc t ?w1" "r = done_or_panic (drain_result wp (registered sl))"
    using publisher_complete_eq(1) [OF assms(1,2) h sl, of wp v] ex Publish \<open>v = x\<close> by simp_all
  show thesis
  proof (rule that [OF sl ok none w'(2)])
    show "heap w' t = Some (published_slot v sl)" if "t \<in># slot_refs w'"
      using released_kept [OF assms(2), of t t ?w1] that w'(1) by simp
  qed (simp_all add: w'(1))
qed (use comp in auto)

subsection \<open>Handles across operations\<close>

text \<open>The memory operations change no handle.\<close>

definition same_handles :: "('k, 'o) world \<Rightarrow> ('k, 'o) world \<Rightarrow> bool" where
  "same_handles w w' \<longleftrightarrow> spaces w' = spaces w \<and> subjects w' = subjects w \<and> retiring w' = retiring w
     \<and> dying w' = dying w \<and> publishers w' = publishers w \<and> observations w' = observations w
     \<and> futures w' = futures w \<and> next_handle w' = next_handle w"

lemma on_slot_handles: "on_slot s f w = Inr (r, w') \<Longrightarrow> same_handles w w'"
  by (auto simp: on_slot_def same_handles_def split: option.splits sum.splits)

lemma release_handles: "release sc s w = Inr w' \<Longrightarrow> same_handles w w'"
  by (auto simp: release_def free_slot_def same_handles_def split: option.splits sum.splits call.splits if_splits)

lemma release_all_handles: "release_all sc ss w = Inr w' \<Longrightarrow> same_handles w w'"
proof (induction ss arbitrary: w)
  case (Cons s ss)
  then obtain w1 where "release sc s w = Inr w1" "release_all sc ss w1 = Inr w'"
    by (auto split: sum.splits)
  with Cons.IH release_handles show ?case by (force simp: same_handles_def)
qed (simp add: same_handles_def)

lemma release_inner_handles: "release_inner sc w = Inr w' \<Longrightarrow> same_handles w w'"
  by (auto simp: release_inner_def same_handles_def split: option.splits if_splits
      dest: release_all_handles [unfolded same_handles_def])

lemma acquire_slotE:
  assumes "acquire_slot sc p w = Inr (s, w')"
  obtains (fresh) "p = None" "(s, w') = alloc_slot w"
  | (recycled) f and r :: "unit call" and ds w1 where "p = Some s" "on_slot s f w = Inr ((r, ds), w1)" "w' = w1\<lparr>dropped := dropped w1 @ ds\<rparr>"
proof (cases p)
  case None
  with assms fresh show ?thesis by (simp add: acquire_slot_def)
next
  case (Some x)
  with assms recycled show ?thesis by (auto simp: acquire_slot_def split: sum.splits call.splits)
qed

lemma acquire_slot_handles: "acquire_slot sc p w = Inr (s, w') \<Longrightarrow> same_handles w w'"
  by (erule acquire_slotE) (auto simp: alloc_slot_def same_handles_def dest: on_slot_handles [unfolded same_handles_def])

lemma publish_handles: "publish wp s v w = Inr (r, w') \<Longrightarrow> same_handles w w'"
  by (auto simp: publish_def same_handles_def split: sum.splits
      dest: on_slot_handles [unfolded same_handles_def])

lemmas handle_frames = on_slot_handles release_handles release_inner_handles acquire_slot_handles
  publish_handles

lemmas op_defs = space_subject_def space_observe_def space_clone_def space_drop_def subject_complete_def
  subject_drop_def subject_drop_inner_def subject_drop_slot_def pair_new_def publisher_complete_def
  publisher_drop_def observation_clone_def observation_drop_def observation_try_get_def
  observation_into_outcome_def observation_register_waker_def observation_wait_def
  observation_wait_timeout_def into_future_def observation_future_poll_def observation_future_drop_def

text \<open>The operations that take an observation by value.\<close>

fun consumes :: "('k, 'o) op \<Rightarrow> handle \<Rightarrow> bool" where
  "consumes (DropObservation h) h' = (h' = h)"
| "consumes (IntoOutcome h) h' = (h' = h)"
| "consumes (IntoFuture h) h' = (h' = h)"
| "consumes _ h' = False"

lemma space_subject_handles:
  "space_subject sc key w = Inr (r, w') \<Longrightarrow>
   observations w' = observations w \<and> publishers w' = publishers w \<and> futures w' = futures w
   \<and> (\<exists>new. subjects w' = subjects w @ new)"
  by (auto simp: space_subject_def Let_def fresh_handle_def alloc_slot_def
      split: option.splits sum.splits prod.splits if_splits
      dest!: handle_frames [unfolded same_handles_def])

lemma subject_drop_handles:
  "subject_drop sc h w = Inr (r, w') \<Longrightarrow>
   observations w' = observations w \<and> publishers w' = publishers w \<and> futures w' = futures w
   \<and> subjects w' = AList.delete h (subjects w)"
  by (auto simp: subject_drop_def Let_def
      split: option.splits sum.splits prod.splits if_splits
      dest!: handle_frames [unfolded same_handles_def])

lemma exec_keeps_observation:
  assumes "exec sc wp op w = Inr (r, w')" and "\<not> consumes op h" and "map_of (observations w) h = Some s"
  shows "map_of (observations w') h = Some s"
proof (cases op)
  case (MakeSubject key)
  with assms show ?thesis by (auto dest: space_subject_handles)
next
  case (DropSubject g)
  with assms show ?thesis by (auto dest: subject_drop_handles)
qed (use assms in \<open>auto simp: op_defs fresh_handle_def alloc_slot_def Let_def map_add_def
      AList.delete_conv' split: option.splits sum.splits prod.splits if_splits call.splits
      dest!: handle_frames [unfolded same_handles_def]\<close>)

subsection \<open>Publication authority\<close>

text \<open>Somebody can still publish on the slot.\<close>

definition authority :: "('k, 'o) world \<Rightarrow> slot_id \<Rightarrow> bool" where
  "authority w t \<longleftrightarrow>
     (\<exists>h sub. (h, sub) \<in> set (subjects w) \<and> subject_slot sub = t \<and> \<not> subject_completed sub)
     \<or> (\<exists>h. (h, t) \<in> set (publishers w))"

lemma authority_mono:
  "set (subjects w') \<subseteq> set (subjects w) \<Longrightarrow> set (publishers w') \<subseteq> set (publishers w) \<Longrightarrow>
   authority w' t \<Longrightarrow> authority w t"
  by (auto simp: authority_def)

lemma new_generation_authority:
  assumes "wf w" and i: "inner w = Some i" and t: "t \<in> reader_slots w"
    and auth: "authority (new_generation key i w) t"
  shows "authority w t"
proof -
  have "t \<noteq> next_slot w" using next_slot_unused(2) [OF assms(1)] reader_refs t by blast
  moreover have "t \<noteq> last (pool (entries_of i))" if "pool (entries_of i) \<noteq> []"
  proof -
    have "last (pool (entries_of i)) \<in> set (pool_of w)" using that i by (simp add: pool_of_inner)
    moreover have "set (pool_of w) \<inter> reader_slots w = {}"
      using wfD(5) [OF assms(1)] by (simp add: authority_inv_def)
    ultimately show ?thesis using t by blast
  qed
  ultimately show ?thesis
    using auth
    by (cases "pool (entries_of i) = []") (auto simp: authority_def new_generation_def acquired_def Let_def)
qed

lemma complete_authority:
  assumes "wf w" and h: "map_of (subjects w) h = Some sub"
    and ex: "subject_complete wp h v w = Inr (r, w')" and auth: "authority w' t"
  shows "authority w t"
proof (cases "subject_completed sub")
  case True
  with ex h auth show ?thesis by (auto simp: subject_complete_twice [OF assms(1)] authority_def)
next
  case False
  obtain sl where sl: "heap w (subject_slot sub) = Some sl"
    using subject_slot_heap [OF assms(1) map_of_SomeD [OF h]] by blast
  note w' = subject_complete_eq [OF assms(1) h False sl, of wp v]
  have subs: "subjects w' = AList.update h (sub\<lparr>subject_completed := True\<rparr>) (subjects w)"
    and pubs: "publishers w' = publishers w" using w' ex by auto
  show ?thesis
    using auth set_update [OF handles_distinct(2) [OF assms(1)]]
    unfolding authority_def subs pubs by (auto split: if_splits)
qed

lemma exec_authority:
  assumes "wf w" and "arc_sound sc" and "owns op w" and t: "t \<in> reader_slots w"
    and ex: "exec sc wp op w = Inr (r, w')" and auth: "authority w' t"
  shows "authority w t"
proof (cases op)
  case (MakeSubject key)
  with assms(3) obtain i where i: "inner w = Some i" using space_inner [OF assms(1)] by auto
  show ?thesis
  proof (cases "sm_get key (kmap (entries_of i)) = None \<and> next_generation i \<noteq> USIZE_MAX")
    case True
    with space_subject_new [OF assms(1) i, of key sc] ex MakeSubject
    have "w' = new_generation key i w" by simp
    with new_generation_authority [OF assms(1) i t] auth show ?thesis by simp
  next
    case False
    have "subjects w' = subjects w \<and> publishers w' = publishers w"
    proof (cases "sm_get key (kmap (entries_of i)) = None")
      case none: True
      with False space_subject_exhausted(1) [OF assms(1,2) i none] ex MakeSubject
      have "w' = generation_exhausted sc i w" by simp
      then show ?thesis by (simp add: generation_exhausted_def Let_def)
    next
      case False
      with space_subject_exists [OF i, of key sc] ex MakeSubject show ?thesis by auto
    qed
    with auth show ?thesis by (simp add: authority_def)
  qed
next
  case (Complete h v)
  with assms(3) complete_authority [OF assms(1) _ _ auth] ex show ?thesis by auto
next
  case MakePair
  have "t \<noteq> next_slot w" using next_slot_unused(2) [OF assms(1)] reader_refs t by blast
  with MakePair ex auth show ?thesis by (auto simp: pair_new_eq authority_def)
next
  case (DropSubject h)
  with ex have "subjects w' = AList.delete h (subjects w)" "publishers w' = publishers w"
    by (auto dest: subject_drop_handles)
  then show ?thesis by (intro authority_mono [OF _ _ auth]) (simp_all add: set_delete_subset)
qed (use ex in \<open>auto simp: op_defs fresh_handle_def Let_def split: option.splits sum.splits
      prod.splits if_splits call.splits intro!: authority_mono [OF _ _ auth]
      dest!: handle_frames [unfolded same_handles_def] dest: in_deleteD\<close>)

end
