(* ===== verification/Leak.thy ===== *)
theory Leak
  imports Frame
begin

section \<open>Nothing leaks\<close>

text \<open>
  When the \<open>Arc\<close> count is exact (no other thread is in the middle of dropping a handle), a slot is
  allocated only while some handle points to it, and the namespace only while it has a handle.
\<close>

text \<open>A state in which only the slots of \<open>S\<close> may be without a handle.\<close>

definition tight_but :: "slot_id set \<Rightarrow> ('k, 'o) world \<Rightarrow> bool" where
  "tight_but S w \<longleftrightarrow> (\<forall>s. heap w s \<noteq> None \<longrightarrow> s \<notin> S \<longrightarrow> s \<in># slot_refs w)"

definition inner_held :: "('k, 'o) world \<Rightarrow> bool" where
  "inner_held w \<longleftrightarrow> (inner w \<noteq> None \<longrightarrow> spaces w \<noteq> [] \<or> subjects w \<noteq> [] \<or> retiring w \<noteq> [])"

definition tight :: "('k, 'o) world \<Rightarrow> bool" where
  "tight w \<longleftrightarrow> tight_but {} w \<and> inner_held w"

lemma released_tight_but:
  assumes "arc_exact sc" and "tight_but (insert s S) w"
  shows "tight_but S (released sc s w)"
proof -
  have "sc w (SlotArc s) = count (slot_refs w) s" using assms(1) by (simp add: arc_exact_def)
  with assms(2) show ?thesis
    by (auto simp: tight_but_def released_def not_in_iff slot_refs_def split: if_splits)
qed

lemma fold_released_tight_but:
  "arc_exact sc \<Longrightarrow> tight_but (set ss \<union> S) w \<Longrightarrow> tight_but S (fold (released sc) ss w)"
proof (induction ss arbitrary: w)
  case (Cons s ss)
  have "tight_but (set ss \<union> S) (released sc s w)"
    by (rule released_tight_but [OF Cons.prems(1)]) (use Cons.prems(2) in simp)
  with Cons.IH Cons.prems(1) show ?case by simp
qed simp

lemma released_tight:
  assumes "arc_exact sc" and "tight_but {s} w" and "inner_held w"
  shows "tight (released sc s w)"
  using released_tight_but [OF assms(1,2)] assms(3) by (simp add: tight_def inner_held_def)

lemma inner_released_tight:
  assumes "arc_exact sc" and "wf w" and "tight_but {} w"
  shows "tight (inner_released sc w)"
proof -
  have count: "sc w InnerArc = length (spaces w) + length (subjects w) + length (retiring w)"
    using assms(1) by (simp add: arc_exact_def)
  show ?thesis
  proof (cases "sc w InnerArc = 0")
    case True
    have "table_refs (inner w) = mset (pool_of w)"
      using wfD(4) [OF assms(2)] count True
      by (auto simp: table_refs_def pool_of_def table_inv_def split: option.splits)
    then have "slot_refs w = slot_refs (w\<lparr>inner := None\<rparr>) + mset (pool_of w)"
      by (simp add: slot_refs_def table_refs_def)
    then have "tight_but (set (pool_of w) \<union> {}) (w\<lparr>inner := None\<rparr>)"
      using assms(3) by (auto simp: tight_but_def)
    then have "tight_but {} (fold (released sc) (pool_of w) (w\<lparr>inner := None\<rparr>))"
      by (rule fold_released_tight_but [OF assms(1)])
    with True show ?thesis by (simp add: tight_def inner_released_def inner_held_def)
  next
    case False
    with assms(3) count show ?thesis by (auto simp: tight_def inner_released_def inner_held_def)
  qed
qed

text \<open>Letting go of one handle to \<open>s\<close>.\<close>

lemma tight_but_less:
  assumes "tight w" and "\<And>t. heap w' t \<noteq> None \<Longrightarrow> heap w t \<noteq> None"
    and "slot_refs w \<subseteq># add_mset s (slot_refs w')"
  shows "tight_but {s} w'"
proof -
  have "set_mset (slot_refs w) \<subseteq> insert s (set_mset (slot_refs w'))"
    using set_mset_mono [OF assms(3)] by simp
  with assms(1,2) show ?thesis by (fastforce simp: tight_def tight_but_def)
qed

lemma tight_same:
  assumes "tight w" and "\<And>t. heap w' t \<noteq> None \<Longrightarrow> heap w t \<noteq> None"
    and "slot_refs w \<subseteq># slot_refs w'" and "inner_held w'"
  shows "tight w'"
  using assms set_mset_mono [OF assms(3)] by (auto simp: tight_def tight_but_def)

lemma new_generation_tight:
  assumes "wf w" and i: "inner w = Some i" and vacant: "sm_get key (kmap (entries_of i)) = None" and "tight w"
  shows "tight (new_generation key i w)"
proof -
  let ?es = "entries_of i"
  have wfm: "sm_wf (kmap ?es)" using wfD(4) [OF assms(1)] i by (auto simp: table_inv_def)
  note cont = table.content_insert [OF wfm vacant]
  have refs: "set_mset (slot_refs w) \<union> {fst (acquired (pool ?es) w)} \<subseteq> set_mset (slot_refs (new_generation key i w))"
  proof (cases "pool ?es = []")
    case True
    then show ?thesis using cont i
      by (auto simp: new_generation_def acquired_def slot_refs_def table_refs_def)
  next
    case False
    have "set (pool ?es) = insert (last (pool ?es)) (set (butlast (pool ?es)))"
      using False by (cases "pool ?es" rule: rev_cases) auto
    with False cont i show ?thesis
      by (auto simp: new_generation_def acquired_def slot_refs_def table_refs_def)
  qed
  have "heap w t \<noteq> None \<or> t = fst (acquired (pool ?es) w)"
    if "heap (new_generation key i w) t \<noteq> None" for t
    using that by (cases "pool ?es = []") (auto simp: new_generation_def acquired_def split: if_splits)
  with refs assms(4) have "tight_but {} (new_generation key i w)"
    by (fastforce simp: tight_def tight_but_def)
  moreover have "inner_held (new_generation key i w)"
    by (cases "pool ?es = []") (simp_all add: inner_held_def new_generation_def acquired_def)
  ultimately show ?thesis by (simp add: tight_def)
qed

lemma space_subject_tight:
  assumes "wf w" and "arc_exact sc" and "spaces w \<noteq> []" and "tight w"
    and ex: "space_subject sc key w = Inr (r, w')"
  shows "tight w'"
proof -
  note sound = arc_exact_sound [OF assms(2)]
  obtain i where i: "inner w = Some i" using space_inner [OF assms(1,3)] by blast
  show ?thesis
  proof (cases "sm_get key (kmap (entries_of i))")
    case (Some e)
    with space_subject_exists [OF i, of key sc] ex assms(4) show ?thesis by auto
  next
    case None
    show ?thesis
    proof (cases "next_generation i = USIZE_MAX")
      case True
      let ?pl = "pool (entries_of i)"
      let ?w1 = "w\<lparr>inner := Some (i\<lparr>next_generation := 0, entries_of := (entries_of i)\<lparr>pool := butlast ?pl\<rparr>\<rparr>)\<rparr>"
      from True space_subject_exhausted(1) [OF assms(1) sound i None] ex
      have w': "w' = generation_exhausted sc i w" by simp
      have held: "inner_held ?w1" using assms(3) by (simp add: inner_held_def)
      show ?thesis
      proof (cases "?pl = []")
        case True
        then have "w' = ?w1" using w' by (simp add: generation_exhausted_def)
        moreover have "slot_refs w = slot_refs ?w1" using i True by (simp add: slot_refs_def table_refs_def)
        ultimately show ?thesis using held by (auto intro!: tight_same [OF assms(4)])
      next
        case False
        then have "mset ?pl = add_mset (last ?pl) (mset (butlast ?pl))"
          by (cases ?pl rule: rev_cases) auto
        then have "slot_refs w = add_mset (last ?pl) (slot_refs ?w1)"
          using i by (simp add: slot_refs_def table_refs_def)
        then have "tight_but {last ?pl} ?w1" by (intro tight_but_less [OF assms(4)]) simp_all
        from released_tight [OF assms(2) this held] False w' show ?thesis
          by (simp add: generation_exhausted_def Let_def)
      qed
    next
      case False
      with space_subject_new [OF assms(1) i None, of sc] ex
      have "w' = new_generation key i w" by simp
      then show ?thesis using new_generation_tight [OF assms(1) i None assms(4)] by simp
    qed
  qed
qed

lemma retired_tight:
  assumes "wf w" and "arc_exact sc" and h: "map_of (subjects w) h = Some sub" and i: "inner w = Some i"
    and "tight w"
  shows "tight (retired sc h sub i w)"
proof -
  let ?es = "entries_of i" and ?w = "retired sc h sub i w"
  let ?km = "snd (remove_if (subject_key sub) (subject_generation sub) (kmap ?es))"
  have mem: "(h, sub) \<in> set (subjects w)" using h by (rule map_of_SomeD)
  have t: "sm_wf (kmap ?es)" using wfD(4) [OF assms(1)] i by (auto simp: table_inv_def)
  note rem = sm_remove_hit [OF t subject_entry [OF assms(1) i mem], of "subject_generation sub", simplified]
  have subs: "mset (subjects w) = add_mset (h, sub) (mset (AList.delete h (subjects w)))"
    by (rule alist_split [OF handles_distinct(2) [OF assms(1)] h])
  have km: "image_mset (entry_slot \<circ> snd) (mset (sm_entries (kmap ?es)))
      = add_mset (subject_slot sub) (image_mset (entry_slot \<circ> snd) (mset (sm_entries ?km)))"
    using arg_cong [OF rem(2), of "image_mset (entry_slot \<circ> snd)"] by simp
  have "slot_refs w \<subseteq># add_mset (subject_slot sub) (slot_refs ?w)"
    using km i unfolding slot_refs_def table_refs_def retired_def Let_def subs by simp
  then have "tight_but {subject_slot sub} ?w"
    by (intro tight_but_less [OF assms(5)]) (simp_all add: retired_def Let_def)
  moreover have "subject_slot sub \<in># slot_refs ?w"
    by (simp add: slot_refs_def retired_def Let_def)
  moreover have "inner_held ?w" by (simp add: retired_def Let_def inner_held_def)
  ultimately show ?thesis by (auto simp: tight_def tight_but_def)
qed

text \<open>One handle of a kind goes away, and the slot with it when it was the last.\<close>

lemma drop_tight:
  assumes "arc_exact sc" and "tight w" and "\<And>t. heap w1 t \<noteq> None \<Longrightarrow> heap w t \<noteq> None"
    and "slot_refs w = add_mset s (slot_refs w1)" and "inner_held w1"
  shows "tight (released sc s w1)"
  using assms by (intro released_tight tight_but_less [OF assms(2)]) simp_all

lemma touch_tight:
  assumes "tight w" and "heap w s \<noteq> None" and "slot_refs w' = slot_refs w" and "inner_held w'"
    and "heap w' = (heap w)(s \<mapsto> sl)"
  shows "tight w'"
  by (rule tight_same [OF assms(1)]) (use assms in \<open>auto split: if_splits\<close>)

lemma inner_held_cong:
  "tight w \<Longrightarrow> inner w' = inner w \<Longrightarrow> spaces w' = spaces w \<Longrightarrow> subjects w' = subjects w \<Longrightarrow>
   retiring w' = retiring w \<Longrightarrow> inner_held w'"
  by (simp add: tight_def inner_held_def)

lemma complete_tight:
  assumes "wf w" and h: "map_of (subjects w) h = Some sub" and "tight w"
    and ex: "subject_complete wp h v w = Inr (r, w')"
  shows "tight w'"
proof (cases "subject_completed sub")
  case True
  with h ex have "w' = w\<lparr>created := created w @ [v], dropped := dropped w @ [v]\<rparr>"
    by (simp add: subject_complete_twice [OF assms(1)])
  then show ?thesis
    by (intro tight_same [OF assms(3)]) (use assms(3) in \<open>auto simp: slot_refs_def tight_def inner_held_def\<close>)
next
  case False
  obtain sl where sl: "heap w (subject_slot sub) = Some sl"
    using subject_slot_heap [OF assms(1) map_of_SomeD [OF h]] by blast
  let ?sub = "sub\<lparr>subject_completed := True\<rparr>"
  have "mset (map (subject_slot \<circ> snd) (AList.update h ?sub (subjects w)))
      = mset (map (subject_slot \<circ> snd) (subjects w))"
    by (rule arg_cong [where f = mset], rule map_update_same [OF h]) simp
  then have "slot_refs w' = slot_refs w"
    using subject_complete_eq [OF assms(1) h False sl, of wp v] ex by (auto simp: slot_refs_def)
  moreover have "inner_held w'"
    using subject_complete_eq [OF assms(1) h False sl, of wp v] ex map_of_not_Nil [OF h] assms(3)
    by (auto simp: inner_held_def tight_def)
  moreover have "heap w' = (heap w)(subject_slot sub \<mapsto> published_slot v sl)"
    using subject_complete_eq [OF assms(1) h False sl, of wp v] ex by auto
  ultimately show ?thesis by (intro touch_tight [OF assms(3)]) (simp_all add: sl)
qed

lemma publish_tight:
  assumes "wf w" and "arc_exact sc" and h: "map_of (publishers w) h = Some s" and "tight w"
    and ex: "publisher_complete sc wp h v w = Inr (r, w')"
  shows "tight w'"
proof -
  obtain sl where sl: "heap w s = Some sl"
    using publisher_slot_heap [OF assms(1) map_of_SomeD [OF h]] by blast
  let ?w1 = "w\<lparr>heap := (heap w)(s \<mapsto> published_slot v sl), created := created w @ [v],
      publishers := AList.delete h (publishers w), woken := woken w @ map event_of (registered sl)\<rparr>"
  have "w' = released sc s ?w1"
    using publisher_complete_eq(1) [OF assms(1) arc_exact_sound [OF assms(2)] h sl, of wp v] ex by simp
  moreover have "mset (publishers w) = add_mset (h, s) (mset (AList.delete h (publishers w)))"
    by (rule alist_split [OF handles_distinct(5) [OF assms(1)] h])
  then have "slot_refs w = add_mset s (slot_refs ?w1)" by (simp add: slot_refs_def)
  moreover have "inner_held ?w1" by (rule inner_held_cong [OF assms(4)]) simp_all
  ultimately show ?thesis
    using drop_tight [OF assms(2,4), of ?w1 s] sl by (auto split: if_splits)
qed

lemma into_outcome_tight:
  assumes "wf w" and "arc_exact sc" and h: "map_of (observations w) h = Some s" and "tight w"
    and ex: "observation_into_outcome sc h w = Inr (r, w')"
  shows "tight w'"
proof -
  obtain sl where sl: "heap w s = Some sl" using observed_slot [OF assms(1) h] .
  let ?w1 = "w\<lparr>observations := AList.delete h (observations w)\<rparr>"
  note eq = observation_into_outcome_eq [OF assms(1) h sl, of sc]
  have "mset (observations w) = add_mset (h, s) (mset (AList.delete h (observations w)))"
    by (rule alist_split [OF handles_distinct(6) [OF assms(1)] h])
  then have refs: "slot_refs w = add_mset s (slot_refs ?w1)" by (simp add: slot_refs_def)
  have held: "inner_held ?w1" by (rule inner_held_cong [OF assms(4)]) simp_all
  show ?thesis
  proof (cases "sc w (SlotArc s) = 1")
    case True
    with eq ex have w': "w' = ?w1\<lparr>heap := (heap w)(s := None), moved := moved w @ cell sl\<rparr>" by simp
    have "slot_refs w' = slot_refs ?w1" by (simp add: w' slot_refs_def)
    with refs have "tight_but {s} w'" by (intro tight_but_less [OF assms(4)]) (auto simp: w' split: if_splits)
    then have "tight_but {} w'" by (auto simp: tight_but_def w')
    with held show ?thesis by (simp add: tight_def w' inner_held_def)
  next
    case False
    with eq ex have "w' = released sc s ?w1" by simp
    with drop_tight [OF assms(2,4) _ refs held] show ?thesis by simp
  qed
qed

lemma handles_tight:
  assumes "tight w" and "same_handles w w'" and "inner w' = inner w"
    and "\<And>t. heap w' t \<noteq> None \<Longrightarrow> heap w t \<noteq> None"
  shows "tight w'"
proof (rule tight_same [OF assms(1,4)])
  show "slot_refs w \<subseteq># slot_refs w'" using assms(2,3) by (simp add: slot_refs_def same_handles_def)
  show "inner_held w'" using assms by (simp add: inner_held_def tight_def same_handles_def)
qed

lemma on_slot_tight:
  assumes "on_slot s f w = Inr (r, w')" and "tight w"
  shows "tight w'"
proof (rule handles_tight [OF assms(2) on_slot_handles [OF assms(1)]])
  show "inner w' = inner w" using assms(1) by (auto simp: on_slot_def split: option.splits sum.splits)
  show "heap w t \<noteq> None" if "heap w' t \<noteq> None" for t
    using assms(1) that by (auto simp: on_slot_def split: option.splits sum.splits if_splits)
qed

lemma observation_op_tight:
  assumes "tight w"
  shows "observation_register_waker h k w = Inr (r, w') \<Longrightarrow> tight w'"
    and "observation_wait h u w = Inr (r, w') \<Longrightarrow> tight w'"
    and "observation_wait_timeout h u imax start timeout now w = Inr (r, w') \<Longrightarrow> tight w'"
    and "observation_try_get h w = Inr (r, w') \<Longrightarrow> tight w'"
  using assms
  by (auto simp: observation_register_waker_def observation_wait_def observation_wait_timeout_def
      observation_try_get_def split: option.splits sum.splits call.splits dest: on_slot_tight)

lemma future_poll_tight:
  assumes "tight w" and h: "map_of (futures w) h = Some fut"
    and ex: "observation_future_poll h k w = Inr (r, w')"
  shows "tight w'"
proof -
  let ?f = "\<lambda>sl. case future_poll k (future_wakers fut) sl of
      Inl f \<Rightarrow> Inl f | Inr (r, mine, sl') \<Rightarrow> Inr ((r, mine), sl')"
  obtain p mine w1 where on: "on_slot (future_slot fut) ?f w = Inr ((p, mine), w1)"
    and w': "w' = w1\<lparr>futures := AList.update h (fut\<lparr>future_wakers := mine\<rparr>) (futures w1)\<rparr>"
    using ex h by (auto simp: observation_future_poll_def split: sum.splits)
  have fs: "futures w1 = futures w" using on_slot_handles [OF on] by (simp add: same_handles_def)
  have "mset (map (future_slot \<circ> snd) (AList.update h (fut\<lparr>future_wakers := mine\<rparr>) (futures w1)))
      = mset (map (future_slot \<circ> snd) (futures w1))"
    unfolding fs by (rule arg_cong [where f = mset], rule map_update_same [OF h]) simp
  then have "slot_refs w' = slot_refs w1" by (simp add: slot_refs_def w')
  moreover have "tight w1" by (rule on_slot_tight [OF on assms(1)])
  ultimately show ?thesis by (simp add: tight_def tight_but_def inner_held_def w')
qed

lemma drop_space_tight:
  assumes "wf w" and "arc_exact sc" and h: "map_of (spaces w) h = Some u" and "tight w"
    and ex: "space_drop sc h w = Inr (r, w')"
  shows "tight w'"
proof -
  let ?w1 = "w\<lparr>spaces := AList.delete h (spaces w)\<rparr>"
  have "w' = inner_released sc ?w1" using space_drop_eq(1) [OF assms(1) arc_exact_sound [OF assms(2)] h] ex by simp
  moreover have "wf ?w1" by (rule wf_shrink [OF assms(1)]) (simp_all add: delete_subset_mset)
  moreover have "tight_but {} ?w1" using assms(4) by (simp add: tight_def tight_but_def slot_refs_def)
  ultimately show ?thesis using inner_released_tight [OF assms(2)] by blast
qed

lemma drop_subject_inner_tight:
  assumes "wf w" and "arc_exact sc" and h: "map_of (retiring w) h = Some sub" and "tight w"
    and ex: "subject_drop_inner sc h w = Inr (r, w')"
  shows "tight w'"
proof -
  let ?w1 = "w\<lparr>retiring := AList.delete h (retiring w), dying := dying w @ [(h, subject_slot sub)]\<rparr>"
  have w': "w' = inner_released sc ?w1"
    using subject_drop_inner_eq(1) [OF assms(1) arc_exact_sound [OF assms(2)] h] ex by simp
  have "slot_refs ?w1 = slot_refs w"
    using alist_split [OF handles_distinct(3) [OF assms(1)] h] by (simp add: slot_refs_def)
  then have "tight_but {} ?w1" using assms(4) by (simp add: tight_def tight_but_def)
  with inner_released_tight [OF assms(2) wf_dying [OF assms(1) h]] w' show ?thesis by simp
qed

lemma make_pair_tight:
  assumes "tight w" and ex: "pair_new w = Inr (r, w')"
  shows "tight w'"
proof -
  from ex have w': "w' = w\<lparr>heap := (heap w)(next_slot w \<mapsto> slot_new), next_slot := next_slot w + 1,
     next_handle := next_handle w + 2,
     publishers := publishers w @ [(next_handle w, next_slot w)],
     observations := observations w @ [(next_handle w + 1, next_slot w)]\<rparr>" by (simp add: pair_new_eq)
  have "slot_refs w' = slot_refs w + {#next_slot w, next_slot w#}" by (simp add: w' slot_refs_def)
  moreover have "inner_held w'" by (rule inner_held_cong [OF assms(1)]) (simp_all add: w')
  ultimately show ?thesis using assms(1) by (auto simp: tight_def tight_but_def w')
qed

lemma into_future_tight:
  assumes "wf w" and h: "map_of (observations w) h = Some s" and "tight w" and ex: "into_future h w = Inr (r, w')"
  shows "tight w'"
proof -
  let ?w1 = "w\<lparr>observations := AList.delete h (observations w),
      futures := futures w @ [(h, \<lparr>future_slot = s, future_wakers = []\<rparr>)]\<rparr>"
  have "w' = ?w1" using into_future_eq(1) [OF assms(1) h] ex by simp
  moreover have "slot_refs ?w1 = slot_refs w"
    using alist_split [OF handles_distinct(6) [OF assms(1)] h] by (simp add: slot_refs_def)
  ultimately show ?thesis using assms(3) by (simp add: tight_def tight_but_def inner_held_def)
qed

lemma drop_future_tight:
  assumes "wf w" and "arc_exact sc" and h: "map_of (futures w) h = Some fut" and "tight w"
    and ex: "observation_future_drop sc h w = Inr (r, w')"
  shows "tight w'"
proof -
  obtain sl where sl: "heap w (future_slot fut) = Some sl"
    using future_slot_heap [OF assms(1) map_of_SomeD [OF h]] by blast
  from observation_future_drop_eq [OF assms(1) arc_exact_sound [OF assms(2)] h sl] obtain sl' where
    "observation_future_drop sc h w = Inr (Ret Done, released sc (future_slot fut)
     (w\<lparr>heap := (heap w)(future_slot fut \<mapsto> sl'), futures := AList.delete h (futures w)\<rparr>))" by metis
  with ex have "w' = released sc (future_slot fut)
     (w\<lparr>heap := (heap w)(future_slot fut \<mapsto> sl'), futures := AList.delete h (futures w)\<rparr>)" by simp
  with alist_split [OF handles_distinct(7) [OF assms(1)] h] sl show ?thesis
    by (auto intro!: drop_tight [OF assms(2,4)] inner_held_cong [OF assms(4)] simp: slot_refs_def split: if_splits)
qed

lemma exec_tight:
  assumes "wf w" and "arc_exact sc" and "owns op w" and "tight w"
    and ex: "exec sc wp op w = Inr (r, w')"
  shows "tight w'"
proof -
  note sound = arc_exact_sound [OF assms(2)]
  note drop = drop_tight [OF assms(2,4)]
  note held = inner_held_cong [OF assms(4)]
  show ?thesis
  proof (cases op)
    case (MakeSubject key)
    with space_subject_tight [OF assms(1,2) _ assms(4)] assms(3) ex show ?thesis by simp
  next
    case (Observe key)
    with ex assms(4) show ?thesis
      by (auto simp: space_observe_def fresh_handle_def split: option.splits
          intro!: tight_same [OF assms(4)] held) (auto simp: slot_refs_def)
  next
    case CloneSpace
    with ex have "w' = w\<lparr>next_handle := next_handle w + 1, spaces := spaces w @ [(next_handle w, ())]\<rparr>"
      by (simp add: space_clone_eq)
    then show ?thesis
      by (intro tight_same [OF assms(4)]) (auto simp: slot_refs_def inner_held_def)
  next
    case (DropSpace h)
    with assms(3) drop_space_tight [OF assms(1,2) _ assms(4)] ex show ?thesis by auto
  next
    case (Complete h v)
    with assms(3) complete_tight [OF assms(1) _ assms(4)] ex show ?thesis by auto
  next
    case (DropSubject h)
    with assms(3) obtain sub where h: "map_of (subjects w) h = Some sub" by auto
    obtain i where i: "inner w = Some i" using subject_inner [OF assms(1) map_of_SomeD [OF h]] by blast
    from subject_drop_eq [OF assms(1) sound h i] ex DropSubject
    have "w' = retired sc h sub i w" by simp
    with retired_tight [OF assms(1,2) h i assms(4)] show ?thesis by simp
  next
    case (DropSubjectInner h)
    with assms(3) drop_subject_inner_tight [OF assms(1,2) _ assms(4)] ex show ?thesis by auto
  next
    case (DropSubjectSlot h)
    with assms(3) obtain s where h: "map_of (dying w) h = Some s" by auto
    from subject_drop_slot_eq(1) [OF assms(1) sound h] ex DropSubjectSlot
    have "w' = released sc s (w\<lparr>dying := AList.delete h (dying w)\<rparr>)" by simp
    with alist_split [OF handles_distinct(4) [OF assms(1)] h] show ?thesis
      by (auto intro!: drop held simp: slot_refs_def)
  next
    case MakePair
    with make_pair_tight [OF assms(4)] ex show ?thesis by simp
  next
    case (Publish h v)
    with assms(3) publish_tight [OF assms(1,2) _ assms(4)] ex show ?thesis by auto
  next
    case (DropPublisher h)
    with assms(3) obtain s where h: "map_of (publishers w) h = Some s" by auto
    from publisher_drop_eq(1) [OF assms(1) sound h] ex DropPublisher
    have "w' = released sc s (w\<lparr>publishers := AList.delete h (publishers w)\<rparr>)" by simp
    with alist_split [OF handles_distinct(5) [OF assms(1)] h] show ?thesis
      by (auto intro!: drop held simp: slot_refs_def)
  next
    case (CloneObservation h)
    with ex assms(4) show ?thesis
      by (auto simp: observation_clone_def fresh_handle_def split: option.splits
          intro!: tight_same [OF assms(4)] held) (auto simp: slot_refs_def)
  next
    case (DropObservation h)
    with assms(3) obtain s where h: "map_of (observations w) h = Some s" by auto
    from observation_drop_eq(1) [OF assms(1) sound h] ex DropObservation
    have "w' = released sc s (w\<lparr>observations := AList.delete h (observations w)\<rparr>)" by simp
    with alist_split [OF handles_distinct(6) [OF assms(1)] h] show ?thesis
      by (auto intro!: drop held simp: slot_refs_def)
  next
    case (IntoOutcome h)
    with assms(3) into_outcome_tight [OF assms(1,2) _ assms(4)] ex show ?thesis by auto
  next
    case (IntoFuture h)
    with assms(3) into_future_tight [OF assms(1) _ assms(4)] ex show ?thesis by auto
  next
    case (Poll h k)
    with assms(3) future_poll_tight [OF assms(4)] ex show ?thesis by auto
  next
    case (DropFuture h)
    with assms(3) drop_future_tight [OF assms(1,2) _ assms(4)] ex show ?thesis by auto
  qed (use ex observation_op_tight [OF assms(4)] in \<open>auto\<close>)
qed

lemma reach_tight:
  assumes "arc_exact sc"
  shows "reach sc w \<Longrightarrow> tight w"
proof (induction rule: reach.induct)
  case start
  show ?case
    by (simp add: tight_def tight_but_def inner_held_def space_new_def)
next
  case (step w op wp r w')
  show ?case
    by (rule exec_tight [OF reach_wf [OF arc_exact_sound [OF assms] step.hyps(1)] assms step.hyps(2)
          step.IH step.hyps(3)])
qed

end
