(* ===== verification/Guarantees.thy ===== *)
theory Guarantees
  imports Leak
begin

section \<open>What a program can rely on\<close>

text \<open>
  The guarantees of the crate for every program over it: \<open>reach\<close> and \<open>run\<close> of \<open>System\<close> quantify
  over the program, the \<open>Arc\<close> count and the wakers that panic.
\<close>

text \<open>What a run ends with; used to evaluate concrete programs.\<close>

definition run_ends :: "fault + 'r \<times> 'w \<Rightarrow> ('r \<Rightarrow> 'w \<Rightarrow> bool) \<Rightarrow> bool" where
  "run_ends res P \<longleftrightarrow> (case res of Inl f \<Rightarrow> False | Inr (r, w) \<Rightarrow> P r w)"

lemma run_ends_iff: "run_ends res P \<longleftrightarrow> (\<exists>r w. res = Inr (r, w) \<and> P r w)"
  by (auto simp: run_ends_def split: sum.splits)

lemma outcomes_accounted_lemma:
  assumes "arc_sound sc" and "reach sc w"
  shows "mset (created w) = mset (dropped w) + mset (moved w) + heap_cells (heap w) (next_slot w)"
  using wfD(8) [OF reach_wf [OF assms]] by (simp add: account_inv_def)

subsection \<open>Well-formed states\<close>

text \<open>
  C30: every state that a program can reach is well formed: handles are distinct; the word, the cell
  and the registry of every slot agree; every slot that a handle, the key table or the pool refers
  to is allocated; the key table holds exactly the entries of the live subjects and the pool at
  most its capacity; a slot has at most one publication authority, and it is completed when its
  subject says so; the registrations of every future are in its slot's registry; and every outcome
  is accounted for.
\<close>

theorem reachable_states_well_formed:
  assumes "arc_sound sc" and "reach sc w"
  shows "wf w"
  by (rule reach_wf [OF assms])

theorem reachable_states_well_formed_witness:
  "\<exists>rs w. run handle_count (\<lambda>_. False) [MakeSubject 7, Observe 7, Complete 1 5, DropSubject 1] (space_new :: (nat, nat) world)
     = Inr (rs, w) \<and> wf w"
proof -
  have "run_ends (run handle_count (\<lambda>_. False) [MakeSubject 7, Observe 7, Complete 1 5, DropSubject 1] (space_new :: (nat, nat) world))
      (\<lambda>rs w. created w = [5])" by code_simp
  then obtain rs w where r: "run handle_count (\<lambda>_. False) [MakeSubject 7, Observe 7, Complete 1 5, DropSubject 1]
      (space_new :: (nat, nat) world) = Inr (rs, w)" by (auto simp: run_ends_iff)
  from reachable_states_well_formed [OF handle_count_sound run_reach [OF r reach.start]] r show ?thesis by blast
qed

subsection \<open>Nothing leaks\<close>

lemma nothing_leaks_lemma:
  assumes "arc_exact sc" and "reach sc w" and "all_handles w = []"
  shows "inner w = None \<and> (\<forall>s. heap w s = None) \<and> mset (created w) = mset (dropped w) + mset (moved w)"
proof -
  have tight: "tight_but {} w" "inner_held w" using reach_tight [OF assms(1,2)] by (simp_all add: tight_def)
  have none: "spaces w = []" "subjects w = []" "retiring w = []" "dying w = []" "publishers w = []"
    "observations w = []" "futures w = []"
    using assms(3) by (simp_all add: all_handles_def)
  then have inner: "inner w = None" using tight(2) by (simp add: inner_held_def)
  then have "slot_refs w = {#}" by (simp add: slot_refs_def table_refs_def none)
  then have heap: "\<forall>s. heap w s = None" using tight(1) by (auto simp: tight_but_def)
  then have "heap_cells (heap w) (next_slot w) = {#}" by (simp add: heap_cells_def)
  with outcomes_accounted_lemma [OF arc_exact_sound [OF assms(1)] assms(2)] inner heap show ?thesis by simp
qed

text \<open>
  C15: Nothing leaks.  With an exact \<open>Arc\<close> count, once the program owns no value of the crate any
  more, the namespace and every slot have been freed, and every outcome was destroyed or moved out.
\<close>

theorem nothing_leaks:
  assumes "arc_exact sc" and "reach sc w" and "all_handles w = []"
  shows "inner w = None \<and> (\<forall>s. heap w s = None) \<and> mset (created w) = mset (dropped w) + mset (moved w)"
  by (rule nothing_leaks_lemma [OF assms])

theorem nothing_leaks_witness:
  "\<exists>rs w'. run handle_count (\<lambda>_. False)
       [MakeSubject 7, Observe 7, Complete 1 5, DropSubject 1, DropSubjectInner 1, DropSpace 0,
        DropSubjectSlot 1, DropObservation 2] (space_new :: (nat, nat) world) = Inr (rs, w')
     \<and> inner w' = None \<and> (\<forall>s. heap w' s = None) \<and> created w' = [5] \<and> dropped w' = [5]"
proof -
  let ?ops = "[MakeSubject 7, Observe 7, Complete 1 5, DropSubject 1, DropSubjectInner 1, DropSpace 0,
        DropSubjectSlot 1, DropObservation 2]"
  have "run_ends (run handle_count (\<lambda>_. False) ?ops (space_new :: (nat, nat) world))
      (\<lambda>rs w'. all_handles w' = [] \<and> created w' = [5] \<and> dropped w' = [5])" by code_simp
  then obtain rs w' where w': "run handle_count (\<lambda>_. False) ?ops (space_new :: (nat, nat) world) = Inr (rs, w')"
    "all_handles w' = []" "created w' = [5]" "dropped w' = [5]" by (auto simp: run_ends_iff)
  from nothing_leaks [OF handle_count_exact run_reach [OF w'(1) reach.start] w'(2)] w'
  show ?thesis by blast
qed

subsection \<open>What an observation sees\<close>

text \<open>The publications of a run, in order.\<close>

fun publications :: "('k, 'o) arc_count \<Rightarrow> (waker \<Rightarrow> bool) \<Rightarrow> ('k, 'o) op list \<Rightarrow> ('k, 'o) world \<Rightarrow>
    (slot_id \<times> 'o) list" where
  "publications sc wp [] w = []"
| "publications sc wp (op # ops) w = (case exec sc wp op w of
     Inl _ \<Rightarrow> []
   | Inr (_, w') \<Rightarrow>
       (case completes op w of None \<Rightarrow> [] | Some p \<Rightarrow> [p]) @ publications sc wp ops w')"

lemma run_Cons:
  assumes "run sc wp (op # ops) w = Inr (rs, w')"
  obtains r w1 rs' where "owns op w" "exec sc wp op w = Inr (r, w1)" "run sc wp ops w1 = Inr (rs', w')"
    "rs = r # rs'"
  using assms by (auto split: sum.splits if_splits)

lemma observed_reader: "map_of (observations w) h = Some s \<Longrightarrow> s \<in> reader_slots w"
  using map_of_SomeD by (force simp: reader_slots_def)

lemma exec_value:
  assumes "wf w" and "arc_sound sc" and "owns op w" and "t \<in> reader_slots w"
    and ex: "exec sc wp op w = Inr (r, w')" and ref: "t \<in> reader_slots w'"
  shows "value_at w' t = (case completes op w of
      None \<Rightarrow> value_at w t
    | Some (s, v) \<Rightarrow> if s = t then Some v else value_at w t)"
    and "completes op w = Some (t, v) \<Longrightarrow> value_at w t = None"
proof -
  have ref': "t \<in># slot_refs w'" using ref reader_refs by blast
  note pub = exec_publishes [OF assms(1,2) ex]
  show "value_at w' t = (case completes op w of
      None \<Rightarrow> value_at w t
    | Some (s, v) \<Rightarrow> if s = t then Some v else value_at w t)"
  proof (cases "\<exists>v. completes op w = Some (t, v)")
    case True
    then obtain v where v: "completes op w = Some (t, v)" by blast
    from pub [OF this] ref' obtain sl where "heap w' t = Some (published_slot v sl)" by metis
    with v show ?thesis by (simp add: value_at_def)
  next
    case False
    then have "value_at w' t = value_at w t"
      by (intro kept_at_value exec_kept [OF assms(1-4) ex ref']) blast
    with False show ?thesis by (auto split: option.splits)
  qed
  show "value_at w t = None" if "completes op w = Some (t, v)"
  proof -
    from pub [OF that] obtain sl where "heap w t = Some sl" "outcome sl = None" by metis
    then show ?thesis by (simp add: value_at_def)
  qed
qed

lemma run_value:
  assumes "arc_sound sc"
  shows "wf w \<Longrightarrow> run sc wp ops w = Inr (rs, w') \<Longrightarrow> map_of (observations w) h = Some s \<Longrightarrow>
     \<forall>op\<in>set ops. \<not> consumes op h \<Longrightarrow>
     map_of (observations w') h = Some s \<and> wf w' \<and>
     value_at w' s = (case value_at w s of
         Some v \<Rightarrow> Some v | None \<Rightarrow> map_of (publications sc wp ops w) s)"
proof (induction ops arbitrary: w rs)
  case Nil
  then show ?case by (auto split: option.splits)
next
  case (Cons op ops)
  from Cons.prems(2) obtain r w1 rs' where st: "owns op w" "exec sc wp op w = Inr (r, w1)"
    "run sc wp ops w1 = Inr (rs', w')" by (rule run_Cons)
  have obs: "map_of (observations w1) h = Some s"
    by (rule exec_keeps_observation [OF st(2) _ Cons.prems(3)]) (use Cons.prems(4) in simp)
  have wf1: "wf w1" using exec_wf [OF Cons.prems(1) assms st(1), of wp] st(2) by auto
  have val: "value_at w1 s = (case completes op w of
      None \<Rightarrow> value_at w s | Some (t, v) \<Rightarrow> if t = s then Some v else value_at w s)"
    by (rule exec_value(1) [OF Cons.prems(1) assms st(1) observed_reader [OF Cons.prems(3)] st(2)
          observed_reader [OF obs]])
  have fresh: "value_at w s = None" if "completes op w = Some (s, v)" for v
    by (rule exec_value(2) [OF Cons.prems(1) assms st(1) observed_reader [OF Cons.prems(3)] st(2)
          observed_reader [OF obs] that])
  have "map_of (observations w') h = Some s \<and> wf w' \<and>
     value_at w' s = (case value_at w1 s of
         Some v \<Rightarrow> Some v | None \<Rightarrow> map_of (publications sc wp ops w1) s)"
    by (rule Cons.IH [OF wf1 st(3) obs]) (use Cons.prems(4) in simp)
  with val fresh st(2) show ?case
    by (auto split: option.splits prod.splits if_splits)
qed

text \<open>
  C2: An observation sees the outcome of its own generation and no other.  However the program goes
  on - other observers come and go, its subject is retired, the key is registered again, slots are
  recycled - what the observation returns is the outcome it had, or else the first publication on
  its slot since, or nothing if there was none.
\<close>

theorem observation_sees_its_own_publication:
  assumes "arc_sound sc" and "reach sc w" and "map_of (observations w) h = Some s"
    and "run sc wp ops w = Inr (rs, w')" and "\<forall>op\<in>set ops. \<not> consumes op h"
  shows "exec sc wp (TryGet h) w' = Inr (Ret (Value (case value_at w s of
      Some v \<Rightarrow> Some v | None \<Rightarrow> map_of (publications sc wp ops w) s)), w')"
proof -
  from run_value [OF assms(1) reach_wf [OF assms(1,2)] assms(4,3,5)]
  have *: "map_of (observations w') h = Some s" "wf w'"
    "value_at w' s = (case value_at w s of Some v \<Rightarrow> Some v | None \<Rightarrow> map_of (publications sc wp ops w) s)"
    by blast+
  obtain sl where "heap w' s = Some sl" using observed_slot [OF *(2,1)] .
  with observation_try_get_eq [OF *(2,1) this] *(3) show ?thesis by (simp add: value_at_def)
qed

text \<open>
  In the witness, handle 2 observes the first generation of key 7, which is completed with 5 and
  retired; the second generation of the key is completed with 6.
\<close>

theorem observation_sees_its_own_publication_witness:
  "\<exists>rs w rs' w'. run handle_count (\<lambda>_. False) [MakeSubject 7, Observe 7] (space_new :: (nat, nat) world) = Inr (rs, w)
     \<and> run handle_count (\<lambda>_. False) [Complete 1 5, DropSubject 1, MakeSubject 7, Complete 3 6] w = Inr (rs', w')
     \<and> exec handle_count (\<lambda>_. False) (TryGet 2) w' = Inr (Ret (Value (Some 5)), w')"
proof -
  let ?ops = "[Complete 1 5, DropSubject 1, MakeSubject 7, Complete 3 6]"
  have "run_ends (run handle_count (\<lambda>_. False) [MakeSubject 7, Observe 7] (space_new :: (nat, nat) world))
      (\<lambda>rs w. map_of (observations w) 2 = Some 0 \<and> value_at w 0 = None
         \<and> map_of (publications handle_count (\<lambda>_. False) ?ops w) 0 = Some 5
         \<and> run_ends (run handle_count (\<lambda>_. False) ?ops w) (\<lambda>rs w. True))" by code_simp
  then obtain rs w rs' w' where w:
    "run handle_count (\<lambda>_. False) [MakeSubject 7, Observe 7] (space_new :: (nat, nat) world) = Inr (rs, w)"
    "map_of (observations w) 2 = Some 0" "value_at w 0 = None"
    "map_of (publications handle_count (\<lambda>_. False) ?ops w) 0 = Some 5"
    "run handle_count (\<lambda>_. False) ?ops w = Inr (rs', w')"
    by (auto simp only: run_ends_iff)
  have "\<forall>op\<in>set ?ops. \<not> consumes op 2" by simp
  from observation_sees_its_own_publication
    [OF handle_count_sound run_reach [OF w(1) reach.start] w(2,5) this] w
  show ?thesis by auto
qed

lemma run_authority:
  assumes "arc_sound sc"
  shows "wf w \<Longrightarrow> run sc wp ops w = Inr (rs, w') \<Longrightarrow> map_of (observations w) h = Some s \<Longrightarrow>
     \<forall>op\<in>set ops. \<not> consumes op h \<Longrightarrow> \<not> authority w s \<Longrightarrow> map_of (publications sc wp ops w) s = None"
proof (induction ops arbitrary: w rs)
  case (Cons op ops)
  from Cons.prems(2) obtain r w1 rs' where st: "owns op w" "exec sc wp op w = Inr (r, w1)"
    "run sc wp ops w1 = Inr (rs', w')" by (rule run_Cons)
  have obs: "map_of (observations w1) h = Some s"
    by (rule exec_keeps_observation [OF st(2) _ Cons.prems(3)]) (use Cons.prems(4) in simp)
  have wf1: "wf w1" using exec_wf [OF Cons.prems(1) assms st(1), of wp] st(2) by auto
  have "\<not> authority w1 s"
    using exec_authority [OF Cons.prems(1) assms st(1) observed_reader [OF Cons.prems(3)] st(2)]
      Cons.prems(5) by blast
  with Cons.IH [OF wf1 st(3) obs] Cons.prems(4)
  have "map_of (publications sc wp ops w1) s = None" by simp
  moreover have "completes op w \<noteq> Some (s, v)" for v
  proof
    assume "completes op w = Some (s, v)"
    then have "authority w s"
      by (cases op) (auto simp: authority_def split: option.splits if_splits dest: map_of_SomeD)
    with Cons.prems(5) show False ..
  qed
  ultimately show ?case using st(2) by (auto split: option.splits)
qed simp

text \<open>
  C18: An abandoned observation stays pending for good.  Once the publication authority of its
  slot is gone without a publication, the observation never returns an outcome, whatever the
  program does afterwards: no outcome is invented and none of a later generation leaks in.
\<close>

theorem abandoned_observation_stays_pending:
  assumes "arc_sound sc" and "reach sc w" and "map_of (observations w) h = Some s"
    and "\<not> authority w s" and "value_at w s = None"
    and "run sc wp ops w = Inr (rs, w')" and "\<forall>op\<in>set ops. \<not> consumes op h"
  shows "exec sc wp (TryGet h) w' = Inr (Ret (Value None), w')"
proof -
  note wf = reach_wf [OF assms(1,2)]
  from run_value [OF assms(1) wf assms(6,3,7)] run_authority [OF assms(1) wf assms(6,3,7,4)] assms(5)
  have *: "map_of (observations w') h = Some s" "wf w'" "value_at w' s = None"
    by simp_all
  obtain sl where "heap w' s = Some sl" using observed_slot [OF *(2,1)] .
  with observation_try_get_eq [OF *(2,1) this] *(3) show ?thesis by (simp add: value_at_def)
qed

theorem abandoned_observation_stays_pending_witness:
  "\<exists>rs w rs' w'. run handle_count (\<lambda>_. False) [MakeSubject 7, Observe 7, DropSubject 1] (space_new :: (nat, nat) world) = Inr (rs, w)
     \<and> run handle_count (\<lambda>_. False) [MakeSubject 7, Complete 3 6] w = Inr (rs', w')
     \<and> exec handle_count (\<lambda>_. False) (TryGet 2) w' = Inr (Ret (Value None), w')"
proof -
  let ?ops = "[MakeSubject 7, Complete 3 6]"
  have "run_ends (run handle_count (\<lambda>_. False) [MakeSubject 7, Observe 7, DropSubject 1] (space_new :: (nat, nat) world))
      (\<lambda>rs w. map_of (observations w) 2 = Some 0 \<and> value_at w 0 = None \<and> subjects w = [] \<and> publishers w = []
         \<and> run_ends (run handle_count (\<lambda>_. False) ?ops w) (\<lambda>rs w. True))" by code_simp
  then obtain rs w rs' w' where w:
    "run handle_count (\<lambda>_. False) [MakeSubject 7, Observe 7, DropSubject 1] (space_new :: (nat, nat) world) = Inr (rs, w)"
    "map_of (observations w) 2 = Some 0" "value_at w 0 = None" "subjects w = []" "publishers w = []"
    "run handle_count (\<lambda>_. False) ?ops w = Inr (rs', w')"
    by (auto simp only: run_ends_iff)
  have "\<forall>op\<in>set ?ops. \<not> consumes op 2" "\<not> authority w 0" using w(4,5) by (simp_all add: authority_def)
  from abandoned_observation_stays_pending
    [OF handle_count_sound run_reach [OF w(1) reach.start] w(2) this(2) w(3,6) this(1)] w
  show ?thesis by blast
qed

subsection \<open>Waking\<close>

lemma future_owners_positive:
  "future_owners_of fs s x > 0 \<longleftrightarrow> (\<exists>h f. (h, f) \<in> set fs \<and> future_slot f = s \<and> x \<in> set (future_wakers f))"
  by (force simp: future_owners_of_def filter_empty_conv)

lemma unparked_threads: "Unparked t \<in> set (map event_of ws) \<longleftrightarrow> t \<in> set (threads ws)"
  by (induction ws rule: threads.induct) auto

text \<open>
  C16: A publication wakes exactly those who wait for it: the wakers of every future that was polled
  on the slot and is still there, the wakers registered directly on it, and the blocked threads.
  It does so even when some of the wakers panic; then the publisher gets the panic of the first one,
  after all the others have been notified.
\<close>

theorem publication_wakes_exactly_the_waiters:
  assumes "arc_sound sc" and "reach sc w" and "completes op w = Some (s, v)"
    and "exec sc wp op w = Inr (r, w')"
  shows "\<exists>evs. woken w' = woken w @ evs
     \<and> r = done_or_panic (drain_result wp (waiting_at w s))
     \<and> (\<forall>x. Woken x \<in> set evs \<longleftrightarrow> direct x (waiting_at w s)
          \<or> (\<exists>h f. (h, f) \<in> set (futures w) \<and> future_slot f = s \<and> x \<in> set (future_wakers f)))
     \<and> (\<forall>t. Unparked t \<in> set evs \<longleftrightarrow> t \<in> set (threads (waiting_at w s)))"
proof -
  note wf = reach_wf [OF assms(1,2)]
  from exec_publishes [OF wf assms(1,4,3)] obtain sl where sl: "heap w s = Some sl" "slot_ok sl" "outcome sl = None"
    "r = done_or_panic (drain_result wp (registered sl))" "woken w' = woken w @ map event_of (registered sl)"
    by metis
  have pend: "\<not> completed sl" using slot_ok_outcome [OF sl(2)] sl(3) by simp
  have live: "list_all live_waiter (registered sl)" using sl(2) by (simp add: slot_ok_def registry_ok_def)
  have own: "owners x (registered sl) = future_owners_of (futures w) s x" for x
    using wfD(7) [OF wf] sl(1) pend by (simp add: future_inv_def)
  have "waiting_at w s = registered sl" using sl(1) by (simp add: waiting_at_def)
  moreover have "Woken x \<in> set (map event_of (registered sl)) \<longleftrightarrow> direct x (registered sl)
      \<or> (\<exists>h f. (h, f) \<in> set (futures w) \<and> future_slot f = s \<and> x \<in> set (future_wakers f))" for x
    unfolding woken_wakers live_registered [OF live] own future_owners_positive by blast
  ultimately show ?thesis using sl(4,5) unparked_threads by auto
qed

theorem publication_wakes_exactly_the_waiters_witness:
  "\<exists>rs w r w'. run handle_count (\<lambda>_. False) [MakePair, RegisterWaker 2 waker_b, CloneObservation 2, IntoFuture 3, Poll 3 waker_a, Wait 2 9]
       (space_new :: (nat, nat) world) = Inr (rs, w)
     \<and> exec handle_count (\<lambda>x. x = waker_b) (Publish 1 5) w = Inr (r, w')
     \<and> Woken waker_a \<in> set (woken w') \<and> Woken waker_b \<in> set (woken w') \<and> Unparked 9 \<in> set (woken w')"
proof -
  let ?ops = "[MakePair, RegisterWaker 2 waker_b, CloneObservation 2, IntoFuture 3, Poll 3 waker_a, Wait 2 9]"
  have "run_ends (run handle_count (\<lambda>_. False) ?ops (space_new :: (nat, nat) world))
      (\<lambda>rs w. completes (Publish 1 5) w = Some (0, 5) \<and> direct waker_b (waiting_at w 0)
        \<and> futures w = [(3, \<lparr>future_slot = 0, future_wakers = [waker_a]\<rparr>)] \<and> threads (waiting_at w 0) = [9]
        \<and> run_ends (exec handle_count (\<lambda>x. x = waker_b) (Publish 1 5) w) (\<lambda>_ _. True))" by code_simp
  then obtain rs w r w' where w: "run handle_count (\<lambda>_. False) ?ops (space_new :: (nat, nat) world) = Inr (rs, w)"
    "completes (Publish 1 5) w = Some (0, 5)" "direct waker_b (waiting_at w 0)"
    "futures w = [(3, \<lparr>future_slot = 0, future_wakers = [waker_a]\<rparr>)]" "threads (waiting_at w 0) = [9]"
    "exec handle_count (\<lambda>x. x = waker_b) (Publish 1 5) w = Inr (r, w')"
    by (auto simp only: run_ends_iff)
  from publication_wakes_exactly_the_waiters [OF handle_count_sound run_reach [OF w(1) reach.start] w(2,6)]
  obtain evs where evs: "woken w' = woken w @ evs"
    "\<And>x. Woken x \<in> set evs \<longleftrightarrow> direct x (waiting_at w 0)
      \<or> (\<exists>h f. (h, f) \<in> set (futures w) \<and> future_slot f = 0 \<and> x \<in> set (future_wakers f))"
    "\<And>t. Unparked t \<in> set evs \<longleftrightarrow> t \<in> set (threads (waiting_at w 0))" by blast
  have "Woken waker_a \<in> set evs" "Woken waker_b \<in> set evs" "Unparked 9 \<in> set evs"
    using evs(2,3) w(3-5) by auto
  with evs(1) w show ?thesis by auto
qed

text \<open>No operation forgets a notification.\<close>

lemma exec_woken: "exec sc wp op w = Inr (r, w') \<Longrightarrow> wf w \<Longrightarrow> arc_sound sc \<Longrightarrow>
    completes op w = Some (s, v) \<Longrightarrow> direct x (waiting_at w s) \<Longrightarrow> Woken x \<in> set (woken w')"
proof -
  assume a: "exec sc wp op w = Inr (r, w')" "wf w" "arc_sound sc" "completes op w = Some (s, v)"
    "direct x (waiting_at w s)"
  from exec_publishes [OF a(2,3,1,4)] obtain sl where sl: "heap w s = Some sl"
    "woken w' = woken w @ map event_of (registered sl)" by metis
  with a(5) show ?thesis using direct_mem [of x "registered sl"] woken_wakers [of x "registered sl"]
    by (auto simp: waiting_at_def)
qed

lemma release_woken: "release sc s w = Inr w' \<Longrightarrow> woken w' = woken w"
  by (auto simp: release_def free_slot_def split: option.splits sum.splits call.splits if_splits)

lemma release_all_woken: "release_all sc ss w = Inr w' \<Longrightarrow> woken w' = woken w"
  by (induction ss arbitrary: w) (auto split: sum.splits dest: release_woken)

lemma release_inner_woken: "release_inner sc w = Inr w' \<Longrightarrow> woken w' = woken w"
  by (auto simp: release_inner_def split: option.splits if_splits dest: release_all_woken)

lemma on_slot_woken: "on_slot s f w = Inr (r, w') \<Longrightarrow> woken w' = woken w"
  by (auto simp: on_slot_def split: option.splits sum.splits)

lemma publish_woken: "publish wp s v w = Inr (r, w') \<Longrightarrow> set (woken w) \<subseteq> set (woken w')"
  by (auto simp: publish_def split: sum.splits dest: on_slot_woken)

lemma acquire_slot_woken: "acquire_slot sc p w = Inr (s, w') \<Longrightarrow> woken w' = woken w"
  by (erule acquire_slotE) (auto simp: alloc_slot_def dest: on_slot_woken)

lemma space_subject_woken: "space_subject sc key w = Inr (r, w') \<Longrightarrow> woken w' = woken w"
  by (auto simp: space_subject_def Let_def fresh_handle_def
      split: option.splits sum.splits prod.splits if_splits dest!: release_woken acquire_slot_woken)

lemma subject_drop_woken: "subject_drop sc h w = Inr (r, w') \<Longrightarrow> woken w' = woken w"
  by (auto simp: subject_drop_def Let_def split: option.splits sum.splits prod.splits if_splits
      dest!: release_woken)

lemma woken_grows:
  assumes "exec sc wp op w = Inr (r, w')"
  shows "set (woken w) \<subseteq> set (woken w')"
proof (cases op)
  case (MakeSubject key)
  with assms show ?thesis by (auto dest: space_subject_woken)
next
  case (DropSubject h)
  with assms show ?thesis by (auto dest: subject_drop_woken)
next
  case (Complete h v)
  with assms show ?thesis
    by (auto simp: subject_complete_def Let_def split: option.splits sum.splits prod.splits if_splits
        dest!: publish_woken)
next
  case (Publish h v)
  with assms show ?thesis
    by (auto simp: publisher_complete_def split: option.splits sum.splits prod.splits
        dest!: publish_woken release_woken)
qed (use assms in \<open>auto simp: op_defs fresh_handle_def alloc_slot_def Let_def
      split: option.splits sum.splits prod.splits if_splits call.splits
      dest!: release_woken release_inner_woken on_slot_woken\<close>)

lemma run_woken: "run sc wp ops w = Inr (rs, w') \<Longrightarrow> set (woken w) \<subseteq> set (woken w')"
proof (induction ops arbitrary: w rs)
  case (Cons op ops)
  from Cons.prems obtain r w1 rs' where "exec sc wp op w = Inr (r, w1)" "run sc wp ops w1 = Inr (rs', w')"
    by (rule run_Cons)
  with Cons.IH woken_grows show ?case by blast
qed simp

lemma run_direct:
  assumes "arc_sound sc"
  shows "wf w \<Longrightarrow> run sc wp ops w = Inr (rs, w') \<Longrightarrow> map_of (observations w) h = Some s \<Longrightarrow>
     \<forall>op\<in>set ops. \<not> consumes op h \<Longrightarrow> direct x (waiting_at w s) \<Longrightarrow>
     direct x (waiting_at w' s) \<or> Woken x \<in> set (woken w')"
proof (induction ops arbitrary: w rs)
  case (Cons op ops)
  from Cons.prems(2) obtain r w1 rs' where st: "owns op w" "exec sc wp op w = Inr (r, w1)"
    "run sc wp ops w1 = Inr (rs', w')" by (rule run_Cons)
  have obs: "map_of (observations w1) h = Some s"
    by (rule exec_keeps_observation [OF st(2) _ Cons.prems(3)]) (use Cons.prems(4) in simp)
  have wf1: "wf w1" using exec_wf [OF Cons.prems(1) assms st(1), of wp] st(2) by auto
  show ?case
  proof (cases "\<exists>v. completes op w = Some (s, v)")
    case True
    with exec_woken [OF st(2) Cons.prems(1) assms _ Cons.prems(5)] run_woken [OF st(3)]
    show ?thesis by blast
  next
    case False
    have "s \<in># slot_refs w1" using observed_reader [OF obs] reader_refs by blast
    with False have "kept_at w w1 s"
      by (intro exec_kept [OF Cons.prems(1) assms st(1) observed_reader [OF Cons.prems(3)] st(2)]) blast+
    then have "direct x (waiting_at w1 s)" using Cons.prems(5) by (rule kept_at_direct)
    then show ?thesis by (intro Cons.IH [OF wf1 st(3) obs]) (use Cons.prems(4) in simp_all)
  qed
qed simp

text \<open>
  C17: No wake is lost.  A waker that was registered while the slot was pending has been woken by the
  time the outcome can be read, whatever operations ran in between; registration on a completed
  slot says so at once (\<open>true\<close>).
\<close>

theorem registered_waker_is_woken:
  assumes "arc_sound sc" and "reach sc w" and "map_of (observations w) h = Some s"
    and "exec sc wp (RegisterWaker h k) w = Inr (Ret (Flag False), w1)"
    and "run sc wp ops w1 = Inr (rs, w')" and "\<forall>op\<in>set ops. \<not> consumes op h"
    and "value_at w' s \<noteq> None"
  shows "Woken k \<in> set (woken w')"
proof -
  note wf = reach_wf [OF assms(1,2)]
  obtain sl where sl: "heap w s = Some sl" using observed_slot [OF wf assms(3)] .
  note eq = observation_register_waker_eq [OF wf assms(3) sl, of k]
  have w1: "w1 = w\<lparr>heap := (heap w)(s \<mapsto> with_registry (direct_registered k (registered sl)) sl)\<rparr>" "wf w1"
    using eq assms(4) by (auto split: if_splits)
  have obs: "map_of (observations w1) h = Some s" using assms(3) w1(1) by simp
  have "direct k (waiting_at w1 s)" by (simp add: w1(1) waiting_at_def direct_registered_simps(2))
  from run_direct [OF assms(1) w1(2) assms(5) obs assms(6) this]
  have "direct k (waiting_at w' s) \<or> Woken k \<in> set (woken w')" .
  moreover have "waiting_at w' s = []"
  proof -
    have "wf w'" using run_value [OF assms(1) w1(2) assms(5) obs assms(6)] by simp
    moreover obtain sl' where "heap w' s = Some sl'" "outcome sl' \<noteq> None"
      using assms(7) by (auto simp: value_at_def split: option.splits)
    ultimately show ?thesis
      using heap_slot_ok [of w' s sl'] slot_ok_outcome [of sl'] slot_ok_drained [of sl']
      by (simp add: waiting_at_def)
  qed
  ultimately show ?thesis by simp
qed

theorem registered_waker_is_woken_witness:
  "\<exists>rs w w1 rs' w'. run handle_count (\<lambda>_. False) [MakePair] (space_new :: (nat, nat) world) = Inr (rs, w)
     \<and> exec handle_count (\<lambda>_. False) (RegisterWaker 2 waker_a) w = Inr (Ret (Flag False), w1)
     \<and> run handle_count (\<lambda>_. False) [CloneObservation 2, DropObservation 3, Publish 1 5] w1 = Inr (rs', w')
     \<and> Woken waker_a \<in> set (woken w')"
proof -
  let ?ops = "[CloneObservation 2, DropObservation 3, Publish 1 5]"
  have "run_ends (run handle_count (\<lambda>_. False) [MakePair] (space_new :: (nat, nat) world))
      (\<lambda>rs w. map_of (observations w) 2 = Some 0
        \<and> run_ends (exec handle_count (\<lambda>_. False) (RegisterWaker 2 waker_a) w) (\<lambda>r w1. r = Ret (Flag False)
            \<and> run_ends (run handle_count (\<lambda>_. False) ?ops w1) (\<lambda>rs w'. value_at w' 0 \<noteq> None)))" by code_simp
  then obtain rs w w1 rs' w' where w: "run handle_count (\<lambda>_. False) [MakePair] (space_new :: (nat, nat) world) = Inr (rs, w)"
    "map_of (observations w) 2 = Some 0"
    "exec handle_count (\<lambda>_. False) (RegisterWaker 2 waker_a) w = Inr (Ret (Flag False), w1)"
    "run handle_count (\<lambda>_. False) ?ops w1 = Inr (rs', w')" "value_at w' 0 \<noteq> None"
    unfolding run_ends_iff by blast
  have "\<forall>op\<in>set ?ops. \<not> consumes op 2" by simp
  from registered_waker_is_woken [OF handle_count_sound run_reach [OF w(1) reach.start] w(2-4) this w(5)] w
  show ?thesis by blast
qed

subsection \<open>The namespace\<close>

text \<open>A subject of the key is alive.\<close>

definition key_live :: "'k \<Rightarrow> ('k, 'o) world \<Rightarrow> bool" where
  "key_live k w \<longleftrightarrow> (\<exists>(h, sub)\<in>set (subjects w). subject_key sub = k)"

lemma key_live_entry:
  assumes "wf w" and i: "inner w = Some i"
  shows "key_live k w \<longleftrightarrow> sm_get k (kmap (entries_of i)) \<noteq> None"
  using subject_entry [OF assms] entry_subject [OF assms, of k] by (fastforce simp: key_live_def)

text \<open>
  C20: A key has at most one live generation: while one is alive, registering the key again returns
  \<open>SubjectExists\<close> with the key and changes nothing, not even the slot pool.
\<close>

theorem second_registration_refused:
  assumes "arc_sound sc" and "reach sc w" and "spaces w \<noteq> []" and "key_live k w"
  shows "exec sc wp (MakeSubject k) w = Inr (Ret (SubjectExists k), w)
     \<and> (\<exists>!x. x \<in> set (subjects w) \<and> subject_key (snd x) = k)"
proof -
  note wf = reach_wf [OF assms(1,2)]
  obtain i where i: "inner w = Some i" using space_inner [OF wf assms(3)] by blast
  have "\<exists>!x. x \<in> set (subjects w) \<and> subject_key (snd x) = k"
  proof -
    obtain x where x: "x \<in> set (subjects w)" "subject_key (snd x) = k"
      using assms(4) by (auto simp: key_live_def)
    have "y = x" if y: "y \<in> set (subjects w)" "subject_key (snd y) = k" for y
    proof -
      have "subject_slot (snd y) = subject_slot (snd x)"
        using subject_entry [OF wf i, of "fst x" "snd x"] subject_entry [OF wf i, of "fst y" "snd y"] x y
        by simp
      then show ?thesis
        using subject_slot_unique [OF wf, of "fst x" "snd x" "fst y" "snd y"] x y
        by (simp add: prod_eq_iff)
    qed
    with x show ?thesis by blast
  qed
  with space_subject_exists [OF i] assms(4) key_live_entry [OF wf i] show ?thesis by simp
qed

theorem second_registration_refused_witness:
  "\<exists>rs w. run handle_count (\<lambda>_. False) [MakeSubject 7, Complete 1 5] (space_new :: (nat, nat) world) = Inr (rs, w)
     \<and> exec handle_count (\<lambda>_. False) (MakeSubject 7) w = Inr (Ret (SubjectExists 7), w)"
proof -
  have "run_ends (run handle_count (\<lambda>_. False) [MakeSubject 7, Complete 1 5] (space_new :: (nat, nat) world))
      (\<lambda>rs w. key_live 7 w \<and> spaces w = [(0, ())])" by code_simp
  then obtain rs w where w: "run handle_count (\<lambda>_. False) [MakeSubject 7, Complete 1 5]
      (space_new :: (nat, nat) world) = Inr (rs, w)" "key_live 7 w" "spaces w \<noteq> []"
    by (auto simp: run_ends_iff)
  from second_registration_refused [OF handle_count_sound run_reach [OF w(1) reach.start] w(3,2)] w(1)
  show ?thesis by blast
qed

lemma new_generation_subject:
  assumes "wf w" and i: "inner w = Some i"
  shows "\<exists>sub. subjects (new_generation k i w) = subjects w @ [(next_handle w, sub)] \<and> subject_key sub = k
        \<and> subject_generation sub = next_generation i \<and> \<not> subject_completed sub
        \<and> heap (new_generation k i w) (subject_slot sub) \<noteq> None
        \<and> value_at (new_generation k i w) (subject_slot sub) = None
        \<and> waiting_at (new_generation k i w) (subject_slot sub) = []
        \<and> subject_slot sub \<notin> reader_slots (new_generation k i w)"
proof (cases "pool (entries_of i) = []")
  case True
  have "next_slot w \<notin> reader_slots w" using next_slot_unused(2) [OF assms(1)] reader_refs by blast
  with True show ?thesis
    by (simp add: new_generation_def acquired_def Let_def value_at_def waiting_at_def reader_slots_def)
next
  case False
  have "last (pool (entries_of i)) \<in> set (pool_of w)" using False i by (simp add: pool_of_inner)
  moreover have "set (pool_of w) \<inter> reader_slots w = {}"
    using wfD(5) [OF assms(1)] by (simp add: authority_inv_def)
  ultimately have "last (pool (entries_of i)) \<notin> reader_slots w" by blast
  with False show ?thesis
    by (simp add: new_generation_def acquired_def Let_def value_at_def waiting_at_def reader_slots_def)
qed

text \<open>
  C19: Registering a key that is not live (short of the last generation number) returns a new subject
  of that key under the next generation number, on an allocated slot that is pending, holds no
  registration and is read by nobody: nothing of an earlier generation shows, also when the slot
  is a recycled one.
\<close>

theorem registration_starts_a_fresh_generation:
  assumes "arc_sound sc" and "reach sc w" and "spaces w \<noteq> []" and "\<not> key_live k w"
    and "inner w = Some i" and "next_generation i \<noteq> USIZE_MAX"
  shows "\<exists>w' sub. exec sc wp (MakeSubject k) w = Inr (Ret (NewHandle (next_handle w)), w')
        \<and> subjects w' = subjects w @ [(next_handle w, sub)] \<and> subject_key sub = k
        \<and> subject_generation sub = next_generation i \<and> \<not> subject_completed sub
        \<and> heap w' (subject_slot sub) \<noteq> None \<and> value_at w' (subject_slot sub) = None
        \<and> waiting_at w' (subject_slot sub) = [] \<and> subject_slot sub \<notin> reader_slots w'"
proof -
  note wf = reach_wf [OF assms(1,2)]
  have "sm_get k (kmap (entries_of i)) = None" using assms(4) key_live_entry [OF wf assms(5)] by simp
  from space_subject_new [OF wf assms(5) this assms(6), of sc] new_generation_subject [OF wf assms(5), of k]
  show ?thesis by auto
qed

theorem registration_starts_a_fresh_generation_witness:
  "\<exists>rs w w' sub. run handle_count (\<lambda>_. False) [MakeSubject 7, Complete 1 5, DropSubject 1] (space_new :: (nat, nat) world) = Inr (rs, w)
     \<and> pool_of w = [0] \<and> value_at w 0 = Some 5
     \<and> exec handle_count (\<lambda>_. False) (MakeSubject 7) w = Inr (Ret (NewHandle 2), w')
     \<and> subjects w' = [(2, sub)] \<and> value_at w' (subject_slot sub) = None"
proof -
  let ?ops = "[MakeSubject 7, Complete 1 5, DropSubject 1]"
  have "run_ends (run handle_count (\<lambda>_. False) ?ops (space_new :: (nat, nat) world))
      (\<lambda>rs w. \<not> key_live 7 w \<and> spaces w = [(0, ())] \<and> next_handle w = 2 \<and> subjects w = []
         \<and> pool_of w = [0] \<and> value_at w 0 = Some 5
         \<and> (case inner w of None \<Rightarrow> False | Some i \<Rightarrow> next_generation i \<noteq> USIZE_MAX))" by code_simp
  then obtain rs w i where w: "run handle_count (\<lambda>_. False) ?ops (space_new :: (nat, nat) world) = Inr (rs, w)"
    "\<not> key_live 7 w" "spaces w \<noteq> []" "inner w = Some i" "next_generation i \<noteq> USIZE_MAX"
    "next_handle w = 2" "subjects w = []" "pool_of w = [0]" "value_at w 0 = Some 5"
    by (auto simp: run_ends_iff split: option.splits)
  from registration_starts_a_fresh_generation
    [OF handle_count_sound run_reach [OF w(1) reach.start] w(3,2,4,5), of "\<lambda>_. False"] w
  show ?thesis by auto
qed

end
