(* ===== verification/Lifecycle.thy ===== *)
theory Lifecycle
  imports Guarantees
begin

section \<open>The life of a key, a slot and an outcome\<close>

text \<open>
  Observing, retiring, pooling, moving an outcome out, completing twice, and the two corners where
  the code does something its comments do not say: a pooled slot that an older subject still
  holds, and the generation counter after its last value.
\<close>

lemma next_handle_fresh: "wf w \<Longrightarrow> map_of (observations w) (next_handle w) = None"
proof -
  assume "wf w"
  then have less: "\<forall>h\<in>set (all_handles w). h < next_handle w"
    using wfD(3) [of w] by (simp add: handle_inv_def)
  have "set (map fst (observations w)) \<subseteq> set (all_handles w)" by (auto simp: all_handles_def)
  with less have "next_handle w \<notin> fst ` set (observations w)" by (metis less_irrefl subsetD set_map)
  then show "map_of (observations w) (next_handle w) = None" by (simp add: map_of_eq_None_iff)
qed

text \<open>
  \<open>observe\<close> captures the live generation of the key: the new observation reads the slot of the
  key's live subject, completed or not, and with no live subject it returns \<open>UnknownSubject\<close> and
  changes nothing.
\<close>

lemma observe_captures_the_live_generation:
  assumes "arc_sound sc" and "reach sc w" and "spaces w \<noteq> []"
  shows "(\<nexists>h sub. (h, sub) \<in> set (subjects w) \<and> subject_key sub = k)
        \<and> exec sc wp (Observe k) w = Inr (Ret (UnknownSubject k), w)
     \<or> (\<exists>h sub w'. (h, sub) \<in> set (subjects w) \<and> subject_key sub = k
        \<and> exec sc wp (Observe k) w = Inr (Ret (NewHandle (next_handle w)), w')
        \<and> map_of (observations w') (next_handle w) = Some (subject_slot sub)
        \<and> heap w' = heap w \<and> subjects w' = subjects w)"
proof -
  note wf = reach_wf [OF assms(1,2)]
  obtain i where i: "inner w = Some i" using space_inner [OF wf assms(3)] by blast
  show ?thesis
  proof (cases "sm_get k (kmap (entries_of i))")
    case None
    then have "\<nexists>h sub. (h, sub) \<in> set (subjects w) \<and> subject_key sub = k"
      using key_live_entry [OF wf i, of k] by (auto simp: key_live_def)
    with space_observe_unknown [OF i None] show ?thesis by simp
  next
    case (Some e)
    let ?w = "w\<lparr>next_handle := next_handle w + 1,
      observations := observations w @ [(next_handle w, entry_slot e)]\<rparr>"
    from entry_subject [OF wf i Some] obtain h sub where
      "(h, sub) \<in> set (subjects w)" "subject_key sub = k" "subject_slot sub = entry_slot e" by blast
    moreover have "map_of (observations w) (next_handle w) = None"
      by (rule next_handle_fresh [OF wf])
    ultimately have "(h, sub) \<in> set (subjects w) \<and> subject_key sub = k
        \<and> exec sc wp (Observe k) w = Inr (Ret (NewHandle (next_handle w)), ?w)
        \<and> map_of (observations ?w) (next_handle w) = Some (subject_slot sub)
        \<and> heap ?w = heap w \<and> subjects ?w = subjects w"
      using space_observe_eq(1) [OF wf i Some] by (simp add: map_add_def)
    then show ?thesis by blast
  qed
qed

lemma observe_captures_the_live_generation_witness:
  "\<exists>rs w w'. run handle_count (\<lambda>_. False) [MakeSubject 7, Complete 1 5] (space_new :: (nat, nat) world) = Inr (rs, w)
     \<and> exec handle_count (\<lambda>_. False) (Observe 7) w = Inr (Ret (NewHandle 2), w')
     \<and> map_of (observations w') 2 = Some 0"
proof -
  have "run_ends (run handle_count (\<lambda>_. False) [MakeSubject 7, Complete 1 5] (space_new :: (nat, nat) world))
      (\<lambda>rs w. map (\<lambda>(h, sub). (h, subject_key sub, subject_slot sub)) (subjects w) = [(1, 7, 0)]
        \<and> spaces w = [(0, ())] \<and> next_handle w = 2)" by code_simp
  then obtain rs w where w: "run handle_count (\<lambda>_. False) [MakeSubject 7, Complete 1 5]
      (space_new :: (nat, nat) world) = Inr (rs, w)"
    "map (\<lambda>(h, sub). (h, subject_key sub, subject_slot sub)) (subjects w) = [(1, 7, 0)]"
    "spaces w \<noteq> []" "next_handle w = 2"
    by (auto simp: run_ends_iff)
  from w(2) obtain sub where sub: "subjects w = [(1, sub)]" "subject_key sub = 7" "subject_slot sub = 0"
    by auto
  from observe_captures_the_live_generation [OF handle_count_sound run_reach [OF w(1) reach.start] w(3),
      of 7 "\<lambda>_. False"] sub w(1,4)
  show ?thesis by auto
qed

lemma retired_key_live:
  assumes wf: "wf w" and h: "map_of (subjects w) h = Some sub" and i: "inner w = Some i"
  shows "key_live k (retired sc h sub i w) \<longleftrightarrow> key_live k w \<and> k \<noteq> subject_key sub"
proof -
  let ?w = "retired sc h sub i w"
  note mem = map_of_SomeD [OF h]
  have "subjects ?w = AList.delete h (subjects w)" by (simp add: retired_def Let_def)
  then have subs: "set (subjects w) = insert (h, sub) (set (subjects ?w))"
    using arg_cong [OF alist_split [OF handles_distinct(2) [OF wf] h], of set_mset]
    by (simp only: set_mset_mset set_mset_add_mset_insert)
  have gone: "subject_key sub' \<noteq> subject_key sub" if "(h', sub') \<in> set (subjects ?w)" for h' sub'
  proof
    assume k: "subject_key sub' = subject_key sub"
    have old: "(h', sub') \<in> set (subjects w)" unfolding subs using that by (rule insertI2)
    have "subject_slot sub' = subject_slot sub"
      using subject_entry [OF wf i mem] subject_entry [OF wf i old, unfolded k]
      by (metis option.inject slot_entry.ext_inject)
    then have "h' = h" using subject_slot_unique [OF wf mem old] by blast
    moreover have "h' \<noteq> h" using that by (auto simp: retired_def Let_def AList.delete_eq)
    ultimately show False by simp
  qed
  have "key_live k w \<longleftrightarrow> subject_key sub = k \<or> key_live k ?w" by (simp add: key_live_def subs)
  moreover have "\<not> key_live (subject_key sub) ?w" using gone by (auto simp: key_live_def)
  ultimately show ?thesis by auto
qed

text \<open>
  C21: Retirement.  Dropping a subject removes the entry of its own key, leaves every other key and
  every slot as it is, and pools the slot only when nobody reads it.
\<close>

theorem retirement_removes_only_its_own_key:
  assumes "arc_sound sc" and "reach sc w" and "map_of (subjects w) h = Some sub"
  shows "\<exists>w'. exec sc wp (DropSubject h) w = Inr (Ret Done, w') \<and> heap w' = heap w
     \<and> (\<forall>k. key_live k w' \<longleftrightarrow> key_live k w \<and> k \<noteq> subject_key sub)
     \<and> observations w' = observations w
     \<and> (pool_of w' = pool_of w \<or> pool_of w' = pool_of w @ [subject_slot sub] \<and> subject_slot sub \<notin> reader_slots w')"
proof -
  note wf = reach_wf [OF assms(1,2)]
  note mem = map_of_SomeD [OF assms(3)]
  obtain i where i: "inner w = Some i" using subject_inner [OF wf mem] by blast
  let ?w = "retired sc h sub i w"
  have eq: "exec sc wp (DropSubject h) w = Inr (Ret Done, ?w)"
    using subject_drop_eq [OF wf assms(1,3) i] by simp
  have wf': "wf ?w" by (rule retired_wf [OF wf assms(1,3) i])
  note keys = retired_key_live [OF wf assms(3) i]
  have "subject_slot sub \<notin> reader_slots ?w" if "pool_of ?w \<noteq> pool_of w"
  proof -
    have "subject_slot sub \<in> set (pool_of ?w)"
      using that i by (auto simp: retired_def Let_def pool_of_inner split: if_splits)
    with wfD(5) [OF wf'] show ?thesis by (auto simp: authority_inv_def)
  qed
  moreover have "pool_of ?w = pool_of w \<or> pool_of ?w = pool_of w @ [subject_slot sub]"
    using i by (simp add: retired_def Let_def pool_of_inner)
  moreover have "heap ?w = heap w" "observations ?w = observations w"
    by (simp_all add: retired_def Let_def)
  ultimately show ?thesis using eq keys by blast
qed

theorem retirement_removes_only_its_own_key_witness:
  "\<exists>rs w w'. run handle_count (\<lambda>_. False) [MakeSubject 7, MakeSubject 8] (space_new :: (nat, nat) world) = Inr (rs, w)
     \<and> exec handle_count (\<lambda>_. False) (DropSubject 1) w = Inr (Ret Done, w') \<and> key_live 8 w' \<and> \<not> key_live 7 w'"
proof -
  have "run_ends (run handle_count (\<lambda>_. False) [MakeSubject 7, MakeSubject 8] (space_new :: (nat, nat) world))
      (\<lambda>rs w. map_option subject_key (map_of (subjects w) 1) = Some 7 \<and> key_live 8 w)" by code_simp
  then obtain rs w where w: "run handle_count (\<lambda>_. False) [MakeSubject 7, MakeSubject 8]
      (space_new :: (nat, nat) world) = Inr (rs, w)"
    "map_option subject_key (map_of (subjects w) 1) = Some 7" "key_live 8 w"
    by (auto simp: run_ends_iff)
  from w(2) obtain sub where sub: "map_of (subjects w) 1 = Some sub" "subject_key sub = 7" by auto
  from retirement_removes_only_its_own_key [OF handle_count_sound run_reach [OF w(1) reach.start] sub(1),
      of "\<lambda>_. False"] w sub(2)
  show ?thesis by auto
qed

text \<open>
  C22: The pool is bounded and quiescent: at most \<open>SLOT_POOL_CAP\<close> slots, each once, allocated, read by
  nobody, not the slot of a live subject and without a publication authority; so recycling one can
  neither destroy an outcome somebody may read nor hand it to a second publisher.  No future has a
  registration in it; a waker that was registered directly can still be there, until \<open>reset\<close> drains it.
\<close>

theorem pool_is_bounded_and_quiescent:
  assumes "arc_sound sc" and "reach sc w"
  shows "length (pool_of w) \<le> SLOT_POOL_CAP \<and> distinct (pool_of w)
     \<and> (\<forall>s\<in>set (pool_of w). heap w s \<noteq> None \<and> s \<notin> reader_slots w \<and> \<not> authority w s
          \<and> (\<forall>h sub. (h, sub) \<in> set (subjects w) \<longrightarrow> subject_slot sub \<noteq> s)
          \<and> (\<forall>x. owners x (waiting_at w s) = 0))"
proof -
  note wf = reach_wf [OF assms]
  note inv = wfD(5) [OF wf]
  have "length (pool_of w) \<le> SLOT_POOL_CAP"
    using wfD(4) [OF wf] by (cases "inner w") (auto simp: table_inv_def pool_of_def)
  moreover have "distinct (pool_of w)" using inv by (simp add: authority_inv_def authority_slots_def)
  moreover have "heap w s \<noteq> None \<and> s \<notin> reader_slots w \<and> \<not> authority w s
          \<and> (\<forall>h sub. (h, sub) \<in> set (subjects w) \<longrightarrow> subject_slot sub \<noteq> s)
          \<and> (\<forall>x. owners x (waiting_at w s) = 0)" if s: "s \<in> set (pool_of w)" for s
  proof -
    have "s \<in> set (authority_slots w)" using s by (simp add: authority_slots_def)
    then have "heap w s \<noteq> None" using ref_heap [OF wf] authority_refs by blast
    moreover have "s \<notin> reader_slots w" using inv s by (auto simp: authority_inv_def)
    moreover have subs: "\<forall>h sub. (h, sub) \<in> set (subjects w) \<longrightarrow> subject_slot sub \<noteq> s"
      using subject_not_pooled [OF wf] s by blast
    moreover have "(h, s) \<notin> set (publishers w)" for h
    proof -
      have "distinct (map snd (publishers w) @ pool_of w)"
        using inv by (simp add: authority_inv_def authority_slots_def)
      then show ?thesis using s by force
    qed
    moreover have "owners x (waiting_at w s) = 0" for x
    proof -
      obtain sl where sl: "heap w s = Some sl" using \<open>heap w s \<noteq> None\<close> by blast
      have "future_owners_of (futures w) s x = 0"
        using \<open>s \<notin> reader_slots w\<close> by (intro future_owners_none) (auto simp: reader_slots_def)
      then show ?thesis
        using wfD(7) [OF wf] sl slot_ok_drained [of sl] heap_slot_ok [OF wf sl]
        by (cases "completed sl") (simp_all add: waiting_at_def future_inv_def)
    qed
    ultimately show ?thesis by (auto simp: authority_def)
  qed
  ultimately show ?thesis by blast
qed

theorem pool_is_bounded_and_quiescent_witness:
  "\<exists>rs w. run handle_count (\<lambda>_. False) [MakeSubject 7, Observe 7, RegisterWaker 2 waker_a, DropObservation 2, DropSubject 1]
       (space_new :: (nat, nat) world) = Inr (rs, w)
     \<and> pool_of w = [0] \<and> 0 \<notin> reader_slots w \<and> waiting_at w 0 = [Waker waker_a True 0]"
proof -
  let ?ops = "[MakeSubject 7, Observe 7, RegisterWaker 2 waker_a, DropObservation 2, DropSubject 1] :: (nat, nat) op list"
  have "run_ends (run handle_count (\<lambda>_. False) ?ops space_new)
      (\<lambda>rs w. pool_of w = [0] \<and> map (\<lambda>x. (wakers_of [x], live_waiter x)) (waiting_at w 0) = [([waker_a], True)])" by code_simp
  then obtain rs w x where w: "run handle_count (\<lambda>_. False) ?ops space_new = Inr (rs, w)" "pool_of w = [0]"
    "waiting_at w 0 = [x]" "wakers_of [x] = [waker_a]" "live_waiter x"
    by (auto simp: run_ends_iff map_eq_Cons_conv)
  from pool_is_bounded_and_quiescent [OF handle_count_sound run_reach [OF w(1) reach.start]] w(2,3)
  have "0 \<notin> reader_slots w" "\<forall>y. owners y [x] = 0" by auto
  with w show ?thesis by (cases x) (auto dest: spec [of _ waker_a] simp: unat_eq_0)
qed

subsection \<open>Moving an outcome out, and publishing twice\<close>

text \<open>
  C23: With an exact \<open>Arc\<close> count, \<open>into_outcome\<close> returns the outcome exactly when the slot is completed
  and the observation was the last handle to it; the value is then moved out (never destroyed by
  the crate) and the slot freed.  Otherwise it returns nothing, destroys the outcome only if the
  slot dies, and no other observer notices.
\<close>

theorem into_outcome_exact:
  assumes "arc_exact sc" and "reach sc w" and "map_of (observations w) h = Some s"
  shows "\<exists>w' r. exec sc wp (IntoOutcome h) w = Inr (Ret (Value r), w')
     \<and> r = (if count (slot_refs w) s = 1 then value_at w s else None)
     \<and> (count (slot_refs w) s = 1 \<longrightarrow> heap w' s = None
          \<and> moved w' = moved w @ (case value_at w s of None \<Rightarrow> [] | Some v \<Rightarrow> [v]) \<and> dropped w' = dropped w)
     \<and> (count (slot_refs w) s \<noteq> 1 \<longrightarrow> heap w' = heap w \<and> moved w' = moved w \<and> dropped w' = dropped w)"
proof -
  note wf = reach_wf [OF arc_exact_sound [OF assms(1)] assms(2)]
  obtain sl where sl: "heap w s = Some sl" using observed_slot [OF wf assms(3)] .
  let ?w1 = "w\<lparr>observations := AList.delete h (observations w)\<rparr>"
  have sc: "sc v (SlotArc t) = count (slot_refs v) t" for v t using assms(1) by (simp add: arc_exact_def)
  have "mset (observations w) = add_mset (h, s) (mset (AList.delete h (observations w)))"
    by (rule alist_split [OF handles_distinct(6) [OF wf] assms(3)])
  then have refs: "slot_refs w = add_mset s (slot_refs ?w1)" by (simp add: slot_refs_def)
  have "released sc s ?w1 = ?w1" if "count (slot_refs w) s \<noteq> 1"
  proof -
    have "count (slot_refs w) s = Suc (count (slot_refs ?w1) s)" by (simp only: refs count_add_mset simp_thms if_True)
    with that have "sc ?w1 (SlotArc s) \<noteq> 0" by (simp only: sc)
    then show ?thesis by (simp add: released_def)
  qed
  moreover have "cell sl = (case value_at w s of None \<Rightarrow> [] | Some v \<Rightarrow> [v])" "value_at w s = outcome sl"
    using sl by (simp_all add: cell_def value_at_def)
  ultimately show ?thesis
    using observation_into_outcome_eq [OF wf assms(3) sl, of sc] sc
    by (cases "count (slot_refs w) s = 1") simp_all
qed

theorem into_outcome_exact_witness:
  "\<exists>rs w w'. run handle_count (\<lambda>_. False) [MakePair, Publish 1 5] (space_new :: (nat, nat) world) = Inr (rs, w)
     \<and> exec handle_count (\<lambda>_. False) (IntoOutcome 2) w = Inr (Ret (Value (Some 5)), w') \<and> moved w' = [5]"
proof -
  have "run_ends (run handle_count (\<lambda>_. False) [MakePair, Publish 1 5] (space_new :: (nat, nat) world))
      (\<lambda>rs w. map_of (observations w) 2 = Some 0 \<and> count (slot_refs w) 0 = 1 \<and> value_at w 0 = Some 5
        \<and> moved w = [])" by code_simp
  then obtain rs w where w: "run handle_count (\<lambda>_. False) [MakePair, Publish 1 5]
      (space_new :: (nat, nat) world) = Inr (rs, w)"
    "map_of (observations w) 2 = Some 0" "count (slot_refs w) 0 = 1" "value_at w 0 = Some 5" "moved w = []"
    by (auto simp: run_ends_iff)
  from into_outcome_exact [OF handle_count_exact run_reach [OF w(1) reach.start] w(2)] w
  show ?thesis by auto
qed

text \<open>
  A subject publishes at most once.  A second \<open>complete\<close> panics, destroys the second value and
  touches no slot: every observer keeps the first outcome.
\<close>

lemma second_completion_rejected:
  assumes "arc_sound sc" and "reach sc w" and "map_of (subjects w) h = Some sub"
    and "exec sc wp (Complete h v) w = Inr (r, w1)"
  shows "\<exists>w2. exec sc wp (Complete h v') w1 = Inr (Panic SubjectCompletedTwice, w2) \<and> heap w2 = heap w1
     \<and> dropped w2 = dropped w1 @ [v'] \<and> woken w2 = woken w1"
proof -
  note wf = reach_wf [OF assms(1,2)]
  have "\<exists>sub'. map_of (subjects w1) h = Some sub' \<and> subject_completed sub'"
  proof (cases "subject_completed sub")
    case True
    with assms(3,4) show ?thesis by (auto simp: subject_complete_twice [OF wf])
  next
    case False
    obtain sl where sl: "heap w (subject_slot sub) = Some sl"
      using subject_slot_heap [OF wf map_of_SomeD [OF assms(3)]] by blast
    have "subjects w1 = AList.update h (sub\<lparr>subject_completed := True\<rparr>) (subjects w)"
      using subject_complete_eq [OF wf assms(3) False sl, of wp v] assms(4) by auto
    then show ?thesis by (simp add: AList.update_conv')
  qed
  moreover have "wf w1" by (rule reach_wf [OF assms(1) reach.step [OF assms(2) _ assms(4)]]) (simp add: assms(3))
  ultimately show ?thesis by (auto simp: subject_complete_twice)
qed

lemma second_completion_rejected_witness:
  "\<exists>rs w w1 w2. run handle_count (\<lambda>_. False) [MakeSubject 7] (space_new :: (nat, nat) world) = Inr (rs, w)
     \<and> exec handle_count (\<lambda>_. False) (Complete 1 5) w = Inr (Ret Done, w1)
     \<and> exec handle_count (\<lambda>_. False) (Complete 1 6) w1 = Inr (Panic SubjectCompletedTwice, w2)
     \<and> dropped w2 = dropped w1 @ [6]"
proof -
  have "run_ends (run handle_count (\<lambda>_. False) [MakeSubject 7] (space_new :: (nat, nat) world))
      (\<lambda>rs w. map_of (subjects w) 1 \<noteq> None
         \<and> run_ends (exec handle_count (\<lambda>_. False) (Complete 1 5) w) (\<lambda>r w1. r = Ret Done))" by code_simp
  then obtain rs w w1 sub where w: "run handle_count (\<lambda>_. False) [MakeSubject 7]
      (space_new :: (nat, nat) world) = Inr (rs, w)" "map_of (subjects w) 1 = Some sub"
    "exec handle_count (\<lambda>_. False) (Complete 1 5) w = Inr (Ret Done, w1)"
    unfolding run_ends_iff by blast
  from second_completion_rejected [OF handle_count_sound run_reach [OF w(1) reach.start] w(2,3), of 6] w
  show ?thesis by blast
qed

subsection \<open>Two corners\<close>

text \<open>
  Between the body of \<open>Drop for Subject\<close>, which may pool the slot under the entries lock, and the
  drop of the subject's own fields, another thread can register the key again and get the same
  slot.  The older subject's handle is then one of the new slot's.
\<close>

definition overlapping_generations :: "(nat, nat) op list" where
  "overlapping_generations =
     [MakeSubject 7, DropSubject 1, MakeSubject 7, Observe 7, Complete 2 5,
      DropSubject 2, DropSubjectInner 2, DropSubjectSlot 2, IntoOutcome 3,
      DropSubjectInner 1, DropSubjectSlot 1]"

definition sequential_generations :: "(nat, nat) op list" where
  "sequential_generations =
     [MakeSubject 7, DropSubject 1, DropSubjectInner 1, DropSubjectSlot 1, MakeSubject 7, Observe 7,
      Complete 2 5, DropSubject 2, DropSubjectInner 2, DropSubjectSlot 2, IntoOutcome 3]"

text \<open>
  A pooled slot's strong count can be two (the pool's handle and that of the subject being
  dropped), and a new generation that recycles the slot meanwhile shares it with the old subject:
  although its own subject and every other observation are gone and the outcome is published, the
  last observation's \<open>into_outcome\<close> returns nothing and the outcome is destroyed.  Without the
  overlap the same calls return it.
\<close>

lemma recycled_slot_still_shared:
  "run_ends (run handle_count (\<lambda>_. False) (take 2 overlapping_generations) space_new)
     (\<lambda>rs w. pool_of w = [0] \<and> count (slot_refs w) 0 = 2)
   \<and> run_ends (run handle_count (\<lambda>_. False) (take 8 overlapping_generations) space_new)
     (\<lambda>rs w. subjects w = [] \<and> futures w = [] \<and> publishers w = [] \<and> observations w = [(3, 0)]
        \<and> value_at w 0 = Some 5)
   \<and> run_ends (run handle_count (\<lambda>_. False) overlapping_generations space_new)
     (\<lambda>rs w. rs ! 8 = Ret (Value None) \<and> moved w = [] \<and> dropped w = [5])
   \<and> run_ends (run handle_count (\<lambda>_. False) sequential_generations space_new)
     (\<lambda>rs w. last rs = Ret (Value (Some 5)) \<and> moved w = [5] \<and> dropped w = [])"
  by code_simp

text \<open>
  C26: The generation counter wraps.  The registration that draws the last generation number panics,
  but the counter has already moved on to 0: the next registration succeeds and numbers start
  again, so \<open>generation exhausted\<close> is reported once and then generation numbers repeat.
\<close>

theorem generation_counter_wraps:
  assumes "wf w" and "arc_sound sc" and "spaces w \<noteq> []" and "inner w = Some i"
    and "next_generation i = USIZE_MAX" and "\<not> key_live k w"
  shows "\<exists>w1 w2 sub. exec sc wp (MakeSubject k) w = Inr (Panic GenerationExhausted, w1)
     \<and> exec sc wp (MakeSubject k) w1 = Inr (Ret (NewHandle (next_handle w)), w2)
     \<and> subjects w2 = subjects w @ [(next_handle w, sub)] \<and> subject_generation sub = 0"
proof -
  have vac: "sm_get k (kmap (entries_of i)) = None"
    using assms(6) key_live_entry [OF assms(1,4)] by simp
  let ?w = "generation_exhausted sc i w"
  note first = space_subject_exhausted [OF assms(1,2,4) vac assms(5)]
  have i': "inner ?w = Some (i\<lparr>next_generation := 0,
      entries_of := (entries_of i)\<lparr>pool := butlast (pool (entries_of i))\<rparr>\<rparr>)" (is "_ = Some ?i")
    by (simp add: generation_exhausted_def Let_def)
  have vac': "sm_get k (kmap (entries_of ?i)) = None" using vac by simp
  have gen: "next_generation ?i \<noteq> USIZE_MAX" by (simp add: USIZE_MAX_minus_1)
  have "subjects ?w = subjects w" "next_handle ?w = next_handle w"
    by (simp_all add: generation_exhausted_def Let_def)
  with space_subject_new [OF first(2) i' vac' gen, of sc] new_generation_subject [OF first(2) i', of k] first(1)
  show ?thesis by auto
qed

theorem generation_counter_wraps_witness:
  "\<exists>w1 w2. exec handle_count (\<lambda>_. False) (MakeSubject 7)
       ((space_new :: (nat, nat) world)\<lparr>inner := Some \<lparr>next_generation = USIZE_MAX,
          entries_of = \<lparr>kmap = sm_default, pool = []\<rparr>\<rparr>\<rparr>) = Inr (Panic GenerationExhausted, w1)
     \<and> exec handle_count (\<lambda>_. False) (MakeSubject 7) w1 = Inr (Ret (NewHandle 1), w2)"
proof -
  let ?i = "\<lparr>next_generation = USIZE_MAX, entries_of = \<lparr>kmap = sm_default, pool = []\<rparr>\<rparr>"
  let ?w = "(space_new :: (nat, nat) world)\<lparr>inner := Some ?i\<rparr>"
  have "wf ?w"
    using wf_pool_shrink [OF space_new_wf, of "\<lparr>next_generation = 1, entries_of = \<lparr>kmap = sm_default, pool = []\<rparr>\<rparr>" "[]" USIZE_MAX]
    by (simp add: space_new_def)
  have hyps: "spaces ?w \<noteq> []" "inner ?w = Some ?i" "next_generation ?i = USIZE_MAX" "\<not> key_live 7 ?w" "next_handle ?w = 1"
    by (simp_all add: space_new_def key_live_def)
  from generation_counter_wraps [OF \<open>wf ?w\<close> handle_count_sound hyps(1-4)] hyps(5) show ?thesis by metis
qed

end
