(* ===== verification/Destructors.thy ===== *)
theory Destructors
  imports Lifecycle
begin

section \<open>Outcomes with a destructor that panics\<close>

text \<open>
  \<open>reach\<close> and \<open>wf\<close> are about programs where the destructors of the outcomes return.  Here any of them may
  panic: \<open>reach_with dp\<close> are the states of a program on \<open>space_with dp\<close>.  As long as no panic leaves an
  operation, such a program is in the state of the program without panics (\<open>mirrors\<close>), so what was
  proved for the one holds for the other; and what a panic does is found by comparing the two.
\<close>

subsection \<open>The same state, with other destructors\<close>

definition with_destructors :: "('o \<Rightarrow> bool) \<Rightarrow> ('k, 'o) world \<Rightarrow> ('k, 'o) world" where
  "with_destructors dp w = w\<lparr>drop_panics := dp\<rparr>"

lemma with_destructors_simps [simp]:
  "heap (with_destructors dp w) = heap w" "next_slot (with_destructors dp w) = next_slot w"
  "next_handle (with_destructors dp w) = next_handle w" "inner (with_destructors dp w) = inner w"
  "spaces (with_destructors dp w) = spaces w" "subjects (with_destructors dp w) = subjects w"
  "retiring (with_destructors dp w) = retiring w" "dying (with_destructors dp w) = dying w"
  "publishers (with_destructors dp w) = publishers w" "observations (with_destructors dp w) = observations w"
  "futures (with_destructors dp w) = futures w" "created (with_destructors dp w) = created w"
  "dropped (with_destructors dp w) = dropped w" "moved (with_destructors dp w) = moved w"
  "woken (with_destructors dp w) = woken w" "drop_panics (with_destructors dp w) = dp"
  by (simp_all add: with_destructors_def)

lemma with_destructors_upd [simp]:
  "with_destructors dp w\<lparr>heap := x1\<rparr> = with_destructors dp (w\<lparr>heap := x1\<rparr>)"
  "with_destructors dp w\<lparr>next_slot := x2\<rparr> = with_destructors dp (w\<lparr>next_slot := x2\<rparr>)"
  "with_destructors dp w\<lparr>next_handle := x3\<rparr> = with_destructors dp (w\<lparr>next_handle := x3\<rparr>)"
  "with_destructors dp w\<lparr>inner := x4\<rparr> = with_destructors dp (w\<lparr>inner := x4\<rparr>)"
  "with_destructors dp w\<lparr>spaces := x5\<rparr> = with_destructors dp (w\<lparr>spaces := x5\<rparr>)"
  "with_destructors dp w\<lparr>subjects := x6\<rparr> = with_destructors dp (w\<lparr>subjects := x6\<rparr>)"
  "with_destructors dp w\<lparr>retiring := x6\<rparr> = with_destructors dp (w\<lparr>retiring := x6\<rparr>)"
  "with_destructors dp w\<lparr>dying := x7\<rparr> = with_destructors dp (w\<lparr>dying := x7\<rparr>)"
  "with_destructors dp w\<lparr>publishers := x7\<rparr> = with_destructors dp (w\<lparr>publishers := x7\<rparr>)"
  "with_destructors dp w\<lparr>observations := x7\<rparr> = with_destructors dp (w\<lparr>observations := x7\<rparr>)"
  "with_destructors dp w\<lparr>futures := x8\<rparr> = with_destructors dp (w\<lparr>futures := x8\<rparr>)"
  "with_destructors dp w\<lparr>created := x9\<rparr> = with_destructors dp (w\<lparr>created := x9\<rparr>)"
  "with_destructors dp w\<lparr>dropped := x9\<rparr> = with_destructors dp (w\<lparr>dropped := x9\<rparr>)"
  "with_destructors dp w\<lparr>moved := x9\<rparr> = with_destructors dp (w\<lparr>moved := x9\<rparr>)"
  "with_destructors dp w\<lparr>woken := x10\<rparr> = with_destructors dp (w\<lparr>woken := x10\<rparr>)"
  by (simp_all add: with_destructors_def)

lemma slot_refs_with [simp]: "slot_refs (with_destructors dp w) = slot_refs w"
  by (simp add: slot_refs_def)

lemma handle_count_with [simp]: "handle_count (with_destructors dp w) a = handle_count w a"
  by (cases a) simp_all

lemma owns_with [simp]: "owns op (with_destructors dp w) = owns op w"
  by (cases op) simp_all

definition count_with :: "('o \<Rightarrow> bool) \<Rightarrow> ('k, 'o) arc_count \<Rightarrow> ('k, 'o) arc_count" where
  "count_with dp sc w = sc (with_destructors dp w)"

lemma count_with_sound: "arc_sound sc \<Longrightarrow> arc_sound (count_with dp sc)"
  unfolding arc_sound_def count_with_def by (metis handle_count_with)

lemma count_with_app [simp]: "count_with dp sc w a = sc (with_destructors dp w) a"
  by (simp add: count_with_def)

text \<open>
  \<open>mirrors g V q r\<close>: the operation with panicking destructors ends with \<open>r\<close> as the one without them
  ends with \<open>q\<close>, or by the panic of the destructor of one of the outcomes \<open>V\<close>.
\<close>

definition mirrors :: "('a \<Rightarrow> 'b) \<Rightarrow> bool \<Rightarrow> fault + 'a \<Rightarrow> fault + 'b \<Rightarrow> bool" where
  "mirrors g panicky q r \<longleftrightarrow> r = (case q of Inl f \<Rightarrow> Inl f | Inr x \<Rightarrow> Inr (g x)) \<or> r = Inl DestructorPanicked \<and> panicky"

lemma mirrors_bind:
  assumes "mirrors g p q r" and "\<And>x. q = Inr x \<Longrightarrow> mirrors h p (k x) (k' (g x))"
  shows "mirrors h p (case q of Inl f \<Rightarrow> Inl f | Inr x \<Rightarrow> k x) (case r of Inl f \<Rightarrow> Inl f | Inr x \<Rightarrow> k' x)"
  using assms by (cases q) (auto simp: mirrors_def)

lemma mirrors_Inr: "y = g x \<Longrightarrow> mirrors g p (Inr x) (Inr y)"
  by (simp add: mirrors_def)

lemma mirrors_eq: "r = (case q of Inl f \<Rightarrow> Inl f | Inr x \<Rightarrow> Inr (g x)) \<Longrightarrow> mirrors g p q r"
  by (simp add: mirrors_def)

lemma mirrors_mono: "mirrors g p q r \<Longrightarrow> (p \<Longrightarrow> p') \<Longrightarrow> mirrors g p' q r"
  by (auto simp: mirrors_def)

text \<open>Some allocated slot holds an outcome whose destructor panics.\<close>

definition armed :: "('o \<Rightarrow> bool) \<Rightarrow> ('k, 'o) world \<Rightarrow> bool" where
  "armed dp w \<longleftrightarrow> (\<exists>s v. value_at w s = Some v \<and> dp v)"

lemma armed_iff: "armed dp w \<longleftrightarrow> (\<exists>s sl v. heap w s = Some sl \<and> outcome sl = Some v \<and> dp v)"
  by (force simp: armed_def value_at_def split: option.splits)

lemma free_slot_mirrors:
  assumes "drop_panics w = (\<lambda>_. False)"
  shows "mirrors (with_destructors dp) (armed dp w) (free_slot s w) (free_slot s (with_destructors dp w))"
  using assms
  by (auto simp: mirrors_def free_slot_def slot_drop_def drop_outcome_def armed_def value_at_def
      split: option.splits sum.splits call.splits if_splits)

lemma release_mirrors:
  assumes "drop_panics w = (\<lambda>_. False)"
  shows "mirrors (with_destructors dp) (armed dp w) (release (count_with dp sc) s w) (release sc s (with_destructors dp w))"
  using free_slot_mirrors [OF assms, of dp s] by (simp add: release_def mirrors_def)

lemma release_frame:
  "release sc s w = Inr w' \<Longrightarrow> drop_panics w' = drop_panics w \<and> (armed dp w' \<longrightarrow> armed dp w)"
  by (auto simp: release_def free_slot_def armed_iff split: option.splits sum.splits call.splits if_splits)
    (metis)

lemma release_all_mirrors:
  "drop_panics w = (\<lambda>_. False) \<Longrightarrow>
   mirrors (with_destructors dp) (armed dp w) (release_all (count_with dp sc) ss w) (release_all sc ss (with_destructors dp w))"
proof (induction ss arbitrary: w)
  case Nil
  show ?case by (simp add: mirrors_def)
next
  case (Cons s ss)
  show ?case
    unfolding release_all.simps
  proof (rule mirrors_bind [OF release_mirrors [OF Cons.prems]])
    fix w1 assume "release (count_with dp sc) s w = Inr w1"
    note frame = release_frame [OF this, of dp]
    show "mirrors (with_destructors dp) (armed dp w) (release_all (count_with dp sc) ss w1)
        (release_all sc ss (with_destructors dp w1))"
      by (rule mirrors_mono [OF Cons.IH]) (use frame Cons.prems in simp_all)
  qed
qed

lemma armed_upd [simp]:
  "armed dp (w\<lparr>inner := x1\<rparr>) = armed dp w" "armed dp (w\<lparr>spaces := x2\<rparr>) = armed dp w"
  "armed dp (w\<lparr>subjects := x3\<rparr>) = armed dp w" "armed dp (w\<lparr>retiring := x3\<rparr>) = armed dp w"
  "armed dp (w\<lparr>dying := x4\<rparr>) = armed dp w" "armed dp (w\<lparr>publishers := x4\<rparr>) = armed dp w"
  "armed dp (w\<lparr>observations := x4\<rparr>) = armed dp w" "armed dp (w\<lparr>futures := x5\<rparr>) = armed dp w"
  by (simp_all add: armed_def value_at_def)

lemma release_inner_mirrors:
  assumes "drop_panics w = (\<lambda>_. False)"
  shows "mirrors (with_destructors dp) (armed dp w) (release_inner (count_with dp sc) w) (release_inner sc (with_destructors dp w))"
proof (cases "inner w")
  case None
  then show ?thesis by (simp add: release_inner_def mirrors_def)
next
  case (Some i)
  then show ?thesis
    using release_all_mirrors [of "w\<lparr>inner := None\<rparr>" dp sc] assms by (simp add: release_inner_def mirrors_Inr)
qed

lemma on_slot_with:
  "on_slot s f (with_destructors dp w) = (case on_slot s f w of Inl e \<Rightarrow> Inl e | Inr (r, w') \<Rightarrow> Inr (r, with_destructors dp w'))"
  by (auto simp: on_slot_def split: option.splits sum.splits)

lemma publish_with:
  "publish wp s v (with_destructors dp w) = (case publish wp s v w of Inl e \<Rightarrow> Inl e | Inr (r, w') \<Rightarrow> Inr (r, with_destructors dp w'))"
  by (auto simp: publish_def on_slot_with split: sum.splits)

subsection \<open>Every operation but the registration of a subject\<close>

text \<open>The outcomes that an operation may destroy: those in the slots, and the one it is given.\<close>

fun given :: "('k, 'o) op \<Rightarrow> 'o option" where
  "given (Complete h v) = Some v"
| "given (Publish h v) = Some v"
| "given _ = None"

definition explosive :: "('o \<Rightarrow> bool) \<Rightarrow> ('k, 'o) op \<Rightarrow> ('k, 'o) world \<Rightarrow> bool" where
  "explosive dp op w \<longleftrightarrow> armed dp w \<or> (\<exists>v. given op = Some v \<and> dp v)"

lemma explosive_none [simp]: "given op = None \<Longrightarrow> explosive dp op w = armed dp w"
  by (simp add: explosive_def)

abbreviation mirrored :: "('o \<Rightarrow> bool) \<Rightarrow> ('k, 'o) op \<Rightarrow> ('k, 'o) world \<Rightarrow> ('k, 'o) result \<Rightarrow> ('k, 'o) result \<Rightarrow> bool" where
  "mirrored dp op w \<equiv> mirrors (map_prod id (with_destructors dp)) (explosive dp op w)"

lemma mirrors_then:
  assumes "mirrors (with_destructors dp) (armed dp w) q r" and "armed dp w \<Longrightarrow> panicky"
  shows "mirrors (map_prod id (with_destructors dp)) panicky
     (case q of Inl f \<Rightarrow> Inl f | Inr w' \<Rightarrow> Inr (c, w')) (case r of Inl f \<Rightarrow> Inl f | Inr w' \<Rightarrow> Inr (c, w'))"
  by (rule mirrors_bind [OF mirrors_mono [OF assms]]) (simp_all add: mirrors_Inr)

lemma publish_armed:
  assumes "publish wp s v w = Inr (r, w')" and "armed dp w'"
  shows "armed dp w \<or> dp v"
  using assms by (auto simp: publish_def on_slot_def slot_complete_def Let_def fetch_or_def set_outcome_def registry_eq
      armed_iff split: option.splits sum.splits prod.splits list.splits if_splits) metis+

lemma drops_mirrored:
  assumes "drop_panics w = (\<lambda>_. False)" and "op \<in> range DropSpace \<union> range DropSubjectInner \<union> range DropSubjectSlot
      \<union> range DropPublisher \<union> range DropObservation"
  shows "mirrored dp op w (exec (count_with dp sc) wp op w) (exec sc wp op (with_destructors dp w))"
proof -
  note drop = mirrors_then [OF release_mirrors, where panicky = "armed dp w"]
  note drop_inner = mirrors_then [OF release_inner_mirrors, where panicky = "armed dp w"]
  from assms(2) consider (space) h where "op = DropSpace h" | (inner) h where "op = DropSubjectInner h"
    | (slot) h where "op = DropSubjectSlot h" | (pub) h where "op = DropPublisher h" | (obs) h where "op = DropObservation h" by auto
  then show ?thesis
  proof cases
    case space
    then show ?thesis by (cases "map_of (spaces w) h") (auto simp: space_drop_def mirrors_eq assms(1) intro!: drop_inner)
  next
    case inner
    then show ?thesis by (cases "map_of (retiring w) h") (auto simp: subject_drop_inner_def mirrors_eq assms(1) intro!: drop_inner)
  next
    case slot
    then show ?thesis by (cases "map_of (dying w) h") (auto simp: subject_drop_slot_def mirrors_eq assms(1) intro!: drop)
  next
    case pub
    then show ?thesis by (cases "map_of (publishers w) h") (auto simp: publisher_drop_def mirrors_eq assms(1) intro!: drop)
  next
    case obs
    then show ?thesis by (cases "map_of (observations w) h") (auto simp: observation_drop_def mirrors_eq assms(1) intro!: drop)
  qed
qed

lemma mirrors_result:
  "(case q of Inl f \<Rightarrow> Inl f | Inr x \<Rightarrow> Inr (map_prod id (with_destructors dp) x)) = r \<Longrightarrow>
    mirrors (map_prod id (with_destructors dp)) p q r"
  by (auto simp: mirrors_def)

lemma future_drop_outcome: "future_drop mine sl = Inr sl' \<Longrightarrow> outcome sl' = outcome sl"
  by (auto simp: future_drop_eq split: sum.splits if_splits)

lemma exec_mirrored:
  assumes "wf w" and "owns op w" and "op \<notin> range MakeSubject"
  shows "mirrored dp op w (exec (count_with dp sc) wp op w) (exec sc wp op (with_destructors dp w))"
proof -
  note quiet = wf_quiet [OF assms(1)]
  note drop = mirrors_then [OF release_mirrors]
  show ?thesis
  proof (cases op)
    case (Complete h v)
    then show ?thesis using quiet
      by (cases "map_of (subjects w) h")
        (auto simp: mirrors_def explosive_def subject_complete_def publish_with Let_def split: sum.split)
  next
    case (DropSubject h)
    with assms(2) obtain sub where sub: "map_of (subjects w) h = Some sub" by auto
    obtain i where i: "inner w = Some i" using subject_inner [OF assms(1) map_of_SomeD [OF sub]] by blast
    obtain rem m where rem: "remove_if (subject_key sub) (subject_generation sub) (kmap (entries_of i)) = (rem, m)" by force
    have entry: "sm_get (subject_key sub) (kmap (entries_of i)) \<noteq> None" if rem
      using subject_entry [OF assms(1) i map_of_SomeD [OF sub]] by simp
    show ?thesis
      unfolding DropSubject using sub i rem entry quiet
      by (cases rem) (auto simp: subject_drop_def Let_def mirrors_eq intro!: mirrors_bind [OF mirrors_mono [OF release_mirrors]] mirrors_Inr)
  next
    case (Publish h v)
    with assms(2) obtain s where s: "map_of (publishers w) h = Some s" by auto
    show ?thesis
    proof (cases "publish wp s v w")
      case (Inl f)
      with Publish s show ?thesis by (simp add: publisher_complete_def publish_with mirrors_eq)
    next
      case (Inr p)
      obtain r w1 where p: "p = (r, w1)" by (cases p)
      have "drop_panics w1 = (\<lambda>_. False)" using Inr p quiet by (auto simp: publish_def on_slot_def split: option.splits sum.splits)
      with Inr p Publish s publish_armed [of wp s v w r w1 dp] show ?thesis
        by (auto simp: publisher_complete_def publish_with explosive_def intro!: drop)
    qed
  next
    case (IntoOutcome h)
    with assms(2) obtain s where s: "map_of (observations w) h = Some s" by auto
    obtain sl where sl: "heap w s = Some sl" "slot_ok sl" by (rule observed_slot [OF assms(1) s])
    obtain sl' where sl': "take_outcome sl = Inr (outcome sl, sl')" using take_outcome_eq [OF sl(2)] by blast
    have keeps: "slot_drop dp sl' = Inr (Ret (), [])" for dp using take_outcome_eq [OF sl(2)] sl' by fastforce
    show ?thesis
      unfolding IntoOutcome using s sl(1) sl' keeps quiet
      by (auto simp: observation_into_outcome_def Let_def mirrors_eq intro!: drop)
  next
    case (DropFuture h)
    with assms(2) obtain fut where fut: "map_of (futures w) h = Some fut" by auto
    let ?f = "\<lambda>sl. case future_drop (future_wakers fut) sl of Inl f \<Rightarrow> Inl f | Inr sl' \<Rightarrow> Inr ((), sl')"
    show ?thesis
    proof (cases "on_slot (future_slot fut) ?f w")
      case (Inl e)
      with DropFuture fut show ?thesis by (simp add: observation_future_drop_def on_slot_with mirrors_eq)
    next
      case (Inr p)
      obtain w1 where p: "p = ((), w1)" by (cases p) simp
      have "drop_panics w1 = (\<lambda>_. False)" using Inr p quiet by (auto simp: on_slot_def split: option.splits sum.splits)
      moreover have "armed dp w" if "armed dp w1"
      proof -
        from that obtain s sl v where v: "heap w1 s = Some sl" "outcome sl = Some v" "dp v" by (auto simp: armed_iff)
        have "\<exists>sl. heap w s = Some sl \<and> outcome sl = Some v"
          using Inr p v(1,2) by (auto simp: on_slot_def split: option.splits sum.splits if_splits dest: future_drop_outcome)
        with v(3) show ?thesis by (auto simp: armed_iff)
      qed
      ultimately show ?thesis using Inr p DropFuture fut
        by (auto simp: observation_future_drop_def on_slot_with intro!: drop)
    qed
  qed (use assms quiet drops_mirrored [of w op dp sc wp] in \<open>auto simp: space_observe_def space_clone_def pair_new_def
      alloc_slot_def observation_clone_def observation_try_get_def observation_register_waker_def observation_wait_def
      observation_wait_timeout_def into_future_def observation_future_poll_def fresh_handle_def on_slot_with Let_def
      intro!: mirrors_result split: option.split sum.split call.split\<close>)
qed

subsection \<open>Registering a subject\<close>

text \<open>The slot that the next registration recycles.\<close>

definition next_recycled :: "('k, 'o) world \<Rightarrow> slot_id option" where
  "next_recycled w = fst (pop (pool_of w))"

text \<open>
  \<open>reset\<close> runs the destructor of the recycled slot's outcome.  When it panics, the word of the slot still
  says that there is an outcome, and the unwinding drops the popped \<open>Arc\<close>: the last one, unless the
  handle of an older subject is still to be dropped.
\<close>

lemma acquire_slot_panics:
  assumes "heap w s = Some sl" and "slot_ok sl" and "outcome sl = Some v" and "dp v"
  shows "acquire_slot sc (Some s) (with_destructors dp w) = Inl UninitDrop
     \<or> acquire_slot sc (Some s) (with_destructors dp w) = Inl DestructorPanicked"
proof -
  note reset = reset_panics_then_drop [where dp = dp, OF assms(2-4)]
  show ?thesis using assms(1) reset
    by (auto simp: acquire_slot_def on_slot_def release_def free_slot_def)
qed

lemma acquire_slot_with:
  assumes "heap w s = Some sl" and "slot_ok sl" and "\<forall>v. outcome sl = Some v \<longrightarrow> \<not> dp v" and "drop_panics w = (\<lambda>_. False)"
  shows "acquire_slot sc (Some s) (with_destructors dp w) =
    (case acquire_slot (count_with dp sc) (Some s) w of Inl f \<Rightarrow> Inl f | Inr (s, w') \<Rightarrow> Inr (s, with_destructors dp w'))"
proof -
  have "\<not> list_ex dp (cell sl)" using assms(3) by (simp add: cell_def split: option.split)
  then have "slot_reset dp sl = Inr (Ret (), cell sl, pristine_slot sl)"
    "slot_reset (\<lambda>_. False) sl = Inr (Ret (), cell sl, pristine_slot sl)"
    using slot_reset_eq [OF assms(2)] by (auto simp: drop_call_def list_ex_iff)
  then show ?thesis using assms(1,4) by (simp add: acquire_slot_def on_slot_def)
qed

lemma subject_mirrored:
  assumes "wf w" and "spaces w \<noteq> []"
  shows "mirrored dp (MakeSubject key) w (exec (count_with dp sc) wp (MakeSubject key) w)
      (exec sc wp (MakeSubject key) (with_destructors dp w))
    \<or> exec sc wp (MakeSubject key) (with_destructors dp w) = Inl UninitDrop
      \<and> (\<exists>s v. next_recycled w = Some s \<and> value_at w s = Some v \<and> dp v)"
proof -
  note quiet = wf_quiet [OF assms(1)]
  obtain i where i: "inner w = Some i" using space_inner [OF assms] by blast
  obtain pooled rest where p: "pop (pool (entries_of i)) = (pooled, rest)" by force
  have nxt: "next_recycled w = pooled" using p i by (simp add: next_recycled_def pool_of_def)
  define w1 where "w1 = w\<lparr>inner := Some (i\<lparr>next_generation := next_generation i + 1, entries_of := (entries_of i)\<lparr>pool := rest\<rparr>\<rparr>)\<rparr>"
  have q1: "drop_panics w1 = (\<lambda>_. False)" "armed dp w1 = armed dp w" "heap w1 = heap w" using quiet by (simp_all add: w1_def)
  consider (taken) "\<not> is_vacant key (kmap (entries_of i))" | (last) "is_vacant key (kmap (entries_of i))" "next_generation i = USIZE_MAX"
    | (fresh) "is_vacant key (kmap (entries_of i))" "next_generation i \<noteq> USIZE_MAX" "pooled = None"
    | (recycled) s where "is_vacant key (kmap (entries_of i))" "next_generation i \<noteq> USIZE_MAX" "pooled = Some s" by fastforce
  then show ?thesis
  proof cases
    case taken
    then show ?thesis using i p by (simp add: space_subject_def mirrors_Inr Let_def)
  next
    case last
    have m: "mirrors (map_prod id (with_destructors dp)) (armed dp w)
       (case (case pooled of Some s \<Rightarrow> release (count_with dp sc) s w1 | None \<Rightarrow> Inr w1) of
          Inl f \<Rightarrow> Inl f | Inr w2 \<Rightarrow> Inr (Panic GenerationExhausted, w2))
       (case (case pooled of Some s \<Rightarrow> release sc s (with_destructors dp w1) | None \<Rightarrow> Inr (with_destructors dp w1)) of
          Inl f \<Rightarrow> Inl f | Inr w2 \<Rightarrow> Inr (Panic GenerationExhausted, w2))"
      by (cases pooled) (auto simp: q1(2) mirrors_Inr intro!: mirrors_then release_mirrors [OF q1(1), unfolded q1(2)])
    show ?thesis using m [unfolded w1_def last(2)] last i p by (intro disjI1) (simp add: space_subject_def Let_def)
  next
    case fresh
    then show ?thesis using i p
      by (simp add: space_subject_def Let_def acquire_slot_def alloc_slot_def fresh_handle_def mirrors_Inr del: pop_None)
  next
    case (recycled s)
    then have "s \<in> set (pool (entries_of i))" using p by (auto simp: pop_def split: if_splits)
    then have "s \<in># slot_refs w" using i by (simp add: slot_refs_iff table_refs_def)
    then obtain sl where "heap w s = Some sl" using ref_heap [OF assms(1)] by blast
    with heap_slot_ok [OF assms(1) this] q1(3) have sl: "heap w1 s = Some sl" "slot_ok sl" by simp_all
    show ?thesis
    proof (cases "\<exists>v. outcome sl = Some v \<and> dp v")
      case True
      then obtain v where v: "outcome sl = Some v" "dp v" by blast
      then have "value_at w s = Some v" using sl(1) q1(3) by (simp add: value_at_def)
      moreover have "exec sc wp (MakeSubject key) (with_destructors dp w) = Inl f"
        if "acquire_slot sc (Some s) (with_destructors dp w1) = Inl f" for f
        using that recycled i p by (simp add: space_subject_def Let_def w1_def)
      ultimately show ?thesis using acquire_slot_panics [where dp = dp, OF sl v, of sc] v(2) nxt recycled(3)
        by (auto simp: mirrors_def armed_def)
    next
      case False
      then have "mirrors (map_prod id (with_destructors dp)) (armed dp w) (acquire_slot (count_with dp sc) (Some s) w1)
          (acquire_slot sc (Some s) (with_destructors dp w1))"
        using acquire_slot_with [OF sl _ q1(1), of dp sc] by (auto simp: mirrors_def split: sum.split)
      then show ?thesis unfolding w1_def using recycled i p
        by (intro disjI1) (auto simp: space_subject_def Let_def fresh_handle_def intro!: mirrors_bind mirrors_Inr)
    qed
  qed
qed

subsection \<open>Programs with panicking destructors\<close>

inductive reach_with :: "('o \<Rightarrow> bool) \<Rightarrow> ('k, 'o) arc_count \<Rightarrow> ('k, 'o) world \<Rightarrow> bool" for dp sc where
  starts: "reach_with dp sc (space_with dp)"
| steps: "reach_with dp sc w \<Longrightarrow> owns op w \<Longrightarrow> exec sc wp op w = Inr (r, w') \<Longrightarrow> reach_with dp sc w'"

lemma exec_with:
  assumes "wf w" and "owns op w"
  shows "mirrored dp op w (exec (count_with dp sc) wp op w) (exec sc wp op (with_destructors dp w))
    \<or> exec sc wp op (with_destructors dp w) = Inl UninitDrop
      \<and> (\<exists>key s v. op = MakeSubject key \<and> next_recycled w = Some s \<and> value_at w s = Some v \<and> dp v)"
proof (cases "op \<in> range MakeSubject")
  case True
  then obtain key where "op = MakeSubject key" by auto
  with subject_mirrored [OF assms(1), of dp key sc wp] assms(2) show ?thesis by auto
next
  case False
  with exec_mirrored [OF assms] show ?thesis by blast
qed

text \<open>Such a program is in a state of the program whose destructors return.\<close>

lemma reach_with_quiet:
  assumes "arc_sound sc" and "reach_with dp sc w"
  shows "\<exists>w0. w = with_destructors dp w0 \<and> reach (count_with dp sc) w0 \<and> wf w0"
  using assms(2)
proof induction
  case starts
  show ?case
    by (rule exI [of _ space_new]) (auto simp: space_with_def with_destructors_def intro: reach.start space_new_wf)
next
  case (steps w op wp r w')
  then obtain w0 where w0: "w = with_destructors dp w0" "reach (count_with dp sc) w0" "wf w0" by blast
  have own: "owns op w0" using steps.hyps(2) w0(1) by simp
  obtain r0 w1 where w1: "exec (count_with dp sc) wp op w0 = Inr (r0, w1)" "wf w1"
    using exec_wf [OF w0(3) count_with_sound [OF assms(1)] own] by blast
  have "w' = with_destructors dp w1"
    using exec_with [OF w0(3) own, of dp sc wp] steps.hyps(3) w1(1) unfolding w0(1) by (auto simp: mirrors_def)
  with w1 reach.step [OF w0(2) own w1(1)] show ?case by blast
qed

lemma run_reach_with:
  "run sc wp ops w = Inr (rs, w') \<Longrightarrow> reach_with dp sc w \<Longrightarrow> reach_with dp sc w'"
proof (induction ops arbitrary: w rs)
  case (Cons op ops)
  then obtain r w1 rs' where "owns op w" "exec sc wp op w = Inr (r, w1)" "run sc wp ops w1 = Inr (rs', w')"
    by (auto split: sum.splits if_splits)
  with Cons.IH Cons.prems(2) reach_with.steps show ?case by blast
qed simp

text \<open>
  C1: No operation a safe program can perform is undefined: it does not read or drop an uninitialised
  outcome cell, touch a freed slot, publish twice on one slot or underflow a registration count, and it
  leaves a state from which the same holds.  This needs of \<open>Arc\<close> only that its count never misses a
  handle.  Two things can happen instead when the user's own destructors panic: the panic leaves an
  operation that is given such an outcome or finds one in a slot; and registering a subject that
  recycles a slot with such an outcome drops the empty cell of the slot, which is undefined.
\<close>

theorem no_operation_faults:
  assumes "arc_sound sc" and "reach_with dp sc w" and "owns op w"
  shows "(\<exists>r w'. exec sc wp op w = Inr (r, w') \<and> reach_with dp sc w')
     \<or> exec sc wp op w = Inl DestructorPanicked \<and> (\<exists>v. dp v \<and> (given op = Some v \<or> (\<exists>s. value_at w s = Some v)))
     \<or> exec sc wp op w = Inl UninitDrop
         \<and> (\<exists>key s v. op = MakeSubject key \<and> next_recycled w = Some s \<and> value_at w s = Some v \<and> dp v)"
proof -
  obtain w0 where w0: "w = with_destructors dp w0" "wf w0" using reach_with_quiet [OF assms(1,2)] by blast
  have own: "owns op w0" using assms(3) w0(1) by simp
  obtain r0 w1 where w1: "exec (count_with dp sc) wp op w0 = Inr (r0, w1)"
    using exec_wf [OF w0(2) count_with_sound [OF assms(1)] own] by blast
  have same: "value_at w = value_at w0" "next_recycled w = next_recycled w0"
    by (simp_all add: w0(1) value_at_def fun_eq_iff next_recycled_def pool_of_def)
  from exec_with [OF w0(2) own, of dp sc wp] w1 have
    "exec sc wp op w = Inr (r0, with_destructors dp w1) \<or> exec sc wp op w = Inl DestructorPanicked \<and> explosive dp op w0
     \<or> exec sc wp op w = Inl UninitDrop
       \<and> (\<exists>key s v. op = MakeSubject key \<and> next_recycled w0 = Some s \<and> value_at w0 s = Some v \<and> dp v)"
    unfolding w0(1) by (auto simp: mirrors_def)
  then show ?thesis
    using reach_with.steps [OF assms(2,3)] unfolding same explosive_def armed_def by blast
qed

text \<open>
  In the witness the outcome 9 has a destructor that panics.  A slot with the outcome 5 and one with 9
  are in the pool; recycling them shows the first and the last case, dropping the space the second.
\<close>

definition pooled_outcomes :: "(nat, nat) op list" where
  "pooled_outcomes = [MakeSubject 7, MakeSubject 8, Observe 7, RegisterWaker 3 waker_a, Complete 1 5, Complete 2 9, TryGet 3,
     DropObservation 3, DropSubject 2, DropSubjectInner 2, DropSubjectSlot 2, DropSubject 1, DropSubjectInner 1, DropSubjectSlot 1]"

theorem no_operation_faults_witness:
  "\<exists>rs w r w'. run handle_count (\<lambda>_. False) pooled_outcomes (space_with (\<lambda>v. v = 9)) = Inr (rs, w) \<and> pool_of w = [1, 0]
     \<and> exec handle_count (\<lambda>_. False) (MakeSubject 7) w = Inr (r, w') \<and> reach_with (\<lambda>v. v = 9) handle_count w'"
proof -
  let ?w = "space_with (\<lambda>v. v = 9) :: (nat, nat) world"
  have "run_ends (run handle_count (\<lambda>_. False) pooled_outcomes ?w)
      (\<lambda>rs w. pool_of w = [1, 0] \<and> owns (MakeSubject 7) w \<and> value_at w 0 = Some 5
         \<and> run_ends (exec handle_count (\<lambda>_. False) (MakeSubject 7) w) (\<lambda>r w'. True))" by code_simp
  then obtain rs w where w: "run handle_count (\<lambda>_. False) pooled_outcomes ?w = Inr (rs, w)" "pool_of w = [1, 0]"
    "owns (MakeSubject 7) w" "value_at w 0 = Some 5"
    "exec handle_count (\<lambda>_. False) (MakeSubject 7) w \<noteq> Inl DestructorPanicked" by (auto simp: run_ends_iff)
  have "next_recycled w = Some 0" by (simp add: next_recycled_def w(2) pop_def)
  with no_operation_faults [OF handle_count_sound run_reach_with [OF w(1) reach_with.starts] w(3), of "\<lambda>_. False"] w
  show ?thesis by auto
qed

text \<open>
  C14: Every outcome value handed to the crate exists exactly once: it was destroyed, or moved out
  to the caller by \<open>into_outcome\<close>, or sits in the cell of an allocated slot.  None is duplicated,
  lost or destroyed twice in any state that a program reaches without a panic of an outcome's destructor
  out of an operation, whichever destructors can panic.
\<close>

theorem outcomes_accounted:
  assumes "arc_sound sc" and "reach_with dp sc w"
  shows "mset (created w) = mset (dropped w) + mset (moved w) + heap_cells (heap w) (next_slot w)"
proof -
  obtain w0 where w0: "w = with_destructors dp w0" "wf w0" using reach_with_quiet [OF assms] by blast
  from wfD(8) [OF w0(2)] show ?thesis by (simp add: account_inv_def w0(1))
qed

theorem outcomes_accounted_witness:
  "\<exists>rs w'. run handle_count (\<lambda>_. False) (pooled_outcomes @ [MakeSubject 7, MakePair, Publish 5 6, IntoOutcome 6])
       (space_with (\<lambda>v. v = 9)) = Inr (rs, w')
     \<and> dropped w' = [5] \<and> moved w' = [6] \<and> heap_cells (heap w') (next_slot w') = {#9#}"
proof -
  let ?ops = "pooled_outcomes @ [MakeSubject 7, MakePair, Publish 5 6, IntoOutcome 6]"
  let ?w = "space_with (\<lambda>v. v = 9) :: (nat, nat) world"
  have "run_ends (run handle_count (\<lambda>_. False) ?ops ?w) (\<lambda>rs w'. created w' = [5, 9, 6] \<and> dropped w' = [5] \<and> moved w' = [6])"
    by code_simp
  then obtain rs w' where w': "run handle_count (\<lambda>_. False) ?ops ?w = Inr (rs, w')"
    "created w' = [5, 9, 6]" "dropped w' = [5]" "moved w' = [6]" by (auto simp: run_ends_iff)
  from outcomes_accounted [OF handle_count_sound run_reach_with [OF w'(1) reach_with.starts]] w' show ?thesis by auto
qed

text \<open>
  C25: A panicking destructor makes \<open>subject\<close> undefined.  When the slot that a registration recycles
  holds an outcome whose destructor panics, and the pool has the only handle to the slot, \<open>reset\<close> is
  left by the panic before it clears \<open>OUTCOME_VALID\<close>, the unwinding drops the slot, and \<open>Drop for Slot\<close>
  runs the destructor on the same, already destroyed, value.
\<close>

theorem panicking_destructor_runs_twice:
  assumes "arc_exact sc" and "reach_with dp sc w" and "spaces w \<noteq> []" and "\<not> key_live key w"
    and "map_option next_generation (inner w) \<noteq> Some USIZE_MAX"
    and "next_recycled w = Some s" and "value_at w s = Some v" and "dp v" and "count (slot_refs w) s = 1"
  shows "exec sc wp (MakeSubject key) w = Inl UninitDrop"
proof -
  obtain w0 where w0: "w = with_destructors dp w0" "wf w0" using reach_with_quiet [OF arc_exact_sound [OF assms(1)] assms(2)] by blast
  obtain i where i: "inner w0 = Some i" using space_inner [OF w0(2)] assms(3) w0(1) by auto
  obtain rest where p: "pop (pool (entries_of i)) = (Some s, rest)"
    using assms(6) i unfolding w0(1) by (cases "pop (pool (entries_of i))") (simp add: next_recycled_def pool_of_def)
  obtain sl where sl: "heap w0 s = Some sl" "outcome sl = Some v"
    using assms(7) unfolding w0(1) by (auto simp: value_at_def split: option.splits)
  have ok: "slot_ok sl" using heap_slot_ok [OF w0(2) sl(1)] by simp
  have vac: "is_vacant key (kmap (entries_of i))" "next_generation i \<noteq> USIZE_MAX"
    using assms(4,5) key_live_entry [OF w0(2) i, of key] i w0(1) by (simp_all add: is_vacant_get key_live_def)
  define w1 where "w1 = w0\<lparr>inner := Some (i\<lparr>next_generation := next_generation i + 1, entries_of := (entries_of i)\<lparr>pool := rest\<rparr>\<rparr>)\<rparr>"
  have "pool (entries_of i) = rest @ [s]" using p by (simp add: pop_Some)
  then have "slot_refs w0 = add_mset s (slot_refs w1)" by (simp add: slot_refs_def table_refs_def w1_def i)
  then have last: "count (slot_refs w1) s = 0" using assms(9) w0(1) by simp
  note reset = reset_panics_then_drop [where dp = dp, OF ok sl(2) assms(8)]
  have sc: "sc w' (SlotArc s) = count (slot_refs w') s" for w' using assms(1) by (simp add: arc_exact_def)
  have "acquire_slot sc (Some s) (with_destructors dp w1) = Inl UninitDrop"
    using sl(1) reset last by (simp add: acquire_slot_def on_slot_def release_def free_slot_def sc w1_def slot_refs_def)
  then show ?thesis
    using i p vac unfolding w0(1) w1_def by (simp add: space_subject_def Let_def)
qed

text \<open>In the witness the slot with the outcome 9 is recycled, after that of 5.\<close>

theorem panicking_destructor_runs_twice_witness:
  "\<exists>rs w. run handle_count (\<lambda>_. False) (pooled_outcomes @ [MakeSubject 7]) (space_with (\<lambda>v. v = 9)) = Inr (rs, w)
     \<and> dropped w = [5] \<and> exec handle_count (\<lambda>_. False) (MakeSubject 8) w = Inl UninitDrop"
proof -
  let ?w = "space_with (\<lambda>v. v = 9) :: (nat, nat) world"
  have "run_ends (run handle_count (\<lambda>_. False) (pooled_outcomes @ [MakeSubject 7]) ?w)
      (\<lambda>rs w. dropped w = [5] \<and> length (spaces w) = 1 \<and> \<not> list_ex (\<lambda>(h, sub). subject_key sub = 8) (subjects w)
         \<and> map_option next_generation (inner w) \<noteq> Some USIZE_MAX
         \<and> pool_of w = [1] \<and> value_at w 1 = Some 9 \<and> count (slot_refs w) 1 = 1)" by code_simp
  then obtain rs w where w: "run handle_count (\<lambda>_. False) (pooled_outcomes @ [MakeSubject 7]) ?w = Inr (rs, w)"
    "dropped w = [5]" "length (spaces w) = 1" "\<not> list_ex (\<lambda>(h, sub). subject_key sub = 8) (subjects w)"
    "map_option next_generation (inner w) \<noteq> Some USIZE_MAX" "pool_of w = [1]" "value_at w 1 = Some 9" "count (slot_refs w) 1 = 1"
    unfolding run_ends_iff by blast
  have "spaces w \<noteq> []" "\<not> key_live 8 w" "next_recycled w = Some 1"
    using w(3,4) by (auto simp: key_live_def list_ex_iff next_recycled_def w(6) pop_def)
  from panicking_destructor_runs_twice [OF handle_count_exact run_reach_with [OF w(1) reach_with.starts] this(1,2) w(5) this(3) w(7) _ w(8)]
    w(1,2) show ?thesis by auto
qed

end
