(* ===== verification/Ownership.thy ===== *)
theory Ownership
  imports Frame
begin

section \<open>What operations on other values cannot change\<close>

text \<open>
  Operations that do not use a value leave it to its owner: its handle, what the handle stands for,
  and, while a value pins the namespace, the namespace itself.  The theories with several threads
  rest on this.
\<close>

text \<open>The operations that need the value itself: as \<open>self\<close>, \<open>&mut self\<close>, or to drop it.\<close>

fun uses :: "('k, 'o) op \<Rightarrow> handle \<Rightarrow> bool" where
  "uses (DropSpace h) x = (h = x)"
| "uses (Complete h v) x = (h = x)"
| "uses (DropSubject h) x = (h = x)"
| "uses (DropObservation h) x = (h = x)"
| "uses (IntoOutcome h) x = (h = x)"
| "uses (IntoFuture h) x = (h = x)"
| "uses (DropSubjectInner h) x = (h = x)"
| "uses (DropSubjectSlot h) x = (h = x)"
| "uses _ x = False"

lemma exec_keeps_space:
  assumes "exec sc wp op w = Inr (r, w')" and "\<not> uses op x" and "map_of (spaces w) x = Some u"
  shows "map_of (spaces w') x = Some u"
proof (cases op)
  case (MakeSubject key)
  with assms show ?thesis
    by (auto simp: space_subject_def Let_def fresh_handle_def alloc_slot_def
      split: option.splits sum.splits prod.splits if_splits dest!: handle_frames [unfolded same_handles_def])
next
  case (DropSubject g)
  with assms show ?thesis
    by (auto simp: subject_drop_def Let_def split: option.splits sum.splits prod.splits if_splits
      dest!: handle_frames [unfolded same_handles_def])
qed (use assms in \<open>auto simp: op_defs fresh_handle_def alloc_slot_def Let_def map_add_def
      AList.delete_conv' split: option.splits sum.splits prod.splits if_splits call.splits
      dest!: handle_frames [unfolded same_handles_def]\<close>)

lemma exec_keeps_subject:
  assumes "exec sc wp op w = Inr (r, w')" and "\<not> uses op x" and "map_of (subjects w) x = Some sub"
  shows "map_of (subjects w') x = Some sub"
proof (cases op)
  case (MakeSubject key)
  with assms show ?thesis by (auto simp: map_add_def dest: space_subject_handles)
next
  case (DropSubject g)
  with assms show ?thesis by (auto simp: AList.delete_conv' dest: subject_drop_handles)
qed (use assms in \<open>auto simp: op_defs fresh_handle_def alloc_slot_def Let_def map_add_def
      AList.delete_conv' AList.update_conv' split: option.splits sum.splits prod.splits if_splits call.splits
      dest!: handle_frames [unfolded same_handles_def]\<close>)

lemma exec_keeps_retiring:
  assumes "exec sc wp op w = Inr (r, w')" and "\<not> uses op x" and "map_of (retiring w) x = Some sub"
  shows "map_of (retiring w') x = Some sub"
proof (cases op)
  case (DropSubject g)
  with assms show ?thesis
    by (auto simp: subject_drop_def Let_def map_add_def split: option.splits sum.splits prod.splits if_splits
      dest!: handle_frames [unfolded same_handles_def])
next
  case (MakeSubject key)
  with assms show ?thesis
    by (auto simp: space_subject_def Let_def fresh_handle_def alloc_slot_def
      split: option.splits sum.splits prod.splits if_splits dest!: handle_frames [unfolded same_handles_def])
qed (use assms in \<open>auto simp: op_defs fresh_handle_def alloc_slot_def Let_def map_add_def
      AList.delete_conv' split: option.splits sum.splits prod.splits if_splits call.splits
      dest!: handle_frames [unfolded same_handles_def]\<close>)

lemma exec_keeps_dying:
  assumes "exec sc wp op w = Inr (r, w')" and "\<not> uses op x" and "map_of (dying w) x = Some t"
  shows "map_of (dying w') x = Some t"
proof (cases op)
  case (DropSubject g)
  with assms show ?thesis
    by (auto simp: subject_drop_def Let_def split: option.splits sum.splits prod.splits if_splits
      dest!: handle_frames [unfolded same_handles_def])
next
  case (MakeSubject key)
  with assms show ?thesis
    by (auto simp: space_subject_def Let_def fresh_handle_def alloc_slot_def
      split: option.splits sum.splits prod.splits if_splits dest!: handle_frames [unfolded same_handles_def])
qed (use assms in \<open>auto simp: op_defs fresh_handle_def alloc_slot_def Let_def map_add_def
      AList.delete_conv' split: option.splits sum.splits prod.splits if_splits call.splits
      dest!: handle_frames [unfolded same_handles_def]\<close>)

lemma uses_consumes: "consumes op x \<Longrightarrow> uses op x"
  by (cases op) auto

subsection \<open>The namespace\<close>

lemma release_inner_inner: "release_inner sc w = Inr w' \<Longrightarrow> inner w' = inner w \<or> inner w' = None"
proof -
  assume r: "release_inner sc w = Inr w'"
  have one: "release sc s w = Inr w' \<Longrightarrow> inner w' = inner w" for s w w'
    by (auto simp: release_def free_slot_def split: option.splits sum.splits call.splits if_splits)
  have "release_all sc ss w = Inr w' \<Longrightarrow> inner w' = inner w" for ss w w'
    by (induction ss arbitrary: w) (auto split: sum.splits dest: one)
  with r show ?thesis by (fastforce simp: release_inner_def split: option.splits if_splits)
qed

lemma on_slot_inner: "on_slot s f w = Inr (r, w') \<Longrightarrow> inner w' = inner w"
  by (auto simp: on_slot_def split: option.splits sum.splits)

lemma release_keeps_inner: "release sc s w = Inr w' \<Longrightarrow> inner w' = inner w"
  by (auto simp: release_def free_slot_def split: option.splits sum.splits call.splits if_splits)

lemma acquire_slot_inner: "acquire_slot sc p w = Inr (s, w') \<Longrightarrow> inner w' = inner w"
  by (erule acquire_slotE) (auto simp: alloc_slot_def dest: on_slot_inner)

lemma publish_inner: "publish wp s v w = Inr (r, w') \<Longrightarrow> inner w' = inner w"
  by (auto simp: publish_def split: sum.splits dest: on_slot_inner)

lemmas inner_frames = release_inner_inner on_slot_inner release_keeps_inner acquire_slot_inner publish_inner

lemma exec_keeps_inner:
  assumes "exec sc wp op w = Inr (r, w')" and "\<And>key. op \<noteq> MakeSubject key" and "\<And>g. op \<noteq> DropSubject g"
  shows "inner w' = inner w \<or> inner w' = None"
  using assms by (cases op) (auto simp: op_defs fresh_handle_def alloc_slot_def Let_def
      split: option.splits sum.splits prod.splits if_splits call.splits dest!: inner_frames)

subsection \<open>Handles\<close>

lemma next_subject_fresh: "wf w \<Longrightarrow> map_of (subjects w) (next_handle w) = None"
proof -
  assume "wf w"
  then have less: "\<forall>h\<in>set (all_handles w). h < next_handle w"
    using wfD(3) [of w] by (simp add: handle_inv_def)
  have "set (map fst (subjects w)) \<subseteq> set (all_handles w)" by (auto simp: all_handles_def)
  with less have "next_handle w \<notin> fst ` set (subjects w)" by (metis less_irrefl subsetD set_map)
  then show "map_of (subjects w) (next_handle w) = None" by (simp add: map_of_eq_None_iff)
qed

lemma handles_apart:
  assumes "wf w" and "map_of (spaces w) x \<noteq> None"
  shows "map_of (observations w) x = None" and "map_of (subjects w) x = None" and "map_of (retiring w) x = None"
    and "map_of (dying w) x = None"
proof -
  have "x \<in> fst ` set (spaces w)" using assms(2) by (auto simp: map_of_eq_None_iff)
  moreover have "distinct (all_handles w)" using wfD(3) [OF assms(1)] by (simp add: handle_inv_def)
  ultimately have "x \<notin> fst ` set (observations w)" "x \<notin> fst ` set (subjects w)" "x \<notin> fst ` set (retiring w)"
    "x \<notin> fst ` set (dying w)" by (auto simp: all_handles_def)
  then show "map_of (observations w) x = None" "map_of (subjects w) x = None" "map_of (retiring w) x = None"
    "map_of (dying w) x = None" by (simp_all add: map_of_eq_None_iff)
qed

end
