(* ===== verification/Namespace_Protocol.thy ===== *)
theory Namespace_Protocol
  imports Ownership
begin

section \<open>Threads on one namespace\<close>

text \<open>
  \<open>ObservationSpace::subject\<close>, \<open>ObservationSpace::observe\<close> and \<open>Drop for Subject\<close>, taken apart into
  the accesses they make while they hold the entries lock, and run by any number of threads.  The
  lock is a \<open>parking_lot::RwLock\<close>: one writer (\<open>subject\<close>, \<open>drop\<close>) or several readers (\<open>observe\<close>) are
  inside.  It does not stop the other operations of the crate, which take no entries lock: other
  threads publish, read, clone and drop observations, make pairs or drop fields of retired subjects
  between any two accesses.  (What they do on the slot is \<open>Protocol\<close>; here each is one move.)

  An \<open>Arc\<close> that only a local variable holds counts: \<open>here\<close> adds the popped slot that \<open>subject\<close> has
  not used yet.  The handle of a new value is drawn when its reference comes into being, and
  nobody else can use it before the call has returned it.
\<close>

subsection \<open>The entries lock\<close>

text \<open>
  \<open>write_lock\<close> and \<open>read_lock\<close> forward to \<open>RwLock::write\<close> and \<open>RwLock::read\<close>; of the lock itself only the
  documented contract is used: a writer is let in when nobody is inside, a reader when no writer is.
  A lock that is choosier (one that makes readers queue behind a waiting writer) has fewer runs, and
  whoever is inside can still go on.
\<close>

record rwlock =
  writer :: "thread_id option"
  readers :: "thread_id list"

definition write_lock :: "thread_id \<Rightarrow> rwlock \<Rightarrow> rwlock option" where
  "write_lock t l = (if writer l = None \<and> readers l = [] then Some (l\<lparr>writer := Some t\<rparr>) else None)"

definition read_lock :: "thread_id \<Rightarrow> rwlock \<Rightarrow> rwlock option" where
  "read_lock t l = (if writer l = None then Some (l\<lparr>readers := t # readers l\<rparr>) else None)"

text \<open>The guards release the lock when they are dropped.\<close>

definition write_unlock :: "rwlock \<Rightarrow> rwlock" where
  "write_unlock l = l\<lparr>writer := None\<rparr>"

definition read_unlock :: "thread_id \<Rightarrow> rwlock \<Rightarrow> rwlock" where
  "read_unlock t l = l\<lparr>readers := remove1 t (readers l)\<rparr>"

subsection \<open>Calls in flight\<close>

text \<open>Where a call is: which access comes next, with the local variables.\<close>

datatype ('k, 'o) point =
    SubjectLock 'k
  | SubjectPop 'k
  | SubjectVacant 'k "slot_id option"
  | SubjectRestore 'k "slot_id option"
  | SubjectNumber 'k "slot_id option"
  | SubjectUnwind 'k "slot_id option"
  | SubjectSlot 'k "slot_id option" usize
  | SubjectInsert 'k usize slot_id handle
  | ObserveLock 'k
  | ObserveGet 'k
  | ObserveClone 'k slot_id
  | RetireLock
  | RetireRemove
  | RetireCount
  | RetirePush
  | WriteUnlock "('k, 'o) reply call"
  | ReadUnlock "('k, 'o) reply call"
  | Returning "('k, 'o) reply call"

text \<open>
  A call: the operation, the value it is called on (a space that \<open>&self\<close> borrows, or the subject
  that is dropped), and where it is.
\<close>

type_synonym ('k, 'o) flight = "('k, 'o) op \<times> handle \<times> ('k, 'o) point"

record ('k, 'o) nspace =
  mem :: "('k, 'o) world"
  entries_lock :: rwlock
  flights :: "(thread_id \<times> ('k, 'o) flight) list"

definition nspace_new :: "('k, 'o) nspace" where
  "nspace_new = \<lparr>mem = space_new, entries_lock = \<lparr>writer = None, readers = []\<rparr>, flights = []\<rparr>"

text \<open>The slots a local variable of the call owns.\<close>

definition opt_list :: "'a option \<Rightarrow> 'a list" where
  "opt_list x = (case x of None \<Rightarrow> [] | Some y \<Rightarrow> [y])"

fun local_arcs :: "('k, 'o) point \<Rightarrow> slot_id list" where
  "local_arcs (SubjectVacant key pooled) = opt_list pooled"
| "local_arcs (SubjectRestore key pooled) = opt_list pooled"
| "local_arcs (SubjectNumber key pooled) = opt_list pooled"
| "local_arcs (SubjectUnwind key pooled) = opt_list pooled"
| "local_arcs (SubjectSlot key pooled gen) = opt_list pooled"
| "local_arcs p = []"

definition held_arcs :: "('k, 'o) nspace \<Rightarrow> slot_id list" where
  "held_arcs c = (case writer (entries_lock c) of
     None \<Rightarrow> []
   | Some t \<Rightarrow> (case map_of (flights c) t of None \<Rightarrow> [] | Some (op, x, p) \<Rightarrow> local_arcs p))"

text \<open>\<open>Arc::strong_count\<close>, with the slots \<open>ps\<close> in local variables.\<close>

fun here :: "slot_id list \<Rightarrow> ('k, 'o) arc_count" where
  "here ps w (SlotArc s) = handle_count w (SlotArc s) + count_list ps s"
| "here ps w InnerArc = handle_count w InnerArc"

subsection \<open>The accesses under the lock\<close>

definition with_pool :: "slot_id list \<Rightarrow> 'k inner \<Rightarrow> 'k inner" where
  "with_pool ss i = i\<lparr>entries_of := (entries_of i)\<lparr>pool := ss\<rparr>\<rparr>"

definition with_map :: "'k small_map \<Rightarrow> 'k inner \<Rightarrow> 'k inner" where
  "with_map m i = i\<lparr>entries_of := (entries_of i)\<lparr>kmap := m\<rparr>\<rparr>"

text \<open>\<open>ObservationSpace::subject\<close>.\<close>

fun subject_section :: "('k, 'o) point \<Rightarrow> 'k inner \<Rightarrow> ('k, 'o) world \<Rightarrow> fault + ('k, 'o) point \<times> ('k, 'o) world" where
  "subject_section (SubjectPop key) i w =
     (let (pooled, rest) = pop (pool (entries_of i))
      in Inr (SubjectVacant key pooled, w\<lparr>inner := Some (with_pool rest i)\<rparr>))"
| "subject_section (SubjectVacant key pooled) i w =
     Inr (if is_vacant key (kmap (entries_of i)) then SubjectNumber key pooled else SubjectRestore key pooled, w)"
| "subject_section (SubjectRestore key pooled) i w =
     Inr (WriteUnlock (Ret (SubjectExists key)), w\<lparr>inner := Some (with_pool (pool (entries_of i) @ opt_list pooled) i)\<rparr>)"
| "subject_section (SubjectNumber key pooled) i w =
     (let gen = next_generation i
      in Inr (if gen = USIZE_MAX then SubjectUnwind key pooled else SubjectSlot key pooled gen,
              w\<lparr>inner := Some (i\<lparr>next_generation := gen + 1\<rparr>)\<rparr>))"
| "subject_section (SubjectUnwind key pooled) i w =
     (case (case pooled of Some s \<Rightarrow> release handle_count s w | None \<Rightarrow> Inr w) of
        Inl f \<Rightarrow> Inl f
      | Inr w \<Rightarrow> Inr (WriteUnlock (Panic GenerationExhausted), w))"
| "subject_section (SubjectSlot key pooled gen) i w =
     (case acquire_slot handle_count pooled w of
        Inl f \<Rightarrow> Inl f
      | Inr (s, w) \<Rightarrow>
          let (h, w) = fresh_handle w;
              sub = \<lparr>subject_key = key, subject_generation = gen, subject_slot = s, subject_completed = False\<rparr>
          in Inr (SubjectInsert key gen s h, w\<lparr>subjects := subjects w @ [(h, sub)]\<rparr>))"
| "subject_section (SubjectInsert key gen s h) i w =
     Inr (WriteUnlock (Ret (NewHandle h)),
       w\<lparr>inner := Some (with_map (insert_vacant key \<lparr>generation = gen, entry_slot = s\<rparr> (kmap (entries_of i))) i)\<rparr>)"
| "subject_section p i w = Inl Dangling"

text \<open>\<open>ObservationSpace::observe\<close>.\<close>

fun observe_section :: "('k, 'o) point \<Rightarrow> 'k inner \<Rightarrow> ('k, 'o) world \<Rightarrow> fault + ('k, 'o) point \<times> ('k, 'o) world" where
  "observe_section (ObserveGet key) i w =
     Inr (case sm_get key (kmap (entries_of i)) of
        None \<Rightarrow> ReadUnlock (Ret (UnknownSubject key))
      | Some entry \<Rightarrow> ObserveClone key (entry_slot entry), w)"
| "observe_section (ObserveClone key s) i w =
     (let (h, w) = fresh_handle w
      in Inr (ReadUnlock (Ret (NewHandle h)), w\<lparr>observations := observations w @ [(h, s)]\<rparr>))"
| "observe_section p i w = Inl Dangling"

text \<open>\<open>Drop for Subject\<close>, of the subject with handle \<open>x\<close>.\<close>

fun retire_section :: "handle \<Rightarrow> ('k, 'o) point \<Rightarrow> 'k inner \<Rightarrow> ('k, 'o) world \<Rightarrow> fault + ('k, 'o) point \<times> ('k, 'o) world" where
  "retire_section x RetireRemove i w =
     (case map_of (subjects w) x of
        None \<Rightarrow> Inl Dangling
      | Some sub \<Rightarrow>
          let (removed, m) = remove_if (subject_key sub) (subject_generation sub) (kmap (entries_of i));
              w1 = w\<lparr>inner := Some (with_map m i)\<rparr>
          in if removed then
               (case (case sm_get (subject_key sub) (kmap (entries_of i)) of
                        Some entry \<Rightarrow> release handle_count (entry_slot entry) w1
                      | None \<Rightarrow> Inr w1) of
                  Inl f \<Rightarrow> Inl f
                | Inr w2 \<Rightarrow> Inr (RetireCount, w2))
             else Inr (WriteUnlock (Ret Done),
                    w1\<lparr>subjects := AList.delete x (subjects w1), retiring := retiring w1 @ [(x, sub)]\<rparr>))"
| "retire_section x RetireCount i w =
     (case map_of (subjects w) x of
        None \<Rightarrow> Inl Dangling
      | Some sub \<Rightarrow>
          Inr (if handle_count w (SlotArc (subject_slot sub)) = 1 \<and> length (pool (entries_of i)) < SLOT_POOL_CAP
               then RetirePush else WriteUnlock (Ret Done),
            w\<lparr>subjects := AList.delete x (subjects w), retiring := retiring w @ [(x, sub)]\<rparr>))"
| "retire_section x RetirePush i w =
     (case map_of (retiring w) x of
        None \<Rightarrow> Inl Dangling
      | Some sub \<Rightarrow> Inr (WriteUnlock (Ret Done),
          w\<lparr>inner := Some (with_pool (pool (entries_of i) @ [subject_slot sub]) i)\<rparr>))"
| "retire_section x p i w = Inl Dangling"

text \<open>\<open>x\<close> is the value the call is on.\<close>

fun section_step :: "handle \<Rightarrow> ('k, 'o) point \<Rightarrow> 'k inner \<Rightarrow> ('k, 'o) world \<Rightarrow> fault + ('k, 'o) point \<times> ('k, 'o) world" where
  "section_step x (SubjectPop key) i w = subject_section (SubjectPop key) i w"
| "section_step x (SubjectVacant key pooled) i w = subject_section (SubjectVacant key pooled) i w"
| "section_step x (SubjectRestore key pooled) i w = subject_section (SubjectRestore key pooled) i w"
| "section_step x (SubjectNumber key pooled) i w = subject_section (SubjectNumber key pooled) i w"
| "section_step x (SubjectUnwind key pooled) i w = subject_section (SubjectUnwind key pooled) i w"
| "section_step x (SubjectSlot key pooled gen) i w = subject_section (SubjectSlot key pooled gen) i w"
| "section_step x (SubjectInsert key gen s h) i w = subject_section (SubjectInsert key gen s h) i w"
| "section_step x (ObserveGet key) i w = observe_section (ObserveGet key) i w"
| "section_step x (ObserveClone key s) i w = observe_section (ObserveClone key s) i w"
| "section_step x RetireRemove i w = retire_section x RetireRemove i w"
| "section_step x RetireCount i w = retire_section x RetireCount i w"
| "section_step x RetirePush i w = retire_section x RetirePush i w"
| "section_step x p i w = Inl Dangling"

subsection \<open>The moves\<close>

datatype ('k, 'o) nevent =
    Called thread_id "('k, 'o) op"
  | Returned thread_id "('k, 'o) op" "('k, 'o) reply call"
  | Did "('k, 'o) op" "('k, 'o) reply call"

text \<open>
  A thread calls an operation of the namespace on a value, a call in flight makes its next access,
  or some thread performs an operation that takes no entries lock.
\<close>

datatype ('k, 'o) nmove =
    Invoke thread_id handle "('k, 'o) op"
  | Go thread_id
  | Elsewhere "('k, 'o) op"

fun entry_point :: "('k, 'o) op \<Rightarrow> ('k, 'o) point option" where
  "entry_point (MakeSubject key) = Some (SubjectLock key)"
| "entry_point (Observe key) = Some (ObserveLock key)"
| "entry_point (DropSubject h) = Some RetireLock"
| "entry_point op = None"

fun names :: "('k, 'o) op \<Rightarrow> handle \<Rightarrow> bool" where
  "names (DropSpace h) x = (h = x)"
| "names (Complete h v) x = (h = x)"
| "names (DropSubject h) x = (h = x)"
| "names (DropSubjectInner h) x = (h = x)"
| "names (DropSubjectSlot h) x = (h = x)"
| "names (Publish h v) x = (h = x)"
| "names (DropPublisher h) x = (h = x)"
| "names (CloneObservation h) x = (h = x)"
| "names (DropObservation h) x = (h = x)"
| "names (TryGet h) x = (h = x)"
| "names (IntoOutcome h) x = (h = x)"
| "names (RegisterWaker h k) x = (h = x)"
| "names (Wait h t) x = (h = x)"
| "names (WaitTimeout h t imax start timeout now) x = (h = x)"
| "names (IntoFuture h) x = (h = x)"
| "names (Poll h k) x = (h = x)"
| "names (DropFuture h) x = (h = x)"
| "names _ x = False"

text \<open>
  What a call in flight keeps from the other threads: the value it is on, and the value it is going
  to return.
\<close>

fun reply_handles :: "('k, 'o) reply call \<Rightarrow> handle list" where
  "reply_handles (Ret (NewHandle h)) = [h]"
| "reply_handles r = []"

fun new_handles :: "('k, 'o) point \<Rightarrow> handle list" where
  "new_handles (SubjectInsert key gen s h) = [h]"
| "new_handles (WriteUnlock r) = reply_handles r"
| "new_handles (ReadUnlock r) = reply_handles r"
| "new_handles (Returning r) = reply_handles r"
| "new_handles p = []"

definition busy :: "('k, 'o) nspace \<Rightarrow> handle list" where
  "busy c = concat (map (\<lambda>(t, op, x, p). x # new_handles p) (flights c))"

text \<open>A space may be borrowed by several calls; a subject is dropped by its owner.\<close>

fun may_invoke :: "('k, 'o) op \<Rightarrow> handle \<Rightarrow> ('k, 'o) nspace \<Rightarrow> bool" where
  "may_invoke (DropSubject h) x c = (x = h \<and> map_of (subjects (mem c)) h \<noteq> None \<and> h \<notin> set (busy c))"
| "may_invoke op x c = (map_of (spaces (mem c)) x \<noteq> None)"

definition goes :: "thread_id \<Rightarrow> ('k, 'o) op \<Rightarrow> handle \<Rightarrow> ('k, 'o) point \<Rightarrow> ('k, 'o) nspace \<Rightarrow> ('k, 'o) nspace" where
  "goes t op x p c = c\<lparr>flights := AList.update t (op, x, p) (flights c)\<rparr>"

fun proceed :: "thread_id \<Rightarrow> ('k, 'o) op \<Rightarrow> handle \<Rightarrow> ('k, 'o) point \<Rightarrow> ('k, 'o) nspace \<Rightarrow>
    (fault + ('k, 'o) nevent list \<times> ('k, 'o) nspace) option" where
  "proceed t op x (SubjectLock key) c =
     map_option (\<lambda>l. Inr ([], goes t op x (SubjectPop key) (c\<lparr>entries_lock := l\<rparr>))) (write_lock t (entries_lock c))"
| "proceed t op x (ObserveLock key) c =
     map_option (\<lambda>l. Inr ([], goes t op x (ObserveGet key) (c\<lparr>entries_lock := l\<rparr>))) (read_lock t (entries_lock c))"
| "proceed t op x RetireLock c =
     map_option (\<lambda>l. Inr ([], goes t op x RetireRemove (c\<lparr>entries_lock := l\<rparr>))) (write_lock t (entries_lock c))"
| "proceed t op x (WriteUnlock r) c =
     Some (Inr ([], goes t op x (Returning r) (c\<lparr>entries_lock := write_unlock (entries_lock c)\<rparr>)))"
| "proceed t op x (ReadUnlock r) c =
     Some (Inr ([], goes t op x (Returning r) (c\<lparr>entries_lock := read_unlock t (entries_lock c)\<rparr>)))"
| "proceed t op x (Returning r) c = Some (Inr ([Returned t op r], c\<lparr>flights := AList.delete t (flights c)\<rparr>))"
| "proceed t op x p c = Some (case inner (mem c) of
       None \<Rightarrow> Inl Dangling
     | Some i \<Rightarrow> (case section_step x p i (mem c) of
           Inl f \<Rightarrow> Inl f
         | Inr (p', w) \<Rightarrow> Inr ([], goes t op x p' (c\<lparr>mem := w\<rparr>))))"

fun nstep :: "(waker \<Rightarrow> bool) \<Rightarrow> ('k, 'o) nmove \<Rightarrow> ('k, 'o) nspace \<Rightarrow>
    (fault + ('k, 'o) nevent list \<times> ('k, 'o) nspace) option" where
  "nstep wp (Invoke t x op) c = (case entry_point op of
       None \<Rightarrow> None
     | Some p \<Rightarrow>
         if map_of (flights c) t = None \<and> may_invoke op x c
         then Some (Inr ([Called t op], goes t op x p c)) else None)"
| "nstep wp (Go t) c = (case map_of (flights c) t of
       None \<Rightarrow> None
     | Some (op, x, p) \<Rightarrow> proceed t op x p c)"
| "nstep wp (Elsewhere op) c =
     (if entry_point op = None \<and> owns op (mem c) \<and> (\<forall>x\<in>set (busy c). \<not> names op x)
      then Some (case exec (here (held_arcs c)) wp op (mem c) of
          Inl f \<Rightarrow> Inl f
        | Inr (r, w) \<Rightarrow> Inr ([Did op r], c\<lparr>mem := w\<rparr>))
      else None)"

text \<open>A run of the moves, when each is possible: its events and the state, or a fault.\<close>

fun nrun :: "(waker \<Rightarrow> bool) \<Rightarrow> ('k, 'o) nmove list \<Rightarrow> ('k, 'o) nspace \<Rightarrow>
    (fault + ('k, 'o) nevent list \<times> ('k, 'o) nspace) option" where
  "nrun wp [] c = Some (Inr ([], c))"
| "nrun wp (m # ms) c = (case nstep wp m c of
       None \<Rightarrow> None
     | Some (Inl f) \<Rightarrow> Some (Inl f)
     | Some (Inr (es, c')) \<Rightarrow> (case nrun wp ms c' of
           None \<Rightarrow> None
         | Some (Inl f) \<Rightarrow> Some (Inl f)
         | Some (Inr (es', c'')) \<Rightarrow> Some (Inr (es @ es', c''))))"

end
