(* ===== verification/Namespace_Simulation.thy ===== *)
theory Namespace_Simulation
  imports Namespace_Protocol Lifecycle
begin

section \<open>The namespace and its atomic counterpart\<close>

subsection \<open>Operations that do not look at the key table\<close>

text \<open>
  An operation that takes no entries lock does not depend on the key table, the pool or the
  generation counter: with another namespace in their place it does the same, as long as the counts
  it asks for agree and some value keeps the namespace alive.
\<close>

definition put_inner :: "'k inner option \<Rightarrow> ('k, 'o) world \<Rightarrow> ('k, 'o) world" where
  "put_inner i w = w\<lparr>inner := i\<rparr>"

lemma put_inner_simps [simp]:
  "heap (put_inner i w) = heap w" "next_slot (put_inner i w) = next_slot w" "next_handle (put_inner i w) = next_handle w"
  "inner (put_inner i w) = i" "spaces (put_inner i w) = spaces w" "subjects (put_inner i w) = subjects w"
  "retiring (put_inner i w) = retiring w" "dying (put_inner i w) = dying w" "publishers (put_inner i w) = publishers w"
  "observations (put_inner i w) = observations w" "futures (put_inner i w) = futures w"
  "created (put_inner i w) = created w" "dropped (put_inner i w) = dropped w" "moved (put_inner i w) = moved w"
  "woken (put_inner i w) = woken w" "put_inner i (put_inner j w) = put_inner i w" "put_inner (inner w) w = w" "drop_panics (put_inner i w) = drop_panics w"
  by (simp_all add: put_inner_def)

lemma put_inner_upd [simp]:
  "put_inner i w\<lparr>heap := x1\<rparr> = put_inner i (w\<lparr>heap := x1\<rparr>)"
  "put_inner i w\<lparr>next_slot := x2\<rparr> = put_inner i (w\<lparr>next_slot := x2\<rparr>)"
  "put_inner i w\<lparr>next_handle := x3\<rparr> = put_inner i (w\<lparr>next_handle := x3\<rparr>)"
  "put_inner i w\<lparr>spaces := x4\<rparr> = put_inner i (w\<lparr>spaces := x4\<rparr>)"
  "put_inner i w\<lparr>subjects := x5\<rparr> = put_inner i (w\<lparr>subjects := x5\<rparr>)"
  "put_inner i w\<lparr>retiring := x6\<rparr> = put_inner i (w\<lparr>retiring := x6\<rparr>)"
  "put_inner i w\<lparr>dying := x7\<rparr> = put_inner i (w\<lparr>dying := x7\<rparr>)"
  "put_inner i w\<lparr>publishers := x7\<rparr> = put_inner i (w\<lparr>publishers := x7\<rparr>)"
  "put_inner i w\<lparr>observations := x7\<rparr> = put_inner i (w\<lparr>observations := x7\<rparr>)"
  "put_inner i w\<lparr>futures := x8\<rparr> = put_inner i (w\<lparr>futures := x8\<rparr>)"
  "put_inner i w\<lparr>created := x9\<rparr> = put_inner i (w\<lparr>created := x9\<rparr>)"
  "put_inner i w\<lparr>dropped := x9\<rparr> = put_inner i (w\<lparr>dropped := x9\<rparr>)"
  "put_inner i w\<lparr>moved := x9\<rparr> = put_inner i (w\<lparr>moved := x9\<rparr>)"
  "put_inner i w\<lparr>woken := x10\<rparr> = put_inner i (w\<lparr>woken := x10\<rparr>)"
  "put_inner i w\<lparr>inner := j\<rparr> = put_inner j w"
  by (simp_all add: put_inner_def)

lemma put_inner_absorb [simp]: "put_inner i (w\<lparr>inner := j\<rparr>) = put_inner i w"
  by (simp add: put_inner_def)

definition on_result :: "('w \<Rightarrow> 'v) \<Rightarrow> fault + 'r \<times> 'w \<Rightarrow> fault + 'r \<times> 'v" where
  "on_result g x = (case x of Inl f \<Rightarrow> Inl f | Inr (r, w) \<Rightarrow> Inr (r, g w))"

lemma on_result_simps [simp]: "on_result g (Inl f) = Inl f" "on_result g (Inr (r, w)) = Inr (r, g w)"
  by (simp_all add: on_result_def)

lemma on_slot_put: "on_slot s f (put_inner i w) = on_result (put_inner i) (on_slot s f w)"
  by (auto simp: on_slot_def split: option.splits sum.splits)

lemma publish_put: "publish wp s v (put_inner i w) = on_result (put_inner i) (publish wp s v w)"
  by (auto simp: publish_def on_slot_put split: sum.splits)

lemma free_slot_put: "free_slot s (put_inner i w) = (case free_slot s w of Inl f \<Rightarrow> Inl f | Inr w' \<Rightarrow> Inr (put_inner i w'))"
  by (auto simp: free_slot_def put_inner_def split: option.splits sum.splits call.splits)

lemma release_put:
  assumes "sc w (SlotArc s) = 0 \<longleftrightarrow> sc' (put_inner i w) (SlotArc s) = 0"
  shows "release sc' s (put_inner i w) = (case release sc s w of Inl f \<Rightarrow> Inl f | Inr w' \<Rightarrow> Inr (put_inner i w'))"
  using assms by (auto simp: release_def free_slot_put split: sum.splits)

lemma release_inner_shared: "inner w \<noteq> None \<Longrightarrow> sc w InnerArc \<noteq> 0 \<Longrightarrow> release_inner sc w = Inr w"
  by (auto simp: release_inner_def)

lemma not_emptied: "map_of xs x \<noteq> None \<Longrightarrow> h \<noteq> x \<Longrightarrow> AList.delete h xs \<noteq> []"
  using map_of_not_Nil [of "AList.delete h xs" x] by (auto simp: AList.delete_conv')

definition pins :: "handle \<Rightarrow> ('k, 'o) world \<Rightarrow> bool" where
  "pins x w \<longleftrightarrow> map_of (spaces w) x \<noteq> None \<or> map_of (subjects w) x \<noteq> None \<or> map_of (retiring w) x \<noteq> None"

lemma exec_put:
  assumes out: "entry_point op = None" and i: "inner w = Some ic" and x: "pins x w" "\<not> names op x"
    and inn: "\<And>w. sc w InnerArc = handle_count w InnerArc" "\<And>w. sc' w InnerArc = handle_count w InnerArc"
    and zero: "\<And>w' s. inner w' = Some ic \<Longrightarrow> subjects w' = subjects w \<Longrightarrow> retiring w' = retiring w \<Longrightarrow>
      sc w' (SlotArc s) = 0 \<longleftrightarrow> sc' (put_inner (Some ia) w') (SlotArc s) = 0"
    and one: "\<And>h s. map_of (observations w) h = Some s \<Longrightarrow>
      sc w (SlotArc s) = 1 \<longleftrightarrow> sc' (put_inner (Some ia) w) (SlotArc s) = 1"
  shows "exec sc' wp op (put_inner (Some ia) w) = on_result (put_inner (Some ia)) (exec sc wp op w)"
proof (cases op)
  case (DropSpace h)
  let ?w = "w\<lparr>spaces := AList.delete h (spaces w)\<rparr>"
  have "handle_count ?w InnerArc \<noteq> 0" using x DropSpace not_emptied [of "spaces w" x h] by (auto simp: pins_def)
  then have "release_inner sc ?w = Inr ?w" "release_inner sc' (put_inner (Some ia) ?w) = Inr (put_inner (Some ia) ?w)"
    using i by (simp_all add: inn release_inner_shared)
  with DropSpace show ?thesis by (simp add: space_drop_def split: option.split)
next
  case (DropSubjectInner h)
  have "release_inner sc v = Inr v \<and> release_inner sc' (put_inner (Some ia) v) = Inr (put_inner (Some ia) v)"
    if w: "v = w\<lparr>retiring := AList.delete h (retiring w), dying := d\<rparr>" for v d
  proof -
    have "handle_count v InnerArc \<noteq> 0" using x DropSubjectInner not_emptied [of "retiring w" x h] by (auto simp: pins_def w)
    with i show ?thesis by (simp add: inn release_inner_shared w)
  qed
  with DropSubjectInner show ?thesis by (simp add: subject_drop_inner_def split: option.split)
next
  case (DropSubjectSlot h)
  then show ?thesis using i zero
    by (auto simp: subject_drop_slot_def release_put [where sc = sc and sc' = sc'] split: option.split sum.split)
next
  case (Publish h v)
  have eq: "release sc' s (put_inner (Some ia) (w1\<lparr>publishers := y\<rparr>)) =
      (case release sc s (w1\<lparr>publishers := y\<rparr>) of Inl f \<Rightarrow> Inl f | Inr w2 \<Rightarrow> Inr (put_inner (Some ia) w2))"
    if "publish wp s v w = Inr (r, w1)" for s r w1 y
    using publish_inner [OF that] publish_handles [OF that] i by (intro release_put zero) (simp_all add: same_handles_def)
  from Publish show ?thesis by (auto simp: publisher_complete_def publish_put eq on_result_def split: option.split sum.split)
next
  case (DropFuture h)
  have eq: "release sc' s (put_inner (Some ia) (w1\<lparr>futures := y\<rparr>)) =
      (case release sc s (w1\<lparr>futures := y\<rparr>) of Inl f \<Rightarrow> Inl f | Inr w2 \<Rightarrow> Inr (put_inner (Some ia) w2))"
    if "on_slot s f w = Inr (r, w1)" for s f r w1 y
    using on_slot_inner [OF that] on_slot_handles [OF that] i by (intro release_put zero) (simp_all add: same_handles_def)
  from DropFuture show ?thesis by (auto simp: observation_future_drop_def on_slot_put eq on_result_def split: option.split sum.split)
next
  case (IntoOutcome h)
  then show ?thesis using i zero one
    by (auto simp: observation_into_outcome_def Let_def release_put [where sc = sc and sc' = sc'] split: option.split sum.split call.split)
next
  case (DropObservation h)
  then show ?thesis using i zero
    by (auto simp: observation_drop_def release_put [where sc = sc and sc' = sc'] split: option.split sum.split)
qed (use out i zero in \<open>auto simp: op_defs fresh_handle_def alloc_slot_def Let_def on_slot_put publish_put
      release_put [where sc = sc and sc' = sc'] split: option.splits sum.splits prod.splits call.splits if_splits\<close>)

lemma exec_put_inner:
  assumes out: "entry_point op = None" and i: "inner w = Some ic" and x: "pins x w" "\<not> names op x"
    and inn: "\<And>w. sc w InnerArc = handle_count w InnerArc" and ex: "exec sc wp op w = Inr (r, w')"
  shows "inner (w' :: ('k, 'o) world) = Some ic"
proof -
  have same: "put_inner (Some ic) v = v" if "inner v = Some ic" for v :: "('k, 'o) world"
    using put_inner_simps(17) [of v] that by simp
  have "exec sc wp op (put_inner (Some ic) w) = on_result (put_inner (Some ic)) (exec sc wp op w)"
    by (rule exec_put [where ic = ic and x = x]) (simp_all add: out i x inn same)
  then have "w' = put_inner (Some ic) w'" using ex by (simp add: same i)
  then show ?thesis by (metis put_inner_simps(4))
qed

subsection \<open>The atomic namespace\<close>

text \<open>
  What the client relies on: a call takes effect at one instant between its invocation and its
  return, as the sequential operation of \<open>Space\<close>.
\<close>

record ('k, 'o) atomic =
  abstract :: "('k, 'o) world"
  calls :: "(thread_id \<times> ('k, 'o) op \<times> ('k, 'o) reply call option) list"

definition atomic_new :: "('k, 'o) atomic" where
  "atomic_new = \<lparr>abstract = space_new, calls = []\<rparr>"

datatype ('k, 'o) amove =
    Begins thread_id "('k, 'o) op"
  | Linearizes thread_id
  | Ends thread_id
  | Does "('k, 'o) op"

fun astep :: "(waker \<Rightarrow> bool) \<Rightarrow> ('k, 'o) amove \<Rightarrow> ('k, 'o) atomic \<Rightarrow> (('k, 'o) nevent list \<times> ('k, 'o) atomic) option" where
  "astep wp (Begins t op) a =
     (if map_of (calls a) t = None \<and> entry_point op \<noteq> None
      then Some ([Called t op], a\<lparr>calls := AList.update t (op, None) (calls a)\<rparr>) else None)"
| "astep wp (Linearizes t) a = (case map_of (calls a) t of
       Some (op, None) \<Rightarrow>
         (if owns op (abstract a) then (case exec handle_count wp op (abstract a) of
            Inl f \<Rightarrow> None
          | Inr (r, w) \<Rightarrow> Some ([], a\<lparr>abstract := w, calls := AList.update t (op, Some r) (calls a)\<rparr>)) else None)
     | _ \<Rightarrow> None)"
| "astep wp (Ends t) a = (case map_of (calls a) t of
       Some (op, Some r) \<Rightarrow> Some ([Returned t op r], a\<lparr>calls := AList.delete t (calls a)\<rparr>)
     | _ \<Rightarrow> None)"
| "astep wp (Does op) a =
     (if entry_point op = None \<and> owns op (abstract a) then (case exec handle_count wp op (abstract a) of
            Inl f \<Rightarrow> None
          | Inr (r, w) \<Rightarrow> Some ([Did op r], a\<lparr>abstract := w\<rparr>)) else None)"

fun arun :: "(waker \<Rightarrow> bool) \<Rightarrow> ('k, 'o) amove list \<Rightarrow> ('k, 'o) atomic \<Rightarrow> (('k, 'o) nevent list \<times> ('k, 'o) atomic) option" where
  "arun wp [] a = Some ([], a)"
| "arun wp (m # ms) a = (case astep wp m a of
       None \<Rightarrow> None
     | Some (es, a') \<Rightarrow> map_option (\<lambda>(es', a''). (es @ es', a'')) (arun wp ms a'))"

lemma arun_append:
  "arun wp (ms @ ms') a = (case arun wp ms a of
     None \<Rightarrow> None
   | Some (es, a') \<Rightarrow> map_option (\<lambda>(es', a''). (es @ es', a'')) (arun wp ms' a'))"
  by (induction ms arbitrary: a) (auto simp: option.map_comp comp_def split_beta option.map_id split: option.splits prod.splits intro!: option.map_cong)

lemma astep_reach: "astep wp m a = Some (es, a') \<Longrightarrow> reach handle_count (abstract a) \<Longrightarrow> reach handle_count (abstract a')"
  by (cases m) (auto split: if_splits option.splits prod.splits sum.splits intro: reach.step)

subsection \<open>The simulation\<close>

text \<open>The reply of a call that has taken effect.\<close>

fun replied :: "('k, 'o) point \<Rightarrow> ('k, 'o) reply call option" where
  "replied (SubjectRestore key pooled) = Some (Ret (SubjectExists key))"
| "replied (SubjectInsert key gen s h) = Some (Ret (NewHandle h))"
| "replied RetirePush = Some (Ret Done)"
| "replied (WriteUnlock r) = Some r"
| "replied (ReadUnlock r) = Some r"
| "replied (Returning r) = Some r"
| "replied p = None"

fun writes :: "('k, 'o) point \<Rightarrow> bool" where
  "writes (SubjectLock key) = False"
| "writes (ObserveLock key) = False"
| "writes (ObserveGet key) = False"
| "writes (ObserveClone key s) = False"
| "writes RetireLock = False"
| "writes (ReadUnlock r) = False"
| "writes (Returning r) = False"
| "writes p = True"

fun reads :: "('k, 'o) point \<Rightarrow> bool" where
  "reads (ObserveGet key) = True"
| "reads (ObserveClone key s) = True"
| "reads (ReadUnlock r) = True"
| "reads p = False"

text \<open>The points of each operation.\<close>

fun subject_at :: "('k, 'o) point \<Rightarrow> 'k \<Rightarrow> bool" where
  "subject_at (SubjectLock k) key = (k = key)"
| "subject_at (SubjectPop k) key = (k = key)"
| "subject_at (SubjectVacant k p) key = (k = key)"
| "subject_at (SubjectRestore k p) key = (k = key)"
| "subject_at (SubjectNumber k p) key = (k = key)"
| "subject_at (SubjectUnwind k p) key = (k = key)"
| "subject_at (SubjectSlot k p g) key = (k = key)"
| "subject_at (SubjectInsert k g s h) key = (k = key)"
| "subject_at (WriteUnlock r) key = True"
| "subject_at (Returning r) key = True"
| "subject_at p key = False"

fun observe_at :: "('k, 'o) point \<Rightarrow> 'k \<Rightarrow> bool" where
  "observe_at (ObserveLock k) key = (k = key)"
| "observe_at (ObserveGet k) key = (k = key)"
| "observe_at (ObserveClone k s) key = (k = key)"
| "observe_at (ReadUnlock r) key = True"
| "observe_at (Returning r) key = True"
| "observe_at p key = False"

fun retire_at :: "('k, 'o) point \<Rightarrow> bool" where
  "retire_at RetireLock = True"
| "retire_at RetireRemove = True"
| "retire_at RetireCount = True"
| "retire_at RetirePush = True"
| "retire_at (WriteUnlock r) = True"
| "retire_at (Returning r) = True"
| "retire_at p = False"

fun fits :: "('k, 'o) op \<Rightarrow> ('k, 'o) point \<Rightarrow> bool" where
  "fits (MakeSubject key) p = subject_at p key"
| "fits (Observe key) p = observe_at p key"
| "fits (DropSubject h) p = retire_at p"
| "fits op p = False"

fun pinned :: "('k, 'o) op \<Rightarrow> ('k, 'o) point \<Rightarrow> handle \<Rightarrow> ('k, 'o) world \<Rightarrow> bool" where
  "pinned (DropSubject h) p x w = (x = h \<and> (if replied p = None then map_of (subjects w) x \<noteq> None else map_of (retiring w) x \<noteq> None))"
| "pinned op p x w = (map_of (spaces w) x \<noteq> None)"

text \<open>
  What the writer has changed ahead of, or has still to change after, the instant its call takes
  effect: \<open>ic\<close> is the namespace in memory, \<open>ia\<close> the atomic one.
\<close>

definition popped :: "slot_id option \<Rightarrow> 'k inner \<Rightarrow> 'k inner \<Rightarrow> bool" where
  "popped pooled ic ia \<longleftrightarrow> pop (pool (entries_of ia)) = (pooled, pool (entries_of ic)) \<and> ia = with_pool (pool (entries_of ia)) ic"

definition numbered :: "usize \<Rightarrow> slot_id option \<Rightarrow> 'k inner \<Rightarrow> 'k inner \<Rightarrow> bool" where
  "numbered gen pooled ic ia \<longleftrightarrow> next_generation ic = gen + 1 \<and> popped pooled (ic\<lparr>next_generation := gen\<rparr>) ia"

fun gap :: "('k, 'o) point \<Rightarrow> handle \<Rightarrow> ('k, 'o) world \<Rightarrow> 'k inner \<Rightarrow> 'k inner \<Rightarrow> bool" where
  "gap (SubjectVacant key pooled) x w ic ia = popped pooled ic ia"
| "gap (SubjectRestore key pooled) x w ic ia = popped pooled ic ia"
| "gap (SubjectNumber key pooled) x w ic ia = (popped pooled ic ia \<and> is_vacant key (kmap (entries_of ic)))"
| "gap (SubjectUnwind key pooled) x w ic ia = (numbered USIZE_MAX pooled ic ia \<and> is_vacant key (kmap (entries_of ic)))"
| "gap (SubjectSlot key pooled gen) x w ic ia =
     (numbered gen pooled ic ia \<and> gen \<noteq> USIZE_MAX \<and> is_vacant key (kmap (entries_of ic)))"
| "gap (SubjectInsert key gen s h) x w ic ia =
     (ia = with_map (insert_vacant key \<lparr>generation = gen, entry_slot = s\<rparr> (kmap (entries_of ic))) ic \<and>
      sm_wf (kmap (entries_of ic)) \<and> is_vacant key (kmap (entries_of ic)) \<and> map_option subject_slot (map_of (subjects w) h) = Some s)"
| "gap RetireCount x w ic ia = (ia = with_map (kmap (entries_of ia)) ic \<and> (\<exists>sub. map_of (subjects w) x = Some sub \<and>
      remove_if (subject_key sub) (subject_generation sub) (kmap (entries_of ia)) = (True, kmap (entries_of ic))))"
| "gap RetirePush x w ic ia = (\<exists>sub. map_of (retiring w) x = Some sub \<and> ia = with_pool (pool (entries_of ic) @ [subject_slot sub]) ic)"
| "gap p x w ic ia = (ia = ic)"

definition flight_ok :: "thread_id \<Rightarrow> ('k, 'o) flight \<Rightarrow> ('k, 'o) nspace \<Rightarrow> bool" where
  "flight_ok t f c \<longleftrightarrow> (case f of (op, x, p) \<Rightarrow> fits op p \<and> pinned op p x (mem c)
     \<and> (writes p \<longleftrightarrow> writer (entries_lock c) = Some t) \<and> (reads p \<longleftrightarrow> t \<in> set (readers (entries_lock c)))
     \<and> (\<forall>key s. p = ObserveClone key s \<longrightarrow>
          (\<exists>i e. inner (mem c) = Some i \<and> sm_get key (kmap (entries_of i)) = Some e \<and> entry_slot e = s)))"

definition lock_ok :: "('k, 'o) nspace \<Rightarrow> bool" where
  "lock_ok c \<longleftrightarrow> distinct (readers (entries_lock c)) \<and> (\<forall>t\<in>set (readers (entries_lock c)). map_of (flights c) t \<noteq> None)
     \<and> (\<forall>t. writer (entries_lock c) = Some t \<longrightarrow> readers (entries_lock c) = [] \<and> map_of (flights c) t \<noteq> None)"

text \<open>A subject is dropped by one call.\<close>

definition exclusive :: "('k, 'o) nspace \<Rightarrow> bool" where
  "exclusive c \<longleftrightarrow> (\<forall>t t' x x' p p' h h'. map_of (flights c) t = Some (DropSubject h, x, p) \<longrightarrow>
     map_of (flights c) t' = Some (DropSubject h', x', p') \<longrightarrow> t \<noteq> t' \<longrightarrow> x \<noteq> x')"

definition in_step :: "('k, 'o) nspace \<Rightarrow> ('k, 'o) world \<Rightarrow> bool" where
  "in_step c w \<longleftrightarrow> w = put_inner (inner w) (mem c) \<and> (case writer (entries_lock c) of
     None \<Rightarrow> inner (mem c) = inner w
   | Some t \<Rightarrow> (\<exists>op x p ic ia. map_of (flights c) t = Some (op, x, p) \<and> inner (mem c) = Some ic \<and> inner w = Some ia \<and> gap p x (mem c) ic ia))"

definition simulates :: "('k, 'o) nspace \<Rightarrow> ('k, 'o) atomic \<Rightarrow> bool" where
  "simulates c a \<longleftrightarrow> reach handle_count (abstract a)
     \<and> (\<forall>t. map_of (calls a) t = map_option (\<lambda>(op, x, p). (op, replied p)) (map_of (flights c) t))
     \<and> (\<forall>t f. map_of (flights c) t = Some f \<longrightarrow> flight_ok t f c) \<and> lock_ok c \<and> exclusive c \<and> in_step c (abstract a)"

end
