(* ===== verification/Namespace_Refinement.thy ===== *)
theory Namespace_Refinement
  imports Namespace_Simulation
begin

section \<open>The namespace is linearizable\<close>

subsection \<open>Counts\<close>

lemma mset_opt_list: "pop xs = (pooled, ys) \<Longrightarrow> mset xs = mset ys + mset (opt_list pooled)"
  by (cases pooled) (auto simp: opt_list_def pop_Some)

lemma with_simps [simp]:
  "entries_of (with_pool ss i) = (entries_of i)\<lparr>pool := ss\<rparr>" "next_generation (with_pool ss i) = next_generation i"
  "entries_of (with_map m i) = (entries_of i)\<lparr>kmap := m\<rparr>" "next_generation (with_map m i) = next_generation i"
  by (simp_all add: with_pool_def with_map_def)

lemma table_refs_with [simp]:
  "table_refs (Some (with_pool ss i)) = image_mset (entry_slot \<circ> snd) (mset (sm_entries (kmap (entries_of i)))) + mset ss"
  "table_refs (Some (with_map m i)) = image_mset (entry_slot \<circ> snd) (mset (sm_entries m)) + mset (pool (entries_of i))"
  "table_refs (Some (i\<lparr>next_generation := g\<rparr>)) = table_refs (Some i)"
  by (simp_all add: table_refs_def with_pool_def with_map_def)

lemma popped_refs: "popped pooled ic ia \<Longrightarrow> table_refs (Some ia) = table_refs (Some ic) + mset (opt_list pooled)"
proof -
  assume p: "popped pooled ic ia"
  then have ia: "ia = with_pool (pool (entries_of ia)) ic" by (simp add: popped_def)
  have "mset (pool (entries_of ia)) = mset (pool (entries_of ic)) + mset (opt_list pooled)"
    using p by (intro mset_opt_list) (simp add: popped_def)
  moreover have "table_refs (Some ia) = image_mset (entry_slot \<circ> snd) (mset (sm_entries (kmap (entries_of ic)))) + mset (pool (entries_of ia))"
    by (subst ia) simp
  ultimately show ?thesis by (simp add: table_refs_def)
qed

lemma numbered_refs: "numbered gen pooled ic ia \<Longrightarrow> table_refs (Some ia) = table_refs (Some ic) + mset (opt_list pooled)"
  unfolding numbered_def by (elim conjE, drule popped_refs) simp

text \<open>
  The references the atomic namespace has and the memory has not are the popped slot, which is in a
  local variable, and at most one more, to a slot whose subject is being registered or dropped.
\<close>

definition own_slots :: "('k, 'o) world \<Rightarrow> slot_id set" where
  "own_slots w = (subject_slot \<circ> snd) ` (set (subjects w) \<union> set (retiring w))"

lemma own_slots_map_of:
  "map_of (subjects w) x = Some sub \<Longrightarrow> subject_slot sub \<in> own_slots w"
  "map_of (retiring w) x = Some sub \<Longrightarrow> subject_slot sub \<in> own_slots w"
  by (force simp: own_slots_def dest: map_of_SomeD)+

lemma gap_refs:
  assumes g: "gap p x w ic ia" and wf: "wf (put_inner (Some ia) w)"
  shows "\<exists>extra. table_refs (Some ia) = table_refs (Some ic) + mset (local_arcs p) + extra
    \<and> (extra = {#} \<or> (\<exists>s\<in>own_slots w. extra = {#s#}))"
proof (cases p)
  case (SubjectInsert key gen s h)
  with g have ia: "ia = with_map (insert_vacant key \<lparr>generation = gen, entry_slot = s\<rparr> (kmap (entries_of ic))) ic"
    and m: "sm_wf (kmap (entries_of ic))" "sm_get key (kmap (entries_of ic)) = None"
    and s: "map_option subject_slot (map_of (subjects w) h) = Some s"
    by (auto simp: is_vacant_get)
  have "s \<in> own_slots w" using s own_slots_map_of(1) by (auto simp: map_option_eq_Some)
  moreover have "table_refs (Some ia) = table_refs (Some ic) + {#s#}"
    using table.content_insert [OF m, of "\<lparr>generation = gen, entry_slot = s\<rparr>"]
    unfolding ia table_refs_with by (simp add: table_refs_def)
  ultimately show ?thesis using SubjectInsert by (intro exI [of _ "{#s#}"]) auto
next
  case RetireCount
  with g obtain sub where ia: "ia = with_map (kmap (entries_of ia)) ic" and sub: "map_of (subjects w) x = Some sub"
    and r: "remove_if (subject_key sub) (subject_generation sub) (kmap (entries_of ia)) = (True, kmap (entries_of ic))" by auto
  have i: "inner (put_inner (Some ia) w) = Some ia" by simp
  have mem: "(x, sub) \<in> set (subjects (put_inner (Some ia) w))" using map_of_SomeD [OF sub] by simp
  note get = subject_entry [OF wf i mem]
  have "sm_wf (kmap (entries_of ia))" using wfD(4) [OF wf] by (simp add: table_inv_def)
  from sm_remove_hit(2) [OF this get] r
  have "mset (sm_entries (kmap (entries_of ia))) = add_mset (subject_key sub,
      \<lparr>generation = subject_generation sub, entry_slot = subject_slot sub\<rparr>) (mset (sm_entries (kmap (entries_of ic))))"
    by simp
  then have "table_refs (Some ia) = table_refs (Some ic) + {#subject_slot sub#}"
    using arg_cong [OF ia, of "\<lambda>i. pool (entries_of i)"] by (simp add: table_refs_def)
  with own_slots_map_of(1) [OF sub] RetireCount show ?thesis by (intro exI [of _ "{#subject_slot sub#}"]) auto
next
  case RetirePush
  with g obtain sub where "map_of (retiring w) x = Some sub" and ia: "ia = with_pool (pool (entries_of ic) @ [subject_slot sub]) ic" by auto
  with own_slots_map_of(2) [OF this(1)] RetirePush show ?thesis
    by (intro exI [of _ "{#subject_slot sub#}"]) (auto simp: table_refs_def [of "Some ic"])
qed (use g popped_refs [of _ ic ia] numbered_refs [of _ _ ic ia] in auto)

lemma put_refs:
  assumes "inner w = Some ic" and "table_refs (Some ia) = table_refs (Some ic) + m"
  shows "slot_refs (put_inner (Some ia) w) = slot_refs w + m"
  unfolding slot_refs_def put_inner_simps assms by (rule multiset_eqI) simp

lemma own_counted: "s \<in> own_slots w \<Longrightarrow> count (slot_refs w) s \<ge> 1"
proof -
  assume "s \<in> own_slots w"
  then have "s \<in> (subject_slot \<circ> snd) ` set (subjects w) \<or> s \<in> (subject_slot \<circ> snd) ` set (retiring w)"
    unfolding own_slots_def image_Un by (rule UnE) simp_all
  then have "s \<in># slot_refs w" by (auto simp: slot_refs_def)
  then show ?thesis by (simp only: count_greater_eq_one_iff)
qed

lemma own_observed_counted:
  assumes "s \<in> own_slots w" and "map_of (observations w) h = Some s"
  shows "count (slot_refs w) s \<ge> 2"
proof -
  have "s \<in># image_mset snd (mset (observations w))" using map_of_SomeD [OF assms(2)] by force
  then have o: "count (image_mset snd (mset (observations w))) s \<ge> 1" by (simp add: Suc_le_eq)
  have "s \<in># image_mset (subject_slot \<circ> snd) (mset (subjects w)) + image_mset (subject_slot \<circ> snd) (mset (retiring w))"
    using assms(1) by (force simp: own_slots_def)
  then have "count (image_mset (subject_slot \<circ> snd) (mset (subjects w)) + image_mset (subject_slot \<circ> snd) (mset (retiring w))) s \<ge> 1"
    by (simp only: Suc_le_eq count_greater_zero_iff One_nat_def)
  moreover have "count (slot_refs w) s \<ge> count (image_mset (subject_slot \<circ> snd) (mset (subjects w))
      + image_mset (subject_slot \<circ> snd) (mset (retiring w))) s + count (image_mset snd (mset (observations w))) s"
    by (simp add: slot_refs_def)
  ultimately show ?thesis using o by linarith
qed

lemma count_list_mset: "count_list xs x = count (mset xs) x"
  by (induction xs) auto

lemma gap_counts:
  fixes w w' :: "('k, 'o) world"
  assumes g: "gap p x w ic ia" and wf: "wf (put_inner (Some ia) w)"
  shows "inner w' = Some ic \<Longrightarrow> subjects w' = subjects w \<Longrightarrow> retiring w' = retiring w \<Longrightarrow>
      here (local_arcs p) w' (SlotArc s) = 0 \<longleftrightarrow> handle_count (put_inner (Some ia) w') (SlotArc s) = 0"
    and "inner w = Some ic \<Longrightarrow> map_of (observations w) h = Some s \<Longrightarrow>
      here (local_arcs p) w (SlotArc s) = 1 \<longleftrightarrow> handle_count (put_inner (Some ia) w) (SlotArc s) = 1"
proof -
  obtain extra where refs: "table_refs (Some ia) = table_refs (Some ic) + (mset (local_arcs p) + extra)"
    and extra: "extra = {#} \<or> (\<exists>s\<in>own_slots w. extra = {#s#})" using gap_refs [OF g wf] by (auto simp: add.assoc)
  have count: "handle_count (put_inner (Some ia) v) (SlotArc s) = here (local_arcs p) v (SlotArc s) + count extra s"
    if "inner v = Some ic" for v :: "('k, 'o) world"
    using put_refs [OF that refs] by (simp add: count_list_mset)
  show "here (local_arcs p) w' (SlotArc s) = 0 \<longleftrightarrow> handle_count (put_inner (Some ia) w') (SlotArc s) = 0"
    if w': "inner w' = Some ic" "subjects w' = subjects w" "retiring w' = retiring w"
  proof -
    have same: "own_slots w' = own_slots w" using w'(2,3) by (simp add: own_slots_def)
    show ?thesis
    proof (cases "s \<in> own_slots w")
      case True
      then have "count (slot_refs w') s \<ge> 1" by (intro own_counted) (simp add: same)
      then have "here (local_arcs p) w' (SlotArc s) \<noteq> 0" unfolding here.simps handle_count.simps by linarith
      then show ?thesis by (simp only: count [OF w'(1)] add_is_0 simp_thms)
    next
      case False
      with extra have "count extra s = 0" by auto
      then show ?thesis by (simp only: count [OF w'(1)] add_0_right)
    qed
  qed
  show "here (local_arcs p) w (SlotArc s) = 1 \<longleftrightarrow> handle_count (put_inner (Some ia) w) (SlotArc s) = 1"
    if "inner w = Some ic" "map_of (observations w) h = Some s"
  proof (cases "s \<in> own_slots w")
    case True
    with that(2) have "count (slot_refs w) s \<ge> 2" by (rule own_observed_counted [rotated])
    then have "here (local_arcs p) w (SlotArc s) \<ge> 2" unfolding here.simps handle_count.simps by linarith
    then show ?thesis unfolding count [OF that(1)] by linarith
  next
    case False
    with extra have "count extra s = 0" by auto
    then show ?thesis by (simp only: count [OF that(1)] add_0_right)
  qed
qed

subsection \<open>Moves of other threads\<close>

lemma here_Nil [simp]: "here [] = handle_count"
proof (intro ext)
  fix w :: "('k, 'o) world" and x
  show "here [] w x = handle_count w x" by (cases x) simp_all
qed

lemma owns_put [simp]: "owns op (put_inner i w) = owns op w"
  by (cases op) simp_all

lemma uses_names: "uses op x \<Longrightarrow> names op x"
  by (cases op) auto

lemma pinned_pins: "pinned op p x w \<Longrightarrow> pins x w"
  by (cases op) (auto simp: pins_def split: if_splits)

lemma pins_put [simp]: "pins x (put_inner i w) = pins x w"
  by (simp add: pins_def)

lemma pins_inner: "wf w \<Longrightarrow> pins x w \<Longrightarrow> \<exists>i. inner w = Some i"
  using wfD(4) [of w] by (cases "inner w") (auto simp: table_inv_def pins_def)

lemma simulatesD:
  assumes "simulates c a"
  shows "reach handle_count (abstract a)"
    and "map_of (calls a) t = map_option (\<lambda>(op, x, p). (op, replied p)) (map_of (flights c) t)"
    and "map_of (flights c) t = Some f \<Longrightarrow> flight_ok t f c" and "lock_ok c" and "exclusive c" and "in_step c (abstract a)"
    and "wf (abstract a)"
  using assms reach_wf [OF handle_count_sound, of "abstract a"] unfolding simulates_def by (cases f, blast)+

lemma flight_okD:
  assumes "flight_ok t (op, x, p) c"
  shows "fits op p" and "pinned op p x (mem c)" and "writes p \<longleftrightarrow> writer (entries_lock c) = Some t"
    and "reads p \<longleftrightarrow> t \<in> set (readers (entries_lock c))"
    and "p = ObserveClone key s \<Longrightarrow> \<exists>i e. inner (mem c) = Some i \<and> sm_get key (kmap (entries_of i)) = Some e \<and> entry_slot e = s"
  using assms by (auto simp: flight_ok_def)

lemma busy_flight:
  "map_of (flights c) t = Some (op, x, p) \<Longrightarrow> y = x \<or> y \<in> set (new_handles p) \<Longrightarrow> y \<in> set (busy c)"
  by (drule map_of_SomeD) (force simp: busy_def)

lemma in_step_cases:
  assumes "simulates c a" and "map_of (flights c) t0 = Some f"
  obtains ic ia where "inner (mem c) = Some ic" and "inner (abstract a) = Some ia" and "abstract a = put_inner (Some ia) (mem c)"
    and "writer (entries_lock c) = None \<Longrightarrow> ic = ia \<and> held_arcs c = []"
    and "\<And>t op x p. writer (entries_lock c) = Some t \<Longrightarrow> map_of (flights c) t = Some (op, x, p) \<Longrightarrow>
      gap p x (mem c) ic ia \<and> held_arcs c = local_arcs p"
proof -
  note sim = simulatesD [OF assms(1)]
  obtain op0 x0 p0 where "f = (op0, x0, p0)" by (cases f)
  with sim(3) [OF assms(2)] have "pins x0 (mem c)" using flight_okD(2) pinned_pins by blast
  moreover have e: "abstract a = put_inner (inner (abstract a)) (mem c)" using sim(6) by (simp add: in_step_def)
  ultimately have "pins x0 (abstract a)" using pins_put by metis
  with pins_inner [OF sim(7)] obtain ia where ia: "inner (abstract a) = Some ia" by blast
  show ?thesis
  proof (cases "writer (entries_lock c)")
    case None
    then have "inner (mem c) = Some ia" using sim(6) ia by (simp add: in_step_def)
    from that [OF this ia] e ia None show ?thesis by (simp add: held_arcs_def)
  next
    case (Some t)
    with sim(6) ia obtain op x p ic where
      g: "map_of (flights c) t = Some (op, x, p)" "inner (mem c) = Some ic" "gap p x (mem c) ic ia"
      by (auto simp: in_step_def)
    show ?thesis
    proof (rule that [OF g(2) ia])
      show "abstract a = put_inner (Some ia) (mem c)" using e ia by simp
      show "gap p x (mem c) ic ia \<and> held_arcs c = local_arcs p"
        if "writer (entries_lock c) = Some t'" "map_of (flights c) t' = Some (op, x, p)" for t' op x p
        using that g Some by (simp add: held_arcs_def)
    qed (simp add: Some)
  qed
qed

lemma gap_kept:
  assumes "gap p x w ic ia"
    and "\<And>y sub. y = x \<or> y \<in> set (new_handles p) \<Longrightarrow> map_of (subjects w) y = Some sub \<Longrightarrow>
      \<exists>sub'. map_of (subjects w') y = Some sub' \<and> subject_slot sub' = subject_slot sub \<and> subject_key sub' = subject_key sub
        \<and> subject_generation sub' = subject_generation sub"
    and "\<And>sub. map_of (retiring w) x = Some sub \<Longrightarrow> map_of (retiring w') x = Some sub"
  shows "gap p x w' ic ia"
  using assms(1)
proof (cases p)
  case (SubjectInsert key gen s h)
  with assms(1) obtain sub where "map_of (subjects w) h = Some sub" "subject_slot sub = s" by (auto simp: map_option_eq_Some)
  with assms(2) [of h sub] obtain sub' where "map_of (subjects w') h = Some sub'" "subject_slot sub' = s" using SubjectInsert by auto
  with assms(1) SubjectInsert show ?thesis by simp
next
  case RetireCount
  with assms(1) obtain sub where s: "map_of (subjects w) x = Some sub"
    "remove_if (subject_key sub) (subject_generation sub) (kmap (entries_of ia)) = (True, kmap (entries_of ic))" by auto
  with assms(2) [of x sub] obtain sub' where "map_of (subjects w') x = Some sub'" "subject_key sub' = subject_key sub"
    "subject_generation sub' = subject_generation sub" by auto
  with assms(1) RetireCount s show ?thesis by auto
next
  case RetirePush
  with assms(1,3) show ?thesis by auto
qed auto

lemma unnamed_kept:
  assumes "exec sc wp op w = Inr (r, w')" and "\<not> names op y"
  shows "map_of (spaces w) y = Some u \<Longrightarrow> map_of (spaces w') y = Some u"
    and "map_of (subjects w) y = Some sub \<Longrightarrow> map_of (subjects w') y = Some sub"
    and "map_of (retiring w) y = Some sub \<Longrightarrow> map_of (retiring w') y = Some sub"
proof -
  have "\<not> uses op y" using assms(2) uses_names by blast
  note keeps = exec_keeps_space [OF assms(1) this] exec_keeps_subject [OF assms(1) this] exec_keeps_retiring [OF assms(1) this]
  show "map_of (spaces w) y = Some u \<Longrightarrow> map_of (spaces w') y = Some u" by (rule keeps(1))
  show "map_of (subjects w) y = Some sub \<Longrightarrow> map_of (subjects w') y = Some sub" by (rule keeps(2))
  show "map_of (retiring w) y = Some sub \<Longrightarrow> map_of (retiring w') y = Some sub" by (rule keeps(3))
qed

lemma pinned_kept:
  assumes "pinned op p x w"
    and "map_of (spaces w) x \<noteq> None \<Longrightarrow> map_of (spaces w') x \<noteq> None"
    and "map_of (subjects w) x \<noteq> None \<Longrightarrow> map_of (subjects w') x \<noteq> None"
    and "map_of (retiring w) x \<noteq> None \<Longrightarrow> map_of (retiring w') x \<noteq> None"
  shows "pinned op p x w'"
  using assms by (cases op; cases "replied p") auto

lemma flights_kept:
  assumes ok: "flight_ok t f c" and f: "map_of (flights c) t = Some f" and ex: "exec sc wp op (mem c) = Inr (r, w')"
    and quiet: "\<forall>x\<in>set (busy c). \<not> names op x" and "inner w' = inner (mem c)"
  shows "flight_ok t f (c\<lparr>mem := w'\<rparr>)"
proof -
  obtain op0 x p where f0: "f = (op0, x, p)" by (cases f)
  have "\<not> names op x" using quiet busy_flight [OF f [unfolded f0]] by blast
  note kept = unnamed_kept [OF ex this]
  have "pinned op0 p x (mem c)" using ok f0 flight_okD(2) by blast
  then have "pinned op0 p x w'" by (rule pinned_kept) (use kept in blast)+
  with ok assms(5) show ?thesis by (auto simp: flight_ok_def f0)
qed

lemma put_same: "inner v = i \<Longrightarrow> put_inner i v = v"
  using put_inner_simps(17) [of v] by simp

lemma in_step_counts:
  fixes c :: "('k, 'o) nspace" and v :: "('k, 'o) world"
  assumes sim: "simulates c a" and f0: "map_of (flights c) t0 = Some f" and ic: "inner (mem c) = Some ic" and ia: "inner (abstract a) = Some ia"
  shows "inner v = Some ic \<Longrightarrow> subjects v = subjects (mem c) \<Longrightarrow> retiring v = retiring (mem c) \<Longrightarrow>
      here (held_arcs c) v (SlotArc s) = 0 \<longleftrightarrow> handle_count (put_inner (Some ia) v) (SlotArc s) = 0"
    and "map_of (observations (mem c)) h = Some s \<Longrightarrow>
      here (held_arcs c) (mem c) (SlotArc s) = 1 \<longleftrightarrow> handle_count (put_inner (Some ia) (mem c)) (SlotArc s) = 1"
proof -
  note D = simulatesD [OF sim]
  have e: "abstract a = put_inner (Some ia) (mem c)"
    and none: "writer (entries_lock c) = None \<Longrightarrow> ic = ia \<and> held_arcs c = []"
    and some: "\<And>t op x p. writer (entries_lock c) = Some t \<Longrightarrow> map_of (flights c) t = Some (op, x, p) \<Longrightarrow>
      gap p x (mem c) ic ia \<and> held_arcs c = local_arcs p"
    using in_step_cases [OF sim f0] ic ia by (metis option.inject)+
  have "(inner v = Some ic \<and> subjects v = subjects (mem c) \<and> retiring v = retiring (mem c) \<longrightarrow>
      (here (held_arcs c) v (SlotArc s) = 0) = (handle_count (put_inner (Some ia) v) (SlotArc s) = 0)) \<and>
      (map_of (observations (mem c)) h = Some s \<longrightarrow>
      (here (held_arcs c) (mem c) (SlotArc s) = 1) = (handle_count (put_inner (Some ia) (mem c)) (SlotArc s) = 1))"
  proof (cases "writer (entries_lock c)")
    case None
    with none ic show ?thesis by (simp add: put_same)
  next
    case (Some t)
    then obtain op x p where "map_of (flights c) t = Some (op, x, p)" using D(4) by (auto simp: lock_ok_def)
    with some [OF Some this] have g: "gap p x (mem c) ic ia" "held_arcs c = local_arcs p" by blast+
    have "wf (put_inner (Some ia) (mem c))" using D(7) e by simp
    from gap_counts(1) [OF g(1) this, of v s] gap_counts(2) [OF g(1) this ic, of h s] show ?thesis unfolding g(2) by argo
  qed
  then show "inner v = Some ic \<Longrightarrow> subjects v = subjects (mem c) \<Longrightarrow> retiring v = retiring (mem c) \<Longrightarrow>
      here (held_arcs c) v (SlotArc s) = 0 \<longleftrightarrow> handle_count (put_inner (Some ia) v) (SlotArc s) = 0"
    and "map_of (observations (mem c)) h = Some s \<Longrightarrow>
      here (held_arcs c) (mem c) (SlotArc s) = 1 \<longleftrightarrow> handle_count (put_inner (Some ia) (mem c)) (SlotArc s) = 1" by blast+
qed

lemma sim_elsewhere:
  assumes sim: "simulates c a" and out: "entry_point op = None" and own: "owns op (mem c)"
    and quiet: "\<forall>x\<in>set (busy c). \<not> names op x"
  obtains r w' a' where "exec (here (held_arcs c)) wp op (mem c) = Inr (r, w')"
    and "astep wp (Does op) a = Some ([Did op r], a')" and "simulates (c\<lparr>mem := w'\<rparr>) a'"
proof (cases "flights c")
  case Nil
  note D = simulatesD [OF sim]
  have none: "writer (entries_lock c) = None" using D(4) Nil by (cases "writer (entries_lock c)") (auto simp: lock_ok_def)
  have "abstract a = put_inner (inner (abstract a)) (mem c)" "inner (mem c) = inner (abstract a)"
    using D(6) none by (simp_all add: in_step_def)
  then have same: "abstract a = mem c" by (metis put_inner_simps(17))
  have held: "held_arcs c = []" by (simp add: held_arcs_def none)
  obtain r w' where ex: "exec handle_count wp op (mem c) = Inr (r, w')"
    using exec_wf [OF D(7) handle_count_sound, of op wp] own same by auto
  have r: "reach handle_count w'" by (rule reach.step [OF D(1) [unfolded same] own ex])
  show ?thesis
  proof (rule that)
    show "exec (here (held_arcs c)) wp op (mem c) = Inr (r, w')" using ex by (simp add: held)
    show "astep wp (Does op) a = Some ([Did op r], a\<lparr>abstract := w'\<rparr>)" using out own ex by (simp add: same)
    show "simulates (c\<lparr>mem := w'\<rparr>) (a\<lparr>abstract := w'\<rparr>)"
      using r D(2,4) none Nil by (simp add: simulates_def lock_ok_def exclusive_def in_step_def)
  qed
next
  case (Cons f0 fs)
  note D = simulatesD [OF sim]
  obtain t0 op0 x0 p0 where f0: "map_of (flights c) t0 = Some (op0, x0, p0)" 
  proof -
    obtain t1 op1 x1 p1 where "f0 = (t1, op1, x1, p1)" by (cases f0)
    then have "map_of (flights c) t1 = Some (op1, x1, p1)" using Cons by simp
    then show ?thesis by (rule that)
  qed
  have pin: "pins x0 (mem c)" using flight_okD(2) [OF D(3) [OF f0]] by (rule pinned_pins)
  have x0: "\<not> names op x0" using quiet busy_flight [OF f0] by blast
  from in_step_cases [OF sim f0] obtain ic ia where ic: "inner (mem c) = Some ic" and ia: "inner (abstract a) = Some ia"
    and e: "abstract a = put_inner (Some ia) (mem c)"
    and none: "writer (entries_lock c) = None \<Longrightarrow> ic = ia \<and> held_arcs c = []"
    and some: "\<And>t op x p. writer (entries_lock c) = Some t \<Longrightarrow> map_of (flights c) t = Some (op, x, p) \<Longrightarrow>
      gap p x (mem c) ic ia \<and> held_arcs c = local_arcs p" by metis
  note counts = in_step_counts [OF sim f0 ic ia]
  have eq: "exec handle_count wp op (put_inner (Some ia) (mem c)) = on_result (put_inner (Some ia)) (exec (here (held_arcs c)) wp op (mem c))"
    by (rule exec_put [OF out ic pin x0]; (rule here.simps refl counts; assumption?)?)
  have own': "owns op (abstract a)" using own e by simp
  obtain r w2 where "exec handle_count wp op (abstract a) = Inr (r, w2)" using exec_wf [OF D(7) handle_count_sound own', of wp] by blast
  with eq e obtain w' where ex: "exec (here (held_arcs c)) wp op (mem c) = Inr (r, w')"
    and ex2: "exec handle_count wp op (abstract a) = Inr (r, put_inner (Some ia) w')"
    by (cases "exec (here (held_arcs c)) wp op (mem c)") auto
  have ic': "inner w' = Some ic" by (rule exec_put_inner [OF out ic pin x0 _ ex]) simp
  have "in_step (c\<lparr>mem := w'\<rparr>) (put_inner (Some ia) w')"
  proof (cases "writer (entries_lock c)")
    case None
    with none ic' show ?thesis by (simp add: in_step_def)
  next
    case (Some t)
    then obtain op1 x p where f: "map_of (flights c) t = Some (op1, x, p)" using D(4) by (auto simp: lock_ok_def)
    with some [OF Some this] have g: "gap p x (mem c) ic ia" by blast
    have q: "y = x \<or> y \<in> set (new_handles p) \<Longrightarrow> \<not> names op y" for y using busy_flight [OF f] quiet by blast
    have "gap p x w' ic ia"
      by (rule gap_kept [OF g]) (use unnamed_kept(2,3) [OF ex q] in blast)+
    with Some f ic' show ?thesis by (simp add: in_step_def)
  qed
  moreover have "flight_ok t f (c\<lparr>mem := w'\<rparr>)" if "map_of (flights c) t = Some f" for t f
    by (rule flights_kept [OF D(3) [OF that] that ex quiet]) (simp add: ic ic')
  moreover have "reach handle_count (put_inner (Some ia) w')" by (rule reach.step [OF D(1) own' ex2])
  ultimately have "simulates (c\<lparr>mem := w'\<rparr>) (a\<lparr>abstract := put_inner (Some ia) w'\<rparr>)"
    using D(2,4,5) by (simp add: simulates_def lock_ok_def exclusive_def)
  moreover have "astep wp (Does op) a = Some ([Did op r], a\<lparr>abstract := put_inner (Some ia) w'\<rparr>)" using out own' ex2 by simp
  ultimately show ?thesis using that ex by blast
qed

subsection \<open>Moves of a call under the lock\<close>

lemma goes_simps [simp]:
  "mem (goes t op x p c) = mem c" "entries_lock (goes t op x p c) = entries_lock c"
  "map_of (flights (goes t op x p c)) = (map_of (flights c))(t \<mapsto> (op, x, p))"
  by (simp_all add: goes_def AList.update_conv')

lemma flight_same:
  assumes "flight_ok t (op, x, p) c" and "entries_lock c' = entries_lock c"
    and "pinned op p x (mem c')" and "reads p \<Longrightarrow> inner (mem c') = inner (mem c)"
  shows "flight_ok t (op, x, p) c'"
  using assms by (cases p) (auto simp: flight_ok_def)

lemma others_pinned:
  assumes "exclusive c" and "map_of (flights c) t = Some (op, x, p)" and "map_of (flights c) t' = Some (op', x', p')" and "t' \<noteq> t"
    and pin: "pinned op' p' x' (mem c)" and "spaces w' = spaces (mem c)"
    and "\<And>y. (\<forall>h. op = DropSubject h \<longrightarrow> y \<noteq> x) \<Longrightarrow> map_of (subjects (mem c)) y \<noteq> None \<Longrightarrow> map_of (subjects w') y \<noteq> None"
    and "\<And>y. map_of (retiring (mem c)) y \<noteq> None \<Longrightarrow> map_of (retiring w') y \<noteq> None"
  shows "pinned op' p' x' w'"
proof (cases "\<exists>h. op' = DropSubject h")
  case True
  then have "\<forall>h. op = DropSubject h \<longrightarrow> x' \<noteq> x" using assms(1-4) unfolding exclusive_def by blast
  with True pin assms(7,8) show ?thesis by (cases "replied p'") auto
next
  case False
  with pin assms(6) show ?thesis by (cases op') auto
qed

lemma sim_section:
  assumes sim: "simulates c a" and f: "map_of (flights c) t = Some (op, x, p)" and lock: "writes p \<or> reads p"
    and "fits op p'" and pin: "pinned op p' x w'" and same: "writes p' = writes p" "reads p' = reads p"
    and frame: "spaces w' = spaces (mem c)"
      "\<And>y. (\<forall>h. op = DropSubject h \<longrightarrow> y \<noteq> x) \<Longrightarrow> map_of (subjects (mem c)) y \<noteq> None \<Longrightarrow> map_of (subjects w') y \<noteq> None"
      "\<And>y. map_of (retiring (mem c)) y \<noteq> None \<Longrightarrow> map_of (retiring w') y \<noteq> None"
    and reach: "reach handle_count (abstract a')"
    and calls: "map_of (calls a') = (map_of (calls a))(t \<mapsto> (op, replied p'))"
    and now: "abstract a' = put_inner (inner (abstract a')) w'"
    and wr: "writes p \<Longrightarrow> \<exists>ic ia. inner w' = Some ic \<and> inner (abstract a') = Some ia \<and> gap p' x w' ic ia"
    and rd: "reads p \<Longrightarrow> inner w' = inner (mem c) \<and> inner (abstract a') = inner (abstract a)"
    and get: "\<And>key s. p' = ObserveClone key s \<Longrightarrow> \<exists>i e. inner w' = Some i \<and> sm_get key (kmap (entries_of i)) = Some e \<and> entry_slot e = s"
  shows "simulates (goes t op x p' (c\<lparr>mem := w'\<rparr>)) a'"
proof -
  note D = simulatesD [OF sim]
  note ok = flight_okD [OF D(3) [OF f]]
  let ?c = "goes t op x p' (c\<lparr>mem := w'\<rparr>)"
  have "flight_ok t' f' ?c" if "map_of (flights ?c) t' = Some f'" for t' f'
  proof (cases "t' = t")
    case True
    with that ok assms(4) pin same get show ?thesis by (auto simp: flight_ok_def)
  next
    case False
    obtain op1 x1 p1 where f': "f' = (op1, x1, p1)" by (cases f')
    with that False have f1: "map_of (flights c) t' = Some (op1, x1, p1)" by simp
    note ok1 = D(3) [OF f1]
    have "pinned op1 p1 x1 w'" by (rule others_pinned [OF D(5) f f1 False flight_okD(2) [OF ok1] frame])
    moreover have "inner w' = inner (mem c)" if r: "reads p1"
    proof -
      have "readers (entries_lock c) \<noteq> []" using r flight_okD(4) [OF ok1] by auto
      then have "\<not> writes p" using D(4) ok(3) by (auto simp: lock_ok_def)
      with rd lock show ?thesis by blast
    qed
    ultimately show ?thesis unfolding f' by (intro flight_same [OF ok1]) simp_all
  qed
  moreover have "lock_ok ?c" using D(4) f by (auto simp: lock_ok_def)
  moreover have "exclusive ?c" using D(5) f unfolding exclusive_def
    by (auto split: if_splits) (metis (no_types, lifting))+
  moreover have "in_step ?c (abstract a')"
  proof (cases "writes p")
    case True
    with wr obtain ic ia where "inner w' = Some ic" "inner (abstract a') = Some ia" "gap p' x w' ic ia" by blast
    with True ok(3) now show ?thesis by (simp add: in_step_def)
  next
    case False
    with lock ok(4) have "readers (entries_lock c) \<noteq> []" by auto
    then have none: "writer (entries_lock c) = None" using D(4) by (cases "writer (entries_lock c)") (auto simp: lock_ok_def)
    with D(6) rd lock False now show ?thesis by (simp add: in_step_def)
  qed
  ultimately show ?thesis using reach D(2) calls unfolding simulates_def by simp
qed

text \<open>The call makes its next access, and the atomic namespace follows, with or without taking effect.\<close>

definition advances :: "(waker \<Rightarrow> bool) \<Rightarrow> thread_id \<Rightarrow> ('k, 'o) flight \<Rightarrow> ('k, 'o) nspace \<Rightarrow> ('k, 'o) atomic \<Rightarrow> bool" where
  "advances wp t f c a \<longleftrightarrow> (case f of (op, x, p) \<Rightarrow> \<exists>i p' w' ms a'. inner (mem c) = Some i \<and>
     section_step x p i (mem c) = Inr (p', w') \<and> arun wp ms a = Some ([], a') \<and> simulates (goes t op x p' (c\<lparr>mem := w'\<rparr>)) a')"

lemma advancesI:
  "inner (mem c) = Some i \<Longrightarrow> section_step x p i (mem c) = Inr (p', w') \<Longrightarrow> arun wp ms a = Some ([], a') \<Longrightarrow>
   simulates (goes t op x p' (c\<lparr>mem := w'\<rparr>)) a' \<Longrightarrow> advances wp t (op, x, p) c a"
  unfolding advances_def by auto

lemma pinned_same:
  "pinned op p x w \<Longrightarrow> replied p' = replied p \<Longrightarrow> spaces w' = spaces w \<Longrightarrow> subjects w' = subjects w \<Longrightarrow> retiring w' = retiring w \<Longrightarrow>
   pinned op p' x w'"
  by (cases op) auto

lemma gap_put: "gap p x (put_inner i w) ic ia = gap p x w ic ia"
  by (cases p) simp_all

lemma stutter:
  assumes sim: "simulates c a" and f: "map_of (flights c) t = Some (op, x, p)"
    and ic: "inner (mem c) = Some ic" and ia: "inner (abstract a) = Some ia" and now: "abstract a = put_inner (Some ia) (mem c)"
    and step: "section_step x p ic (mem c) = Inr (p', put_inner (Some ic') (mem c))"
    and lock: "writes p \<or> reads p" and same: "writes p' = writes p" "reads p' = reads p" "replied p' = replied p"
    and fits: "fits op p'" and gap: "writes p \<Longrightarrow> gap p' x (mem c) ic' ia" and rd: "reads p \<Longrightarrow> ic' = ic"
    and get: "\<And>key s. p' = ObserveClone key s \<Longrightarrow> \<exists>e. sm_get key (kmap (entries_of ic')) = Some e \<and> entry_slot e = s"
  shows "advances wp t (op, x, p) c a"
proof (rule advancesI [where ms = "[]", OF ic step])
  note D = simulatesD [OF sim]
  have "pinned op p x (mem c)" by (rule flight_okD(2) [OF D(3) [OF f]])
  then have pin: "pinned op p' x (put_inner (Some ic') (mem c))" by (rule pinned_same) (simp_all add: same)
  show "simulates (goes t op x p' (c\<lparr>mem := put_inner (Some ic') (mem c)\<rparr>)) a"
  proof (rule sim_section [OF sim f lock fits pin same(1,2)])
    show "map_of (calls a) = (map_of (calls a))(t \<mapsto> (op, replied p'))"
      using D(2) [of t] f same(3) by (simp add: fun_upd_idem)
  qed (use D(1) now ia ic rd gap get in \<open>auto simp: gap_put\<close>)
qed simp

lemma linearize:
  assumes sim: "simulates c a" and f: "map_of (flights c) t = Some (op, x, p)"
    and ic: "inner (mem c) = Some ic" and own: "owns op (abstract a)"
    and step: "section_step x p ic (mem c) = Inr (p', w')"
    and ex: "exec handle_count wp op (abstract a) = Inr (r, put_inner (Some ia') w')"
    and lock: "writes p \<or> reads p" and same: "writes p' = writes p" "reads p' = reads p"
    and reply: "replied p = None" "replied p' = Some r" and fits: "fits op p'" and pin: "pinned op p' x w'"
    and frame: "spaces w' = spaces (mem c)"
      "\<And>y. (\<forall>h. op = DropSubject h \<longrightarrow> y \<noteq> x) \<Longrightarrow> map_of (subjects (mem c)) y \<noteq> None \<Longrightarrow> map_of (subjects w') y \<noteq> None"
      "\<And>y. map_of (retiring (mem c)) y \<noteq> None \<Longrightarrow> map_of (retiring w') y \<noteq> None"
    and wr: "writes p \<Longrightarrow> \<exists>ic'. inner w' = Some ic' \<and> gap p' x w' ic' ia'"
    and rd: "reads p \<Longrightarrow> inner w' = inner (mem c) \<and> inner (abstract a) = Some ia'"
  shows "advances wp t (op, x, p) c a"
proof (rule advancesI [where ms = "[Linearizes t]", OF ic step])
  note D = simulatesD [OF sim]
  let ?a = "a\<lparr>abstract := put_inner (Some ia') w', calls := AList.update t (op, Some r) (calls a)\<rparr>"
  show "arun wp [Linearizes t] a = Some ([], ?a)" using D(2) [of t] f reply(1) own ex by simp
  have "p' \<noteq> ObserveClone key s" for key s using reply(2) by auto
  then show "simulates (goes t op x p' (c\<lparr>mem := w'\<rparr>)) ?a"
    using reach.step [OF D(1) own ex] wr rd reply(2)
    by (intro sim_section [OF sim f lock fits pin same frame]) (auto simp: AList.update_conv')
qed

subsection \<open>The accesses of \<open>subject\<close>\<close>

lemma writer_gap:
  assumes "simulates c a" and "map_of (flights c) t = Some (op, x, p)" and "writes p"
  obtains ic ia where "inner (mem c) = Some ic" and "inner (abstract a) = Some ia" and "abstract a = put_inner (Some ia) (mem c)"
    and "gap p x (mem c) ic ia"
proof -
  have "writer (entries_lock c) = Some t" using flight_okD(3) [OF simulatesD(3) [OF assms(1,2)]] assms(3) by blast
  with in_step_cases [OF assms(1,2)] assms(2) obtain ic ia where *: "inner (mem c) = Some ic" "inner (abstract a) = Some ia"
    "abstract a = put_inner (Some ia) (mem c)" "gap p x (mem c) ic ia" by metis
  then show ?thesis by (rule that)
qed

lemma popped_pool: "popped pooled ic ia \<Longrightarrow> pool (entries_of ia) = pool (entries_of ic) @ opt_list pooled"
  by (cases pooled) (auto simp: popped_def pop_Some opt_list_def)

lemma popped_ia: "popped pooled ic ia \<Longrightarrow> ia = with_pool (pool (entries_of ic) @ opt_list pooled) ic"
  using popped_pool [of pooled ic ia] unfolding popped_def by (elim conjE) simp

lemma popped_map: "popped pooled ic ia \<Longrightarrow> kmap (entries_of ia) = kmap (entries_of ic)"
  by (drule popped_ia) simp

lemma numbered_ic:
  assumes "numbered gen pooled ic ia"
  shows "next_generation ia = gen" and "kmap (entries_of ia) = kmap (entries_of ic)"
    and "pop (pool (entries_of ia)) = (pooled, pool (entries_of ic))"
    and "ic = ia\<lparr>next_generation := gen + 1, entries_of := (entries_of ia)\<lparr>pool := pool (entries_of ic)\<rparr>\<rparr>"
proof -
  have p: "popped pooled (ic\<lparr>next_generation := gen\<rparr>) ia" and n: "next_generation ic = gen + 1"
    using assms by (simp_all add: numbered_def)
  note ia = popped_ia [OF p]
  show "next_generation ia = gen" "kmap (entries_of ia) = kmap (entries_of ic)" using ia by simp_all
  show "pop (pool (entries_of ia)) = (pooled, pool (entries_of ic))" using p by (simp add: popped_def)
  show "ic = ia\<lparr>next_generation := gen + 1, entries_of := (entries_of ia)\<lparr>pool := pool (entries_of ic)\<rparr>\<rparr>"
    using ia n by (cases ic) (simp add: with_pool_def)
qed

lemma subject_pinned: "pinned (MakeSubject key) p x w \<Longrightarrow> spaces w \<noteq> []"
  by (auto dest: map_of_not_Nil)

lemma put_inner_self: "inner w = Some ic \<Longrightarrow> put_inner (Some ic) w = w"
  by (rule put_same)

lemma adv_subject_pop:
  assumes sim: "simulates c a" and f: "map_of (flights c) t = Some (MakeSubject key, x, SubjectPop key)"
  shows "advances wp t (MakeSubject key, x, SubjectPop key) c a"
proof -
  from writer_gap [OF sim f] obtain ic ia where ic: "inner (mem c) = Some ic" and ia: "inner (abstract a) = Some ia"
    and now: "abstract a = put_inner (Some ia) (mem c)" and g: "ia = ic" by auto
  obtain pooled rest where p: "pop (pool (entries_of ic)) = (pooled, rest)" by force
  show ?thesis
    by (rule stutter [OF sim f ic ia now, of "SubjectVacant key pooled" "with_pool rest ic"])
      (use p in \<open>simp_all add: put_inner_def g popped_def with_pool_def\<close>)
qed

lemma adv_subject_vacant:
  assumes sim: "simulates c a" and f: "map_of (flights c) t = Some (MakeSubject key, x, SubjectVacant key pooled)"
  shows "advances wp t (MakeSubject key, x, SubjectVacant key pooled) c a"
proof -
  from writer_gap [OF sim f] obtain ic ia where ic: "inner (mem c) = Some ic" and ia: "inner (abstract a) = Some ia"
    and now: "abstract a = put_inner (Some ia) (mem c)" and g: "popped pooled ic ia" by auto
  have pin: "map_of (spaces (mem c)) x \<noteq> None" using flight_okD(2) [OF simulatesD(3) [OF sim f]] by simp
  show ?thesis
  proof (cases "is_vacant key (kmap (entries_of ic))")
    case True
    then show ?thesis
      by (intro stutter [OF sim f ic ia now, of "SubjectNumber key pooled" ic]) (simp_all add: put_inner_self ic g)
  next
    case False
    then have "sm_get key (kmap (entries_of ia)) \<noteq> None" by (simp add: is_vacant_get popped_map [OF g])
    from space_subject_exists [OF ia this, of handle_count]
    have ex: "exec handle_count wp (MakeSubject key) (abstract a) = Inr (Ret (SubjectExists key), put_inner (Some ia) (mem c))"
      using now by simp
    have own: "owns (MakeSubject key) (abstract a)" using pin now by (auto dest: map_of_not_Nil)
    show ?thesis
      by (rule linearize [OF sim f ic own _ ex, of "SubjectRestore key pooled"]) (use False ic g pin in \<open>simp_all\<close>)
  qed
qed

lemma adv_subject_restore:
  assumes sim: "simulates c a" and f: "map_of (flights c) t = Some (MakeSubject key, x, SubjectRestore key pooled)"
  shows "advances wp t (MakeSubject key, x, SubjectRestore key pooled) c a"
proof -
  from writer_gap [OF sim f] obtain ic ia where ic: "inner (mem c) = Some ic" and ia: "inner (abstract a) = Some ia"
    and now: "abstract a = put_inner (Some ia) (mem c)" and g: "popped pooled ic ia" by auto
  show ?thesis
    by (rule stutter [OF sim f ic ia now, of "WriteUnlock (Ret (SubjectExists key))" "with_pool (pool (entries_of ic) @ opt_list pooled) ic"])
      (simp_all add: put_inner_def popped_ia [OF g])
qed

lemma adv_subject_number:
  assumes sim: "simulates c a" and f: "map_of (flights c) t = Some (MakeSubject key, x, SubjectNumber key pooled)"
  shows "advances wp t (MakeSubject key, x, SubjectNumber key pooled) c a"
proof -
  from writer_gap [OF sim f] obtain ic ia where ic: "inner (mem c) = Some ic" and ia: "inner (abstract a) = Some ia"
    and now: "abstract a = put_inner (Some ia) (mem c)" and g0: "popped pooled ic ia \<and> is_vacant key (kmap (entries_of ic))" by auto
  from g0 have g: "popped pooled ic ia" "is_vacant key (kmap (entries_of ic))" by simp_all
  let ?ic = "ic\<lparr>next_generation := next_generation ic + 1\<rparr>"
  have n: "numbered (next_generation ic) pooled ?ic ia" using g(1) by (simp add: numbered_def)
  show ?thesis
  proof (cases "next_generation ic = USIZE_MAX")
    case True
    show ?thesis
      by (rule stutter [OF sim f ic ia now, of "SubjectUnwind key pooled" ?ic]) (use True n g(2) in \<open>simp_all add: put_inner_def Let_def\<close>)
  next
    case False
    show ?thesis
      by (rule stutter [OF sim f ic ia now, of "SubjectSlot key pooled (next_generation ic)" ?ic])
        (use False n g(2) in \<open>simp_all add: put_inner_def Let_def\<close>)
  qed
qed

text \<open>
  When the generation is drawn, what \<open>space_subject\<close> has left to do starts from the memory as it is.
\<close>

lemma space_subject_numbered:
  assumes ia: "inner v = Some ia" and n: "numbered gen pooled ic ia" and vac: "is_vacant key (kmap (entries_of ic))"
  shows "gen = USIZE_MAX \<Longrightarrow> space_subject sc key v =
      (case (case pooled of Some s \<Rightarrow> release sc s (put_inner (Some ic) v) | None \<Rightarrow> Inr (put_inner (Some ic) v)) of
         Inl f \<Rightarrow> Inl f
       | Inr w \<Rightarrow> Inr (Panic GenerationExhausted, w))"
    and "gen \<noteq> USIZE_MAX \<Longrightarrow> space_subject sc key v =
      (case acquire_slot sc pooled (put_inner (Some ic) v) of
         Inl f \<Rightarrow> Inl f
       | Inr (s, w) \<Rightarrow> Inr (Ret (NewHandle (next_handle w)),
           put_inner (Some (with_map (insert_vacant key \<lparr>generation = gen, entry_slot = s\<rparr> (kmap (entries_of ic))) ic))
             (w\<lparr>next_handle := next_handle w + 1, subjects := subjects w @ [(next_handle w,
                \<lparr>subject_key = key, subject_generation = gen, subject_slot = s, subject_completed = False\<rparr>)]\<rparr>)))"
proof -
  note N = numbered_ic [OF n]
  define rest where "rest = pool (entries_of ic)"
  have ic: "ic = ia\<lparr>next_generation := gen + 1, entries_of := (entries_of ia)\<lparr>pool := rest\<rparr>\<rparr>"
    and p: "pop (pool (entries_of ia)) = (pooled, rest)" unfolding rest_def by (rule N(4), rule N(3))
  have vac': "is_vacant key (kmap (entries_of ia))" using vac N(2) by simp
  show "space_subject sc key v = (case (case pooled of Some s \<Rightarrow> release sc s (put_inner (Some ic) v) | None \<Rightarrow> Inr (put_inner (Some ic) v)) of
         Inl f \<Rightarrow> Inl f | Inr w \<Rightarrow> Inr (Panic GenerationExhausted, w))" if "gen = USIZE_MAX"
    unfolding ic using that N(1) p vac' ia
    by (cases pooled) (simp_all add: space_subject_def Let_def del: pop_None flip: put_inner_def)
  show "space_subject sc key v = (case acquire_slot sc pooled (put_inner (Some ic) v) of
         Inl f \<Rightarrow> Inl f
       | Inr (s, w) \<Rightarrow> Inr (Ret (NewHandle (next_handle w)),
           put_inner (Some (with_map (insert_vacant key \<lparr>generation = gen, entry_slot = s\<rparr> (kmap (entries_of ic))) ic))
             (w\<lparr>next_handle := next_handle w + 1, subjects := subjects w @ [(next_handle w,
                \<lparr>subject_key = key, subject_generation = gen, subject_slot = s, subject_completed = False\<rparr>)]\<rparr>)))" if "gen \<noteq> USIZE_MAX"
    unfolding ic using that N(1) p vac' ia
    by (simp add: space_subject_def Let_def fresh_handle_def with_map_def flip: put_inner_def split: sum.split prod.split)
qed

lemma adv_subject_unwind:
  assumes sim: "simulates c a" and f: "map_of (flights c) t = Some (MakeSubject key, x, SubjectUnwind key pooled)"
  shows "advances wp t (MakeSubject key, x, SubjectUnwind key pooled) c a"
proof -
  from writer_gap [OF sim f] obtain ic ia where ic: "inner (mem c) = Some ic" and ia: "inner (abstract a) = Some ia"
    and now: "abstract a = put_inner (Some ia) (mem c)"
    and g: "numbered USIZE_MAX pooled ic ia \<and> is_vacant key (kmap (entries_of ic))" by auto
  note pin = flight_okD(2) [OF simulatesD(3) [OF sim f]]
  have own: "owns (MakeSubject key) (abstract a)" using pin now by (auto dest: map_of_not_Nil)
  let ?r = "case pooled of Some s \<Rightarrow> release handle_count s (mem c) | None \<Rightarrow> Inr (mem c)"
  have undo: "put_inner (Some ic) (abstract a) = mem c" by (simp add: now put_same ic)
  have ex: "exec handle_count wp (MakeSubject key) (abstract a) = (case ?r of Inl f \<Rightarrow> Inl f | Inr w \<Rightarrow> Inr (Panic GenerationExhausted, w))"
    using space_subject_numbered(1) [OF ia conjunct1 [OF g] conjunct2 [OF g] refl, of handle_count] by (simp only: exec.simps undo)
  obtain w' where w': "?r = Inr w'" using exec_wf [OF simulatesD(7) [OF sim] handle_count_sound own, of wp] ex by (cases ?r) auto
  have inn: "inner w' = Some ic" and frame: "same_handles (mem c) w'"
    using w' ic by (auto simp: same_handles_def split: option.splits dest: release_keeps_inner release_handles [unfolded same_handles_def])
  show ?thesis
  proof (rule linearize [OF sim f ic own, of "WriteUnlock (Panic GenerationExhausted)" w'])
    show "exec handle_count wp (MakeSubject key) (abstract a) = Inr (Panic GenerationExhausted, put_inner (Some ic) w')"
      using ex w' by (simp add: put_same inn)
    show "section_step x (SubjectUnwind key pooled) ic (mem c) = Inr (WriteUnlock (Panic GenerationExhausted), w')"
      using w' by simp
  qed (use frame inn pin in \<open>auto simp: same_handles_def\<close>)
qed

lemma adv_subject_slot:
  assumes sim: "simulates c a" and f: "map_of (flights c) t = Some (MakeSubject key, x, SubjectSlot key pooled gen)"
  shows "advances wp t (MakeSubject key, x, SubjectSlot key pooled gen) c a"
proof -
  from writer_gap [OF sim f] obtain ic ia where ic: "inner (mem c) = Some ic" and ia: "inner (abstract a) = Some ia"
    and now: "abstract a = put_inner (Some ia) (mem c)"
    and g: "numbered gen pooled ic ia \<and> gen \<noteq> USIZE_MAX \<and> is_vacant key (kmap (entries_of ic))" by auto
  note D = simulatesD [OF sim]
  note pin = flight_okD(2) [OF D(3) [OF f]]
  have own: "owns (MakeSubject key) (abstract a)" using pin now by (auto dest: map_of_not_Nil)
  have undo: "put_inner (Some ic) (abstract a) = mem c" by (simp add: now put_same ic)
  from g have g': "numbered gen pooled ic ia" "gen \<noteq> USIZE_MAX" "is_vacant key (kmap (entries_of ic))" by simp_all
  note ex = space_subject_numbered(2) [OF ia g'(1,3,2), of handle_count, unfolded undo]
  obtain s w1 where w1: "acquire_slot handle_count pooled (mem c) = Inr (s, w1)"
    using exec_wf [OF D(7) handle_count_sound own, of wp] ex by (cases "acquire_slot handle_count pooled (mem c)") auto
  let ?h = "next_handle w1" and ?sub = "\<lparr>subject_key = key, subject_generation = gen, subject_slot = s, subject_completed = False\<rparr>"
  let ?w = "w1\<lparr>next_handle := next_handle w1 + 1, subjects := subjects w1 @ [(next_handle w1, ?sub)]\<rparr>"
  let ?ia = "with_map (insert_vacant key \<lparr>generation = gen, entry_slot = s\<rparr> (kmap (entries_of ic))) ic"
  have inn: "inner w1 = Some ic" using acquire_slot_inner [OF w1] ic by simp
  have frame: "same_handles (mem c) w1" by (rule acquire_slot_handles [OF w1])
  have nh: "next_handle w1 = next_handle (abstract a)" using w1 now
    by (auto elim!: acquire_slotE simp: alloc_slot_def on_slot_def split: option.splits sum.splits)
  have fresh: "map_of (subjects w1) ?h = None"
    using next_subject_fresh [OF D(7)] frame nh now by (simp add: same_handles_def)
  have map: "sm_wf (kmap (entries_of ic))" using wfD(4) [OF D(7)] ia numbered_ic(2) [OF g'(1)] by (simp add: table_inv_def)
  show ?thesis
  proof (rule linearize [OF sim f ic own, of "SubjectInsert key gen s ?h" ?w])
    show "exec handle_count wp (MakeSubject key) (abstract a) = Inr (Ret (NewHandle ?h), put_inner (Some ?ia) ?w)"
      using ex w1 by simp
    show "section_step x (SubjectSlot key pooled gen) ic (mem c) = Inr (SubjectInsert key gen s ?h, ?w)"
      using w1 by (simp add: fresh_handle_def Let_def)
    show "\<exists>ic'. inner ?w = Some ic' \<and> gap (SubjectInsert key gen s ?h) x ?w ic' ?ia"
      using inn map g'(3) fresh by (simp add: map_add_def)
  qed (use frame pin in \<open>auto simp: same_handles_def map_add_def split: option.splits\<close>)
qed

lemma adv_subject_insert:
  assumes sim: "simulates c a" and f: "map_of (flights c) t = Some (MakeSubject key, x, SubjectInsert key gen s h)"
  shows "advances wp t (MakeSubject key, x, SubjectInsert key gen s h) c a"
proof -
  let ?m = "\<lambda>ic. with_map (insert_vacant key \<lparr>generation = gen, entry_slot = s\<rparr> (kmap (entries_of ic))) ic"
  have "writes (SubjectInsert key gen s h)" by simp
  from writer_gap [OF sim f this] obtain ic ia where ic: "inner (mem c) = Some ic" and ia: "inner (abstract a) = Some ia"
    and now: "abstract a = put_inner (Some ia) (mem c)" and g0: "gap (SubjectInsert key gen s h) x (mem c) ic ia" .
  from g0 have g: "ia = ?m ic" by simp
  show ?thesis
    by (rule stutter [OF sim f ic ia now, of "WriteUnlock (Ret (NewHandle h))" "?m ic"]) (simp_all add: put_inner_def g)
qed

subsection \<open>The accesses of \<open>observe\<close>\<close>

lemma reader_same:
  assumes "simulates c a" and "map_of (flights c) t = Some (op, x, p)" and "reads p"
  obtains ic where "inner (mem c) = Some ic" and "abstract a = mem c"
proof -
  note D = simulatesD [OF assms(1)]
  have "readers (entries_lock c) \<noteq> []" using flight_okD(4) [OF D(3) [OF assms(2)]] assms(3) by auto
  then have "writer (entries_lock c) = None" using D(4) by (cases "writer (entries_lock c)") (auto simp: lock_ok_def)
  with in_step_cases [OF assms(1,2)] obtain ic where "inner (mem c) = Some ic" "abstract a = put_inner (Some ic) (mem c)" by metis
  with that show ?thesis by (simp add: put_same)
qed

lemma adv_observe_get:
  assumes sim: "simulates c a" and f: "map_of (flights c) t = Some (Observe key, x, ObserveGet key)"
  shows "advances wp t (Observe key, x, ObserveGet key) c a"
proof -
  have "reads (ObserveGet key)" by simp
  from reader_same [OF sim f this] obtain ic where ic: "inner (mem c) = Some ic" and same: "abstract a = mem c" .
  note pin = flight_okD(2) [OF simulatesD(3) [OF sim f]]
  have own: "owns (Observe key) (abstract a)" using pin same by (auto dest: map_of_not_Nil)
  have ia: "inner (abstract a) = Some ic" and now: "abstract a = put_inner (Some ic) (mem c)" by (simp_all add: same ic put_same)
  show ?thesis
  proof (cases "sm_get key (kmap (entries_of ic))")
    case None
    have ex: "exec handle_count wp (Observe key) (abstract a) = Inr (Ret (UnknownSubject key), put_inner (Some ic) (mem c))"
      using space_observe_unknown [OF ia None] now by simp
    show ?thesis
      by (rule linearize [OF sim f ic own _ ex, of "ReadUnlock (Ret (UnknownSubject key))"]) (use None pin same ic in simp_all)
  next
    case (Some e)
    show ?thesis
      by (rule stutter [OF sim f ic ia now, of "ObserveClone key (entry_slot e)" ic]) (use Some in \<open>simp_all add: put_same ic\<close>)
  qed
qed

lemma adv_observe_clone:
  assumes sim: "simulates c a" and f: "map_of (flights c) t = Some (Observe key, x, ObserveClone key s)"
  shows "advances wp t (Observe key, x, ObserveClone key s) c a"
proof -
  have "reads (ObserveClone key s)" by simp
  from reader_same [OF sim f this] obtain ic where ic: "inner (mem c) = Some ic" and same: "abstract a = mem c" .
  note ok = flight_okD [OF simulatesD(3) [OF sim f]]
  from ok(5) [OF refl] ic obtain e where e: "sm_get key (kmap (entries_of ic)) = Some e" "entry_slot e = s" by auto
  have own: "owns (Observe key) (abstract a)" using ok(2) same by (auto dest: map_of_not_Nil)
  let ?h = "next_handle (mem c)"
  let ?w = "(mem c)\<lparr>next_handle := ?h + 1, observations := observations (mem c) @ [(?h, s)]\<rparr>"
  have ex: "exec handle_count wp (Observe key) (abstract a) = Inr (Ret (NewHandle ?h), put_inner (Some ic) ?w)"
    using e ic by (simp add: same space_observe_def fresh_handle_def put_same)
  show ?thesis
    by (rule linearize [OF sim f ic own _ ex, of "ReadUnlock (Ret (NewHandle ?h))"])
      (use ok(2) same ic in \<open>simp_all add: fresh_handle_def\<close>)
qed

subsection \<open>The accesses of the drop of a subject\<close>

lemma adv_retire_remove:
  assumes sim: "simulates c a" and f: "map_of (flights c) t = Some (DropSubject h, x, RetireRemove)"
  shows "advances wp t (DropSubject h, x, RetireRemove) c a"
proof -
  from writer_gap [OF sim f] obtain ic where ic: "inner (mem c) = Some ic" and ia: "inner (abstract a) = Some ic"
    and now: "abstract a = put_inner (Some ic) (mem c)" by auto
  note D = simulatesD [OF sim]
  from flight_okD(2) [OF D(3) [OF f]] obtain sub where x: "x = h" "map_of (subjects (mem c)) x = Some sub" by auto
  have mem: "(x, sub) \<in> set (subjects (abstract a))" using map_of_SomeD [OF x(2)] now by simp
  note get = subject_entry [OF D(7) ia mem]
  let ?rm = "remove_if (subject_key sub) (subject_generation sub) (kmap (entries_of ic))"
  have "sm_wf (kmap (entries_of ic))" using wfD(4) [OF D(7)] ia by (simp add: table_inv_def)
  from sm_remove_hit(1) [OF this get] obtain km where km: "?rm = (True, km)" by (cases ?rm) auto
  let ?w = "(mem c)\<lparr>inner := Some (with_map km ic)\<rparr>"
  have "subject_slot sub \<in> own_slots ?w" using own_slots_map_of(1) [OF x(2)] by (simp add: own_slots_def)
  from own_counted [OF this] have "handle_count ?w (SlotArc (subject_slot sub)) \<noteq> 0" unfolding handle_count.simps by linarith
  then have rel: "release handle_count (subject_slot sub) ?w = Inr ?w" by (simp add: release_def del: handle_count.simps)
  have step: "section_step x RetireRemove ic (mem c) = Inr (RetireCount, put_inner (Some (with_map km ic)) (mem c))"
    using x(2) km get rel by (simp add: put_inner_def del: handle_count.simps)
  show ?thesis
    by (rule stutter [OF sim f ic ia now step]) (use x(2) km in \<open>simp_all add: with_map_def\<close>)
qed

lemma unmapped: "ia = with_map m ic \<Longrightarrow> ia\<lparr>entries_of := (entries_of ia)\<lparr>kmap := kmap (entries_of ic)\<rparr>\<rparr> = ic"
  by (simp add: with_map_def)

lemma unmapped_pool:
  "ia = with_map m ic \<Longrightarrow> ia\<lparr>entries_of := (entries_of ia)\<lparr>kmap := kmap (entries_of ic), pool := ss\<rparr>\<rparr> = with_pool ss ic"
  by (simp add: with_map_def with_pool_def)

lemma with_pool_same: "with_pool (pool (entries_of i)) i = i"
  by (simp add: with_pool_def)

lemma subject_not_retiring:
  assumes "wf w" and "map_of (subjects w) h = Some sub"
  shows "map_of (retiring w) h = None"
proof -
  have "h \<in> fst ` set (subjects w)" using map_of_SomeD [OF assms(2)] by force
  moreover have "distinct (all_handles w)" using wfD(3) [OF assms(1)] by (simp add: handle_inv_def)
  ultimately have "h \<notin> fst ` set (retiring w)" by (auto simp: all_handles_def)
  then show ?thesis by (simp add: map_of_eq_None_iff)
qed

lemma adv_retire_count:
  assumes sim: "simulates c a" and f: "map_of (flights c) t = Some (DropSubject h, x, RetireCount)"
  shows "advances wp t (DropSubject h, x, RetireCount) c a"
proof -
  have "writes RetireCount" by simp
  from writer_gap [OF sim f this] obtain ic ia where ic: "inner (mem c) = Some ic" and ia: "inner (abstract a) = Some ia"
    and now: "abstract a = put_inner (Some ia) (mem c)" and g: "gap RetireCount x (mem c) ic ia" .
  note D = simulatesD [OF sim]
  from flight_okD(2) [OF D(3) [OF f]] have xh: "x = h" by simp
  from g obtain sub where sub: "map_of (subjects (mem c)) h = Some sub" and m: "ia = with_map (kmap (entries_of ia)) ic"
    and km: "remove_if (subject_key sub) (subject_generation sub) (kmap (entries_of ia)) = (True, kmap (entries_of ic))"
    unfolding xh by auto
  have sub': "map_of (subjects (abstract a)) h = Some sub" using sub now by simp
  let ?s = "subject_slot sub" and ?km = "kmap (entries_of ic)"
  let ?w = "(mem c)\<lparr>subjects := AList.delete h (subjects (mem c)), retiring := retiring (mem c) @ [(h, sub)]\<rparr>"
  define pools where "pools \<longleftrightarrow> handle_count (mem c) (SlotArc ?s) = 1 \<and> length (pool (entries_of ic)) < SLOT_POOL_CAP"
  define ia' where "ia' = (if pools then with_pool (pool (entries_of ic) @ [?s]) ic else ic)"
  note ic' = unmapped [OF m]
  have undo: "put_inner (Some ic) (abstract a) = mem c" by (simp add: now put_same ic)
  have pl: "pool (entries_of ia) = pool (entries_of ic)" using arg_cong [OF m, of "\<lambda>i. pool (entries_of i)"] by simp
  have pools: "poolable handle_count sub ?km (abstract a) = pools"
    using ia by (simp add: poolable_def pools_def ic' undo pl flip: put_inner_def del: handle_count.simps)
  have "retired handle_count h sub ia (abstract a) = put_inner (Some ia') ?w"
    using km pools now pl
    by (simp add: retired_def Let_def ia'_def unmapped_pool [OF m] with_pool_same flip: put_inner_def)
  then have ex: "exec handle_count wp (DropSubject h) (abstract a) = Inr (Ret Done, put_inner (Some ia') ?w)"
    using subject_drop_eq [OF D(7) handle_count_sound sub' ia] by simp
  have step: "section_step x RetireCount ic (mem c) = Inr (if pools then RetirePush else WriteUnlock (Ret Done), ?w)"
    using sub by (simp add: xh pools_def)
  have own: "owns (DropSubject h) (abstract a)" using sub' by simp
  have "map_of (retiring (mem c)) h = None" using subject_not_retiring [OF D(7) sub'] now by simp
  then show ?thesis
    by (intro linearize [OF sim f ic own step ex]) (use sub ic in \<open>auto simp: xh ia'_def AList.delete_conv' map_add_def split: option.splits\<close>)
qed

lemma adv_retire_push:
  assumes sim: "simulates c a" and f: "map_of (flights c) t = Some (DropSubject h, x, RetirePush)"
  shows "advances wp t (DropSubject h, x, RetirePush) c a"
proof -
  have "writes RetirePush" by simp
  from writer_gap [OF sim f this] obtain ic ia where ic: "inner (mem c) = Some ic" and ia: "inner (abstract a) = Some ia"
    and now: "abstract a = put_inner (Some ia) (mem c)" and g: "gap RetirePush x (mem c) ic ia" .
  from g obtain sub where sub: "map_of (retiring (mem c)) x = Some sub" "ia = with_pool (pool (entries_of ic) @ [subject_slot sub]) ic" by auto
  show ?thesis
    by (rule stutter [OF sim f ic ia now, of "WriteUnlock (Ret Done)" ia]) (use sub in \<open>simp_all add: put_inner_def\<close>)
qed

subsection \<open>Taking and releasing the lock\<close>

lemma lock_okD:
  assumes "lock_ok c"
  shows "distinct (readers (entries_lock c))" and "t \<in> set (readers (entries_lock c)) \<Longrightarrow> map_of (flights c) t \<noteq> None"
    and "writer (entries_lock c) = Some t \<Longrightarrow> readers (entries_lock c) = []"
    and "writer (entries_lock c) = Some t \<Longrightarrow> map_of (flights c) t \<noteq> None"
  using assms by (auto simp: lock_ok_def)

text \<open>A change of the lock and of one call's point, when the memory stays.\<close>

lemma sim_lock:
  assumes sim: "simulates c a" and f: "map_of (flights c) t = Some (op, x, p)"
    and fits: "fits op p'" and same: "replied p' = replied p" and get: "\<And>key s. p' \<noteq> ObserveClone key s"
    and lk: "writes p' \<longleftrightarrow> writer l = Some t" "reads p' \<longleftrightarrow> t \<in> set (readers l)"
    and others: "\<And>u. u \<noteq> t \<Longrightarrow> writer l = Some u \<longleftrightarrow> writer (entries_lock c) = Some u"
      "\<And>u. u \<noteq> t \<Longrightarrow> u \<in> set (readers l) \<longleftrightarrow> u \<in> set (readers (entries_lock c))"
    and dist: "distinct (readers l)" and excl: "writer l \<noteq> None \<Longrightarrow> readers l = []"
    and step: "in_step (goes t op x p' (c\<lparr>entries_lock := l\<rparr>)) (abstract a)"
  shows "simulates (goes t op x p' (c\<lparr>entries_lock := l\<rparr>)) a"
proof -
  note D = simulatesD [OF sim]
  let ?c = "goes t op x p' (c\<lparr>entries_lock := l\<rparr>)"
  have "flight_ok u g ?c" if "map_of (flights ?c) u = Some g" for u g
  proof (cases "u = t")
    case True
    have "pinned op p' x (mem c)" by (rule pinned_same [OF flight_okD(2) [OF D(3) [OF f]] same]) simp_all
    with True that fits lk get show ?thesis by (auto simp: flight_ok_def)
  next
    case False
    with that have "flight_ok u g c" by (intro D(3)) simp
    with False others show ?thesis by (cases g) (auto simp: flight_ok_def)
  qed
  moreover have "lock_ok ?c" unfolding lock_ok_def
  proof (intro conjI ballI allI impI)
    show "map_of (flights ?c) u \<noteq> None" if "u \<in> set (readers (entries_lock ?c))" for u
      using that others(2) [of u] lock_okD(2) [OF D(4), of u] by (cases "u = t") auto
    show "map_of (flights ?c) u \<noteq> None" if "writer (entries_lock ?c) = Some u" for u
      using that others(1) [of u] lock_okD(4) [OF D(4), of u] by (cases "u = t") auto
  qed (use dist excl in auto)
  moreover have "exclusive ?c" using D(5) f unfolding exclusive_def by (auto split: if_splits) (metis (no_types, lifting))+
  moreover have "map_of (calls a) u = map_option (\<lambda>(op, x, p). (op, replied p)) (map_of (flights ?c) u)" for u
    using D(2) [of u] f same by simp
  ultimately show ?thesis using D(1) step unfolding simulates_def by blast
qed

lemma sim_write_lock:
  assumes sim: "simulates c a" and f: "map_of (flights c) t = Some (op, x, p)" and l: "write_lock t (entries_lock c) = Some l"
    and "\<not> reads p" and "fits op p'" and "replied p' = replied p" and "writes p'" and "\<And>w i. gap p' x w i i"
  shows "simulates (goes t op x p' (c\<lparr>entries_lock := l\<rparr>)) a"
proof -
  from l have lk: "writer (entries_lock c) = None" "readers (entries_lock c) = []" "l = (entries_lock c)\<lparr>writer := Some t\<rparr>"
    by (simp_all add: write_lock_def split: if_splits)
  from in_step_cases [OF sim f] lk(1) obtain ic where "inner (mem c) = Some ic" "inner (abstract a) = Some ic" "abstract a = put_inner (Some ic) (mem c)"
    by metis
  then have "in_step (goes t op x p' (c\<lparr>entries_lock := l\<rparr>)) (abstract a)" using assms(8) lk(3) by (simp add: in_step_def)
  moreover have "\<not> reads p'" using assms(7) by (cases p') auto
  moreover have "p' \<noteq> ObserveClone key s" for key s using assms(7) by auto
  ultimately show ?thesis using lk assms(5-7) by (intro sim_lock [OF sim f]) auto
qed

lemma sim_read_lock:
  assumes sim: "simulates c a" and f: "map_of (flights c) t = Some (Observe key, x, ObserveLock key)"
    and l: "read_lock t (entries_lock c) = Some l"
  shows "simulates (goes t (Observe key) x (ObserveGet key) (c\<lparr>entries_lock := l\<rparr>)) a"
proof -
  note D = simulatesD [OF sim]
  from l have lk: "writer (entries_lock c) = None" "l = (entries_lock c)\<lparr>readers := t # readers (entries_lock c)\<rparr>"
    by (simp_all add: read_lock_def split: if_splits)
  have "in_step (goes t (Observe key) x (ObserveGet key) (c\<lparr>entries_lock := l\<rparr>)) (abstract a)"
    using D(6) lk by (simp add: in_step_def)
  moreover have "t \<notin> set (readers (entries_lock c))" using flight_okD(4) [OF D(3) [OF f]] by simp
  ultimately show ?thesis using lk lock_okD(1) [OF D(4)] by (intro sim_lock [OF sim f]) auto
qed

lemma sim_write_unlock:
  assumes sim: "simulates c a" and f: "map_of (flights c) t = Some (op, x, WriteUnlock r)"
  shows "simulates (goes t op x (Returning r) (c\<lparr>entries_lock := write_unlock (entries_lock c)\<rparr>)) a"
proof -
  note D = simulatesD [OF sim]
  note ok = flight_okD [OF D(3) [OF f]]
  have w: "writer (entries_lock c) = Some t" using ok(3) by simp
  note r = lock_okD(3) [OF D(4) w]
  have "writes (WriteUnlock r)" by simp
  from writer_gap [OF sim f this] obtain ic ia where ic: "inner (mem c) = Some ic" "inner (abstract a) = Some ia"
    "abstract a = put_inner (Some ia) (mem c)" and g: "gap (WriteUnlock r) x (mem c) ic ia" .
  then have "in_step (goes t op x (Returning r) (c\<lparr>entries_lock := write_unlock (entries_lock c)\<rparr>)) (abstract a)"
    by (simp add: in_step_def write_unlock_def)
  moreover have "fits op (Returning r)" using ok(1) by (cases op) auto
  ultimately show ?thesis using w r by (intro sim_lock [OF sim f]) (auto simp: write_unlock_def)
qed

lemma sim_read_unlock:
  assumes sim: "simulates c a" and f: "map_of (flights c) t = Some (op, x, ReadUnlock r)"
  shows "simulates (goes t op x (Returning r) (c\<lparr>entries_lock := read_unlock t (entries_lock c)\<rparr>)) a"
proof -
  note D = simulatesD [OF sim]
  note ok = flight_okD [OF D(3) [OF f]]
  have t: "t \<in> set (readers (entries_lock c))" using ok(4) by simp
  then have w: "writer (entries_lock c) = None" using lock_okD(3) [OF D(4)] by (cases "writer (entries_lock c)") auto
  have "in_step (goes t op x (Returning r) (c\<lparr>entries_lock := read_unlock t (entries_lock c)\<rparr>)) (abstract a)"
    using D(6) w by (simp add: in_step_def read_unlock_def)
  moreover have "fits op (Returning r)" using ok(1) by (cases op) auto
  ultimately show ?thesis using w t lock_okD(1) [OF D(4)] by (intro sim_lock [OF sim f]) (auto simp: read_unlock_def)
qed

subsection \<open>Calling and returning\<close>

lemma sim_return:
  assumes sim: "simulates c a" and f: "map_of (flights c) t = Some (op, x, Returning r)"
  shows "astep wp (Ends t) a = Some ([Returned t op r], a\<lparr>calls := AList.delete t (calls a)\<rparr>)"
    and "simulates (c\<lparr>flights := AList.delete t (flights c)\<rparr>) (a\<lparr>calls := AList.delete t (calls a)\<rparr>)"
proof -
  note D = simulatesD [OF sim]
  note ok = flight_okD [OF D(3) [OF f]]
  show "astep wp (Ends t) a = Some ([Returned t op r], a\<lparr>calls := AList.delete t (calls a)\<rparr>)"
    using D(2) [of t] f by simp
  let ?c = "c\<lparr>flights := AList.delete t (flights c)\<rparr>"
  have fl: "map_of (AList.delete t (flights c)) u = (if u = t then None else map_of (flights c) u)" for u by (simp add: AList.delete_conv')
  have t: "writer (entries_lock c) \<noteq> Some t" "t \<notin> set (readers (entries_lock c))" using ok(3,4) by simp_all
  have "flight_ok u g ?c" if "map_of (flights ?c) u = Some g" for u g
    using that D(3) [of u g] by (auto simp: fl flight_ok_def split: if_splits)
  moreover have "lock_ok ?c" using D(4) t by (auto simp: lock_ok_def fl split: if_splits)
  moreover have "exclusive ?c" using D(5) unfolding exclusive_def by (auto simp: fl split: if_splits)
  moreover have "in_step ?c (abstract a)"
    using D(6) t(1) unfolding in_step_def by (auto simp: fl split: option.splits)
  ultimately show "simulates ?c (a\<lparr>calls := AList.delete t (calls a)\<rparr>)"
    using D(1,2) by (simp add: simulates_def AList.delete_conv')
qed

lemma sim_invoke:
  assumes sim: "simulates c a" and none: "map_of (flights c) t = None" and p: "entry_point op = Some p" and may: "may_invoke op x c"
  shows "astep wp (Begins t op) a = Some ([Called t op], a\<lparr>calls := AList.update t (op, None) (calls a)\<rparr>)"
    and "simulates (goes t op x p c) (a\<lparr>calls := AList.update t (op, None) (calls a)\<rparr>)"
proof -
  note D = simulatesD [OF sim]
  show "astep wp (Begins t op) a = Some ([Called t op], a\<lparr>calls := AList.update t (op, None) (calls a)\<rparr>)"
    using D(2) [of t] none p by simp
  let ?c = "goes t op x p c"
  have t: "writer (entries_lock c) \<noteq> Some t" "t \<notin> set (readers (entries_lock c))"
    using none lock_okD(2,4) [OF D(4)] by blast+
  have p': "fits op p" "replied p = None" "\<not> writes p" "\<not> reads p" "pinned op p x (mem c)" "\<And>key s. p \<noteq> ObserveClone key s"
    using p may by (cases op; auto)+
  have "flight_ok u g ?c" if "map_of (flights ?c) u = Some g" for u g
    using that D(3) [of u g] p' t by (auto simp: flight_ok_def split: if_splits)
  moreover have "lock_ok ?c" using D(4) none by (auto simp: lock_ok_def)
  moreover have "exclusive ?c"
  proof -
    have apart: "x' \<noteq> x" if "op = DropSubject h" "map_of (flights c) u = Some (op', x', p1)" for h u op' x' p1
      using may that(1) busy_flight [OF that(2), of x'] by auto
    show ?thesis unfolding exclusive_def goes_simps
    proof (intro allI impI)
      fix u u' y y' q q' h h'
      assume *: "((map_of (flights c))(t \<mapsto> (op, x, p))) u = Some (DropSubject h, y, q)"
        "((map_of (flights c))(t \<mapsto> (op, x, p))) u' = Some (DropSubject h', y', q')" "u \<noteq> u'"
      consider "u = t" | "u' = t" | "u \<noteq> t" "u' \<noteq> t" by blast
      then show "y \<noteq> y'"
      proof cases
        case 1
        with * apart [of h u' "DropSubject h'" y' q'] show ?thesis by auto
      next
        case 2
        with * apart [of h' u "DropSubject h" y q] show ?thesis by auto
      next
        case 3
        with * D(5) show ?thesis unfolding exclusive_def by (metis fun_upd_other)
      qed
    qed
  qed
  moreover have "in_step ?c (abstract a)"
    using D(6) t(1) unfolding in_step_def by (auto split: option.splits)
  ultimately show "simulates ?c (a\<lparr>calls := AList.update t (op, None) (calls a)\<rparr>)"
    using D(1,2) p'(2) by (simp add: simulates_def AList.update_conv')
qed

subsection \<open>Every move\<close>

text \<open>A move never faults, and the atomic namespace follows with the same events.\<close>

definition follows_move :: "(waker \<Rightarrow> bool) \<Rightarrow> ('k, 'o) atomic \<Rightarrow> fault + ('k, 'o) nevent list \<times> ('k, 'o) nspace \<Rightarrow> bool" where
  "follows_move wp a res \<longleftrightarrow> (\<exists>es c' ms a'. res = Inr (es, c') \<and> arun wp ms a = Some (es, a') \<and> simulates c' a')"

lemma follows_moveI: "arun wp ms a = Some (es, a') \<Longrightarrow> simulates c' a' \<Longrightarrow> follows_move wp a (Inr (es, c'))"
  unfolding follows_move_def by blast

lemma advances_follows:
  assumes "advances wp t (op, x, p) c a"
  shows "follows_move wp a (case inner (mem c) of
       None \<Rightarrow> Inl Dangling
     | Some i \<Rightarrow> (case section_step x p i (mem c) of
           Inl f \<Rightarrow> Inl f
         | Inr (p', w) \<Rightarrow> Inr ([], goes t op x p' (c\<lparr>mem := w\<rparr>))))"
proof -
  from assms obtain i p' w' ms a' where "inner (mem c) = Some i" "section_step x p i (mem c) = Inr (p', w')"
    "arun wp ms a = Some ([], a')" "simulates (goes t op x p' (c\<lparr>mem := w'\<rparr>)) a'" unfolding advances_def by auto
  then show ?thesis by (auto intro: follows_moveI)
qed

lemma fits_at:
  "fits op (SubjectPop key) = (op = MakeSubject key)"
  "fits op (SubjectVacant key pooled) = (op = MakeSubject key)"
  "fits op (SubjectRestore key pooled) = (op = MakeSubject key)"
  "fits op (SubjectNumber key pooled) = (op = MakeSubject key)"
  "fits op (SubjectUnwind key pooled) = (op = MakeSubject key)"
  "fits op (SubjectSlot key pooled gen) = (op = MakeSubject key)"
  "fits op (SubjectInsert key gen s h) = (op = MakeSubject key)"
  "fits op (ObserveGet key) = (op = Observe key)"
  "fits op (ObserveClone key s) = (op = Observe key)"
  "fits op RetireRemove = (\<exists>h. op = DropSubject h)"
  "fits op RetireCount = (\<exists>h. op = DropSubject h)"
  "fits op RetirePush = (\<exists>h. op = DropSubject h)"
  by (cases op; auto)+

lemma section_advances:
  assumes sim: "simulates c a" and f: "map_of (flights c) t = Some (op, x, p)" and "writes p \<or> reads p"
    and "\<And>r. p \<noteq> WriteUnlock r \<and> p \<noteq> ReadUnlock r"
  shows "advances wp t (op, x, p) c a"
proof -
  have fits: "fits op p" by (rule flight_okD(1) [OF simulatesD(3) [OF sim f]])
  note points = adv_subject_pop adv_subject_vacant adv_subject_restore adv_subject_number adv_subject_unwind adv_subject_slot
    adv_subject_insert adv_observe_get adv_observe_clone adv_retire_remove adv_retire_count adv_retire_push
  show ?thesis using fits f assms(3,4) by (cases p) (auto simp: fits_at intro: points [OF sim])
qed

lemma section_follows:
  assumes "simulates c a" and "map_of (flights c) t = Some (op, x, p)" and "proceed t op x p c = Some res"
    and "writes p \<or> reads p" and "\<And>r. p \<noteq> WriteUnlock r \<and> p \<noteq> ReadUnlock r"
  shows "follows_move wp a res"
proof -
  have "proceed t op x p c = Some (case inner (mem c) of
       None \<Rightarrow> Inl Dangling
     | Some i \<Rightarrow> (case section_step x p i (mem c) of
           Inl f \<Rightarrow> Inl f
         | Inr (p', w) \<Rightarrow> Inr ([], goes t op x p' (c\<lparr>mem := w\<rparr>))))"
    using assms(4,5) by (cases p; hypsubst; simp del: section_step.simps)
  then show ?thesis using advances_follows [OF section_advances [OF assms(1,2,4,5)]] assms(3) by simp
qed

lemma proceed_follows:
  assumes sim: "simulates c a" and f: "map_of (flights c) t = Some (op, x, p)" and go: "proceed t op x p c = Some res"
  shows "follows_move wp a res"
proof -
  have fits: "fits op p" by (rule flight_okD(1) [OF simulatesD(3) [OF sim f]])
  show ?thesis
  proof (cases p)
    case (SubjectLock key)
    then have op: "op = MakeSubject key" using fits by (cases op) auto
    from go SubjectLock obtain l where l: "write_lock t (entries_lock c) = Some l" "res = Inr ([], goes t op x (SubjectPop key) (c\<lparr>entries_lock := l\<rparr>))"
      by auto
    have "simulates (goes t op x (SubjectPop key) (c\<lparr>entries_lock := l\<rparr>)) a"
      by (rule sim_write_lock [OF sim f l(1)]) (simp_all add: SubjectLock op)
    then show ?thesis unfolding l(2) by (intro follows_moveI [where ms = "[]"]) simp_all
  next
    case RetireLock
    then obtain h where op: "op = DropSubject h" using fits by (cases op) auto
    from go RetireLock obtain l where l: "write_lock t (entries_lock c) = Some l" "res = Inr ([], goes t op x RetireRemove (c\<lparr>entries_lock := l\<rparr>))"
      by auto
    have "simulates (goes t op x RetireRemove (c\<lparr>entries_lock := l\<rparr>)) a"
      by (rule sim_write_lock [OF sim f l(1)]) (simp_all add: RetireLock op)
    then show ?thesis unfolding l(2) by (intro follows_moveI [where ms = "[]"]) simp_all
  next
    case (ObserveLock key)
    then have op: "op = Observe key" using fits by (cases op) auto
    from go ObserveLock obtain l where l: "read_lock t (entries_lock c) = Some l" "res = Inr ([], goes t op x (ObserveGet key) (c\<lparr>entries_lock := l\<rparr>))"
      by auto
    have "simulates (goes t op x (ObserveGet key) (c\<lparr>entries_lock := l\<rparr>)) a"
      using sim_read_lock [OF sim _ l(1), of key x] f by (simp add: op ObserveLock)
    then show ?thesis unfolding l(2) by (intro follows_moveI [where ms = "[]"]) simp_all
  next
    case (WriteUnlock r)
    have "simulates (goes t op x (Returning r) (c\<lparr>entries_lock := write_unlock (entries_lock c)\<rparr>)) a"
      by (rule sim_write_unlock [OF sim]) (simp add: f WriteUnlock)
    then show ?thesis using go WriteUnlock by (auto intro: follows_moveI [where ms = "[]"])
  next
    case (ReadUnlock r)
    have "simulates (goes t op x (Returning r) (c\<lparr>entries_lock := read_unlock t (entries_lock c)\<rparr>)) a"
      by (rule sim_read_unlock [OF sim]) (simp add: f ReadUnlock)
    then show ?thesis using go ReadUnlock by (auto intro: follows_moveI [where ms = "[]"])
  next
    case (Returning r)
    from f Returning have f': "map_of (flights c) t = Some (op, x, Returning r)" by simp
    from sim_return(1) [OF sim f', where wp = wp] have
      "arun wp [Ends t] a = Some ([Returned t op r], a\<lparr>calls := AList.delete t (calls a)\<rparr>)" by (simp del: astep.simps)
    from follows_moveI [OF this sim_return(2) [OF sim f']] show ?thesis using go Returning by auto
  qed (use section_follows [OF sim f go] in simp_all)
qed

lemma nstep_follows: "simulates c a \<Longrightarrow> nstep wp m c = Some res \<Longrightarrow> follows_move wp a res"
proof (cases m)
  case (Invoke t x op)
  assume sim: "simulates c a" and step: "nstep wp m c = Some res"
  from step Invoke obtain p where p: "map_of (flights c) t = None" "entry_point op = Some p" "may_invoke op x c"
    and res: "res = Inr ([Called t op], goes t op x p c)" by (auto split: option.splits if_splits)
  from sim_invoke(1) [OF sim p, where wp = wp]
  have "arun wp [Begins t op] a = Some ([Called t op], a\<lparr>calls := AList.update t (op, None) (calls a)\<rparr>)"
    by (simp del: astep.simps)
  from follows_moveI [OF this sim_invoke(2) [OF sim p]] show ?thesis by (simp add: res)
next
  case (Go t)
  assume "simulates c a" "nstep wp m c = Some res"
  with Go show ?thesis by (auto split: option.splits prod.splits intro: proceed_follows)
next
  case (Elsewhere op)
  assume sim: "simulates c a" and step: "nstep wp m c = Some res"
  from step Elsewhere have may: "entry_point op = None" "owns op (mem c)" "\<forall>x\<in>set (busy c). \<not> names op x"
    and res: "res = (case exec (here (held_arcs c)) wp op (mem c) of
          Inl f \<Rightarrow> Inl f
        | Inr (r, w) \<Rightarrow> Inr ([Did op r], c\<lparr>mem := w\<rparr>))"
    by (simp_all split: if_splits)
  obtain r w' a' where ex: "exec (here (held_arcs c)) wp op (mem c) = Inr (r, w')"
    and does: "astep wp (Does op) a = Some ([Did op r], a')" and sim': "simulates (c\<lparr>mem := w'\<rparr>) a'"
    by (rule sim_elsewhere [OF sim may])
  have "arun wp [Does op] a = Some ([Did op r], a')" using does by (simp del: astep.simps)
  from follows_moveI [OF this sim'] show ?thesis by (simp add: res ex)
qed

subsection \<open>Every run\<close>

lemma simulates_new: "simulates nspace_new atomic_new"
  by (simp add: simulates_def nspace_new_def atomic_new_def reach.start lock_ok_def exclusive_def in_step_def put_same)

lemma nrun_simulates:
  assumes "simulates c a" and "nrun wp ms c = Some res"
  shows "follows_move wp a res"
  using assms
proof (induction ms arbitrary: c a res)
  case Nil
  then show ?case by (auto intro: follows_moveI [where ms = "[]"])
next
  case (Cons m ms)
  from Cons.prems(2) obtain res1 where one: "nstep wp m c = Some res1" by (auto split: option.splits)
  from nstep_follows [OF Cons.prems(1) one] obtain es c' as a' where c': "res1 = Inr (es, c')"
    and a': "arun wp as a = Some (es, a')" and sim: "simulates c' a'" unfolding follows_move_def by blast
  from Cons.prems(2) one c' obtain res2 where two: "nrun wp ms c' = Some res2" by (auto split: option.splits)
  from Cons.IH [OF sim two] obtain es' c'' bs a'' where c'': "res2 = Inr (es', c'')"
    and a'': "arun wp bs a' = Some (es', a'')" and sim': "simulates c'' a''" unfolding follows_move_def by blast
  have "arun wp (as @ bs) a = Some (es @ es', a'')" by (simp add: arun_append a' a'')
  moreover have "res = Inr (es @ es', c'')" using Cons.prems(2) one c' two c'' by simp
  ultimately show ?case using sim' by (auto intro: follows_moveI)
qed

text \<open>While nobody writes, the namespace in memory is the atomic one.\<close>

lemma simulates_quiet:
  assumes "simulates c a" and "writer (entries_lock c) = None"
  shows "abstract a = mem c"
proof -
  have "abstract a = put_inner (inner (abstract a)) (mem c)" "inner (mem c) = inner (abstract a)"
    using simulatesD(6) [OF assms(1)] assms(2) by (simp_all add: in_step_def)
  then show ?thesis by (metis put_same)
qed

end
