(* ===== verification/Namespace_Guarantees.thy ===== *)
theory Namespace_Guarantees
  imports Namespace_Refinement
begin

section \<open>What threads on one namespace can rely on\<close>

subsection \<open>Somebody can always move\<close>

text \<open>The accesses a call has still to make, at most.\<close>

fun remaining :: "('k, 'o) point \<Rightarrow> nat" where
  "remaining (SubjectLock key) = 8"
| "remaining (SubjectPop key) = 7"
| "remaining (SubjectVacant key pooled) = 6"
| "remaining (SubjectRestore key pooled) = 3"
| "remaining (SubjectNumber key pooled) = 5"
| "remaining (SubjectUnwind key pooled) = 3"
| "remaining (SubjectSlot key pooled gen) = 4"
| "remaining (SubjectInsert key gen s h) = 3"
| "remaining (ObserveLock key) = 5"
| "remaining (ObserveGet key) = 4"
| "remaining (ObserveClone key s) = 3"
| "remaining RetireLock = 6"
| "remaining RetireRemove = 5"
| "remaining RetireCount = 4"
| "remaining RetirePush = 3"
| "remaining (WriteUnlock r) = 2"
| "remaining (ReadUnlock r) = 2"
| "remaining (Returning r) = 1"

definition accesses_left :: "('k, 'o) nspace \<Rightarrow> nat" where
  "accesses_left c = (\<Sum>(t, op, x, p)\<leftarrow>flights c. remaining p)"

lemma remaining_le: "remaining p \<le> 8"
  by (cases p) simp_all

lemma accesses_left_le: "accesses_left c \<le> 8 * length (flights c)"
proof -
  have "(\<Sum>(t, op, x, p)\<leftarrow>fs. remaining p) \<le> 8 * length fs" for fs :: "(thread_id \<times> ('k, 'o) flight) list"
    using remaining_le by (induction fs) (auto intro: add_mono)
  then show ?thesis by (simp add: accesses_left_def)
qed

lemma section_remaining: "section_step x p i w = Inr (p', w') \<Longrightarrow> remaining p' < remaining p"
  by (cases p) (auto simp: Let_def split: prod.splits option.splits sum.splits if_splits)

lemma left_update:
  fixes fs :: "(thread_id \<times> ('k, 'o) flight) list"
  shows "map_of fs t = Some (op, x, p) \<Longrightarrow> remaining p' < remaining p \<Longrightarrow>
    (\<Sum>(t, op, x, p)\<leftarrow>AList.update t (op', x', p') fs. remaining p) < (\<Sum>(t, op, x, p)\<leftarrow>fs. remaining p)"
  by (induction fs) auto

lemma left_delete:
  fixes fs :: "(thread_id \<times> ('k, 'o) flight) list"
  shows "map_of fs t = Some (op, x, p) \<Longrightarrow> (\<Sum>(t, op, x, p)\<leftarrow>AList.delete t fs. remaining p) < (\<Sum>(t, op, x, p)\<leftarrow>fs. remaining p)"
proof (induction fs)
  case (Cons f fs)
  have le: "(\<Sum>(t, op, x, p)\<leftarrow>AList.delete t gs. remaining p) \<le> (\<Sum>(t, op, x, p)\<leftarrow>gs. remaining p)"
    for gs :: "(thread_id \<times> ('k, 'o) flight) list" by (induction gs) auto
  obtain t' op' x' p' where f: "f = (t', op', x', p')" by (cases f)
  have "0 < remaining p'" by (cases p') simp_all
  with Cons le [of fs] show ?case by (auto simp: f intro: le_less_trans split: if_splits)
qed simp

lemma proceed_left:
  assumes f: "map_of (flights c) t = Some (op, x, p)" and go: "proceed t op x p c = Some (Inr (es, c'))"
  shows "accesses_left c' < accesses_left c"
proof (cases "\<exists>r. p = Returning r")
  case True
  then show ?thesis using go left_delete [OF f] by (auto simp: accesses_left_def)
next
  case False
  obtain p' where "flights c' = AList.update t (op, x, p') (flights c)" "remaining p' < remaining p"
    using go False section_remaining [of x p]
    by (cases p; hypsubst) (auto simp: goes_def simp del: section_step.simps split: option.splits sum.splits prod.splits)
  with left_update [OF f] show ?thesis by (simp add: accesses_left_def)
qed

lemma go_left: "nstep wp (Go t) c = Some (Inr (es, c')) \<Longrightarrow> accesses_left c' < accesses_left c"
  by (auto split: option.splits prod.splits intro: proceed_left)

lemma somebody_moves:
  assumes sim: "simulates c a" and "flights c \<noteq> []"
  shows "\<exists>t. nstep wp (Go t) c \<noteq> None"
proof -
  note D = simulatesD [OF sim]
  have inside: "nstep wp (Go t) c \<noteq> None"
    if "map_of (flights c) t = Some (op, x, p)" "writes p \<or> reads p" for t op x p
    using that by (cases p) auto
  show ?thesis
  proof (cases "writer (entries_lock c)")
    case (Some t)
    then obtain op x p where f: "map_of (flights c) t = Some (op, x, p)" using lock_okD(4) [OF D(4)] by (cases "map_of (flights c) t") auto
    then show ?thesis using inside flight_okD(3) [OF D(3) [OF f]] Some by blast
  next
    case free: None
    show ?thesis
    proof (cases "readers (entries_lock c)")
      case (Cons t ts)
      then obtain op x p where f: "map_of (flights c) t = Some (op, x, p)"
        using lock_okD(2) [OF D(4), of t] by (cases "map_of (flights c) t") auto
      then show ?thesis using inside flight_okD(4) [OF D(3) [OF f]] Cons by (metis list.set_intros(1))
    next
      case Nil
      obtain t op x p where f: "map_of (flights c) t = Some (op, x, p)"
        using assms(2) by (cases "flights c") (auto, metis map_of_Cons_code(2) prod_cases3)
      have "\<not> writes p" "\<not> reads p" using flight_okD(3,4) [OF D(3) [OF f]] free Nil by simp_all
      then have "nstep wp (Go t) c \<noteq> None"
        using f free Nil by (cases p) (auto simp: write_lock_def read_lock_def)
      then show ?thesis by blast
    qed
  qed
qed

lemma gos_left: "nrun wp (map Go ts) c = Some (Inr (es, c')) \<Longrightarrow> accesses_left c' + length ts \<le> accesses_left c"
proof (induction ts arbitrary: c es)
  case (Cons t ts)
  from Cons.prems obtain es1 c1 es2 where one: "nstep wp (Go t) c = Some (Inr (es1, c1))" "nrun wp (map Go ts) c1 = Some (Inr (es2, c'))"
    by (auto simp del: nstep.simps split: option.splits sum.splits prod.splits)
  from Cons.IH [OF one(2)] go_left [OF one(1)] show ?case by simp
qed simp

subsection \<open>The properties\<close>

text \<open>A run of concrete moves, checked by evaluation.\<close>

fun nrun_ends :: "(fault + ('k, 'o) nevent list \<times> ('k, 'o) nspace) option \<Rightarrow>
    (('k, 'o) nevent list \<Rightarrow> ('k, 'o) nspace \<Rightarrow> bool) \<Rightarrow> bool" where
  "nrun_ends (Some (Inr (es, c))) Q = Q es c"
| "nrun_ends _ Q = False"

lemma nrun_ends_iff: "nrun_ends r Q \<longleftrightarrow> (\<exists>es c. r = Some (Inr (es, c)) \<and> Q es c)"
  by (cases "(r, Q)" rule: nrun_ends.cases) auto

text \<open>A pooled slot has nobody who could publish on it.\<close>

lemma pooled_no_authority:
  assumes wf: "wf w" and s: "s \<in> set (pool_of w)"
  shows "\<not> authority w s"
proof -
  have "distinct (map snd (publishers w) @ pool_of w)"
    using wfD(5) [OF wf] by (simp add: authority_inv_def authority_slots_def)
  then have "(h, s) \<notin> set (publishers w)" for h using s by force
  then show ?thesis using subject_not_pooled [OF wf] s by (auto simp: authority_def)
qed

text \<open>The states threads can bring about.\<close>

lemma nrun_reaches:
  assumes "nrun wp ms nspace_new = Some (Inr (es, c))"
  obtains a where "simulates c a"
  using nrun_simulates [OF simulates_new assms] unfolding follows_move_def by auto

text \<open>
  C9: Linearizability of the namespace: whatever threads call \<open>subject\<close>, \<open>observe\<close> and the drop of a
  subject, with the accesses under the entries lock interleaved in any way and any other operations
  of the crate between them, no access faults, and the calls and returns are those of the atomic
  namespace, where each call takes effect at one instant between its invocation and its return as
  the sequential operation of \<open>Space\<close>; while nobody writes, the memory is that of the atomic
  namespace.
\<close>

theorem namespace_linearizable:
  assumes "nrun wp ms nspace_new = Some res"
  shows "\<exists>es c as a. res = Inr (es, c) \<and> arun wp as atomic_new = Some (es, a) \<and> reach handle_count (abstract a)
     \<and> (\<forall>t. map_option fst (map_of (calls a) t) = map_option fst (map_of (flights c) t))
     \<and> (writer (entries_lock c) = None \<longrightarrow> mem c = abstract a)"
proof -
  obtain es c as a where res: "res = Inr (es, c)" "arun wp as atomic_new = Some (es, a)" and sim: "simulates c a"
    using nrun_simulates [OF simulates_new assms] unfolding follows_move_def by blast
  have "map_option fst (map_of (calls a) t) = map_option fst (map_of (flights c) t)" for t
    using simulatesD(2) [OF sim, of t] by (cases "map_of (flights c) t") auto
  moreover have "mem c = abstract a" if "writer (entries_lock c) = None"
    by (rule simulates_quiet [OF sim that, symmetric])
  ultimately show ?thesis using res simulatesD(1) [OF sim]
    by (intro exI [of _ es] exI [of _ c] exI [of _ as] exI [of _ a] conjI) simp_all
qed

text \<open>
  Two threads register the same key and a third observes it, while a fourth makes a pair; the second
  registration finds the key taken.
\<close>

definition race :: "(nat, nat) nmove list" where
  "race = [Invoke 0 0 (MakeSubject 7), Invoke 1 0 (MakeSubject 7), Invoke 2 0 (Observe 7), Go 0, Go 0, Elsewhere MakePair, Go 0, Go 0,
     Go 0, Go 0, Go 0, Go 2, Go 2, Go 2, Go 2, Go 2, Go 1, Go 1, Go 1, Go 1, Go 1, Go 1, Go 0]"

definition race_events :: "(nat, nat) nevent list" where
  "race_events = [Called 0 (MakeSubject 7), Called 1 (MakeSubject 7), Called 2 (Observe 7), Did MakePair (Ret (NewPair 1 2)),
     Returned 2 (Observe 7) (Ret (NewHandle 4)), Returned 1 (MakeSubject 7) (Ret (SubjectExists 7)),
     Returned 0 (MakeSubject 7) (Ret (NewHandle 3))]"

lemma race_runs: "nrun_ends (nrun (\<lambda>_. False) race nspace_new) (\<lambda>es c. es = race_events \<and> flights c = [])"
  by code_simp

theorem namespace_linearizable_witness:
  "\<exists>c as a. nrun (\<lambda>_. False) race nspace_new = Some (Inr (race_events, c)) \<and> arun (\<lambda>_. False) as atomic_new = Some (race_events, a)"
proof -
  obtain c where c: "nrun (\<lambda>_. False) race nspace_new = Some (Inr (race_events, c))" using race_runs by (auto simp: nrun_ends_iff)
  from namespace_linearizable [OF c] c show ?thesis by auto
qed

text \<open>
  C11: The entries lock never deadlocks: from every state threads can bring about, the accesses of the
  calls in flight come to an end after at most eight each, under every schedule, and as long as a
  call is in flight some thread can make its next access.
\<close>

theorem namespace_progress:
  assumes "nrun wp ms nspace_new = Some (Inr (es, c))" and "nrun wp (map Go ts) c = Some (Inr (es', c'))"
  shows "length ts \<le> 8 * length (flights c) \<and> (flights c' = [] \<or> (\<exists>t. nstep wp (Go t) c' \<noteq> None))"
proof -
  obtain a where "simulates c a" by (rule nrun_reaches [OF assms(1)])
  from nrun_simulates [OF this assms(2)] obtain a' where "simulates c' a'" unfolding follows_move_def by auto
  then have "flights c' = [] \<or> (\<exists>t. nstep wp (Go t) c' \<noteq> None)" using somebody_moves by blast
  moreover have "length ts \<le> 8 * length (flights c)" using gos_left [OF assms(2)] accesses_left_le [of c] by linarith
  ultimately show ?thesis by blast
qed

text \<open>A registration that has popped its slot, and an observation that waits for the lock.\<close>

definition half_registered :: "(nat, nat) nmove list" where
  "half_registered = [Invoke 0 0 (MakeSubject 7), Go 0, Invoke 1 0 (Observe 7), Go 0]"

lemma half_registered_runs:
  "nrun_ends (nrun (\<lambda>_. False) half_registered nspace_new) (\<lambda>es c. nrun_ends (nrun (\<lambda>_. False) (map Go [0]) c)
     (\<lambda>es' c'. flights c' \<noteq> [] \<and> nstep (\<lambda>_. False) (Go 1) c' = None))"
  by code_simp

theorem namespace_progress_witness:
  "\<exists>es c es' c'. nrun (\<lambda>_. False) half_registered nspace_new = Some (Inr (es, c))
     \<and> nrun (\<lambda>_. False) (map Go [0]) c = Some (Inr (es', c'))
     \<and> nstep (\<lambda>_. False) (Go 1) c' = None \<and> (\<exists>t. nstep (\<lambda>_. False) (Go t) c' \<noteq> None)"
proof -
  from half_registered_runs obtain es c es' c' where c: "nrun (\<lambda>_. False) half_registered nspace_new = Some (Inr (es, c))"
    "nrun (\<lambda>_. False) (map Go [0]) c = Some (Inr (es', c'))" "flights c' \<noteq> []" "nstep (\<lambda>_. False) (Go 1) c' = None"
    unfolding nrun_ends_iff by blast
  from namespace_progress [OF c(1,2)] c(3) have "\<exists>t. nstep (\<lambda>_. False) (Go t) c' \<noteq> None" by blast
  with c(1,2,4) show ?thesis by blast
qed

text \<open>
  C10: Recycling is exclusive, also among threads: when \<open>subject\<close> resets a slot it popped from the pool,
  the slot is allocated, no observation and no future is on it, nobody can publish on it, and no
  other thread is between looking up a key and taking its observation.
\<close>

theorem recycled_slot_is_exclusive:
  assumes "nrun wp ms nspace_new = Some (Inr (es, c))" and f: "map_of (flights c) t = Some (op, x, SubjectSlot key (Some s) gen)"
  shows "heap (mem c) s \<noteq> None \<and> s \<notin> reader_slots (mem c) \<and> \<not> authority (mem c) s
     \<and> (\<forall>t' op' x' key' s'. map_of (flights c) t' \<noteq> Some (op', x', ObserveClone key' s'))"
proof -
  obtain a where sim: "simulates c a" by (rule nrun_reaches [OF assms(1)])
  note D = simulatesD [OF sim]
  obtain ic ia where i: "inner (mem c) = Some ic" "inner (abstract a) = Some ia" "abstract a = put_inner (Some ia) (mem c)"
    and gap: "gap (SubjectSlot key (Some s) gen) x (mem c) ic ia" by (rule writer_gap [OF sim f]) simp
  have s: "s \<in> set (pool_of (abstract a))"
    using popped_pool gap i(2) by (fastforce simp: numbered_def pool_of_def opt_list_def)
  have "s \<in> set (authority_slots (abstract a))" using s by (simp add: authority_slots_def)
  then have "heap (abstract a) s \<noteq> None" using ref_heap [OF D(7)] authority_refs by blast
  moreover have "s \<notin> reader_slots (abstract a)" using wfD(5) [OF D(7)] s by (auto simp: authority_inv_def)
  moreover have "\<not> authority (abstract a) s" by (rule pooled_no_authority [OF D(7) s])
  moreover have "heap (abstract a) = heap (mem c)" "reader_slots (abstract a) = reader_slots (mem c)"
    "authority (abstract a) s = authority (mem c) s"
    using arg_cong [OF i(3), of heap] arg_cong [OF i(3), of reader_slots] arg_cong [OF i(3), of "\<lambda>w. authority w s"]
    by (simp_all add: reader_slots_def authority_def)
  moreover have "map_of (flights c) t' \<noteq> Some (op', x', ObserveClone key' s')" for t' op' x' key' s'
  proof
    assume f': "map_of (flights c) t' = Some (op', x', ObserveClone key' s')"
    have "writer (entries_lock c) = Some t" using flight_okD(3) [OF D(3) [OF f]] by simp
    with flight_okD(4) [OF D(3) [OF f']] lock_okD(3) [OF D(4)] show False by simp
  qed
  ultimately show ?thesis by auto
qed

text \<open>Key 7 is registered and retired, and its slot recycled for key 8.\<close>

definition recycling :: "(nat, nat) nmove list" where
  "recycling = Invoke 0 0 (MakeSubject 7) # replicate 8 (Go 0) @ Invoke 0 1 (DropSubject 1) # replicate 6 (Go 0)
     @ Invoke 0 0 (MakeSubject 8) # replicate 4 (Go 0)"

lemma recycling_runs:
  "nrun_ends (nrun (\<lambda>_. False) recycling nspace_new)
     (\<lambda>es c. map_of (flights c) 0 = Some (MakeSubject 8, 0, SubjectSlot 8 (Some 0) 2))"
  by code_simp

theorem recycled_slot_is_exclusive_witness:
  "\<exists>es c. nrun (\<lambda>_. False) recycling nspace_new = Some (Inr (es, c))
     \<and> map_of (flights c) 0 = Some (MakeSubject 8, 0, SubjectSlot 8 (Some 0) 2)
     \<and> heap (mem c) 0 \<noteq> None \<and> 0 \<notin> reader_slots (mem c)"
proof -
  from recycling_runs obtain es c where c: "nrun (\<lambda>_. False) recycling nspace_new = Some (Inr (es, c))"
    "map_of (flights c) 0 = Some (MakeSubject 8, 0, SubjectSlot 8 (Some 0) 2)" unfolding nrun_ends_iff by blast
  from recycled_slot_is_exclusive [OF c] c show ?thesis by simp
qed

end
