(* ===== verification/Protocol.thy ===== *)
theory Protocol
  imports Observer
begin

section \<open>Threads on one slot\<close>

text \<open>
  The operations of \<open>Slot\<close>, \<open>Observation\<close> and \<open>ObservationFuture\<close> that synchronise, taken apart
  into their atomic accesses and run by any number of threads: the completion word, the outcome
  cell, the lazily created registry (a box published by a compare-exchange, with a mutex inside)
  and the park tokens of the threads.  A step of the system is one access of one thread, so every
  interleaving is covered; memory is sequentially consistent.  The thread that owns the publication
  authority can publish once; the others read, block (with or without a deadline), register wakers,
  poll futures and drop them as often as they like, also after they returned.  A future may move
  between threads, but \<open>poll\<close> borrows it exclusively and dropping it consumes it.

  A thread's program counter says which access comes next.  \<open>goal\<close> is what it wants the registry
  for, \<open>cont\<close> what it does after unlocking it.  Spurious wake-ups and expired deadlines are steps
  that may happen to any parked thread.
\<close>

type_synonym future_id = nat

datatype job =
    Await bool                  \<comment> \<open>\<open>wait\<close>, or \<open>wait_timeout\<close>, which has a deadline\<close>
  | Register waker
  | Polling future_id waker     \<comment> \<open>\<open>register_future_waker\<close>, called by \<open>poll\<close>\<close>

datatype goal = Enter job | Expire | Drain | Cancel future_id

datatype 'o outcome_reply =
    Got 'o
  | Missing
  | Registered bool
  | Expired
  | Published
  | PublishPanicked waker       \<comment> \<open>the first panic of a waker, resumed after the drain\<close>
  | Unresolved                  \<comment> \<open>\<open>Poll::Pending\<close>\<close>
  | Overflowed                  \<comment> \<open>the registration count overflowed: a panic\<close>
  | Cancelled

datatype 'o cont = Parks bool | Returns "'o outcome_reply" | Notifies "waiter list" | Repolls future_id waker

datatype 'o pc =
    PIdle
  | PGet
  | PLoad job
  | PRead
  | PSetWaiter job
  | PRegistry goal
  | PInit goal nat
  | PLock goal nat
  | PInside goal nat
  | PRecheck job nat
  | PReadLocked nat
  | PUnlock nat "'o cont"
  | PPark bool
  | PPoll future_id waker           \<comment> \<open>the first \<open>try_get\<close> of \<open>poll\<close>\<close>
  | PAgain future_id waker bool     \<comment> \<open>the second one, with \<open>known_waker\<close>\<close>
  | PStore 'o
  | PPublish
  | PNotify "waiter list"
  | PReturned "'o outcome_reply"

record mtx =
  queue :: "waiter list"
  owner :: "thread_id option"

record 'o conc =
  cbits :: usize
  ocell :: "'o option"
  regp :: "nat option"
  boxes :: "nat \<rightharpoonup> mtx"
  next_box :: nat
  tokens :: "thread_id \<Rightarrow> bool"
  pcs :: "thread_id \<Rightarrow> 'o pc"
  publisher :: "thread_id option"
  fwakers :: "future_id \<Rightarrow> waker list"       \<comment> \<open>\<open>ObservationFuture::wakers\<close>\<close>
  alive :: "future_id \<Rightarrow> bool"               \<comment> \<open>not dropped yet\<close>
  granted :: "waker list"                     \<comment> \<open>the wakers whose direct registration returned \<open>false\<close>\<close>
  held :: "(future_id \<times> waker) list"          \<comment> \<open>the registrations made for futures and not cancelled\<close>
  fired :: "waker list"                       \<comment> \<open>the wakers woken\<close>
  wake_panics :: "waker \<Rightarrow> bool"               \<comment> \<open>the wakers whose \<open>wake\<close> panics\<close>
  panics :: "waker list"                      \<comment> \<open>the panics that the drain of \<open>complete\<close> has caught\<close>

definition conc_new :: "thread_id \<Rightarrow> 'o conc" where
  "conc_new p = \<lparr>cbits = 0, ocell = None, regp = None, boxes = Map.empty, next_box = 0,
     tokens = (\<lambda>_. False), pcs = (\<lambda>_. PIdle), publisher = Some p,
     fwakers = (\<lambda>_. []), alive = (\<lambda>_. True), granted = [], held = [], fired = [],
     wake_panics = (\<lambda>_. False), panics = []\<rparr>"

definition goto :: "thread_id \<Rightarrow> 'o pc \<Rightarrow> 'o conc \<Rightarrow> 'o conc" where
  "goto t p c = c\<lparr>pcs := (pcs c)(t := p)\<rparr>"

text \<open>Access to the contents of a box, which must be allocated.\<close>

definition on_box :: "nat \<Rightarrow> (mtx \<Rightarrow> 'o conc \<Rightarrow> (fault + 'o conc) option) \<Rightarrow> 'o conc \<Rightarrow> (fault + 'o conc) option" where
  "on_box b f c = (case boxes c b of
     None \<Rightarrow> Some (Inl Dangling)
   | Some m \<Rightarrow> f m c)"

definition set_box :: "nat \<Rightarrow> mtx \<Rightarrow> 'o conc \<Rightarrow> 'o conc" where
  "set_box b m c = c\<lparr>boxes := (boxes c)(b \<mapsto> m)\<rparr>"

text \<open>A dropped future's list of wakers goes with it.\<close>

definition disown :: "future_id \<Rightarrow> 'o conc \<Rightarrow> 'o conc" where
  "disown f c = c\<lparr>fwakers := (fwakers c)(f := []), held := filter (\<lambda>(g, w). \<not> (g = f \<and> w \<in> set (fwakers c f))) (held c)\<rparr>"

text \<open>What happens under the mutex, before the completion word is read again.\<close>

fun inside :: "thread_id \<Rightarrow> goal \<Rightarrow> nat \<Rightarrow> mtx \<Rightarrow> 'o conc \<Rightarrow> fault + 'o conc" where
  "inside t (Enter (Await timed)) b m c =
     Inr (goto t (PRecheck (Await timed) b) (set_box b (m\<lparr>queue := push_thread t (queue m)\<rparr>) c))"
| "inside t (Enter j) b m c = Inr (goto t (PRecheck j b) c)"
| "inside t Expire b m c =
     Inr (goto t (PUnlock b (Returns Expired)) (set_box b (m\<lparr>queue := remove_thread t (queue m)\<rparr>) c))"
| "inside t Drain b m c =
     Inr (goto t (PUnlock b (Notifies (queue m))) (set_box b (m\<lparr>queue := []\<rparr>) c\<lparr>panics := []\<rparr>))"
| "inside t (Cancel f) b m c = (case cancel (fwakers c f) (queue m) of
       Inl e \<Rightarrow> Inl e
     | Inr ws \<Rightarrow> Inr (goto t (PUnlock b (Returns Cancelled)) (set_box b (m\<lparr>queue := ws\<rparr>) (disown f c))))"

text \<open>The second look at the completion word, still under the mutex.\<close>

fun recheck :: "thread_id \<Rightarrow> job \<Rightarrow> nat \<Rightarrow> mtx \<Rightarrow> 'o conc \<Rightarrow> 'o conc" where
  "recheck t (Await timed) b m c =
     (if cbits c AND COMPLETED \<noteq> 0
      then goto t (PReadLocked b) (set_box b (m\<lparr>queue := remove_thread t (queue m)\<rparr>) c)
      else goto t (PUnlock b (Parks timed)) c)"
| "recheck t (Register w) b m c =
     (if cbits c AND COMPLETED \<noteq> 0
      then goto t (PUnlock b (Returns (Registered True))) c
      else goto t (PUnlock b (Returns (Registered False)))
             (set_box b (m\<lparr>queue := direct_registered w (queue m)\<rparr>) c\<lparr>granted := w # granted c\<rparr>))"
| "recheck t (Polling f w) b m c =
     (if cbits c AND COMPLETED \<noteq> 0 then goto t (PUnlock b (Repolls f w)) c
      else (case future_registered w (queue m) of
          Panic p \<Rightarrow> goto t (PUnlock b (Returns Overflowed)) c
        | Ret ws \<Rightarrow> goto t (PUnlock b (Repolls f w)) (set_box b (m\<lparr>queue := ws\<rparr>) c\<lparr>held := (f, w) # held c\<rparr>)))"

fun resume :: "'o cont \<Rightarrow> 'o pc" where
  "resume (Parks timed) = PPark timed"
| "resume (Returns r) = PReturned r"
| "resume (Notifies ws) = PNotify ws"
| "resume (Repolls f w) = PAgain f w False"

text \<open>
  One turn of the drain loop: a thread is unparked, a waker is woken, and its panic is caught.  What the
  call ends with once the list is empty: it resumes the first panic.
\<close>

fun notify :: "waiter \<Rightarrow> 'o conc \<Rightarrow> 'o conc" where
  "notify (Thread u) c = c\<lparr>tokens := (tokens c)(u := True)\<rparr>"
| "notify (Waker w p n) c = c\<lparr>fired := w # fired c, panics := panics c @ (if wake_panics c w then [w] else [])\<rparr>"

fun published_reply :: "waker list \<Rightarrow> 'o outcome_reply" where
  "published_reply [] = Published"
| "published_reply (w # ws) = PublishPanicked w"

text \<open>One access of thread \<open>t\<close>; \<open>None\<close> when it has nothing to do or is blocked.\<close>

fun act :: "thread_id \<Rightarrow> 'o pc \<Rightarrow> 'o conc \<Rightarrow> (fault + 'o conc) option" where
  "act t PGet c = Some (Inr (goto t (if cbits c AND COMPLETED \<noteq> 0 then PRead else PReturned Missing) c))"
| "act t (PLoad j) c = Some (Inr (goto t
     (if cbits c AND COMPLETED \<noteq> 0
      then (case j of
              Await _ \<Rightarrow> PRead
            | Register _ \<Rightarrow> PReturned (Registered True)
            | Polling f w \<Rightarrow> PAgain f w False)
      else PSetWaiter j) c))"
| "act t PRead c = Some (case ocell c of None \<Rightarrow> Inl UninitRead | Some v \<Rightarrow> Inr (goto t (PReturned (Got v)) c))"
| "act t (PSetWaiter j) c =
     Some (Inr (goto t (PRegistry (Enter j)) (c\<lparr>cbits := cbits c OR HAS_WAITER\<rparr>)))"
| "act t (PRegistry g) c = Some (Inr (case regp c of
       Some b \<Rightarrow> goto t (PLock g b) c
     | None \<Rightarrow> goto t (PInit g (next_box c))
         (set_box (next_box c) \<lparr>queue = [], owner = None\<rparr> c\<lparr>next_box := next_box c + 1\<rparr>)))"
| "act t (PInit g n) c = Some (Inr (case regp c of
       None \<Rightarrow> goto t (PLock g n) (c\<lparr>regp := Some n\<rparr>)
     | Some b \<Rightarrow> goto t (PLock g b) (c\<lparr>boxes := (boxes c)(n := None)\<rparr>)))"
| "act t (PLock g b) c = on_box b (\<lambda>m c. if owner m = None
       then Some (Inr (goto t (PInside g b) (set_box b (m\<lparr>owner := Some t\<rparr>) c))) else None) c"
| "act t (PInside g b) c = on_box b (\<lambda>m c. Some (inside t g b m c)) c"
| "act t (PRecheck j b) c = on_box b (\<lambda>m c. Some (Inr (recheck t j b m c))) c"
| "act t (PReadLocked b) c = Some (case ocell c of
       None \<Rightarrow> Inl UninitRead
     | Some v \<Rightarrow> Inr (goto t (PUnlock b (Returns (Got v))) c))"
| "act t (PUnlock b k) c = on_box b (\<lambda>m c. Some (Inr (goto t (resume k) (set_box b (m\<lparr>owner := None\<rparr>) c)))) c"
| "act t (PPark timed) c = (if tokens c t
       then Some (Inr (goto t (PLoad (Await timed)) (c\<lparr>tokens := (tokens c)(t := False)\<rparr>))) else None)"
| "act t (PPoll f w) c = Some (Inr (goto t
     (if cbits c AND COMPLETED \<noteq> 0 then PRead
      else if list_ex (\<lambda>m. will_wake m w) (fwakers c f) then PAgain f w True else PLoad (Polling f w)) c))"
| "act t (PAgain f w known_waker) c = Some (Inr
     (if cbits c AND COMPLETED \<noteq> 0 then goto t PRead c
      else goto t (PReturned Unresolved)
        (if known_waker then c else c\<lparr>fwakers := (fwakers c)(f := fwakers c f @ [w])\<rparr>)))"
| "act t (PStore v) c = Some (Inr (goto t PPublish (c\<lparr>ocell := Some v\<rparr>)))"
| "act t PPublish c =
     (let previous = cbits c;
          c' = c\<lparr>cbits := previous OR (COMPLETED OR OUTCOME_VALID)\<rparr>
      in Some (if previous AND COMPLETED \<noteq> 0 then Inl CompletedTwice
               else Inr (goto t (if previous AND HAS_WAITER \<noteq> 0 then PRegistry Drain else PReturned Published) c')))"
| "act t (PNotify []) c = Some (Inr (goto t (PReturned (published_reply (panics c))) c))"
| "act t (PNotify (w # ws)) c = Some (Inr (goto t (PNotify ws) (notify w c)))"
| "act t PIdle c = None"
| "act t (PReturned r) c = None"

definition advance :: "thread_id \<Rightarrow> 'o conc \<Rightarrow> (fault + 'o conc) option" where
  "advance t c = act t (pcs c t) c"

text \<open>A thread between two operations.\<close>

fun resting :: "'o pc \<Rightarrow> bool" where
  "resting PIdle = True"
| "resting (PReturned r) = True"
| "resting _ = False"

text \<open>The future a thread is polling or dropping: no other thread can use it.\<close>

fun goal_future :: "goal \<Rightarrow> future_id option" where
  "goal_future (Enter (Polling f w)) = Some f"
| "goal_future (Cancel f) = Some f"
| "goal_future _ = None"

fun future_of :: "'o pc \<Rightarrow> future_id option" where
  "future_of (PPoll f w) = Some f"
| "future_of (PAgain f w k) = Some f"
| "future_of (PLoad j) = goal_future (Enter j)"
| "future_of (PSetWaiter j) = goal_future (Enter j)"
| "future_of (PRegistry g) = goal_future g"
| "future_of (PInit g n) = goal_future g"
| "future_of (PLock g b) = goal_future g"
| "future_of (PInside g b) = goal_future g"
| "future_of (PRecheck j b) = goal_future (Enter j)"
| "future_of (PUnlock b (Repolls f w)) = Some f"
| "future_of _ = None"

definition owns_future :: "future_id \<Rightarrow> 'o conc \<Rightarrow> bool" where
  "owns_future f c \<longleftrightarrow> alive c f \<and> (\<forall>u. future_of (pcs c u) \<noteq> Some f)"

inductive cstep :: "'o conc \<Rightarrow> 'o conc \<Rightarrow> bool" where
  access: "advance t c = Some (Inr c') \<Longrightarrow> cstep c c'"
| call_get: "resting (pcs c t) \<Longrightarrow> cstep c (goto t PGet c)"
| call_wait: "resting (pcs c t) \<Longrightarrow> cstep c (goto t (PLoad (Await timed)) c)"
| call_register: "resting (pcs c t) \<Longrightarrow> cstep c (goto t (PLoad (Register w)) c)"
| call_poll: "resting (pcs c t) \<Longrightarrow> owns_future f c \<Longrightarrow> cstep c (goto t (PPoll f w) c)"
| call_drop: "resting (pcs c t) \<Longrightarrow> owns_future f c \<Longrightarrow>
    cstep c (goto t (if fwakers c f = [] then PReturned Cancelled else PRegistry (Cancel f))
      (c\<lparr>alive := (alive c)(f := False)\<rparr>))"
| call_complete: "resting (pcs c t) \<Longrightarrow> publisher c = Some t \<Longrightarrow>
    cstep c (goto t (PStore v) (c\<lparr>publisher := None\<rparr>))"
| spurious: "pcs c t = PPark timed \<Longrightarrow> cstep c (goto t (PLoad (Await timed)) c)"
| deadline: "pcs c t = PPark True \<Longrightarrow> cstep c (goto t (PRegistry Expire) c)"

inductive creach :: "thread_id \<Rightarrow> 'o conc \<Rightarrow> bool" for p where
  cstart: "creach p ((conc_new p)\<lparr>wake_panics := wp\<rparr>)"
| cmore: "creach p c \<Longrightarrow> cstep c c' \<Longrightarrow> creach p c'"

subsection \<open>What the program counters say\<close>

text \<open>The box a thread works on, and whether it holds the mutex in it.\<close>

fun box_of :: "'o pc \<Rightarrow> nat option" where
  "box_of (PLock g b) = Some b"
| "box_of (PInside g b) = Some b"
| "box_of (PRecheck j b) = Some b"
| "box_of (PReadLocked b) = Some b"
| "box_of (PUnlock b k) = Some b"
| "box_of _ = None"

fun holding :: "'o pc \<Rightarrow> bool" where
  "holding (PInside g b) = True"
| "holding (PRecheck j b) = True"
| "holding (PReadLocked b) = True"
| "holding (PUnlock b k) = True"
| "holding _ = False"

text \<open>The thread has set \<open>HAS_WAITER\<close> for the registration it is making or has made.\<close>

fun enrolled :: "'o pc \<Rightarrow> bool" where
  "enrolled (PRegistry (Enter j)) = True"
| "enrolled (PInit (Enter j) n) = True"
| "enrolled (PLock (Enter j) b) = True"
| "enrolled (PInside (Enter j) b) = True"
| "enrolled (PRecheck j b) = True"
| "enrolled (PUnlock b (Parks timed)) = True"
| "enrolled (PPark timed) = True"
| "enrolled _ = False"

fun parking :: "'o pc \<Rightarrow> bool" where
  "parking (PUnlock b (Parks timed)) = True"
| "parking (PPark timed) = True"
| "parking _ = False"

text \<open>The phases of \<open>complete\<close>: before and after the completion bit, and the drain.\<close>

fun storing :: "'o pc \<Rightarrow> bool" where
  "storing (PStore v) = True"
| "storing _ = False"

fun drains :: "'o pc \<Rightarrow> bool" where
  "drains (PRegistry Drain) = True"
| "drains (PInit Drain n) = True"
| "drains (PLock Drain b) = True"
| "drains (PInside Drain b) = True"
| "drains _ = False"

fun notifying :: "'o pc \<Rightarrow> bool" where
  "notifying (PUnlock b (Notifies ws)) = True"
| "notifying (PNotify ws) = True"
| "notifying _ = False"

fun to_notify :: "'o pc \<Rightarrow> waiter list" where
  "to_notify (PUnlock b (Notifies ws)) = ws"
| "to_notify (PNotify ws) = ws"
| "to_notify _ = []"

fun publishing :: "'o pc \<Rightarrow> bool" where
  "publishing PPublish = True"
| "publishing p = (storing p \<or> drains p \<or> notifying p)"

text \<open>The outcome a thread is about to return or has returned.\<close>

fun holds_result :: "'o pc \<Rightarrow> 'o option" where
  "holds_result (PReturned (Got v)) = Some v"
| "holds_result (PUnlock b (Returns (Got v))) = Some v"
| "holds_result _ = None"

fun reading :: "'o pc \<Rightarrow> bool" where
  "reading PRead = True"
| "reading (PReadLocked b) = True"
| "reading _ = False"

text \<open>The registration for a future that a \<open>poll\<close> is about to make, and the one it has made.\<close>

fun goal_wants :: "goal \<Rightarrow> (future_id \<times> waker) option" where
  "goal_wants (Enter (Polling f w)) = Some (f, w)"
| "goal_wants _ = None"

fun wants :: "'o pc \<Rightarrow> (future_id \<times> waker) option" where
  "wants (PLoad j) = goal_wants (Enter j)"
| "wants (PSetWaiter j) = goal_wants (Enter j)"
| "wants (PRegistry g) = goal_wants g"
| "wants (PInit g n) = goal_wants g"
| "wants (PLock g b) = goal_wants g"
| "wants (PInside g b) = goal_wants g"
| "wants (PRecheck j b) = goal_wants (Enter j)"
| "wants _ = None"

fun enrolling :: "'o pc \<Rightarrow> (future_id \<times> waker) option" where
  "enrolling (PUnlock b (Repolls f w)) = Some (f, w)"
| "enrolling (PAgain f w False) = Some (f, w)"
| "enrolling _ = None"

definition cmtx :: "'o conc \<Rightarrow> mtx" where
  "cmtx c = (case regp c of None \<Rightarrow> \<lparr>queue = [], owner = None\<rparr> | Some b \<Rightarrow> the (boxes c b))"

abbreviation done_bit :: "'o conc \<Rightarrow> bool" where
  "done_bit c \<equiv> bit (cbits c) 0"

subsection \<open>The invariant\<close>

definition inv_word :: "'o conc \<Rightarrow> bool" where
  "inv_word c \<longleftrightarrow> (done_bit c \<longrightarrow> ocell c \<noteq> None) \<and> (bit (cbits c) 2 \<longleftrightarrow> done_bit c)"

definition inv_boxes :: "'o conc \<Rightarrow> bool" where
  "inv_boxes c \<longleftrightarrow>
     (\<forall>b. regp c = Some b \<longrightarrow> boxes c b \<noteq> None) \<and>
     (\<forall>b. boxes c b \<noteq> None \<longrightarrow> b < next_box c \<and> (regp c = Some b \<or> (\<exists>t g. pcs c t = PInit g b))) \<and>
     (\<forall>t g n. pcs c t = PInit g n \<longrightarrow> boxes c n = Some \<lparr>queue = [], owner = None\<rparr> \<and> regp c \<noteq> Some n) \<and>
     (\<forall>t u g h n. pcs c t = PInit g n \<longrightarrow> pcs c u = PInit h n \<longrightarrow> t = u) \<and>
     (\<forall>t b. box_of (pcs c t) = Some b \<longrightarrow> regp c = Some b)"

definition inv_lock :: "'o conc \<Rightarrow> bool" where
  "inv_lock c \<longleftrightarrow> (\<forall>t. owner (cmtx c) = Some t \<longleftrightarrow> holding (pcs c t))"

definition inv_publisher :: "'o conc \<Rightarrow> bool" where
  "inv_publisher c \<longleftrightarrow>
     (\<forall>t u. publishing (pcs c t) \<longrightarrow> publishing (pcs c u) \<longrightarrow> t = u) \<and>
     (publisher c \<noteq> None \<longrightarrow> (\<forall>t. \<not> publishing (pcs c t)) \<and> ocell c = None) \<and>
     (\<forall>t. storing (pcs c t) \<longrightarrow> ocell c = None) \<and>
     (\<forall>t. pcs c t = PPublish \<longrightarrow> ocell c \<noteq> None \<and> \<not> done_bit c) \<and>
     (\<forall>t. drains (pcs c t) \<or> notifying (pcs c t) \<longrightarrow> done_bit c)"

definition inv_read :: "'o conc \<Rightarrow> bool" where
  "inv_read c \<longleftrightarrow> (\<forall>t. reading (pcs c t) \<longrightarrow> done_bit c) \<and>
     (\<forall>t v. holds_result (pcs c t) = Some v \<longrightarrow> done_bit c \<and> ocell c = Some v)"

definition inv_waiter :: "'o conc \<Rightarrow> bool" where
  "inv_waiter c \<longleftrightarrow> (\<forall>t. enrolled (pcs c t) \<longrightarrow> bit (cbits c) (Suc 0)) \<and>
     (queue (cmtx c) \<noteq> [] \<longrightarrow> bit (cbits c) (Suc 0))"

definition draining :: "'o conc \<Rightarrow> bool" where
  "draining c \<longleftrightarrow> (\<exists>u. drains (pcs c u))"

text \<open>The waiter will still be notified: it is in the queue of a drain that has begun or will come.\<close>

definition awaits :: "'o conc \<Rightarrow> (waiter \<Rightarrow> bool) \<Rightarrow> bool" where
  "awaits c P \<longleftrightarrow> (\<exists>u. \<exists>x\<in>set (to_notify (pcs c u)). P x) \<or>
     ((\<exists>x\<in>set (queue (cmtx c)). P x) \<and> (done_bit c \<longrightarrow> draining c))"

definition inv_wake :: "'o conc \<Rightarrow> bool" where
  "inv_wake c \<longleftrightarrow>
     (\<forall>t timed b. pcs c t = PRecheck (Await timed) b \<longrightarrow> Thread t \<in> set (queue (cmtx c))) \<and>
     (\<forall>t. parking (pcs c t) \<longrightarrow> tokens c t \<or> awaits c (\<lambda>x. x = Thread t))"

definition inv_granted :: "'o conc \<Rightarrow> bool" where
  "inv_granted c \<longleftrightarrow> (\<forall>k\<in>set (granted c). k \<in> set (fired c) \<or> awaits c (\<lambda>x. \<exists>n. x = Waker k True n)) \<and>
     (\<forall>f k. (f, k) \<in> set (held c) \<longrightarrow> k \<in> set (fired c) \<or> awaits c (\<lambda>x. event_of x = Woken k))"

text \<open>
  The books of the registrations: an entry of the registry counts the futures that hold it, and a
  future's own list of wakers is behind by at most the registration its \<open>poll\<close> is in.
\<close>

definition holders_of :: "waker \<Rightarrow> 'o conc \<Rightarrow> nat" where
  "holders_of w c = length (filter (\<lambda>(f, k). k = w) (held c))"

definition inv_queue :: "'o conc \<Rightarrow> bool" where
  "inv_queue c \<longleftrightarrow> registry_ok (queue (cmtx c)) \<and>
     (\<forall>w. direct w (queue (cmtx c)) \<longrightarrow> w \<in> set (granted c)) \<and>
     (\<forall>w. \<not> done_bit c \<or> w \<in> set (wakers_of (queue (cmtx c))) \<longrightarrow> owners w (queue (cmtx c)) = holders_of w c)"

definition inv_futures :: "'o conc \<Rightarrow> bool" where
  "inv_futures c \<longleftrightarrow> distinct (held c) \<and>
     (\<forall>t u f. future_of (pcs c t) = Some f \<longrightarrow> future_of (pcs c u) = Some f \<longrightarrow> t = u) \<and>
     (\<forall>f w. w \<in> set (fwakers c f) \<longrightarrow> (f, w) \<in> set (held c)) \<and>
     (\<forall>f w. (f, w) \<in> set (held c) \<longrightarrow> done_bit c \<or> w \<in> set (fwakers c f) \<or> (\<exists>t. enrolling (pcs c t) = Some (f, w))) \<and>
     (\<forall>t f w. wants (pcs c t) = Some (f, w) \<longrightarrow> w \<notin> set (fwakers c f)) \<and>
     (\<forall>t f w. enrolling (pcs c t) = Some (f, w) \<longrightarrow> done_bit c \<or> (f, w) \<in> set (held c))"

definition cinv :: "'o conc \<Rightarrow> bool" where
  "cinv c \<longleftrightarrow> inv_word c \<and> inv_boxes c \<and> inv_lock c \<and> inv_publisher c \<and> inv_read c \<and> inv_waiter c
     \<and> inv_wake c \<and> inv_granted c \<and> inv_queue c \<and> inv_futures c"

lemma cinvD:
  assumes "cinv c"
  shows "inv_word c" "inv_boxes c" "inv_lock c" "inv_publisher c" "inv_read c" "inv_waiter c"
    "inv_wake c" "inv_granted c" "inv_queue c" "inv_futures c"
  using assms by (simp_all add: cinv_def)

lemma conc_new_inv: "cinv ((conc_new p)\<lparr>wake_panics := wp\<rparr>)"
  by (simp add: cinv_def inv_word_def inv_boxes_def inv_lock_def inv_publisher_def inv_read_def
      inv_waiter_def inv_wake_def inv_granted_def inv_queue_def inv_futures_def holders_of_def
      conc_new_def cmtx_def)

subsection \<open>Every access keeps the invariant\<close>

lemma goto_simps [simp]:
  "cbits (goto t p c) = cbits c" "ocell (goto t p c) = ocell c" "regp (goto t p c) = regp c"
  "boxes (goto t p c) = boxes c" "next_box (goto t p c) = next_box c" "tokens (goto t p c) = tokens c"
  "publisher (goto t p c) = publisher c" "granted (goto t p c) = granted c" "fired (goto t p c) = fired c"
  "fwakers (goto t p c) = fwakers c" "alive (goto t p c) = alive c" "held (goto t p c) = held c"
  "pcs (goto t p c) = (pcs c)(t := p)" "cmtx (goto t p c) = cmtx c"
  "wake_panics (goto t p c) = wake_panics c" "panics (goto t p c) = panics c"
  by (simp_all add: goto_def cmtx_def split: option.split)

lemma set_box_simps [simp]:
  "cbits (set_box b m c) = cbits c" "ocell (set_box b m c) = ocell c" "regp (set_box b m c) = regp c"
  "boxes (set_box b m c) = (boxes c)(b \<mapsto> m)" "next_box (set_box b m c) = next_box c"
  "tokens (set_box b m c) = tokens c" "publisher (set_box b m c) = publisher c"
  "granted (set_box b m c) = granted c" "fired (set_box b m c) = fired c" "pcs (set_box b m c) = pcs c"
  "fwakers (set_box b m c) = fwakers c" "alive (set_box b m c) = alive c" "held (set_box b m c) = held c"
  "wake_panics (set_box b m c) = wake_panics c" "panics (set_box b m c) = panics c"
  by (simp_all add: set_box_def)

lemma disown_simps [simp]:
  "cbits (disown f c) = cbits c" "ocell (disown f c) = ocell c" "regp (disown f c) = regp c"
  "boxes (disown f c) = boxes c" "next_box (disown f c) = next_box c" "tokens (disown f c) = tokens c"
  "publisher (disown f c) = publisher c" "granted (disown f c) = granted c" "fired (disown f c) = fired c"
  "pcs (disown f c) = pcs c" "cmtx (disown f c) = cmtx c" "alive (disown f c) = alive c"
  "fwakers (disown f c) = (fwakers c)(f := [])"
  "wake_panics (disown f c) = wake_panics c" "panics (disown f c) = panics c"
  "(g, w) \<in> set (held (disown f c)) \<longleftrightarrow> (g, w) \<in> set (held c) \<and> \<not> (g = f \<and> w \<in> set (fwakers c f))"
  by (auto simp: disown_def cmtx_def split: option.split)

lemma cmtx_set_box: "regp c = Some b \<Longrightarrow> cmtx (set_box b m c) = m"
  by (simp add: cmtx_def)

text \<open>The effect of one access in the words of the invariant.\<close>

lemma boxed:
  assumes "inv_boxes c" and "box_of (pcs c t) = Some b"
  shows "regp c = Some b" and "boxes c b = Some (cmtx c)"
proof -
  show r: "regp c = Some b" using assms by (auto simp: inv_boxes_def)
  then have "boxes c b \<noteq> None" using assms(1) by (auto simp: inv_boxes_def)
  with r show "boxes c b = Some (cmtx c)" by (auto simp: cmtx_def)
qed

lemma cmtx_simps [simp]:
  "cmtx (c\<lparr>cbits := x\<rparr>) = cmtx c" "cmtx (c\<lparr>ocell := y\<rparr>) = cmtx c" "cmtx (c\<lparr>tokens := z\<rparr>) = cmtx c"
  "cmtx (c\<lparr>granted := g\<rparr>) = cmtx c" "cmtx (c\<lparr>fired := g\<rparr>) = cmtx c" "cmtx (c\<lparr>next_box := n\<rparr>) = cmtx c"
  "cmtx (c\<lparr>publisher := p\<rparr>) = cmtx c" "cmtx (c\<lparr>fwakers := h\<rparr>) = cmtx c" "cmtx (c\<lparr>alive := a\<rparr>) = cmtx c"
  "cmtx (c\<lparr>held := l\<rparr>) = cmtx c" "cmtx (c\<lparr>panics := ps\<rparr>) = cmtx c"
  by (simp_all add: cmtx_def split: option.split)

text \<open>
  The accesses of one thread, each with its new state; the mutex is the published one.
\<close>

lemma advance_cases:
  assumes inv: "inv_boxes c" and adv: "advance t c = Some (Inr c')"
  obtains
    (get) "pcs c t = PGet" "c' = goto t (if done_bit c then PRead else PReturned Missing) c"
  | (load) j where "pcs c t = PLoad j" "c' = goto t (if done_bit c
        then (case j of Await _ \<Rightarrow> PRead | Register _ \<Rightarrow> PReturned (Registered True) | Polling f w \<Rightarrow> PAgain f w False)
        else PSetWaiter j) c"
  | (read) v where "pcs c t = PRead" "ocell c = Some v" "c' = goto t (PReturned (Got v)) c"
  | (set_waiter) j where "pcs c t = PSetWaiter j"
      "c' = goto t (PRegistry (Enter j)) (c\<lparr>cbits := cbits c OR HAS_WAITER\<rparr>)"
  | (found) g b where "pcs c t = PRegistry g" "regp c = Some b" "c' = goto t (PLock g b) c"
  | (make) g where "pcs c t = PRegistry g" "regp c = None" "c' = goto t (PInit g (next_box c))
         (set_box (next_box c) \<lparr>queue = [], owner = None\<rparr> c\<lparr>next_box := next_box c + 1\<rparr>)"
  | (won) g n where "pcs c t = PInit g n" "regp c = None" "c' = goto t (PLock g n) (c\<lparr>regp := Some n\<rparr>)"
  | (lost) g n b where "pcs c t = PInit g n" "regp c = Some b"
      "c' = goto t (PLock g b) (c\<lparr>boxes := (boxes c)(n := None)\<rparr>)"
  | (lock) g b where "pcs c t = PLock g b" "regp c = Some b" "owner (cmtx c) = None"
      "c' = goto t (PInside g b) (set_box b ((cmtx c)\<lparr>owner := Some t\<rparr>) c)"
  | (push) timed b where "pcs c t = PInside (Enter (Await timed)) b" "regp c = Some b"
      "c' = goto t (PRecheck (Await timed) b) (set_box b ((cmtx c)\<lparr>queue := push_thread t (queue (cmtx c))\<rparr>) c)"
  | (enter) j b where "pcs c t = PInside (Enter j) b" "\<forall>timed. j \<noteq> Await timed" "regp c = Some b"
      "c' = goto t (PRecheck j b) c"
  | (expire) b where "pcs c t = PInside Expire b" "regp c = Some b"
      "c' = goto t (PUnlock b (Returns Expired)) (set_box b ((cmtx c)\<lparr>queue := remove_thread t (queue (cmtx c))\<rparr>) c)"
  | (drain) b where "pcs c t = PInside Drain b" "regp c = Some b"
      "c' = goto t (PUnlock b (Notifies (queue (cmtx c)))) (set_box b ((cmtx c)\<lparr>queue := []\<rparr>) c\<lparr>panics := []\<rparr>)"
  | (cancel) f b ws where "pcs c t = PInside (Cancel f) b" "regp c = Some b"
      "cancel (fwakers c f) (queue (cmtx c)) = Inr ws"
      "c' = goto t (PUnlock b (Returns Cancelled)) (set_box b ((cmtx c)\<lparr>queue := ws\<rparr>) (disown f c))"
  | (leave) timed b where "pcs c t = PRecheck (Await timed) b" "regp c = Some b" "done_bit c"
      "c' = goto t (PReadLocked b) (set_box b ((cmtx c)\<lparr>queue := remove_thread t (queue (cmtx c))\<rparr>) c)"
  | (stay) timed b where "pcs c t = PRecheck (Await timed) b" "regp c = Some b" "\<not> done_bit c"
      "c' = goto t (PUnlock b (Parks timed)) c"
  | (too_late) k b where "pcs c t = PRecheck (Register k) b" "regp c = Some b" "done_bit c"
      "c' = goto t (PUnlock b (Returns (Registered True))) c"
  | (register) k b where "pcs c t = PRecheck (Register k) b" "regp c = Some b" "\<not> done_bit c"
      "c' = goto t (PUnlock b (Returns (Registered False)))
         (set_box b ((cmtx c)\<lparr>queue := direct_registered k (queue (cmtx c))\<rparr>) c\<lparr>granted := k # granted c\<rparr>)"
  | (poll_late) f k b where "pcs c t = PRecheck (Polling f k) b" "regp c = Some b" "done_bit c"
      "c' = goto t (PUnlock b (Repolls f k)) c"
  | (poll_full) f k b p where "pcs c t = PRecheck (Polling f k) b" "regp c = Some b" "\<not> done_bit c"
      "future_registered k (queue (cmtx c)) = Panic p" "c' = goto t (PUnlock b (Returns Overflowed)) c"
  | (poll_register) f k b ws where "pcs c t = PRecheck (Polling f k) b" "regp c = Some b" "\<not> done_bit c"
      "future_registered k (queue (cmtx c)) = Ret ws"
      "c' = goto t (PUnlock b (Repolls f k)) (set_box b ((cmtx c)\<lparr>queue := ws\<rparr>) c\<lparr>held := (f, k) # held c\<rparr>)"
  | (read_locked) b v where "pcs c t = PReadLocked b" "ocell c = Some v"
      "c' = goto t (PUnlock b (Returns (Got v))) c"
  | (unlock) b k where "pcs c t = PUnlock b k" "regp c = Some b"
      "c' = goto t (resume k) (set_box b ((cmtx c)\<lparr>owner := None\<rparr>) c)"
  | (park) timed where "pcs c t = PPark timed" "tokens c t"
      "c' = goto t (PLoad (Await timed)) (c\<lparr>tokens := (tokens c)(t := False)\<rparr>)"
  | (poll) f k where "pcs c t = PPoll f k" "c' = goto t (if done_bit c then PRead
        else if k \<in> set (fwakers c f) then PAgain f k True else PLoad (Polling f k)) c"
  | (again_done) f k known where "pcs c t = PAgain f k known" "done_bit c" "c' = goto t PRead c"
  | (again_known) f k where "pcs c t = PAgain f k True" "\<not> done_bit c" "c' = goto t (PReturned Unresolved) c"
  | (again_new) f k where "pcs c t = PAgain f k False" "\<not> done_bit c"
      "c' = goto t (PReturned Unresolved) (c\<lparr>fwakers := (fwakers c)(f := fwakers c f @ [k])\<rparr>)"
  | (store) v where "pcs c t = PStore v" "c' = goto t PPublish (c\<lparr>ocell := Some v\<rparr>)"
  | (publish) "pcs c t = PPublish" "\<not> done_bit c"
      "c' = goto t (if bit (cbits c) (Suc 0) then PRegistry Drain else PReturned Published)
          (c\<lparr>cbits := cbits c OR (COMPLETED OR OUTCOME_VALID)\<rparr>)"
  | (drained) "pcs c t = PNotify []" "c' = goto t (PReturned (published_reply (panics c))) c"
  | (notify) w ws where "pcs c t = PNotify (w # ws)" "c' = goto t (PNotify ws) (notify w c)"
proof (cases "pcs c t")
  case PGet
  with adv boxed [OF inv, of t] that(1) show ?thesis
    by (auto simp: advance_def on_box_def slot_bits Let_def split: option.splits if_splits)
next
  case (PLoad j)
  with adv boxed [OF inv, of t] that(2) show ?thesis
    by (auto simp: advance_def on_box_def slot_bits Let_def split: option.splits if_splits)
next
  case PRead
  with adv boxed [OF inv, of t] that(3) show ?thesis
    by (auto simp: advance_def on_box_def slot_bits Let_def split: option.splits if_splits)
next
  case (PSetWaiter j)
  with adv boxed [OF inv, of t] that(4) show ?thesis
    by (auto simp: advance_def on_box_def slot_bits Let_def split: option.splits if_splits)
next
  case (PRegistry g)
  with adv boxed [OF inv, of t] that(5,6) show ?thesis
    by (auto simp: advance_def on_box_def slot_bits Let_def split: option.splits if_splits)
next
  case (PInit g n)
  with adv boxed [OF inv, of t] that(7,8) show ?thesis
    by (auto simp: advance_def on_box_def slot_bits Let_def split: option.splits if_splits)
next
  case (PLock g b)
  with adv boxed [OF inv, of t] that(9) show ?thesis
    by (auto simp: advance_def on_box_def slot_bits Let_def split: option.splits if_splits)
next
  case (PReadLocked b)
  with adv boxed [OF inv, of t] that(22) show ?thesis
    by (auto simp: advance_def on_box_def slot_bits Let_def split: option.splits if_splits)
next
  case (PUnlock b k)
  with adv boxed [OF inv, of t] that(23) show ?thesis
    by (auto simp: advance_def on_box_def slot_bits Let_def split: option.splits if_splits)
next
  case (PPark timed)
  with adv boxed [OF inv, of t] that(24) show ?thesis
    by (auto simp: advance_def on_box_def slot_bits Let_def split: option.splits if_splits)
next
  case (PPoll f k)
  with adv boxed [OF inv, of t] that(25) show ?thesis
    by (auto simp: advance_def on_box_def slot_bits Let_def split: option.splits if_splits)
next
  case (PStore v)
  with adv boxed [OF inv, of t] that(29) show ?thesis
    by (auto simp: advance_def on_box_def slot_bits Let_def split: option.splits if_splits)
next
  case PPublish
  with adv boxed [OF inv, of t] that(30) show ?thesis
    by (auto simp: advance_def on_box_def slot_bits Let_def split: option.splits if_splits)
next
  case (PAgain f k known)
  show ?thesis
  proof (cases "done_bit c")
    case True
    show ?thesis by (rule that(26)) (use adv PAgain True in \<open>simp_all add: advance_def slot_bits\<close>)
  next
    case False
    with adv PAgain that(27,28) show ?thesis
      by (cases known) (simp_all add: advance_def slot_bits)
  qed
next
  case (PInside g b)
  then have b: "regp c = Some b" "boxes c b = Some (cmtx c)" using boxed [OF inv, of t] by simp_all
  then have c': "Inr c' = inside t g b (cmtx c) c" using adv PInside by (simp add: advance_def on_box_def)
  show ?thesis
  proof (cases g)
    case (Enter j)
    show ?thesis
    proof (cases j)
      case (Await timed)
      show ?thesis by (rule that(10)) (use PInside b(1) c' Enter Await in simp_all)
    next
      case (Register k)
      show ?thesis by (rule that(11)) (use PInside b(1) c' Enter Register in simp_all)
    next
      case (Polling f k)
      show ?thesis by (rule that(11)) (use PInside b(1) c' Enter Polling in simp_all)
    qed
  next
    case Expire
    show ?thesis by (rule that(12)) (use PInside b(1) c' Expire in simp_all)
  next
    case Drain
    show ?thesis by (rule that(13)) (use PInside b(1) c' Drain in simp_all)
  next
    case (Cancel f)
    with c' obtain ws where "cancel (fwakers c f) (queue (cmtx c)) = Inr ws" by (auto split: sum.splits)
    with PInside b(1) c' Cancel show ?thesis by (intro that(14)) simp_all
  qed
next
  case (PRecheck j b)
  then have b: "regp c = Some b" "boxes c b = Some (cmtx c)" using boxed [OF inv, of t] by simp_all
  then have c': "c' = recheck t j b (cmtx c) c" using adv PRecheck by (simp add: advance_def on_box_def)
  show ?thesis
  proof (cases j)
    case (Await timed)
    show ?thesis
    proof (cases "done_bit c")
      case True
      show ?thesis by (rule that(15)) (use PRecheck b(1) c' Await True in \<open>simp_all add: slot_bits\<close>)
    next
      case False
      show ?thesis by (rule that(16)) (use PRecheck b(1) c' Await False in \<open>simp_all add: slot_bits\<close>)
    qed
  next
    case (Register k)
    show ?thesis
    proof (cases "done_bit c")
      case True
      show ?thesis by (rule that(17)) (use PRecheck b(1) c' Register True in \<open>simp_all add: slot_bits\<close>)
    next
      case False
      show ?thesis by (rule that(18)) (use PRecheck b(1) c' Register False in \<open>simp_all add: slot_bits\<close>)
    qed
  next
    case (Polling f k)
    show ?thesis
    proof (cases "done_bit c")
      case True
      show ?thesis by (rule that(19)) (use PRecheck b(1) c' Polling True in \<open>simp_all add: slot_bits\<close>)
    next
      case False
      show ?thesis
      proof (cases "future_registered k (queue (cmtx c))")
        case (Panic p)
        show ?thesis by (rule that(20)) (use PRecheck b(1) c' Polling False Panic in \<open>simp_all add: slot_bits\<close>)
      next
        case (Ret ws)
        show ?thesis by (rule that(21)) (use PRecheck b(1) c' Polling False Ret in \<open>simp_all add: slot_bits\<close>)
      qed
    qed
  qed
next
  case (PNotify ws)
  show ?thesis
  proof (cases ws)
    case Nil
    show ?thesis by (rule that(31)) (use adv PNotify Nil in \<open>simp_all add: advance_def\<close>)
  next
    case (Cons w us)
    show ?thesis by (rule that(32)) (use adv PNotify Cons in \<open>auto simp: advance_def\<close>)
  qed
next
  case PIdle
  with adv show ?thesis by (simp add: advance_def)
next
  case (PReturned r)
  with adv show ?thesis by (simp add: advance_def)
qed

lemma notify_queue [simp]: "cmtx (notify x c) = cmtx c"
  by (cases x) (simp_all add: cmtx_def split: option.split)

lemma notify_simps [simp]:
  "cbits (notify x c) = cbits c" "ocell (notify x c) = ocell c" "regp (notify x c) = regp c"
  "boxes (notify x c) = boxes c" "next_box (notify x c) = next_box c" "pcs (notify x c) = pcs c"
  "publisher (notify x c) = publisher c" "granted (notify x c) = granted c"
  "fwakers (notify x c) = fwakers c" "alive (notify x c) = alive c" "held (notify x c) = held c"
  "wake_panics (notify x c) = wake_panics c"
  by (cases x; simp)+

lemma published_reply_simps [simp]:
  "holds_result (PReturned (published_reply ws)) = None" "published_reply ws \<noteq> Got v" "published_reply ws \<noteq> Overflowed"
  "published_reply ws \<noteq> Registered b" "published_reply ws \<noteq> Missing" "published_reply ws \<noteq> Expired"
  by (cases ws; simp)+

lemma resume_simps [simp]:
  "box_of (resume k) = None" "\<not> holding (resume k)" "\<not> drains (resume k)" "\<not> storing (resume k)"
  "\<not> reading (resume k)" "resume k \<noteq> PInit g n" "resume k \<noteq> PRecheck j b" "resume k \<noteq> PPublish"
  by (cases k; simp)+

text \<open>Unlocking does not change what the thread is up to.\<close>

lemma resume_result: "holds_result (resume k) = holds_result (PUnlock b k)"
proof (cases k)
  case (Returns r)
  then show ?thesis by (cases r) simp_all
qed simp_all

lemma resume_same:
  "to_notify (resume k) = to_notify (PUnlock b k)" "notifying (resume k) = notifying (PUnlock b k)"
  "parking (resume k) = parking (PUnlock b k)" "enrolled (resume k) = enrolled (PUnlock b k)"
  "future_of (resume k) = future_of (PUnlock b k)" "enrolling (resume k) = enrolling (PUnlock b k)"
  "wants (resume k) = wants (PUnlock b k)"
  by (cases k; simp)+

lemma publishing_iff: "publishing p \<longleftrightarrow> p = PPublish \<or> storing p \<or> drains p \<or> notifying p"
  by (cases p) auto

end
