(* ===== verification/Protocol_Invariant.thy ===== *)
theory Protocol_Invariant
  imports Protocol
begin

section \<open>The protocol invariant is kept\<close>

text \<open>
  One lemma per part of the invariant and access of a thread, then the calls, spurious wake-ups and
  deadlines, and the invariant of every reachable state.
\<close>

lemma inv_word_step:
  assumes "cinv c" and "advance t c = Some (Inr c')"
  shows "inv_word c'"
proof -
  note i = cinvD(1,4) [OF assms(1)]
  from cinvD(2) [OF assms(1)] assms(2) show ?thesis
    by (cases rule: advance_cases) (use i in \<open>auto simp: inv_word_def inv_publisher_def slot_bits\<close>)
qed

lemma inv_read_keep:
  assumes inv: "inv_read c" and bits: "done_bit c \<Longrightarrow> done_bit c'" and cell: "done_bit c \<Longrightarrow> ocell c' = ocell c"
    and pcs: "pcs c' = (pcs c)(t := p)"
    and "reading p \<Longrightarrow> done_bit c'" and "\<And>v. holds_result p = Some v \<Longrightarrow> done_bit c' \<and> ocell c' = Some v"
  shows "inv_read c'"
  unfolding inv_read_def
proof (intro conjI allI impI)
  show "done_bit c'" if "reading (pcs c' u)" for u
    using that assms by (cases "u = t") (auto simp: inv_read_def)
  fix u v assume h: "holds_result (pcs c' u) = Some v"
  have "done_bit c' \<and> ocell c' = Some v"
  proof (cases "u = t")
    case True
    with h assms(6) pcs show ?thesis by simp
  next
    case False
    with h pcs have "holds_result (pcs c u) = Some v" by simp
    then have "done_bit c \<and> ocell c = Some v" using inv unfolding inv_read_def by blast
    with bits cell show ?thesis by simp
  qed
  then show "done_bit c'" "ocell c' = Some v" by simp_all
qed

lemma inv_readD:
  assumes "inv_read c"
  shows "reading (pcs c t) \<Longrightarrow> done_bit c"
    and "holds_result (pcs c t) = Some v \<Longrightarrow> done_bit c \<and> ocell c = Some v"
  using assms unfolding inv_read_def by blast+

lemma inv_read_step:
  assumes "cinv c" and "advance t c = Some (Inr c')"
  shows "inv_read c'"
proof -
  note i = cinvD(1,4,5) [OF assms(1)]
  note keep = inv_read_keep [OF i(3), of c' t "pcs c' t"]
  from cinvD(2) [OF assms(1)] assms(2) show ?thesis
  proof (cases rule: advance_cases)
    case (load j)
    then show ?thesis by (intro keep) (cases j; simp split: if_splits)+
  next
    case (read v)
    with inv_readD(1) [OF i(3), of t] show ?thesis by (intro keep) auto
  next
    case (read_locked b v)
    with inv_readD(1) [OF i(3), of t] show ?thesis by (intro keep) auto
  next
    case (unlock b k)
    with inv_readD(2) [OF i(3), of t] show ?thesis
      by (intro keep) (auto simp: resume_result [of k b])
  next
    case (store v)
    then have "\<not> done_bit c" using i(1,2) unfolding inv_word_def inv_publisher_def by (metis storing.simps(1))
    with store show ?thesis by (intro keep) auto
  qed (rule keep; simp add: slot_bits split: if_splits)+
qed

subsection \<open>The registry boxes\<close>

lemma inv_boxesD:
  assumes "inv_boxes c"
  shows "regp c = Some b \<Longrightarrow> boxes c b \<noteq> None"
    and "boxes c b \<noteq> None \<Longrightarrow> b < next_box c"
    and "boxes c b \<noteq> None \<Longrightarrow> regp c = Some b \<or> (\<exists>t g. pcs c t = PInit g b)"
    and "pcs c t = PInit g n \<Longrightarrow> boxes c n = Some \<lparr>queue = [], owner = None\<rparr>"
    and "pcs c t = PInit g n \<Longrightarrow> regp c \<noteq> Some n"
    and "pcs c t = PInit g n \<Longrightarrow> pcs c u = PInit h n \<Longrightarrow> t = u"
    and "box_of (pcs c t) = Some b \<Longrightarrow> regp c = Some b"
  using assms unfolding inv_boxes_def by blast+

lemma inv_boxesI:
  assumes "\<And>b. regp c = Some b \<Longrightarrow> boxes c b \<noteq> None"
    and "\<And>b. boxes c b \<noteq> None \<Longrightarrow> b < next_box c"
    and "\<And>b. boxes c b \<noteq> None \<Longrightarrow> regp c = Some b \<or> (\<exists>t g. pcs c t = PInit g b)"
    and "\<And>t g n. pcs c t = PInit g n \<Longrightarrow> boxes c n = Some \<lparr>queue = [], owner = None\<rparr>"
    and "\<And>t g n. pcs c t = PInit g n \<Longrightarrow> regp c \<noteq> Some n"
    and "\<And>t u g h n. pcs c t = PInit g n \<Longrightarrow> pcs c u = PInit h n \<Longrightarrow> t = u"
    and "\<And>t b. box_of (pcs c t) = Some b \<Longrightarrow> regp c = Some b"
  shows "inv_boxes c"
  using assms unfolding inv_boxes_def by blast

lemma inv_boxes_keep:
  assumes inv: "inv_boxes c" and "regp c' = regp c" and "next_box c' = next_box c" and pcs: "pcs c' = (pcs c)(t := p)"
    and here: "\<And>g n. pcs c t \<noteq> PInit g n" "\<And>g n. p \<noteq> PInit g n"
    and box: "\<And>b. box_of p = Some b \<Longrightarrow> regp c = Some b"
    and dom: "\<And>b. boxes c' b = None \<longleftrightarrow> boxes c b = None" and same: "\<And>b. regp c \<noteq> Some b \<Longrightarrow> boxes c' b = boxes c b"
  shows "inv_boxes c'"
proof -
  have init: "pcs c' u = PInit g n \<longleftrightarrow> pcs c u = PInit g n" for u g n
    using pcs here by (cases "u = t") simp_all
  note old = inv_boxesD [OF inv]
  show ?thesis
  proof (rule inv_boxesI)
    show "boxes c' n = Some \<lparr>queue = [], owner = None\<rparr>" if "pcs c' u = PInit g n" for u g n
      using that old(4,5) same unfolding init by metis
    show "regp c' = Some b" if "box_of (pcs c' u) = Some b" for u b
      using that old(7) box pcs assms(2) by (cases "u = t") auto
  qed (use old(1-3,5,6) in \<open>unfold init assms(2,3) dom; blast\<close>)+
qed

lemma inv_boxes_step:
  assumes "cinv c" and "advance t c = Some (Inr c')"
  shows "inv_boxes c'"
proof -
  note i = cinvD(2) [OF assms(1)]
  note old = inv_boxesD [OF i]
  note keep = inv_boxes_keep [OF i, of c' t "pcs c' t"]
  from i assms(2) show ?thesis
  proof (cases rule: advance_cases)
    case (load j)
    then show ?thesis by (intro keep) (cases j; simp split: if_splits)+
  next
    case (make g)
    let ?n = "next_box c"
    have fresh: "boxes c ?n = None" using old(2) [of ?n] by (metis less_irrefl)
    have other: "pcs c u \<noteq> PInit h ?n" for u h using old(4) fresh by (metis option.distinct(1))
    show ?thesis
    proof (rule inv_boxesI)
      fix b assume b: "boxes c' b \<noteq> None"
      show "b < next_box c'" using b old(2) [of b] make(3) by (auto simp: less_Suc_eq split: if_splits)
      show "regp c' = Some b \<or> (\<exists>u h. pcs c' u = PInit h b)"
      proof (cases "b = ?n")
        case True
        with make(3) show ?thesis by auto
      next
        case False
        with b make(3) have "boxes c b \<noteq> None" by simp
        then obtain u h where "pcs c u = PInit h b" using old(3) [of b] make(2) by auto
        moreover from this have "u \<noteq> t" using make(1) by auto
        ultimately show ?thesis using make(3) by auto
      qed
    next
      fix u h n assume u: "pcs c' u = PInit h n"
      show "boxes c' n = Some \<lparr>queue = [], owner = None\<rparr>"
        using u old(4) [of u h n] other make(3) by (auto split: if_splits)
      show "regp c' \<noteq> Some n" using make by simp
      show "u = v" if "pcs c' v = PInit h' n" for v h'
        using u that old(6) [of u h n v h'] other make(3) by (auto split: if_splits)
    next
      show "regp c' = Some b" if "box_of (pcs c' u) = Some b" for u b
        using that old(7) [of u b] make by (auto split: if_splits)
    qed (use make in simp)
  next
    case (won g n)
    show ?thesis
    proof (rule inv_boxesI)
      show "boxes c' b \<noteq> None" if "regp c' = Some b" for b
        using that won old(4) [of t g n] by simp
      show "b < next_box c'" if "boxes c' b \<noteq> None" for b using that won old(2) [of b] by simp
      show "regp c' = Some b \<or> (\<exists>u h. pcs c' u = PInit h b)" if "boxes c' b \<noteq> None" for b
      proof (cases "b = n")
        case True
        with won show ?thesis by simp
      next
        case False
        with that won old(3) [of b] obtain u h where "pcs c u = PInit h b" by auto
        moreover from this False have "u \<noteq> t" using won(1) by auto
        ultimately show ?thesis using won(3) by auto
      qed
    next
      fix u h m assume u: "pcs c' u = PInit h m"
      then have m: "pcs c u = PInit h m" "u \<noteq> t" using won(3) by (auto split: if_splits)
      show "boxes c' m = Some \<lparr>queue = [], owner = None\<rparr>" using m old(4) won(3) by simp
      show "regp c' \<noteq> Some m" using m old(6) [of t g n u h] won by auto
      show "u = v" if "pcs c' v = PInit h' m" for v h'
        using m that old(6) [of u h m v h'] won(3) by (auto split: if_splits)
    next
      show "regp c' = Some b" if "box_of (pcs c' u) = Some b" for u b
        using that old(7) [of u b] won by (auto split: if_splits)
    qed
  next
    case (lost g n b)
    show ?thesis
    proof (rule inv_boxesI)
      show "boxes c' d \<noteq> None" if "regp c' = Some d" for d
        using that lost old(1) [of d] old(5) [of t g n] by auto
      show "d < next_box c'" if "boxes c' d \<noteq> None" for d
        using that lost(3) old(2) [of d] by (auto split: if_splits)
      show "regp c' = Some d \<or> (\<exists>u h. pcs c' u = PInit h d)" if "boxes c' d \<noteq> None" for d
      proof -
        have d: "d \<noteq> n" "boxes c d \<noteq> None" using that lost(3) by (auto split: if_splits)
        then consider "regp c = Some d" | u h where "pcs c u = PInit h d" using old(3) by blast
        then show ?thesis
        proof cases
          case 1
          with lost(3) show ?thesis by simp
        next
          case 2
          with d(1) lost(1) have "u \<noteq> t" by auto
          with 2 lost(3) show ?thesis by auto
        qed
      qed
    next
      fix u h m assume u: "pcs c' u = PInit h m"
      then have m: "pcs c u = PInit h m" "u \<noteq> t" using lost(3) by (auto split: if_splits)
      then have "m \<noteq> n" using old(6) lost(1) by metis
      then show "boxes c' m = Some \<lparr>queue = [], owner = None\<rparr>" using m old(4) lost(3) by simp
      show "regp c' \<noteq> Some m" using m old(5) lost by simp
      show "u = v" if "pcs c' v = PInit h' m" for v h'
        using m that old(6) [of u h m v h'] lost(3) by (auto split: if_splits)
    next
      show "regp c' = Some d" if "box_of (pcs c' u) = Some d" for u d
        using that old(7) [of u d] lost by (auto split: if_splits)
    qed
  next
    case (read_locked b v)
    with old(7) [of t] show ?thesis by (intro keep) auto
  qed (rule keep; use old(1) in \<open>auto split: if_splits\<close>)+
qed

subsection \<open>The mutex\<close>

lemma inv_lock_keep:
  assumes "inv_lock c" and "owner (cmtx c') = owner (cmtx c)" and "pcs c' = (pcs c)(t := p)"
    and "holding p = holding (pcs c t)"
  shows "inv_lock c'"
  using assms by (auto simp: inv_lock_def)

lemma inv_lockD: "inv_lock c \<Longrightarrow> owner (cmtx c) = Some t \<longleftrightarrow> holding (pcs c t)"
  by (simp add: inv_lock_def)

lemma inv_lock_step:
  assumes "cinv c" and "advance t c = Some (Inr c')"
  shows "inv_lock c'"
proof -
  note i = cinvD(2,3) [OF assms(1)]
  note keep = inv_lock_keep [OF i(2), of c' t "pcs c' t"]
  from i(1) assms(2) show ?thesis
  proof (cases rule: advance_cases)
    case (load j)
    then show ?thesis by (intro keep) (cases j; simp split: if_splits)+
  next
    case (won g n)
    then have "boxes c n = Some \<lparr>queue = [], owner = None\<rparr>" using inv_boxesD(4) [OF i(1)] by metis
    with won show ?thesis by (intro keep) (simp_all add: cmtx_def)
  next
    case (lost g n b)
    then have "n \<noteq> b" using inv_boxesD(5) [OF i(1)] by metis
    with lost show ?thesis by (intro keep) (simp_all add: cmtx_def)
  next
    case (make g)
    then show ?thesis by (intro keep) (simp_all add: cmtx_def)
  next
    case (lock g b)
    then have "\<not> holding (pcs c u)" for u using inv_lockD [OF i(2), of u] by simp
    with lock show ?thesis by (auto simp: inv_lock_def cmtx_set_box)
  next
    case (unlock b k)
    then have "owner (cmtx c) = Some t" using inv_lockD [OF i(2), of t] by simp
    then have "\<not> holding (pcs c u)" if "u \<noteq> t" for u using inv_lockD [OF i(2), of u] that by simp
    with unlock show ?thesis by (auto simp: inv_lock_def cmtx_set_box)
  qed (rule keep; simp add: cmtx_set_box split: if_splits)+
qed

subsection \<open>The publication authority\<close>

lemma inv_publisherD:
  assumes "inv_publisher c"
  shows "publishing (pcs c t) \<Longrightarrow> publishing (pcs c u) \<Longrightarrow> t = u"
    and "publishing (pcs c t) \<Longrightarrow> publisher c = None"
    and "publisher c \<noteq> None \<Longrightarrow> ocell c = None"
    and "storing (pcs c t) \<Longrightarrow> ocell c = None"
    and "pcs c t = PPublish \<Longrightarrow> ocell c \<noteq> None \<and> \<not> done_bit c"
    and "drains (pcs c t) \<Longrightarrow> done_bit c" and "notifying (pcs c t) \<Longrightarrow> done_bit c"
  using assms unfolding inv_publisher_def by blast+

text \<open>Steps of threads that do not publish, and steps of the publisher within a phase.\<close>

lemma inv_publisher_keep:
  assumes inv: "inv_publisher c" and pcs: "pcs c' = (pcs c)(t := p)"
    and same: "publisher c' = publisher c" "ocell c' = ocell c" "done_bit c' = done_bit c"
    and phase: "publishing p \<Longrightarrow> publishing (pcs c t)" "\<not> storing p" "p \<noteq> PPublish"
      "drains p \<Longrightarrow> done_bit c" "notifying p \<Longrightarrow> done_bit c"
  shows "inv_publisher c'"
proof -
  note old = inv_publisherD [OF inv]
  have older: "publishing (pcs c' u) \<Longrightarrow> publishing (pcs c u)" for u
    using pcs phase(1) by (cases "u = t") auto
  show ?thesis
    unfolding inv_publisher_def same
  proof (intro conjI allI impI)
    show "u = v" if "publishing (pcs c' u)" "publishing (pcs c' v)" for u v
      by (rule old(1) [OF older [OF that(1)] older [OF that(2)]])
    show "\<not> publishing (pcs c' u)" if "publisher c \<noteq> None" for u
      using that older [of u] old(2) [of u] by auto
    show "ocell c = None" if "publisher c \<noteq> None" using that old(3) by blast
    show "ocell c = None" if "storing (pcs c' u)" for u
      using that pcs phase(2) old(4) [of u] by (cases "u = t") auto
    show "ocell c \<noteq> None" "\<not> done_bit c" if "pcs c' u = PPublish" for u
      using that pcs phase(3) old(5) [of u] by (cases "u = t"; auto)+
    show "done_bit c" if "drains (pcs c' u) \<or> notifying (pcs c' u)" for u
      using that pcs phase(4,5) old(6,7) [of u] by (cases "u = t") auto
  qed
qed

lemma inv_publisher_step:
  assumes "cinv c" and "advance t c = Some (Inr c')"
  shows "inv_publisher c'"
proof -
  note i = cinvD(1,2,4) [OF assms(1)]
  note old = inv_publisherD [OF i(3)]
  note keep = inv_publisher_keep [OF i(3), of c' t "pcs c' t"]
  from i(2) assms(2) show ?thesis
  proof (cases rule: advance_cases)
    case (load j)
    then show ?thesis by (intro keep) (cases j; simp split: if_splits)+
  next
    case (store v)
    have t: "publishing (pcs c t)" "storing (pcs c t)" using store(1) by simp_all
    have other: "\<not> publishing (pcs c u)" if "u \<noteq> t" for u using that t(1) old(1) by blast
    have parts: "\<not> storing (pcs c u)" "pcs c u \<noteq> PPublish" "\<not> drains (pcs c u)" "\<not> notifying (pcs c u)" if "u \<noteq> t" for u
      using other [OF that] by (simp_all add: publishing_iff)
    have "\<not> done_bit c" using i(1) old(4) [OF t(2)] by (auto simp: inv_word_def)
    then show ?thesis
      using store(2) other parts old(2) [OF t(1)] by (auto simp: inv_publisher_def)
  next
    case (publish)
    have t: "publishing (pcs c t)" using publish(1) by simp
    have other: "\<not> publishing (pcs c u)" if "u \<noteq> t" for u using that t old(1) by blast
    have parts: "\<not> storing (pcs c u)" "pcs c u \<noteq> PPublish" "\<not> drains (pcs c u)" "\<not> notifying (pcs c u)" if "u \<noteq> t" for u
      using other [OF that] by (simp_all add: publishing_iff)
    show ?thesis
      using publish(3) other parts old(2) [OF t] by (auto simp: inv_publisher_def slot_bits)
  next
    case (unlock b k)
    with old(7) [of t] show ?thesis
      by (intro keep) (auto simp: publishing_iff resume_same [of k b])
  next
    case (found g b)
    with old(6) [of t] show ?thesis by (intro keep) (cases g; simp)+
  next
    case (make g)
    with old(6) [of t] show ?thesis by (intro keep) (cases g; simp)+
  next
    case (won g n)
    with old(6) [of t] show ?thesis by (intro keep) (cases g; simp)+
  next
    case (lost g n b)
    with old(6) [of t] show ?thesis by (intro keep) (cases g; simp)+
  next
    case (lock g b)
    with old(6) [of t] show ?thesis by (intro keep) (cases g; simp)+
  next
    case (drain b)
    with old(6) [of t] show ?thesis by (intro keep) simp_all
  next
    case (notify w ws)
    with old(7) [of t] show ?thesis by (intro keep) simp_all
  qed (rule keep; simp add: slot_bits split: if_splits)+
qed

subsection \<open>The waiter bit\<close>

lemma inv_waiterD:
  assumes "inv_waiter c"
  shows "enrolled (pcs c t) \<Longrightarrow> bit (cbits c) (Suc 0)" and "queue (cmtx c) \<noteq> [] \<Longrightarrow> bit (cbits c) (Suc 0)"
  using assms unfolding inv_waiter_def by blast+

lemma inv_waiter_keep:
  assumes inv: "inv_waiter c" and pcs: "pcs c' = (pcs c)(t := p)"
    and bits: "bit (cbits c) (Suc 0) \<Longrightarrow> bit (cbits c') (Suc 0)"
    and here: "enrolled p \<Longrightarrow> bit (cbits c') (Suc 0)"
    and queue: "queue (cmtx c') \<noteq> [] \<Longrightarrow> bit (cbits c') (Suc 0)"
  shows "inv_waiter c'"
  unfolding inv_waiter_def
proof (intro conjI allI impI)
  show "bit (cbits c') (Suc 0)" if "enrolled (pcs c' u)" for u
    using that pcs here bits inv_waiterD(1) [OF inv, of u] by (cases "u = t") auto
qed (use queue in blast)

lemma inv_waiter_step:
  assumes "cinv c" and "advance t c = Some (Inr c')"
  shows "inv_waiter c'"
proof -
  note i = cinvD(2,6) [OF assms(1)]
  note old = inv_waiterD(1) [OF i(2), of t] inv_waiterD(2) [OF i(2)]
  note keep = inv_waiter_keep [OF i(2), of c' t "pcs c' t"]
  from i(1) assms(2) show ?thesis
  proof (cases rule: advance_cases)
    case (load j)
    with old show ?thesis by (intro keep) (cases j; simp split: if_splits)+
  next
    case (unlock b k)
    with old show ?thesis by (intro keep) (auto simp: resume_same [of k b] cmtx_set_box)
  next
    case (found g b)
    with old show ?thesis by (intro keep) (cases g; simp)+
  next
    case (make g)
    then have "cmtx c' = cmtx c" by (simp add: cmtx_def)
    with make old show ?thesis by (intro keep) (cases g; simp)+
  next
    case (won g n)
    then have "boxes c n = Some \<lparr>queue = [], owner = None\<rparr>" using inv_boxesD(4) [OF i(1)] by metis
    with won have "queue (cmtx c') = []" by (simp add: cmtx_def)
    with won old show ?thesis by (intro keep) (cases g; simp)+
  next
    case (lost g n b)
    then have "n \<noteq> b" using inv_boxesD(5) [OF i(1)] by metis
    with lost have "cmtx c' = cmtx c" by (simp add: cmtx_def)
    with lost old show ?thesis by (intro keep) (cases g; simp)+
  next
    case (lock g b)
    with old show ?thesis by (intro keep) (cases g; simp add: cmtx_set_box)+
  next
    case (set_waiter j)
    then show ?thesis by (intro keep) (simp_all add: slot_bits)
  next
    case (expire b)
    then have "queue (cmtx c') \<noteq> [] \<Longrightarrow> queue (cmtx c) \<noteq> []"
      by (auto simp: cmtx_set_box remove_thread_def)
    with expire old show ?thesis by (intro keep) (simp_all add: cmtx_set_box)
  next
    case (cancel f b ws)
    then have "queue (cmtx c') \<noteq> [] \<Longrightarrow> queue (cmtx c) \<noteq> []" by (auto simp: cmtx_set_box)
    with cancel old show ?thesis by (intro keep) (simp_all add: cmtx_set_box)
  next
    case (register k b)
    with old have "bit (cbits c) (Suc 0)" by simp
    with register show ?thesis by (intro keep) simp_all
  next
    case (poll_register f k b ws)
    with old have "bit (cbits c) (Suc 0)" by simp
    with poll_register show ?thesis by (intro keep) simp_all
  next
    case (publish)
    with old show ?thesis by (intro keep) (simp_all add: slot_bits split: if_splits)
  qed (rule keep; use old in \<open>simp add: cmtx_set_box slot_bits split: if_splits\<close>)+
qed

subsection \<open>The registrations\<close>

lemma inv_queueD:
  assumes "inv_queue c"
  shows "registry_ok (queue (cmtx c))" and "direct w (queue (cmtx c)) \<Longrightarrow> w \<in> set (granted c)"
    and "\<not> done_bit c \<Longrightarrow> owners w (queue (cmtx c)) = holders_of w c"
    and "w \<in> set (wakers_of (queue (cmtx c))) \<Longrightarrow> owners w (queue (cmtx c)) = holders_of w c"
  using assms unfolding inv_queue_def by blast+

lemma inv_futuresD:
  assumes "inv_futures c"
  shows "distinct (held c)"
    and "future_of (pcs c t) = Some f \<Longrightarrow> future_of (pcs c u) = Some f \<Longrightarrow> t = u"
    and "w \<in> set (fwakers c f) \<Longrightarrow> (f, w) \<in> set (held c)"
    and "(f, w) \<in> set (held c) \<Longrightarrow> done_bit c \<or> w \<in> set (fwakers c f) \<or> (\<exists>t. enrolling (pcs c t) = Some (f, w))"
    and "wants (pcs c t) = Some (f, w) \<Longrightarrow> w \<notin> set (fwakers c f)"
    and "enrolling (pcs c t) = Some (f, w) \<Longrightarrow> done_bit c \<or> (f, w) \<in> set (held c)"
  using assms unfolding inv_futures_def by blast+

lemma inv_futuresI:
  assumes "distinct (held c)"
    and "\<And>t u f. future_of (pcs c t) = Some f \<Longrightarrow> future_of (pcs c u) = Some f \<Longrightarrow> t = u"
    and "\<And>f w. w \<in> set (fwakers c f) \<Longrightarrow> (f, w) \<in> set (held c)"
    and "\<And>f w. (f, w) \<in> set (held c) \<Longrightarrow> done_bit c \<or> w \<in> set (fwakers c f) \<or> (\<exists>t. enrolling (pcs c t) = Some (f, w))"
    and "\<And>t f w. wants (pcs c t) = Some (f, w) \<Longrightarrow> w \<notin> set (fwakers c f)"
    and "\<And>t f w. enrolling (pcs c t) = Some (f, w) \<Longrightarrow> done_bit c \<or> (f, w) \<in> set (held c)"
  shows "inv_futures c"
  using assms unfolding inv_futures_def by blast

lemma holders_card:
  assumes "distinct (held c)"
  shows "holders_of w c = card {f. (f, w) \<in> set (held c)}"
proof -
  have "holders_of w c = card (set (filter (\<lambda>(f, k). k = w) (held c)))"
    using distinct_card [OF distinct_filter [OF assms, of "\<lambda>(f, k). k = w"]] by (simp add: holders_of_def)
  also have "set (filter (\<lambda>(f, k). k = w) (held c)) = (\<lambda>f. (f, w)) ` {f. (f, w) \<in> set (held c)}" by auto
  also have "card \<dots> = card {f. (f, w) \<in> set (held c)}" by (rule card_image) (simp add: inj_on_def)
  finally show ?thesis .
qed

lemma finite_holders: "finite {f. (f, w) \<in> set (held c)}"
proof -
  have "{f. (f, w) \<in> set (held c)} \<subseteq> fst ` set (held c)" by force
  then show ?thesis by (rule finite_subset) simp
qed

lemma holders_pos: "distinct (held c) \<Longrightarrow> (f, w) \<in> set (held c) \<Longrightarrow> holders_of w c > 0"
  using finite_holders [of w c] by (auto simp: holders_card card_gt_0_iff)

lemma holders_posD: "distinct (held c) \<Longrightarrow> holders_of w c > 0 \<Longrightarrow> \<exists>f. (f, w) \<in> set (held c)"
  by (auto simp: holders_card card_gt_0_iff)

lemma disown_holders:
  assumes "inv_futures c"
  shows "holders_of w (disown f c) = holders_of w c - (if w \<in> set (fwakers c f) then 1 else 0)"
proof -
  note d = inv_futuresD [OF assms]
  have "distinct (held (disown f c))" using d(1) by (simp add: disown_def)
  then have "holders_of w (disown f c) = card {g. (g, w) \<in> set (held (disown f c))}" by (rule holders_card)
  also have "{g. (g, w) \<in> set (held (disown f c))} =
      {g. (g, w) \<in> set (held c)} - (if w \<in> set (fwakers c f) then {f} else {})" by auto
  also have "card \<dots> = holders_of w c - (if w \<in> set (fwakers c f) then 1 else 0)"
    using d(3) [of w f] finite_holders [of w c] holders_card [OF d(1), of w] by (simp add: card_Diff_singleton)
  finally show ?thesis .
qed

text \<open>Dropping a future never counts an entry below zero, and it takes away only its own share.\<close>

lemma cancel_defined:
  assumes "inv_queue c" and "inv_futures c"
  obtains ws where "cancel (fwakers c f) (queue (cmtx c)) = Inr ws" "registry_ok ws"
    "set (wakers_of ws) \<subseteq> set (wakers_of (queue (cmtx c)))" "threads ws = threads (queue (cmtx c))"
    "\<And>w. owners w ws = owners w (queue (cmtx c)) - (if w \<in> set (fwakers c f) then 1 else 0)"
    "\<And>w. direct w ws = direct w (queue (cmtx c))"
proof -
  note q = inv_queueD [OF assms(1)] and d = inv_futuresD [OF assms(2)]
  have "\<forall>w\<in>set (fwakers c f). w \<in> set (wakers_of (queue (cmtx c))) \<longrightarrow> owners w (queue (cmtx c)) > 0"
    using q(4) holders_pos [OF d(1) d(3)] by auto
  moreover have "distinct (wakers_of (queue (cmtx c)))" "list_all live_waiter (queue (cmtx c))"
    using q(1) by (simp_all add: registry_ok_def)
  ultimately show ?thesis using cancel_ok [of "queue (cmtx c)" "fwakers c f"] that by (auto simp: registry_ok_def)
qed

lemma cancel_effect:
  assumes "inv_queue c" and "inv_futures c" and "cancel (fwakers c f) (queue (cmtx c)) = Inr ws"
  shows "registry_ok ws" "set (wakers_of ws) \<subseteq> set (wakers_of (queue (cmtx c)))" "threads ws = threads (queue (cmtx c))"
    "owners w ws = owners w (queue (cmtx c)) - (if w \<in> set (fwakers c f) then 1 else 0)"
    "direct w ws = direct w (queue (cmtx c))"
  by (rule cancel_defined [OF assms(1,2), of f]; use assms(3) in simp)+

lemma inv_queue_keep:
  assumes "inv_queue c" and "queue (cmtx c') = queue (cmtx c)" and "held c' = held c" and "granted c' = granted c"
    and "done_bit c \<Longrightarrow> done_bit c'"
  shows "inv_queue c'"
  using assms by (auto simp: inv_queue_def holders_of_def)

lemma inv_queueI:
  assumes "registry_ok (queue (cmtx c))" and "\<And>w. direct w (queue (cmtx c)) \<Longrightarrow> w \<in> set (granted c)"
    and "\<And>w. \<not> done_bit c \<or> w \<in> set (wakers_of (queue (cmtx c))) \<Longrightarrow> owners w (queue (cmtx c)) = holders_of w c"
  shows "inv_queue c"
  using assms unfolding inv_queue_def by blast

lemma inv_queue_step:
  assumes "cinv c" and "advance t c = Some (Inr c')"
  shows "inv_queue c'"
proof -
  note i = cinvD(2,4,9,10) [OF assms(1)]
  note old = inv_queueD [OF i(3)]
  note keep = inv_queue_keep [OF i(3), of c']
  from i(1) assms(2) show ?thesis
  proof (cases rule: advance_cases)
    case (make g)
    then show ?thesis by (intro keep) (simp_all add: cmtx_def)
  next
    case (won g n)
    then have "boxes c n = Some \<lparr>queue = [], owner = None\<rparr>" using inv_boxesD(4) [OF i(1)] by metis
    with won show ?thesis by (intro keep) (simp_all add: cmtx_def)
  next
    case (lost g n b)
    then have "n \<noteq> b" using inv_boxesD(5) [OF i(1)] by metis
    with lost show ?thesis by (intro keep) (simp_all add: cmtx_def)
  next
    case (push timed b)
    with old show ?thesis by (intro inv_queueI) (auto simp: cmtx_set_box holders_of_def)
  next
    case (expire b)
    with old show ?thesis
      by (intro inv_queueI) (auto simp: cmtx_set_box holders_of_def registry_ok_remove_thread)
  next
    case (leave timed b)
    with old show ?thesis
      by (intro inv_queueI) (auto simp: cmtx_set_box holders_of_def registry_ok_remove_thread)
  next
    case (drain b)
    with inv_publisherD(6) [OF i(2), of t] show ?thesis by (intro inv_queueI) (auto simp: cmtx_set_box)
  next
    case (cancel f b ws)
    note eff = cancel_effect [OF i(3,4) cancel(3)]
    have box: "cmtx c' = (cmtx c)\<lparr>queue := ws\<rparr>" using cancel by (simp add: cmtx_set_box)
    have held: "holders_of w c' = holders_of w (disown f c)" for w using cancel(4) by (simp add: holders_of_def)
    show ?thesis
    proof (rule inv_queueI)
      show "w \<in> set (granted c')" if "direct w (queue (cmtx c'))" for w
        using that eff(5) [of w] old(2) [of w] box cancel(4) by simp
      show "owners w (queue (cmtx c')) = holders_of w c'" if "\<not> done_bit c' \<or> w \<in> set (wakers_of (queue (cmtx c')))" for w
        using that eff(2) eff(4) [of w] old(3,4) [of w] box held [of w] disown_holders [OF i(4), of w f] cancel(4) by auto
    qed (use eff(1) box in simp)
  next
    case (register k b)
    then have "cmtx c' = (cmtx c)\<lparr>queue := direct_registered k (queue (cmtx c))\<rparr>" by (simp add: cmtx_def)
    moreover have "holders_of w c' = holders_of w c" for w using register(4) by (simp add: holders_of_def)
    ultimately show ?thesis using old register
      by (intro inv_queueI) (auto simp: direct_registered_simps)
  next
    case (poll_register f k b ws)
    note eff = future_registered_Ret [OF poll_register(4)]
    have "cmtx c' = (cmtx c)\<lparr>queue := ws\<rparr>" using poll_register by (simp add: cmtx_def)
    moreover have "holders_of w c' = holders_of w c + (if w = k then 1 else 0)" for w
      using poll_register(5) by (simp add: holders_of_def)
    ultimately show ?thesis using old poll_register eff
      by (intro inv_queueI) auto
  qed (rule keep; simp add: cmtx_set_box slot_bits split: if_splits)+
qed

lemma future_busy:
  "wants p = Some (f, w) \<Longrightarrow> future_of p = Some f" "enrolling p = Some (f, w) \<Longrightarrow> future_of p = Some f"
proof -
  have goal: "goal_wants g = Some (f, w) \<Longrightarrow> goal_future g = Some f" for g
    by (erule goal_wants.elims) auto
  show "wants p = Some (f, w) \<Longrightarrow> future_of p = Some f" by (cases p) (use goal in auto)
  show "enrolling p = Some (f, w) \<Longrightarrow> future_of p = Some f" by (erule enrolling.elims) auto
qed

lemma inv_futures_keep:
  assumes inv: "inv_futures c" and pcs: "pcs c' = (pcs c)(t := p)"
    and same: "held c' = held c" "fwakers c' = fwakers c" and bits: "done_bit c \<Longrightarrow> done_bit c'"
    and uses: "\<And>f. future_of p = Some f \<Longrightarrow> future_of (pcs c t) = Some f \<or> (\<forall>u. future_of (pcs c u) \<noteq> Some f)"
    and wants: "\<And>f w. wants p = Some (f, w) \<Longrightarrow> w \<notin> set (fwakers c f)"
    and enrols: "\<And>x. enrolling p = Some x \<Longrightarrow> enrolling (pcs c t) = Some x \<or> done_bit c'"
      "\<And>x. enrolling (pcs c t) = Some x \<Longrightarrow> enrolling p = Some x \<or> done_bit c'"
  shows "inv_futures c'"
proof -
  note old = inv_futuresD [OF inv]
  show ?thesis
  proof (rule inv_futuresI)
    show "u = v" if "future_of (pcs c' u) = Some f" "future_of (pcs c' v) = Some f" for u v f
      using that pcs uses [of f] old(2) [of u f v] old(2) [of t f v] old(2) [of u f t]
      by (cases "u = t"; cases "v = t") auto
    show "done_bit c' \<or> w \<in> set (fwakers c' f) \<or> (\<exists>u. enrolling (pcs c' u) = Some (f, w))"
      if h: "(f, w) \<in> set (held c')" for f w
    proof -
      consider "done_bit c" | "w \<in> set (fwakers c f)" | u where "enrolling (pcs c u) = Some (f, w)"
        using old(4) [of f w] h same by auto
      then show ?thesis
      proof cases
        case (3 u)
        then show ?thesis using enrols(2) [of "(f, w)"] pcs by (cases "u = t") (auto intro: exI [of _ u] exI [of _ t])
      qed (use bits same in auto)
    qed
    show "w \<notin> set (fwakers c' f)" if "wants (pcs c' u) = Some (f, w)" for u f w
      using that pcs wants [of f w] old(5) [of u f w] same by (cases "u = t") auto
    show "done_bit c' \<or> (f, w) \<in> set (held c')" if "enrolling (pcs c' u) = Some (f, w)" for u f w
      using that pcs enrols(1) [of "(f, w)"] old(6) [of u f w] bits same by (cases "u = t") auto
  qed (use old(1,3) same in auto)
qed

lemma inv_futures_step:
  assumes "cinv c" and "advance t c = Some (Inr c')"
  shows "inv_futures c'"
proof -
  note i = cinvD(2,10) [OF assms(1)]
  note old = inv_futuresD [OF i(2)]
  note keep = inv_futures_keep [OF i(2), of c' t "pcs c' t"]
  have mine: "u = t" if "future_of (pcs c t) = Some f" "enrolling (pcs c u) = Some (f, w) \<or> wants (pcs c u) = Some (f, w)" for u f w
    using that old(2) [of u f t] future_busy [of "pcs c u" f w] by auto
  from i(1) assms(2) show ?thesis
  proof (cases rule: advance_cases)
    case (load j)
    with old(5) [of t] show ?thesis by (intro keep) (cases j; simp split: if_splits)+
  next
    case (unlock b k)
    with old(5) [of t] show ?thesis by (intro keep) (simp_all add: resume_same [of k b])
  next
    case (cancel f b ws)
    have t: "future_of (pcs c t) = Some f" using cancel(1) by simp
    have other: "u \<noteq> t \<Longrightarrow> future_of (pcs c u) \<noteq> Some f" for u using old(2) [of u f t] t by auto
    show ?thesis
    proof (rule inv_futuresI)
      show "distinct (held c')" using old(1) cancel(4) by (simp add: disown_def)
      show "u = v" if "future_of (pcs c' u) = Some g" "future_of (pcs c' v) = Some g" for u v g
        using that old(2) [of u g v] cancel(4) by (auto split: if_splits)
      show "(g, w) \<in> set (held c')" if "w \<in> set (fwakers c' g)" for g w
        using that old(3) [of w g] cancel(4) by (auto split: if_splits)
      show "done_bit c' \<or> w \<in> set (fwakers c' g) \<or> (\<exists>u. enrolling (pcs c' u) = Some (g, w))"
        if "(g, w) \<in> set (held c')" for g w
      proof (cases "\<exists>u. enrolling (pcs c u) = Some (g, w)")
        case True
        then obtain u where u: "enrolling (pcs c u) = Some (g, w)" by blast
        then have "u \<noteq> t" using cancel(1) by auto
        with u cancel(4) show ?thesis by (auto intro: exI [of _ u])
      next
        case False
        with that old(4) [of g w] cancel(4) show ?thesis by (auto split: if_splits)
      qed
      show "w \<notin> set (fwakers c' g)" if "wants (pcs c' u) = Some (g, w)" for u g w
        using that old(5) [of u g w] cancel(4) by (auto split: if_splits)
      show "done_bit c' \<or> (g, w) \<in> set (held c')" if "enrolling (pcs c' u) = Some (g, w)" for u g w
      proof -
        have u: "u \<noteq> t" "enrolling (pcs c u) = Some (g, w)" using that cancel(4) by (auto split: if_splits)
        then have "g \<noteq> f" using other [of u] future_busy(2) [of "pcs c u" g w] by auto
        with u(2) old(6) [of u g w] cancel(4) show ?thesis by auto
      qed
    qed
  next
    case (poll_register f k b ws)
    have t: "future_of (pcs c t) = Some f" "wants (pcs c t) = Some (f, k)" using poll_register(1) by simp_all
    have new: "(f, k) \<notin> set (held c)"
    proof
      assume "(f, k) \<in> set (held c)"
      with old(4) [of f k] old(5) [OF t(2)] poll_register(3) obtain u where "enrolling (pcs c u) = Some (f, k)" by auto
      with mine [OF t(1), of u k] poll_register(1) show False by auto
    qed
    have same: "future_of (pcs c u) = Some g" if "future_of (pcs c' u) = Some g" for u g
      using that t(1) poll_register(5) by (cases "u = t") simp_all
    show ?thesis
    proof (rule inv_futuresI)
      show "distinct (held c')" using old(1) new poll_register(5) by simp
      show "u = v" if "future_of (pcs c' u) = Some g" "future_of (pcs c' v) = Some g" for u v g
        using old(2) [of u g v] same [OF that(1)] same [OF that(2)] by simp
      show "done_bit c' \<or> w \<in> set (fwakers c' g) \<or> (\<exists>u. enrolling (pcs c' u) = Some (g, w))"
        if "(g, w) \<in> set (held c')" for g w
      proof (cases "(g, w) = (f, k)")
        case True
        with poll_register(5) show ?thesis by (auto intro: exI [of _ t])
      next
        case False
        with that poll_register(5) have h: "(g, w) \<in> set (held c)" by auto
        have "u \<noteq> t" if "enrolling (pcs c u) = Some (g, w)" for u using that poll_register(1) by auto
        with old(4) [OF h] poll_register(5) show ?thesis by (auto 4 4)
      qed
      show "w \<notin> set (fwakers c' g)" if "wants (pcs c' u) = Some (g, w)" for u g w
        using that old(5) [of u g w] poll_register(5) by (auto split: if_splits)
      show "done_bit c' \<or> (g, w) \<in> set (held c')" if "enrolling (pcs c' u) = Some (g, w)" for u g w
        using that old(6) [of u g w] poll_register(5) by (auto split: if_splits)
    qed (use old(3) poll_register(5) in auto)
  next
    case (again_new f k)
    have t: "future_of (pcs c t) = Some f" "enrolling (pcs c t) = Some (f, k)" using again_new(1) by simp_all
    show ?thesis
    proof (rule inv_futuresI)
      show "u = v" if "future_of (pcs c' u) = Some g" "future_of (pcs c' v) = Some g" for u v g
        using that old(2) [of u g v] again_new(3) by (auto split: if_splits)
      show "(g, w) \<in> set (held c')" if "w \<in> set (fwakers c' g)" for g w
        using that old(3) [of w g] old(6) [OF t(2)] again_new(2,3) by (auto split: if_splits)
      show "done_bit c' \<or> w \<in> set (fwakers c' g) \<or> (\<exists>u. enrolling (pcs c' u) = Some (g, w))"
        if "(g, w) \<in> set (held c')" for g w
      proof (cases "\<exists>u. u \<noteq> t \<and> enrolling (pcs c u) = Some (g, w)")
        case True
        then obtain u where "u \<noteq> t" "enrolling (pcs c u) = Some (g, w)" by blast
        with again_new(3) show ?thesis by (auto intro: exI [of _ u])
      next
        case False
        have "(g, w) \<in> set (held c)" using that again_new(3) by simp
        then consider "w \<in> set (fwakers c g)" | "enrolling (pcs c t) = Some (g, w)"
          using old(4) [of g w] False again_new(2) by metis
        then show ?thesis using t(2) again_new(3) by cases auto
      qed
      show "w \<notin> set (fwakers c' g)" if "wants (pcs c' u) = Some (g, w)" for u g w
      proof -
        have u: "u \<noteq> t" "wants (pcs c u) = Some (g, w)" using that again_new(3) by (auto split: if_splits)
        with mine [OF t(1), of u w] have "g \<noteq> f" by auto
        with u(2) old(5) [of u g w] again_new(3) show ?thesis by simp
      qed
      show "done_bit c' \<or> (g, w) \<in> set (held c')" if "enrolling (pcs c' u) = Some (g, w)" for u g w
        using that old(6) [of u g w] again_new(3) by (auto split: if_splits)
    qed (use old(1) again_new(3) in simp)
  qed (rule keep; use old(5) [of t] in \<open>simp add: slot_bits split: if_splits\<close>)+
qed

subsection \<open>No lost wake-up\<close>

lemma direct_iff: "distinct (wakers_of ws) \<Longrightarrow> direct k ws \<longleftrightarrow> (\<exists>n. Waker k True n \<in> set ws)"
  by (induction k ws rule: direct.induct) (auto simp: set_wakers_of)

text \<open>A change of the queue that keeps what somebody waits for: a thread, a direct or an owned waker.\<close>

lemma waiter_kept:
  assumes "registry_ok q" and "registry_ok q'" and threads: "threads q' = threads q"
    and direct: "\<And>k. direct k q \<Longrightarrow> direct k q'"
    and owned: "\<And>k. Q k \<Longrightarrow> k \<in> set (wakers_of q) \<Longrightarrow> k \<in> set (wakers_of q')"
    and P: "(\<exists>u. u \<noteq> t \<and> P = (\<lambda>x. x = Thread u)) \<or> (\<exists>k. P = (\<lambda>x. \<exists>n. x = Waker k True n)) \<or>
      (\<exists>k. P = (\<lambda>x. event_of x = Woken k) \<and> Q k)"
    and "x \<in> set q" "P x"
  shows "\<exists>y\<in>set q'. P y"
proof -
  note dist = assms(1,2) [unfolded registry_ok_def]
  from P consider u where "P = (\<lambda>x. x = Thread u)" | k where "P = (\<lambda>x. \<exists>n. x = Waker k True n)"
    | k where "P = (\<lambda>x. event_of x = Woken k)" "Q k" by blast
  then show ?thesis
  proof cases
    case (1 u)
    with assms(7,8) threads show ?thesis by (simp add: threads_member [symmetric])
  next
    case (2 k)
    with assms(7,8) direct_iff [of q k] dist have "direct k q" by blast
    with direct direct_iff [of q' k] dist 2 show ?thesis by blast
  next
    case (3 k)
    then obtain p n where "x = Waker k p n" using assms(8) by (cases x) auto
    with assms(7) have "k \<in> set (wakers_of q)" by (auto simp: set_wakers_of)
    then have "k \<in> set (wakers_of q')" by (rule owned [OF 3(2)])
    then obtain p' n' where "Waker k p' n' \<in> set q'" by (auto simp: set_wakers_of)
    with 3(1) show ?thesis by force
  qed
qed

lemma awaitsE:
  assumes "awaits c P"
  obtains u x where "x \<in> set (to_notify (pcs c u))" "P x"
  | x where "x \<in> set (queue (cmtx c))" "P x" "done_bit c \<Longrightarrow> draining c"
  using assms unfolding awaits_def by blast

lemma awaits_list: "x \<in> set (to_notify (pcs c u)) \<Longrightarrow> P x \<Longrightarrow> awaits c P"
  unfolding awaits_def by blast

lemma awaits_queue: "x \<in> set (queue (cmtx c)) \<Longrightarrow> P x \<Longrightarrow> (done_bit c \<Longrightarrow> draining c) \<Longrightarrow> awaits c P"
  unfolding awaits_def by blast

lemma draining_keep: "draining c \<Longrightarrow> pcs c' = (pcs c)(t := p) \<Longrightarrow> (drains (pcs c t) \<Longrightarrow> drains p) \<Longrightarrow> draining c'"
  unfolding draining_def by (metis fun_upd_apply)

text \<open>Steps that neither publish nor drain nor notify.\<close>

lemma awaits_keep:
  assumes aw: "awaits c P" and pcs: "pcs c' = (pcs c)(t := p)" and bits: "done_bit c' = done_bit c"
    and list: "to_notify p = to_notify (pcs c t)" and drains: "drains (pcs c t) \<Longrightarrow> drains p"
    and queue: "\<And>x. x \<in> set (queue (cmtx c)) \<Longrightarrow> P x \<Longrightarrow> \<exists>y\<in>set (queue (cmtx c')). P y"
  shows "awaits c' P"
  using aw
proof (cases rule: awaitsE)
  case (1 u x)
  then have "x \<in> set (to_notify (pcs c' u))" using pcs list by (cases "u = t") simp_all
  then show ?thesis using 1(2) by (rule awaits_list)
next
  case (2 x)
  from queue [OF 2(1,2)] obtain y where y: "y \<in> set (queue (cmtx c'))" "P y" by blast
  then show ?thesis
  proof (rule awaits_queue)
    show "draining c'" if "done_bit c'"
      using draining_keep [OF 2(3) pcs drains] that bits by simp
  qed
qed

text \<open>A waiter somebody waits for stays in line until it is notified: \<open>P\<close> stands for the waiter.\<close>

lemma awaits_step:
  assumes inv: "cinv c" and adv: "advance t c = Some (Inr c')" and aw: "awaits c P"
    and P: "(\<exists>u. u \<noteq> t \<and> P = (\<lambda>x. x = Thread u)) \<or> (\<exists>k. P = (\<lambda>x. \<exists>n. x = Waker k True n)) \<or>
      (\<exists>k. P = (\<lambda>x. event_of x = Woken k) \<and> (\<exists>f. (f, k) \<in> set (held c')))"
  shows "awaits c' P \<or> (\<exists>w ws. pcs c t = PNotify (w # ws) \<and> P w)"
proof -
  note i = cinvD(2) [OF inv]
  note q = inv_queueD [OF cinvD(9) [OF inv]]
  note stays = waiter_kept [OF q(1) _ _ _ _ P]
  note keep = awaits_keep [OF aw, of c' t "pcs c' t"]
  from i adv show ?thesis
  proof (cases rule: advance_cases)
    case (load j)
    then show ?thesis by (intro disjI1 keep) (cases j; auto split: if_splits)+
  next
    case (make g)
    then have "cmtx c' = cmtx c" by (simp add: cmtx_def)
    with make show ?thesis by (intro disjI1 keep) (cases g; auto)+
  next
    case (found g b)
    then show ?thesis by (intro disjI1 keep) (cases g; auto)+
  next
    case (won g n)
    then have "queue (cmtx c) = []" by (simp add: cmtx_def)
    with won show ?thesis by (intro disjI1 keep) (cases g; auto)+
  next
    case (lost g n b)
    then have "n \<noteq> b" using inv_boxesD(5) [OF i] by metis
    with lost have "cmtx c' = cmtx c" by (simp add: cmtx_def)
    with lost show ?thesis by (intro disjI1 keep) (cases g; auto)+
  next
    case (lock g b)
    then show ?thesis by (intro disjI1 keep) (cases g; auto simp: cmtx_set_box)+
  next
    case (push timed b)
    then show ?thesis by (intro disjI1 keep) (auto simp: cmtx_set_box push_thread_def)
  next
    case (expire b)
    have "P x \<Longrightarrow> x \<noteq> Thread t" for x using P by auto
    with expire show ?thesis by (intro disjI1 keep) (auto simp: cmtx_set_box remove_thread_def)
  next
    case (leave timed b)
    have "P x \<Longrightarrow> x \<noteq> Thread t" for x using P by auto
    with leave show ?thesis by (intro disjI1 keep) (auto simp: cmtx_set_box remove_thread_def)
  next
    case (register k b)
    have "cmtx c' = (cmtx c)\<lparr>queue := direct_registered k (queue (cmtx c))\<rparr>"
      using register by (simp add: cmtx_def)
    moreover have "\<exists>y\<in>set (direct_registered k (queue (cmtx c))). P y" if "x \<in> set (queue (cmtx c))" "P x" for x
      by (rule stays [OF _ _ _ _ that]) (use q(1) in \<open>simp_all add: direct_registered_simps\<close>)
    ultimately show ?thesis using register by (intro disjI1 keep) auto
  next
    case (poll_register f k b ws)
    note eff = future_registered_Ret [OF poll_register(4)]
    have "cmtx c' = (cmtx c)\<lparr>queue := ws\<rparr>" using poll_register by (simp add: cmtx_def)
    moreover have "\<exists>y\<in>set ws. P y" if "x \<in> set (queue (cmtx c))" "P x" for x
      by (rule stays [OF _ _ _ _ that]) (use q(1) eff in simp_all)
    ultimately show ?thesis using poll_register by (intro disjI1 keep) auto
  next
    case (cancel f b ws)
    note eff = cancel_effect [OF cinvD(9,10) [OF inv] cancel(3)]
    have "cmtx c' = (cmtx c)\<lparr>queue := ws\<rparr>" using cancel by (simp add: cmtx_set_box)
    moreover have "\<exists>y\<in>set ws. P y" if x: "x \<in> set (queue (cmtx c))" "P x" for x
    proof (rule stays [OF _ _ _ _ x])
      fix k assume k: "\<exists>g. (g, k) \<in> set (held c')" "k \<in> set (wakers_of (queue (cmtx c)))"
      have held: "held c' = held (disown f c)" using cancel(4) by simp
      have "distinct (held (disown f c))"
        using inv_futuresD(1) [OF cinvD(10) [OF inv]] by (simp add: disown_def)
      then have "holders_of k (disown f c) > 0" using holders_pos [of "disown f c"] k(1) held by auto
      then have "owners k ws > 0"
        using eff(4) [of k] q(4) [OF k(2)] disown_holders [OF cinvD(10) [OF inv], of k f] by simp
      then show "k \<in> set (wakers_of ws)" using owners_absent [of k ws] by auto
    qed (use eff in simp_all)
    ultimately show ?thesis using cancel by (intro disjI1 keep) auto
  next
    case (drain b)
    have "awaits c' P"
      using aw
    proof (cases rule: awaitsE)
      case (1 u x)
      then have "u \<noteq> t" using drain(1) by auto
      with 1 drain(3) show ?thesis by (intro awaits_list [of x c' u]) simp_all
    next
      case (2 x)
      with drain(3) show ?thesis by (intro awaits_list [of x c' t]) simp_all
    qed
    then show ?thesis ..
  next
    case (unlock b k)
    then show ?thesis by (intro disjI1 keep) (auto simp: cmtx_set_box resume_same [of k b])
  next
    case (publish)
    have "awaits c' P"
      using aw
    proof (cases rule: awaitsE)
      case (1 u x)
      then have "u \<noteq> t" using publish(1) by auto
      with 1 publish(3) show ?thesis by (intro awaits_list [of x c' u]) simp_all
    next
      case (2 x)
      then have "queue (cmtx c) \<noteq> []" by auto
      then have "bit (cbits c) (Suc 0)" using inv_waiterD(2) [OF cinvD(6) [OF inv]] by simp
      then have "draining c'" using publish(3) by (auto simp: draining_def intro: exI [of _ t])
      with 2 publish(3) show ?thesis by (intro awaits_queue [of x]) simp_all
    qed
    then show ?thesis ..
  next
    case (notify w ws)
    show ?thesis
      using aw
    proof (cases rule: awaitsE)
      case (1 u x)
      show ?thesis
      proof (cases "u = t \<and> x = w")
        case True
        with 1 notify(1) show ?thesis by auto
      next
        case False
        then have "x \<in> set (to_notify (pcs c' u))" using 1(1) notify by (auto split: if_splits)
        then show ?thesis using 1(2) by (intro disjI1 awaits_list)
      qed
    next
      case (2 x)
      have "draining c'" if "done_bit c'"
        using draining_keep [of c c' t "PNotify ws"] 2(3) that notify by simp
      with 2 notify show ?thesis by (intro disjI1 awaits_queue [of x]) simp_all
    qed
  next
    case (drained)
    then show ?thesis by (intro disjI1 keep) auto
  qed (rule disjI1, rule keep; auto simp: slot_bits split: if_splits)+
qed

lemma notify_tokens:
  "tokens (notify w c) u \<longleftrightarrow> tokens c u \<or> w = Thread u"
  "k \<in> set (fired (notify w c)) \<longleftrightarrow> k \<in> set (fired c) \<or> event_of w = Woken k"
  by (cases w; auto)+

text \<open>An access moves only its own thread, and without the mutex it leaves the queue alone.\<close>

lemma advance_pcs:
  assumes "inv_boxes c" and "advance t c = Some (Inr c')" and "u \<noteq> t"
  shows "pcs c' u = pcs c u"
  using assms(1,2) by (cases rule: advance_cases) (use assms(3) in \<open>auto split: if_splits\<close>)

lemma quiet_queue:
  assumes "inv_boxes c" and "advance t c = Some (Inr c')" and "\<not> holding (pcs c t)" and "regp c = Some b"
  shows "queue (cmtx c') = queue (cmtx c)"
  using assms(1,2)
proof (cases rule: advance_cases)
  case (lost g n b')
  then have "n \<noteq> b'" using inv_boxesD(5) [OF assms(1)] by metis
  with lost show ?thesis by (simp add: cmtx_def)
qed (use assms(3,4) in \<open>auto simp: cmtx_set_box split: if_splits\<close>)

text \<open>What an access does to the park tokens and to the record of woken wakers.\<close>

lemma tokens_step:
  assumes "inv_boxes c" and "advance t c = Some (Inr c')"
  shows "u \<noteq> t \<Longrightarrow> tokens c u \<Longrightarrow> tokens c' u"
    and "pcs c t = PNotify (Thread v # ws) \<Longrightarrow> tokens c' v"
  using assms by (cases rule: advance_cases; simp add: notify_tokens)+

lemma fired_step:
  assumes "inv_boxes c" and "advance t c = Some (Inr c')"
  shows "k \<in> set (fired c) \<Longrightarrow> k \<in> set (fired c')"
    and "pcs c t = PNotify (Waker k p n # ws) \<Longrightarrow> k \<in> set (fired c')"
  using assms by (cases rule: advance_cases; simp add: notify_tokens)+

lemma inv_wakeD:
  assumes "inv_wake c"
  shows "pcs c t = PRecheck (Await timed) b \<Longrightarrow> Thread t \<in> set (queue (cmtx c))"
    and "parking (pcs c t) \<Longrightarrow> tokens c t \<or> awaits c (\<lambda>x. x = Thread t)"
  using assms unfolding inv_wake_def by blast+

lemma registered_step:
  assumes inv: "cinv c" and adv: "advance t c = Some (Inr c')" and u: "pcs c' u = PRecheck (Await timed) b"
  shows "Thread u \<in> set (queue (cmtx c'))"
proof (cases "u = t")
  case True
  from cinvD(2) [OF inv] adv show ?thesis
  proof (cases rule: advance_cases)
    case (push timed' b')
    with True show ?thesis by (simp add: cmtx_set_box)
  qed (use u True in \<open>auto split: if_splits job.splits\<close>)
next
  case False
  then have pc: "pcs c u = PRecheck (Await timed) b"
    using u advance_pcs [OF cinvD(2) [OF inv] adv, of u] by simp
  have "regp c = Some b" using inv_boxesD(7) [OF cinvD(2) [OF inv], of u b] pc by simp
  have "owner (cmtx c) = Some u" using inv_lockD [OF cinvD(3) [OF inv], of u] pc by simp
  then have "\<not> holding (pcs c t)" using inv_lockD [OF cinvD(3) [OF inv], of t] False by simp
  then have "queue (cmtx c') = queue (cmtx c)"
    using quiet_queue [OF cinvD(2) [OF inv] adv] \<open>regp c = Some b\<close> by simp
  then show ?thesis using inv_wakeD(1) [OF cinvD(7) [OF inv] pc] by simp
qed

lemma inv_wake_step:
  assumes "cinv c" and "advance t c = Some (Inr c')"
  shows "inv_wake c'"
  unfolding inv_wake_def
proof (intro conjI allI impI)
  show "Thread u \<in> set (queue (cmtx c'))" if "pcs c' u = PRecheck (Await timed) b" for u timed b
    by (rule registered_step [OF assms that])
  note inv = cinvD(2,7) [OF assms(1)]
  fix u assume u: "parking (pcs c' u)"
  show "tokens c' u \<or> awaits c' (\<lambda>x. x = Thread u)"
  proof (cases "u = t")
    case False
    then have "parking (pcs c u)" using u advance_pcs [OF inv(1) assms(2), of u] by simp
    then consider "tokens c u" | "awaits c (\<lambda>x. x = Thread u)" using inv_wakeD(2) [OF inv(2)] by blast
    then show ?thesis
    proof cases
      case 1
      then show ?thesis using tokens_step(1) [OF inv(1) assms(2) False] by simp
    next
      case 2
      have "awaits c' (\<lambda>x. x = Thread u) \<or> (\<exists>w ws. pcs c t = PNotify (w # ws) \<and> w = Thread u)"
        by (rule awaits_step [OF assms 2]) (use False in auto)
      then show ?thesis using tokens_step(2) [OF inv(1) assms(2)] by auto
    qed
  next
    case True
    from inv(1) assms(2) show ?thesis
    proof (cases rule: advance_cases)
      case (stay timed b)
      have "Thread t \<in> set (queue (cmtx c'))"
        using inv_wakeD(1) [OF inv(2) stay(1)] stay(4) by simp
      then have "awaits c' (\<lambda>x. x = Thread t)" by (rule awaits_queue) (use stay in simp_all)
      with True show ?thesis by simp
    next
      case (unlock b k)
      then have "parking (pcs c t)" using u True by (simp add: resume_same [of k b])
      then consider "tokens c t" | "awaits c (\<lambda>x. x = Thread t)" using inv_wakeD(2) [OF inv(2)] by blast
      then show ?thesis
      proof cases
        case 1
        with unlock True show ?thesis by simp
      next
        case 2
        have "awaits c' (\<lambda>x. x = Thread t)"
          by (rule awaits_keep [OF 2, of c' t "resume k"])
            (use unlock in \<open>auto simp: cmtx_set_box resume_same [of k b]\<close>)
        with True show ?thesis by simp
      qed
    qed (use u True in \<open>auto split: if_splits job.splits\<close>)
  qed
qed

lemma inv_grantedD:
  assumes "inv_granted c"
  shows "k \<in> set (granted c) \<Longrightarrow> k \<in> set (fired c) \<or> awaits c (\<lambda>x. \<exists>n. x = Waker k True n)"
    and "(f, k) \<in> set (held c) \<Longrightarrow> k \<in> set (fired c) \<or> awaits c (\<lambda>x. event_of x = Woken k)"
  using assms unfolding inv_granted_def by blast+

lemma owed_step:
  assumes "cinv c" and "advance t c = Some (Inr c')" and owed: "k \<in> set (fired c) \<or> awaits c P"
    and P: "P = (\<lambda>x. \<exists>n. x = Waker k True n) \<or> P = (\<lambda>x. event_of x = Woken k) \<and> (\<exists>f. (f, k) \<in> set (held c'))"
  shows "k \<in> set (fired c') \<or> awaits c' P"
proof (cases "k \<in> set (fired c)")
  case True
  then show ?thesis using fired_step(1) [OF cinvD(2) [OF assms(1)] assms(2)] by blast
next
  case False
  with owed have aw: "awaits c P" by blast
  have "awaits c' P \<or> (\<exists>w ws. pcs c t = PNotify (w # ws) \<and> P w)"
    by (rule awaits_step [OF assms(1,2) aw]) (use P in blast)
  then show ?thesis
  proof
    assume "\<exists>w ws. pcs c t = PNotify (w # ws) \<and> P w"
    then obtain w ws where w: "pcs c t = PNotify (w # ws)" "P w" by blast
    then have "event_of w = Woken k" using P by auto
    then obtain p n where "w = Waker k p n" by (cases w) auto
    with w fired_step(2) [OF cinvD(2) [OF assms(1)] assms(2)] show ?thesis by blast
  qed simp
qed

lemma inv_granted_step:
  assumes "cinv c" and "advance t c = Some (Inr c')"
  shows "inv_granted c'"
  unfolding inv_granted_def
proof (intro conjI ballI allI impI)
  note inv = cinvD(2,8) [OF assms(1)]
  have reg: "distinct (wakers_of (queue (cmtx c')))"
    using inv_queueD(1) [OF inv_queue_step [OF assms]] by (simp add: registry_ok_def)
  fix k assume k: "k \<in> set (granted c')"
  show "k \<in> set (fired c') \<or> awaits c' (\<lambda>x. \<exists>n. x = Waker k True n)"
  proof (cases "k \<in> set (granted c)")
    case True
    then show ?thesis by (intro owed_step [OF assms inv_grantedD(1) [OF inv(2)]]) simp_all
  next
    case False
    from inv(1) assms(2) show ?thesis
    proof (cases rule: advance_cases)
      case (register k' b)
      then have "direct k (queue (cmtx c'))"
        using k False by (simp add: cmtx_def direct_registered_simps(2))
      then obtain n where "Waker k True n \<in> set (queue (cmtx c'))" using direct_iff [OF reg] by blast
      then have "awaits c' (\<lambda>x. \<exists>n. x = Waker k True n)"
        by (rule awaits_queue) (use register in auto)
      then show ?thesis ..
    qed (use k False in \<open>auto split: if_splits job.splits\<close>)
  qed
next
  note inv = cinvD(2,8) [OF assms(1)]
  fix f k assume k: "(f, k) \<in> set (held c')"
  show "k \<in> set (fired c') \<or> awaits c' (\<lambda>x. event_of x = Woken k)"
  proof (cases "(f, k) \<in> set (held c)")
    case True
    with k show ?thesis by (intro owed_step [OF assms inv_grantedD(2) [OF inv(2)]]) auto
  next
    case False
    from inv(1) assms(2) show ?thesis
    proof (cases rule: advance_cases)
      case (poll_register f' k' b ws)
      have "k' \<in> set (wakers_of (queue (cmtx c')))"
        using poll_register future_registered_Ret(4) [OF poll_register(4)] by (simp add: cmtx_def)
      moreover have "k' = k" using k False poll_register(5) by simp
      ultimately obtain p n where "Waker k p n \<in> set (queue (cmtx c'))" by (auto simp: set_wakers_of)
      then have "awaits c' (\<lambda>x. event_of x = Woken k)"
        by (rule awaits_queue) (use poll_register in simp_all)
      then show ?thesis ..
    qed (use k False in \<open>auto split: if_splits job.splits\<close>)
  qed
qed

subsection \<open>The other steps\<close>

lemma advance_inv: "cinv c \<Longrightarrow> advance t c = Some (Inr c') \<Longrightarrow> cinv c'"
  unfolding cinv_def [of c']
  by (intro conjI inv_word_step inv_boxes_step inv_lock_step inv_publisher_step inv_read_step
      inv_waiter_step inv_wake_step inv_granted_step inv_queue_step inv_futures_step)

text \<open>A thread that holds nothing and owes nothing.\<close>

definition idle_pc :: "'o pc \<Rightarrow> bool" where
  "idle_pc p \<longleftrightarrow> \<not> holding p \<and> \<not> publishing p \<and> (\<forall>g n. p \<noteq> PInit g n) \<and> to_notify p = []"

lemma resting_idle: "resting p \<Longrightarrow> idle_pc p"
  by (cases p) (auto simp: idle_pc_def publishing_iff)

lemma resting_quiet: "resting p \<Longrightarrow> enrolling p = None"
  by (cases p) auto

lemma wake_goto:
  assumes inv: "cinv c" and from_: "idle_pc (pcs c t)" and to: "to_notify p = []" "\<not> drains p"
    "\<not> parking p" "\<And>j b. p \<noteq> PRecheck j b"
    and c': "pcs c' = (pcs c)(t := p)" "cmtx c' = cmtx c" "cbits c' = cbits c" "tokens c' = tokens c"
      "granted c' = granted c" "fired c' = fired c" "held c' = held c"
  shows "inv_wake c' \<and> inv_granted c'"
proof -
  have aw: "awaits c' P" if "awaits c P" for P
    by (rule awaits_keep [OF that c'(1)])
      (use from_ to(1,2) c' in \<open>auto simp: idle_pc_def publishing_iff\<close>)
  have "inv_wake c'"
    unfolding inv_wake_def
  proof (intro conjI allI impI)
    show "Thread u \<in> set (queue (cmtx c'))" if "pcs c' u = PRecheck (Await timed) b" for u timed b
      using that to(4) c'(1,2) inv_wakeD(1) [OF cinvD(7) [OF inv], of u] by (auto split: if_splits)
    show "tokens c' u \<or> awaits c' (\<lambda>x. x = Thread u)" if "parking (pcs c' u)" for u
      using that to(3) c'(1,4) inv_wakeD(2) [OF cinvD(7) [OF inv], of u] aw by (auto split: if_splits)
  qed
  moreover have "inv_granted c'"
    using cinvD(8) [OF inv] aw c'(5-7) unfolding inv_granted_def by auto
  ultimately show ?thesis ..
qed

lemma cinv_goto:
  assumes inv: "cinv c" and from_: "idle_pc (pcs c t)" and to: "idle_pc p" "box_of p = None" "\<not> reading p"
    "holds_result p = None" "\<not> enrolled p" "\<not> parking p" "\<And>j b. p \<noteq> PRecheck j b"
    "wants p = None" "enrolling p = None" "enrolling (pcs c t) = None"
    and free: "\<And>f. future_of p = Some f \<Longrightarrow> \<forall>u. future_of (pcs c u) \<noteq> Some f"
  shows "cinv (goto t p c)"
proof -
  note i = cinvD [OF inv]
  let ?c = "goto t p c"
  have keep: "inv_word ?c" using i(1) by (simp add: inv_word_def)
  have "inv_boxes ?c"
    by (rule inv_boxes_keep [OF i(2), of _ t p]) (use from_ to in \<open>auto simp: idle_pc_def\<close>)
  moreover have "inv_lock ?c"
    by (rule inv_lock_keep [OF i(3), of _ t p]) (use from_ to in \<open>auto simp: idle_pc_def\<close>)
  moreover have "inv_publisher ?c"
    by (rule inv_publisher_keep [OF i(4), of _ t p]) (use to in \<open>auto simp: idle_pc_def publishing_iff\<close>)
  moreover have "inv_read ?c"
    by (rule inv_read_keep [OF i(5), of _ t p]) (use to in auto)
  moreover have "inv_waiter ?c"
    by (rule inv_waiter_keep [OF i(6), of _ t p]) (use to inv_waiterD(2) [OF i(6)] in auto)
  moreover have "inv_wake ?c \<and> inv_granted ?c"
    by (rule wake_goto [OF inv from_, of p]) (use to in \<open>auto simp: idle_pc_def publishing_iff\<close>)
  moreover have "inv_queue ?c" by (rule inv_queue_keep [OF i(9)]) simp_all
  moreover have "inv_futures ?c"
    by (rule inv_futures_keep [OF i(10), of _ t p]) (use to free in auto)
  ultimately show ?thesis using keep unfolding cinv_def by blast
qed

lemma cinv_store:
  assumes inv: "cinv c" and rest: "resting (pcs c t)" and pub: "publisher c = Some t"
  shows "cinv (goto t (PStore v) (c\<lparr>publisher := None\<rparr>))"
proof -
  note i = cinvD [OF inv]
  let ?p = "PStore v" and ?c = "goto t (PStore v) (c\<lparr>publisher := None\<rparr>)"
  have from_: "idle_pc (pcs c t)" using rest by (rule resting_idle)
  have none: "\<not> publishing (pcs c u)" for u using inv_publisherD(2) [OF i(4), of u] pub by auto
  have parts: "\<not> storing (pcs c u)" "pcs c u \<noteq> PPublish" "\<not> drains (pcs c u)" "\<not> notifying (pcs c u)" for u
    using none [of u] by (simp_all add: publishing_iff)
  have cell: "ocell c = None" using inv_publisherD(3) [OF i(4)] pub by simp
  have "inv_word ?c" using i(1) by (simp add: inv_word_def)
  moreover have "inv_boxes ?c"
    by (rule inv_boxes_keep [OF i(2), of _ t ?p]) (use from_ in \<open>auto simp: idle_pc_def\<close>)
  moreover have "inv_lock ?c"
    by (rule inv_lock_keep [OF i(3), of _ t ?p]) (use from_ in \<open>auto simp: idle_pc_def\<close>)
  moreover have "inv_publisher ?c"
    using none parts cell by (auto simp: inv_publisher_def)
  moreover have "inv_read ?c"
    by (rule inv_read_keep [OF i(5), of _ t ?p]) auto
  moreover have "inv_waiter ?c"
    by (rule inv_waiter_keep [OF i(6), of _ t ?p]) (use inv_waiterD(2) [OF i(6)] in auto)
  moreover have "inv_wake ?c \<and> inv_granted ?c"
    by (rule wake_goto [OF inv from_, of ?p]) auto
  moreover have "inv_queue ?c" by (rule inv_queue_keep [OF i(9)]) simp_all
  moreover have "inv_futures ?c"
    by (rule inv_futures_keep [OF i(10), of _ t ?p]) (simp_all add: resting_quiet [OF rest])
  ultimately show ?thesis unfolding cinv_def by blast
qed

text \<open>Whether a future is alive plays no part in the invariant.\<close>

lemma cinv_alive [simp]: "cinv (c\<lparr>alive := a\<rparr>) = cinv c"
  by (simp add: cinv_def inv_word_def inv_boxes_def inv_lock_def inv_publisher_def inv_read_def inv_waiter_def
      inv_wake_def inv_granted_def inv_queue_def inv_futures_def awaits_def draining_def holders_of_def)

lemma cstep_inv: "cstep c c' \<Longrightarrow> cinv c \<Longrightarrow> cinv c'"
proof (induction rule: cstep.induct)
  case (access t c c')
  then show ?case using advance_inv by blast
next
  case (call_get c t)
  note rest = call_get(1)
  show ?case
    by (rule cinv_goto [OF call_get(2) resting_idle [OF rest]]) (simp_all add: idle_pc_def resting_quiet [OF rest])
next
  case (call_wait c t timed)
  note rest = call_wait(1)
  show ?case
    by (rule cinv_goto [OF call_wait(2) resting_idle [OF rest]]) (simp_all add: idle_pc_def resting_quiet [OF rest])
next
  case (call_register c t w)
  note rest = call_register(1)
  show ?case
    by (rule cinv_goto [OF call_register(2) resting_idle [OF rest]]) (simp_all add: idle_pc_def resting_quiet [OF rest])
next
  case (call_poll c t f w)
  note rest = call_poll(1)
  show ?case
    by (rule cinv_goto [OF call_poll(3) resting_idle [OF rest]])
      (use call_poll(2) in \<open>simp_all add: idle_pc_def resting_quiet [OF rest] owns_future_def\<close>)
next
  case (call_drop c t f)
  note rest = call_drop(1)
  let ?p = "if fwakers c f = [] then PReturned Cancelled else PRegistry (Cancel f)"
  have "cinv (goto t ?p (c\<lparr>alive := (alive c)(f := False)\<rparr>))"
    by (rule cinv_goto)
      (use call_drop(2,3) resting_idle [OF rest] in \<open>auto simp: idle_pc_def resting_quiet [OF rest] owns_future_def split: if_splits\<close>)
  then show ?case .
next
  case (call_complete c t v)
  show ?case by (rule cinv_store [OF call_complete(3,1,2)])
next
  case (spurious c t timed)
  show ?case by (rule cinv_goto [OF spurious(2)]) (simp_all add: idle_pc_def spurious(1))
next
  case (deadline c t)
  show ?case by (rule cinv_goto [OF deadline(2)]) (simp_all add: idle_pc_def deadline(1))
qed

lemma creach_inv: "creach p c \<Longrightarrow> cinv c"
  by (induction rule: creach.induct) (auto intro: conc_new_inv cstep_inv)

end
