(* ===== verification/Protocol_Guarantees.thy ===== *)
theory Protocol_Guarantees
  imports Protocol_Invariant
begin

section \<open>What the protocol guarantees under every interleaving\<close>

text \<open>
  The properties of \<open>Protocol\<close>: every access is defined, every observer sees the same outcome,
  the registry is created once, nobody sleeps through a publication, and after a publication the
  threads come to rest.  All of them follow from the invariant of \<open>Protocol_Invariant\<close>; the runs
  of the witnesses are given by the list of threads that access the slot.
\<close>

fun crun :: "thread_id list \<Rightarrow> 'o conc \<Rightarrow> 'o conc option" where
  "crun [] c = Some c"
| "crun (t # ts) c = (case advance t c of Some (Inr c') \<Rightarrow> crun ts c' | _ \<Rightarrow> None)"

lemma crun_reach: "creach p c \<Longrightarrow> crun ts c = Some c' \<Longrightarrow> creach p c'"
proof (induction ts arbitrary: c)
  case (Cons t ts)
  from Cons.prems(2) obtain c1 where "advance t c = Some (Inr c1)" "crun ts c1 = Some c'"
    by (auto split: option.splits sum.splits)
  with Cons show ?case by (meson cmore cstep.access)
qed simp

lemma crun_the: "creach p c \<Longrightarrow> crun ts c \<noteq> None \<Longrightarrow> creach p (the (crun ts c))"
  by (auto intro: crun_reach)

lemma conc_new_reach: "creach p (conc_new p)"
  using cstart [of p "\<lambda>_. False"] by (simp add: conc_new_def)

text \<open>Thread 1 is about to publish 5, thread 2 is about to wait.\<close>

definition two_threads :: "nat conc" where
  "two_threads = goto 1 (PStore 5) (goto 2 (PLoad (Await False)) (conc_new 1)\<lparr>publisher := None\<rparr>)"

lemma two_threads_reach: "creach 1 two_threads"
proof -
  have "creach 1 (goto 2 (PLoad (Await False)) (conc_new 1 :: nat conc))" (is "creach 1 ?c")
    by (rule cmore [OF conc_new_reach cstep.call_wait]) (simp add: conc_new_def)
  moreover have "cstep ?c (goto 1 (PStore 5) (?c\<lparr>publisher := None\<rparr>))"
    by (rule cstep.call_complete) (simp_all add: conc_new_def)
  ultimately show ?thesis unfolding two_threads_def by (rule cmore)
qed

definition after :: "thread_id list \<Rightarrow> nat conc" where
  "after ts = the (crun ts two_threads)"

lemma after_reach: "crun ts two_threads \<noteq> None \<Longrightarrow> creach 1 (after ts)"
  unfolding after_def by (rule crun_the [OF two_threads_reach])

subsection \<open>Safety\<close>

lemma no_fault:
  assumes inv: "cinv c"
  shows "advance t c \<noteq> Some (Inl f)"
proof (cases "pcs c t")
  case PRead
  with inv_readD(1) [OF cinvD(5) [OF inv], of t] cinvD(1) [OF inv] show ?thesis
    by (auto simp: advance_def inv_word_def)
next
  case (PReadLocked b)
  with inv_readD(1) [OF cinvD(5) [OF inv], of t] cinvD(1) [OF inv] show ?thesis
    by (auto simp: advance_def inv_word_def)
next
  case PPublish
  with inv_publisherD(5) [OF cinvD(4) [OF inv], of t] show ?thesis
    by (simp add: advance_def Let_def slot_bits)
next
  case (PNotify ws)
  then show ?thesis by (cases ws) (simp_all add: advance_def)
next
  case (PLock g b)
  with boxed(2) [OF cinvD(2) [OF inv], of t] show ?thesis by (simp add: advance_def on_box_def)
next
  case (PInside g b)
  have box: "boxes c b = Some (cmtx c)" by (rule boxed(2) [OF cinvD(2) [OF inv], of t]) (simp add: PInside)
  show ?thesis
  proof (cases g)
    case (Enter j)
    with PInside box show ?thesis by (cases j) (simp_all add: advance_def on_box_def)
  next
    case (Cancel h)
    obtain ws where "cancel (fwakers c h) (queue (cmtx c)) = Inr ws"
      by (rule cancel_defined [OF cinvD(9,10) [OF inv]])
    with PInside box Cancel show ?thesis by (simp add: advance_def on_box_def)
  qed (use PInside box in \<open>simp_all add: advance_def on_box_def\<close>)
next
  case (PRecheck j b)
  with boxed(2) [OF cinvD(2) [OF inv], of t] show ?thesis by (simp add: advance_def on_box_def)
next
  case (PUnlock b k)
  with boxed(2) [OF cinvD(2) [OF inv], of t] show ?thesis by (simp add: advance_def on_box_def)
qed (simp_all add: advance_def)

text \<open>
  C5: under every interleaving each access to shared memory is defined: no thread dereferences a
  registry that was freed, reads an outcome that was not written, publishes twice, or counts the
  owners of a registered waker below zero when it drops a future; while a thread reads the outcome
  cell the cell is written and nobody is writing it (no data race on the unsynchronised cell).
\<close>
theorem protocol_accesses_defined:
  assumes "creach p c"
  shows "advance t c \<noteq> Some (Inl f) \<and>
    (reading (pcs c t) \<longrightarrow> ocell c \<noteq> None \<and> (\<forall>u. \<not> storing (pcs c u)))"
proof -
  note inv = creach_inv [OF assms]
  have "ocell c \<noteq> None" if "reading (pcs c t)"
    using inv_readD(1) [OF cinvD(5) [OF inv] that] cinvD(1) [OF inv] by (simp add: inv_word_def)
  moreover have "\<not> storing (pcs c u)" if "ocell c \<noteq> None" for u
    using inv_publisherD(4) [OF cinvD(4) [OF inv], of u] that by blast
  ultimately show ?thesis using no_fault [OF inv, of t f] by blast
qed

theorem protocol_accesses_defined_witness:
  "\<exists>c. creach 1 c \<and> pcs c 2 = PRead \<and> ocell c = Some (5::nat) \<and> advance 2 c \<noteq> Some (Inl UninitRead)"
proof -
  have r: "creach 1 (after [1, 1, 2])" by (rule after_reach) code_simp
  have "pcs (after [1, 1, 2]) 2 = PRead" "ocell (after [1, 1, 2]) = Some 5" by code_simp+
  with r protocol_accesses_defined [OF r, of 2 UninitRead] show ?thesis by blast
qed

text \<open>
  C12: any two threads that obtained an outcome obtained the same one, the published one, and a
  thread that is about to return it (it may still hold the registry lock) has it already.
\<close>
theorem observers_agree:
  assumes "creach p c" and "holds_result (pcs c t) = Some v" and "holds_result (pcs c u) = Some w"
  shows "v = w \<and> ocell c = Some v \<and> done_bit c"
  using inv_readD(2) [OF cinvD(5) [OF creach_inv [OF assms(1)]]] assms(2,3)
  by (metis option.inject)

theorem observers_agree_witness:
  "\<exists>c. creach 1 c \<and> pcs c 2 = PReturned (Got 5) \<and> (\<exists>v. ocell c = Some v \<and> v = (5::nat) \<and> done_bit c)"
proof -
  have r: "creach 1 (after [1, 1, 2, 2])" by (rule after_reach) code_simp
  have p: "pcs (after [1, 1, 2, 2]) 2 = PReturned (Got 5)" by code_simp
  then have "holds_result (pcs (after [1, 1, 2, 2]) 2) = Some 5" by simp
  from observers_agree [OF r this this] r p show ?thesis by blast
qed

text \<open>
  C13: all threads that use the registry use the same live allocation; a thread that loses the
  race to create it frees its own box only, every other box has been freed, and at most one
  thread is inside the mutex.
\<close>
theorem registry_created_once:
  assumes "creach p c"
  shows "(box_of (pcs c t) = Some b \<longrightarrow> regp c = Some b \<and> boxes c b \<noteq> None) \<and>
    (boxes c b \<noteq> None \<longrightarrow> regp c = Some b \<or> (\<exists>u g. pcs c u = PInit g b)) \<and>
    (holding (pcs c t) \<longrightarrow> holding (pcs c u) \<longrightarrow> t = u)"
proof -
  note inv = creach_inv [OF assms]
  have "t = u" if "holding (pcs c t)" "holding (pcs c u)"
    using that inv_lockD [OF cinvD(3) [OF inv]] by (metis option.inject)
  moreover have "regp c = Some b \<and> boxes c b \<noteq> None" if "box_of (pcs c t) = Some b"
    using boxed [OF cinvD(2) [OF inv] that] by simp
  ultimately show ?thesis using inv_boxesD(3) [OF cinvD(2) [OF inv]] by blast
qed

theorem registry_created_once_witness:
  "\<exists>c. creach 1 c \<and> pcs c 1 = PLock Drain 0 \<and> pcs c 2 = PInit (Enter (Await False)) 1 \<and>
     regp c = Some 0 \<and> boxes c 0 \<noteq> (None :: mtx option) \<and> ocell c = Some (5::nat)"
proof -
  let ?ts = "[2, 2, 1, 1, 1, 2, 1]"
  have r: "creach 1 (after ?ts)" by (rule after_reach) code_simp
  have "pcs (after ?ts) 1 = PLock Drain 0" "pcs (after ?ts) 2 = PInit (Enter (Await False)) 1"
    "ocell (after ?ts) = Some 5" by code_simp+
  with r registry_created_once [OF r, of 1 0] show ?thesis by auto
qed

subsection \<open>The registrations of futures\<close>

lemma pending_holders:
  assumes "cinv c" and "\<not> done_bit c"
  shows "{f. (f, w) \<in> set (held c)} = {f. w \<in> set (fwakers c f) \<or> (\<exists>t. enrolling (pcs c t) = Some (f, w))}"
  using inv_futuresD(3,4,6) [OF cinvD(10) [OF assms(1)]] assms(2) by blast

text \<open>
  C6: until the publication the registry is exact under every interleaving: there is at most one
  entry for a waker, it counts the futures that own it (those that have it in their list, and the
  one whose \<open>poll\<close> is about to add it), it is marked persistent only if it was registered directly,
  and there is an entry only if there is such an owner.  So a dropped future leaves nothing behind
  and takes nothing from a sibling that shares its waker.
\<close>
theorem registry_counts_the_futures:
  assumes "creach p c" and "\<not> done_bit c"
  shows "owners w (queue (cmtx c)) = card {f. w \<in> set (fwakers c f) \<or> (\<exists>t. enrolling (pcs c t) = Some (f, w))} \<and>
    (direct w (queue (cmtx c)) \<longrightarrow> w \<in> set (granted c)) \<and> distinct (wakers_of (queue (cmtx c))) \<and>
    (w \<in> set (wakers_of (queue (cmtx c))) \<longleftrightarrow> owners w (queue (cmtx c)) > 0 \<or> direct w (queue (cmtx c)))"
proof -
  note inv = creach_inv [OF assms(1)]
  note q = inv_queueD [OF cinvD(9) [OF inv]]
  have "owners w (queue (cmtx c)) = card {f. w \<in> set (fwakers c f) \<or> (\<exists>t. enrolling (pcs c t) = Some (f, w))}"
    using q(3) [OF assms(2), of w] holders_card [OF inv_futuresD(1) [OF cinvD(10) [OF inv]], of w]
    by (simp only: pending_holders [OF inv assms(2)])
  moreover have "w \<in> set (wakers_of (queue (cmtx c))) \<longleftrightarrow> owners w (queue (cmtx c)) > 0 \<or> direct w (queue (cmtx c))"
    using q(1) by (intro live_registered) (simp add: registry_ok_def)
  ultimately show ?thesis using q(1,2) by (simp add: registry_ok_def)
qed

text \<open>
  Threads 2 and 3 poll the futures 0 and 1 of one task, so with one waker; then thread 3 drops
  future 1.
\<close>

definition two_futures :: "nat conc" where
  "two_futures = goto 3 (PPoll 1 waker_a) (goto 2 (PPoll 0 waker_a) (conc_new 1))"

definition both_polled :: "nat conc" where
  "both_polled = the (crun (replicate 10 2 @ replicate 9 3) two_futures)"

definition sibling_dropped :: "nat conc" where
  "sibling_dropped = the (crun [3, 3, 3, 3]
     (goto 3 (PRegistry (Cancel 1)) (both_polled\<lparr>alive := (alive both_polled)(1 := False)\<rparr>)))"

lemma two_futures_reach: "creach 1 two_futures"
proof -
  let ?c = "goto 2 (PPoll 0 waker_a) (conc_new 1) :: nat conc"
  have "creach 1 ?c"
    by (rule cmore [OF conc_new_reach cstep.call_poll]) (simp_all add: conc_new_def owns_future_def)
  moreover have "cstep ?c (goto 3 (PPoll 1 waker_a) ?c)"
    by (rule cstep.call_poll) (simp_all add: conc_new_def owns_future_def)
  ultimately show ?thesis unfolding two_futures_def by (rule cmore)
qed

lemma both_polled_facts:
  "crun (replicate 10 2 @ replicate 9 3) two_futures \<noteq> None"
  "pcs both_polled 2 = PReturned Unresolved" "pcs both_polled 3 = PReturned Unresolved"
  "fwakers both_polled 1 = [waker_a]" "alive both_polled 1" "pcs both_polled 0 = PIdle"
  by code_simp+

lemma both_polled_reach: "creach 1 both_polled"
  unfolding both_polled_def by (rule crun_the [OF two_futures_reach both_polled_facts(1)])

lemma crun_pcs: "crun ts c = Some c' \<Longrightarrow> creach p c \<Longrightarrow> u \<notin> set ts \<Longrightarrow> pcs c' u = pcs c u"
proof (induction ts arbitrary: c)
  case (Cons t ts)
  from Cons.prems(1) obtain d where d: "advance t c = Some (Inr d)" "crun ts d = Some c'"
    by (auto split: option.splits sum.splits)
  have "creach p d" using Cons.prems(2) cstep.access [OF d(1)] by (rule cmore)
  with Cons.IH [OF d(2)] Cons.prems(3) advance_pcs [OF cinvD(2) [OF creach_inv [OF Cons.prems(2)]] d(1), of u]
  show ?case by simp
qed simp

lemma sibling_dropped_reach: "creach 1 sibling_dropped"
proof -
  have same: "pcs both_polled u = pcs two_futures u" if "u \<noteq> 2" "u \<noteq> 3" for u
    by (rule crun_pcs [OF _ two_futures_reach, of "replicate 10 2 @ replicate 9 3"])
      (use that both_polled_facts(1) in \<open>auto simp: both_polled_def\<close>)
  have "future_of (pcs both_polled u) \<noteq> Some 1" for u
    using same [of u] both_polled_facts(2,3) by (cases "u = 2 \<or> u = 3") (auto simp: two_futures_def conc_new_def)
  then have "cstep both_polled (goto 3 (PRegistry (Cancel 1)) (both_polled\<lparr>alive := (alive both_polled)(1 := False)\<rparr>))"
    using cstep.call_drop [of both_polled 3 1] both_polled_facts(3-5) by (simp add: owns_future_def)
  with both_polled_reach have "creach 1 (goto 3 (PRegistry (Cancel 1)) (both_polled\<lparr>alive := (alive both_polled)(1 := False)\<rparr>))"
    by (rule cmore)
  moreover have "crun [3, 3, 3, 3] (goto 3 (PRegistry (Cancel 1)) (both_polled\<lparr>alive := (alive both_polled)(1 := False)\<rparr>)) \<noteq> None"
    by code_simp
  ultimately show ?thesis unfolding sibling_dropped_def by (rule crun_the)
qed

lemma sibling_dropped_facts:
  "\<not> done_bit sibling_dropped" "queue (cmtx sibling_dropped) = [Waker waker_a False 1]"
  "fwakers sibling_dropped 0 = [waker_a]" "fwakers sibling_dropped 1 = []" "pcs sibling_dropped 3 = PReturned Cancelled"
  by code_simp+

theorem registry_counts_the_futures_witness:
  "\<exists>c. creach 1 c \<and> pcs c 3 = PReturned Cancelled \<and> fwakers c 0 = [waker_a] \<and> fwakers c 1 = [] \<and>
     queue (cmtx c) = [Waker waker_a False 1] \<and>
     card {f. waker_a \<in> set (fwakers c f) \<or> (\<exists>t. enrolling (pcs c t :: nat pc) = Some (f, waker_a))} = 1"
  using registry_counts_the_futures [OF sibling_dropped_reach sibling_dropped_facts(1), of waker_a]
    sibling_dropped_reach sibling_dropped_facts by (auto intro!: exI [of _ sibling_dropped])

end
