(* ===== verification/Protocol_Progress.thy ===== *)
theory Protocol_Progress
  imports Protocol_Guarantees
begin

section \<open>Progress after a publication\<close>

text \<open>
  Once the completion bit is set, the accesses that are still to come are bounded by a measure on
  the program counters and the registry (\<open>work\<close>), some thread can always move until all of them
  rest, and then every blocked \<open>wait\<close> has returned the outcome and every waker whose registration
  was accepted has been woken.  \<open>progress\<close> is the part of \<open>cstep\<close> without new calls: accesses,
  spurious wake-ups and expired deadlines.
\<close>

inductive progress :: "'o conc \<Rightarrow> 'o conc \<Rightarrow> bool" where
  moves: "advance t c = Some (Inr c') \<Longrightarrow> progress c c'"
| wakes_up: "pcs c t = PPark timed \<Longrightarrow> progress c (goto t (PLoad (Await timed)) c)"
| times_out: "pcs c t = PPark True \<Longrightarrow> progress c (goto t (PRegistry Expire) c)"

inductive_cases progressE: "progress c c'"

fun_cases restingE: "resting p"

lemma progress_step: "progress c c' \<Longrightarrow> cstep c c'"
  by (induction rule: progress.induct) (auto intro: cstep.intros)

subsection \<open>The measure\<close>

fun goal_weight :: "goal \<Rightarrow> nat" where
  "goal_weight (Enter j) = 6"
| "goal_weight Expire = 2"
| "goal_weight Drain = 3"
| "goal_weight (Cancel f) = 2"

fun cont_weight :: "'o cont \<Rightarrow> nat" where
  "cont_weight (Parks timed) = 6"
| "cont_weight (Returns r) = 0"
| "cont_weight (Notifies ws) = Suc (length ws)"
| "cont_weight (Repolls f w) = 2"

fun weight :: "'o pc \<Rightarrow> nat" where
  "weight PGet = 2"
| "weight (PLoad j) = 3"
| "weight PRead = 1"
| "weight (PSetWaiter j) = 10"
| "weight (PRegistry g) = goal_weight g + 3"
| "weight (PInit g n) = goal_weight g + 2"
| "weight (PLock g b) = goal_weight g + 1"
| "weight (PInside g b) = goal_weight g"
| "weight (PRecheck j b) = 4"
| "weight (PReadLocked b) = 2"
| "weight (PUnlock b k) = Suc (cont_weight k)"
| "weight (PPark timed) = 6"
| "weight (PPoll f w) = 2"
| "weight (PAgain f w k) = 2"
| "weight (PNotify ws) = Suc (length ws)"
| "weight _ = 0"

definition active :: "'o conc \<Rightarrow> thread_id set" where
  "active c = {t. pcs c t \<noteq> PIdle}"

definition work :: "'o conc \<Rightarrow> nat" where
  "work c = (\<Sum>t\<in>active c. weight (pcs c t)) + length (queue (cmtx c))"

lemma weight_resume: "weight (resume k) = cont_weight k"
  by (cases k) simp_all

lemma advance_pc:
  assumes "inv_boxes c" and "advance t c = Some (Inr c')"
  shows "pcs c' = (pcs c)(t := pcs c' t)" and "pcs c t \<noteq> PIdle"
  using advance_pcs [OF assms] assms(2) by (auto simp: advance_def)

lemma goto_pcs:
  assumes "c' = goto t q d" and "pcs d = pcs c"
  shows "\<exists>t q. pcs c' = (pcs c)(t := q)"
proof -
  have "pcs c' = (pcs c)(t := q)" using assms by simp
  then show ?thesis by blast
qed

lemma finite_active: "creach p c \<Longrightarrow> finite (active c)"
proof (induction rule: creach.induct)
  case cstart
  show ?case by (simp add: active_def conc_new_def)
next
  case (cmore c c')
  have "\<exists>t q. pcs c' = (pcs c)(t := q)"
    using cmore.hyps(2)
  proof cases
    case (access t)
    show ?thesis using advance_pc(1) [OF cinvD(2) [OF creach_inv [OF cmore.hyps(1)]] access] by blast
  qed (rule goto_pcs, assumption, simp)+
  then obtain t q where "pcs c' = (pcs c)(t := q)" by blast
  then have "active c' \<subseteq> insert t (active c)" by (auto simp: active_def)
  then show ?case using cmore.IH finite_subset by blast
qed

lemma work_less:
  assumes "finite (active c)" and pcs: "pcs c' = (pcs c)(t := p)" and "pcs c t \<noteq> PIdle" "p \<noteq> PIdle"
    and less: "weight p + length (queue (cmtx c')) < weight (pcs c t) + length (queue (cmtx c))"
  shows "work c' < work c"
proof -
  have t: "t \<in> active c" and same: "active c' = active c" using assms(3,4) pcs by (auto simp: active_def)
  have "(\<Sum>u\<in>active c. weight (pcs c u)) = weight (pcs c t) + (\<Sum>u\<in>active c - {t}. weight (pcs c u))"
    using assms(1) t by (rule sum.remove)
  moreover have "(\<Sum>u\<in>active c. weight (pcs c' u)) = weight p + (\<Sum>u\<in>active c - {t}. weight (pcs c' u))"
    using sum.remove [OF assms(1) t, of "\<lambda>u. weight (pcs c' u)"] pcs by simp
  moreover have "(\<Sum>u\<in>active c - {t}. weight (pcs c' u)) = (\<Sum>u\<in>active c - {t}. weight (pcs c u))"
    by (rule sum.cong) (simp_all add: pcs)
  ultimately show ?thesis using less by (simp add: work_def same)
qed

lemma push_length: "length (push_thread t ws) \<le> Suc (length ws)"
  by (simp add: push_thread_def)

lemma remove_length: "length (remove_thread t ws) \<le> length ws"
  by (simp add: remove_thread_def)

lemma cancel_length: "cancel mine ws = Inr ws' \<Longrightarrow> length ws' \<le> length ws"
proof (induction ws arbitrary: ws')
  case (Cons x ws)
  from Cons.prems obtain ws1 where "cancel mine ws = Inr ws1"
    by (cases x) (auto simp: Let_def split: sum.splits if_splits)
  with Cons.IH [OF this] Cons.prems show ?case by (cases x) (auto simp: Let_def split: if_splits)
qed simp

lemma advance_work:
  assumes inv: "cinv c" and fin: "finite (active c)" and bit: "done_bit c" and adv: "advance t c = Some (Inr c')"
  shows "work c' < work c"
proof -
  note less = work_less [OF fin advance_pc [OF cinvD(2) [OF inv] adv]]
  have cell: "ocell c \<noteq> None" using cinvD(1) [OF inv] bit by (simp add: inv_word_def)
  note none = inv_publisherD(4,5) [OF cinvD(4) [OF inv], of t]
  note len = push_length [of t "queue (cmtx c)"] remove_length [of t "queue (cmtx c)"]
  from cinvD(2) [OF inv] adv show ?thesis
  proof (cases rule: advance_cases)
    case (load j)
    then show ?thesis by (intro less) (use bit in \<open>simp_all split: job.split\<close>)
  next
    case (cancel f b ws)
    then show ?thesis by (intro less) (use cancel_length [OF cancel(3)] in \<open>simp_all add: cmtx_set_box\<close>)
  next
    case (lost g n b)
    then have "n \<noteq> b" using inv_boxesD(5) [OF cinvD(2) [OF inv], of t g n] by auto
    with lost show ?thesis by (intro less) (simp_all add: cmtx_def)
  next
    case (make g)
    then show ?thesis by (intro less) (simp_all add: cmtx_def)
  next
    case (won g n)
    then have "boxes c n = Some \<lparr>queue = [], owner = None\<rparr>"
      using inv_boxesD(4) [OF cinvD(2) [OF inv]] by blast
    with won show ?thesis by (intro less) (simp_all add: cmtx_def)
  next
    case (unlock b k)
    have "resume k \<noteq> PIdle" by (cases k) simp_all
    with unlock show ?thesis by (intro less) (simp_all add: weight_resume cmtx_set_box)
  qed (rule less; use bit cell none len in \<open>simp add: cmtx_set_box\<close>)+
qed


lemma progress_work:
  assumes inv: "cinv c" and fin: "finite (active c)" and bit: "done_bit c" and "progress c c'"
  shows "work c' < work c"
  using assms(4)
proof cases
  case (moves t)
  show ?thesis by (rule advance_work [OF inv fin bit moves])
next
  case (wakes_up t timed)
  then show ?thesis by (intro work_less [OF fin, of c' t "PLoad (Await timed)"]) simp_all
next
  case (times_out t)
  then show ?thesis by (intro work_less [OF fin, of c' t "PRegistry Expire"]) simp_all
qed

lemma done_step: "progress c c' \<Longrightarrow> cinv c \<Longrightarrow> done_bit c \<Longrightarrow> done_bit c' \<and> ocell c' = ocell c"
proof (induction rule: progress.induct)
  case (moves t c c')
  have cell: "ocell c \<noteq> None" using cinvD(1) [OF moves(2)] moves(3) by (simp add: inv_word_def)
  from cinvD(2) [OF moves(2)] moves(1) show ?case
    by (cases rule: advance_cases)
      (use cell inv_publisherD(4) [OF cinvD(4) [OF moves(2)], of t] moves(3) in \<open>auto simp: slot_bits\<close>)
qed simp_all

lemma progress_many:
  assumes "(progress ^^ n) c c'" and "creach p c" and "done_bit c"
  shows "creach p c' \<and> done_bit c' \<and> ocell c' = ocell c \<and> work c' + n \<le> work c"
  using assms
proof (induction n arbitrary: c')
  case (Suc n)
  then obtain d where d: "(progress ^^ n) c d" and last: "progress d c'" by auto
  from Suc.IH [OF d Suc.prems(2,3)] have ih: "creach p d" "done_bit d" "ocell d = ocell c" "work d + n \<le> work c"
    by simp_all
  have "creach p c'" using ih(1) progress_step [OF last] by (rule cmore)
  with ih done_step [OF last creach_inv [OF ih(1)] ih(2)]
    progress_work [OF creach_inv [OF ih(1)] finite_active [OF ih(1)] ih(2) last] show ?case by simp
qed simp

subsection \<open>No deadlock\<close>

text \<open>A thread that cannot move rests, waits for the mutex or is parked without a token.\<close>

lemma blockedD:
  assumes inv: "cinv c" and none: "advance t c = None"
  shows "resting (pcs c t) \<or> (\<exists>u. holding (pcs c u)) \<or> (\<exists>timed. pcs c t = PPark timed \<and> \<not> tokens c t)"
proof (cases "pcs c t")
  case (PLock g b)
  with none boxed [OF cinvD(2) [OF inv], of t b] have "owner (cmtx c) \<noteq> None"
    by (auto simp: advance_def on_box_def split: if_splits)
  with inv_lockD [OF cinvD(3) [OF inv]] show ?thesis by blast
next
  case (PNotify ws)
  with none show ?thesis by (cases ws) (simp_all add: advance_def)
qed (use none boxed(2) [OF cinvD(2) [OF inv], of t] in
    \<open>auto simp: advance_def on_box_def Let_def split: if_splits\<close>)

lemma holding_moves: "cinv c \<Longrightarrow> holding (pcs c u) \<Longrightarrow> advance u c \<noteq> None"
  using boxed(2) [of c u] cinvD(2) [of c] by (cases "pcs c u") (auto simp: advance_def on_box_def)

lemma deadlock_free:
  assumes inv: "cinv c" and bit: "done_bit c" and busy: "\<not> resting (pcs c t)"
  shows "\<exists>u. advance u c \<noteq> None"
proof (rule ccontr)
  assume stuck: "\<not> ?thesis"
  have none: "advance u c = None" for u using stuck by blast
  have free: "\<not> holding (pcs c u)" for u using holding_moves [OF inv] none by blast
  have parked: "resting (pcs c u) \<or> (\<exists>timed. pcs c u = PPark timed \<and> \<not> tokens c u)" for u
    using blockedD [OF inv none, of u] free by blast
  from parked [of t] busy have p: "parking (pcs c t)" and "\<not> tokens c t" by auto
  with inv_wakeD(2) [OF cinvD(7) [OF inv]] have "awaits c (\<lambda>x. x = Thread t)" by blast
  then obtain u where "to_notify (pcs c u) \<noteq> [] \<or> drains (pcs c u)"
    using bit by (cases rule: awaitsE) (fastforce simp: draining_def)+
  with parked [of u] show False by (auto elim: restingE)
qed

lemma can_move:
  assumes "cinv c" and "advance u c \<noteq> None"
  shows "\<exists>c'. progress c c'"
proof -
  obtain r where r: "advance u c = Some r" using assms(2) by blast
  show ?thesis
  proof (cases r)
    case (Inl f)
    with r no_fault [OF assms(1)] show ?thesis by blast
  next
    case (Inr c')
    with r show ?thesis by (blast intro: progress.moves)
  qed
qed

subsection \<open>Termination and delivery\<close>

lemma settles:
  assumes "creach p c" and "done_bit c"
  shows "\<exists>c'. progress\<^sup>*\<^sup>* c c' \<and> (\<forall>t. resting (pcs c' t))"
  using assms
proof (induction "work c" arbitrary: c rule: less_induct)
  case less
  note inv = creach_inv [OF less.prems(1)]
  show ?case
  proof (cases "\<forall>t. resting (pcs c t)")
    case False
    then obtain u where "advance u c \<noteq> None" using deadlock_free [OF inv less.prems(2)] by blast
    then obtain d where d: "progress c d" using can_move [OF inv] by blast
    have "work d < work c" by (rule progress_work [OF inv finite_active [OF less.prems(1)] less.prems(2) d])
    moreover have "creach p d" using less.prems(1) progress_step [OF d] by (rule cmore)
    moreover have "done_bit d" using done_step [OF d inv less.prems(2)] by blast
    ultimately obtain c' where "progress\<^sup>*\<^sup>* d c'" "\<forall>t. resting (pcs c' t)" using less.hyps by blast
    with d show ?thesis by (meson converse_rtranclp_into_rtranclp)
  qed blast
qed

text \<open>
  C4: once the outcome is published, the accesses still to come are bounded by the measure
  \<open>work\<close>, whatever the interleaving, spurious wake-ups and deadlines included, as long as no
  thread starts a new operation; and all operations can be run to their end.
\<close>
theorem publication_settles:
  assumes "creach p c" and "done_bit c"
  shows "(\<forall>n c'. (progress ^^ n) c c' \<longrightarrow> n \<le> work c) \<and>
    (\<exists>c'. progress\<^sup>*\<^sup>* c c' \<and> (\<forall>t. resting (pcs c' t)))"
proof -
  have "n \<le> work c" if "(progress ^^ n) c c'" for n c'
    using progress_many [OF that assms] by simp
  with settles [OF assms] show ?thesis by blast
qed

text \<open>Thread 2 is parked, thread 1 has just set the completion bit.\<close>

definition parked_reader :: "nat conc" where
  "parked_reader = after [2, 2, 2, 2, 2, 2, 2, 2, 1, 1]"

lemma parked_reader_reach: "creach 1 parked_reader"
  unfolding parked_reader_def by (rule after_reach) code_simp

lemma parked_reader_facts:
  "done_bit parked_reader" "pcs parked_reader 2 = PPark False" "\<not> tokens parked_reader 2"
  "ocell parked_reader = Some 5"
  by code_simp+

theorem publication_settles_witness:
  "\<exists>c. creach 1 c \<and> pcs c 2 = PPark False \<and> \<not> tokens c 2 \<and>
     (\<exists>c'. progress\<^sup>*\<^sup>* c c' \<and> (\<forall>t. resting (pcs c' t :: nat pc)))"
  using publication_settles [OF parked_reader_reach parked_reader_facts(1)]
    parked_reader_reach parked_reader_facts by blast

lemma at_rest:
  assumes "\<forall>t. resting (pcs c t)"
  shows "\<nexists>d. progress c d"
proof
  assume "\<exists>d. progress c d"
  then obtain d where "progress c d" by blast
  then show False
  proof cases
    case (moves t)
    with assms show False by (cases "pcs c t") (auto simp: advance_def dest: spec [of _ t])
  next
    case (wakes_up t j)
    then show False using spec [OF assms, of t] by simp
  next
    case (times_out t)
    then show False using spec [OF assms, of t] by simp
  qed
qed

text \<open>
  A thread inside \<open>wait\<close> or \<open>poll\<close>, or about to return an outcome: after a publication it will.
\<close>

fun goal_gets :: "goal \<Rightarrow> bool" where
  "goal_gets (Enter (Await timed)) = (\<not> timed)"
| "goal_gets (Enter (Polling f w)) = True"
| "goal_gets _ = False"

fun will_get :: "'o pc \<Rightarrow> bool" where
  "will_get (PLoad j) = goal_gets (Enter j)"
| "will_get PRead = True"
| "will_get (PSetWaiter j) = goal_gets (Enter j)"
| "will_get (PRegistry g) = goal_gets g"
| "will_get (PInit g n) = goal_gets g"
| "will_get (PLock g b) = goal_gets g"
| "will_get (PInside g b) = goal_gets g"
| "will_get (PRecheck j b) = goal_gets (Enter j)"
| "will_get (PReadLocked b) = True"
| "will_get (PUnlock b (Parks timed)) = (\<not> timed)"
| "will_get (PUnlock b (Repolls f w)) = True"
| "will_get (PUnlock b (Returns (Got v))) = True"
| "will_get (PPark timed) = (\<not> timed)"
| "will_get (PPoll f w) = True"
| "will_get (PAgain f w k) = True"
| "will_get (PReturned (Got v)) = True"
| "will_get _ = False"

lemma will_get_resume: "will_get (resume k) = will_get (PUnlock b k)"
proof (cases k)
  case (Returns r)
  then show ?thesis by (cases r) simp_all
qed simp_all

lemma will_get_step:
  assumes "progress c c'" and "cinv c" and "done_bit c" and "will_get (pcs c u)"
  shows "will_get (pcs c' u)"
  using assms(1)
proof cases
  case (moves t)
  note box = cinvD(2) [OF assms(2)]
  show ?thesis
  proof (cases "u = t")
    case False
    with advance_pcs [OF box moves] assms(4) show ?thesis by simp
  next
    case True
    from box moves show ?thesis
    proof (cases rule: advance_cases)
      case (unlock b k)
      then show ?thesis using assms(4) True will_get_resume [of k b] by simp
    qed (use assms(3,4) True in \<open>simp_all split: job.splits\<close>)
  qed
qed (use assms(4) in auto)

lemma will_get_many:
  "progress\<^sup>*\<^sup>* c c' \<Longrightarrow> creach p c \<Longrightarrow> done_bit c \<Longrightarrow> will_get (pcs c u) \<Longrightarrow> will_get (pcs c' u) \<and> creach p c' \<and> done_bit c'"
proof (induction rule: rtranclp_induct)
  case (step d e)
  then have d: "will_get (pcs d u)" "creach p d" "done_bit d" by simp_all
  note inv = creach_inv [OF d(2)]
  have "creach p e" using d(2) progress_step [OF step.hyps(2)] by (rule cmore)
  with will_get_step [OF step.hyps(2) inv d(3,1)] done_step [OF step.hyps(2) inv d(3)] show ?case by blast
qed simp

text \<open>
  C3: after a publication, when no thread can move any more, every thread has finished its
  operation; whoever was blocked in \<open>wait\<close> or inside \<open>poll\<close> has returned the published outcome;
  every waker whose direct registration answered \<open>false\<close> has been woken; and so has every waker
  with which a future was polled that is pending.  No notification is lost, however the
  registrations, cancellations, the completion bit and the drain were interleaved, and no future
  loses its wake-up to a sibling that is dropped.
\<close>
theorem publication_reaches_everyone:
  assumes "creach p c" and "done_bit c" and "progress\<^sup>*\<^sup>* c c'" and "\<nexists>d. progress c' d"
  shows "(\<forall>t. resting (pcs c' t)) \<and> set (granted c') \<subseteq> set (fired c') \<and>
    (\<forall>f. set (fwakers c' f) \<subseteq> set (fired c')) \<and>
    (\<forall>t. will_get (pcs c t) \<longrightarrow> (\<exists>v. pcs c' t = PReturned (Got v) \<and> ocell c = Some v))"
proof -
  from assms(3) obtain n where "(progress ^^ n) c c'" by (auto simp: rtranclp_power)
  from progress_many [OF this assms(1,2)] have reach: "creach p c'" and bit: "done_bit c'"
    and cell: "ocell c' = ocell c" by simp_all
  note inv = creach_inv [OF reach]
  have rest: "resting (pcs c' t)" for t
    using deadlock_free [OF inv bit] can_move [OF inv] assms(4) by blast
  have quiet: "\<not> awaits c' P" for P
  proof
    assume "awaits c' P"
    then show False
    proof (cases rule: awaitsE)
      case (1 u x)
      with rest [of u] show False by (cases "pcs c' u") auto
    next
      case (2 x)
      with bit obtain u where "drains (pcs c' u)" by (auto simp: draining_def)
      with rest [of u] show False by (cases "pcs c' u") auto
    qed
  qed
  have "set (granted c') \<subseteq> set (fired c')" using inv_grantedD(1) [OF cinvD(8) [OF inv]] quiet by blast
  moreover have "set (fwakers c' f) \<subseteq> set (fired c')" for f
    using inv_grantedD(2) [OF cinvD(8) [OF inv], of f] inv_futuresD(3) [OF cinvD(10) [OF inv], of _ f] quiet by blast
  moreover have "\<exists>v. pcs c' t = PReturned (Got v) \<and> ocell c = Some v" if "will_get (pcs c t)" for t
  proof -
    have "will_get (pcs c' t)" using will_get_many [OF assms(3,1,2) that] by simp
    with rest [of t] obtain v where v: "pcs c' t = PReturned (Got v)"
      by (cases "pcs c' t") (auto elim: will_get.elims)
    with inv_readD(2) [OF cinvD(5) [OF inv], of t v] cell show ?thesis by simp
  qed
  ultimately show ?thesis using rest by blast
qed

theorem publication_reaches_everyone_witness:
  "\<exists>c c'. creach 1 c \<and> pcs c 2 = PPark False \<and> progress\<^sup>*\<^sup>* c c' \<and>
     pcs c' 2 = PReturned (Got (5::nat))"
proof -
  from settles [OF parked_reader_reach parked_reader_facts(1)] obtain c' where
    c': "progress\<^sup>*\<^sup>* parked_reader c'" "\<forall>t. resting (pcs c' t)" by blast
  from publication_reaches_everyone [OF parked_reader_reach parked_reader_facts(1) c'(1) at_rest [OF c'(2)]]
  have "pcs c' 2 = PReturned (Got 5)" using parked_reader_facts by auto
  then show ?thesis using parked_reader_reach parked_reader_facts c'(1) by blast
qed

end
