(* ===== verification/Protocol_Refinement.thy ===== *)
theory Protocol_Refinement
  imports Protocol_Progress
begin

section \<open>The accesses of one operation, uninterrupted, are the sequential operation\<close>

text \<open>
  \<open>Slot\<close> and \<open>Observer\<close> give each operation as one function on the slot; \<open>Protocol\<close> gives it as a
  sequence of atomic accesses.  Here the two are related: when the registry's mutex is free and no
  other thread moves, a thread's accesses add up to the function, with the same reply, the same
  slot afterwards and the same notifications.  \<open>slot_of\<close> reads the sequential slot off the shared
  memory, \<open>alone\<close> says that \<open>n\<close> accesses of thread \<open>t\<close> lead from one state to the other.
\<close>

definition slot_of :: "'o conc \<Rightarrow> 'o slot" where
  "slot_of c = \<lparr>state = cbits c, outcome = ocell c, waiters = map_option (\<lambda>b. queue (cmtx c)) (regp c)\<rparr>"

definition alone :: "thread_id \<Rightarrow> 'o conc \<Rightarrow> 'o conc \<Rightarrow> bool" where
  "alone t c c' \<longleftrightarrow> (\<exists>n. crun (replicate n t) c = Some c') \<and> (\<forall>u. u \<noteq> t \<longrightarrow> pcs c' u = pcs c u)"

lemma crun_append: "crun (ts @ us) c = (case crun ts c of None \<Rightarrow> None | Some d \<Rightarrow> crun us d)"
  by (induction ts arbitrary: c) (auto split: option.splits sum.splits)

lemma alone_refl: "alone t c c"
  unfolding alone_def by (auto intro: exI [of _ 0])

lemma alone_one: "advance t c = Some (Inr c') \<Longrightarrow> (\<And>u. u \<noteq> t \<Longrightarrow> pcs c' u = pcs c u) \<Longrightarrow> alone t c c'"
  unfolding alone_def by (auto intro: exI [of _ "Suc 0"])

lemma alone_trans:
  assumes "alone t c d" and "alone t d e"
  shows "alone t c e"
proof -
  obtain m n where "crun (replicate m t) c = Some d" "crun (replicate n t) d = Some e"
    using assms by (auto simp: alone_def)
  then have "crun (replicate (m + n) t) c = Some e" by (simp add: replicate_add crun_append)
  then show ?thesis using assms unfolding alone_def by (metis (no_types))
qed

text \<open>
  Getting hold of the registry: found or created, then locked.  Only the registry pointer and the
  thread's own program counter change.
\<close>

lemma get_mutex:
  assumes inv: "inv_boxes c" and pc: "pcs c t = PRegistry g" and free: "owner (cmtx c) = None"
  obtains b d where "alone t c d" "pcs d = (pcs c)(t := PInside g b)" "regp d = Some b"
    "boxes d b = Some (cmtx d)" "queue (cmtx d) = queue (cmtx c)" "cbits d = cbits c" "ocell d = ocell c"
    "tokens d = tokens c" "fired d = fired c" "fwakers d = fwakers c" "wake_panics d = wake_panics c"
proof (cases "regp c")
  case (Some b)
  then have box: "boxes c b = Some (cmtx c)" using inv_boxesD(1) [OF inv, of b] by (auto simp: cmtx_def)
  let ?d = "set_box b ((cmtx c)\<lparr>owner := Some t\<rparr>) (goto t (PInside g b) c)"
  have "crun (replicate 2 t) c = Some (goto t (PInside g b) (set_box b ((cmtx c)\<lparr>owner := Some t\<rparr>) (goto t (PLock g b) c)))"
    using pc Some box free by (simp add: numeral_2_eq_2 advance_def on_box_def)
  then have "alone t c (goto t (PInside g b) (set_box b ((cmtx c)\<lparr>owner := Some t\<rparr>) (goto t (PLock g b) c)))"
    unfolding alone_def by (auto intro: exI [of _ "2::nat"])
  then show ?thesis by (rule that) (use Some in \<open>auto simp: cmtx_set_box\<close>)
next
  case None
  let ?n = "next_box c" and ?e = "\<lparr>queue = [], owner = None\<rparr>"
  let ?c2 = "goto t (PInit g ?n) (set_box ?n ?e c\<lparr>next_box := ?n + 1\<rparr>)"
  let ?c3 = "goto t (PLock g ?n) (?c2\<lparr>regp := Some ?n\<rparr>)"
  let ?c4 = "goto t (PInside g ?n) (set_box ?n (?e\<lparr>owner := Some t\<rparr>) ?c3)"
  have "crun (replicate 3 t) c = Some ?c4"
    using pc None by (simp add: numeral_3_eq_3 advance_def on_box_def)
  then have "alone t c ?c4" unfolding alone_def by (auto intro: exI [of _ "3::nat"])
  then show ?thesis by (rule that) (use None in \<open>simp_all add: cmtx_set_box, simp_all add: cmtx_def\<close>)
qed

text \<open>Leaving it.\<close>

lemma put_mutex:
  assumes "pcs c t = PUnlock b k" and "regp c = Some b" and "boxes c b = Some m"
  shows "alone t c (goto t (resume k) (set_box b (m\<lparr>owner := None\<rparr>) c))"
  by (rule alone_one) (use assms in \<open>simp_all add: advance_def on_box_def\<close>)

subsection \<open>Blocking, registering, expiring\<close>

lemma slot_of_simps [simp]:
  "state (slot_of c) = cbits c" "outcome (slot_of c) = ocell c"
  by (simp_all add: slot_of_def)

lemma slot_of_registered: "registered (slot_of c) = queue (cmtx c)"
  by (cases "regp c") (simp_all add: slot_of_def registered_def cmtx_def)

lemma slot_of_eqI:
  assumes "cbits c = state s" "ocell c = outcome s" "regp c = Some b" "waiters s = Some (queue (cmtx c))"
  shows "slot_of c = s"
  using assms by (cases s) (simp add: slot_of_def)

fun reply_pc :: "bool \<Rightarrow> 'o wait_result \<Rightarrow> 'o pc" where
  "reply_pc timed (Outcome v) = PReturned (Got v)"
| "reply_pc timed Parking = PPark timed"
| "reply_pc timed TimedOut = PReturned Expired"

text \<open>The part of a registration after the first look at the completion word.\<close>

lemma enrol:
  assumes inv: "inv_boxes c" and pc: "pcs c t = PLoad j" and free: "owner (cmtx c) = None" and pending: "\<not> done_bit c"
  obtains b d where "alone t c d" "pcs d = (pcs c)(t := PInside (Enter j) b)" "regp d = Some b"
    "boxes d b = Some (cmtx d)" "queue (cmtx d) = queue (cmtx c)" "cbits d = cbits c OR HAS_WAITER"
    "ocell d = ocell c" "tokens d = tokens c" "fired d = fired c" "fwakers d = fwakers c"
proof -
  let ?c2 = "goto t (PRegistry (Enter j)) (c\<lparr>cbits := cbits c OR HAS_WAITER\<rparr>)"
  let ?c1 = "goto t (PSetWaiter j) c"
  have first: "alone t c ?c1" by (rule alone_one) (use pc pending in \<open>simp_all add: advance_def slot_bits\<close>)
  have "advance t ?c1 = Some (Inr (goto t (PRegistry (Enter j)) (?c1\<lparr>cbits := cbits c OR HAS_WAITER\<rparr>)))"
    by (simp add: advance_def)
  also have "goto t (PRegistry (Enter j)) (?c1\<lparr>cbits := cbits c OR HAS_WAITER\<rparr>) = ?c2" by (simp add: goto_def)
  finally have "alone t ?c1 ?c2" by (rule alone_one) simp
  with first have two: "alone t c ?c2" by (rule alone_trans)
  have "inv_boxes ?c2" by (rule inv_boxes_keep [OF inv, of _ t "PRegistry (Enter j)"]) (use pc in simp_all)
  then obtain b d where "alone t ?c2 d" "pcs d = (pcs ?c2)(t := PInside (Enter j) b)" "regp d = Some b"
    "boxes d b = Some (cmtx d)" "queue (cmtx d) = queue (cmtx c)" "cbits d = cbits c OR HAS_WAITER"
    "ocell d = ocell c" "tokens d = tokens c" "fired d = fired c" "fwakers d = fwakers c"
    by (rule get_mutex [where t = t and g = "Enter j"]) (use free in simp_all)
  note d = this
  show ?thesis by (rule that [OF alone_trans [OF two d(1)]]) (use d in simp_all)
qed

lemma wait_alone:
  assumes inv: "cinv c" and pc: "pcs c t = PLoad (Await timed)" and free: "owner (cmtx c) = None"
  shows "\<exists>r c'. wait_round t (slot_of c) = Inr (r, slot_of c') \<and> alone t c c' \<and> pcs c' t = reply_pc timed r
    \<and> tokens c' = tokens c \<and> fired c' = fired c"
proof (cases "done_bit c")
  case True
  then obtain v where v: "ocell c = Some v" using cinvD(1) [OF inv] by (auto simp: inv_word_def)
  let ?c1 = "goto t PRead c" and ?c' = "goto t (PReturned (Got v)) (goto t PRead c)"
  have "alone t c ?c1" by (rule alone_one) (use pc True in \<open>simp_all add: advance_def slot_bits\<close>)
  moreover have "alone t ?c1 ?c'" by (rule alone_one) (use v in \<open>simp_all add: advance_def\<close>)
  ultimately have "alone t c ?c'" by (rule alone_trans)
  moreover have "wait_round t (slot_of c) = Inr (Outcome v, slot_of ?c')"
    using True v by (simp add: wait_round_def slot_bits outcome_ref_def slot_of_def)
  ultimately show ?thesis by (intro exI [of _ "Outcome v"] exI [of _ ?c']) simp
next
  case False
  from enrol [OF cinvD(2) [OF inv] pc free False] obtain b d where d: "alone t c d"
    "pcs d = (pcs c)(t := PInside (Enter (Await timed)) b)" "regp d = Some b" "boxes d b = Some (cmtx d)"
    "queue (cmtx d) = queue (cmtx c)" "cbits d = cbits c OR HAS_WAITER" "ocell d = ocell c"
    "tokens d = tokens c" "fired d = fired c" by blast
  let ?m = "(cmtx d)\<lparr>queue := push_thread t (queue (cmtx d))\<rparr>"
  let ?e = "goto t (PRecheck (Await timed) b) (set_box b ?m d)"
  let ?f = "goto t (PUnlock b (Parks timed)) ?e"
  let ?g = "goto t (PPark timed) (set_box b (?m\<lparr>owner := None\<rparr>) ?f)"
  have "alone t d ?e" by (rule alone_one) (use d(2,4) in \<open>simp_all add: advance_def on_box_def\<close>)
  moreover have "alone t ?e ?f"
    by (rule alone_one) (use d False in \<open>simp_all add: advance_def on_box_def slot_bits\<close>)
  moreover have "alone t ?f ?g" by (rule alone_one) (simp_all add: advance_def on_box_def)
  ultimately have "alone t c ?g" using d(1) alone_trans by blast
  moreover have "wait_round t (slot_of c) = Inr (Parking, slot_of ?g)"
  proof -
    have "slot_of ?g = with_registry (push_thread t (registered (slot_of c))) (slot_of c)"
      by (rule slot_of_eqI [where b = b]) (use d in \<open>simp_all add: cmtx_set_box slot_of_registered with_registry_def\<close>)
    with wait_round_pending [of "slot_of c" t] False show ?thesis by simp
  qed
  ultimately show ?thesis using d by (intro exI [of _ Parking] exI [of _ ?g]) simp
qed

lemma register_alone:
  assumes inv: "cinv c" and pc: "pcs c t = PLoad (Register k)" and free: "owner (cmtx c) = None"
  shows "\<exists>r c'. register_waker k (slot_of c) = (r, slot_of c') \<and> alone t c c' \<and>
    pcs c' t = PReturned (Registered r) \<and> tokens c' = tokens c \<and> fired c' = fired c"
proof (cases "done_bit c")
  case True
  let ?c' = "goto t (PReturned (Registered True)) c"
  have "alone t c ?c'" by (rule alone_one) (use pc True in \<open>simp_all add: advance_def slot_bits\<close>)
  moreover have "register_waker k (slot_of c) = (True, slot_of ?c')"
    using True by (simp add: register_waker_completed) (simp add: slot_of_def)
  ultimately show ?thesis by (intro exI [of _ True] exI [of _ ?c']) simp
next
  case False
  from enrol [OF cinvD(2) [OF inv] pc free False] obtain b d where d: "alone t c d"
    "pcs d = (pcs c)(t := PInside (Enter (Register k)) b)" "regp d = Some b" "boxes d b = Some (cmtx d)"
    "queue (cmtx d) = queue (cmtx c)" "cbits d = cbits c OR HAS_WAITER" "ocell d = ocell c"
    "tokens d = tokens c" "fired d = fired c" by blast
  let ?m = "(cmtx d)\<lparr>queue := direct_registered k (queue (cmtx d))\<rparr>"
  let ?e = "goto t (PRecheck (Register k) b) d"
  let ?f = "goto t (PUnlock b (Returns (Registered False))) (set_box b ?m ?e\<lparr>granted := k # granted ?e\<rparr>)"
  let ?g = "goto t (PReturned (Registered False)) (set_box b (?m\<lparr>owner := None\<rparr>) ?f)"
  have "alone t d ?e" by (rule alone_one) (use d(2,4) in \<open>simp_all add: advance_def on_box_def\<close>)
  moreover have "alone t ?e ?f"
    by (rule alone_one) (use d False in \<open>simp_all add: advance_def on_box_def slot_bits\<close>)
  moreover have "alone t ?f ?g" by (rule alone_one) (simp_all add: advance_def on_box_def)
  ultimately have "alone t c ?g" using d(1) alone_trans by blast
  moreover have "register_waker k (slot_of c) = (False, slot_of ?g)"
  proof -
    have "slot_of ?g = with_registry (direct_registered k (registered (slot_of c))) (slot_of c)"
      by (rule slot_of_eqI [where b = b]) (use d in \<open>simp_all add: cmtx_set_box slot_of_registered with_registry_def\<close>)
    with register_waker_pending [of "slot_of c" k] False show ?thesis by simp
  qed
  ultimately show ?thesis using d by (intro exI [of _ False] exI [of _ ?g]) simp
qed

lemma expire_alone:
  assumes inv: "cinv c" and pc: "pcs c t = PRegistry Expire" and free: "owner (cmtx c) = None"
  shows "\<exists>c'. alone t c c' \<and> pcs c' t = PReturned Expired \<and> tokens c' = tokens c \<and> fired c' = fired c \<and>
    slot_of c' = (slot_of c)\<lparr>waiters := Some (remove_thread t (registered (slot_of c)))\<rparr>"
proof -
  from get_mutex [OF cinvD(2) [OF inv] pc free] obtain b d where d: "alone t c d"
    "pcs d = (pcs c)(t := PInside Expire b)" "regp d = Some b" "boxes d b = Some (cmtx d)"
    "queue (cmtx d) = queue (cmtx c)" "cbits d = cbits c" "ocell d = ocell c"
    "tokens d = tokens c" "fired d = fired c" by blast
  let ?m = "(cmtx d)\<lparr>queue := remove_thread t (queue (cmtx d))\<rparr>"
  let ?e = "goto t (PUnlock b (Returns Expired)) (set_box b ?m d)"
  let ?f = "goto t (PReturned Expired) (set_box b (?m\<lparr>owner := None\<rparr>) ?e)"
  have "alone t d ?e" by (rule alone_one) (use d(2,4) in \<open>simp_all add: advance_def on_box_def\<close>)
  moreover have "alone t ?e ?f" by (rule alone_one) (simp_all add: advance_def on_box_def)
  ultimately have "alone t c ?f" using d(1) alone_trans by blast
  moreover have "slot_of ?f = (slot_of c)\<lparr>waiters := Some (remove_thread t (registered (slot_of c)))\<rparr>"
    by (rule slot_of_eqI [where b = b]) (use d in \<open>simp_all add: cmtx_set_box slot_of_registered\<close>)
  ultimately show ?thesis using d by (intro exI [of _ ?f]) simp
qed

subsection \<open>Polling and dropping a future\<close>

fun poll_reply :: "'o poll call \<Rightarrow> 'o outcome_reply" where
  "poll_reply (Ret (Ready v)) = Got v"
| "poll_reply (Ret Pending) = Unresolved"
| "poll_reply (Panic p) = Overflowed"

lemma try_get_slot_of:
  "\<not> done_bit c \<Longrightarrow> try_get (slot_of c) = Inr None"
  "done_bit c \<Longrightarrow> ocell c = Some v \<Longrightarrow> try_get (slot_of c) = Inr (Some v)"
  by (simp_all add: try_get_def slot_bits outcome_ref_def)

lemma poll_alone:
  assumes inv: "cinv c" and pc: "pcs c t = PPoll f k" and free: "owner (cmtx c) = None"
  shows "\<exists>r c'. future_poll k (fwakers c f) (slot_of c) = Inr (r, fwakers c' f, slot_of c') \<and> alone t c c' \<and>
    pcs c' t = PReturned (poll_reply r) \<and> tokens c' = tokens c \<and> fired c' = fired c"
proof (cases "done_bit c")
  case True
  then obtain v where v: "ocell c = Some v" using cinvD(1) [OF inv] by (auto simp: inv_word_def)
  let ?c1 = "goto t PRead c" and ?c' = "goto t (PReturned (Got v)) (goto t PRead c)"
  have "alone t c ?c1" by (rule alone_one) (use pc True in \<open>simp_all add: advance_def slot_bits\<close>)
  moreover have "alone t ?c1 ?c'" by (rule alone_one) (use v in \<open>simp_all add: advance_def\<close>)
  ultimately have "alone t c ?c'" by (rule alone_trans)
  moreover have "future_poll k (fwakers c f) (slot_of c) = Inr (Ret (Ready v), fwakers ?c' f, slot_of ?c')"
    by (simp add: future_poll_def try_get_slot_of(2) [OF True v]) (simp add: slot_of_def)
  ultimately show ?thesis by (intro exI [of _ "Ret (Ready v)"] exI [of _ ?c']) simp
next
  case False
  show ?thesis
  proof (cases "k \<in> set (fwakers c f)")
    case True
    let ?c1 = "goto t (PAgain f k True) c" and ?c' = "goto t (PReturned Unresolved) (goto t (PAgain f k True) c)"
    have "alone t c ?c1" by (rule alone_one) (use pc False True in \<open>simp_all add: advance_def slot_bits\<close>)
    moreover have "alone t ?c1 ?c'" by (rule alone_one) (use False in \<open>simp_all add: advance_def slot_bits\<close>)
    ultimately have "alone t c ?c'" by (rule alone_trans)
    moreover have "future_poll k (fwakers c f) (slot_of c) = Inr (Ret Pending, fwakers ?c' f, slot_of ?c')"
      using True by (simp add: future_poll_def try_get_slot_of(1) [OF False]) (simp add: slot_of_def)
    ultimately show ?thesis by (intro exI [of _ "Ret Pending"] exI [of _ ?c']) simp
  next
    case new: False
    let ?c1 = "goto t (PLoad (Polling f k)) c"
    have first: "alone t c ?c1" by (rule alone_one) (use pc False new in \<open>simp_all add: advance_def slot_bits\<close>)
    have "inv_boxes ?c1" by (rule inv_boxes_keep [OF cinvD(2) [OF inv], of _ t "PLoad (Polling f k)"]) (use pc in simp_all)
    then obtain b d where d: "alone t ?c1 d" "pcs d = (pcs c)(t := PInside (Enter (Polling f k)) b)" "regp d = Some b"
      "boxes d b = Some (cmtx d)" "queue (cmtx d) = queue (cmtx c)" "cbits d = cbits c OR HAS_WAITER"
      "ocell d = ocell c" "tokens d = tokens c" "fired d = fired c" "fwakers d = fwakers c"
      by (rule enrol [where t = t and j = "Polling f k"]) (use free False in simp_all)
    let ?q = "queue (cmtx d)"
    let ?e = "goto t (PRecheck (Polling f k) b) d"
    have de: "alone t d ?e" by (rule alone_one) (use d(2,4) in \<open>simp_all add: advance_def on_box_def\<close>)
    have ce: "alone t c ?e" by (rule alone_trans [OF alone_trans [OF first d(1)] de])
    have eq: "registered (slot_of c) = ?q" using d(5) by (simp add: slot_of_registered)
    show ?thesis
    proof (cases "future_registered k ?q")
      case (Panic p)
      let ?f = "goto t (PUnlock b (Returns Overflowed)) ?e"
      let ?g = "goto t (PReturned Overflowed) (set_box b ((cmtx d)\<lparr>owner := None\<rparr>) ?f)"
      have "alone t ?e ?f"
        by (rule alone_one) (use d False Panic in \<open>simp_all add: advance_def on_box_def slot_bits\<close>)
      moreover have "alone t ?f ?g" by (rule alone_one) (use d(4) in \<open>simp_all add: advance_def on_box_def\<close>)
      ultimately have "alone t c ?g" using ce alone_trans by blast
      moreover have "slot_of ?g = with_registry ?q (slot_of c)"
        by (rule slot_of_eqI [where b = b]) (use d in \<open>simp_all add: cmtx_set_box with_registry_def\<close>)
      moreover have "future_poll k (fwakers c f) (slot_of c) = Inr (Panic p, fwakers c f, with_registry ?q (slot_of c))"
        using new False Panic eq by (simp add: future_poll_def try_get_slot_of(1) [OF False] register_future_waker_pending)
      ultimately show ?thesis using d by (intro exI [of _ "Panic p"] exI [of _ ?g]) simp
    next
      case (Ret ws)
      let ?m = "(cmtx d)\<lparr>queue := ws\<rparr>"
      let ?f = "goto t (PUnlock b (Repolls f k)) (set_box b ?m ?e\<lparr>held := (f, k) # held ?e\<rparr>)"
      let ?g = "goto t (PAgain f k False) (set_box b (?m\<lparr>owner := None\<rparr>) ?f)"
      let ?h = "goto t (PReturned Unresolved) (?g\<lparr>fwakers := (fwakers ?g)(f := fwakers ?g f @ [k])\<rparr>)"
      have "alone t ?e ?f"
        by (rule alone_one) (use d False Ret in \<open>simp_all add: advance_def on_box_def slot_bits\<close>)
      moreover have "alone t ?f ?g" by (rule alone_one) (simp_all add: advance_def on_box_def)
      moreover have "alone t ?g ?h"
        by (rule alone_one) (use d(6) False in \<open>simp_all add: advance_def slot_bits\<close>)
      ultimately have "alone t c ?h" using ce alone_trans by blast
      moreover have slot: "slot_of ?h = with_registry ws (slot_of c)"
        by (rule slot_of_eqI [where b = b]) (use d in \<open>simp_all add: cmtx_set_box with_registry_def\<close>)
      moreover have "future_poll k (fwakers c f) (slot_of c) = Inr (Ret Pending, fwakers c f @ [k], with_registry ws (slot_of c))"
        using new False Ret eq
        by (simp add: future_poll_def try_get_slot_of(1) [OF False] register_future_waker_pending)
          (simp add: try_get_def slot_bits with_registry_def)
      ultimately show ?thesis using d by (intro exI [of _ "Ret Pending"] exI [of _ ?h]) simp
    qed
  qed
qed

lemma cancel_alone:
  assumes inv: "cinv c" and pc: "pcs c t = PRegistry (Cancel f)" and free: "owner (cmtx c) = None" and mine: "fwakers c f \<noteq> []"
  shows "\<exists>c'. future_drop (fwakers c f) (slot_of c) = Inr (slot_of c') \<and> alone t c c' \<and>
    pcs c' t = PReturned Cancelled \<and> tokens c' = tokens c \<and> fired c' = fired c"
proof -
  obtain b d where d: "alone t c d"
    "pcs d = (pcs c)(t := PInside (Cancel f) b)" "regp d = Some b" "boxes d b = Some (cmtx d)"
    "queue (cmtx d) = queue (cmtx c)" "cbits d = cbits c" "ocell d = ocell c"
    "tokens d = tokens c" "fired d = fired c" "fwakers d = fwakers c"
    by (rule get_mutex [OF cinvD(2) [OF inv] pc free])
  obtain ws where ws: "cancel (fwakers c f) (queue (cmtx c)) = Inr ws" by (rule cancel_defined [OF cinvD(9,10) [OF inv]])
  let ?m = "(cmtx d)\<lparr>queue := ws\<rparr>"
  let ?e = "goto t (PUnlock b (Returns Cancelled)) (set_box b ?m (disown f d))"
  let ?f = "goto t (PReturned Cancelled) (set_box b (?m\<lparr>owner := None\<rparr>) ?e)"
  have "alone t d ?e" by (rule alone_one) (use d ws in \<open>simp_all add: advance_def on_box_def\<close>)
  moreover have "alone t ?e ?f" by (rule alone_one) (simp_all add: advance_def on_box_def)
  ultimately have "alone t c ?f" using d(1) alone_trans by blast
  moreover have "slot_of ?f = (slot_of c)\<lparr>waiters := Some ws\<rparr>"
    by (rule slot_of_eqI [where b = b]) (use d in \<open>simp_all add: cmtx_set_box\<close>)
  ultimately show ?thesis using d ws mine
    by (intro exI [of _ ?f]) (simp add: future_drop_eq slot_of_registered)
qed

subsection \<open>Publishing\<close>

lemma slot_complete_pending:
  assumes "\<not> completed s" and "\<not> has_waiter s \<Longrightarrow> registered s = []"
  shows "slot_complete wp v s =
    Inr (drain_result wp (registered s), map event_of (registered s), published_slot v s)"
  using assms
  by (auto simp: slot_complete_def Let_def fetch_or_def set_outcome_def slot_bits registry_eq
      notify_all_eq drain_result_def published_slot_def split: list.splits)

text \<open>What \<open>complete\<close> ends with, as its caller sees it.\<close>

fun complete_reply :: "unit call \<Rightarrow> 'o outcome_reply" where
  "complete_reply (Panic (WakePanicked w)) = PublishPanicked w"
| "complete_reply _ = Published"

lemma complete_reply_drain: "complete_reply (drain_result wp ws) = published_reply (filter wp (wakers_of ws))"
  by (cases "filter wp (wakers_of ws)") (simp_all add: drain_result_def)

lemma notify_alone:
  assumes "pcs c t = PNotify ws"
  shows "\<exists>c'. alone t c c' \<and> pcs c' t = PReturned (published_reply (panics c @ filter (wake_panics c) (wakers_of ws))) \<and>
    slot_of c' = slot_of c \<and> fired c' = rev (wakers_of ws) @ fired c \<and>
    (\<forall>u. tokens c' u \<longleftrightarrow> tokens c u \<or> Thread u \<in> set ws)"
  using assms
proof (induction ws arbitrary: c)
  case Nil
  let ?c' = "goto t (PReturned (published_reply (panics c))) c"
  have "alone t c ?c'" by (rule alone_one) (use Nil in \<open>simp_all add: advance_def\<close>)
  then show ?case by (intro exI [of _ ?c']) (simp add: slot_of_def)
next
  case (Cons w ws)
  let ?d = "goto t (PNotify ws) (notify w c)"
  have d: "alone t c ?d" by (rule alone_one) (use Cons.prems in \<open>simp_all add: advance_def\<close>)
  have caught: "panics ?d @ filter (wake_panics c) (wakers_of ws) = panics c @ filter (wake_panics c) (wakers_of (w # ws))"
    by (cases w) simp_all
  have "pcs ?d t = PNotify ws" by simp
  from Cons.IH [OF this] obtain c' where c': "alone t ?d c'"
    "pcs c' t = PReturned (published_reply (panics ?d @ filter (wake_panics ?d) (wakers_of ws)))"
    "slot_of c' = slot_of ?d" "fired c' = rev (wakers_of ws) @ fired ?d"
    "\<forall>u. tokens c' u \<longleftrightarrow> tokens ?d u \<or> Thread u \<in> set ws" by blast
  have "wake_panics ?d = wake_panics c" by simp
  with c'(2) caught have "pcs c' t = PReturned (published_reply (panics c @ filter (wake_panics c) (wakers_of (w # ws))))"
    by (simp only:)
  moreover have "slot_of ?d = slot_of c" by (simp add: slot_of_def)
  ultimately show ?case using c'(3-5) alone_trans [OF d c'(1)] by (intro exI [of _ c'], cases w) auto
qed

lemma complete_alone:
  assumes inv: "cinv c" and pc: "pcs c t = PStore v" and free: "owner (cmtx c) = None"
  shows "\<exists>r ws c'. slot_complete (wake_panics c) v (slot_of c) = Inr (r, map event_of ws, slot_of c') \<and> alone t c c' \<and>
    pcs c' t = PReturned (complete_reply r) \<and> fired c' = rev (wakers_of ws) @ fired c \<and>
    (\<forall>u. tokens c' u \<longleftrightarrow> tokens c u \<or> Thread u \<in> set ws)"
proof -
  let ?c1 = "goto t PPublish (c\<lparr>ocell := Some v\<rparr>)"
  let ?bits = "cbits c OR (COMPLETED OR OUTCOME_VALID)"
  let ?ws = "registered (slot_of c)" and ?wp = "wake_panics c"
  have pending: "\<not> done_bit c"
    using cinvD(1) [OF inv] inv_publisherD(4) [OF cinvD(4) [OF inv], of t] pc by (auto simp: inv_word_def)
  have step1: "advance t c = Some (Inr ?c1)" using pc by (simp add: advance_def)
  then have one: "alone t c ?c1" by (rule alone_one) simp
  have seq: "slot_complete ?wp v (slot_of c) = Inr (drain_result ?wp ?ws, map event_of ?ws, published_slot v (slot_of c))"
    by (rule slot_complete_pending)
      (use pending inv_waiterD(2) [OF cinvD(6) [OF inv]] in \<open>auto simp: slot_of_registered\<close>)
  show ?thesis
  proof (cases "bit (cbits c) (Suc 0)")
    case False
    let ?c2 = "goto t (PReturned Published) (?c1\<lparr>cbits := ?bits\<rparr>)"
    have "alone t ?c1 ?c2" by (rule alone_one) (use pending False in \<open>simp_all add: advance_def Let_def slot_bits\<close>)
    with one have "alone t c ?c2" by (rule alone_trans)
    moreover have "?ws = []"
      using False inv_waiterD(2) [OF cinvD(6) [OF inv]] by (auto simp: slot_of_registered)
    moreover have "published_slot v (slot_of c) = slot_of ?c2"
      using False by (simp add: published_slot_def) (simp add: slot_of_def)
    ultimately show ?thesis using seq
      by (intro exI [of _ "drain_result ?wp ?ws"] exI [of _ "[]"] exI [of _ ?c2]) (simp add: drain_result_def)
  next
    case True
    let ?c2 = "goto t (PRegistry Drain) (?c1\<lparr>cbits := ?bits\<rparr>)"
    have step2: "advance t ?c1 = Some (Inr ?c2)"
      using pending True by (simp add: advance_def Let_def slot_bits)
    then have "alone t ?c1 ?c2" by (rule alone_one) simp
    with one have two: "alone t c ?c2" by (rule alone_trans)
    have inv2: "inv_boxes ?c2" by (rule cinvD(2) [OF advance_inv [OF advance_inv [OF inv step1] step2]])
    obtain b d where d: "alone t ?c2 d"
      "pcs d = (pcs ?c2)(t := PInside Drain b)" "regp d = Some b" "boxes d b = Some (cmtx d)"
      "queue (cmtx d) = queue (cmtx c)" "cbits d = ?bits" "ocell d = Some v"
      "tokens d = tokens c" "fired d = fired c" "fwakers d = fwakers c" "wake_panics d = wake_panics c"
      by (rule get_mutex [OF inv2, where t = t and g = Drain]) (use free in simp_all)
    let ?e = "goto t (PUnlock b (Notifies (queue (cmtx c)))) (set_box b ((cmtx d)\<lparr>queue := []\<rparr>) d\<lparr>panics := []\<rparr>)"
    let ?f = "goto t (PNotify (queue (cmtx c))) (set_box b ((cmtx d)\<lparr>queue := [], owner := None\<rparr>) ?e)"
    have de: "alone t d ?e" by (rule alone_one) (use d(2,4,5) in \<open>simp_all add: advance_def on_box_def\<close>)
    have ef: "alone t ?e ?f" by (rule alone_one) (simp_all add: advance_def on_box_def)
    have three: "alone t c ?f" by (rule alone_trans [OF alone_trans [OF alone_trans [OF two d(1)] de] ef])
    obtain c' where c': "alone t ?f c'" "pcs c' t = PReturned (published_reply (filter ?wp (wakers_of (queue (cmtx c)))))"
      "slot_of c' = slot_of ?f"
      "fired c' = rev (wakers_of (queue (cmtx c))) @ fired ?f"
      "\<forall>u. tokens c' u \<longleftrightarrow> tokens ?f u \<or> Thread u \<in> set (queue (cmtx c))"
      using notify_alone [of ?f t "queue (cmtx c)"] d(11) by auto
    have "slot_of ?f = published_slot v (slot_of c)"
      by (rule slot_of_eqI [where b = b]) (use d True in \<open>simp_all add: cmtx_set_box published_slot_def\<close>)
    with c' seq alone_trans [OF three c'(1)] d show ?thesis
      by (intro exI [of _ "drain_result ?wp ?ws"] exI [of _ ?ws] exI [of _ c'])
        (simp add: slot_of_registered complete_reply_drain)
  qed
qed

lemma wakers_of_events: "map event_of ws = [Woken w] \<Longrightarrow> wakers_of ws = [w]"
  by (cases ws; cases "hd ws"; auto)

text \<open>Thread 1 is about to publish 5, thread 2 is about to register a waker whose \<open>wake\<close> panics.\<close>

definition faulty_waker :: "nat conc" where
  "faulty_waker = goto 1 (PStore 5)
     (goto 2 (PLoad (Register waker_a)) ((conc_new 1)\<lparr>wake_panics := \<lambda>w. wdata w = 0\<rparr>)\<lparr>publisher := None\<rparr>)"

lemma faulty_waker_reach: "creach 1 faulty_waker"
proof -
  have "creach 1 (goto 2 (PLoad (Register waker_a)) ((conc_new 1)\<lparr>wake_panics := \<lambda>w. wdata w = 0\<rparr>) :: nat conc)"
    (is "creach 1 ?c") by (rule cmore [OF cstart cstep.call_register]) (simp add: conc_new_def)
  moreover have "cstep ?c (goto 1 (PStore 5) (?c\<lparr>publisher := None\<rparr>))"
    by (rule cstep.call_complete) (simp_all add: conc_new_def)
  ultimately show ?thesis unfolding faulty_waker_def by (rule cmore)
qed

text \<open>
  C7: with the mutex free, the uninterrupted accesses of a thread implement the sequential
  operations: \<open>wait\<close> (one round, up to the return or the park), \<open>wait_timeout\<close> after its deadline,
  \<open>register_waker\<close>, \<open>poll\<close>, dropping a future and \<open>complete\<close> give the reply, the slot and the
  notifications of \<open>wait_round\<close>, \<open>remove_thread\<close>, \<open>register_waker\<close>, \<open>future_poll\<close>, \<open>future_drop\<close> and
  \<open>slot_complete\<close>, from every reachable state, whichever wakers panic when they are woken: \<open>complete\<close> then
  ends with the first panic, after the whole drain.
\<close>
theorem accesses_refine_operations:
  assumes "creach p c" and "owner (cmtx c) = None"
  shows "(\<forall>timed. pcs c t = PLoad (Await timed) \<longrightarrow> (\<exists>r c'. wait_round t (slot_of c) = Inr (r, slot_of c') \<and>
      alone t c c' \<and> pcs c' t = reply_pc timed r \<and> tokens c' = tokens c \<and> fired c' = fired c)) \<and>
    (pcs c t = PRegistry Expire \<longrightarrow> (\<exists>c'. alone t c c' \<and> pcs c' t = PReturned Expired \<and>
      tokens c' = tokens c \<and> fired c' = fired c \<and> slot_of c' = (slot_of c)\<lparr>waiters := Some (remove_thread t (registered (slot_of c)))\<rparr>)) \<and>
    (\<forall>k. pcs c t = PLoad (Register k) \<longrightarrow> (\<exists>r c'. register_waker k (slot_of c) = (r, slot_of c') \<and>
      alone t c c' \<and> pcs c' t = PReturned (Registered r) \<and> tokens c' = tokens c \<and> fired c' = fired c)) \<and>
    (\<forall>f k. pcs c t = PPoll f k \<longrightarrow> (\<exists>r c'. future_poll k (fwakers c f) (slot_of c) = Inr (r, fwakers c' f, slot_of c') \<and>
      alone t c c' \<and> pcs c' t = PReturned (poll_reply r) \<and> tokens c' = tokens c \<and> fired c' = fired c)) \<and>
    (\<forall>f. pcs c t = PRegistry (Cancel f) \<longrightarrow> fwakers c f \<noteq> [] \<longrightarrow> (\<exists>c'. future_drop (fwakers c f) (slot_of c) = Inr (slot_of c') \<and>
      alone t c c' \<and> pcs c' t = PReturned Cancelled \<and> tokens c' = tokens c \<and> fired c' = fired c)) \<and>
    (\<forall>v. pcs c t = PStore v \<longrightarrow> (\<exists>r ws c'. slot_complete (wake_panics c) v (slot_of c) = Inr (r, map event_of ws, slot_of c') \<and>
      alone t c c' \<and> pcs c' t = PReturned (complete_reply r) \<and> fired c' = rev (wakers_of ws) @ fired c \<and>
      (\<forall>u. tokens c' u \<longleftrightarrow> tokens c u \<or> Thread u \<in> set ws)))"
  by (intro conjI allI impI wait_alone [OF creach_inv [OF assms(1)] _ assms(2)] expire_alone [OF creach_inv [OF assms(1)] _ assms(2)]
      register_alone [OF creach_inv [OF assms(1)] _ assms(2)] poll_alone [OF creach_inv [OF assms(1)] _ assms(2)]
      cancel_alone [OF creach_inv [OF assms(1)] _ assms(2)] complete_alone [OF creach_inv [OF assms(1)] _ assms(2)])

theorem accesses_refine_operations_witness:
  "\<exists>c c'. creach 1 c \<and> pcs c 1 = PStore 5 \<and> registered (slot_of c) = [Waker waker_a True 0] \<and> alone 1 c c' \<and>
     slot_complete (wake_panics c) (5::nat) (slot_of c) = Inr (Panic (WakePanicked waker_a), [Woken waker_a], slot_of c') \<and>
     fired c' = [waker_a] \<and> pcs c' 1 = PReturned (PublishPanicked waker_a)"
proof -
  let ?c = "the (crun [2, 2, 2, 2, 2, 2, 2, 2] faulty_waker)"
  have r: "creach 1 ?c" by (rule crun_the [OF faulty_waker_reach]) code_simp
  have "owner (cmtx ?c) = None" by code_simp
  from accesses_refine_operations [OF r this, of 1] have
    all: "\<forall>v. pcs ?c 1 = PStore v \<longrightarrow> (\<exists>r ws c'. slot_complete (wake_panics ?c) v (slot_of ?c) = Inr (r, map event_of ws, slot_of c') \<and>
      alone 1 ?c c' \<and> pcs c' 1 = PReturned (complete_reply r) \<and> fired c' = rev (wakers_of ws) @ fired ?c \<and>
      (\<forall>u. tokens c' u \<longleftrightarrow> tokens ?c u \<or> Thread u \<in> set ws))" by blast
  have p: "pcs ?c 1 = PStore 5" "registered (slot_of ?c) = [Waker waker_a True 0]" "fired ?c = []" by code_simp+
  with all obtain r ws c' where c': "slot_complete (wake_panics ?c) 5 (slot_of ?c) = Inr (r, map event_of ws, slot_of c')"
    "alone 1 ?c c'" "pcs c' 1 = PReturned (complete_reply r)" "fired c' = rev (wakers_of ws) @ fired ?c" by blast
  have "fst (snd (projr (slot_complete (wake_panics ?c) 5 (slot_of ?c)))) = [Woken waker_a]"
    "fst (projr (slot_complete (wake_panics ?c) 5 (slot_of ?c))) = Panic (WakePanicked waker_a)" by code_simp+
  with c'(1) have ws: "map event_of ws = [Woken waker_a]" "r = Panic (WakePanicked waker_a)" by simp_all
  then have "wakers_of ws = [waker_a]" by (simp add: wakers_of_events)
  with r p c' ws show ?thesis by (intro exI [of _ ?c] exI [of _ c']) simp
qed

end
