(* ===== verification/Contract.thy ===== *)
theory Contract
  imports Lifecycle
begin

section \<open>The contract of the crate\<close>

text \<open>
  What a program may rely on, without the machinery: a generation is a number that is never used
  again, with the value published on it, if any, and the waiters to notify.  There is no key
  table, no pool, no recycling, no completion word and no reference count; a key is live while a
  subject with that key is owned.  The reference model of the crate's tests
  (\<open>observe-tests/tests/model.rs\<close>) is of this kind.  \<open>spec_exec\<close> gives every operation of \<open>op\<close> its
  meaning here; dropping a subject is one step, so the programs are those of one thread.
\<close>

record ('k, 'o) spec =
  value_of :: "nat \<Rightarrow> 'o option"
  waiting_of :: "nat \<Rightarrow> waiter list"
  generations :: nat
  drawn :: usize
  names :: handle
  spec_spaces :: "(handle \<times> unit) list"
  spec_subjects :: "(handle \<times> 'k \<times> nat \<times> bool) list"
  spec_publishers :: "(handle \<times> nat) list"
  spec_observations :: "(handle \<times> nat) list"
  spec_futures :: "(handle \<times> nat \<times> waker list) list"
  published :: "'o list"
  taken :: "'o list"
  events :: "wake_event list"

definition spec_new :: "('k, 'o) spec" where
  "spec_new = \<lparr>value_of = (\<lambda>_. None), waiting_of = (\<lambda>_. []), generations = 0, drawn = 1, names = 1,
     spec_spaces = [(0, ())], spec_subjects = [], spec_publishers = [], spec_observations = [],
     spec_futures = [], published = [], taken = [], events = []\<rparr>"

definition live_generation :: "'k \<Rightarrow> ('k, 'o) spec \<Rightarrow> nat option" where
  "live_generation key a = map_of (map (\<lambda>(h, k, g, c). (k, g)) (spec_subjects a)) key"

text \<open>A new generation, and the publication of a value on one.\<close>

definition begin_generation :: "('k, 'o) spec \<Rightarrow> ('k, 'o) spec" where
  "begin_generation a = a\<lparr>value_of := (value_of a)(generations a := None),
     waiting_of := (waiting_of a)(generations a := []), generations := generations a + 1\<rparr>"

definition publish_generation :: "nat \<Rightarrow> 'o \<Rightarrow> ('k, 'o) spec \<Rightarrow> ('k, 'o) spec" where
  "publish_generation g v a = a\<lparr>value_of := (value_of a)(g := Some v),
     waiting_of := (waiting_of a)(g := []), published := published a @ [v],
     events := events a @ map event_of (waiting_of a g)\<rparr>"

definition set_waiting :: "nat \<Rightarrow> waiter list \<Rightarrow> ('k, 'o) spec \<Rightarrow> ('k, 'o) spec" where
  "set_waiting g ws a = a\<lparr>waiting_of := (waiting_of a)(g := ws)\<rparr>"

text \<open>
  The strong handles of a generation: a live one is held by its subject and by the key table.
\<close>

definition holders :: "nat \<Rightarrow> ('k, 'o) spec \<Rightarrow> nat" where
  "holders g a = 2 * length (filter (\<lambda>(h, k, g', c). g' = g) (spec_subjects a))
     + length (filter (\<lambda>(h, g'). g' = g) (spec_publishers a))
     + length (filter (\<lambda>(h, g'). g' = g) (spec_observations a))
     + length (filter (\<lambda>(h, g', ks). g' = g) (spec_futures a))"

text \<open>The waiters left when a future with the wakers \<open>mine\<close> is dropped.\<close>

definition cancelled :: "waker list \<Rightarrow> waiter list \<Rightarrow> waiter list" where
  "cancelled mine ws = (if mine = [] then ws else case cancel mine ws of Inl f \<Rightarrow> ws | Inr ws' \<Rightarrow> ws')"

fun spec_exec :: "(waker \<Rightarrow> bool) \<Rightarrow> ('k, 'o) op \<Rightarrow> ('k, 'o) spec \<Rightarrow> (('k, 'o) reply call \<times> ('k, 'o) spec) option" where
  "spec_exec wp (MakeSubject key) a =
     (if spec_spaces a = [] then None
      else if live_generation key a \<noteq> None then Some (Ret (SubjectExists key), a)
      else if drawn a = USIZE_MAX then Some (Panic GenerationExhausted, a\<lparr>drawn := 0\<rparr>)
      else Some (Ret (NewHandle (names a)), (begin_generation a)\<lparr>drawn := drawn a + 1, names := names a + 1,
             spec_subjects := spec_subjects a @ [(names a, key, generations a, False)]\<rparr>))"
| "spec_exec wp (Observe key) a =
     (if spec_spaces a = [] then None
      else case live_generation key a of
        None \<Rightarrow> Some (Ret (UnknownSubject key), a)
      | Some g \<Rightarrow> Some (Ret (NewHandle (names a)),
          a\<lparr>names := names a + 1, spec_observations := spec_observations a @ [(names a, g)]\<rparr>))"
| "spec_exec wp CloneSpace a =
     (if spec_spaces a = [] then None
      else Some (Ret (NewHandle (names a)), a\<lparr>names := names a + 1, spec_spaces := spec_spaces a @ [(names a, ())]\<rparr>))"
| "spec_exec wp (DropSpace h) a = (case map_of (spec_spaces a) h of
     None \<Rightarrow> None
   | Some _ \<Rightarrow> Some (Ret Done, a\<lparr>spec_spaces := AList.delete h (spec_spaces a)\<rparr>))"
| "spec_exec wp (Complete h v) a = (case map_of (spec_subjects a) h of
     None \<Rightarrow> None
   | Some (k, g, c) \<Rightarrow>
       if c then Some (Panic SubjectCompletedTwice, a\<lparr>published := published a @ [v]\<rparr>)
       else Some (done_or_panic (drain_result wp (waiting_of a g)),
         (publish_generation g v a)\<lparr>spec_subjects := AList.update h (k, g, True) (spec_subjects a)\<rparr>))"
| "spec_exec wp (DropSubject h) a = (case map_of (spec_subjects a) h of
     None \<Rightarrow> None
   | Some _ \<Rightarrow> Some (Ret Done, a\<lparr>spec_subjects := AList.delete h (spec_subjects a)\<rparr>))"
| "spec_exec wp MakePair a =
     Some (Ret (NewPair (names a) (names a + 1)), (begin_generation a)\<lparr>names := names a + 2,
       spec_publishers := spec_publishers a @ [(names a, generations a)],
       spec_observations := spec_observations a @ [(names a + 1, generations a)]\<rparr>)"
| "spec_exec wp (Publish h v) a = (case map_of (spec_publishers a) h of
     None \<Rightarrow> None
   | Some g \<Rightarrow> Some (done_or_panic (drain_result wp (waiting_of a g)),
       (publish_generation g v a)\<lparr>spec_publishers := AList.delete h (spec_publishers a)\<rparr>))"
| "spec_exec wp (DropPublisher h) a = (case map_of (spec_publishers a) h of
     None \<Rightarrow> None
   | Some _ \<Rightarrow> Some (Ret Done, a\<lparr>spec_publishers := AList.delete h (spec_publishers a)\<rparr>))"
| "spec_exec wp (CloneObservation h) a = (case map_of (spec_observations a) h of
     None \<Rightarrow> None
   | Some g \<Rightarrow> Some (Ret (NewHandle (names a)),
       a\<lparr>names := names a + 1, spec_observations := spec_observations a @ [(names a, g)]\<rparr>))"
| "spec_exec wp (DropObservation h) a = (case map_of (spec_observations a) h of
     None \<Rightarrow> None
   | Some _ \<Rightarrow> Some (Ret Done, a\<lparr>spec_observations := AList.delete h (spec_observations a)\<rparr>))"
| "spec_exec wp (TryGet h) a = (case map_of (spec_observations a) h of
     None \<Rightarrow> None
   | Some g \<Rightarrow> Some (Ret (Value (value_of a g)), a))"
| "spec_exec wp (IntoOutcome h) a = (case map_of (spec_observations a) h of
     None \<Rightarrow> None
   | Some g \<Rightarrow>
       let r = (if holders g a = 1 then value_of a g else None)
       in Some (Ret (Value r), a\<lparr>spec_observations := AList.delete h (spec_observations a),
            taken := taken a @ (case r of None \<Rightarrow> [] | Some v \<Rightarrow> [v])\<rparr>))"
| "spec_exec wp (RegisterWaker h x) a = (case map_of (spec_observations a) h of
     None \<Rightarrow> None
   | Some g \<Rightarrow>
       if value_of a g \<noteq> None then Some (Ret (Flag True), a)
       else Some (Ret (Flag False), set_waiting g (direct_registered x (waiting_of a g)) a))"
| "spec_exec wp (Wait h t) a = (case map_of (spec_observations a) h of
     None \<Rightarrow> None
   | Some g \<Rightarrow> (case value_of a g of
       Some v \<Rightarrow> Some (Ret (Waited (Outcome v)), a)
     | None \<Rightarrow> Some (Ret (Waited Parking), set_waiting g (push_thread t (waiting_of a g)) a)))"
| "spec_exec wp (WaitTimeout h t instant_max start timeout now) a = (case map_of (spec_observations a) h of
     None \<Rightarrow> None
   | Some g \<Rightarrow>
       if start + timeout > instant_max then Some (Panic TimeoutOverflowsInstant, a)
       else (case value_of a g of
         Some v \<Rightarrow> Some (Ret (Waited (Outcome v)), a)
       | None \<Rightarrow>
           let ws = push_thread t (waiting_of a g)
           in if now \<ge> start + timeout
              then Some (Ret (Waited TimedOut), set_waiting g (remove_thread t ws) a)
              else Some (Ret (Waited Parking), set_waiting g ws a)))"
| "spec_exec wp (IntoFuture h) a = (case map_of (spec_observations a) h of
     None \<Rightarrow> None
   | Some g \<Rightarrow> Some (Ret (NewHandle h), a\<lparr>spec_observations := AList.delete h (spec_observations a),
       spec_futures := spec_futures a @ [(h, g, [])]\<rparr>))"
| "spec_exec wp (Poll h x) a = (case map_of (spec_futures a) h of
     None \<Rightarrow> None
   | Some (g, mine) \<Rightarrow> (case value_of a g of
       Some v \<Rightarrow> Some (Ret (Polled (Ready v)), a)
     | None \<Rightarrow>
         if x \<in> set mine then Some (Ret (Polled Pending), a)
         else (case future_registered x (waiting_of a g) of
           Panic p \<Rightarrow> Some (Panic p, a)
         | Ret ws \<Rightarrow> Some (Ret (Polled Pending), (set_waiting g ws a)
             \<lparr>spec_futures := AList.update h (g, mine @ [x]) (spec_futures a)\<rparr>))))"
| "spec_exec wp (DropFuture h) a = (case map_of (spec_futures a) h of
     None \<Rightarrow> None
   | Some (g, mine) \<Rightarrow> Some (Ret Done, (set_waiting g (cancelled mine (waiting_of a g)) a)
       \<lparr>spec_futures := AList.delete h (spec_futures a)\<rparr>))"
| "spec_exec wp (DropSubjectInner h) a = None"
| "spec_exec wp (DropSubjectSlot h) a = None"

subsection \<open>The program of one thread on the implementation\<close>

text \<open>
  \<open>perform\<close> is \<open>exec\<close> for one thread: dropping a subject runs its three phases in a row.  \<open>None\<close> is
  an operation on a value the program does not own, or a fault.
\<close>

fun follow :: "('k, 'o) arc_count \<Rightarrow> (waker \<Rightarrow> bool) \<Rightarrow> ('k, 'o) op list \<Rightarrow> ('k, 'o) world \<Rightarrow> ('k, 'o) world option" where
  "follow sc wp [] w = Some w"
| "follow sc wp (op # ops) w =
     (if owns op w then (case exec sc wp op w of Inl f \<Rightarrow> None | Inr (r, w') \<Rightarrow> follow sc wp ops w') else None)"

fun rest_of :: "('k, 'o) op \<Rightarrow> ('k, 'o) op list" where
  "rest_of (DropSubject h) = [DropSubjectInner h, DropSubjectSlot h]"
| "rest_of op = []"

fun whole :: "('k, 'o) op \<Rightarrow> bool" where
  "whole (DropSubjectInner h) = False"
| "whole (DropSubjectSlot h) = False"
| "whole op = True"

definition perform :: "('k, 'o) arc_count \<Rightarrow> (waker \<Rightarrow> bool) \<Rightarrow> ('k, 'o) op \<Rightarrow> ('k, 'o) world \<Rightarrow>
    (('k, 'o) reply call \<times> ('k, 'o) world) option" where
  "perform sc wp op w =
     (if \<not> whole op \<or> \<not> owns op w then None
      else case exec sc wp op w of
        Inl f \<Rightarrow> None
      | Inr (r, w') \<Rightarrow> map_option (\<lambda>w''. (r, w'')) (follow sc wp (rest_of op) w'))"

text \<open>A program against an interface: the implementation's or the contract's.\<close>

fun program :: "('i \<Rightarrow> 's \<Rightarrow> ('r \<times> 's) option) \<Rightarrow> 'i list \<Rightarrow> 's \<Rightarrow> ('r list \<times> 's) option" where
  "program api [] s = Some ([], s)"
| "program api (op # ops) s = (case api op s of
     None \<Rightarrow> None
   | Some (r, s') \<Rightarrow> (case program api ops s' of
       None \<Rightarrow> None
     | Some (rs, s'') \<Rightarrow> Some (r # rs, s'')))"

lemma follow_reach: "reach sc w \<Longrightarrow> follow sc wp ops w = Some w' \<Longrightarrow> reach sc w'"
proof (induction ops arbitrary: w)
  case (Cons op ops)
  from Cons.prems(2) obtain r w1 where "owns op w" "exec sc wp op w = Inr (r, w1)" "follow sc wp ops w1 = Some w'"
    by (auto split: if_splits sum.splits)
  with Cons show ?case by (meson reach.step)
qed simp

lemma perform_reach: "reach sc w \<Longrightarrow> perform sc wp op w = Some (r, w') \<Longrightarrow> reach sc w'"
  by (auto simp: perform_def intro: follow_reach reach.step split: if_splits sum.splits)

end
