(* ===== verification/Contract_Refinement.thy ===== *)
theory Contract_Refinement
  imports Contract
begin

section \<open>The implementation keeps the contract\<close>

text \<open>
  A simulation: \<open>slot_for g\<close> is the slot that serves generation \<open>g\<close> while anything holds it.  The
  handles of the program correspond one to one, different held generations have different slots,
  and each slot has the value and the waiters of its generation.
\<close>

definition over :: "('a \<Rightarrow> 'b) \<Rightarrow> (handle \<times> 'a) list \<Rightarrow> (handle \<times> 'b) list" where
  "over f xs = map (\<lambda>(h, x). (h, f x)) xs"

lemma over_simps [simp]:
  "over f [] = []" "over f (xs @ ys) = over f xs @ over f ys" "over f ((h, x) # xs) = (h, f x) # over f xs"
  "map_of (over f xs) h = map_option f (map_of xs h)"
  "map fst (over f xs) = map fst xs" "over f xs = [] \<longleftrightarrow> xs = []" "length (over f xs) = length xs"
  by (induction xs) (auto simp: over_def)

lemma over_delete: "over f (AList.delete h xs) = AList.delete h (over f xs)"
  by (induction xs) (auto simp: over_def)

lemma over_update: "over f (AList.update h x xs) = AList.update h (f x) (over f xs)"
  by (induction xs) (auto simp: over_def)

lemma over_set: "(h, y) \<in> set (over f xs) \<longleftrightarrow> (\<exists>x. (h, x) \<in> set xs \<and> y = f x)"
  by (force simp: over_def)

lemma over_cong: "(\<And>h x. (h, x) \<in> set xs \<Longrightarrow> f x = g x) \<Longrightarrow> over f xs = over g xs"
  by (auto simp: over_def)

lemma over_update_same:
  "over f xs = over g ys \<Longrightarrow> f x = g y \<Longrightarrow> over f (AList.update h x xs) = over g (AList.update h y ys)"
  by (simp add: over_update)

lemma over_delete_same: "over f xs = over g ys \<Longrightarrow> over f (AList.delete h xs) = over g (AList.delete h ys)"
  by (simp add: over_delete)

definition subject_view :: "'k subject \<Rightarrow> 'k \<times> slot_id \<times> bool" where
  "subject_view sub = (subject_key sub, subject_slot sub, subject_completed sub)"

definition spec_subject_view :: "(nat \<Rightarrow> slot_id) \<Rightarrow> 'k \<times> nat \<times> bool \<Rightarrow> 'k \<times> slot_id \<times> bool" where
  "spec_subject_view slot_for = (\<lambda>(k, g, c). (k, slot_for g, c))"

definition spec_future_view :: "(nat \<Rightarrow> slot_id) \<Rightarrow> nat \<times> waker list \<Rightarrow> future" where
  "spec_future_view slot_for = (\<lambda>(g, ks). \<lparr>future_slot = slot_for g, future_wakers = ks\<rparr>)"

definition same_program :: "(nat \<Rightarrow> slot_id) \<Rightarrow> ('k, 'o) spec \<Rightarrow> ('k, 'o) world \<Rightarrow> bool" where
  "same_program slot_for a w \<longleftrightarrow>
     spaces w = spec_spaces a \<and> next_handle w = names a \<and> retiring w = [] \<and> dying w = [] \<and>
     over subject_view (subjects w) = over (spec_subject_view slot_for) (spec_subjects a) \<and>
     publishers w = over slot_for (spec_publishers a) \<and>
     observations w = over slot_for (spec_observations a) \<and>
     futures w = over (spec_future_view slot_for) (spec_futures a) \<and>
     created w = published a \<and> moved w = taken a \<and> woken w = events a \<and>
     (\<forall>i. inner w = Some i \<longrightarrow> next_generation i = drawn a)"

definition held :: "('k, 'o) spec \<Rightarrow> nat set" where
  "held a = {g. \<exists>h k c. (h, k, g, c) \<in> set (spec_subjects a)} \<union> snd ` set (spec_publishers a)
     \<union> snd ` set (spec_observations a) \<union> {g. \<exists>h ks. (h, g, ks) \<in> set (spec_futures a)}"

definition refines :: "(nat \<Rightarrow> slot_id) \<Rightarrow> ('k, 'o) spec \<Rightarrow> ('k, 'o) world \<Rightarrow> bool" where
  "refines slot_for a w \<longleftrightarrow> wf w \<and> same_program slot_for a w \<and> inj_on slot_for (held a) \<and>
     (\<forall>g\<in>held a. g < generations a) \<and>
     (\<forall>g\<in>held a. value_at w (slot_for g) = value_of a g \<and> waiting_at w (slot_for g) = waiting_of a g)"

lemma refinesD:
  assumes "refines slot_for a w"
  shows "wf w" "same_program slot_for a w" "inj_on slot_for (held a)"
    "g \<in> held a \<Longrightarrow> g < generations a"
    "g \<in> held a \<Longrightarrow> value_at w (slot_for g) = value_of a g"
    "g \<in> held a \<Longrightarrow> waiting_at w (slot_for g) = waiting_of a g"
  using assms by (auto simp: refines_def)

lemma refinesI:
  assumes "wf w" "same_program slot_for a w" "inj_on slot_for (held a)"
    and "\<And>g. g \<in> held a \<Longrightarrow> g < generations a"
    and "\<And>g. g \<in> held a \<Longrightarrow> value_at w (slot_for g) = value_of a g \<and> waiting_at w (slot_for g) = waiting_of a g"
  shows "refines slot_for a w"
  using assms by (auto simp: refines_def)

lemma same_programD:
  assumes "same_program slot_for a w"
  shows "spaces w = spec_spaces a" "next_handle w = names a" "retiring w = []" "dying w = []"
    "over subject_view (subjects w) = over (spec_subject_view slot_for) (spec_subjects a)"
    "publishers w = over slot_for (spec_publishers a)"
    "observations w = over slot_for (spec_observations a)"
    "futures w = over (spec_future_view slot_for) (spec_futures a)"
    "created w = published a" "moved w = taken a" "woken w = events a"
    "inner w = Some i \<Longrightarrow> next_generation i = drawn a"
  using assms by (simp_all add: same_program_def)

lemma space_new_refines: "refines slot_for spec_new space_new"
  by (rule refinesI)
    (simp_all add: space_new_wf same_program_def held_def spec_new_def, simp_all add: space_new_def)

text \<open>The handles of the two sides.\<close>

lemma spec_subject:
  assumes "same_program slot_for a w" and "map_of (spec_subjects a) h = Some (k, g, c)"
  obtains sub where "map_of (subjects w) h = Some sub" "subject_key sub = k" "subject_slot sub = slot_for g"
    "subject_completed sub = c"
proof -
  have "map_of (over subject_view (subjects w)) h = Some (k, slot_for g, c)"
    using same_programD(5) [OF assms(1)] assms(2) by (simp add: spec_subject_view_def)
  then obtain sub where "map_of (subjects w) h = Some sub" "subject_view sub = (k, slot_for g, c)" by auto
  with that show ?thesis by (auto simp: subject_view_def)
qed

lemma spec_subject_none:
  assumes "same_program slot_for a w"
  shows "map_of (subjects w) h = None \<longleftrightarrow> map_of (spec_subjects a) h = None"
proof -
  have "map_of (over subject_view (subjects w)) h = map_of (over (spec_subject_view slot_for) (spec_subjects a)) h"
    using same_programD(5) [OF assms] by simp
  then show ?thesis by (cases "map_of (subjects w) h"; cases "map_of (spec_subjects a) h"; simp)
qed

lemma held_handles:
  "(h, k, g, c) \<in> set (spec_subjects a) \<Longrightarrow> g \<in> held a"
  "(h, g) \<in> set (spec_publishers a) \<Longrightarrow> g \<in> held a"
  "(h, g) \<in> set (spec_observations a) \<Longrightarrow> g \<in> held a"
  "(h, g, ks) \<in> set (spec_futures a) \<Longrightarrow> g \<in> held a"
  unfolding held_def using image_eqI [of g snd "(h, g)"] by auto

lemma held_refs:
  assumes "same_program slot_for a w" and "g \<in> held a"
  shows "slot_for g \<in># slot_refs w"
proof -
  note d = same_programD [OF assms(1)]
  from assms(2) consider h k c where "(h, k, g, c) \<in> set (spec_subjects a)"
    | h where "(h, g) \<in> set (spec_publishers a)" | h where "(h, g) \<in> set (spec_observations a)"
    | h ks where "(h, g, ks) \<in> set (spec_futures a)" by (auto simp: held_def)
  then show ?thesis
  proof cases
    case 1
    then have "(h, k, slot_for g, c) \<in> set (over subject_view (subjects w))"
      unfolding d(5) by (force simp: over_set spec_subject_view_def)
    then obtain sub where "(h, sub) \<in> set (subjects w)" "subject_slot sub = slot_for g"
      by (auto simp: over_set subject_view_def)
    then show ?thesis unfolding slot_refs_iff by blast
  next
    case 2
    then have "(h, slot_for g) \<in> set (publishers w)" unfolding d(6) by (auto simp: over_set)
    then show ?thesis by (auto simp: slot_refs_iff)
  next
    case 3
    then have "(h, slot_for g) \<in> set (observations w)" unfolding d(7) by (auto simp: over_set)
    then show ?thesis by (auto simp: slot_refs_iff)
  next
    case 4
    then have "(h, \<lparr>future_slot = slot_for g, future_wakers = ks\<rparr>) \<in> set (futures w)"
      unfolding d(8) by (force simp: over_set spec_future_view_def)
    then obtain fut where "(h, fut) \<in> set (futures w)" "future_slot fut = slot_for g" by simp
    then show ?thesis unfolding slot_refs_iff by blast
  qed
qed

lemma held_slot:
  assumes "refines slot_for a w" and "g \<in> held a"
  obtains sl where "heap w (slot_for g) = Some sl" "slot_ok sl" "outcome sl = value_of a g"
    "registered sl = waiting_of a g"
proof -
  note wf = refinesD(1) [OF assms(1)]
  obtain sl where sl: "heap w (slot_for g) = Some sl"
    using ref_heap [OF wf held_refs [OF refinesD(2) [OF assms(1)] assms(2)]] by blast
  show ?thesis
    by (rule that [OF sl])
      (use heap_slot_ok [OF wf sl] refinesD(5,6) [OF assms] sl in \<open>simp_all add: value_at_def waiting_at_def\<close>)
qed

text \<open>Steps that let go of handles, and steps on one slot.\<close>

lemma refines_same_cells:
  assumes r: "refines slot_for a w" and "wf w'" and same: "same_program slot_for a' w'"
    and "held a' \<subseteq> held a" and "generations a' = generations a"
    and "\<And>g. g \<in> held a' \<Longrightarrow> value_of a' g = value_of a g" "\<And>g. g \<in> held a' \<Longrightarrow> waiting_of a' g = waiting_of a g"
    and heap: "\<And>t. t \<in># slot_refs w' \<Longrightarrow> heap w' t = heap w t"
  shows "refines slot_for a' w'"
proof (rule refinesI [OF assms(2) same inj_on_subset [OF refinesD(3) [OF r] assms(4)]])
  fix g assume g: "g \<in> held a'"
  then have "g \<in> held a" using assms(4) by blast
  with refinesD(4,5,6) [OF r] assms(5-7) g heap [OF held_refs [OF same g]]
  show "g < generations a'" "value_at w' (slot_for g) = value_of a' g \<and> waiting_at w' (slot_for g) = waiting_of a' g"
    by (simp_all add: value_at_def waiting_at_def)
qed

lemma refines_touch:
  assumes r: "refines slot_for a w" and "wf w'" and same: "same_program slot_for a' w'"
    and g: "g \<in> held a" and sub: "held a' \<subseteq> held a" and gens: "generations a' = generations a"
    and cells: "value_of a' = (value_of a)(g := outcome sl')" "waiting_of a' = (waiting_of a)(g := registered sl')"
    and here: "g \<in> held a' \<Longrightarrow> heap w' (slot_for g) = Some sl'"
    and there: "\<And>t. t \<in># slot_refs w' \<Longrightarrow> t \<noteq> slot_for g \<Longrightarrow> heap w' t = heap w t"
  shows "refines slot_for a' w'"
proof (rule refinesI [OF assms(2) same inj_on_subset [OF refinesD(3) [OF r] sub]])
  fix u assume u: "u \<in> held a'"
  then have ua: "u \<in> held a" using sub by blast
  then show "u < generations a'" using refinesD(4) [OF r] gens by simp
  show "value_at w' (slot_for u) = value_of a' u \<and> waiting_at w' (slot_for u) = waiting_of a' u"
  proof (cases "u = g")
    case True
    with here u show ?thesis by (simp add: cells value_at_def waiting_at_def)
  next
    case False
    then have "slot_for u \<noteq> slot_for g" using refinesD(3) [OF r] ua g by (auto dest: inj_onD)
    from there [OF held_refs [OF same u] this] False refinesD(5,6) [OF r ua] show ?thesis
      by (simp add: cells value_at_def waiting_at_def)
  qed
qed

subsection \<open>Operations that change no handle or add one\<close>

lemma perform_simple:
  "whole op \<Longrightarrow> rest_of op = [] \<Longrightarrow> owns op w \<Longrightarrow> exec sc wp op w = Inr (r, w') \<Longrightarrow>
   perform sc wp op w = Some (r, w')"
  by (simp add: perform_def)

lemma update_subset: "set (AList.update h x xs) \<subseteq> insert (h, x) (set xs)"
  by (induction xs) auto

lemma held_subset:
  assumes "\<And>h k g c. (h, k, g, c) \<in> set (spec_subjects a) \<Longrightarrow> g \<in> G"
    and "\<And>h g. (h, g) \<in> set (spec_publishers a) \<Longrightarrow> g \<in> G"
    and "\<And>h g. (h, g) \<in> set (spec_observations a) \<Longrightarrow> g \<in> G"
    and "\<And>h g ks. (h, g, ks) \<in> set (spec_futures a) \<Longrightarrow> g \<in> G"
  shows "held a \<subseteq> G"
  using assms unfolding held_def by fastforce

lemma delete_mem: "(h', x) \<in> set (AList.delete h xs) \<Longrightarrow> (h', x) \<in> set xs"
  using set_delete_subset by fast

lemma update_mem: "(h', y) \<in> set (AList.update h x xs) \<Longrightarrow> (h', y) \<in> set xs \<or> y = x"
  using update_subset by fast

lemma spec_observation:
  assumes "same_program slot_for a w" and "map_of (spec_observations a) h = Some g"
  shows "map_of (observations w) h = Some (slot_for g)" and "g \<in> held a"
  using same_programD(7) [OF assms(1)] assms(2) held_handles(3) [OF map_of_SomeD [OF assms(2)]] by simp_all

lemma spec_publisher:
  assumes "same_program slot_for a w" and "map_of (spec_publishers a) h = Some g"
  shows "map_of (publishers w) h = Some (slot_for g)" and "g \<in> held a"
  using same_programD(6) [OF assms(1)] assms(2) held_handles(2) [OF map_of_SomeD [OF assms(2)]] by simp_all

lemma spec_future:
  assumes "same_program slot_for a w" and "map_of (spec_futures a) h = Some (g, ks)"
  shows "map_of (futures w) h = Some \<lparr>future_slot = slot_for g, future_wakers = ks\<rparr>" and "g \<in> held a"
  using same_programD(8) [OF assms(1)] assms(2) held_handles(4) [OF map_of_SomeD [OF assms(2)]]
  by (simp_all add: spec_future_view_def)

text \<open>One slot touched, all handles as before.\<close>

lemma refines_set_waiting:
  assumes r: "refines slot_for a w" and g: "g \<in> held a" and hp: "heap w (slot_for g) = Some sl"
    and ok: "wf (w\<lparr>heap := (heap w)(slot_for g \<mapsto> sl')\<rparr>)"
    and sl': "outcome sl' = outcome sl" "registered sl' = ws"
  shows "refines slot_for (set_waiting g ws a) (w\<lparr>heap := (heap w)(slot_for g \<mapsto> sl')\<rparr>)"
proof (rule refines_touch [OF r ok, of _ g sl'])
  show "same_program slot_for (set_waiting g ws a) (w\<lparr>heap := (heap w)(slot_for g \<mapsto> sl')\<rparr>)"
    using refinesD(2) [OF r] by (simp add: same_program_def set_waiting_def)
  have "value_of a g = outcome sl" using refinesD(5) [OF r g] hp by (simp add: value_at_def)
  then show "value_of (set_waiting g ws a) = (value_of a)(g := outcome sl')"
    using sl' by (simp add: set_waiting_def fun_upd_idem)
qed (use g sl' in \<open>simp_all add: set_waiting_def held_def\<close>)

lemma sim_observation_ops:
  assumes r: "refines slot_for a w" and h: "map_of (spec_observations a) h = Some g"
  shows "spec_exec wp (TryGet h) a = Some (x, a') \<Longrightarrow> \<exists>w'. perform sc wp (TryGet h) w = Some (x, w') \<and> refines slot_for a' w'"
    and "spec_exec wp (RegisterWaker h k) a = Some (x, a') \<Longrightarrow>
      \<exists>w'. perform sc wp (RegisterWaker h k) w = Some (x, w') \<and> refines slot_for a' w'"
    and "spec_exec wp (Wait h t) a = Some (x, a') \<Longrightarrow>
      \<exists>w'. perform sc wp (Wait h t) w = Some (x, w') \<and> refines slot_for a' w'"
    and "spec_exec wp (WaitTimeout h t imax start timeout now) a = Some (x, a') \<Longrightarrow>
      \<exists>w'. perform sc wp (WaitTimeout h t imax start timeout now) w = Some (x, w') \<and> refines slot_for a' w'"
proof -
  note wf = refinesD(1) [OF r]
  note obs = spec_observation [OF refinesD(2) [OF r] h]
  obtain sl where sl: "heap w (slot_for g) = Some sl" "slot_ok sl" "outcome sl = value_of a g"
    "registered sl = waiting_of a g" by (rule held_slot [OF r obs(2)])
  have done_iff: "completed sl \<longleftrightarrow> value_of a g \<noteq> None" using slot_ok_outcome [OF sl(2)] sl(3) by simp
  note touch = refines_set_waiting [OF r obs(2) sl(1)]
  show "\<exists>w'. perform sc wp (TryGet h) w = Some (x, w') \<and> refines slot_for a' w'"
    if "spec_exec wp (TryGet h) a = Some (x, a')"
    using that r observation_try_get_eq [OF wf obs(1) sl(1)] obs h sl(3) by (auto simp: perform_def)
  show "\<exists>w'. perform sc wp (RegisterWaker h k) w = Some (x, w') \<and> refines slot_for a' w'"
    if "spec_exec wp (RegisterWaker h k) a = Some (x, a')"
  proof (cases "value_of a g")
    case None
    note eq = observation_register_waker_eq [OF wf obs(1) sl(1), of k]
    show ?thesis
      using that h None eq done_iff obs sl(4) touch [OF eq(2)] by (auto simp: perform_def)
  next
    case (Some v)
    with that h observation_register_waker_eq(1) [OF wf obs(1) sl(1), of k] done_iff obs r show ?thesis
      by (simp add: perform_def heap_same [OF sl(1)])
  qed
  show "\<exists>w'. perform sc wp (Wait h t) w = Some (x, w') \<and> refines slot_for a' w'"
    if "spec_exec wp (Wait h t) a = Some (x, a')"
  proof (cases "value_of a g")
    case None
    then have "outcome sl = None" using sl(3) by simp
    note ok = wf_push_thread [OF wf sl(1) this]
    show ?thesis
      using that h None observation_wait_eq [OF wf obs(1) sl(1), of t] sl(3,4) obs touch [OF ok] by (auto simp: perform_def)
  next
    case (Some v)
    with that h observation_wait_eq [OF wf obs(1) sl(1), of t] sl(3) obs r show ?thesis by (simp add: perform_def)
  qed
  show "\<exists>w'. perform sc wp (WaitTimeout h t imax start timeout now) w = Some (x, w') \<and> refines slot_for a' w'"
    if "spec_exec wp (WaitTimeout h t imax start timeout now) a = Some (x, a')"
  proof (cases "value_of a g")
    case None
    then have none: "outcome sl = None" using sl(3) by simp
    note ok = wf_push_thread [OF wf sl(1) none, of t] wf_remove_thread [OF wf sl(1) none, of t t]
    show ?thesis
      using that h None observation_wait_timeout_eq [OF wf obs(1) sl(1), of t imax start timeout now] sl(3,4) obs r
        touch [OF ok(1)] touch [OF ok(2)]
      by (auto simp: perform_def Let_def split: if_splits)
  next
    case (Some v)
    with that h observation_wait_timeout_eq [OF wf obs(1) sl(1), of t imax start timeout now] sl(3) obs r
    show ?thesis by (auto simp: perform_def split: if_splits)
  qed
qed

subsection \<open>Operations that let go of a handle\<close>

lemma sim_clone_observation:
  assumes r: "refines slot_for a w" and h: "map_of (spec_observations a) h = Some g"
    and ex: "spec_exec wp (CloneObservation h) a = Some (x, a')"
  shows "\<exists>w'. perform sc wp (CloneObservation h) w = Some (x, w') \<and> refines slot_for a' w'"
proof -
  note obs = spec_observation [OF refinesD(2) [OF r] h]
  note eq = observation_clone_eq [OF refinesD(1) [OF r] obs(1)]
  let ?w = "w\<lparr>next_handle := next_handle w + 1, observations := observations w @ [(next_handle w, slot_for g)]\<rparr>"
  have x: "x = Ret (NewHandle (names a))"
    and a': "a' = a\<lparr>names := names a + 1, spec_observations := spec_observations a @ [(names a, g)]\<rparr>"
    using ex h by simp_all
  note names = same_programD(2) [OF refinesD(2) [OF r]]
  have "refines slot_for a' ?w"
    by (rule refines_same_cells [OF r eq(2)])
      (use refinesD(2) [OF r] obs(2) in \<open>auto simp: a' same_program_def held_def\<close>)
  with eq(1) obs(1) x names show ?thesis by (intro exI [of _ ?w]) (simp add: perform_def)
qed

text \<open>After a handle is dropped, its slot may be freed; the slots still held are as they were.\<close>

lemma refines_released:
  assumes r: "refines slot_for a w" and "arc_sound sc" and "wf (released sc s w1)"
    and same: "same_program slot_for a' w1" and heap: "heap w1 = heap w"
    and "held a' \<subseteq> held a" and "generations a' = generations a" "value_of a' = value_of a" "waiting_of a' = waiting_of a"
  shows "refines slot_for a' (released sc s w1)"
proof (rule refines_same_cells [OF r assms(3)])
  show "same_program slot_for a' (released sc s w1)" using same by (simp add: same_program_def)
  show "heap (released sc s w1) t = heap w t" if "t \<in># slot_refs (released sc s w1)" for t
    using released_kept [OF assms(2) that] heap by simp
qed (use assms in simp_all)

lemma sim_drop_observation:
  assumes r: "refines slot_for a w" and snd: "arc_sound sc" and h: "map_of (spec_observations a) h = Some g"
    and ex: "spec_exec wp (DropObservation h) a = Some (x, a')"
  shows "\<exists>w'. perform sc wp (DropObservation h) w = Some (x, w') \<and> refines slot_for a' w'"
proof -
  note obs = spec_observation [OF refinesD(2) [OF r] h]
  note eq = observation_drop_eq [OF refinesD(1) [OF r] snd obs(1)]
  have a': "x = Ret Done" "a' = a\<lparr>spec_observations := AList.delete h (spec_observations a)\<rparr>"
    using ex h by simp_all
  have "refines slot_for a' (released sc (slot_for g) (w\<lparr>observations := AList.delete h (observations w)\<rparr>))"
    by (rule refines_released [OF r snd eq(2)])
      (use refinesD(2) [OF r] set_delete_subset [of h "spec_observations a"] in \<open>auto simp: a' same_program_def over_delete held_def\<close>)
  with eq(1) obs(1) a'(1) show ?thesis by (simp add: perform_def)
qed

lemma sim_drop_publisher:
  assumes r: "refines slot_for a w" and snd: "arc_sound sc" and h: "map_of (spec_publishers a) h = Some g"
    and ex: "spec_exec wp (DropPublisher h) a = Some (x, a')"
  shows "\<exists>w'. perform sc wp (DropPublisher h) w = Some (x, w') \<and> refines slot_for a' w'"
proof -
  note pub = spec_publisher [OF refinesD(2) [OF r] h]
  note eq = publisher_drop_eq [OF refinesD(1) [OF r] snd pub(1)]
  have a': "x = Ret Done" "a' = a\<lparr>spec_publishers := AList.delete h (spec_publishers a)\<rparr>"
    using ex h by simp_all
  have "refines slot_for a' (released sc (slot_for g) (w\<lparr>publishers := AList.delete h (publishers w)\<rparr>))"
    by (rule refines_released [OF r snd eq(2)])
      (use refinesD(2) [OF r] set_delete_subset [of h "spec_publishers a"] in \<open>auto simp: a' same_program_def over_delete held_def\<close>)
  with eq(1) pub(1) a'(1) show ?thesis by (simp add: perform_def)
qed

lemma count_image: "count (image_mset f (mset xs)) s = length (filter (\<lambda>x. f x = s) xs)"
  by (induction xs) auto

lemma count_over:
  assumes "\<And>h x. (h, x) \<in> set xs \<Longrightarrow> P (f x) \<longleftrightarrow> Q x"
  shows "length (filter (\<lambda>x. P (snd x)) (over f xs)) = length (filter (\<lambda>(h, x). Q x) xs)"
  using assms
proof (induction xs)
  case (Cons y xs)
  obtain h x where y: "y = (h, x)" by (cases y)
  have "length (filter (\<lambda>x. P (snd x)) (over f xs)) = length (filter (\<lambda>(h, x). Q x) xs)"
    by (rule Cons.IH) (metis Cons.prems list.set_intros(2))
  with Cons.prems [of h x] y show ?case by simp
qed simp

lemma length_filter_view: "length (filter (\<lambda>x. P (f (snd x))) xs) = length (filter (\<lambda>x. P (snd x)) (over f xs))"
  by (induction xs) (auto simp: over_def)

text \<open>The reference count of an observed slot is the number of holders of its generation.\<close>

lemma holders_count:
  assumes r: "refines slot_for a w" and h: "map_of (spec_observations a) h = Some g"
  shows "count (slot_refs w) (slot_for g) = holders g a"
proof -
  note wf = refinesD(1) [OF r] and same = refinesD(2) [OF r]
  note d = same_programD [OF same] and obs = spec_observation [OF same h]
  let ?s = "slot_for g"
  have inj: "slot_for u = ?s \<longleftrightarrow> u = g" if "u \<in> held a" for u
    using refinesD(3) [OF r] that obs(2) by (auto dest: inj_onD)
  have subs: "length (filter (\<lambda>x. subject_slot (snd x) = ?s) (subjects w)) =
    length (filter (\<lambda>(h, k, g', c). g' = g) (spec_subjects a))"
  proof -
    have "length (filter (\<lambda>x. subject_slot (snd x) = ?s) (subjects w)) =
      length (filter (\<lambda>x. (case subject_view (snd x) of (k, s, c) \<Rightarrow> s = ?s)) (subjects w))"
      by (simp add: subject_view_def)
    also have "\<dots> = length (filter (\<lambda>(h, k, g', c). g' = g) (spec_subjects a))"
      unfolding length_filter_view [of "\<lambda>y. case y of (k, s, c) \<Rightarrow> s = ?s" subject_view] d(5)
      by (rule count_over) (auto simp: spec_subject_view_def inj [OF held_handles(1)])
    finally show ?thesis .
  qed
  have table: "count (table_refs (inner w)) ?s = length (filter (\<lambda>x. subject_slot (snd x) = ?s) (subjects w))"
  proof (cases "inner w")
    case None
    then have "subjects w = []" using wfD(4) [OF wf] by (simp add: table_inv_def)
    with None show ?thesis by (simp add: table_refs_def)
  next
    case (Some i)
    have "?s \<in> reader_slots w" using map_of_SomeD [OF obs(1)] by (force simp: reader_slots_def)
    then have "?s \<notin> set (pool (entries_of i))"
      using wfD(5) [OF wf] Some by (auto simp: authority_inv_def pool_of_inner)
    moreover have "image_mset (entry_slot \<circ> snd) (mset (sm_entries (kmap (entries_of i)))) =
      image_mset (subject_slot \<circ> snd) (mset (subjects w))"
    proof -
      have "mset (sm_entries (kmap (entries_of i))) = image_mset (entry_of \<circ> snd) (mset (subjects w))"
        using wfD(4) [OF wf] Some by (simp add: table_inv_def)
      then show ?thesis by (simp add: multiset.map_comp) (auto simp: entry_of_def intro: image_mset_cong)
    qed
    ultimately show ?thesis using Some by (simp add: table_refs_def count_image count_mset_0_iff)
  qed
  have pubs: "length (filter (\<lambda>x. snd x = ?s) (publishers w)) = length (filter (\<lambda>(h, g'). g' = g) (spec_publishers a))"
    unfolding d(6) by (rule count_over) (rule inj [OF held_handles(2)])
  have obss: "length (filter (\<lambda>x. snd x = ?s) (observations w)) = length (filter (\<lambda>(h, g'). g' = g) (spec_observations a))"
    unfolding d(7) by (rule count_over) (rule inj [OF held_handles(3)])
  have futs: "length (filter (\<lambda>x. future_slot (snd x) = ?s) (futures w)) =
    length (filter (\<lambda>(h, g', ks). g' = g) (spec_futures a))"
    unfolding d(8) by (rule count_over) (auto simp: spec_future_view_def inj [OF held_handles(4)])
  show ?thesis
    using subs table pubs obss futs d(3,4) by (simp add: slot_refs_def count_image holders_def comp_def)
qed

lemma sim_into_outcome:
  assumes r: "refines slot_for a w" and exact: "arc_exact sc" and h: "map_of (spec_observations a) h = Some g"
    and ex: "spec_exec wp (IntoOutcome h) a = Some (x, a')"
  shows "\<exists>w'. perform sc wp (IntoOutcome h) w = Some (x, w') \<and> refines slot_for a' w'"
proof -
  note wf = refinesD(1) [OF r] and snd = arc_exact_sound [OF exact]
  note obs = spec_observation [OF refinesD(2) [OF r] h]
  obtain sl where sl: "heap w (slot_for g) = Some sl" "slot_ok sl" "outcome sl = value_of a g"
    "registered sl = waiting_of a g" by (rule held_slot [OF r obs(2)])
  let ?w1 = "w\<lparr>observations := AList.delete h (observations w)\<rparr>"
  note eq = observation_into_outcome_eq [OF wf obs(1) sl(1), of sc]
  have sc: "sc w (SlotArc (slot_for g)) = holders g a"
    using exact holders_count [OF r h] by (simp add: arc_exact_def)
  obtain x' w' where w': "observation_into_outcome sc h w = Inr (x', w')" "wf w'"
    using observation_into_outcome_wf [OF wf snd obs(1)] by blast
  have sub: "held a' \<subseteq> held a"
    using ex h set_delete_subset [of h "spec_observations a"] by (auto simp: held_def Let_def)
  show ?thesis
  proof (cases "holders g a = 1")
    case True
    have refs: "slot_refs w = add_mset (slot_for g) (slot_refs ?w1)"
      by (simp add: slot_refs_def alist_split [OF handles_distinct(6) [OF wf] obs(1)])
    have gone: "slot_for g \<notin># slot_refs ?w1" by (rule sole_owner [OF snd _ refs]) (use sc True in simp)
    from True eq sc w' have e: "x' = Ret (Value (outcome sl))"
      "w' = ?w1\<lparr>heap := (heap w)(slot_for g := None), moved := moved w @ cell sl\<rparr>" by simp_all
    have "refines slot_for a' w'"
    proof (rule refines_same_cells [OF r w'(2) _ sub])
      show "same_program slot_for a' w'"
        using refinesD(2) [OF r] ex h True sl(3)
        by (auto simp: e same_program_def over_delete cell_def Let_def split: option.splits)
      show "heap w' t = heap w t" if "t \<in># slot_refs w'" for t
        using that gone by (auto simp: e slot_refs_def)
    qed (use ex h in \<open>auto simp: Let_def\<close>)
    with w'(1) e(1) True ex h sl(3) obs(1) show ?thesis by (auto simp: perform_def Let_def)
  next
    case False
    from False eq sc w' have e: "x' = Ret (Value None)" "w' = released sc (slot_for g) ?w1" by simp_all
    have "refines slot_for a' (released sc (slot_for g) ?w1)"
      by (rule refines_released [OF r snd w'(2) [unfolded e(2)] _ _ sub])
        (use refinesD(2) [OF r] ex h False in \<open>auto simp: same_program_def over_delete Let_def\<close>)
    with w'(1) e False ex h obs(1) show ?thesis by (auto simp: perform_def Let_def)
  qed
qed

subsection \<open>Publication\<close>

lemma published_registered: "slot_ok sl \<Longrightarrow> registered (published_slot v sl) = []"
  by (rule published_slot_ok [THEN conjunct2])

lemma sim_complete:
  assumes r: "refines slot_for a w" and h: "map_of (spec_subjects a) h = Some (k, g, c)"
    and ex: "spec_exec wp (Complete h v) a = Some (x, a')"
  shows "\<exists>w'. perform sc wp (Complete h v) w = Some (x, w') \<and> refines slot_for a' w'"
proof -
  note wf = refinesD(1) [OF r] and same = refinesD(2) [OF r]
  obtain sub where sub: "map_of (subjects w) h = Some sub" "subject_key sub = k" "subject_slot sub = slot_for g"
    "subject_completed sub = c" by (rule spec_subject [OF same h])
  have g: "g \<in> held a" by (rule held_handles(1) [OF map_of_SomeD [OF h]])
  show ?thesis
  proof (cases c)
    case True
    have "refines slot_for a' (w\<lparr>created := created w @ [v], dropped := dropped w @ [v]\<rparr>)"
      by (rule refines_same_cells [OF r wf_account [OF wf]])
        (use same ex h True in \<open>auto simp: same_program_def held_def\<close>)
    with ex h True sub(4) subject_complete_twice [OF wf sub(1), of wp v] show ?thesis
      by (auto simp: perform_def sub(1))
  next
    case False
    obtain sl where sl: "heap w (slot_for g) = Some sl" "slot_ok sl" "outcome sl = value_of a g"
      "registered sl = waiting_of a g" by (rule held_slot [OF r g])
    have pend: "\<not> subject_completed sub" and hp: "heap w (subject_slot sub) = Some sl" using sub sl False by simp_all
    let ?w = "w\<lparr>subjects := AList.update h (sub\<lparr>subject_completed := True\<rparr>) (subjects w),
        heap := (heap w)(subject_slot sub \<mapsto> published_slot v sl),
        created := created w @ [v], woken := woken w @ map event_of (registered sl)\<rparr>"
    have a': "x = done_or_panic (drain_result wp (waiting_of a g))"
      "a' = (publish_generation g v a)\<lparr>spec_subjects := AList.update h (k, g, True) (spec_subjects a)\<rparr>"
      using ex h False by simp_all
    have "refines slot_for a' ?w"
    proof (rule refines_touch [OF r, where g = g and sl' = "published_slot v sl"])
      show "wf ?w" by (rule subject_complete_wf [OF wf sub(1) pend hp])
      show "same_program slot_for a' ?w"
        using same over_update_same [OF same_programD(5) [OF same], of "sub\<lparr>subject_completed := True\<rparr>" "(k, g, True)" h] sub sl(4)
        by (simp add: a' same_program_def publish_generation_def subject_view_def spec_subject_view_def)
      show "held a' \<subseteq> held a"
        by (rule held_subset) (use g in \<open>auto simp: a' publish_generation_def dest!: update_mem intro: held_handles\<close>)
    qed (use g sub sl(2) in \<open>auto simp: a' publish_generation_def published_registered\<close>)
    with subject_complete_eq [OF wf sub(1) pend hp, of wp v] a'(1) sl(4) sub(1) show ?thesis
      by (intro exI [of _ ?w]) (simp add: perform_def)
  qed
qed

lemma sim_publish:
  assumes r: "refines slot_for a w" and snd: "arc_sound sc" and h: "map_of (spec_publishers a) h = Some g"
    and ex: "spec_exec wp (Publish h v) a = Some (x, a')"
  shows "\<exists>w'. perform sc wp (Publish h v) w = Some (x, w') \<and> refines slot_for a' w'"
proof -
  note wf = refinesD(1) [OF r] and same = refinesD(2) [OF r]
  note pub = spec_publisher [OF same h]
  obtain sl where sl: "heap w (slot_for g) = Some sl" "slot_ok sl" "outcome sl = value_of a g"
    "registered sl = waiting_of a g" by (rule held_slot [OF r pub(2)])
  let ?w1 = "w\<lparr>heap := (heap w)(slot_for g \<mapsto> published_slot v sl), created := created w @ [v],
      publishers := AList.delete h (publishers w), woken := woken w @ map event_of (registered sl)\<rparr>"
  note eq = publisher_complete_eq(1) [OF wf snd pub(1) sl(1), of wp v] publisher_complete_eq(2) [OF wf snd pub(1) sl(1), of v]
  have a': "x = done_or_panic (drain_result wp (waiting_of a g))"
    "a' = (publish_generation g v a)\<lparr>spec_publishers := AList.delete h (spec_publishers a)\<rparr>"
    using ex h by simp_all
  have prog: "same_program slot_for a' (released sc (slot_for g) ?w1)"
    using same sl(4) by (simp add: a' same_program_def publish_generation_def over_delete)
  have "refines slot_for a' (released sc (slot_for g) ?w1)"
  proof (rule refines_touch [OF r eq(2) prog, of g "published_slot v sl"])
    show "heap (released sc (slot_for g) ?w1) (slot_for g) = Some (published_slot v sl)" if "g \<in> held a'"
      using released_kept [OF snd held_refs [OF prog that]] by simp
    show "heap (released sc (slot_for g) ?w1) t = heap w t"
      if "t \<in># slot_refs (released sc (slot_for g) ?w1)" "t \<noteq> slot_for g" for t
      using released_kept [OF snd that(1)] that(2) by simp
    show "held a' \<subseteq> held a"
      by (rule held_subset) (auto simp: a' publish_generation_def dest: delete_mem intro: held_handles)
  qed (use pub(2) sl(2) in \<open>simp_all add: a' publish_generation_def published_registered\<close>)
  with eq(1) a'(1) sl(4) pub(1) show ?thesis by (simp add: perform_def)
qed

subsection \<open>Futures\<close>

lemma sim_into_future:
  assumes r: "refines slot_for a w" and h: "map_of (spec_observations a) h = Some g"
    and ex: "spec_exec wp (IntoFuture h) a = Some (x, a')"
  shows "\<exists>w'. perform sc wp (IntoFuture h) w = Some (x, w') \<and> refines slot_for a' w'"
proof -
  note obs = spec_observation [OF refinesD(2) [OF r] h]
  note eq = into_future_eq [OF refinesD(1) [OF r] obs(1)]
  let ?w = "w\<lparr>observations := AList.delete h (observations w),
      futures := futures w @ [(h, \<lparr>future_slot = slot_for g, future_wakers = []\<rparr>)]\<rparr>"
  have a': "x = Ret (NewHandle h)" "a' = a\<lparr>spec_observations := AList.delete h (spec_observations a),
       spec_futures := spec_futures a @ [(h, g, [])]\<rparr>"
    using ex h by simp_all
  have "refines slot_for a' ?w"
    by (rule refines_same_cells [OF r eq(2)])
      (use refinesD(2) [OF r] obs(2) set_delete_subset [of h "spec_observations a"] in
        \<open>auto simp: a' same_program_def over_delete spec_future_view_def held_def\<close>)
  with eq(1) a'(1) obs(1) show ?thesis by (intro exI [of _ ?w]) (simp add: perform_def)
qed

lemma sim_poll:
  assumes r: "refines slot_for a w" and h: "map_of (spec_futures a) h = Some (g, mine)"
    and ex: "spec_exec wp (Poll h k) a = Some (x, a')"
  shows "\<exists>w'. perform sc wp (Poll h k) w = Some (x, w') \<and> refines slot_for a' w'"
proof -
  note wf = refinesD(1) [OF r] and same = refinesD(2) [OF r]
  note fut = spec_future [OF same h]
  let ?f = "\<lparr>future_slot = slot_for g, future_wakers = mine\<rparr>"
  obtain sl where sl: "heap w (slot_for g) = Some sl" "slot_ok sl" "outcome sl = value_of a g"
    "registered sl = waiting_of a g" by (rule held_slot [OF r fut(2)])
  have hp: "heap w (future_slot ?f) = Some sl" using sl(1) by simp
  note eq = future_poll_eq [OF wf fut(1) hp, of k]
  show ?thesis
  proof (cases "value_of a g")
    case (Some v)
    with ex h eq sl(3) fut(1) r show ?thesis by (auto simp: perform_def)
  next
    case None
    then have none: "outcome sl = None" using sl(3) by simp
    show ?thesis
    proof (cases "k \<in> set mine")
      case True
      with None ex h eq sl(3) fut(1) r show ?thesis by (auto simp: perform_def)
    next
      case new: False
      show ?thesis
      proof (cases "future_registered k (waiting_of a g)")
        case (Panic p)
        let ?w = "w\<lparr>heap := (heap w)(slot_for g \<mapsto> with_registry (registered sl) sl)\<rparr>"
        have "wf ?w"
          by (rule wf_touch [OF wf sl(1)])
            (use sl(2) none slot_ok_outcome [OF sl(2)] in \<open>auto intro: with_registry_ok simp: slot_ok_def\<close>)
        from refines_set_waiting [OF r fut(2) sl(1) this, of "waiting_of a g"] sl(4)
        have "refines slot_for a ?w" by (simp add: set_waiting_def)
        with Panic None new ex h eq sl fut(1) show ?thesis by (auto simp: perform_def)
      next
        case (Ret ws)
        let ?fs = "AList.update h (?f\<lparr>future_wakers := mine @ [k]\<rparr>) (futures w)"
        let ?w = "w\<lparr>heap := (heap w)(slot_for g \<mapsto> with_registry ws sl), futures := ?fs\<rparr>"
        have ok: "wf ?w" using future_poll_wf [OF wf fut(1) hp none, of k ws] new Ret sl(4) by simp
        have a': "x = Ret (Polled Pending)"
          "a' = (set_waiting g ws a)\<lparr>spec_futures := AList.update h (g, mine @ [k]) (spec_futures a)\<rparr>"
          using ex h None new Ret by simp_all
        have fs: "over (spec_future_view slot_for) (AList.update h (g, mine @ [k]) (spec_futures a)) = ?fs"
          by (simp add: over_update same_programD(8) [OF same] spec_future_view_def)
        have "refines slot_for a' ?w"
        proof (rule refines_touch [OF r ok, of _ g "with_registry ws sl"])
          show "same_program slot_for a' ?w"
            using same by (simp add: a' same_program_def set_waiting_def fs)
          show "held a' \<subseteq> held a"
            by (rule held_subset) (use fut(2) in \<open>auto simp: a' set_waiting_def dest!: update_mem intro: held_handles\<close>)
          show "value_of a' = (value_of a)(g := outcome (with_registry ws sl))"
            using sl(3) by (simp add: a' set_waiting_def fun_upd_idem)
        qed (use fut(2) in \<open>simp_all add: a' set_waiting_def\<close>)
        with Ret None new eq sl fut(1) a'(1) show ?thesis by (intro exI [of _ ?w]) (simp add: perform_def)
      qed
    qed
  qed
qed

lemma future_drop_registered:
  "future_drop mine sl = Inr sl' \<Longrightarrow> registered sl' = cancelled mine (registered sl)"
  by (auto simp: future_drop_def cancelled_def registry_eq split: if_splits sum.splits)

lemma sim_drop_future:
  assumes r: "refines slot_for a w" and snd: "arc_sound sc" and h: "map_of (spec_futures a) h = Some (g, mine)"
    and ex: "spec_exec wp (DropFuture h) a = Some (x, a')"
  shows "\<exists>w'. perform sc wp (DropFuture h) w = Some (x, w') \<and> refines slot_for a' w'"
proof -
  note wf = refinesD(1) [OF r] and same = refinesD(2) [OF r]
  note fut = spec_future [OF same h]
  let ?f = "\<lparr>future_slot = slot_for g, future_wakers = mine\<rparr>"
  obtain sl where sl: "heap w (slot_for g) = Some sl" "slot_ok sl" "outcome sl = value_of a g"
    "registered sl = waiting_of a g" by (rule held_slot [OF r fut(2)])
  have hp: "heap w (future_slot ?f) = Some sl" using sl(1) by simp
  obtain sl' where sl': "future_drop mine sl = Inr sl'"
    "observation_future_drop sc h w = Inr (Ret Done, released sc (slot_for g)
       (w\<lparr>heap := (heap w)(slot_for g \<mapsto> sl'), futures := AList.delete h (futures w)\<rparr>))"
    "wf (w\<lparr>heap := (heap w)(slot_for g \<mapsto> sl'), futures := AList.delete h (futures w)\<rparr>)"
    "outcome sl' = outcome sl"
    by (rule observation_future_drop_eq [OF wf snd fut(1) hp]) simp
  let ?w1 = "w\<lparr>heap := (heap w)(slot_for g \<mapsto> sl'), futures := AList.delete h (futures w)\<rparr>"
  have ok: "wf (released sc (slot_for g) ?w1)" by (rule wf_released [OF sl'(3) _ snd]) simp
  have reg: "registered sl' = cancelled mine (waiting_of a g)"
    using future_drop_registered [OF sl'(1)] sl(4) by simp
  have a': "x = Ret Done" "a' = (set_waiting g (cancelled mine (waiting_of a g)) a)
       \<lparr>spec_futures := AList.delete h (spec_futures a)\<rparr>"
    using ex h by simp_all
  have prog: "same_program slot_for a' (released sc (slot_for g) ?w1)"
    using same by (simp add: a' same_program_def set_waiting_def over_delete)
  have "refines slot_for a' (released sc (slot_for g) ?w1)"
  proof (rule refines_touch [OF r ok prog, of g sl'])
    show "heap (released sc (slot_for g) ?w1) (slot_for g) = Some sl'" if "g \<in> held a'"
      using released_kept [OF snd held_refs [OF prog that]] by simp
    show "heap (released sc (slot_for g) ?w1) t = heap w t"
      if "t \<in># slot_refs (released sc (slot_for g) ?w1)" "t \<noteq> slot_for g" for t
      using released_kept [OF snd that(1)] that(2) by simp
    show "held a' \<subseteq> held a"
      by (rule held_subset) (auto simp: a' set_waiting_def dest: delete_mem intro: held_handles)
    show "value_of a' = (value_of a)(g := outcome sl')"
      using sl(3) sl'(4) by (simp add: a' set_waiting_def fun_upd_idem)
  qed (use fut(2) reg in \<open>simp_all add: a' set_waiting_def\<close>)
  with sl'(2) a'(1) fut(1) show ?thesis by (simp add: perform_def)
qed

subsection \<open>New generations\<close>

lemma same_program_fresh:
  assumes r: "refines slot_for a w"
  shows "same_program (slot_for(generations a := s)) a w"
proof -
  note same = refinesD(2) [OF r]
  have ne: "generations a \<notin> held a" using refinesD(4) [OF r] by blast
  have "over (spec_subject_view (slot_for(generations a := s))) (spec_subjects a) = over (spec_subject_view slot_for) (spec_subjects a)"
    by (rule over_cong) (use ne in \<open>auto simp: spec_subject_view_def dest: held_handles(1)\<close>)
  moreover have "over (slot_for(generations a := s)) (spec_publishers a) = over slot_for (spec_publishers a)"
    by (rule over_cong) (use ne in \<open>auto dest: held_handles(2)\<close>)
  moreover have "over (slot_for(generations a := s)) (spec_observations a) = over slot_for (spec_observations a)"
    by (rule over_cong) (use ne in \<open>auto dest: held_handles(3)\<close>)
  moreover have "over (spec_future_view (slot_for(generations a := s))) (spec_futures a) = over (spec_future_view slot_for) (spec_futures a)"
    by (rule over_cong) (use ne in \<open>auto simp: spec_future_view_def dest: held_handles(4)\<close>)
  ultimately show ?thesis using same by (simp add: same_program_def)
qed

lemma refines_new:
  assumes r: "refines slot_for a w" and ok: "wf w'"
    and same: "same_program (slot_for(generations a := s)) a' w'"
    and sub: "held a' \<subseteq> insert (generations a) (held a)" and gens: "generations a' = generations a + 1"
    and cells: "value_of a' = (value_of a)(generations a := None)" "waiting_of a' = (waiting_of a)(generations a := [])"
    and free: "\<And>g. g \<in> held a \<Longrightarrow> slot_for g \<noteq> s"
    and here: "heap w' s = Some sl" "outcome sl = None" "registered sl = []"
    and there: "\<And>t. t \<in># slot_refs w \<Longrightarrow> t \<noteq> s \<Longrightarrow> heap w' t = heap w t"
  shows "refines (slot_for(generations a := s)) a' w'"
proof (rule refinesI [OF ok same])
  have ne: "g \<noteq> generations a" if "g \<in> held a" for g using refinesD(4) [OF r that] by simp
  show "inj_on (slot_for(generations a := s)) (held a')"
  proof (rule inj_on_subset [OF _ sub], rule inj_onI)
    fix x y assume "x \<in> insert (generations a) (held a)" "y \<in> insert (generations a) (held a)"
      "(slot_for(generations a := s)) x = (slot_for(generations a := s)) y"
    then show "x = y"
      using free [of x] free [of y] ne refinesD(3) [OF r] by (auto dest: inj_onD split: if_splits)
  qed
  fix g assume g: "g \<in> held a'"
  show "g < generations a'"
  proof (cases "g = generations a")
    case False
    then have "g < generations a" using g sub refinesD(4) [OF r] by blast
    then show ?thesis using gens by simp
  qed (simp add: gens)
  show "value_at w' ((slot_for(generations a := s)) g) = value_of a' g
      \<and> waiting_at w' ((slot_for(generations a := s)) g) = waiting_of a' g"
  proof (cases "g = generations a")
    case True
    then show ?thesis using here by (simp add: cells value_at_def waiting_at_def)
  next
    case False
    then have ga: "g \<in> held a" using g sub by blast
    from there [OF held_refs [OF refinesD(2) [OF r] ga] free [OF ga]] refinesD(5,6) [OF r ga] False
    show ?thesis by (simp add: cells value_at_def waiting_at_def)
  qed
qed

lemma sim_pair:
  assumes r: "refines slot_for a w" and ex: "spec_exec wp MakePair a = Some (x, a')"
  shows "\<exists>f w'. perform sc wp MakePair w = Some (x, w') \<and> refines f a' w'"
proof -
  note wf = refinesD(1) [OF r]
  let ?f = "slot_for(generations a := next_slot w)"
  let ?w = "w\<lparr>heap := (heap w)(next_slot w \<mapsto> slot_new), next_slot := next_slot w + 1,
       next_handle := next_handle w + 2,
       publishers := publishers w @ [(next_handle w, next_slot w)],
       observations := observations w @ [(next_handle w + 1, next_slot w)]\<rparr>"
  note names = same_programD(2) [OF refinesD(2) [OF r]]
  have a': "x = Ret (NewPair (names a) (names a + 1))" "a' = (begin_generation a)\<lparr>names := names a + 2,
       spec_publishers := spec_publishers a @ [(names a, generations a)],
       spec_observations := spec_observations a @ [(names a + 1, generations a)]\<rparr>"
    using ex by simp_all
  have "refines ?f a' ?w"
  proof (rule refines_new [OF r wf_pair [OF wf], where sl = slot_new])
    show "same_program ?f a' ?w"
      using same_program_fresh [OF r, of "next_slot w"] by (simp add: a' same_program_def begin_generation_def)
    show "held a' \<subseteq> insert (generations a) (held a)"
      by (auto simp: a' held_def begin_generation_def)
    show "slot_for g \<noteq> next_slot w" if "g \<in> held a" for g
      using held_refs [OF refinesD(2) [OF r] that] next_slot_unused(2) [OF wf] by metis
  qed (simp_all add: a' begin_generation_def)
  with pair_new_eq [of w] a'(1) names show ?thesis by (intro exI [of _ ?f] exI [of _ ?w]) (simp add: perform_def)
qed

lemma live_subject:
  assumes "same_program slot_for a w" and "live_generation key a = Some g"
  obtains h sub where "(h, sub) \<in> set (subjects w)" "subject_key sub = key" "subject_slot sub = slot_for g" "g \<in> held a"
proof -
  obtain h c where "(h, key, g, c) \<in> set (spec_subjects a)"
    using map_of_SomeD [OF assms(2) [unfolded live_generation_def]] by auto
  then have "(h, key, slot_for g, c) \<in> set (over subject_view (subjects w))"
    unfolding same_programD(5) [OF assms(1)] by (force simp: over_set spec_subject_view_def)
  then obtain sub where "(h, sub) \<in> set (subjects w)" "subject_view sub = (key, slot_for g, c)"
    by (auto simp: over_set)
  moreover have "g \<in> held a" using \<open>(h, key, g, c) \<in> _\<close> by (rule held_handles(1))
  ultimately show ?thesis using that [of h sub] by (simp add: subject_view_def)
qed

lemma live_entry:
  assumes r: "refines slot_for a w" and i: "inner w = Some i"
  shows "case sm_get key (kmap (entries_of i)) of
      None \<Rightarrow> live_generation key a = None
    | Some e \<Rightarrow> \<exists>g\<in>held a. live_generation key a = Some g \<and> entry_slot e = slot_for g"
proof (cases "live_generation key a")
  case None
  have "sm_get key (kmap (entries_of i)) = None"
  proof (rule ccontr)
    assume "sm_get key (kmap (entries_of i)) \<noteq> None"
    then obtain e where "sm_get key (kmap (entries_of i)) = Some e" by blast
    from entry_subject [OF refinesD(1) [OF r] i this] obtain h sub where
      "(h, sub) \<in> set (subjects w)" "subject_key sub = key" by blast
    then have "(h, key, subject_slot sub, subject_completed sub) \<in> set (over subject_view (subjects w))"
      by (force simp: over_set subject_view_def)
    then show False
      unfolding same_programD(5) [OF refinesD(2) [OF r]]
      using None by (force simp: over_set spec_subject_view_def live_generation_def map_of_eq_None_iff)
  qed
  with None show ?thesis by simp
next
  case (Some g)
  obtain h sub where "(h, sub) \<in> set (subjects w)" "subject_key sub = key" "subject_slot sub = slot_for g" "g \<in> held a"
    by (rule live_subject [OF refinesD(2) [OF r] Some])
  with Some subject_entry [OF refinesD(1) [OF r] i] show ?thesis by fastforce
qed

lemma held_not_pooled:
  assumes r: "refines slot_for a w" and "g \<in> held a"
  shows "slot_for g \<notin> set (pool_of w)"
proof -
  note d = same_programD [OF refinesD(2) [OF r]]
  have auth: "distinct (authority_slots w)" "set (pool_of w) \<inter> reader_slots w = {}"
    using wfD(5) [OF refinesD(1) [OF r]] by (simp_all add: authority_inv_def)
  from assms(2) consider h k c where "(h, k, g, c) \<in> set (spec_subjects a)"
    | h where "(h, g) \<in> set (spec_publishers a)" | h where "(h, g) \<in> set (spec_observations a)"
    | h ks where "(h, g, ks) \<in> set (spec_futures a)" by (auto simp: held_def)
  then show ?thesis
  proof cases
    case 1
    then have "(h, k, slot_for g, c) \<in> set (over subject_view (subjects w))"
      unfolding d(5) by (force simp: over_set spec_subject_view_def)
    then show ?thesis using subject_not_pooled [OF refinesD(1) [OF r]] by (fastforce simp: over_set subject_view_def)
  next
    case 2
    then have "(h, slot_for g) \<in> set (publishers w)" unfolding d(6) by (auto simp: over_set)
    then have "slot_for g \<in> set (map snd (publishers w))" by force
    then show ?thesis using auth(1) by (auto simp: authority_slots_def)
  next
    case 3
    then have "(h, slot_for g) \<in> set (observations w)" unfolding d(7) by (auto simp: over_set)
    then have "slot_for g \<in> reader_slots w" by (force simp: reader_slots_def)
    then show ?thesis using auth(2) by blast
  next
    case 4
    then have "(h, \<lparr>future_slot = slot_for g, future_wakers = ks\<rparr>) \<in> set (futures w)"
      unfolding d(8) by (force simp: over_set spec_future_view_def)
    then have "slot_for g \<in> reader_slots w" by (force simp: reader_slots_def)
    then show ?thesis using auth(2) by blast
  qed
qed

lemma sim_make_subject:
  assumes r: "refines slot_for a w" and snd: "arc_sound sc"
    and ex: "spec_exec wp (MakeSubject key) a = Some (x, a')"
  shows "\<exists>f w'. perform sc wp (MakeSubject key) w = Some (x, w') \<and> refines f a' w'"
proof -
  note wf = refinesD(1) [OF r] and same = refinesD(2) [OF r]
  note d = same_programD [OF same]
  have sp: "spaces w \<noteq> []" using ex d(1) by (auto split: if_splits)
  then obtain i where i: "inner w = Some i" using space_inner [OF wf] by blast
  note live = live_entry [OF r i, of key]
  show ?thesis
  proof (cases "sm_get key (kmap (entries_of i))")
    case (Some e)
    with live ex sp d(1) space_subject_exists [OF i, of key sc] r show ?thesis by (auto simp: perform_def)
  next
    case vacant: None
    with live have none: "live_generation key a = None" by simp
    have gen: "next_generation i = drawn a" by (rule d(12) [OF i])
    show ?thesis
    proof (cases "drawn a = USIZE_MAX")
      case True
      note eq = space_subject_exhausted [OF wf snd i vacant, unfolded gen, OF True]
      let ?w = "generation_exhausted sc i w"
      have a': "x = Panic GenerationExhausted" "a' = a\<lparr>drawn := 0\<rparr>" using ex none True sp d(1) by simp_all
      have "refines slot_for a' ?w"
      proof (rule refines_same_cells [OF r eq(2)])
        show "same_program slot_for a' ?w"
          using same by (simp add: a' same_program_def generation_exhausted_def Let_def)
        show "heap ?w t = heap w t" if "t \<in># slot_refs ?w" for t
          using that released_kept [OF snd] by (auto simp: generation_exhausted_def Let_def split: if_splits)
      qed (simp_all add: a' held_def)
      with eq(1) a'(1) sp show ?thesis by (intro exI [of _ slot_for] exI [of _ ?w]) (simp add: perform_def)
    next
      case False
      let ?w = "new_generation key i w"
      have a': "x = Ret (NewHandle (names a))" "a' = (begin_generation a)\<lparr>drawn := drawn a + 1, names := names a + 1,
             spec_subjects := spec_subjects a @ [(names a, key, generations a, False)]\<rparr>"
        using ex none False sp d(1) by simp_all
      define s where "s = fst (acquired (pool (entries_of i)) w)"
      have heap: "heap ?w = (heap w)(s \<mapsto> (if pool (entries_of i) = [] then slot_new else pristine_slot (the (heap w s))))"
        by (simp add: new_generation_def acquired_def s_def)
      have "refines (slot_for(generations a := s)) a' ?w"
      proof (rule refines_new [OF r new_generation_wf [OF wf i vacant],
            where sl = "if pool (entries_of i) = [] then slot_new else pristine_slot (the (heap w s))"])
        show "same_program (slot_for(generations a := s)) a' ?w"
          using same_program_fresh [OF r, of s] i
          by (auto simp: a' same_program_def begin_generation_def new_generation_def acquired_def s_def
              subject_view_def spec_subject_view_def)
        show "held a' \<subseteq> insert (generations a) (held a)"
          by (auto simp: a' held_def begin_generation_def)
        show "slot_for g \<noteq> s" if "g \<in> held a" for g
        proof (cases "pool (entries_of i) = []")
          case True
          then show ?thesis
            using held_refs [OF same that] next_slot_unused(2) [OF wf] by (metis acquired_def fst_conv s_def)
        next
          case False
          then have "s \<in> set (pool_of w)" using i by (simp add: s_def acquired_def pool_of_inner)
          then show ?thesis using held_not_pooled [OF r that] by metis
        qed
      qed (simp_all add: a' begin_generation_def heap)
      with space_subject_new [OF wf i vacant, of sc] gen False a'(1) sp d(2) show ?thesis
        by (intro exI [of _ "slot_for(generations a := s)"] exI [of _ ?w]) (simp add: perform_def)
    qed
  qed
qed

subsection \<open>The namespace\<close>

lemma sim_observe:
  assumes r: "refines slot_for a w" and ex: "spec_exec wp (Observe key) a = Some (x, a')"
  shows "\<exists>w'. perform sc wp (Observe key) w = Some (x, w') \<and> refines slot_for a' w'"
proof -
  note wf = refinesD(1) [OF r] and same = refinesD(2) [OF r]
  note d = same_programD [OF same]
  have sp: "spaces w \<noteq> []" using ex d(1) by (auto split: if_splits)
  then obtain i where i: "inner w = Some i" using space_inner [OF wf] by blast
  note live = live_entry [OF r i, of key]
  show ?thesis
  proof (cases "sm_get key (kmap (entries_of i))")
    case None
    with live ex sp d(1) space_observe_unknown [OF i None] r show ?thesis by (auto simp: perform_def)
  next
    case (Some e)
    with live obtain g where g: "g \<in> held a" "live_generation key a = Some g" "entry_slot e = slot_for g" by auto
    let ?w = "w\<lparr>next_handle := next_handle w + 1, observations := observations w @ [(next_handle w, entry_slot e)]\<rparr>"
    have a': "x = Ret (NewHandle (names a))"
      "a' = a\<lparr>names := names a + 1, spec_observations := spec_observations a @ [(names a, g)]\<rparr>"
      using ex g(2) sp d(1) by simp_all
    have "refines slot_for a' ?w"
      by (rule refines_same_cells [OF r space_observe_eq(2) [OF wf i Some]])
        (use same g in \<open>auto simp: a' same_program_def held_def\<close>)
    with space_observe_eq(1) [OF wf i Some] a'(1) sp d(2) show ?thesis by (intro exI [of _ ?w]) (simp add: perform_def)
  qed
qed

lemma sim_clone_space:
  assumes r: "refines slot_for a w" and ex: "spec_exec wp CloneSpace a = Some (x, a')"
  shows "\<exists>w'. perform sc wp CloneSpace w = Some (x, w') \<and> refines slot_for a' w'"
proof -
  note same = refinesD(2) [OF r]
  note d = same_programD [OF same]
  have sp: "spaces w \<noteq> []" using ex d(1) by (auto split: if_splits)
  let ?w = "w\<lparr>next_handle := next_handle w + 1, spaces := spaces w @ [(next_handle w, ())]\<rparr>"
  have a': "x = Ret (NewHandle (names a))" "a' = a\<lparr>names := names a + 1, spec_spaces := spec_spaces a @ [(names a, ())]\<rparr>"
    using ex sp d(1) by simp_all
  have "refines slot_for a' ?w"
    by (rule refines_same_cells [OF r space_clone_wf [OF refinesD(1) [OF r] space_inner [OF refinesD(1) [OF r] sp]]])
      (use same in \<open>auto simp: a' same_program_def held_def slot_refs_def\<close>)
  with space_clone_eq [of w] a'(1) sp d(2) show ?thesis by (intro exI [of _ ?w]) (simp add: perform_def)
qed

lemma inner_released_inner: "inner (inner_released sc w) = Some i \<Longrightarrow> inner w = Some i"
  by (auto simp: inner_released_def split: if_splits)

lemma sim_drop_space:
  assumes r: "refines slot_for a w" and snd: "arc_sound sc" and ex: "spec_exec wp (DropSpace h) a = Some (x, a')"
  shows "\<exists>w'. perform sc wp (DropSpace h) w = Some (x, w') \<and> refines slot_for a' w'"
proof -
  note same = refinesD(2) [OF r]
  note d = same_programD [OF same]
  obtain u where h: "map_of (spaces w) h = Some u" using ex d(1) by (auto split: option.splits)
  note eq = space_drop_eq [OF refinesD(1) [OF r] snd h]
  let ?w = "inner_released sc (w\<lparr>spaces := AList.delete h (spaces w)\<rparr>)"
  have a': "x = Ret Done" "a' = a\<lparr>spec_spaces := AList.delete h (spec_spaces a)\<rparr>"
    using ex h d(1) by simp_all
  have "refines slot_for a' ?w"
  proof (rule refines_same_cells [OF r eq(2)])
    have "next_generation j = drawn a" if "inner ?w = Some j" for j
      using inner_released_inner [OF that] d(12) [of j] by simp
    then show "same_program slot_for a' ?w"
      using same unfolding a' same_program_def by simp
    show "heap ?w t = heap w t" if "t \<in># slot_refs ?w" for t
      using inner_released_kept [OF snd that] by simp
  qed (simp_all add: a' held_def)
  with eq(1) a'(1) h show ?thesis by (intro exI [of _ ?w]) (simp add: perform_def)
qed

text \<open>Dropping a subject, all three phases.\<close>

lemma sim_drop_subject:
  assumes r: "refines slot_for a w" and snd: "arc_sound sc" and ex: "spec_exec wp (DropSubject h) a = Some (x, a')"
  shows "\<exists>w'. perform sc wp (DropSubject h) w = Some (x, w') \<and> refines slot_for a' w'"
proof -
  note wf = refinesD(1) [OF r] and same = refinesD(2) [OF r]
  note d = same_programD [OF same]
  obtain k g c where s: "map_of (spec_subjects a) h = Some (k, g, c)" using ex by (auto split: option.splits)
  obtain sub where sub: "map_of (subjects w) h = Some sub" by (rule spec_subject [OF same s])
  obtain i where i: "inner w = Some i" using subject_inner [OF wf map_of_SomeD [OF sub]] by blast
  have a': "x = Ret Done" "a' = a\<lparr>spec_subjects := AList.delete h (spec_subjects a)\<rparr>" using ex s by simp_all
  let ?w1 = "retired sc h sub i w"
  have wf1: "wf ?w1" by (rule retired_wf [OF wf snd sub i])
  have w1: "retiring ?w1 = [(h, sub)]" "heap ?w1 = heap w" "dying ?w1 = []"
    "subjects ?w1 = AList.delete h (subjects w)"
    using d(3,4) by (simp_all add: retired_def Let_def)
  have ret: "map_of (retiring ?w1) h = Some sub" by (simp add: w1)
  let ?w1' = "?w1\<lparr>retiring := AList.delete h (retiring ?w1), dying := dying ?w1 @ [(h, subject_slot sub)]\<rparr>"
  let ?w2 = "inner_released sc ?w1'"
  note eq2 = subject_drop_inner_eq [OF wf1 snd ret]
  have dy: "map_of (dying ?w2) h = Some (subject_slot sub)" by (simp add: w1)
  let ?w2' = "?w2\<lparr>dying := AList.delete h (dying ?w2)\<rparr>"
  let ?w3 = "released sc (subject_slot sub) ?w2'"
  note eq3 = subject_drop_slot_eq [OF eq2(2) snd dy]
  have heap: "heap ?w3 t = heap w t" if t: "t \<in># slot_refs ?w3" for t
  proof -
    have t2: "t \<in># slot_refs ?w2" using t by (auto simp: slot_refs_def w1)
    have "heap ?w3 t = heap ?w2 t" using released_kept [OF snd t] by simp
    also have "\<dots> = heap ?w1' t" by (rule inner_released_kept [OF snd t2])
    finally show ?thesis by (simp add: w1)
  qed
  have "refines slot_for a' ?w3"
  proof (rule refines_same_cells [OF r eq3(2) _ _ _ _ _ heap])
    have "inner ?w3 = Some j \<Longrightarrow> next_generation j = drawn a" for j
      using inner_released_inner [of sc ?w1' j] d(12) [OF i] by (auto simp: retired_def Let_def)
    then show "same_program slot_for a' ?w3"
      using same d(3,4) by (auto simp: a' same_program_def over_delete retired_def Let_def)
    show "held a' \<subseteq> held a"
      by (rule held_subset) (auto simp: a' dest: delete_mem intro: held_handles)
  qed (simp_all add: a')
  moreover have "perform sc wp (DropSubject h) w = Some (x, ?w3)"
    using subject_drop_eq [OF wf snd sub i] eq2(1) eq3(1) ret dy a'(1) sub
    by (simp add: perform_def)
  ultimately show ?thesis by blast
qed

subsection \<open>The refinement\<close>

lemma spec_exec_none:
  assumes same: "same_program slot_for a w" and none: "spec_exec wp op a = None"
  shows "perform sc wp op w = None"
proof -
  note d = same_programD [OF same] and s = spec_subject_none [OF same]
  have obs: "map_of (observations w) h = None" if "map_of (spec_observations a) h = None" for h
    using that d(7) by simp
  have fut: "map_of (futures w) h = None" if "map_of (spec_futures a) h = None" for h
    using that d(8) by simp
  have pub: "map_of (publishers w) h = None" if "map_of (spec_publishers a) h = None" for h
    using that d(6) by simp
  have "\<not> whole op \<or> \<not> owns op w"
  proof (cases op)
    case (Poll h k)
    then have "map_of (spec_futures a) h = None"
      using none by (cases "map_of (spec_futures a) h") (auto split: option.splits if_splits call.splits)
    with Poll fut show ?thesis by simp
  next
    case (WaitTimeout h t imax start timeout now)
    then have "map_of (spec_observations a) h = None"
      using none by (cases "map_of (spec_observations a) h") (auto simp: Let_def split: option.splits if_splits)
    with WaitTimeout obs show ?thesis by simp
  qed (use none d(1) in \<open>auto simp: s obs fut pub Let_def split: option.splits if_splits\<close>)
  then show ?thesis by (simp add: perform_def)
qed

lemma spec_exec_sim:
  assumes r: "refines slot_for a w" and exact: "arc_exact sc" and ex: "spec_exec wp op a = Some (x, a')"
  shows "\<exists>f w'. perform sc wp op w = Some (x, w') \<and> refines f a' w'"
proof -
  note snd = arc_exact_sound [OF exact]
  show ?thesis
  proof (cases op)
    case (MakeSubject key)
    then show ?thesis using sim_make_subject [OF r snd] ex by simp
  next
    case (Observe key)
    then show ?thesis using sim_observe [OF r] ex by blast
  next
    case CloneSpace
    then show ?thesis using sim_clone_space [OF r] ex by blast
  next
    case (DropSpace h)
    then show ?thesis using sim_drop_space [OF r snd] ex by blast
  next
    case (Complete h v)
    moreover from this ex obtain k g c where "map_of (spec_subjects a) h = Some (k, g, c)" by (auto split: option.splits)
    ultimately show ?thesis using sim_complete [OF r] ex by blast
  next
    case (DropSubject h)
    then show ?thesis using sim_drop_subject [OF r snd] ex by blast
  next
    case MakePair
    then show ?thesis using sim_pair [OF r] ex by simp
  next
    case (Publish h v)
    moreover from this ex obtain g where "map_of (spec_publishers a) h = Some g" by (auto split: option.splits)
    ultimately show ?thesis using sim_publish [OF r snd] ex by blast
  next
    case (DropPublisher h)
    moreover from this ex obtain g where "map_of (spec_publishers a) h = Some g" by (auto split: option.splits)
    ultimately show ?thesis using sim_drop_publisher [OF r snd] ex by blast
  next
    case (CloneObservation h)
    moreover from this ex obtain g where "map_of (spec_observations a) h = Some g" by (auto split: option.splits)
    ultimately show ?thesis using sim_clone_observation [OF r] ex by blast
  next
    case (DropObservation h)
    moreover from this ex obtain g where "map_of (spec_observations a) h = Some g" by (auto split: option.splits)
    ultimately show ?thesis using sim_drop_observation [OF r snd] ex by blast
  next
    case (TryGet h)
    moreover from this ex obtain g where "map_of (spec_observations a) h = Some g" by (auto split: option.splits)
    ultimately show ?thesis using sim_observation_ops(1) [OF r] ex by blast
  next
    case (IntoOutcome h)
    moreover from this ex obtain g where "map_of (spec_observations a) h = Some g" by (auto split: option.splits)
    ultimately show ?thesis using sim_into_outcome [OF r exact] ex by blast
  next
    case (RegisterWaker h k)
    moreover from this ex obtain g where "map_of (spec_observations a) h = Some g" by (auto split: option.splits)
    ultimately show ?thesis using sim_observation_ops(2) [OF r] ex by blast
  next
    case (Wait h t)
    moreover from this ex obtain g where "map_of (spec_observations a) h = Some g" by (auto split: option.splits)
    ultimately show ?thesis using sim_observation_ops(3) [OF r] ex by blast
  next
    case (WaitTimeout h t imax start timeout now)
    moreover from this ex obtain g where "map_of (spec_observations a) h = Some g" by (auto split: option.splits)
    ultimately show ?thesis using sim_observation_ops(4) [OF r] ex by blast
  next
    case (IntoFuture h)
    moreover from this ex obtain g where "map_of (spec_observations a) h = Some g" by (auto split: option.splits)
    ultimately show ?thesis using sim_into_future [OF r] ex by blast
  next
    case (Poll h k)
    moreover from this ex obtain g mine where "map_of (spec_futures a) h = Some (g, mine)" by (auto split: option.splits)
    ultimately show ?thesis using sim_poll [OF r] ex by blast
  next
    case (DropFuture h)
    moreover from this ex obtain g mine where "map_of (spec_futures a) h = Some (g, mine)" by (auto split: option.splits)
    ultimately show ?thesis using sim_drop_future [OF r snd] ex by blast
  qed (use ex in simp_all)
qed

lemma program_refines:
  assumes "refines slot_for a w" and "arc_exact sc"
  shows "case program (spec_exec wp) ops a of
      None \<Rightarrow> program (perform sc wp) ops w = None
    | Some (rs, a') \<Rightarrow> \<exists>f w'. program (perform sc wp) ops w = Some (rs, w') \<and> refines f a' w'"
  using assms(1)
proof (induction ops arbitrary: slot_for a w)
  case (Cons op ops)
  show ?case
  proof (cases "spec_exec wp op a")
    case None
    with spec_exec_none [OF refinesD(2) [OF Cons.prems] None] show ?thesis by simp
  next
    case (Some y)
    obtain r a1 where y: "y = (r, a1)" by (cases y)
    from spec_exec_sim [OF Cons.prems assms(2), of wp op r a1] Some y obtain f w1 where
      w1: "perform sc wp op w = Some (r, w1)" "refines f a1 w1" by blast
    with Cons.IH [OF w1(2)] Some y show ?thesis by (auto split: option.splits)
  qed
qed auto

text \<open>
  C8: the implementation keeps its contract.  Every program of one thread gets from the crate, with
  its key table, its slot pool, its completion words and its reference counts, exactly the replies
  (panics included) the contract gives, is refused exactly where the contract refuses it, and ends
  in a state with the same handles, the same published and moved values and the same notifications.
\<close>
theorem implementation_refines_contract:
  assumes "arc_exact sc"
  shows "case program (spec_exec wp) ops spec_new of
      None \<Rightarrow> program (perform sc wp) ops space_new = None
    | Some (rs, a) \<Rightarrow> \<exists>slot_for w. program (perform sc wp) ops space_new = Some (rs, w) \<and> refines slot_for a w"
  by (rule program_refines [OF space_new_refines assms])

theorem implementation_refines_contract_witness:
  "\<exists>slot_for a w. program (perform handle_count (\<lambda>_. False))
       [MakeSubject 7, Observe 7, Complete 1 5, DropSubject 1, MakeSubject 7, IntoOutcome 2] (space_new :: (nat, nat) world)
     = Some ([Ret (NewHandle 1), Ret (NewHandle 2), Ret Done, Ret Done, Ret (NewHandle 3), Ret (Value (Some 5))], w)
     \<and> refines slot_for a w"
proof -
  let ?ops = "[MakeSubject 7, Observe 7, Complete 1 5, DropSubject 1, MakeSubject 7, IntoOutcome 2] :: (nat, nat) op list"
  let ?p = "program (spec_exec (\<lambda>_. False)) ?ops spec_new"
  have "map_option fst ?p = Some [Ret (NewHandle 1), Ret (NewHandle 2), Ret Done, Ret Done, Ret (NewHandle 3), Ret (Value (Some 5))]"
    by code_simp
  then obtain a where "?p = Some ([Ret (NewHandle 1), Ret (NewHandle 2), Ret Done, Ret Done, Ret (NewHandle 3),
      Ret (Value (Some 5))], a)" by (cases ?p) auto
  with implementation_refines_contract [OF handle_count_exact, of "\<lambda>_. False" ?ops] show ?thesis by auto
qed

end
