(* ===== verification/Harness.thy ===== *)
theory Harness
  imports Contract_Refinement
begin

section \<open>Programs that test the crate\<close>

text \<open>
  The fuzz targets and the benchmarks are programs that call the crate, look at the replies and
  assert.  Such a program is a tree: it calls an operation and goes on with the reply, reads how
  often a probe waker has fired, ends, or fails (an assertion or \<open>expect\<close> that panics).  The same
  program runs against the crate and against its contract.
\<close>

datatype ('i, 'r, 'x) harness =
    Finish 'x
  | Fails
  | Ask 'i "'r \<Rightarrow> ('i, 'r, 'x) harness"
  | Probe waker "nat \<Rightarrow> ('i, 'r, 'x) harness"

primrec interp :: "('i \<Rightarrow> 's \<Rightarrow> ('r \<times> 's) option) \<Rightarrow> (waker \<Rightarrow> 's \<Rightarrow> nat) \<Rightarrow>
    ('i, 'r, 'x) harness \<Rightarrow> 's \<Rightarrow> ('x \<times> 's) option" where
  "interp api fires (Finish x) = (\<lambda>s. Some (x, s))"
| "interp api fires Fails = (\<lambda>s. None)"
| "interp api fires (Ask i k) = (\<lambda>s. case api i s of None \<Rightarrow> None | Some (r, s') \<Rightarrow> interp api fires (k r) s')"
| "interp api fires (Probe w k) = (\<lambda>s. interp api fires (k (fires w s)) s)"

primrec chain :: "('i, 'r, 'x) harness \<Rightarrow> ('x \<Rightarrow> ('i, 'r, 'y) harness) \<Rightarrow> ('i, 'r, 'y) harness" where
  "chain (Finish x) g = g x"
| "chain Fails g = Fails"
| "chain (Ask i k) g = Ask i (\<lambda>r. chain (k r) g)"
| "chain (Probe w k) g = Probe w (\<lambda>n. chain (k n) g)"

fun each :: "('b \<Rightarrow> 'x \<Rightarrow> ('i, 'r, 'x) harness) \<Rightarrow> 'b list \<Rightarrow> 'x \<Rightarrow> ('i, 'r, 'x) harness" where
  "each step [] x = Finish x"
| "each step (b # bs) x = chain (step b x) (each step bs)"

lemma interp_chain:
  "interp api fires (chain m g) s =
     (case interp api fires m s of None \<Rightarrow> None | Some (x, s') \<Rightarrow> interp api fires (g x) s')"
  by (induction m arbitrary: s) (auto split: option.split)

lemma each_cong: "(\<And>b x. b \<in> set bs \<Longrightarrow> f b x = g b x) \<Longrightarrow> each f bs x = each g bs x"
proof (induction bs arbitrary: x)
  case (Cons b bs)
  then have "each f bs = each g bs" by (auto simp: fun_eq_iff)
  with Cons.prems show ?case by simp
qed simp

text \<open>
  The loop of a harness, with an invariant indexed by the number of iterations done.
\<close>

lemma interp_each:
  assumes step: "\<And>m b x s. I m x s \<Longrightarrow> m < N \<Longrightarrow> \<exists>x' s'. interp api fires (step b x) s = Some (x', s') \<and> I (Suc m) x' s'"
    and "I m x s" and "m + length bs \<le> N"
  shows "\<exists>x' s'. interp api fires (each step bs x) s = Some (x', s') \<and> I (m + length bs) x' s'"
  using assms(2,3)
proof (induction bs arbitrary: m x s)
  case (Cons b bs)
  then have "m < N" by simp
  from step [OF Cons.prems(1) this, of b] obtain x' s' where
    s': "interp api fires (step b x) s = Some (x', s')" "I (Suc m) x' s'" by blast
  from Cons.IH [OF s'(2)] Cons.prems(2) s'(1) show ?case by (simp add: interp_chain)
qed simp

subsection \<open>The same program on both sides\<close>

locale simulation =
  fixes api :: "'i \<Rightarrow> 'a \<Rightarrow> ('r \<times> 'a) option" and fires :: "waker \<Rightarrow> 'a \<Rightarrow> nat"
    and api' :: "'i \<Rightarrow> 'c \<Rightarrow> ('r \<times> 'c) option" and fires' :: "waker \<Rightarrow> 'c \<Rightarrow> nat"
    and rel :: "'a \<Rightarrow> 'c \<Rightarrow> bool"
  assumes same_reply: "rel a c \<Longrightarrow> api i a = Some (r, a') \<Longrightarrow> \<exists>c'. api' i c = Some (r, c') \<and> rel a' c'"
    and same_refusal: "rel a c \<Longrightarrow> api i a = None \<Longrightarrow> api' i c = None"
    and same_fires: "rel a c \<Longrightarrow> fires' w c = fires w a"
begin

lemma transfer:
  assumes "rel a c"
  shows "case interp api fires m a of
      None \<Rightarrow> interp api' fires' m c = None
    | Some (x, a') \<Rightarrow> \<exists>c'. interp api' fires' m c = Some (x, c') \<and> rel a' c'"
  using assms
proof (induction m arbitrary: a c)
  case (Ask i k)
  show ?case
  proof (cases "api i a")
    case None
    with same_refusal [OF Ask.prems None] show ?thesis by simp
  next
    case (Some y)
    obtain r a1 where y: "y = (r, a1)" by (cases y)
    from same_reply [OF Ask.prems Some [unfolded y]] obtain c1 where
      c1: "api' i c = Some (r, c1)" "rel a1 c1" by blast
    from Ask.IH [of "k r", OF rangeI c1(2)] Some y c1(1) show ?thesis by (auto split: option.splits)
  qed
next
  case (Probe w k)
  from Probe.IH [of "k (fires w a)", OF rangeI Probe.prems] same_fires [OF Probe.prems, of w] show ?case by (auto split: option.splits)
qed auto

lemma transfer_Some:
  assumes "rel a c" and "interp api fires m a = Some (x, a')"
  obtains c' where "interp api' fires' m c = Some (x, c')" and "rel a' c'"
  using transfer [OF assms(1), of m] assms(2) by auto

end

definition world_fires :: "waker \<Rightarrow> ('k, 'o) world \<Rightarrow> nat" where
  "world_fires x w = count_list (woken w) (Woken x)"

definition spec_fires :: "waker \<Rightarrow> ('k, 'o) spec \<Rightarrow> nat" where
  "spec_fires x a = count_list (events a) (Woken x)"

lemma contract_same_fires:
  assumes "refines f a w"
  shows "world_fires x w = spec_fires x a"
  using same_programD(11) [OF refinesD(2) [OF assms]] by (simp add: world_fires_def spec_fires_def)

interpretation contract: simulation "spec_exec wp" spec_fires "perform handle_count wp" world_fires
    "\<lambda>a w. (\<exists>f. refines f a w) \<and> reach handle_count w" for wp
proof
  show "\<exists>c'. perform handle_count wp i c = Some (r, c') \<and> (\<exists>f. refines f a' c') \<and> reach handle_count c'"
    if "(\<exists>f. refines f a c) \<and> reach handle_count c" "spec_exec wp i a = Some (r, a')"
    for a :: "('a, 'b) spec" and c i r a'
    using that spec_exec_sim [OF _ handle_count_exact] perform_reach by meson
  show "perform handle_count wp i c = None"
    if "(\<exists>f. refines f a c) \<and> reach handle_count c" "spec_exec wp i a = None"
    for a :: "('a, 'b) spec" and c i
    using that spec_exec_none [OF refinesD(2)] by blast
  show "world_fires x c = spec_fires x a" if "(\<exists>f. refines f a c) \<and> reach handle_count c"
    for a :: "('a, 'b) spec" and c x
    using that contract_same_fires by blast
qed

lemma contract_start: "(\<exists>f. refines f spec_new space_new) \<and> reach handle_count space_new"
  using space_new_refines reach.start by blast

end
