(* ===== verification/Tracking.thy ===== *)
theory Tracking
  imports Harness
begin

section \<open>Following keys and epochs on the contract\<close>

text \<open>
  The fuzz targets and the benchmarks name a generation by its key and an epoch that they count
  themselves.  \<open>tracks\<close> relates their books to the state of the contract: which number each
  generation they know has, what was published on it and who waits for it, which subject is live
  for a key, and which generations their observations and futures belong to, in order.  One lemma
  per operation says how the books follow it.
\<close>

record ('k, 'o) tracked =
  known :: "('k \<times> u64) set"
  number :: "'k \<times> u64 \<Rightarrow> nat"
  result :: "'k \<times> u64 \<Rightarrow> 'o option"
  queue :: "'k \<times> u64 \<Rightarrow> waiter list"

type_synonym 'k watched = "'k \<times> u64 \<times> handle"
type_synonym 'k awaited = "'k \<times> u64 \<times> handle \<times> waker list"

definition spec_handles :: "('k, 'o) spec \<Rightarrow> handle list" where
  "spec_handles a = map fst (spec_subjects a) @ map fst (spec_observations a) @ map fst (spec_futures a)"

definition handles_ok :: "('k, 'o) spec \<Rightarrow> bool" where
  "handles_ok a \<longleftrightarrow> distinct (spec_handles a) \<and> (\<forall>h\<in>set (spec_handles a). h < names a)"

definition owners_ok :: "('k, 'o) tracked \<Rightarrow> ('k \<rightharpoonup> handle \<times> u64) \<Rightarrow> 'k watched list \<Rightarrow> 'k awaited list \<Rightarrow>
    ('k, 'o) spec \<Rightarrow> bool" where
  "owners_ok v live obs futs a \<longleftrightarrow>
     spec_observations a = map (\<lambda>(k, e, h). (h, number v (k, e))) obs \<and>
     spec_futures a = map (\<lambda>(k, e, h, ws). (h, number v (k, e), ws)) futs \<and>
     (\<forall>h k g c. (h, k, g, c) \<in> set (spec_subjects a) \<longleftrightarrow>
        (\<exists>e. live k = Some (h, e) \<and> g = number v (k, e) \<and> c = (result v (k, e) \<noteq> None)))"

definition known_ok :: "('k, 'o) tracked \<Rightarrow> ('k \<rightharpoonup> handle \<times> u64) \<Rightarrow> 'k watched list \<Rightarrow> 'k awaited list \<Rightarrow> bool" where
  "known_ok v live obs futs \<longleftrightarrow> inj_on (number v) (known v) \<and>
     (\<forall>k h e. live k = Some (h, e) \<longrightarrow> (k, e) \<in> known v) \<and>
     (\<forall>k e h. (k, e, h) \<in> set obs \<longrightarrow> (k, e) \<in> known v) \<and>
     (\<forall>k e h ws. (k, e, h, ws) \<in> set futs \<longrightarrow> (k, e) \<in> known v)"

definition generations_ok :: "('k, 'o) tracked \<Rightarrow> ('k, 'o) spec \<Rightarrow> bool" where
  "generations_ok v a \<longleftrightarrow> (\<forall>p\<in>known v. number v p < generations a \<and>
     value_of a (number v p) = result v p \<and> waiting_of a (number v p) = queue v p)"

definition tracks :: "('k, 'o) tracked \<Rightarrow> ('k \<rightharpoonup> handle \<times> u64) \<Rightarrow> 'k watched list \<Rightarrow> 'k awaited list \<Rightarrow>
    nat \<Rightarrow> ('k, 'o) spec \<Rightarrow> bool" where
  "tracks v live obs futs n a \<longleftrightarrow>
     spec_spaces a = [(0, ())] \<and> spec_publishers a = [] \<and> unat (drawn a) \<le> n + 1 \<and>
     owners_ok v live obs futs a \<and> known_ok v live obs futs \<and> generations_ok v a \<and> handles_ok a"

lemma tracksD:
  assumes "tracks v live obs futs n a"
  shows "spec_spaces a = [(0, ())]" and "spec_publishers a = []" and "unat (drawn a) \<le> n + 1"
    and "owners_ok v live obs futs a" and "known_ok v live obs futs" and "generations_ok v a" and "handles_ok a"
  using assms by (simp_all add: tracks_def)

lemma tracksI:
  assumes "spec_spaces a = [(0, ())]" "spec_publishers a = []" "unat (drawn a) \<le> n + 1"
    "owners_ok v live obs futs a" "known_ok v live obs futs" "generations_ok v a" "handles_ok a"
  shows "tracks v live obs futs n a"
  using assms by (simp add: tracks_def)

lemma tracks_later: "tracks v live obs futs n a \<Longrightarrow> n \<le> m \<Longrightarrow> tracks v live obs futs m a"
  by (simp add: tracks_def)

text \<open>The number given to a pair that is not known yet is free to choose.\<close>

definition nothing_tracked :: "('k, 'o) tracked" where
  "nothing_tracked = \<lparr>known = {}, number = (\<lambda>_. 0), result = (\<lambda>_. None), queue = (\<lambda>_. [])\<rparr>"

lemma nothing_tracked_new: "tracks nothing_tracked Map.empty [] [] 0 spec_new"
  by (simp add: tracks_def owners_ok_def known_ok_def generations_ok_def handles_ok_def spec_handles_def
      nothing_tracked_def spec_new_def)

subsection \<open>Looking up\<close>

lemma owners_okD:
  assumes "owners_ok v live obs futs a"
  shows "spec_observations a = map (\<lambda>(k, e, h). (h, number v (k, e))) obs"
    and "spec_futures a = map (\<lambda>(k, e, h, ws). (h, number v (k, e), ws)) futs"
    and "(h, k, g, c) \<in> set (spec_subjects a) \<longleftrightarrow>
        (\<exists>e. live k = Some (h, e) \<and> g = number v (k, e) \<and> c = (result v (k, e) \<noteq> None))"
  using assms unfolding owners_ok_def by blast+

lemma known_okD:
  assumes "known_ok v live obs futs"
  shows "inj_on (number v) (known v)" and "live k = Some (h, e) \<Longrightarrow> (k, e) \<in> known v"
    and "(k, e, h) \<in> set obs \<Longrightarrow> (k, e) \<in> known v" and "(k, e, h, ws) \<in> set futs \<Longrightarrow> (k, e) \<in> known v"
  using assms unfolding known_ok_def by blast+

lemma generations_okD:
  assumes "generations_ok v a" and "p \<in> known v"
  shows "number v p < generations a" and "value_of a (number v p) = result v p"
    and "waiting_of a (number v p) = queue v p"
  using assms unfolding generations_ok_def by blast+

lemma handles_okD:
  assumes "handles_ok a"
  shows "distinct (map fst (spec_subjects a))" and "distinct (map fst (spec_observations a))"
    and "distinct (map fst (spec_futures a))" and "names a \<notin> fst ` set (spec_subjects a)"
    and "names a \<notin> fst ` set (spec_observations a)" and "names a \<notin> fst ` set (spec_futures a)"
proof -
  have "names a \<notin> set (spec_handles a)" using assms unfolding handles_ok_def by blast
  with assms show "distinct (map fst (spec_subjects a))" "distinct (map fst (spec_observations a))"
    "distinct (map fst (spec_futures a))" "names a \<notin> fst ` set (spec_subjects a)"
    "names a \<notin> fst ` set (spec_observations a)" "names a \<notin> fst ` set (spec_futures a)"
    by (simp_all add: handles_ok_def spec_handles_def)
qed

lemma same_number:
  assumes "known_ok v live obs futs" and "p \<in> known v" and "q \<in> known v"
  shows "number v p = number v q \<longleftrightarrow> p = q"
  using known_okD(1) [OF assms(1)] assms(2,3) by (auto dest: inj_onD)

lemma tracked_subject:
  assumes "tracks v live obs futs n a" and "live k = Some (h, e)"
  shows "map_of (spec_subjects a) h = Some (k, number v (k, e), result v (k, e) \<noteq> None)"
proof (rule map_of_is_SomeI)
  show "distinct (map fst (spec_subjects a))" by (rule handles_okD(1) [OF tracksD(7) [OF assms(1)]])
  show "(h, k, number v (k, e), result v (k, e) \<noteq> None) \<in> set (spec_subjects a)"
    using owners_okD(3) [OF tracksD(4) [OF assms(1)]] assms(2) by blast
qed

lemma tracked_observation:
  assumes "tracks v live obs futs n a" and "(k, e, h) \<in> set obs"
  shows "map_of (spec_observations a) h = Some (number v (k, e))"
proof (rule map_of_is_SomeI)
  show "distinct (map fst (spec_observations a))" by (rule handles_okD(2) [OF tracksD(7) [OF assms(1)]])
  show "(h, number v (k, e)) \<in> set (spec_observations a)"
    using assms(2) by (force simp: owners_okD(1) [OF tracksD(4) [OF assms(1)]])
qed

lemma tracked_future:
  assumes "tracks v live obs futs n a" and "(k, e, h, ws) \<in> set futs"
  shows "map_of (spec_futures a) h = Some (number v (k, e), ws)"
proof (rule map_of_is_SomeI)
  show "distinct (map fst (spec_futures a))" by (rule handles_okD(3) [OF tracksD(7) [OF assms(1)]])
  show "(h, number v (k, e), ws) \<in> set (spec_futures a)"
    using assms(2) by (force simp: owners_okD(2) [OF tracksD(4) [OF assms(1)]])
qed

lemma tracked_live_generation:
  assumes "tracks v live obs futs n a"
  shows "live_generation k a = map_option (\<lambda>(h, e). number v (k, e)) (live k)"
proof (cases "live_generation k a")
  case None
  then have "k \<notin> fst ` set (map (\<lambda>(h, k, g, c). (k, g)) (spec_subjects a))"
    by (simp add: live_generation_def map_of_eq_None_iff)
  then have "(h, k, g, c) \<notin> set (spec_subjects a)" for h g c by force
  then have "live k = None"
    using owners_okD(3) [OF tracksD(4) [OF assms]] by (metis option.exhaust surj_pair)
  with None show ?thesis by simp
next
  case (Some g)
  then have "(k, g) \<in> set (map (\<lambda>(h, k, g, c). (k, g)) (spec_subjects a))"
    unfolding live_generation_def by (rule map_of_SomeD)
  then obtain h c where "(h, k, g, c) \<in> set (spec_subjects a)" by auto
  with owners_okD(3) [OF tracksD(4) [OF assms]] Some show ?thesis by auto
qed

lemma tracked_holders:
  assumes "tracks v live obs futs n a" and "p \<in> known v"
  shows "holders (number v p) a = 2 * length (filter (\<lambda>(h, k, g, c). g = number v p) (spec_subjects a))
      + length (filter (\<lambda>(k, e, h). (k, e) = p) obs) + length (filter (\<lambda>(k, e, h, ws). (k, e) = p) futs)"
    and "filter (\<lambda>(h, k, g, c). g = number v p) (spec_subjects a) = [] \<longleftrightarrow> (\<nexists>h. live (fst p) = Some (h, snd p))"
proof -
  note own = tracksD(4) [OF assms(1)] and kn = tracksD(5) [OF assms(1)]
  have "filter (\<lambda>(k, e, h). number v (k, e) = number v p) obs = filter (\<lambda>(k, e, h). (k, e) = p) obs"
    using same_number [OF kn _ assms(2)] known_okD(3) [OF kn] by (intro filter_cong) auto
  moreover have "filter (\<lambda>(k, e, h, ws). number v (k, e) = number v p) futs = filter (\<lambda>(k, e, h, ws). (k, e) = p) futs"
    using same_number [OF kn _ assms(2)] known_okD(4) [OF kn] by (intro filter_cong) auto
  ultimately show "holders (number v p) a = 2 * length (filter (\<lambda>(h, k, g, c). g = number v p) (spec_subjects a))
      + length (filter (\<lambda>(k, e, h). (k, e) = p) obs) + length (filter (\<lambda>(k, e, h, ws). (k, e) = p) futs)"
    by (simp add: holders_def tracksD(2) [OF assms(1)] owners_okD(1,2) [OF own] filter_map comp_def case_prod_unfold)
  have "(\<exists>x\<in>set (spec_subjects a). fst (snd (snd x)) = number v p) \<longleftrightarrow> (\<exists>h. live (fst p) = Some (h, snd p))"
  proof
    assume "\<exists>x\<in>set (spec_subjects a). fst (snd (snd x)) = number v p"
    then obtain h k c where "(h, k, number v p, c) \<in> set (spec_subjects a)" by force
    then obtain e where e: "live k = Some (h, e)" "number v p = number v (k, e)"
      using owners_okD(3) [OF own] by blast
    with same_number [OF kn assms(2) known_okD(2) [OF kn e(1)]] show "\<exists>h. live (fst p) = Some (h, snd p)" by auto
  next
    assume "\<exists>h. live (fst p) = Some (h, snd p)"
    then obtain h where "live (fst p) = Some (h, snd p)" by blast
    then have "(h, fst p, number v p, result v p \<noteq> None) \<in> set (spec_subjects a)"
      using owners_okD(3) [OF own, of h "fst p" "number v p"] by force
    then show "\<exists>x\<in>set (spec_subjects a). fst (snd (snd x)) = number v p" by force
  qed
  then show "filter (\<lambda>(h, k, g, c). g = number v p) (spec_subjects a) = [] \<longleftrightarrow> (\<nexists>h. live (fst p) = Some (h, snd p))"
    by (auto simp: filter_empty_conv case_prod_unfold)
qed

subsection \<open>The operations\<close>

text \<open>What an operation that only moves handles leaves alone.\<close>

definition same_history :: "('k, 'o) spec \<Rightarrow> ('k, 'o) spec \<Rightarrow> bool" where
  "same_history a a' \<longleftrightarrow> published a' = published a \<and> taken a' = taken a \<and> events a' = events a"

lemma same_historyD:
  assumes "same_history a a'"
  shows "published a' = published a" and "taken a' = taken a" and "events a' = events a"
  using assms by (simp_all add: same_history_def)

lemma owners_ok_cong:
  assumes "owners_ok v live obs futs a" and "known_ok v live obs futs"
    and "\<And>p. p \<in> known v \<Longrightarrow> number v' p = number v p \<and> (result v' p \<noteq> None) = (result v p \<noteq> None)"
  shows "owners_ok v' live obs futs a"
  unfolding owners_ok_def
proof (intro conjI allI)
  have num: "number v' (k, e) = number v (k, e)" if "(k, e) \<in> known v" for k e using assms(3) [OF that] by simp
  show "spec_observations a = map (\<lambda>(k, e, h). (h, number v' (k, e))) obs"
    unfolding owners_okD(1) [OF assms(1)]
    by (intro map_cong refl) (auto simp: num dest: known_okD(3) [OF assms(2)])
  show "spec_futures a = map (\<lambda>(k, e, h, ws). (h, number v' (k, e), ws)) futs"
    unfolding owners_okD(2) [OF assms(1)]
    by (intro map_cong refl) (auto simp: num dest: known_okD(4) [OF assms(2)])
  show "(h, k, g, c) \<in> set (spec_subjects a) \<longleftrightarrow>
        (\<exists>e. live k = Some (h, e) \<and> g = number v' (k, e) \<and> c = (result v' (k, e) \<noteq> None))" for h k g c
  proof -
    have "number v' (k, e) = number v (k, e) \<and> (result v' (k, e) \<noteq> None) = (result v (k, e) \<noteq> None)"
      if "live k = Some (h, e)" for e
      by (rule assms(3) [OF known_okD(2) [OF assms(2) that]])
    then show ?thesis unfolding owners_okD(3) [OF assms(1)] by (simp cong: conj_cong)
  qed
qed

lemma tracks_register_live:
  assumes "tracks v live obs futs n a" and "live k = Some x"
  shows "spec_exec wp (MakeSubject k) a = Some (Ret (SubjectExists k), a)"
  using tracked_live_generation [OF assms(1), of k] assms(2) by (simp add: tracksD(1) [OF assms(1)])

lemma tracks_register:
  assumes t: "tracks v live obs futs n a" and live: "live k = None" and new: "(k, e) \<notin> known v" and n: "n + 2 < 2 ^ 64"
  obtains a' where "spec_exec wp (MakeSubject k) a = Some (Ret (NewHandle (names a)), a')"
    and "tracks \<lparr>known = insert (k, e) (known v), number = (number v)((k, e) := generations a),
        result = (result v)((k, e) := None), queue = (queue v)((k, e) := [])\<rparr>
      (live(k \<mapsto> (names a, e))) obs futs (Suc n) a'"
    and "same_history a a'"
proof
  let ?v = "\<lparr>known = insert (k, e) (known v), number = (number v)((k, e) := generations a),
        result = (result v)((k, e) := None), queue = (queue v)((k, e) := [])\<rparr>"
  let ?a = "(begin_generation a)\<lparr>drawn := drawn a + 1, names := names a + 1,
             spec_subjects := spec_subjects a @ [(names a, k, generations a, False)]\<rparr>"
  have d: "drawn a \<noteq> USIZE_MAX" using tracksD(3) [OF t] n unat_USIZE_MAX by auto
  show "spec_exec wp (MakeSubject k) a = Some (Ret (NewHandle (names a)), ?a)"
    using tracked_live_generation [OF t, of k] live d by (simp add: tracksD(1) [OF t])
  show "same_history a ?a" by (simp add: same_history_def begin_generation_def)
  have same: "number ?v p = number v p \<and> result ?v p = result v p \<and> queue ?v p = queue v p" if "p \<in> known v" for p
    using that new by auto
  note own = owners_ok_cong [OF tracksD(4) [OF t] tracksD(5) [OF t], of ?v]
  show "tracks ?v (live(k \<mapsto> (names a, e))) obs futs (Suc n) ?a"
  proof (rule tracksI)
    have "unat (drawn a + 1) = unat (drawn a) + 1"
      using tracksD(3) [OF t] n by (intro checked_inc_Some checked_inc_small) simp
    with tracksD(3) [OF t] show "unat (drawn ?a) \<le> Suc n + 1" by simp
    have o: "owners_ok ?v live obs futs a" using own same by simp
    show "owners_ok ?v (live(k \<mapsto> (names a, e))) obs futs ?a"
      unfolding owners_ok_def
    proof (intro conjI allI)
      show "spec_observations ?a = map (\<lambda>(k, e, h). (h, number ?v (k, e))) obs"
        using owners_okD(1) [OF o] by (simp add: begin_generation_def)
      show "spec_futures ?a = map (\<lambda>(k, e, h, ws). (h, number ?v (k, e), ws)) futs"
        using owners_okD(2) [OF o] by (simp add: begin_generation_def)
      fix h k' g c
      have subs: "set (spec_subjects ?a) = insert (names a, k, generations a, False) (set (spec_subjects a))"
        by (simp add: begin_generation_def)
      have "(h, k', g, c) \<in> set (spec_subjects ?a) \<longleftrightarrow>
          (\<exists>e. live k' = Some (h, e) \<and> g = number ?v (k', e) \<and> c = (result ?v (k', e) \<noteq> None))
          \<or> (h, k', g, c) = (names a, k, generations a, False)"
        using owners_okD(3) [OF o, of h k' g c] by (simp add: subs del: fun_upd_apply) blast
      then show "(h, k', g, c) \<in> set (spec_subjects ?a) \<longleftrightarrow>
          (\<exists>e'. (live(k \<mapsto> (names a, e))) k' = Some (h, e') \<and> g = number ?v (k', e') \<and> c = (result ?v (k', e') \<noteq> None))"
        using live by (cases "k' = k") auto
    qed
    show "known_ok ?v (live(k \<mapsto> (names a, e))) obs futs"
      unfolding known_ok_def
    proof (intro conjI allI impI)
      have "number v p \<noteq> generations a" if "p \<in> known v" for p
        using generations_okD(1) [OF tracksD(6) [OF t] that] by simp
      then show "inj_on (number ?v) (known ?v)"
        using known_okD(1) [OF tracksD(5) [OF t]] new by (intro inj_onI) (auto split: if_splits dest: inj_onD)
    qed (use known_okD [OF tracksD(5) [OF t]] in \<open>auto split: if_splits\<close>)
    show "generations_ok ?v ?a"
      unfolding generations_ok_def
    proof
      fix p assume "p \<in> known ?v"
      then show "number ?v p < generations ?a \<and> value_of ?a (number ?v p) = result ?v p
          \<and> waiting_of ?a (number ?v p) = queue ?v p"
        using generations_okD [OF tracksD(6) [OF t], of p] new
        by (cases "p = (k, e)") (auto simp: begin_generation_def)
    qed
    have "set (spec_handles ?a) = insert (names a) (set (spec_handles a))"
      by (auto simp: spec_handles_def begin_generation_def)
    with tracksD(7) [OF t] handles_okD(4-6) [OF tracksD(7) [OF t]] show "handles_ok ?a"
      by (auto simp: handles_ok_def spec_handles_def begin_generation_def less_Suc_eq)
  qed (simp_all add: tracksD(1,2) [OF t] begin_generation_def)
qed

lemma tracks_observe_none:
  assumes "tracks v live obs futs n a" and "live k = None"
  shows "spec_exec wp (Observe k) a = Some (Ret (UnknownSubject k), a)"
  using tracked_live_generation [OF assms(1), of k] assms(2) by (simp add: tracksD(1) [OF assms(1)])

lemma tracks_observe:
  assumes t: "tracks v live obs futs n a" and live: "live k = Some (h, e)"
  obtains a' where "spec_exec wp (Observe k) a = Some (Ret (NewHandle (names a)), a')"
    and "tracks v live (obs @ [(k, e, names a)]) futs n a'" and "same_history a a'"
proof
  let ?a = "a\<lparr>names := names a + 1, spec_observations := spec_observations a @ [(names a, number v (k, e))]\<rparr>"
  show "spec_exec wp (Observe k) a = Some (Ret (NewHandle (names a)), ?a)"
    using tracked_live_generation [OF t, of k] live by (simp add: tracksD(1) [OF t])
  show "same_history a ?a" by (simp add: same_history_def)
  show "tracks v live (obs @ [(k, e, names a)]) futs n ?a"
  proof (rule tracksI)
    show "owners_ok v live (obs @ [(k, e, names a)]) futs ?a"
      using tracksD(4) [OF t] by (simp add: owners_ok_def)
    show "known_ok v live (obs @ [(k, e, names a)]) futs"
      using tracksD(5) [OF t] known_okD(2) [OF tracksD(5) [OF t] live] by (auto simp: known_ok_def)
    show "generations_ok v ?a" using tracksD(6) [OF t] by (simp add: generations_ok_def)
    show "handles_ok ?a" using tracksD(7) [OF t] handles_okD(4-6) [OF tracksD(7) [OF t]]
      by (auto simp: handles_ok_def spec_handles_def less_Suc_eq)
  qed (use tracksD(1-3) [OF t] in simp_all)
qed

text \<open>Releasing handles: what is left of the books is still right.\<close>

lemma delete_in: "distinct (map fst xs) \<Longrightarrow> map_of xs h = Some x \<Longrightarrow> set (AList.delete h xs) = set xs - {(h, x)}"
  by (auto simp: AList.delete_eq dest: map_of_SomeD eq_key_imp_eq_value)

lemma part_of_keys:
  assumes "xs' = xs \<or> (\<exists>h. xs' = AList.delete h xs) \<or> map fst xs' = map fst xs"
  shows "set (map fst xs') \<subseteq> set (map fst xs) \<and> (distinct (map fst xs) \<longrightarrow> distinct (map fst xs'))"
  using assms
proof (elim disjE exE)
  fix h assume "xs' = AList.delete h xs"
  then show ?thesis by (auto simp: distinct_map_delete dest: in_deleteD)
qed simp_all

lemma distinct_append_parts:
  assumes "distinct (xs @ ys @ zs)" and "set xs' \<subseteq> set xs \<and> (distinct xs \<longrightarrow> distinct xs')"
    "set ys' \<subseteq> set ys \<and> (distinct ys \<longrightarrow> distinct ys')" "set zs' \<subseteq> set zs \<and> (distinct zs \<longrightarrow> distinct zs')"
  shows "distinct (xs' @ ys' @ zs')" and "set (xs' @ ys' @ zs') \<subseteq> set (xs @ ys @ zs)"
  using assms by auto

lemma handles_ok_delete:
  assumes "handles_ok a" and "names a' = names a"
    and "spec_subjects a' = spec_subjects a \<or> (\<exists>h. spec_subjects a' = AList.delete h (spec_subjects a))
      \<or> map fst (spec_subjects a') = map fst (spec_subjects a)"
    and "spec_observations a' = spec_observations a \<or> (\<exists>h. spec_observations a' = AList.delete h (spec_observations a))"
    and "spec_futures a' = spec_futures a \<or> (\<exists>h. spec_futures a' = AList.delete h (spec_futures a))
      \<or> map fst (spec_futures a') = map fst (spec_futures a)"
  shows "handles_ok a'"
proof -
  have "spec_observations a' = spec_observations a \<or> (\<exists>h. spec_observations a' = AList.delete h (spec_observations a))
      \<or> map fst (spec_observations a') = map fst (spec_observations a)" using assms(4) by blast
  note p = part_of_keys [OF assms(3)] part_of_keys [OF this] part_of_keys [OF assms(5)]
  have "distinct (spec_handles a)" using assms(1) unfolding handles_ok_def by (rule conjunct1)
  note parts = distinct_append_parts [OF this [unfolded spec_handles_def] p, folded spec_handles_def]
  show ?thesis using parts assms(1,2) unfolding handles_ok_def by auto
qed

lemma tracks_complete:
  assumes t: "tracks v live obs futs n a" and live: "live k = Some (h, e)" and pending: "result v (k, e) = None"
  obtains a' where "spec_exec (\<lambda>_. False) (Complete h x) a = Some (Ret Done, a')"
    and "tracks (v\<lparr>result := (result v)((k, e) \<mapsto> x), queue := (queue v)((k, e) := [])\<rparr>) live obs futs n a'"
    and "published a' = published a @ [x]" and "taken a' = taken a"
    and "events a' = events a @ map event_of (queue v (k, e))"
proof
  let ?g = "number v (k, e)" and ?v = "v\<lparr>result := (result v)((k, e) \<mapsto> x), queue := (queue v)((k, e) := [])\<rparr>"
  let ?a = "(publish_generation ?g x a)\<lparr>spec_subjects := AList.update h (k, ?g, True) (spec_subjects a)\<rparr>"
  note kn = tracksD(5) [OF t]
  have ke: "(k, e) \<in> known v" by (rule known_okD(2) [OF kn live])
  note g = generations_okD [OF tracksD(6) [OF t] ke]
  have sub: "map_of (spec_subjects a) h = Some (k, ?g, False)" using tracked_subject [OF t live] pending by simp
  show "spec_exec (\<lambda>_. False) (Complete h x) a = Some (Ret Done, ?a)"
    using sub by (simp add: drain_result_def)
  show "published ?a = published a @ [x]" "taken ?a = taken a" "events ?a = events a @ map event_of (queue v (k, e))"
    using g(3) by (simp_all add: publish_generation_def)
  show "tracks ?v live obs futs n ?a"
  proof (rule tracksI)
    show "owners_ok ?v live obs futs ?a"
      unfolding owners_ok_def
    proof (intro conjI allI)
      fix h' k' g' c
      have d: "distinct (map fst (spec_subjects a))" by (rule handles_okD(1) [OF tracksD(7) [OF t]])
      show "(h', k', g', c) \<in> set (spec_subjects ?a) \<longleftrightarrow>
        (\<exists>e. live k' = Some (h', e) \<and> g' = number ?v (k', e) \<and> c = (result ?v (k', e) \<noteq> None))"
        (is "?l \<longleftrightarrow> ?r")
      proof (cases "h' = h")
        case True
        have "?l \<longleftrightarrow> (k', g', c) = (k, ?g, True)" using True d by (simp add: publish_generation_def Prelude.set_update)
        moreover have "k' = k \<and> e' = e" if "live k' = Some (h, e')" for e'
          using tracked_subject [OF t that] sub live that by auto
        ultimately have "?r \<Longrightarrow> ?l" and l: "?l \<Longrightarrow> k' = k \<and> g' = ?g \<and> c" using True by auto
        moreover have ?r if ?l using l [OF that] True live by (intro exI [of _ e]) simp
        ultimately show ?thesis by blast
      next
        case False
        have "?l \<longleftrightarrow> (h', k', g', c) \<in> set (spec_subjects a)" using False d by (simp add: publish_generation_def Prelude.set_update)
        moreover have r: "((result v)((k, e) \<mapsto> x)) (k', e') = result v (k', e')" if "live k' = Some (h', e')" for e'
          using that live False by auto
        ultimately show ?thesis using owners_okD(3) [OF tracksD(4) [OF t], of h' k' g' c]
          by (simp add: r cong: conj_cong del: fun_upd_apply)
      qed
    qed (use owners_okD(1,2) [OF tracksD(4) [OF t]] in \<open>simp_all add: publish_generation_def\<close>)
    show "known_ok ?v live obs futs" using kn by (simp add: known_ok_def)
    show "generations_ok ?v ?a"
      unfolding generations_ok_def
    proof
      fix p assume p: "p \<in> known ?v"
      then show "number ?v p < generations ?a \<and> value_of ?a (number ?v p) = result ?v p
          \<and> waiting_of ?a (number ?v p) = queue ?v p"
        using generations_okD [OF tracksD(6) [OF t], of p] same_number [OF kn _ ke, of p]
        by (cases "p = (k, e)") (auto simp: publish_generation_def)
    qed
    show "handles_ok ?a"
      by (rule handles_ok_delete [OF tracksD(7) [OF t]])
        (simp_all add: publish_generation_def map_fst_update [OF sub])
  qed (use tracksD(1-3) [OF t] in \<open>simp_all add: publish_generation_def\<close>)
qed

lemma tracks_retire:
  assumes t: "tracks v live obs futs n a" and live: "live k = Some (h, e)"
  obtains a' where "spec_exec wp (DropSubject h) a = Some (Ret Done, a')"
    and "tracks v (live(k := None)) obs futs n a'" and "same_history a a'"
proof
  let ?a = "a\<lparr>spec_subjects := AList.delete h (spec_subjects a)\<rparr>"
  note sub = tracked_subject [OF t live]
  show "spec_exec wp (DropSubject h) a = Some (Ret Done, ?a)" using sub by simp
  show "same_history a ?a" by (simp add: same_history_def)
  show "tracks v (live(k := None)) obs futs n ?a"
  proof (rule tracksI)
    show "owners_ok v (live(k := None)) obs futs ?a"
      unfolding owners_ok_def
    proof (intro conjI allI)
      fix h' k' g' c
      have d: "distinct (map fst (spec_subjects a))" by (rule handles_okD(1) [OF tracksD(7) [OF t]])
      have "h' \<noteq> h" if "live k' = Some (h', e')" "k' \<noteq> k" for e'
        using tracked_subject [OF t that(1)] sub that(2) by auto
      moreover have "h' = h" if "(h', k, g', c) \<in> set (spec_subjects a)"
        using that live owners_okD(3) [OF tracksD(4) [OF t], of h' k g' c] by auto
      ultimately show "(h', k', g', c) \<in> set (spec_subjects ?a) \<longleftrightarrow>
        (\<exists>e. (live(k := None)) k' = Some (h', e) \<and> g' = number v (k', e) \<and> c = (result v (k', e) \<noteq> None))"
        using owners_okD(3) [OF tracksD(4) [OF t], of h' k' g' c]
        by (cases "k' = k") (auto simp: AList.delete_eq)
    qed (use owners_okD(1,2) [OF tracksD(4) [OF t]] in simp_all)
    show "known_ok v (live(k := None)) obs futs"
      using known_okD [OF tracksD(5) [OF t]] unfolding known_ok_def by (auto split: if_splits)
    show "generations_ok v ?a" using tracksD(6) [OF t] by (simp add: generations_ok_def)
    show "handles_ok ?a" by (rule handles_ok_delete [OF tracksD(7) [OF t]]) auto
  qed (use tracksD(1-3) [OF t] in simp_all)
qed

lemma tracks_try_get:
  assumes "tracks v live obs futs n a" and "(k, e, h) \<in> set obs"
  shows "spec_exec wp (TryGet h) a = Some (Ret (Value (result v (k, e))), a)"
  using tracked_observation [OF assms] generations_okD(2) [OF tracksD(6) [OF assms(1)] known_okD(3) [OF tracksD(5) [OF assms(1)] assms(2)]]
  by simp

lemma delete_middle: "distinct (map fst (xs @ (h, x) # ys)) \<Longrightarrow> AList.delete h (xs @ (h, x) # ys) = xs @ ys"
  by (induction xs) (force simp: AList.delete_eq filter_id_conv)+

lemma tracks_without_observation:
  assumes t: "tracks v live (xs @ (k, e, h) # ys) futs n a"
  shows "tracks v live (xs @ ys) futs n (a\<lparr>spec_observations := AList.delete h (spec_observations a), taken := vs\<rparr>)"
    (is "tracks v live _ futs n ?a")
proof (rule tracksI)
  note own = tracksD(4) [OF t]
  show "owners_ok v live (xs @ ys) futs ?a"
    using owners_okD(1) [OF own] handles_okD(2) [OF tracksD(7) [OF t]] own
    by (simp add: owners_ok_def delete_middle)
  show "known_ok v live (xs @ ys) futs" using tracksD(5) [OF t] by (auto simp: known_ok_def)
  show "generations_ok v ?a" using tracksD(6) [OF t] by (simp add: generations_ok_def)
  show "handles_ok ?a" by (rule handles_ok_delete [OF tracksD(7) [OF t]]) auto
qed (use tracksD(1-3) [OF t] in simp_all)

lemma tracks_drop_observation:
  assumes t: "tracks v live (xs @ (k, e, h) # ys) futs n a"
  obtains a' where "spec_exec wp (DropObservation h) a = Some (Ret Done, a')"
    and "tracks v live (xs @ ys) futs n a'" and "same_history a a'"
proof
  let ?a = "a\<lparr>spec_observations := AList.delete h (spec_observations a), taken := taken a\<rparr>"
  have "map_of (spec_observations a) h = Some (number v (k, e))" by (rule tracked_observation [OF t]) simp
  then show "spec_exec wp (DropObservation h) a = Some (Ret Done, ?a)" by simp
  show "tracks v live (xs @ ys) futs n ?a" by (rule tracks_without_observation [OF t])
  show "same_history a ?a" by (simp add: same_history_def)
qed

text \<open>
  \<open>into_outcome\<close> moves the value out exactly when no subject of that epoch is live and nothing else
  reads that generation.
\<close>

definition last_reader :: "('k \<rightharpoonup> handle \<times> u64) \<Rightarrow> 'k watched list \<Rightarrow> 'k awaited list \<Rightarrow> 'k \<Rightarrow> u64 \<Rightarrow> bool" where
  "last_reader live obs futs k e \<longleftrightarrow> (\<nexists>h. live k = Some (h, e)) \<and> filter (\<lambda>(k2, e2, h). k2 = k \<and> e2 = e) obs = []
     \<and> filter (\<lambda>(k2, e2, h, ws). k2 = k \<and> e2 = e) futs = []"

lemma tracks_into_outcome:
  assumes t: "tracks v live (xs @ [(k, e, h)]) futs n a"
  obtains a' where "spec_exec wp (IntoOutcome h) a =
        Some (Ret (Value (if last_reader live xs futs k e then result v (k, e) else None)), a')"
    and "tracks v live xs futs n a'" and "published a' = published a" and "events a' = events a"
    and "taken a' = taken a @ (if last_reader live xs futs k e then case result v (k, e) of None \<Rightarrow> [] | Some x \<Rightarrow> [x] else [])"
proof
  let ?g = "number v (k, e)" and ?r = "if last_reader live xs futs k e then result v (k, e) else None"
  let ?a = "a\<lparr>spec_observations := AList.delete h (spec_observations a),
    taken := taken a @ (case ?r of None \<Rightarrow> [] | Some x \<Rightarrow> [x])\<rparr>"
  have ke: "(k, e) \<in> known v" by (rule known_okD(3) [OF tracksD(5) [OF t], of k e h]) simp
  have obs: "map_of (spec_observations a) h = Some ?g" by (rule tracked_observation [OF t]) simp
  have "holders ?g a = 1 \<longleftrightarrow> last_reader live xs futs k e"
    using tracked_holders [OF t ke] by (auto simp: last_reader_def)
  with obs generations_okD(2) [OF tracksD(6) [OF t] ke]
  show "spec_exec wp (IntoOutcome h) a = Some (Ret (Value ?r), ?a)" by (simp add: Let_def)
  show "tracks v live xs futs n ?a" using tracks_without_observation [of v live xs k e h "[]"] t by simp
  show "taken ?a = taken a @ (if last_reader live xs futs k e then case result v (k, e) of None \<Rightarrow> [] | Some x \<Rightarrow> [x] else [])"
    by simp
qed simp_all

lemma tracks_set_waiting:
  assumes t: "tracks v live obs futs n a" and p: "p \<in> known v"
  shows "tracks (v\<lparr>queue := (queue v)(p := ws)\<rparr>) live obs futs n (set_waiting (number v p) ws a)"
proof (rule tracksI)
  show "generations_ok (v\<lparr>queue := (queue v)(p := ws)\<rparr>) (set_waiting (number v p) ws a)"
    unfolding generations_ok_def
  proof
    fix q assume "q \<in> known (v\<lparr>queue := (queue v)(p := ws)\<rparr>)"
    with generations_okD [OF tracksD(6) [OF t], of q] same_number [OF tracksD(5) [OF t] _ p, of q]
    show "number (v\<lparr>queue := (queue v)(p := ws)\<rparr>) q < generations (set_waiting (number v p) ws a) \<and>
      value_of (set_waiting (number v p) ws a) (number (v\<lparr>queue := (queue v)(p := ws)\<rparr>) q) = result (v\<lparr>queue := (queue v)(p := ws)\<rparr>) q \<and>
      waiting_of (set_waiting (number v p) ws a) (number (v\<lparr>queue := (queue v)(p := ws)\<rparr>) q) = queue (v\<lparr>queue := (queue v)(p := ws)\<rparr>) q"
      by (auto simp: set_waiting_def)
  qed
  show "handles_ok (set_waiting (number v p) ws a)"
    by (rule handles_ok_delete [OF tracksD(7) [OF t]]) (simp_all add: set_waiting_def)
qed (use tracksD [OF t] in \<open>simp_all add: set_waiting_def owners_ok_def known_ok_def\<close>)

lemma tracks_register_waker:
  assumes t: "tracks v live obs futs n a" and "(k, e, h) \<in> set obs"
  obtains a' where "spec_exec wp (RegisterWaker h x) a = Some (Ret (Flag (result v (k, e) \<noteq> None)), a')"
    and "tracks (if result v (k, e) \<noteq> None then v else v\<lparr>queue := (queue v)((k, e) := direct_registered x (queue v (k, e)))\<rparr>)
      live obs futs n a'" and "same_history a a'"
proof
  let ?a = "if result v (k, e) \<noteq> None then a
    else set_waiting (number v (k, e)) (direct_registered x (queue v (k, e))) a"
  have ke: "(k, e) \<in> known v" by (rule known_okD(3) [OF tracksD(5) [OF t] assms(2)])
  show "spec_exec wp (RegisterWaker h x) a = Some (Ret (Flag (result v (k, e) \<noteq> None)), ?a)"
    using tracked_observation [OF assms] generations_okD(2,3) [OF tracksD(6) [OF t] ke] by simp
  show "tracks (if result v (k, e) \<noteq> None then v else v\<lparr>queue := (queue v)((k, e) := direct_registered x (queue v (k, e)))\<rparr>)
      live obs futs n ?a"
    using tracks_set_waiting [OF t ke] t by simp
  show "same_history a ?a" by (simp add: same_history_def set_waiting_def)
qed

subsection \<open>Futures\<close>

lemma tracks_into_future:
  assumes t: "tracks v live (xs @ [(k, e, h)]) futs n a"
  obtains a' where "spec_exec wp (IntoFuture h) a = Some (Ret (NewHandle h), a')"
    and "tracks v live xs (futs @ [(k, e, h, [])]) n a'" and "same_history a a'"
proof
  let ?g = "number v (k, e)"
  let ?a = "a\<lparr>spec_observations := AList.delete h (spec_observations a),
       spec_futures := spec_futures a @ [(h, ?g, [])]\<rparr>"
  note own = tracksD(4) [OF t] and hs = tracksD(7) [OF t]
  have "map_of (spec_observations a) h = Some ?g" by (rule tracked_observation [OF t]) simp
  then show "spec_exec wp (IntoFuture h) a = Some (Ret (NewHandle h), ?a)" by simp
  show "same_history a ?a" by (simp add: same_history_def)
  have del: "AList.delete h (spec_observations a) = map (\<lambda>(k, e, h). (h, number v (k, e))) xs"
    using handles_okD(2) [OF hs] delete_middle [of "map (\<lambda>(k, e, h). (h, number v (k, e))) xs" h ?g "[]"]
    by (simp add: owners_okD(1) [OF own])
  show "tracks v live xs (futs @ [(k, e, h, [])]) n ?a"
  proof (rule tracksI)
    show "owners_ok v live xs (futs @ [(k, e, h, [])]) ?a"
      using own del by (simp add: owners_ok_def)
    show "known_ok v live xs (futs @ [(k, e, h, [])])" using tracksD(5) [OF t] by (auto simp: known_ok_def)
    show "generations_ok v ?a" using tracksD(6) [OF t] by (simp add: generations_ok_def)
    have m: "mset (spec_handles ?a) = mset (spec_handles a)"
      by (simp add: spec_handles_def del) (simp add: owners_okD(1) [OF own] multiset.map_comp)
    from mset_eq_imp_distinct_iff [OF m] mset_eq_setD [OF m] hs show "handles_ok ?a"
      unfolding handles_ok_def by simp
  qed (use tracksD(1-3) [OF t] in simp_all)
qed

text \<open>A poll with a waker nobody else uses.\<close>

lemma tracks_poll_ready:
  assumes t: "tracks v live obs futs n a" and f: "(k, e, h, ws) \<in> set futs" and r: "result v (k, e) = Some x"
  shows "spec_exec wp (Poll h y) a = Some (Ret (Polled (Ready x)), a)"
proof -
  have ke: "(k, e) \<in> known v" by (rule known_okD(4) [OF tracksD(5) [OF t] f])
  show ?thesis using tracked_future [OF t f] generations_okD(2) [OF tracksD(6) [OF t] ke] r by simp
qed

lemma update_middle: "distinct (map fst (xs @ (h, x) # ys)) \<Longrightarrow> AList.update h y (xs @ (h, x) # ys) = xs @ (h, y) # ys"
  by (induction xs) auto

lemma tracks_change_future:
  assumes t: "tracks v live obs (fs @ [(k, e, h, ws)]) n a"
  shows "tracks v live obs (fs @ [(k, e, h, ws')]) n
    (a\<lparr>spec_futures := AList.update h (number v (k, e), ws') (spec_futures a)\<rparr>)" (is "tracks v live obs _ n ?a")
proof (rule tracksI)
  note own = tracksD(4) [OF t]
  have f: "map_of (spec_futures a) h = Some (number v (k, e), ws)" by (rule tracked_future [OF t]) simp
  show "owners_ok v live obs (fs @ [(k, e, h, ws')]) ?a"
    using owners_okD(2) [OF own] handles_okD(3) [OF tracksD(7) [OF t]] own
    by (simp add: owners_ok_def update_middle)
  show "known_ok v live obs (fs @ [(k, e, h, ws')])" using tracksD(5) [OF t] by (auto simp: known_ok_def)
  show "generations_ok v ?a" using tracksD(6) [OF t] by (simp add: generations_ok_def)
  show "handles_ok ?a"
    by (rule handles_ok_delete [OF tracksD(7) [OF t]]) (simp_all add: map_fst_update [OF f])
qed (use tracksD(1-3) [OF t] in simp_all)

lemma future_registered_new: "w \<notin> set (wakers_of ws) \<Longrightarrow> future_registered w ws = Ret (ws @ [Waker w False 1])"
proof -
  assume "w \<notin> set (wakers_of ws)"
  then have "add_owner w ws = None" by (induction w ws rule: add_owner.induct) auto
  then show ?thesis by (simp add: future_registered_def)
qed

lemma tracks_poll_pending:
  assumes t: "tracks v live obs (fs @ [(k, e, h, ws)]) n a" and r: "result v (k, e) = None"
    and new: "x \<notin> set ws" "x \<notin> set (wakers_of (queue v (k, e)))"
  obtains a' where "spec_exec wp (Poll h x) a = Some (Ret (Polled Pending), a')"
    and "tracks (v\<lparr>queue := (queue v)((k, e) := queue v (k, e) @ [Waker x False 1])\<rparr>) live obs
      (fs @ [(k, e, h, ws @ [x])]) n a'" and "same_history a a'"
proof
  let ?g = "number v (k, e)"
  let ?b = "set_waiting ?g (queue v (k, e) @ [Waker x False 1]) a"
  let ?a = "?b\<lparr>spec_futures := AList.update h (?g, ws @ [x]) (spec_futures a)\<rparr>"
  have ke: "(k, e) \<in> known v" by (rule known_okD(4) [OF tracksD(5) [OF t], of k e h ws]) simp
  have f: "map_of (spec_futures a) h = Some (?g, ws)" by (rule tracked_future [OF t]) simp
  show "spec_exec wp (Poll h x) a = Some (Ret (Polled Pending), ?a)"
    using f generations_okD(2,3) [OF tracksD(6) [OF t] ke] r new by (simp add: future_registered_new)
  show "same_history a ?a" by (simp add: same_history_def set_waiting_def)
  from tracks_change_future [OF tracks_set_waiting [OF t ke]]
  show "tracks (v\<lparr>queue := (queue v)((k, e) := queue v (k, e) @ [Waker x False 1])\<rparr>) live obs
      (fs @ [(k, e, h, ws @ [x])]) n ?a"
    by (simp add: set_waiting_def)
qed

lemma tracks_drop_future:
  assumes t: "tracks v live obs (xs @ (k, e, h, ws) # ys) n a"
  obtains a' where "spec_exec wp (DropFuture h) a = Some (Ret Done, a')"
    and "tracks (v\<lparr>queue := (queue v)((k, e) := cancelled ws (queue v (k, e)))\<rparr>) live obs (xs @ ys) n a'"
    and "same_history a a'"
proof
  let ?g = "number v (k, e)" and ?v = "v\<lparr>queue := (queue v)((k, e) := cancelled ws (queue v (k, e)))\<rparr>"
  let ?b = "set_waiting ?g (cancelled ws (queue v (k, e))) a"
  let ?a = "?b\<lparr>spec_futures := AList.delete h (spec_futures a)\<rparr>"
  have ke: "(k, e) \<in> known v" by (rule known_okD(4) [OF tracksD(5) [OF t], of k e h ws]) simp
  have "map_of (spec_futures a) h = Some (?g, ws)" by (rule tracked_future [OF t]) simp
  then show "spec_exec wp (DropFuture h) a = Some (Ret Done, ?a)"
    using generations_okD(3) [OF tracksD(6) [OF t] ke] by simp
  show "same_history a ?a" by (simp add: same_history_def set_waiting_def)
  have b: "tracks ?v live obs (xs @ (k, e, h, ws) # ys) n ?b" by (rule tracks_set_waiting [OF t ke])
  show "tracks ?v live obs (xs @ ys) n ?a"
  proof (rule tracksI)
    note own = tracksD(4) [OF b]
    show "owners_ok ?v live obs (xs @ ys) ?a"
      using owners_okD(2) [OF own] handles_okD(3) [OF tracksD(7) [OF b]] own
      by (simp add: owners_ok_def delete_middle set_waiting_def)
    show "known_ok ?v live obs (xs @ ys)" using tracksD(5) [OF b] by (auto simp: known_ok_def)
    show "generations_ok ?v ?a" using tracksD(6) [OF b] by (simp add: generations_ok_def)
    show "handles_ok ?a" by (rule handles_ok_delete [OF tracksD(7) [OF b]]) (auto simp: set_waiting_def)
  qed (use tracksD(1-3) [OF b] in simp_all)
qed

end
