(* ===== verification/Fuzz.thy ===== *)
theory Fuzz
  imports Tracking
begin

section \<open>The fuzz targets: what they share\<close>

text \<open>
  \<open>observe-tests/fuzz/fuzz_targets/*.rs\<close>: each target reads its input as a list of pairs of an
  operation and a key, keeps books on the keys and epochs it has registered, and asserts what the
  crate answers.  This theory holds the books and the match arms that three of the four targets
  have in common; \<open>None\<close> as the result of a run is a crash artifact.
\<close>

type_synonym ('o, 'x) target = "((u8, 'o) op, (u8, 'o) reply call, 'x) harness"

definition ask :: "('k, 'o) op \<Rightarrow> (('k, 'o) reply \<Rightarrow> (('k, 'o) op, ('k, 'o) reply call, 'x) harness) \<Rightarrow>
    (('k, 'o) op, ('k, 'o) reply call, 'x) harness" where
  "ask i k = Ask i (\<lambda>r. case r of Ret v \<Rightarrow> k v | Panic p \<Rightarrow> Fails)"

abbreviation on_contract :: "(('k, 'o) op, ('k, 'o) reply call, 'x) harness \<Rightarrow> ('k, 'o) spec \<Rightarrow> ('x \<times> ('k, 'o) spec) option" where
  "on_contract \<equiv> interp (spec_exec (\<lambda>_. False)) spec_fires"

definition on_crate :: "(('k, 'o) op, ('k, 'o) reply call, 'x) harness \<Rightarrow> ('k, 'o) world \<Rightarrow> ('x \<times> ('k, 'o) world) option" where
  "on_crate = interp (perform handle_count (\<lambda>_. False)) world_fires"

lemma crate_if_contract:
  assumes "on_contract m spec_new = Some (x, a)"
  obtains f w where "on_crate m space_new = Some (x, w)" and "refines f a w" and "reach handle_count w"
  using contract.transfer_Some [OF contract_start assms] unfolding on_crate_def by blast

text \<open>The input: \<open>data.chunks_exact(2)\<close>.\<close>

fun pairs :: "u8 list \<Rightarrow> (u8 \<times> u8) list" where
  "pairs (a # b # bs) = (a, b) # pairs bs"
| "pairs _ = []"

text \<open>A value's tag: the epoch in the high bits, the key in the low 8.\<close>

definition encode :: "u64 \<Rightarrow> u8 \<Rightarrow> u64" where
  "encode epoch key = push_bit 8 epoch OR ucast key"

text \<open>
  C35: a tag names its epoch and its key: both can be read back, as long as the epoch fits its 56
  bits, so that two values of different generations or keys never have the same tag.
\<close>

theorem tags_decode:
  assumes "unat epoch < 2 ^ 56"
  shows "drop_bit 8 (encode epoch key) = epoch \<and> ucast (encode epoch key) = key"
proof
  have high: "\<not> bit epoch n" if "n \<ge> 56" for n
  proof -
    have "epoch = take_bit 56 epoch" using assms
      by (simp add: word_unat_eq_iff unsigned_take_bit_eq take_bit_nat_eq_self)
    with that show ?thesis by (metis bit_take_bit_iff not_less)
  qed
  show "drop_bit 8 (encode epoch key) = epoch"
  proof (rule bit_word_eqI)
    fix n assume n: "n < LENGTH(64)"
    show "bit (drop_bit 8 (encode epoch key)) n = bit epoch n"
    proof (cases "n < 56")
      case True
      then show ?thesis by (auto simp: encode_def bit_simps dest: bit_imp_le_length)
    next
      case False
      then have "\<not> bit epoch n" by (intro high) simp
      with False show ?thesis by (auto simp: encode_def bit_simps dest: bit_imp_le_length)
    qed
  qed
  show "ucast (encode epoch key) = key"
    by (rule bit_word_eqI) (simp add: encode_def bit_simps)
qed

theorem tags_decode_witness:
  "drop_bit 8 (encode 255 3) = 255 \<and> (ucast (encode 255 3) :: u8) = 3"
  by (rule tags_decode) simp

subsection \<open>The books and the shared arms\<close>

record target_state =
  subjects_of :: "u8 \<rightharpoonup> handle"
  epochs_of :: "u8 \<rightharpoonup> u64"
  observations_of :: "(u8 \<times> u64 \<times> handle) list"

fun next_epoch :: "u64 option \<Rightarrow> u64 option" where
  "next_epoch None = Some 0"
| "next_epoch (Some e) = checked_inc e"

text \<open>\<open>HashMap::insert\<close> drops the value that was there.\<close>

definition insert_subject :: "u8 \<Rightarrow> handle \<Rightarrow> 'a target_state_scheme \<Rightarrow> ('o, 'a target_state_scheme) target" where
  "insert_subject key h s = (let s' = s\<lparr>subjects_of := (subjects_of s)(key \<mapsto> h)\<rparr> in
     case subjects_of s key of
       None \<Rightarrow> Finish s'
     | Some old \<Rightarrow> ask (DropSubject old) (\<lambda>_. Finish s'))"

definition fuzz_register :: "('a target_state_scheme \<Rightarrow> 'a target_state_scheme) \<Rightarrow> u8 \<Rightarrow> 'a target_state_scheme \<Rightarrow>
    ('o, 'a target_state_scheme) target" where
  "fuzz_register finally key s = ask (MakeSubject key) (\<lambda>r. case r of
       NewHandle h \<Rightarrow> (case next_epoch (epochs_of s key) of
           None \<Rightarrow> Fails
         | Some epoch \<Rightarrow> chain (insert_subject key h (s\<lparr>epochs_of := (epochs_of s)(key \<mapsto> epoch)\<rparr>))
             (\<lambda>s. Finish (finally s)))
     | SubjectExists _ \<Rightarrow> Finish s
     | _ \<Rightarrow> Fails)"

definition fuzz_observe :: "u8 \<Rightarrow> 'a target_state_scheme \<Rightarrow> ('o, 'a target_state_scheme) target" where
  "fuzz_observe key s = ask (Observe key) (\<lambda>r. case r of
       NewHandle h \<Rightarrow> (case epochs_of s key of
           None \<Rightarrow> Fails
         | Some epoch \<Rightarrow> Finish (s\<lparr>observations_of := observations_of s @ [(key, epoch, h)]\<rparr>))
     | UnknownSubject _ \<Rightarrow> Finish s
     | _ \<Rightarrow> Fails)"

definition fuzz_retire :: "u8 \<Rightarrow> 'a target_state_scheme \<Rightarrow> ('o, 'a target_state_scheme) target" where
  "fuzz_retire key s = (case subjects_of s key of
       None \<Rightarrow> Finish s
     | Some h \<Rightarrow> ask (DropSubject h) (\<lambda>_. Finish (s\<lparr>subjects_of := (subjects_of s)(key := None)\<rparr>)))"

definition fuzz_drop :: "'a target_state_scheme \<Rightarrow> ('o, 'a target_state_scheme) target" where
  "fuzz_drop s = (case pop (observations_of s) of
       (None, _) \<Rightarrow> Finish s
     | (Some (k, e, h), rest) \<Rightarrow> ask (DropObservation h) (\<lambda>_. Finish (s\<lparr>observations_of := rest\<rparr>)))"

text \<open>\<open>!subjects.contains_key(&k) || epochs[&k] != e\<close>, where the index panics on a missing key.\<close>

definition subject_gone :: "u8 \<Rightarrow> u64 \<Rightarrow> 'a target_state_scheme \<Rightarrow> bool option" where
  "subject_gone k e s = (if subjects_of s k = None then Some True else map_option (\<lambda>e'. e' \<noteq> e) (epochs_of s k))"

definition refs :: "u8 \<Rightarrow> u64 \<Rightarrow> (u8 \<times> u64 \<times> handle) list \<Rightarrow> nat" where
  "refs k e os = length (filter (\<lambda>(k2, e2, _). k2 = k \<and> e2 = e) os)"

text \<open>
  The end of a target: the observations are dropped in order, then the subjects in the order the
  \<open>HashMap\<close> gives its keys (\<open>order\<close>, a parameter), then the space.
\<close>

definition teardown :: "((u8 \<rightharpoonup> handle) \<Rightarrow> u8 list) \<Rightarrow> 'a target_state_scheme \<Rightarrow> ('o, 'a target_state_scheme) target" where
  "teardown order s =
     chain (each (\<lambda>(k, e, h) x. ask (DropObservation h) (\<lambda>_. Finish x)) (observations_of s) s) (\<lambda>s.
     chain (each (\<lambda>k x. case subjects_of s k of
          None \<Rightarrow> Finish x
        | Some h \<Rightarrow> ask (DropSubject h) (\<lambda>_. Finish x)) (order (subjects_of s)) s) (\<lambda>s.
     ask (DropSpace 0) (\<lambda>_. Finish s)))"

definition visits_each_once :: "((u8 \<rightharpoonup> handle) \<Rightarrow> u8 list) \<Rightarrow> bool" where
  "visits_each_once order \<longleftrightarrow> (\<forall>m. distinct (order m) \<and> set (order m) = dom m)"

text \<open>One such order: by key.\<close>

definition keys_in_order :: "(u8 \<rightharpoonup> handle) \<Rightarrow> u8 list" where
  "keys_in_order m = filter (\<lambda>k. m k \<noteq> None) (map of_nat [0..<256])"

lemma every_key_once: "visits_each_once keys_in_order"
proof -
  have "k \<in> of_nat ` {0..<256}" for k :: u8
  proof
    show "k = of_nat (unat k)" by simp
    show "unat k \<in> {0..<256}" using unsigned_less [of k] by simp
  qed
  moreover have "inj_on (of_nat :: nat \<Rightarrow> u8) {0..<256}"
    by (rule inj_onI) (auto simp: word_of_nat_eq_iff take_bit_nat_eq_self)
  ultimately show ?thesis
    by (auto simp: keys_in_order_def visits_each_once_def dom_def distinct_map intro: inj_on_subset)
qed

subsection \<open>The books are right\<close>

lemma interp_ask [simp]:
  "interp api fires (ask i k) s = (case api i s of None \<Rightarrow> None | Some (Ret r, s') \<Rightarrow> interp api fires (k r) s' | Some (Panic p, s') \<Rightarrow> None)"
  by (auto simp: ask_def split: option.split call.split)

definition live_of :: "'a target_state_scheme \<Rightarrow> u8 \<rightharpoonup> handle \<times> u64" where
  "live_of s k = (case (subjects_of s k, epochs_of s k) of (Some h, Some e) \<Rightarrow> Some (h, e) | _ \<Rightarrow> None)"

definition registered_pairs :: "'a target_state_scheme \<Rightarrow> (u8 \<times> u64) set" where
  "registered_pairs s = {(k, e). \<exists>l. epochs_of s k = Some l \<and> e \<le> l}"

definition books_ok :: "(u8, 'o) tracked \<Rightarrow> nat \<Rightarrow> 'a target_state_scheme \<Rightarrow> (u8, 'o) spec \<Rightarrow> bool" where
  "books_ok v n s a \<longleftrightarrow> tracks v (live_of s) (observations_of s) [] n a \<and> known v = registered_pairs s \<and>
     (\<forall>k h. subjects_of s k = Some h \<longrightarrow> epochs_of s k \<noteq> None) \<and> (\<forall>k l. epochs_of s k = Some l \<longrightarrow> unat l \<le> n)"

lemma books_okD:
  assumes "books_ok v n s a"
  shows "tracks v (live_of s) (observations_of s) [] n a" and "known v = registered_pairs s"
    and "subjects_of s k = Some h \<Longrightarrow> \<exists>l. epochs_of s k = Some l" and "epochs_of s k = Some l \<Longrightarrow> unat l \<le> n"
  using assms by (auto simp: books_ok_def)

lemma books_later: "books_ok v n s a \<Longrightarrow> n \<le> m \<Longrightarrow> books_ok v m s a"
  unfolding books_ok_def using tracks_later order_trans by fast

lemma books_same:
  "books_ok v n s a \<Longrightarrow> subjects_of s' = subjects_of s \<Longrightarrow> epochs_of s' = epochs_of s \<Longrightarrow>
     observations_of s' = observations_of s \<Longrightarrow> books_ok v n s' a"
proof -
  assume same: "subjects_of s' = subjects_of s" "epochs_of s' = epochs_of s" "observations_of s' = observations_of s"
  then have "live_of s' = live_of s" "registered_pairs s' = registered_pairs s"
    by (simp_all add: live_of_def fun_eq_iff registered_pairs_def)
  with same show "books_ok v n s a \<Longrightarrow> books_ok v n s' a" by (simp add: books_ok_def)
qed

lemma live_of_Some: "live_of s k = Some (h, e) \<longleftrightarrow> subjects_of s k = Some h \<and> epochs_of s k = Some e"
  by (auto simp: live_of_def split: option.splits)

lemma live_of_None: "books_ok v n s a \<Longrightarrow> live_of s k = None \<longleftrightarrow> subjects_of s k = None"
  by (auto simp: live_of_def books_ok_def split: option.splits)

lemma live_of_cases:
  assumes "books_ok v n s a"
  obtains "subjects_of s k = None" "live_of s k = None"
  | h e where "subjects_of s k = Some h" "epochs_of s k = Some e" "live_of s k = Some (h, e)"
proof (cases "subjects_of s k")
  case None
  with that(1) show ?thesis by (simp add: live_of_def)
next
  case (Some h)
  with books_okD(3) [OF assms] obtain e where "epochs_of s k = Some e" by blast
  with Some that(2) show ?thesis by (simp add: live_of_def)
qed

definition begun :: "u8 \<times> u64 \<Rightarrow> nat \<Rightarrow> (u8, 'o) tracked \<Rightarrow> (u8, 'o) tracked" where
  "begun p g v = \<lparr>known = insert p (known v), number = (number v)(p := g), result = (result v)(p := None), queue = (queue v)(p := [])\<rparr>"

lemma begun_simps [simp]:
  "known (begun p g v) = insert p (known v)" "result (begun p g v) = (result v)(p := None)"
  "queue (begun p g v) = (queue v)(p := [])"
  by (simp_all add: begun_def)

lemma fuzz_register_ok:
  assumes b: "books_ok v n s a" and n: "n + 2 < 2 ^ 64"
  obtains "subjects_of s key \<noteq> None" and "on_contract (fuzz_register f key s) a = Some (s, a)"
  | e h a' where "subjects_of s key = None" and "(key, e) \<notin> known v" and "next_epoch (epochs_of s key) = Some e"
    and "on_contract (fuzz_register f key s) a =
      Some (f (s\<lparr>epochs_of := (epochs_of s)(key \<mapsto> e), subjects_of := (subjects_of s)(key \<mapsto> h)\<rparr>), a')"
    and "books_ok (begun (key, e) (generations a) v) (Suc n)
      (s\<lparr>epochs_of := (epochs_of s)(key \<mapsto> e), subjects_of := (subjects_of s)(key \<mapsto> h)\<rparr>) a'"
    and "same_history a a'"
proof (cases rule: live_of_cases [OF b, of key])
  case (2 h e)
  with tracks_register_live [OF books_okD(1) [OF b] 2(3), of "\<lambda>_. False"] that(1) show ?thesis
    by (simp add: fuzz_register_def)
next
  case 1
  note t = books_okD(1) [OF b]
  obtain e where e: "next_epoch (epochs_of s key) = Some e" "(key, e) \<notin> known v" "unat e \<le> Suc n"
    "\<And>e'. e' \<le> e \<longleftrightarrow> e' = e \<or> (key, e') \<in> known v"
  proof (cases "epochs_of s key")
    case None
    then show ?thesis by (intro that [of 0]) (simp_all add: books_okD(2) [OF b] registered_pairs_def)
  next
    case (Some l)
    have l: "unat l \<le> n" by (rule books_okD(4) [OF b Some])
    then have i: "checked_inc l = Some (l + 1)" using n by (intro checked_inc_small) simp
    note u = checked_inc_Some [OF i]
    have "e' \<le> l + 1 \<longleftrightarrow> e' = l + 1 \<or> e' \<le> l" for e'
      using u by (auto simp: word_le_nat_alt word_unat_eq_iff le_Suc_eq)
    moreover have "\<not> l + 1 \<le> l" using u by (simp add: word_le_nat_alt)
    ultimately show ?thesis using Some i l u
      by (intro that [of "l + 1"]) (simp_all add: books_okD(2) [OF b] registered_pairs_def)
  qed
  obtain a' where a': "spec_exec (\<lambda>_. False) (MakeSubject key) a = Some (Ret (NewHandle (names a)), a')"
    "tracks (begun (key, e) (generations a) v) ((live_of s)(key \<mapsto> (names a, e))) (observations_of s) [] (Suc n) a'"
    "same_history a a'"
    using tracks_register [OF t 1(2) e(2) n, of "\<lambda>_. False"] unfolding begun_def by blast
  let ?s = "s\<lparr>epochs_of := (epochs_of s)(key \<mapsto> e), subjects_of := (subjects_of s)(key \<mapsto> names a)\<rparr>"
  have live: "live_of ?s = (live_of s)(key \<mapsto> (names a, e))"
    by (rule ext) (simp add: live_of_def split: option.split)
  have kn: "insert (key, e) (known v) = registered_pairs ?s"
  proof (intro set_eqI)
    fix p :: "u8 \<times> u64" obtain k e' where p: "p = (k, e')" by (cases p)
    show "p \<in> insert (key, e) (known v) \<longleftrightarrow> p \<in> registered_pairs ?s"
      using e(4) [of e'] books_okD(2) [OF b] by (cases "k = key") (simp_all add: p registered_pairs_def)
  qed
  have "books_ok (begun (key, e) (generations a) v) (Suc n) ?s a'"
    unfolding books_ok_def
    using a'(2) live kn e(3) books_okD(3,4) [OF b] by (auto intro: le_SucI)
  moreover have "on_contract (fuzz_register f key s) a = Some (f ?s, a')"
    using a'(1) e(1) 1(1) by (simp add: fuzz_register_def insert_subject_def interp_chain)
  ultimately show ?thesis by (intro that(2) [OF 1(1) e(2) e(1) _ _ a'(3)])
qed

lemma fuzz_observe_ok:
  assumes b: "books_ok v n s a"
  obtains s' a' where "on_contract (fuzz_observe key s) a = Some (s', a')"
    and "s' = s \<or> (\<exists>e h. s' = s\<lparr>observations_of := observations_of s @ [(key, e, h)]\<rparr>)"
    and "books_ok v n s' a'" and "same_history a a'"
proof (cases rule: live_of_cases [OF b, of key])
  case 1
  with tracks_observe_none [OF books_okD(1) [OF b] 1(2), of "\<lambda>_. False"] b that [of s a] show ?thesis
    by (simp add: fuzz_observe_def same_history_def)
next
  case (2 h e)
  let ?s = "s\<lparr>observations_of := observations_of s @ [(key, e, names a)]\<rparr>"
  obtain a' where a': "spec_exec (\<lambda>_. False) (Observe key) a = Some (Ret (NewHandle (names a)), a')"
    "tracks v (live_of s) (observations_of s @ [(key, e, names a)]) [] n a'" "same_history a a'"
    using tracks_observe [OF books_okD(1) [OF b] 2(3), of "\<lambda>_. False"] by blast
  have "live_of ?s = live_of s" "registered_pairs ?s = registered_pairs s"
    by (simp_all add: live_of_def fun_eq_iff registered_pairs_def)
  with a'(2) b have "books_ok v n ?s a'" by (simp add: books_ok_def)
  moreover have "on_contract (fuzz_observe key s) a = Some (?s, a')"
    using a'(1) 2(2) by (simp add: fuzz_observe_def)
  ultimately show ?thesis using a'(3) by (intro that [of ?s a']) blast+
qed

lemma books_retired:
  assumes b: "books_ok v n s a" and live: "live_of s key = Some (h, e)"
  obtains a' where "spec_exec (\<lambda>_. False) (DropSubject h) a = Some (Ret Done, a')"
    and "books_ok v n (s\<lparr>subjects_of := (subjects_of s)(key := None)\<rparr>) a'" and "same_history a a'"
proof -
  let ?s = "s\<lparr>subjects_of := (subjects_of s)(key := None)\<rparr>"
  obtain a' where a': "spec_exec (\<lambda>_. False) (DropSubject h) a = Some (Ret Done, a')"
    "tracks v ((live_of s)(key := None)) (observations_of s) [] n a'" "same_history a a'"
    using tracks_retire [OF books_okD(1) [OF b] live, of "\<lambda>_. False"] by blast
  have "live_of ?s = (live_of s)(key := None)" "registered_pairs ?s = registered_pairs s"
    by (auto simp add: live_of_def fun_eq_iff registered_pairs_def)
  with a'(2) b have "books_ok v n ?s a'" by (auto simp: books_ok_def)
  with a' that show ?thesis by blast
qed

lemma fuzz_retire_ok:
  assumes b: "books_ok v n s a"
  obtains a' where "on_contract (fuzz_retire key s) a = Some (s\<lparr>subjects_of := (subjects_of s)(key := None)\<rparr>, a')"
    and "books_ok v n (s\<lparr>subjects_of := (subjects_of s)(key := None)\<rparr>) a'" and "same_history a a'"
proof (cases rule: live_of_cases [OF b, of key])
  case 1
  then have "(subjects_of s)(key := None) = subjects_of s" by auto
  then have "s\<lparr>subjects_of := (subjects_of s)(key := None)\<rparr> = s" by simp
  with 1 b that [of a] show ?thesis by (simp add: fuzz_retire_def same_history_def)
next
  case (2 h e)
  obtain a' where "spec_exec (\<lambda>_. False) (DropSubject h) a = Some (Ret Done, a')"
    "books_ok v n (s\<lparr>subjects_of := (subjects_of s)(key := None)\<rparr>) a'" "same_history a a'"
    by (rule books_retired [OF b 2(3)])
  with 2 show ?thesis by (intro that [of a']) (simp_all add: fuzz_retire_def)
qed

lemma books_popped:
  assumes "books_ok v n s a" and "tracks v (live_of s) rest [] n a'"
  shows "books_ok v n (s\<lparr>observations_of := rest\<rparr>) a'"
proof -
  have "live_of (s\<lparr>observations_of := rest\<rparr>) = live_of s" "registered_pairs (s\<lparr>observations_of := rest\<rparr>) = registered_pairs s"
    by (simp_all add: live_of_def fun_eq_iff registered_pairs_def)
  with assms show ?thesis by (simp add: books_ok_def)
qed

lemma fuzz_drop_ok:
  assumes b: "books_ok v n s a"
  obtains rest a' where "on_contract (fuzz_drop s) a = Some (s\<lparr>observations_of := rest\<rparr>, a')"
    and "books_ok v n (s\<lparr>observations_of := rest\<rparr>) a'" and "same_history a a'"
proof (cases "observations_of s" rule: rev_cases)
  case Nil
  then have "s\<lparr>observations_of := []\<rparr> = s" by simp
  with Nil b that [of "[]" a] show ?thesis by (simp add: fuzz_drop_def pop_def same_history_def)
next
  case (snoc rest x)
  obtain k e h where x: "x = (k, e, h)" by (cases x)
  have "tracks v (live_of s) (rest @ (k, e, h) # []) [] n a" using books_okD(1) [OF b] snoc x by simp
  then obtain a' where "spec_exec (\<lambda>_. False) (DropObservation h) a = Some (Ret Done, a')"
    "tracks v (live_of s) (rest @ []) [] n a'" "same_history a a'"
    by (rule tracks_drop_observation)
  with books_popped [OF b, of rest a'] snoc x show ?thesis
    by (intro that [of rest a']) (simp_all add: fuzz_drop_def pop_def)
qed

text \<open>The last observation: its value, and what moves it out.\<close>

lemma books_try_get:
  assumes "books_ok v n s a" and "observations_of s = rest @ [(k, e, h)]"
  shows "spec_exec (\<lambda>_. False) (TryGet h) a = Some (Ret (Value (result v (k, e))), a)"
  by (rule tracks_try_get [OF books_okD(1) [OF assms(1)]]) (simp add: assms(2))

lemma books_known:
  assumes "books_ok v n s a" and "(k, e, h) \<in> set (observations_of s)"
  shows "(k, e) \<in> known v" and "\<exists>l. epochs_of s k = Some l"
proof -
  show "(k, e) \<in> known v" by (rule known_okD(3) [OF tracksD(5) [OF books_okD(1) [OF assms(1)]] assms(2)])
  then show "\<exists>l. epochs_of s k = Some l" using books_okD(2) [OF assms(1)] by (auto simp: registered_pairs_def)
qed

lemma books_into_outcome:
  assumes b: "books_ok v n s a" and obs: "observations_of s = rest @ [(k, e, h)]"
  obtains gone a' where "subject_gone k e (s\<lparr>observations_of := rest\<rparr>) = Some gone"
    and "spec_exec (\<lambda>_. False) (IntoOutcome h) a =
      Some (Ret (Value (if gone \<and> refs k e rest = 0 then result v (k, e) else None)), a')"
    and "books_ok v n (s\<lparr>observations_of := rest\<rparr>) a'" and "published a' = published a" and "events a' = events a"
    and "taken a' = taken a @ (if gone \<and> refs k e rest = 0 then case result v (k, e) of None \<Rightarrow> [] | Some x \<Rightarrow> [x] else [])"
    and "gone \<longleftrightarrow> (\<nexists>h. live_of s k = Some (h, e))"
proof -
  obtain l where l: "epochs_of s k = Some l" using books_known(2) [OF b, of k e h] obs by auto
  let ?gone = "subjects_of s k = None \<or> l \<noteq> e"
  have gone: "subject_gone k e (s\<lparr>observations_of := rest\<rparr>) = Some ?gone"
    using l by (cases "subjects_of s k") (simp_all add: subject_gone_def)
  have live: "?gone \<longleftrightarrow> (\<nexists>h. live_of s k = Some (h, e))"
    using l by (auto simp: live_of_Some)
  have "last_reader (live_of s) rest [] k e \<longleftrightarrow> ?gone \<and> refs k e rest = 0"
    using live by (simp add: last_reader_def refs_def)
  moreover obtain a' where a': "spec_exec (\<lambda>_. False) (IntoOutcome h) a =
        Some (Ret (Value (if last_reader (live_of s) rest [] k e then result v (k, e) else None)), a')"
    "tracks v (live_of s) rest [] n a'" "published a' = published a" "events a' = events a"
    "taken a' = taken a @ (if last_reader (live_of s) rest [] k e then case result v (k, e) of None \<Rightarrow> [] | Some x \<Rightarrow> [x] else [])"
    by (rule tracks_into_outcome [OF books_okD(1) [OF b, unfolded obs], of "\<lambda>_. False"])
  ultimately show ?thesis using books_popped [OF b a'(2)] by (intro that [OF gone _ _ _ _ _ live]) simp_all
qed

subsection \<open>The end of a target\<close>

lemma drop_observations:
  assumes "tracks v live obs [] n a"
  shows "\<exists>a'. on_contract (each (\<lambda>(k, e, h) x. ask (DropObservation h) (\<lambda>_. Finish x)) obs x) a = Some (x, a')
     \<and> tracks v live [] [] n a' \<and> same_history a a'"
  using assms
proof (induction obs arbitrary: a)
  case Nil
  then show ?case by (simp add: same_history_def)
next
  case (Cons o' obs)
  obtain k e h where o': "o' = (k, e, h)" by (cases o')
  have "tracks v live ([] @ (k, e, h) # obs) [] n a" using Cons.prems o' by simp
  then obtain a1 where a1: "spec_exec (\<lambda>_. False) (DropObservation h) a = Some (Ret Done, a1)"
    "tracks v live ([] @ obs) [] n a1" "same_history a a1"
    by (rule tracks_drop_observation)
  from Cons.IH [of a1] a1(2) obtain a' where
    "on_contract (each (\<lambda>(k, e, h) x. ask (DropObservation h) (\<lambda>_. Finish x)) obs x) a1 = Some (x, a')"
    "tracks v live [] [] n a'" "same_history a1 a'" by auto
  with a1 o' show ?case by (simp add: interp_chain same_history_def)
qed

lemma drop_subjects:
  assumes "tracks v live [] [] n a" and "\<And>k. m k = map_option fst (live k)" and "distinct ks"
  shows "\<exists>a'. on_contract (each (\<lambda>k x. case m k of
          None \<Rightarrow> Finish x
        | Some h \<Rightarrow> ask (DropSubject h) (\<lambda>_. Finish x)) ks x) a = Some (x, a')
     \<and> tracks v (\<lambda>k. if k \<in> set ks then None else live k) [] [] n a' \<and> same_history a a'"
  using assms
proof (induction ks arbitrary: a live m)
  case Nil
  then show ?case by (simp add: same_history_def)
next
  case (Cons k ks)
  let ?arm = "\<lambda>k x. case m k of None \<Rightarrow> Finish x | Some h \<Rightarrow> ask (DropSubject h) (\<lambda>_. Finish x)"
  have "\<exists>a1. on_contract (?arm k x) a = Some (x, a1) \<and> tracks v (live(k := None)) [] [] n a1 \<and> same_history a a1"
  proof (cases "live k")
    case None
    moreover from None have "live(k := None) = live" by auto
    ultimately show ?thesis using Cons.prems(1,2) by (simp add: same_history_def)
  next
    case (Some y)
    obtain h e where "y = (h, e)" by (cases y)
    with Some have l: "live k = Some (h, e)" by simp
    from tracks_retire [OF Cons.prems(1) l, of "\<lambda>_. False"] obtain a1 where
      "spec_exec (\<lambda>_. False) (DropSubject h) a = Some (Ret Done, a1)"
      "tracks v (live(k := None)) [] [] n a1" "same_history a a1" by blast
    with Cons.prems(2) [of k] l show ?thesis by simp
  qed
  then obtain a1 where a1: "on_contract (?arm k x) a = Some (x, a1)" "tracks v (live(k := None)) [] [] n a1"
    "same_history a a1" by blast
  define m' where "m' = m(k := None)"
  have "on_contract (each ?arm ks x) a1 =
      on_contract (each (\<lambda>k x. case m' k of None \<Rightarrow> Finish x | Some h \<Rightarrow> ask (DropSubject h) (\<lambda>_. Finish x)) ks x) a1"
    using Cons.prems(3) by (intro arg_cong2 [of _ _ _ _ on_contract] each_cong) (auto simp: m'_def)
  moreover have m': "m' k' = map_option fst ((live(k := None)) k')" for k' using Cons.prems(2) by (simp add: m'_def)
  have "distinct ks" using Cons.prems(3) by simp
  from Cons.IH [OF a1(2) m' this] obtain a' where
    "on_contract (each (\<lambda>k x. case m' k of None \<Rightarrow> Finish x | Some h \<Rightarrow> ask (DropSubject h) (\<lambda>_. Finish x)) ks x) a1 = Some (x, a')"
    "tracks v (\<lambda>k'. if k' \<in> set ks then None else (live(k := None)) k') [] [] n a'" "same_history a1 a'"
    by blast
  moreover have "(\<lambda>k'. if k' \<in> set ks then None else (live(k := None)) k') = (\<lambda>k'. if k' \<in> set (k # ks) then None else live k')"
    by auto
  ultimately show ?case using a1(1,3) by (simp add: interp_chain same_history_def)
qed

definition nothing_owned :: "('k, 'o) spec \<Rightarrow> bool" where
  "nothing_owned a \<longleftrightarrow> spec_spaces a = [] \<and> spec_subjects a = [] \<and> spec_publishers a = [] \<and> spec_observations a = []
     \<and> spec_futures a = []"

lemma drop_space:
  assumes t: "tracks v Map.empty [] [] n a"
  shows "\<exists>a'. on_contract (ask (DropSpace 0) (\<lambda>_. Finish x)) a = Some (x, a') \<and> nothing_owned a' \<and> same_history a a'"
proof -
  have "spec_subjects a = []"
    using owners_okD(3) [OF tracksD(4) [OF t]] by (cases "spec_subjects a") auto
  then show ?thesis using tracksD(1,2) [OF t] owners_okD(1,2) [OF tracksD(4) [OF t]]
    by (simp add: nothing_owned_def same_history_def)
qed

lemma teardown_ok:
  assumes b: "books_ok v n s a" and o: "visits_each_once order"
  obtains a' where "on_contract (teardown order s) a = Some (s, a')" and "nothing_owned a'" and "same_history a a'"
proof -
  from drop_observations [OF books_okD(1) [OF b], of s] obtain a1 where a1:
    "on_contract (each (\<lambda>(k, e, h) x. ask (DropObservation h) (\<lambda>_. Finish x)) (observations_of s) s) a = Some (s, a1)"
    "tracks v (live_of s) [] [] n a1" "same_history a a1" by blast
  have m: "subjects_of s k = map_option fst (live_of s k)" for k
    by (cases rule: live_of_cases [OF b, of k]) simp_all
  from o have d: "distinct (order (subjects_of s))" "set (order (subjects_of s)) = dom (subjects_of s)"
    by (simp_all add: visits_each_once_def)
  from drop_subjects [OF a1(2) m d(1), of s] obtain a2 where a2:
    "on_contract (each (\<lambda>k x. case subjects_of s k of
          None \<Rightarrow> Finish x
        | Some h \<Rightarrow> ask (DropSubject h) (\<lambda>_. Finish x)) (order (subjects_of s)) s) a1 = Some (s, a2)"
    "tracks v (\<lambda>k. if k \<in> set (order (subjects_of s)) then None else live_of s k) [] [] n a2" "same_history a1 a2"
    by blast
  have "(\<lambda>k. if k \<in> set (order (subjects_of s)) then None else live_of s k) = Map.empty"
    using d(2) m by (auto simp: fun_eq_iff live_of_def split: option.splits)
  with a2(2) drop_space [of v n a2 s] obtain a3 where
    "on_contract (ask (DropSpace 0) (\<lambda>_. Finish s)) a2 = Some (s, a3)" "nothing_owned a3" "same_history a2 a3" by auto
  with a1 a2 show ?thesis by (intro that [of a3]) (simp_all add: teardown_def interp_chain same_history_def)
qed

text \<open>
  When a program that ran on the contract owns nothing at the end, it runs on the crate as well, and
  there everything has been freed and every outcome was destroyed or moved out.
\<close>

definition all_freed :: "('k, 'o) world \<Rightarrow> bool" where
  "all_freed w \<longleftrightarrow> all_handles w = [] \<and> inner w = None \<and> (\<forall>s. heap w s = None)"

lemma crate_freed:
  assumes "on_contract m spec_new = Some (x, a)" and none: "nothing_owned a"
  obtains w where "on_crate m space_new = Some (x, w)" and "all_freed w" and "created w = published a"
    and "moved w = taken a" and "mset (created w) = mset (dropped w) + mset (moved w)"
proof -
  obtain f w where w: "on_crate m space_new = Some (x, w)" "refines f a w" "reach handle_count w"
    by (rule crate_if_contract [OF assms(1)])
  note same = same_programD [OF refinesD(2) [OF w(2)]]
  have "map fst (over subject_view (subjects w)) = []" "map fst (publishers w) = []" "map fst (observations w) = []"
    "map fst (futures w) = []"
    using none by (simp_all add: same nothing_owned_def)
  then have h: "all_handles w = []" using none by (simp add: all_handles_def same(1,3,4) nothing_owned_def over_def)
  with nothing_leaks_lemma [OF handle_count_exact w(3) h] w(1) same(9,10) that show ?thesis by (simp add: all_freed_def)
qed

end
