(* ===== verification/Fuzz_Ops.thy ===== *)
theory Fuzz_Ops
  imports Fuzz
begin

section \<open>The fuzz target \<open>ops\<close>\<close>

text \<open>
  \<open>fuzz_targets/ops.rs\<close>: eight operations on four keys with \<open>u64\<close> outcomes.  \<open>completed\<close> holds the
  value of the live generation of a key, \<open>retired\<close> what each retired epoch had.  The waker that
  operation 6 allocates has an arbitrary address.
\<close>

record ops_state = target_state +
  completed_of :: "u8 \<rightharpoonup> u64"
  retired_of :: "u8 \<times> u64 \<rightharpoonup> u64 option"

definition ops_new :: ops_state where
  "ops_new = \<lparr>subjects_of = Map.empty, epochs_of = Map.empty, observations_of = [], completed_of = Map.empty,
     retired_of = Map.empty\<rparr>"

definition OPS_KEYS :: u8 where "OPS_KEYS = 4"

definition ops_register :: "u8 \<Rightarrow> ops_state \<Rightarrow> (u64, ops_state) target" where
  "ops_register key = fuzz_register (\<lambda>s. s\<lparr>completed_of := (completed_of s)(key := None)\<rparr>) key"

definition ops_complete :: "u8 \<Rightarrow> ops_state \<Rightarrow> (u64, ops_state) target" where
  "ops_complete key s = (case subjects_of s key of
       None \<Rightarrow> Finish s
     | Some h \<Rightarrow>
         if completed_of s key \<noteq> None then Finish s
         else (case epochs_of s key of
             None \<Rightarrow> Fails
           | Some epoch \<Rightarrow> (let value = encode epoch key in
               ask (Complete h value) (\<lambda>_. Finish (s\<lparr>completed_of := (completed_of s)(key \<mapsto> value)\<rparr>)))))"

definition ops_outcome :: "u8 \<Rightarrow> u64 \<Rightarrow> bool \<Rightarrow> ops_state \<Rightarrow> u64 option" where
  "ops_outcome k e gone s = (if gone then Option.bind (retired_of s (k, e)) id else completed_of s k)"

definition ops_try_get :: "ops_state \<Rightarrow> (u64, ops_state) target" where
  "ops_try_get s = (if observations_of s = [] then Finish s
     else case last (observations_of s) of (k, e, h) \<Rightarrow> (case subject_gone k e s of
         None \<Rightarrow> Fails
       | Some gone \<Rightarrow> ask (TryGet h) (\<lambda>r. if r = Value (ops_outcome k e gone s) then Finish s else Fails)))"

definition ops_retire :: "u8 \<Rightarrow> ops_state \<Rightarrow> (u64, ops_state) target" where
  "ops_retire key s = (case subjects_of s key of
       None \<Rightarrow> Finish s
     | Some h \<Rightarrow> (case epochs_of s key of
           None \<Rightarrow> Fails
         | Some epoch \<Rightarrow> ask (DropSubject h) (\<lambda>_. Finish (s\<lparr>subjects_of := (subjects_of s)(key := None),
             retired_of := (retired_of s)((key, epoch) \<mapsto> completed_of s key)\<rparr>))))"

definition ops_into_outcome :: "ops_state \<Rightarrow> (u64, ops_state) target" where
  "ops_into_outcome s = (case pop (observations_of s) of
       (None, _) \<Rightarrow> Finish s
     | (Some (k, e, h), rest) \<Rightarrow> (let s = s\<lparr>observations_of := rest\<rparr> in case subject_gone k e s of
           None \<Rightarrow> Fails
         | Some gone \<Rightarrow> (let done = ops_outcome k e gone s in ask (IntoOutcome h) (\<lambda>r.
             if gone \<and> done \<noteq> None \<and> refs k e rest = 0
             then if r = Value done then Finish s else Fails
             else if r = Value None then Finish s else Fails))))"

definition ops_register_waker :: "(ops_state \<Rightarrow> waker) \<Rightarrow> ops_state \<Rightarrow> (u64, ops_state) target" where
  "ops_register_waker alloc s = (if observations_of s = [] then Finish s
     else case last (observations_of s) of (_, _, h) \<Rightarrow> ask (RegisterWaker h (alloc s)) (\<lambda>_. Finish s))"

definition ops_step :: "(ops_state \<Rightarrow> waker) \<Rightarrow> u8 \<times> u8 \<Rightarrow> ops_state \<Rightarrow> (u64, ops_state) target" where
  "ops_step alloc pair s = (let op = fst pair mod 8; key = snd pair mod OPS_KEYS in
     if op = 0 then ops_register key s
     else if op = 1 then ops_complete key s
     else if op = 2 then fuzz_observe key s
     else if op = 3 then ops_try_get s
     else if op = 4 then ops_retire key s
     else if op = 5 then ops_into_outcome s
     else if op = 6 then ops_register_waker alloc s
     else fuzz_drop s)"

definition ops_target :: "(ops_state \<Rightarrow> waker) \<Rightarrow> ((u8 \<rightharpoonup> handle) \<Rightarrow> u8 list) \<Rightarrow> u8 list \<Rightarrow> (u64, ops_state) target" where
  "ops_target alloc order data = chain (each (ops_step alloc) (take 256 (pairs data)) ops_new) (teardown order)"

subsection \<open>No input is a crash\<close>

definition ops_results :: "(u8, u64) tracked \<Rightarrow> ops_state \<Rightarrow> bool" where
  "ops_results v s \<longleftrightarrow> (\<forall>k e. (k, e) \<in> known v \<longrightarrow> result v (k, e) = ops_outcome k e (\<nexists>h. live_of s k = Some (h, e)) s)"

definition ops_inv :: "nat \<Rightarrow> ops_state \<Rightarrow> (u8, u64) spec \<Rightarrow> bool" where
  "ops_inv n s a \<longleftrightarrow> (\<exists>v. books_ok v n s a \<and> ops_results v s)"

lemma ops_resultsD: "ops_results v s \<Longrightarrow> (k, e) \<in> known v \<Longrightarrow> result v (k, e) = ops_outcome k e (\<nexists>h. live_of s k = Some (h, e)) s"
  by (simp add: ops_results_def)

lemma ops_invI: "on_contract m a = Some (s', a') \<Longrightarrow> books_ok v n s' a' \<Longrightarrow> ops_results v s' \<Longrightarrow>
    \<exists>s' a'. on_contract m a = Some (s', a') \<and> ops_inv (Suc n) s' a'"
  using books_later [of v n s' a' "Suc n"] unfolding ops_inv_def by auto

lemma ops_results_same:
  "ops_results v s \<Longrightarrow> live_of s' = live_of s \<Longrightarrow> completed_of s' = completed_of s \<Longrightarrow> retired_of s' = retired_of s \<Longrightarrow>
    ops_results v s'"
  by (simp add: ops_results_def ops_outcome_def)

lemma live_of_popped [simp]: "live_of (s\<lparr>observations_of := os\<rparr>) = live_of s"
  by (simp add: live_of_def fun_eq_iff)

lemma ops_register_ok:
  assumes b: "books_ok v n s a" and r: "ops_results v s" and n: "n + 2 < 2 ^ 64"
  shows "\<exists>s' a'. on_contract (ops_register key s) a = Some (s', a') \<and> ops_inv (Suc n) s' a'"
proof -
  let ?f = "\<lambda>s. s\<lparr>completed_of := (completed_of s)(key := None)\<rparr>"
  show ?thesis
  proof (rule fuzz_register_ok [OF b n, of key ?f])
    assume "on_contract (fuzz_register ?f key s) a = Some (s, a)"
    with ops_invI [OF _ b r] show ?thesis unfolding ops_register_def by blast
  next
    fix e h a'
    let ?s = "s\<lparr>epochs_of := (epochs_of s)(key \<mapsto> e), subjects_of := (subjects_of s)(key \<mapsto> h)\<rparr>"
    assume none: "subjects_of s key = None" and new: "(key, e) \<notin> known v"
      and c: "on_contract (fuzz_register ?f key s) a = Some (?f ?s, a')"
      and b': "books_ok (begun (key, e) (generations a) v) (Suc n) ?s a'"
    have "ops_results (begun (key, e) (generations a) v) (?f ?s)"
      unfolding ops_results_def
    proof (intro allI impI)
      fix k e' assume ke: "(k, e') \<in> known (begun (key, e) (generations a) v)"
      show "result (begun (key, e) (generations a) v) (k, e')
          = ops_outcome k e' (\<nexists>h. live_of (?f ?s) k = Some (h, e')) (?f ?s)"
      proof (cases "(k, e') = (key, e)")
        case True
        then show ?thesis by (simp add: ops_outcome_def live_of_Some)
      next
        case False
        with ke have "(k, e') \<in> known v" by auto
        with ops_resultsD [OF r this] False none show ?thesis
          by (cases "k = key") (auto simp: ops_outcome_def live_of_Some)
      qed
    qed
    moreover have "books_ok (begun (key, e) (generations a) v) (Suc n) (?f ?s) a'"
      by (rule books_same [OF b']) simp_all
    ultimately show ?thesis using c unfolding ops_register_def ops_inv_def by blast
  qed
qed

lemma ops_complete_ok:
  assumes b: "books_ok v n s a" and r: "ops_results v s"
  shows "\<exists>s' a'. on_contract (ops_complete key s) a = Some (s', a') \<and> ops_inv (Suc n) s' a'"
proof (cases rule: live_of_cases [OF b, of key])
  case 1
  then show ?thesis by (intro ops_invI [OF _ b r]) (simp add: ops_complete_def)
next
  case (2 h e)
  show ?thesis
  proof (cases "completed_of s key")
    case (Some x)
    with 2 show ?thesis by (intro ops_invI [OF _ b r]) (simp add: ops_complete_def)
  next
    case None
    let ?s = "s\<lparr>completed_of := (completed_of s)(key \<mapsto> encode e key)\<rparr>"
    have ke: "(key, e) \<in> known v" by (rule known_okD(2) [OF tracksD(5) [OF books_okD(1) [OF b]] 2(3)])
    have "result v (key, e) = None" using ops_resultsD [OF r ke] 2(3) None by (simp add: ops_outcome_def)
    from tracks_complete [OF books_okD(1) [OF b] 2(3) this] obtain a' where
      a': "spec_exec (\<lambda>_. False) (Complete h (encode e key)) a = Some (Ret Done, a')"
      "tracks (v\<lparr>result := (result v)((key, e) \<mapsto> encode e key), queue := (queue v)((key, e) := [])\<rparr>)
        (live_of s) (observations_of s) [] n a'" by blast
    let ?v = "v\<lparr>result := (result v)((key, e) \<mapsto> encode e key), queue := (queue v)((key, e) := [])\<rparr>"
    have "books_ok ?v n s a'" using a'(2) b by (simp add: books_ok_def)
    then have "books_ok ?v n ?s a'" by (rule books_same) simp_all
    moreover have "ops_results ?v ?s"
      unfolding ops_results_def
    proof (intro allI impI)
      fix k e' assume "(k, e') \<in> known ?v"
      then show "result ?v (k, e') = ops_outcome k e' (\<nexists>h. live_of ?s k = Some (h, e')) ?s"
        using ops_resultsD [OF r, of k e'] 2 by (auto simp: ops_outcome_def live_of_Some)
    qed
    moreover have "on_contract (ops_complete key s) a = Some (?s, a')"
      using 2 None a'(1) by (simp add: ops_complete_def Let_def)
    ultimately show ?thesis by (intro ops_invI)
  qed
qed

lemma ops_try_get_ok:
  assumes b: "books_ok v n s a" and r: "ops_results v s"
  shows "\<exists>s' a'. on_contract (ops_try_get s) a = Some (s', a') \<and> ops_inv (Suc n) s' a'"
proof (cases "observations_of s" rule: rev_cases)
  case Nil
  then show ?thesis by (intro ops_invI [OF _ b r]) (simp add: ops_try_get_def)
next
  case (snoc rest x)
  obtain k e h where x: "x = (k, e, h)" by (cases x)
  have mem: "(k, e, h) \<in> set (observations_of s)" using snoc x by simp
  obtain l where l: "epochs_of s k = Some l" using books_known(2) [OF b mem] by blast
  have gone: "subject_gone k e s = Some (\<nexists>h. live_of s k = Some (h, e))"
    using l by (auto simp: subject_gone_def live_of_def split: option.split)
  have "result v (k, e) = ops_outcome k e (\<nexists>h. live_of s k = Some (h, e)) s"
    by (rule ops_resultsD [OF r books_known(1) [OF b mem]])
  with books_try_get [OF b snoc [unfolded x]] gone snoc x show ?thesis
    by (intro ops_invI [OF _ b r]) (simp add: ops_try_get_def)
qed

lemma ops_retire_ok:
  assumes b: "books_ok v n s a" and r: "ops_results v s"
  shows "\<exists>s' a'. on_contract (ops_retire key s) a = Some (s', a') \<and> ops_inv (Suc n) s' a'"
proof (cases rule: live_of_cases [OF b, of key])
  case 1
  then show ?thesis by (intro ops_invI [OF _ b r]) (simp add: ops_retire_def)
next
  case (2 h e)
  let ?s = "s\<lparr>subjects_of := (subjects_of s)(key := None), retired_of := (retired_of s)((key, e) \<mapsto> completed_of s key)\<rparr>"
  obtain a' where a': "spec_exec (\<lambda>_. False) (DropSubject h) a = Some (Ret Done, a')"
    "books_ok v n (s\<lparr>subjects_of := (subjects_of s)(key := None)\<rparr>) a'"
    by (rule books_retired [OF b 2(3)])
  have b': "books_ok v n ?s a'" by (rule books_same [OF a'(2)]) simp_all
  have "ops_results v ?s"
    unfolding ops_results_def
  proof (intro allI impI)
    fix k e' assume "(k, e') \<in> known v"
    then show "result v (k, e') = ops_outcome k e' (\<nexists>h. live_of ?s k = Some (h, e')) ?s"
      using ops_resultsD [OF r, of k e'] 2 by (cases "k = key") (auto simp: ops_outcome_def live_of_Some)
  qed
  with b' a'(1) 2 show ?thesis by (intro ops_invI) (auto simp: ops_retire_def)
qed

lemma ops_into_outcome_ok:
  assumes b: "books_ok v n s a" and r: "ops_results v s"
  shows "\<exists>s' a'. on_contract (ops_into_outcome s) a = Some (s', a') \<and> ops_inv (Suc n) s' a'"
proof (cases "observations_of s" rule: rev_cases)
  case Nil
  then show ?thesis by (intro ops_invI [OF _ b r]) (simp add: ops_into_outcome_def pop_def)
next
  case (snoc rest x)
  obtain k e h where x: "x = (k, e, h)" by (cases x)
  have mem: "(k, e, h) \<in> set (observations_of s)" using snoc x by simp
  let ?s = "s\<lparr>observations_of := rest\<rparr>"
  obtain gone a' where g: "subject_gone k e ?s = Some gone"
    "spec_exec (\<lambda>_. False) (IntoOutcome h) a =
      Some (Ret (Value (if gone \<and> refs k e rest = 0 then result v (k, e) else None)), a')"
    "books_ok v n ?s a'" "gone \<longleftrightarrow> (\<nexists>h. live_of s k = Some (h, e))"
    by (rule books_into_outcome [OF b snoc [unfolded x]])
  have "result v (k, e) = ops_outcome k e gone s"
    using ops_resultsD [OF r books_known(1) [OF b mem]] g(4) by simp
  then have "result v (k, e) = ops_outcome k e gone ?s" by (simp add: ops_outcome_def)
  with g(1,2) snoc x have "on_contract (ops_into_outcome s) a = Some (?s, a')"
    by (auto simp: ops_into_outcome_def pop_def Let_def)
  moreover have "ops_results v ?s" by (rule ops_results_same [OF r]) simp_all
  ultimately show ?thesis using g(3) by (intro ops_invI)
qed

lemma ops_register_waker_ok:
  assumes b: "books_ok v n s a" and r: "ops_results v s"
  shows "\<exists>s' a'. on_contract (ops_register_waker alloc s) a = Some (s', a') \<and> ops_inv (Suc n) s' a'"
proof (cases "observations_of s" rule: rev_cases)
  case Nil
  then show ?thesis by (intro ops_invI [OF _ b r]) (simp add: ops_register_waker_def)
next
  case (snoc rest x)
  obtain k e h where x: "x = (k, e, h)" by (cases x)
  have mem: "(k, e, h) \<in> set (observations_of s)" using snoc x by simp
  let ?v = "if result v (k, e) \<noteq> None then v
    else v\<lparr>queue := (queue v)((k, e) := direct_registered (alloc s) (queue v (k, e)))\<rparr>"
  obtain a' where a': "spec_exec (\<lambda>_. False) (RegisterWaker h (alloc s)) a = Some (Ret (Flag (result v (k, e) \<noteq> None)), a')"
    "tracks ?v (live_of s) (observations_of s) [] n a'"
    by (rule tracks_register_waker [OF books_okD(1) [OF b] mem])
  have "books_ok ?v n s a'" using a'(2) b by (simp add: books_ok_def)
  moreover have "ops_results ?v s" using r by (simp add: ops_results_def)
  moreover have "on_contract (ops_register_waker alloc s) a = Some (s, a')"
    using a'(1) snoc x by (simp add: ops_register_waker_def)
  ultimately show ?thesis by (intro ops_invI)
qed

lemma ops_step_ok:
  assumes "ops_inv n s a" and n: "n + 2 < 2 ^ 64"
  shows "\<exists>s' a'. on_contract (ops_step alloc pair s) a = Some (s', a') \<and> ops_inv (Suc n) s' a'"
proof -
  obtain v where b: "books_ok v n s a" and r: "ops_results v s" using assms(1) unfolding ops_inv_def by blast
  have observe: "\<exists>s' a'. on_contract (fuzz_observe key s) a = Some (s', a') \<and> ops_inv (Suc n) s' a'" for key
  proof (rule fuzz_observe_ok [OF b, of key])
    fix s' a' assume c: "on_contract (fuzz_observe key s) a = Some (s', a')" "books_ok v n s' a'"
      and s': "s' = s \<or> (\<exists>e h. s' = s\<lparr>observations_of := observations_of s @ [(key, e, h)]\<rparr>)"
    from s' have "ops_results v s'" by (elim disjE exE) (use r ops_results_same [OF r] in simp_all)
    with c show ?thesis by (intro ops_invI)
  qed
  have dropped: "\<exists>s' a'. on_contract (fuzz_drop s) a = Some (s', a') \<and> ops_inv (Suc n) s' a'"
    by (rule fuzz_drop_ok [OF b]) (intro ops_invI, assumption+, rule ops_results_same [OF r], simp_all)
  show ?thesis
    using ops_register_ok [OF b r n] ops_complete_ok [OF b r] observe ops_try_get_ok [OF b r]
      ops_retire_ok [OF b r] ops_into_outcome_ok [OF b r] ops_register_waker_ok [OF b r] dropped
    by (simp add: ops_step_def Let_def)
qed

lemma ops_target_ok:
  assumes o: "visits_each_once order"
  shows "\<exists>s a. on_contract (ops_target alloc order data) spec_new = Some (s, a) \<and> nothing_owned a"
proof -
  have start: "ops_inv 0 ops_new spec_new"
    using nothing_tracked_new
    by (auto simp: ops_inv_def books_ok_def ops_results_def ops_new_def live_of_def [abs_def] registered_pairs_def
        nothing_tracked_def intro!: exI [of _ nothing_tracked])
  have step: "\<exists>s' a'. on_contract (ops_step alloc p s) a = Some (s', a') \<and> ops_inv (Suc n) s' a'"
    if "ops_inv n s a" "n < 256" for n p s a
    by (rule ops_step_ok [OF that(1)]) (use that(2) in simp)
  obtain s a where loop: "on_contract (each (ops_step alloc) (take 256 (pairs data)) ops_new) spec_new = Some (s, a)"
    "ops_inv (0 + length (take 256 (pairs data))) s a"
    using interp_each [where I = ops_inv and N = 256 and step = "ops_step alloc" and bs = "take 256 (pairs data)", OF step start] by auto
  then obtain v where "books_ok v (length (take 256 (pairs data))) s a" unfolding ops_inv_def by auto
  from teardown_ok [OF this o] obtain a' where "on_contract (teardown order s) a = Some (s, a')" "nothing_owned a'" by blast
  with loop(1) show ?thesis by (simp add: ops_target_def interp_chain)
qed

text \<open>
  C31: the fuzz target \<open>ops\<close> has no crash artifact.  For every input, every address of the wakers it
  allocates and every order in which the \<open>HashMap\<close> drops its subjects, no assertion fails, no
  \<open>expect\<close> or index panics, and the crate itself neither panics nor faults; at the end everything is
  freed.
\<close>

theorem ops_target_never_crashes:
  assumes "visits_each_once order"
  shows "\<exists>s w. on_crate (ops_target alloc order data) space_new = Some (s, w) \<and> all_freed w"
proof -
  obtain s a where "on_contract (ops_target alloc order data) spec_new = Some (s, a)" "nothing_owned a"
    using ops_target_ok [OF assms] by blast
  from crate_freed [OF this] show ?thesis by metis
qed

theorem ops_target_never_crashes_witness:
  "\<exists>s w. on_crate (ops_target (\<lambda>_. \<lparr>wdata = 0, wvtable = 0\<rparr>) keys_in_order
      [0, 1, 2, 1, 1, 1, 3, 1, 4, 1, 5, 0]) space_new = Some (s, w) \<and> all_freed w"
  by (rule ops_target_never_crashes [OF every_key_once])

end
