(* ===== verification/Probes.thy ===== *)
theory Probes
  imports Prelude
begin

section \<open>The probes of the tests\<close>

text \<open>
  \<open>observe-tests/src/probe.rs\<close>: outcome values that count their drops (\<open>DropProbe\<close>), and two
  hand-written \<open>RawWaker\<close>s over an \<open>Arc\<close>, one that counts its wakes (\<open>CountWake\<close>) and one that
  unparks a thread (\<open>ThreadWake\<close>).  The vtable functions turn a raw pointer into an \<open>Arc\<close> and
  forget or drop it again, so what matters is the strong count: here it is explicit, an \<open>Arc\<close> is
  an address, and dereferencing a freed one, or one of the other type, gives \<open>None\<close>.
\<close>

subsection \<open>Values that count their drops\<close>

record drop_probe =
  counter :: nat        \<comment> \<open>which shared counter\<close>
  tag :: u64

definition with_counter :: "u64 \<Rightarrow> nat \<Rightarrow> drop_probe" where
  "with_counter t c = \<lparr>counter = c, tag = t\<rparr>"

text \<open>\<open>Clone\<close> shares the counter and copies the tag.\<close>

definition probe_clone :: "drop_probe \<Rightarrow> drop_probe" where
  "probe_clone p = \<lparr>counter = counter p, tag = tag p\<rparr>"

definition probe_drop :: "drop_probe \<Rightarrow> (nat \<Rightarrow> usize) \<Rightarrow> nat \<Rightarrow> usize" where
  "probe_drop p counts = counts(counter p := counts (counter p) + 1)"

text \<open>\<open>DropProbe::new\<close>: the counter is a new allocation \<open>c\<close>; it is returned beside the probe.\<close>

definition drop_probe_new :: "u64 \<Rightarrow> nat \<Rightarrow> (nat \<Rightarrow> usize) \<Rightarrow> (drop_probe \<times> nat) \<times> (nat \<Rightarrow> usize)" where
  "drop_probe_new t c counts = ((\<lparr>counter = c, tag = t\<rparr>, c), counts(c := 0))"

text \<open>Every drop of the probe or of a clone of it is counted once, and no other.\<close>

lemma drops_are_counted:
  "drop_probe_new t c counts = ((p, c'), counts') \<Longrightarrow>
    fold probe_drop qs counts' c' = of_nat (length (filter (\<lambda>q. counter q = counter p) qs))"
proof -
  have "fold probe_drop qs f c = f c + of_nat (length (filter (\<lambda>q. counter q = c) qs))" for f c
    by (induction qs arbitrary: f) (auto simp: probe_drop_def)
  then show "drop_probe_new t c counts = ((p, c'), counts') \<Longrightarrow>
    fold probe_drop qs counts' c' = of_nat (length (filter (\<lambda>q. counter q = counter p) qs))"
    by (auto simp: drop_probe_new_def)
qed

lemma probe_clone_same [simp]: "probe_clone p = p"
  by (simp add: probe_clone_def)

subsection \<open>Raw wakers\<close>

datatype payload = CountWake usize | ThreadWake thread_id

datatype vtable = COUNT_WAKE_VTABLE | THREAD_WAKE_VTABLE

text \<open>A \<open>RawWaker\<close> is a vtable and a data pointer.\<close>

type_synonym raw_waker = "vtable \<times> nat"

datatype probe_type = CountWakeType | ThreadWakeType

fun type_of :: "payload \<Rightarrow> probe_type" where
  "type_of (CountWake n) = CountWakeType"
| "type_of (ThreadWake t) = ThreadWakeType"

record probe_arc =
  strong :: nat
  payload :: payload

record probe_memory =
  arcs :: "nat \<rightharpoonup> probe_arc"
  unparked :: "thread_id set"

text \<open>\<open>Arc::<T>::from_raw\<close>: the pointer must be that of a live \<open>Arc\<close> of the type \<open>T\<close>.\<close>

definition from_raw :: "probe_type \<Rightarrow> nat \<Rightarrow> probe_memory \<Rightarrow> probe_arc option" where
  "from_raw ty p m = (case arcs m p of
     None \<Rightarrow> None
   | Some c \<Rightarrow> if type_of (payload c) = ty then Some c else None)"

definition arc_clone :: "probe_type \<Rightarrow> nat \<Rightarrow> probe_memory \<Rightarrow> probe_memory option" where
  "arc_clone ty p m = (case from_raw ty p m of
     None \<Rightarrow> None
   | Some c \<Rightarrow> Some (m\<lparr>arcs := (arcs m)(p \<mapsto> c\<lparr>strong := strong c + 1\<rparr>)\<rparr>))"

definition arc_drop :: "probe_type \<Rightarrow> nat \<Rightarrow> probe_memory \<Rightarrow> probe_memory option" where
  "arc_drop ty p m = (case from_raw ty p m of
     None \<Rightarrow> None
   | Some c \<Rightarrow> Some (m\<lparr>arcs := (if strong c = 1 then (arcs m)(p := None)
                              else (arcs m)(p \<mapsto> c\<lparr>strong := strong c - 1\<rparr>))\<rparr>))"

text \<open>What \<open>wake\<close> does to the pointee, for each of the two types.\<close>

definition count_one :: "nat \<Rightarrow> probe_memory \<Rightarrow> probe_memory option" where
  "count_one p m = (case from_raw CountWakeType p m of
     Some c \<Rightarrow> (case payload c of
         CountWake n \<Rightarrow> Some (m\<lparr>arcs := (arcs m)(p \<mapsto> c\<lparr>payload := CountWake (n + 1)\<rparr>)\<rparr>)
       | ThreadWake t \<Rightarrow> None)
   | None \<Rightarrow> None)"

definition unpark_its_thread :: "nat \<Rightarrow> probe_memory \<Rightarrow> probe_memory option" where
  "unpark_its_thread p m = (case from_raw ThreadWakeType p m of
     Some c \<Rightarrow> (case payload c of
         ThreadWake t \<Rightarrow> Some (m\<lparr>unparked := insert t (unparked m)\<rparr>)
       | CountWake n \<Rightarrow> None)
   | None \<Rightarrow> None)"

text \<open>
  The functions of the two vtables.  \<open>clone\<close> and \<open>wake_by_ref\<close> borrow the waker's \<open>Arc\<close> (they
  forget what \<open>from_raw\<close> gave them), \<open>wake\<close> and \<open>drop\<close> consume it.  \<open>clone\<close> returns a new raw waker, with
  the vtable that the function names.
\<close>

definition count_wake_clone :: "nat \<Rightarrow> probe_memory \<Rightarrow> (raw_waker \<times> probe_memory) option" where
  "count_wake_clone p m = map_option (Pair (COUNT_WAKE_VTABLE, p)) (arc_clone CountWakeType p m)"

definition count_wake_wake :: "nat \<Rightarrow> probe_memory \<Rightarrow> probe_memory option" where
  "count_wake_wake p m = (case count_one p m of None \<Rightarrow> None | Some m' \<Rightarrow> arc_drop CountWakeType p m')"

definition count_wake_wake_by_ref :: "nat \<Rightarrow> probe_memory \<Rightarrow> probe_memory option" where
  "count_wake_wake_by_ref p m = count_one p m"

definition count_wake_drop :: "nat \<Rightarrow> probe_memory \<Rightarrow> probe_memory option" where
  "count_wake_drop p m = arc_drop CountWakeType p m"

definition thread_wake_clone :: "nat \<Rightarrow> probe_memory \<Rightarrow> (raw_waker \<times> probe_memory) option" where
  "thread_wake_clone p m = map_option (Pair (THREAD_WAKE_VTABLE, p)) (arc_clone ThreadWakeType p m)"

definition thread_wake_wake :: "nat \<Rightarrow> probe_memory \<Rightarrow> probe_memory option" where
  "thread_wake_wake p m = (case unpark_its_thread p m of None \<Rightarrow> None | Some m' \<Rightarrow> arc_drop ThreadWakeType p m')"

definition thread_wake_wake_by_ref :: "nat \<Rightarrow> probe_memory \<Rightarrow> probe_memory option" where
  "thread_wake_wake_by_ref p m = unpark_its_thread p m"

definition thread_wake_drop :: "nat \<Rightarrow> probe_memory \<Rightarrow> probe_memory option" where
  "thread_wake_drop p m = arc_drop ThreadWakeType p m"

text \<open>A \<open>Waker\<close> calls through its vtable.\<close>

fun vtable_clone :: "vtable \<Rightarrow> nat \<Rightarrow> probe_memory \<Rightarrow> (raw_waker \<times> probe_memory) option" where
  "vtable_clone COUNT_WAKE_VTABLE = count_wake_clone"
| "vtable_clone THREAD_WAKE_VTABLE = thread_wake_clone"

fun vtable_wake :: "vtable \<Rightarrow> nat \<Rightarrow> probe_memory \<Rightarrow> probe_memory option" where
  "vtable_wake COUNT_WAKE_VTABLE = count_wake_wake"
| "vtable_wake THREAD_WAKE_VTABLE = thread_wake_wake"

fun vtable_wake_by_ref :: "vtable \<Rightarrow> nat \<Rightarrow> probe_memory \<Rightarrow> probe_memory option" where
  "vtable_wake_by_ref COUNT_WAKE_VTABLE = count_wake_wake_by_ref"
| "vtable_wake_by_ref THREAD_WAKE_VTABLE = thread_wake_wake_by_ref"

fun vtable_drop :: "vtable \<Rightarrow> nat \<Rightarrow> probe_memory \<Rightarrow> probe_memory option" where
  "vtable_drop COUNT_WAKE_VTABLE = count_wake_drop"
| "vtable_drop THREAD_WAKE_VTABLE = thread_wake_drop"

subsection \<open>A program with wakers\<close>

text \<open>
  The wakers and the \<open>Arc\<close>s of probes a program owns.  \<open>CountWake::waker()\<close> and
  \<open>ThreadWake::waker()\<close> return one of each for one new allocation.
\<close>

record probe_world =
  memory :: probe_memory
  next_probe :: nat
  wakers_owned :: "raw_waker list"
  probes_owned :: "(probe_type \<times> nat) list"

definition probe_world_new :: probe_world where
  "probe_world_new = \<lparr>memory = \<lparr>arcs = Map.empty, unparked = {}\<rparr>, next_probe = 0, wakers_owned = [], probes_owned = []\<rparr>"

definition count_wake_waker :: "probe_world \<Rightarrow> probe_world" where
  "count_wake_waker w = (let p = next_probe w in
     w\<lparr>memory := (memory w)\<lparr>arcs := (arcs (memory w))(p \<mapsto> \<lparr>strong = 2, payload = CountWake 0\<rparr>)\<rparr>,
       next_probe := p + 1, wakers_owned := (COUNT_WAKE_VTABLE, p) # wakers_owned w, probes_owned := (CountWakeType, p) # probes_owned w\<rparr>)"

definition thread_wake_waker :: "thread_id \<Rightarrow> probe_world \<Rightarrow> probe_world" where
  "thread_wake_waker t w = (let p = next_probe w in
     w\<lparr>memory := (memory w)\<lparr>arcs := (arcs (memory w))(p \<mapsto> \<lparr>strong = 2, payload = ThreadWake t\<rparr>)\<rparr>,
       next_probe := p + 1, wakers_owned := (THREAD_WAKE_VTABLE, p) # wakers_owned w, probes_owned := (ThreadWakeType, p) # probes_owned w\<rparr>)"

definition probe_count :: "nat \<Rightarrow> probe_memory \<Rightarrow> usize option" where
  "probe_count p m = (case arcs m p of
     Some c \<Rightarrow> (case payload c of CountWake n \<Rightarrow> Some n | ThreadWake t \<Rightarrow> None)
   | None \<Rightarrow> None)"

datatype probe_op =
    NewCountWake
  | NewThreadWake thread_id
  | CloneWaker vtable nat
  | WakeWaker vtable nat
  | WakeByRef vtable nat
  | DropWaker vtable nat
  | DropProbeArc probe_type nat

fun probe_owns :: "probe_op \<Rightarrow> probe_world \<Rightarrow> bool" where
  "probe_owns (CloneWaker v p) w = ((v, p) \<in> set (wakers_owned w))"
| "probe_owns (WakeWaker v p) w = ((v, p) \<in> set (wakers_owned w))"
| "probe_owns (WakeByRef v p) w = ((v, p) \<in> set (wakers_owned w))"
| "probe_owns (DropWaker v p) w = ((v, p) \<in> set (wakers_owned w))"
| "probe_owns (DropProbeArc ty p) w = ((ty, p) \<in> set (probes_owned w))"
| "probe_owns _ w = True"

fun probe_exec :: "probe_op \<Rightarrow> probe_world \<Rightarrow> probe_world option" where
  "probe_exec NewCountWake w = Some (count_wake_waker w)"
| "probe_exec (NewThreadWake t) w = Some (thread_wake_waker t w)"
| "probe_exec (CloneWaker v p) w = map_option
     (\<lambda>(raw, m). w\<lparr>memory := m, wakers_owned := raw # wakers_owned w\<rparr>) (vtable_clone v p (memory w))"
| "probe_exec (WakeWaker v p) w = map_option
     (\<lambda>m. w\<lparr>memory := m, wakers_owned := remove1 (v, p) (wakers_owned w)\<rparr>) (vtable_wake v p (memory w))"
| "probe_exec (WakeByRef v p) w = map_option (\<lambda>m. w\<lparr>memory := m\<rparr>) (vtable_wake_by_ref v p (memory w))"
| "probe_exec (DropWaker v p) w = map_option
     (\<lambda>m. w\<lparr>memory := m, wakers_owned := remove1 (v, p) (wakers_owned w)\<rparr>) (vtable_drop v p (memory w))"
| "probe_exec (DropProbeArc ty p) w = map_option
     (\<lambda>m. w\<lparr>memory := m, probes_owned := remove1 (ty, p) (probes_owned w)\<rparr>) (arc_drop ty p (memory w))"

inductive probe_reach :: "probe_world \<Rightarrow> bool" where
  probe_start: "probe_reach probe_world_new"
| probe_step: "probe_reach w \<Longrightarrow> probe_owns op w \<Longrightarrow> probe_exec op w = Some w' \<Longrightarrow> probe_reach w'"

subsection \<open>The strong count is the number of owners\<close>

definition owners_of :: "nat \<Rightarrow> probe_world \<Rightarrow> nat" where
  "owners_of p w = length (filter (\<lambda>x. snd x = p) (wakers_owned w)) + length (filter (\<lambda>x. snd x = p) (probes_owned w))"

fun right_type :: "vtable \<Rightarrow> payload \<Rightarrow> bool" where
  "right_type COUNT_WAKE_VTABLE (CountWake n) = True"
| "right_type THREAD_WAKE_VTABLE (ThreadWake t) = True"
| "right_type _ _ = False"

fun vtable_type :: "vtable \<Rightarrow> probe_type" where
  "vtable_type COUNT_WAKE_VTABLE = CountWakeType"
| "vtable_type THREAD_WAKE_VTABLE = ThreadWakeType"

lemma right_type_type: "right_type v l \<longleftrightarrow> type_of l = vtable_type v"
  by (cases v; cases l) simp_all

definition probe_inv :: "probe_world \<Rightarrow> bool" where
  "probe_inv w \<longleftrightarrow>
     (\<forall>p. case arcs (memory w) p of None \<Rightarrow> owners_of p w = 0
        | Some c \<Rightarrow> strong c = owners_of p w \<and> strong c > 0 \<and> p < next_probe w) \<and>
     (\<forall>v p c. (v, p) \<in> set (wakers_owned w) \<longrightarrow> arcs (memory w) p = Some c \<longrightarrow> right_type v (payload c)) \<and>
     (\<forall>ty p c. (ty, p) \<in> set (probes_owned w) \<longrightarrow> arcs (memory w) p = Some c \<longrightarrow> type_of (payload c) = ty)"

lemma probe_invD:
  assumes "probe_inv w"
  shows "arcs (memory w) p = None \<Longrightarrow> owners_of p w = 0"
    and "arcs (memory w) p = Some c \<Longrightarrow> strong c = owners_of p w \<and> strong c > 0 \<and> p < next_probe w"
    and "(v, p) \<in> set (wakers_owned w) \<Longrightarrow> arcs (memory w) p = Some c \<Longrightarrow> right_type v (payload c)"
    and "(ty, p) \<in> set (probes_owned w) \<Longrightarrow> arcs (memory w) p = Some c \<Longrightarrow> type_of (payload c) = ty"
  using assms unfolding probe_inv_def by (auto dest: spec [of _ p])

lemma length_filter_remove1:
  "x \<in> set xs \<Longrightarrow> length (filter P xs) = length (filter P (remove1 x xs)) + (if P x then 1 else 0)"
  by (induction xs) auto

lemma waker_owner:
  assumes "(v, p) \<in> set (wakers_owned w)"
  shows "owners_of p w > 0"
proof -
  have "(v, p) \<in> set (filter (\<lambda>x. snd x = p) (wakers_owned w))" using assms by simp
  then show ?thesis unfolding owners_of_def using length_pos_if_in_set by fastforce
qed

lemma probe_owner: "(ty, p) \<in> set (probes_owned w) \<Longrightarrow> owners_of p w > 0"
  unfolding owners_of_def by (force simp: filter_empty_conv)

lemma owned_arc:
  assumes "probe_inv w" and "owners_of p w > 0"
  obtains c where "arcs (memory w) p = Some c"
  using probe_invD(1) [OF assms(1), of p] assms(2) by (cases "arcs (memory w) p") auto

text \<open>One allocation changes, and the owners with it.\<close>

lemma probe_inv_step:
  assumes inv: "probe_inv w" and "next_probe w' = next_probe w"
    and arcs: "arcs (memory w') = (if n = 0 then (arcs (memory w))(p := None)
        else (arcs (memory w))(p \<mapsto> \<lparr>strong = n, payload = l\<rparr>))"
    and own: "\<And>q. owners_of q w' = (if q = p then n else owners_of q w)"
    and old: "arcs (memory w) p = Some c" and wakers: "set (wakers_owned w') \<subseteq> set (wakers_owned w)"
    and probes: "set (probes_owned w') \<subseteq> set (probes_owned w)" and type: "type_of l = type_of (payload c)"
  shows "probe_inv w'"
  unfolding probe_inv_def
proof (intro conjI allI impI)
  fix q
  show "case arcs (memory w') q of None \<Rightarrow> owners_of q w' = 0
      | Some c \<Rightarrow> strong c = owners_of q w' \<and> strong c > 0 \<and> q < next_probe w'"
  proof (cases "q = p")
    case True
    with probe_invD(2) [OF inv old] show ?thesis by (simp add: arcs own assms(2))
  next
    case False
    with probe_invD(1,2) [OF inv, of q] show ?thesis
      by (cases "arcs (memory w) q") (simp_all add: arcs own assms(2))
  qed
next
  fix ty q d assume "(ty, q) \<in> set (probes_owned w')" and d: "arcs (memory w') q = Some d"
  then have old_p: "(ty, q) \<in> set (probes_owned w)" using probes by blast
  show "type_of (payload d) = ty"
  proof (cases "q = p")
    case True
    with d have "payload d = l" by (auto simp: arcs split: if_splits)
    with True old_p probe_invD(4) [OF inv _ old, of ty] type show ?thesis by simp
  next
    case False
    with d probe_invD(4) [OF inv old_p] show ?thesis by (simp add: arcs split: if_splits)
  qed
next
  fix v q d assume "(v, q) \<in> set (wakers_owned w')" and d: "arcs (memory w') q = Some d"
  then have old_w: "(v, q) \<in> set (wakers_owned w)" using wakers by blast
  show "right_type v (payload d)"
  proof (cases "q = p")
    case True
    with d old old_w probe_invD(3) [OF inv, of v p c] type show ?thesis by (auto simp: arcs right_type_type split: if_splits)
  next
    case False
    with d old_w probe_invD(3) [OF inv, of v q d] show ?thesis by (simp add: arcs split: if_splits)
  qed
qed

lemma new_probe_inv:
  assumes inv: "probe_inv w" and type: "right_type v l"
    and w': "memory w' = (memory w)\<lparr>arcs := (arcs (memory w))(next_probe w \<mapsto> \<lparr>strong = 2, payload = l\<rparr>)\<rparr>"
      "next_probe w' = next_probe w + 1" "wakers_owned w' = (v, next_probe w) # wakers_owned w"
      "probes_owned w' = (vtable_type v, next_probe w) # probes_owned w"
  shows "probe_inv w'"
proof -
  have fresh: "arcs (memory w) (next_probe w) = None"
    using probe_invD(2) [OF inv, of "next_probe w"] by (cases "arcs (memory w) (next_probe w)") auto
  then have zero: "owners_of (next_probe w) w = 0" by (rule probe_invD(1) [OF inv])
  have own: "owners_of q w' = (if q = next_probe w then 2 else owners_of q w)" for q
    using zero by (simp add: owners_of_def w')
  show ?thesis
    unfolding probe_inv_def
  proof (intro conjI allI impI)
    fix q
    show "case arcs (memory w') q of None \<Rightarrow> owners_of q w' = 0
      | Some c \<Rightarrow> strong c = owners_of q w' \<and> strong c > 0 \<and> q < next_probe w'"
      using probe_invD(1,2) [OF inv, of q] by (auto simp: w' own split: option.split)
  next
    fix ty q d assume u: "(ty, q) \<in> set (probes_owned w')" and d: "arcs (memory w') q = Some d"
    show "type_of (payload d) = ty"
    proof (cases "q = next_probe w")
      case True
      have "(ty', next_probe w) \<notin> set (probes_owned w)" for ty' using zero probe_owner [of ty' "next_probe w" w] by auto
      with True u d type show ?thesis by (auto simp: w' right_type_type)
    next
      case False
      with u d probe_invD(4) [OF inv, of ty q d] show ?thesis by (simp add: w')
    qed
  next
    fix u q d assume u: "(u, q) \<in> set (wakers_owned w')" and d: "arcs (memory w') q = Some d"
    show "right_type u (payload d)"
    proof (cases "q = next_probe w")
      case True
      have "(u', next_probe w) \<notin> set (wakers_owned w)" for u' using zero waker_owner [of u' "next_probe w" w] by auto
      with True u d type show ?thesis by (auto simp: w')
    next
      case False
      with u d probe_invD(3) [OF inv, of u q d] show ?thesis by (simp add: w')
    qed
  qed
qed

lemma arc_drop_effect:
  assumes "arcs m p = Some c" and "strong c > 0" and "type_of (payload c) = ty"
  obtains m' where "arc_drop ty p m = Some m'"
    "arcs m' = (if strong c - 1 = 0 then (arcs m)(p := None)
       else (arcs m)(p \<mapsto> \<lparr>strong = strong c - 1, payload = payload c\<rparr>))"
proof
  let ?m = "m\<lparr>arcs := (if strong c = 1 then (arcs m)(p := None)
                              else (arcs m)(p \<mapsto> c\<lparr>strong := strong c - 1\<rparr>))\<rparr>"
  show "arc_drop ty p m = Some ?m" using assms(1,3) by (simp add: arc_drop_def from_raw_def)
  from assms(2) show "arcs ?m = (if strong c - 1 = 0 then (arcs m)(p := None)
       else (arcs m)(p \<mapsto> \<lparr>strong = strong c - 1, payload = payload c\<rparr>))" by (cases c; cases "strong c = 1") simp_all
qed

text \<open>
  The contract of \<open>RawWakerVTable\<close> for a pointer with an owner count: \<open>clone\<close> adds an owner,
  \<open>wake_by_ref\<close> does what it does to the pointee and keeps the count, \<open>wake\<close> is that and the loss of an
  owner, and \<open>drop\<close> is the loss of an owner.  The vtable \<open>table\<close> is for pointees of type \<open>ty\<close>, and the waker
  that \<open>clone\<close> returns has the same vtable and pointer.
\<close>

locale raw_waker =
  fixes clone :: "nat \<Rightarrow> probe_memory \<Rightarrow> (raw_waker \<times> probe_memory) option"
    and wake wake_by_ref discard :: "nat \<Rightarrow> probe_memory \<Rightarrow> probe_memory option" and table :: vtable and ty :: probe_type
  assumes clone_adds: "arcs m p = Some c \<Longrightarrow> type_of (payload c) = ty \<Longrightarrow>
      clone p m = Some ((table, p), m\<lparr>arcs := (arcs m)(p \<mapsto> c\<lparr>strong := strong c + 1\<rparr>)\<rparr>)"
    and ref_keeps: "arcs m p = Some c \<Longrightarrow> type_of (payload c) = ty \<Longrightarrow>
      \<exists>m' l. wake_by_ref p m = Some m' \<and> arcs m' = (arcs m)(p \<mapsto> c\<lparr>payload := l\<rparr>) \<and> type_of l = ty"
    and wake_drops: "wake p m = Option.bind (wake_by_ref p m) (arc_drop ty p)"
    and discard_drops: "discard p m = arc_drop ty p m"
begin

lemma wake_consumes:
  assumes c: "arcs m p = Some c" "type_of (payload c) = ty" "strong c > 0"
  obtains m' l where "wake p m = Some m'" and "type_of l = ty"
    and "arcs m' = (if strong c - 1 = 0 then (arcs m)(p := None) else (arcs m)(p \<mapsto> \<lparr>strong = strong c - 1, payload = l\<rparr>))"
proof -
  obtain m1 l where m1: "wake_by_ref p m = Some m1" "arcs m1 = (arcs m)(p \<mapsto> c\<lparr>payload := l\<rparr>)" "type_of l = ty"
    using ref_keeps [OF c(1,2)] by blast
  have live: "arcs m1 p = Some (c\<lparr>payload := l\<rparr>)" "strong (c\<lparr>payload := l\<rparr>) > 0" "type_of (payload (c\<lparr>payload := l\<rparr>)) = ty"
    using m1(2,3) c(3) by simp_all
  show ?thesis
    by (rule arc_drop_effect [OF live]) (rule that [OF _ m1(3)], use m1(1,2) in \<open>auto simp: wake_drops\<close>)
qed

lemma discard_consumes:
  assumes "arcs m p = Some c" and "strong c > 0" and "type_of (payload c) = ty"
  obtains m' where "discard p m = Some m'"
    and "arcs m' = (if strong c - 1 = 0 then (arcs m)(p := None)
       else (arcs m)(p \<mapsto> \<lparr>strong = strong c - 1, payload = payload c\<rparr>))"
  using arc_drop_effect [OF assms] unfolding discard_drops .

end

lemma type_iff:
  "type_of l = CountWakeType \<longleftrightarrow> (\<exists>n. l = CountWake n)" "type_of l = ThreadWakeType \<longleftrightarrow> (\<exists>t. l = ThreadWake t)"
  by (cases l; simp)+

interpretation count_wake: raw_waker count_wake_clone count_wake_wake count_wake_wake_by_ref count_wake_drop
    COUNT_WAKE_VTABLE CountWakeType
proof
  fix m :: probe_memory and p c assume c: "arcs m p = Some c" "type_of (payload c) = CountWakeType"
  then obtain n where "payload c = CountWake n" by (auto simp: type_iff)
  with c show "\<exists>m' l. count_wake_wake_by_ref p m = Some m' \<and> arcs m' = (arcs m)(p \<mapsto> c\<lparr>payload := l\<rparr>) \<and> type_of l = CountWakeType"
    by (simp add: count_wake_wake_by_ref_def count_one_def from_raw_def exI [of _ "CountWake (n + 1)"])
qed (auto simp: count_wake_clone_def count_wake_wake_def count_wake_wake_by_ref_def count_wake_drop_def arc_clone_def from_raw_def
    split: option.split)

interpretation thread_wake: raw_waker thread_wake_clone thread_wake_wake thread_wake_wake_by_ref thread_wake_drop
    THREAD_WAKE_VTABLE ThreadWakeType
proof
  fix m :: probe_memory and p c assume "arcs m p = Some c" "type_of (payload c) = ThreadWakeType"
  then show "\<exists>m' l. thread_wake_wake_by_ref p m = Some m' \<and> arcs m' = (arcs m)(p \<mapsto> c\<lparr>payload := l\<rparr>) \<and> type_of l = ThreadWakeType"
    by (auto simp: type_iff thread_wake_wake_by_ref_def unpark_its_thread_def from_raw_def fun_upd_idem intro!: exI [of _ "payload c"])
qed (auto simp: thread_wake_clone_def thread_wake_wake_def thread_wake_wake_by_ref_def thread_wake_drop_def arc_clone_def from_raw_def
    split: option.split)

interpretation vt: raw_waker "vtable_clone v" "vtable_wake v" "vtable_wake_by_ref v" "vtable_drop v" v "vtable_type v" for v
  by (cases v) (simp_all add: count_wake.raw_waker_axioms thread_wake.raw_waker_axioms)

lemma probe_step_inv:
  assumes inv: "probe_inv w" and own: "probe_owns op w"
  shows "\<exists>w'. probe_exec op w = Some w' \<and> probe_inv w'"
proof (cases op)
  case NewCountWake
  show ?thesis
    unfolding NewCountWake by (auto simp: count_wake_waker_def Let_def intro: new_probe_inv [OF inv, of COUNT_WAKE_VTABLE "CountWake 0"])
next
  case (NewThreadWake t)
  show ?thesis
    unfolding NewThreadWake by (auto simp: thread_wake_waker_def Let_def intro: new_probe_inv [OF inv, of THREAD_WAKE_VTABLE "ThreadWake t"])
next
  case (CloneWaker v p)
  then have mem: "(v, p) \<in> set (wakers_owned w)" using own by simp
  obtain c where c: "arcs (memory w) p = Some c" by (rule owned_arc [OF inv waker_owner [OF mem]])
  have type: "type_of (payload c) = vtable_type v" using probe_invD(3) [OF inv mem c] by (simp add: right_type_type)
  let ?m = "(memory w)\<lparr>arcs := (arcs (memory w))(p \<mapsto> c\<lparr>strong := strong c + 1\<rparr>)\<rparr>"
  let ?w = "w\<lparr>memory := ?m, wakers_owned := (v, p) # wakers_owned w\<rparr>"
  have "vtable_clone v p (memory w) = Some ((v, p), ?m)" by (rule vt.clone_adds [OF c type])
  moreover have "probe_inv ?w"
    by (rule probe_inv_step [OF inv _ _ _ c, of _ "owners_of p w + 1" "payload c"])
      (use mem probe_invD(2) [OF inv c] in \<open>auto simp: owners_of_def\<close>)
  ultimately show ?thesis using CloneWaker by simp
next
  case (WakeByRef v p)
  then have mem: "(v, p) \<in> set (wakers_owned w)" using own by simp
  obtain c where c: "arcs (memory w) p = Some c" by (rule owned_arc [OF inv waker_owner [OF mem]])
  have type: "type_of (payload c) = vtable_type v" using probe_invD(3) [OF inv mem c] by (simp add: right_type_type)
  obtain m l where m: "vtable_wake_by_ref v p (memory w) = Some m"
    "arcs m = (arcs (memory w))(p \<mapsto> c\<lparr>payload := l\<rparr>)" "type_of l = vtable_type v"
    using vt.ref_keeps [OF c type] by blast
  have "probe_inv (w\<lparr>memory := m\<rparr>)"
    by (rule probe_inv_step [OF inv _ _ _ c, of _ "owners_of p w" l])
      (use m probe_invD(2) [OF inv c] type in \<open>auto simp: owners_of_def\<close>)
  with m(1) WakeByRef show ?thesis by simp
next
  case (WakeWaker v p)
  then have mem: "(v, p) \<in> set (wakers_owned w)" using own by simp
  obtain c where c: "arcs (memory w) p = Some c" by (rule owned_arc [OF inv waker_owner [OF mem]])
  have type: "type_of (payload c) = vtable_type v" using probe_invD(3) [OF inv mem c] by (simp add: right_type_type)
  obtain m' l where m': "vtable_wake v p (memory w) = Some m'" "type_of l = vtable_type v"
    "arcs m' = (if strong c - 1 = 0 then (arcs (memory w))(p := None)
       else (arcs (memory w))(p \<mapsto> \<lparr>strong = strong c - 1, payload = l\<rparr>))"
    using vt.wake_consumes [OF c type] probe_invD(2) [OF inv c] by metis
  have "probe_inv (w\<lparr>memory := m', wakers_owned := remove1 (v, p) (wakers_owned w)\<rparr>)"
    by (rule probe_inv_step [OF inv _ _ _ c, of _ "owners_of p w - 1" l])
      (use m' type probe_invD(2) [OF inv c] length_filter_remove1 [OF mem]
        set_remove1_subset [of "(v, p)"] in \<open>auto simp: owners_of_def\<close>)
  with m'(1) WakeWaker show ?thesis by simp
next
  case (DropWaker v p)
  then have mem: "(v, p) \<in> set (wakers_owned w)" using own by simp
  obtain c where c: "arcs (memory w) p = Some c" by (rule owned_arc [OF inv waker_owner [OF mem]])
  have type: "type_of (payload c) = vtable_type v" using probe_invD(3) [OF inv mem c] by (simp add: right_type_type)
  obtain m' where m': "vtable_drop v p (memory w) = Some m'"
    "arcs m' = (if strong c - 1 = 0 then (arcs (memory w))(p := None)
       else (arcs (memory w))(p \<mapsto> \<lparr>strong = strong c - 1, payload = payload c\<rparr>))"
    using vt.discard_consumes [OF c _ type] probe_invD(2) [OF inv c] by blast
  have "probe_inv (w\<lparr>memory := m', wakers_owned := remove1 (v, p) (wakers_owned w)\<rparr>)"
    by (rule probe_inv_step [OF inv _ _ _ c, of _ "owners_of p w - 1" "payload c"])
      (use m' probe_invD(2) [OF inv c] length_filter_remove1 [OF mem] set_remove1_subset [of "(v, p)"] in
        \<open>auto simp: owners_of_def\<close>)
  with m'(1) DropWaker show ?thesis by simp
next
  case (DropProbeArc ty p)
  then have mem: "(ty, p) \<in> set (probes_owned w)" using own by simp
  obtain c where c: "arcs (memory w) p = Some c" by (rule owned_arc [OF inv probe_owner [OF mem]])
  obtain m' where m': "arc_drop ty p (memory w) = Some m'"
    "arcs m' = (if strong c - 1 = 0 then (arcs (memory w))(p := None)
       else (arcs (memory w))(p \<mapsto> \<lparr>strong = strong c - 1, payload = payload c\<rparr>))"
    using arc_drop_effect [OF c _ probe_invD(4) [OF inv mem c]] probe_invD(2) [OF inv c] by blast
  have "probe_inv (w\<lparr>memory := m', probes_owned := remove1 (ty, p) (probes_owned w)\<rparr>)"
    by (rule probe_inv_step [OF inv _ _ _ c, of _ "owners_of p w - 1" "payload c"])
      (use m' probe_invD(2) [OF inv c] length_filter_remove1 [OF mem] set_remove1_subset [of "(ty, p)"] in
        \<open>auto simp: owners_of_def\<close>)
  with m'(1) DropProbeArc show ?thesis by simp
qed

lemma probe_reach_inv: "probe_reach w \<Longrightarrow> probe_inv w"
proof (induction rule: probe_reach.induct)
  case probe_start
  show ?case by (simp add: probe_inv_def probe_world_new_def owners_of_def)
next
  case (probe_step w op w')
  then show ?case using probe_step_inv by fastforce
qed

text \<open>
  C27: the hand-written raw wakers keep the \<open>Arc\<close> protocol.  In every program that clones, wakes,
  drops and inspects the wakers it owns, in any order, no vtable function touches a freed probe or
  a probe of the other type, a clone has the vtable and the pointer of the waker it was made from, the
  strong count is the number of wakers and \<open>Arc\<close>s that are left, and the probe is freed exactly when
  none is.
\<close>
theorem raw_wakers_keep_the_count:
  assumes "probe_reach w" and "probe_owns op w"
  shows "probe_exec op w \<noteq> None \<and>
    (\<forall>v p w'. op = CloneWaker v p \<longrightarrow> probe_exec op w = Some w' \<longrightarrow> wakers_owned w' = (v, p) # wakers_owned w) \<and>
    (\<forall>p. arcs (memory w) p = None \<longleftrightarrow> owners_of p w = 0) \<and>
    (\<forall>p c. arcs (memory w) p = Some c \<longrightarrow> strong c = owners_of p w)"
proof -
  note inv = probe_reach_inv [OF assms(1)]
  have "arcs (memory w) p = None \<longleftrightarrow> owners_of p w = 0" for p
    using probe_invD(1,2) [OF inv, of p] by (cases "arcs (memory w) p") auto
  moreover have "wakers_owned w' = (v, p) # wakers_owned w" if "op = CloneWaker v p" "probe_exec op w = Some w'" for v p w'
  proof -
    have mem: "(v, p) \<in> set (wakers_owned w)" using assms(2) that(1) by simp
    obtain c where c: "arcs (memory w) p = Some c" by (rule owned_arc [OF inv waker_owner [OF mem]])
    have "type_of (payload c) = vtable_type v" using probe_invD(3) [OF inv mem c] by (simp add: right_type_type)
    from vt.clone_adds [OF c this] that show ?thesis by auto
  qed
  ultimately show ?thesis using probe_step_inv [OF inv assms(2)] probe_invD(2) [OF inv] by blast
qed

fun probe_run :: "probe_op list \<Rightarrow> probe_world \<Rightarrow> probe_world option" where
  "probe_run [] w = Some w"
| "probe_run (op # ops) w =
     (if probe_owns op w then (case probe_exec op w of None \<Rightarrow> None | Some w' \<Rightarrow> probe_run ops w') else None)"

lemma probe_run_reach: "probe_reach w \<Longrightarrow> probe_run ops w = Some w' \<Longrightarrow> probe_reach w'"
proof (induction ops arbitrary: w)
  case (Cons op ops)
  from Cons.prems(2) obtain w1 where "probe_owns op w" "probe_exec op w = Some w1" "probe_run ops w1 = Some w'"
    by (auto split: if_splits option.splits)
  with Cons show ?case by (meson probe_step)
qed simp

theorem raw_wakers_keep_the_count_witness:
  "\<exists>w. probe_run [NewCountWake, CloneWaker COUNT_WAKE_VTABLE 0, WakeWaker COUNT_WAKE_VTABLE 0] probe_world_new = Some w
     \<and> probe_count 0 (memory w) = Some 1 \<and> probe_exec (DropWaker COUNT_WAKE_VTABLE 0) w \<noteq> None
     \<and> map_option strong (arcs (memory w) 0) = Some 2"
proof -
  let ?r = "probe_run [NewCountWake, CloneWaker COUNT_WAKE_VTABLE 0, WakeWaker COUNT_WAKE_VTABLE 0] probe_world_new"
  have c: "map_option (\<lambda>w. (probe_count 0 (memory w), wakers_owned w, owners_of 0 w)) ?r
      = Some (Some 1, [(COUNT_WAKE_VTABLE, 0)], 2)" by code_simp
  then obtain w where w: "?r = Some w" "probe_count 0 (memory w) = Some 1"
    "wakers_owned w = [(COUNT_WAKE_VTABLE, 0)]" "owners_of 0 w = 2" by auto
  have "probe_owns (DropWaker COUNT_WAKE_VTABLE 0) w" by (simp add: w(3))
  from raw_wakers_keep_the_count [OF probe_run_reach [OF probe_start w(1)] this] w
  show ?thesis by (cases "arcs (memory w) 0") auto
qed

end
