(* ===== verification/Fuzz_Drops.thy ===== *)
theory Fuzz_Drops
  imports Fuzz Probes
begin

section \<open>The fuzz target \<open>promotion_ops\<close>\<close>

text \<open>
  \<open>fuzz_targets/promotion_ops.rs\<close>: six keys, so that the key table is promoted, and outcomes that
  count their drops.  The target counts the values it creates, by a completion or as the clone of a
  \<open>try_get\<close>; \<open>drops_of\<close> are the values it has dropped itself, the crate's are in the world.  At the
  end the shared counter must have counted every value once.
\<close>

record drops_state = target_state +
  completed_pairs :: "u8 \<times> u64 \<rightharpoonup> bool"
  created_of :: usize
  drops_of :: "drop_probe list"

definition PROMOTION_KEYS :: u8 where "PROMOTION_KEYS = 6"

definition promotion_new :: drops_state where
  "promotion_new = \<lparr>subjects_of = Map.empty, epochs_of = Map.empty, observations_of = [],
     completed_pairs = Map.empty, created_of = 0, drops_of = []\<rparr>"

definition count_created :: "'a drops_state_scheme \<Rightarrow> (drop_probe, 'a drops_state_scheme) target" where
  "count_created s = (case checked_inc (created_of s) of None \<Rightarrow> Fails | Some c \<Rightarrow> Finish (s\<lparr>created_of := c\<rparr>))"

definition is_completed :: "u8 \<Rightarrow> u64 \<Rightarrow> 'a drops_state_scheme \<Rightarrow> bool" where
  "is_completed k e s = (case completed_pairs s (k, e) of None \<Rightarrow> False | Some b \<Rightarrow> b)"

definition promotion_complete :: "u8 \<Rightarrow> 'a drops_state_scheme \<Rightarrow> (drop_probe, 'a drops_state_scheme) target" where
  "promotion_complete key s = (case subjects_of s key of
       None \<Rightarrow> Finish s
     | Some h \<Rightarrow> (case epochs_of s key of
           None \<Rightarrow> Fails
         | Some epoch \<Rightarrow> (let s' = s\<lparr>completed_pairs := (completed_pairs s)((key, epoch) \<mapsto> True)\<rparr> in
             if completed_pairs s (key, epoch) = None
             then ask (Complete h (with_counter (encode epoch key) 0)) (\<lambda>_. count_created s')
             else Finish s')))"

definition promotion_try_get :: "'a drops_state_scheme \<Rightarrow> (drop_probe, 'a drops_state_scheme) target" where
  "promotion_try_get s = (if observations_of s = [] then Finish s
     else case last (observations_of s) of (k, e, h) \<Rightarrow>
       (let expected = (if is_completed k e s then Some (encode e k) else None) in ask (TryGet h) (\<lambda>r. case r of
          Value (Some value) \<Rightarrow>
            if Some (tag value) = expected then count_created (s\<lparr>drops_of := drops_of s @ [value]\<rparr>) else Fails
        | Value None \<Rightarrow> if expected = None then Finish s else Fails
        | _ \<Rightarrow> Fails)))"

definition promotion_into_outcome :: "'a drops_state_scheme \<Rightarrow> (drop_probe, 'a drops_state_scheme) target" where
  "promotion_into_outcome s = (case pop (observations_of s) of
       (None, _) \<Rightarrow> Finish s
     | (Some (k, e, h), rest) \<Rightarrow> (let s = s\<lparr>observations_of := rest\<rparr> in case subject_gone k e s of
           None \<Rightarrow> Fails
         | Some gone \<Rightarrow> (let done = (if is_completed k e s then Some (encode e k) else None)
             in ask (IntoOutcome h) (\<lambda>r. case r of
                Value res \<Rightarrow>
                  if gone \<and> done \<noteq> None \<and> refs k e rest = 0
                  then (case res of
                      None \<Rightarrow> Fails
                    | Some value \<Rightarrow> if Some (tag value) = done then Finish (s\<lparr>drops_of := drops_of s @ [value]\<rparr>) else Fails)
                  else if res = None then Finish s else Fails
              | _ \<Rightarrow> Fails))))"

definition promotion_step :: "u8 \<times> u8 \<Rightarrow> drops_state \<Rightarrow> (drop_probe, drops_state) target" where
  "promotion_step pair s = (let op = fst pair mod 7; key = snd pair mod PROMOTION_KEYS in
     if op = 0 then fuzz_register id key s
     else if op = 1 then promotion_complete key s
     else if op = 2 then fuzz_observe key s
     else if op = 3 then promotion_try_get s
     else if op = 4 then fuzz_retire key s
     else if op = 5 then promotion_into_outcome s
     else fuzz_drop s)"

text \<open>\<open>counter.load()\<close> after the teardown: the drops of the target and of the crate.\<close>

definition counter_load :: "'a drops_state_scheme \<Rightarrow> (u8, drop_probe) world \<Rightarrow> usize" where
  "counter_load s w = fold probe_drop (drops_of s @ dropped w) (\<lambda>_. 0) 0"

definition counted :: "('a drops_state_scheme \<times> (u8, drop_probe) world) option \<Rightarrow>
    ('a drops_state_scheme \<times> (u8, drop_probe) world) option" where
  "counted r = (case r of
       None \<Rightarrow> None
     | Some (s, w) \<Rightarrow> if counter_load s w = created_of s then Some (s, w) else None)"

definition promotion_target :: "((u8 \<rightharpoonup> handle) \<Rightarrow> u8 list) \<Rightarrow> u8 list \<Rightarrow> (drops_state \<times> (u8, drop_probe) world) option" where
  "promotion_target order data = counted (on_crate
     (chain (each promotion_step (take 256 (pairs data)) promotion_new) (teardown order)) space_new)"

subsection \<open>The books of the outcomes\<close>

definition drops_results :: "(u8, drop_probe) tracked \<Rightarrow> 'a drops_state_scheme \<Rightarrow> bool" where
  "drops_results v s \<longleftrightarrow>
     (\<forall>k e. (k, e) \<in> known v \<longrightarrow>
        result v (k, e) = (if is_completed k e s then Some (with_counter (encode e k) 0) else None)) \<and>
     (\<forall>p. completed_pairs s p \<noteq> Some False) \<and> (\<forall>p. p \<notin> known v \<longrightarrow> completed_pairs s p = None)"

definition drops_counted :: "nat \<Rightarrow> 'a drops_state_scheme \<Rightarrow> (u8, drop_probe) spec \<Rightarrow> bool" where
  "drops_counted n s a \<longleftrightarrow> unat (created_of s) \<le> n \<and>
     unat (created_of s) + length (taken a) = length (published a) + length (drops_of s) \<and>
     (\<forall>x\<in>set (published a). counter x = 0) \<and> (\<forall>x\<in>set (drops_of s). counter x = 0)"

definition drops_ok :: "(u8, drop_probe) tracked \<Rightarrow> nat \<Rightarrow> 'a drops_state_scheme \<Rightarrow> (u8, drop_probe) spec \<Rightarrow> bool" where
  "drops_ok v n s a \<longleftrightarrow> books_ok v n s a \<and> drops_results v s \<and> drops_counted n s a"

lemma drops_okD:
  assumes "drops_ok v n s a"
  shows "books_ok v n s a" "drops_results v s" "drops_counted n s a"
  using assms by (simp_all add: drops_ok_def)

lemma drops_resultsD:
  assumes "drops_results v s"
  shows "(k, e) \<in> known v \<Longrightarrow> result v (k, e) = (if is_completed k e s then Some (with_counter (encode e k) 0) else None)"
    and "completed_pairs s p \<noteq> Some False" and "p \<notin> known v \<Longrightarrow> completed_pairs s p = None"
  using assms unfolding drops_results_def by blast+

lemma drops_later:
  assumes "drops_ok v n s a" and "n \<le> m"
  shows "drops_ok v m s a"
  using books_later [OF drops_okD(1) [OF assms(1)] assms(2)] assms
  by (auto simp: drops_ok_def drops_counted_def)

lemma drops_moved:
  assumes "drops_ok v n s a" and "books_ok v n s' a'" and "same_history a a'"
    and "completed_pairs s' = completed_pairs s" "created_of s' = created_of s" "drops_of s' = drops_of s"
  shows "drops_ok v n s' a'"
  using drops_okD [OF assms(1)] assms(2-)
  by (simp add: drops_ok_def drops_results_def is_completed_def drops_counted_def same_history_def)

lemma is_completed_iff: "drops_results v s \<Longrightarrow> is_completed k e s \<longleftrightarrow> completed_pairs s (k, e) \<noteq> None"
  using drops_resultsD(2) [of v s "(k, e)"] by (cases "completed_pairs s (k, e)") (auto simp: is_completed_def)

subsection \<open>The arms\<close>

lemma drops_register_ok:
  assumes d: "drops_ok v n s a" and n: "n + 2 < 2 ^ 64"
  obtains "on_contract (fuzz_register id key s) a = Some (s, a)"
  | e s' a' where "on_contract (fuzz_register id key s) a = Some (s', a')" and "(key, e) \<notin> known v"
    and "drops_ok (begun (key, e) (generations a) v) (Suc n) s' a'" and "same_history a a'"
    and "completed_pairs s' = completed_pairs s"
    and "\<exists>h. s' = s\<lparr>epochs_of := (epochs_of s)(key \<mapsto> e), subjects_of := (subjects_of s)(key \<mapsto> h)\<rparr>"
proof (rule fuzz_register_ok [OF drops_okD(1) [OF d] n, of key id])
  assume "on_contract (fuzz_register id key s) a = Some (s, a)"
  then show thesis by (rule that(1))
next
  fix e h a'
  let ?s = "s\<lparr>epochs_of := (epochs_of s)(key \<mapsto> e), subjects_of := (subjects_of s)(key \<mapsto> h)\<rparr>"
  assume new: "(key, e) \<notin> known v" and c: "on_contract (fuzz_register id key s) a = Some (id ?s, a')"
    and b: "books_ok (begun (key, e) (generations a) v) (Suc n) ?s a'" and h: "same_history a a'"
  note r = drops_okD(2) [OF d]
  have "completed_pairs s (key, e) = None" by (rule drops_resultsD(3) [OF r new])
  then have "drops_results (begun (key, e) (generations a) v) ?s"
    using drops_resultsD [OF r] by (auto simp: drops_results_def is_completed_def)
  moreover have "drops_counted (Suc n) ?s a'"
    using drops_okD(3) [OF d] same_historyD [OF h] by (auto simp: drops_counted_def)
  ultimately have "drops_ok (begun (key, e) (generations a) v) (Suc n) ?s a'" using b by (simp add: drops_ok_def)
  then show thesis using c new h by (intro that(2) [where e = e and s' = ?s and a' = a']) auto
qed

lemma count_created_ok:
  assumes "unat (created_of s) \<le> n" and "n + 2 < 2 ^ 64"
  obtains c where "on_contract (count_created s) a = Some (s\<lparr>created_of := c\<rparr>, a)" and "unat c = Suc (unat (created_of s))"
proof -
  have i: "checked_inc (created_of s) = Some (created_of s + 1)" using assms by (intro checked_inc_small) simp
  then show ?thesis using checked_inc_Some [OF i] by (intro that [of "created_of s + 1"]) (simp_all add: count_created_def)
qed

lemma drops_complete_ok:
  assumes d: "drops_ok v n s a" and n: "n + 2 < 2 ^ 64"
  obtains "on_contract (promotion_complete key s) a = Some (s, a)"
  | e s' a' where "on_contract (promotion_complete key s) a = Some (s', a')" and "(key, e) \<in> known v"
    and "\<not> is_completed key e s" and "completed_pairs s' = (completed_pairs s)((key, e) \<mapsto> True)"
    and "\<exists>c. s' = s\<lparr>completed_pairs := (completed_pairs s)((key, e) \<mapsto> True), created_of := c\<rparr>"
    and "drops_ok (v\<lparr>result := (result v)((key, e) \<mapsto> with_counter (encode e key) 0), queue := (queue v)((key, e) := [])\<rparr>) (Suc n) s' a'"
    and "events a' = events a @ map event_of (queue v (key, e))"
proof -
  note b = drops_okD(1) [OF d] and r = drops_okD(2) [OF d] and cn = drops_okD(3) [OF d]
  show ?thesis
  proof (cases rule: live_of_cases [OF b, of key])
    case 1
    then show ?thesis by (intro that(1)) (simp add: promotion_complete_def)
  next
    case (2 h e)
    let ?x = "with_counter (encode e key) 0"
    have ke: "(key, e) \<in> known v" by (rule known_okD(2) [OF tracksD(5) [OF books_okD(1) [OF b]] 2(3)])
    show ?thesis
    proof (cases "completed_pairs s (key, e)")
      case (Some y)
      with drops_resultsD(2) [OF r, of "(key, e)"] have "(completed_pairs s)((key, e) \<mapsto> True) = completed_pairs s"
        by (cases y) auto
      then have "s\<lparr>completed_pairs := (completed_pairs s)((key, e) \<mapsto> True)\<rparr> = s" by simp
      with Some 2 show ?thesis by (intro that(1)) (simp add: promotion_complete_def Let_def)
    next
      case None
      let ?v = "v\<lparr>result := (result v)((key, e) \<mapsto> ?x), queue := (queue v)((key, e) := [])\<rparr>"
      let ?s = "s\<lparr>completed_pairs := (completed_pairs s)((key, e) \<mapsto> True)\<rparr>"
      have "result v (key, e) = None" using drops_resultsD(1) [OF r ke] None by (simp add: is_completed_def)
      from tracks_complete [OF books_okD(1) [OF b] 2(3) this, of ?x] obtain a' where a':
        "spec_exec (\<lambda>_. False) (Complete h ?x) a = Some (Ret Done, a')"
        "tracks ?v (live_of s) (observations_of s) [] n a'" "published a' = published a @ [?x]" "taken a' = taken a"
        "events a' = events a @ map event_of (queue v (key, e))" by blast
      have "unat (created_of ?s) \<le> n" using cn by (simp add: drops_counted_def)
      from count_created_ok [OF this n, of a'] obtain c where
        c: "on_contract (count_created ?s) a' = Some (?s\<lparr>created_of := c\<rparr>, a')" "unat c = Suc (unat (created_of ?s))" by blast
      have "books_ok ?v n s a'" using a'(2) b by (simp add: books_ok_def)
      then have "books_ok ?v n (?s\<lparr>created_of := c\<rparr>) a'" by (rule books_same) simp_all
      then have "books_ok ?v (Suc n) (?s\<lparr>created_of := c\<rparr>) a'" by (rule books_later) simp
      moreover have "drops_results ?v (?s\<lparr>created_of := c\<rparr>)"
        using drops_resultsD [OF r] ke by (auto simp: drops_results_def is_completed_def)
      moreover have "drops_counted (Suc n) (?s\<lparr>created_of := c\<rparr>) a'"
        using cn c(2) a'(3,4) by (auto simp: drops_counted_def with_counter_def)
      ultimately have "drops_ok ?v (Suc n) (?s\<lparr>created_of := c\<rparr>) a'" by (simp add: drops_ok_def)
      moreover have "on_contract (promotion_complete key s) a = Some (?s\<lparr>created_of := c\<rparr>, a')"
        using 2 None a'(1) c(1) by (simp add: promotion_complete_def Let_def)
      moreover have "\<not> is_completed key e s" using None by (simp add: is_completed_def)
      ultimately show ?thesis using ke a'(5)
        by (intro that(2) [where e = e and s' = "?s\<lparr>created_of := c\<rparr>" and a' = a']) auto
    qed
  qed
qed

text \<open>The arms that leave the books of the generations alone.\<close>

definition quiet_arm :: "(u8, drop_probe) tracked \<Rightarrow> nat \<Rightarrow> 'a drops_state_scheme \<Rightarrow> (u8, drop_probe) spec \<Rightarrow>
    (drop_probe, 'a drops_state_scheme) target \<Rightarrow> bool" where
  "quiet_arm v n s a m \<longleftrightarrow> (\<exists>s' a'. on_contract m a = Some (s', a') \<and> drops_ok v (Suc n) s' a' \<and>
     completed_pairs s' = completed_pairs s \<and> drops_state.more s' = drops_state.more s \<and> events a' = events a)"

lemma quiet_armI:
  assumes "on_contract m a = Some (s', a')" and "drops_ok v (Suc n) s' a'" and "completed_pairs s' = completed_pairs s"
    and "drops_state.more s' = drops_state.more s" and "events a' = events a"
  shows "quiet_arm v n s a m"
  using assms unfolding quiet_arm_def by blast

lemma quiet_moved:
  assumes d: "drops_ok v n s a" and "on_contract m a = Some (s', a')" and "books_ok v n s' a'" and h: "same_history a a'"
    and s': "completed_pairs s' = completed_pairs s" "created_of s' = created_of s" "drops_of s' = drops_of s"
      "drops_state.more s' = drops_state.more s"
  shows "quiet_arm v n s a m"
  by (rule quiet_armI [OF assms(2) drops_later [OF drops_moved [OF d assms(3) h s'(1-3)]]])
    (simp_all add: s' same_historyD [OF h])

lemma quiet_nothing: "drops_ok v n s a \<Longrightarrow> on_contract m a = Some (s, a) \<Longrightarrow> quiet_arm v n s a m"
  by (rule quiet_armI) (simp_all add: drops_later)

lemma drops_observe_ok:
  assumes d: "drops_ok v n s a"
  shows "quiet_arm v n s a (fuzz_observe key s)"
proof (rule fuzz_observe_ok [OF drops_okD(1) [OF d], of key])
  fix s' a' assume "on_contract (fuzz_observe key s) a = Some (s', a')" "books_ok v n s' a'" "same_history a a'"
    and s': "s' = s \<or> (\<exists>e h. s' = s\<lparr>observations_of := observations_of s @ [(key, e, h)]\<rparr>)"
  from quiet_moved [OF d this(1-3)] s' show ?thesis by auto
qed

lemma drops_retire_ok:
  assumes d: "drops_ok v n s a"
  shows "quiet_arm v n s a (fuzz_retire key s)"
  by (rule fuzz_retire_ok [OF drops_okD(1) [OF d], of key]) (rule quiet_moved [OF d], assumption+, simp_all)

lemma drops_drop_ok:
  assumes d: "drops_ok v n s a"
  shows "quiet_arm v n s a (fuzz_drop s)"
  by (rule fuzz_drop_ok [OF drops_okD(1) [OF d]]) (rule quiet_moved [OF d], assumption+, simp_all)

lemma drops_try_get_ok:
  assumes d: "drops_ok v n s a" and n: "n + 2 < 2 ^ 64"
  shows "quiet_arm v n s a (promotion_try_get s)"
proof (cases "observations_of s" rule: rev_cases)
  case Nil
  then show ?thesis by (intro quiet_nothing [OF d]) (simp add: promotion_try_get_def)
next
  case (snoc rest x)
  note b = drops_okD(1) [OF d] and r = drops_okD(2) [OF d] and cn = drops_okD(3) [OF d]
  obtain k e h where x: "x = (k, e, h)" by (cases x)
  have mem: "(k, e, h) \<in> set (observations_of s)" using snoc x by simp
  note get = books_try_get [OF b snoc [unfolded x]] and res = drops_resultsD(1) [OF r books_known(1) [OF b mem]]
  show ?thesis
  proof (cases "is_completed k e s")
    case False
    with get res snoc x show ?thesis by (intro quiet_nothing [OF d]) (simp add: promotion_try_get_def Let_def)
  next
    case True
    let ?x = "with_counter (encode e k) 0"
    let ?s = "s\<lparr>drops_of := drops_of s @ [?x]\<rparr>"
    have "unat (created_of ?s) \<le> n" using cn by (simp add: drops_counted_def)
    from count_created_ok [OF this n, of a] obtain c where
      c: "on_contract (count_created ?s) a = Some (?s\<lparr>created_of := c\<rparr>, a)" "unat c = Suc (unat (created_of ?s))" by blast
    have "on_contract (promotion_try_get s) a = Some (?s\<lparr>created_of := c\<rparr>, a)"
      using True get res snoc x c(1) by (simp add: promotion_try_get_def Let_def with_counter_def)
    moreover have "books_ok v (Suc n) (?s\<lparr>created_of := c\<rparr>) a"
      by (rule books_same [OF books_later [OF b]]) simp_all
    moreover have "drops_results v (?s\<lparr>created_of := c\<rparr>)"
      using r by (simp add: drops_results_def is_completed_def)
    moreover have "drops_counted (Suc n) (?s\<lparr>created_of := c\<rparr>) a"
      using cn c(2) by (auto simp: drops_counted_def with_counter_def)
    ultimately show ?thesis
      by (intro quiet_armI [where s' = "?s\<lparr>created_of := c\<rparr>" and a' = a]) (simp_all add: drops_ok_def)
  qed
qed

lemma drops_into_outcome_ok:
  assumes d: "drops_ok v n s a"
  shows "quiet_arm v n s a (promotion_into_outcome s)"
proof (cases "observations_of s" rule: rev_cases)
  case Nil
  then show ?thesis by (intro quiet_nothing [OF d]) (simp add: promotion_into_outcome_def pop_def)
next
  case (snoc rest x)
  note b = drops_okD(1) [OF d] and r = drops_okD(2) [OF d] and cn = drops_okD(3) [OF d]
  obtain k e h where x: "x = (k, e, h)" by (cases x)
  have mem: "(k, e, h) \<in> set (observations_of s)" using snoc x by simp
  let ?s = "s\<lparr>observations_of := rest\<rparr>" and ?x = "with_counter (encode e k) 0"
  obtain gone a' where g: "subject_gone k e ?s = Some gone"
    "spec_exec (\<lambda>_. False) (IntoOutcome h) a =
      Some (Ret (Value (if gone \<and> refs k e rest = 0 then result v (k, e) else None)), a')"
    "books_ok v n ?s a'" "published a' = published a" "events a' = events a"
    "taken a' = taken a @ (if gone \<and> refs k e rest = 0 then case result v (k, e) of None \<Rightarrow> [] | Some x \<Rightarrow> [x] else [])"
    by (rule books_into_outcome [OF b snoc [unfolded x]])
  note res = drops_resultsD(1) [OF r books_known(1) [OF b mem]]
  have dn: "is_completed k e ?s = is_completed k e s" by (simp add: is_completed_def)
  let ?s' = "if gone \<and> refs k e rest = 0 \<and> is_completed k e s then ?s\<lparr>drops_of := drops_of s @ [?x]\<rparr> else ?s"
  have tag: "tag ?x = encode e k" by (simp add: with_counter_def)
  have "on_contract (promotion_into_outcome s) a = Some (?s', a')"
    using g(1,2) res dn snoc x by (simp add: promotion_into_outcome_def pop_def Let_def tag)
  moreover have "books_ok v (Suc n) ?s' a'" by (rule books_same [OF books_later [OF g(3)]]) simp_all
  moreover have "drops_results v ?s'" using r by (simp add: drops_results_def is_completed_def)
  moreover have "drops_counted (Suc n) ?s' a'"
    using cn res g(4,6) by (auto simp: drops_counted_def with_counter_def)
  ultimately show ?thesis by (intro quiet_armI [where s' = ?s' and a' = a']) (simp_all add: drops_ok_def g(5))
qed

subsection \<open>No input is a crash\<close>

lemma promotion_step_ok:
  assumes "\<exists>v. drops_ok v n s a" and n: "n + 2 < 2 ^ 64"
  shows "\<exists>s' a'. on_contract (promotion_step pair s) a = Some (s', a') \<and> (\<exists>v. drops_ok v (Suc n) s' a')"
proof -
  obtain v where d: "drops_ok v n s a" using assms(1) by blast
  have register: "\<exists>s' a'. on_contract (fuzz_register id key s) a = Some (s', a') \<and> (\<exists>v. drops_ok v (Suc n) s' a')" for key
    by (rule drops_register_ok [OF d n, of key]) (use drops_later [OF d, of "Suc n"] in auto)
  have complete: "\<exists>s' a'. on_contract (promotion_complete key s) a = Some (s', a') \<and> (\<exists>v. drops_ok v (Suc n) s' a')" for key
    by (rule drops_complete_ok [OF d n, of key]) (use drops_later [OF d, of "Suc n"] in auto)
  have quiet: "quiet_arm v n s a m \<Longrightarrow> \<exists>s' a'. on_contract m a = Some (s', a') \<and> (\<exists>v. drops_ok v (Suc n) s' a')" for m
    unfolding quiet_arm_def by blast
  note arms = drops_observe_ok [OF d] drops_retire_ok [OF d] drops_drop_ok [OF d] drops_try_get_ok [OF d n]
    drops_into_outcome_ok [OF d]
  show ?thesis using register complete arms [THEN quiet] by (simp add: promotion_step_def Let_def)
qed

lemma nothing_tracked_books:
  "subjects_of s = Map.empty \<Longrightarrow> epochs_of s = Map.empty \<Longrightarrow> observations_of s = [] \<Longrightarrow> books_ok nothing_tracked 0 s spec_new"
proof -
  assume s: "subjects_of s = Map.empty" "epochs_of s = Map.empty" "observations_of s = []"
  then have "live_of s = Map.empty" by (simp add: live_of_def fun_eq_iff)
  with nothing_tracked_new s show ?thesis
    by (auto simp: books_ok_def registered_pairs_def nothing_tracked_def)
qed

lemma nothing_tracked_drops:
  assumes "subjects_of s = Map.empty" "epochs_of s = Map.empty" "observations_of s = []" "completed_pairs s = Map.empty"
    "created_of s = 0" "drops_of s = []"
  shows "drops_ok nothing_tracked 0 s spec_new"
  using nothing_tracked_books [OF assms(1-3)] assms
  by (simp add: drops_ok_def drops_results_def drops_counted_def nothing_tracked_def spec_new_def is_completed_def)

lemma fold_probe_drop:
  "(\<forall>x\<in>set xs. counter x = 0) \<Longrightarrow> fold probe_drop xs f 0 = f 0 + of_nat (length xs)"
  by (induction xs arbitrary: f) (simp_all add: probe_drop_def)

text \<open>The final assertion, from the books of the contract.\<close>

lemma all_counted:
  assumes d: "drops_counted n s a" and w: "created w = published a" "moved w = taken a"
    "mset (created w) = mset (dropped w) + mset (moved w)"
  shows "counter_load s w = created_of s"
proof -
  have "length (published a) = length (dropped w) + length (taken a)"
    using arg_cong [OF w(3), of size] w(1,2) by simp
  then have "length (drops_of s @ dropped w) = unat (created_of s)" using d by (simp add: drops_counted_def)
  moreover have "set (dropped w) \<subseteq> set (published a)" using w by (metis mset_subset_eq_add_left set_mset_mono set_mset_mset)
  then have "\<forall>x\<in>set (drops_of s @ dropped w). counter x = 0" using d by (auto simp: drops_counted_def)
  ultimately show ?thesis
    using fold_probe_drop [of "drops_of s @ dropped w" "\<lambda>_. 0"] by (simp add: counter_load_def del: of_nat_add)
qed

text \<open>
  C32: the fuzz target \<open>promotion_ops\<close> has no crash artifact.  For every input no assertion fails
  and nothing panics, the values read and moved out are those of their key and epoch, and after the
  teardown every value created has been dropped exactly once and everything is freed.
\<close>

theorem promotion_target_never_crashes:
  assumes "visits_each_once order"
  shows "\<exists>s w. promotion_target order data = Some (s, w) \<and> all_freed w \<and> counter_load s w = created_of s"
proof -
  let ?loop = "each promotion_step (take 256 (pairs data)) promotion_new"
  have start: "\<exists>v. drops_ok v 0 promotion_new spec_new"
    using nothing_tracked_drops [of promotion_new] by (auto simp: promotion_new_def)
  have step: "\<exists>s' a'. on_contract (promotion_step p s) a = Some (s', a') \<and> (\<exists>v. drops_ok v (Suc n) s' a')"
    if "\<exists>v. drops_ok v n s a" "n < 256" for n p s a
    by (rule promotion_step_ok [OF that(1)]) (use that(2) in simp)
  obtain s a v n where loop: "on_contract ?loop spec_new = Some (s, a)" "drops_ok v n s a"
    using interp_each [where I = "\<lambda>n s a. \<exists>v. drops_ok v n s a" and N = 256 and step = promotion_step and
      bs = "take 256 (pairs data)", OF step start] by auto
  from teardown_ok [OF drops_okD(1) [OF loop(2)] assms] obtain a' where
    t: "on_contract (teardown order s) a = Some (s, a')" "nothing_owned a'" "same_history a a'" by blast
  from loop t have "on_contract (chain ?loop (teardown order)) spec_new = Some (s, a')" by (simp add: interp_chain)
  from crate_freed [OF this t(2)] obtain w where w: "on_crate (chain ?loop (teardown order)) space_new = Some (s, w)"
    "all_freed w" "created w = published a'" "moved w = taken a'" "mset (created w) = mset (dropped w) + mset (moved w)" .
  have "drops_counted n s a'" using drops_okD(3) [OF loop(2)] same_historyD [OF t(3)] by (simp add: drops_counted_def)
  from all_counted [OF this w(3-5)] w(1,2) show ?thesis by (simp add: promotion_target_def counted_def)
qed

theorem promotion_target_never_crashes_witness:
  "\<exists>s w. promotion_target keys_in_order [0, 1, 2, 1, 1, 1, 3, 1, 4, 1, 5, 0] = Some (s, w) \<and> all_freed w
     \<and> counter_load s w = created_of s"
  by (rule promotion_target_never_crashes [OF every_key_once])

end
