(* ===== verification/Fuzz_Waker.thy ===== *)
theory Fuzz_Waker
  imports Fuzz_Drops
begin

section \<open>The fuzz target \<open>waker_ops\<close>\<close>

text \<open>
  \<open>fuzz_targets/waker_ops.rs\<close>: three keys and wakers registered directly.  A registered waker must
  have fired exactly once if its generation completed, and never otherwise.  The arms for
  registering, completing, observing, retiring and dropping are those of \<open>promotion_ops\<close>, with the
  same text in the source.

  A probe waker is its address and the number of times a waker at that address had fired when the
  probe was made.  \<open>alloc\<close> is the allocator: given the probes that are alive it returns an address
  for a new one.
\<close>

record waker_state = drops_state +
  registered_wakers :: "(u8 \<times> u64 \<times> waker \<times> nat) list"

definition WAKER_KEYS :: u8 where "WAKER_KEYS = 3"

definition waker_new :: waker_state where
  "waker_new = \<lparr>subjects_of = Map.empty, epochs_of = Map.empty, observations_of = [],
     completed_pairs = Map.empty, created_of = 0, drops_of = [], registered_wakers = []\<rparr>"

definition new_probe :: "(waker list \<Rightarrow> waker) \<Rightarrow> waker list \<Rightarrow> (waker \<times> nat \<Rightarrow> ('o, 'x) target) \<Rightarrow> ('o, 'x) target" where
  "new_probe alloc alive k = Probe (alloc alive) (\<lambda>n. k (alloc alive, n))"

definition wakes :: "waker \<times> nat \<Rightarrow> (nat \<Rightarrow> ('o, 'x) target) \<Rightarrow> ('o, 'x) target" where
  "wakes probe k = Probe (fst probe) (\<lambda>n. k (n - snd probe))"

definition fresh_addresses :: "(waker list \<Rightarrow> waker) \<Rightarrow> bool" where
  "fresh_addresses alloc \<longleftrightarrow> (\<forall>alive. alloc alive \<notin> set alive)"

definition waker_try_get :: "'a drops_state_scheme \<Rightarrow> (drop_probe, 'a drops_state_scheme) target" where
  "waker_try_get s = (if observations_of s = [] then Finish s
     else case last (observations_of s) of (k, e, h) \<Rightarrow>
       (let expected = is_completed k e s in ask (TryGet h) (\<lambda>r. case r of
          Value (Some value) \<Rightarrow>
            if expected
            then if tag value = encode e k then count_created (s\<lparr>drops_of := drops_of s @ [value]\<rparr>) else Fails
            else Fails
        | Value None \<Rightarrow> if \<not> expected then Finish s else Fails
        | _ \<Rightarrow> Fails)))"

definition waker_register :: "(waker list \<Rightarrow> waker) \<Rightarrow> waker_state \<Rightarrow> (drop_probe, waker_state) target" where
  "waker_register alloc s = (if observations_of s = [] then Finish s
     else case last (observations_of s) of (k, e, h) \<Rightarrow>
       (let is_pending = \<not> is_completed k e s in
        new_probe alloc (map (\<lambda>(_, _, x, _). x) (registered_wakers s)) (\<lambda>probe. ask (RegisterWaker h (fst probe)) (\<lambda>r. case r of
            Flag b \<Rightarrow>
              if (\<not> b) = is_pending
              then Finish (if is_pending then s\<lparr>registered_wakers := registered_wakers s @ [(k, e, probe)]\<rparr> else s)
              else Fails
          | _ \<Rightarrow> Fails))))"

definition waker_into_outcome :: "'a drops_state_scheme \<Rightarrow> (drop_probe, 'a drops_state_scheme) target" where
  "waker_into_outcome s = (case pop (observations_of s) of
       (None, _) \<Rightarrow> Finish s
     | (Some (k, e, h), rest) \<Rightarrow> (let s = s\<lparr>observations_of := rest\<rparr> in case subject_gone k e s of
           None \<Rightarrow> Fails
         | Some gone \<Rightarrow> (let done = is_completed k e s
             in ask (IntoOutcome h) (\<lambda>r. case r of
                Value res \<Rightarrow>
                  if gone \<and> done \<and> refs k e rest = 0
                  then (case res of
                      None \<Rightarrow> Fails
                    | Some value \<Rightarrow> if tag value = encode e k then Finish (s\<lparr>drops_of := drops_of s @ [value]\<rparr>) else Fails)
                  else if res = None then Finish s else Fails
              | _ \<Rightarrow> Fails))))"

definition waker_step :: "(waker list \<Rightarrow> waker) \<Rightarrow> u8 \<times> u8 \<Rightarrow> waker_state \<Rightarrow> (drop_probe, waker_state) target" where
  "waker_step alloc pair s = (let op = fst pair mod 8; key = snd pair mod WAKER_KEYS in
     if op = 0 then fuzz_register id key s
     else if op = 1 then promotion_complete key s
     else if op = 2 then fuzz_observe key s
     else if op = 3 then waker_try_get s
     else if op = 4 then fuzz_retire key s
     else if op = 5 then waker_register alloc s
     else if op = 6 then waker_into_outcome s
     else fuzz_drop s)"

definition check_wakers :: "waker_state \<Rightarrow> (drop_probe, waker_state) target" where
  "check_wakers s = each (\<lambda>(k, e, probe) s. wakes probe (\<lambda>n.
     if n = (if is_completed k e s then 1 else 0) then Finish s else Fails)) (registered_wakers s) s"

definition waker_target :: "(waker list \<Rightarrow> waker) \<Rightarrow> ((u8 \<rightharpoonup> handle) \<Rightarrow> u8 list) \<Rightarrow> u8 list \<Rightarrow>
    (waker_state \<times> (u8, drop_probe) world) option" where
  "waker_target alloc order data = counted (on_crate
     (chain (each (waker_step alloc) (take 256 (pairs data)) waker_new) (\<lambda>s. chain (check_wakers s) (teardown order))) space_new)"

subsection \<open>The same arms in other words\<close>

lemma waker_try_get_same: "waker_try_get s = promotion_try_get s"
  unfolding waker_try_get_def promotion_try_get_def Let_def
  by (intro if_cong refl prod.case_cong arg_cong2 [of _ _ _ _ ask] ext)
    (auto split: reply.split option.split prod.split)

lemma waker_into_outcome_same: "waker_into_outcome s = promotion_into_outcome s"
proof (cases "observations_of s" rule: rev_cases)
  case Nil
  then show ?thesis by (simp add: waker_into_outcome_def promotion_into_outcome_def pop_def)
next
  case (snoc rest x)
  obtain k e h where x: "x = (k, e, h)" by (cases x)
  have dn: "is_completed k e (s\<lparr>observations_of := rest\<rparr>) = is_completed k e s" by (simp add: is_completed_def)
  have popped: "pop (observations_of s) = (Some (k, e, h), rest)" using snoc x by (simp add: pop_def)
  show ?thesis
    unfolding waker_into_outcome_def promotion_into_outcome_def Let_def popped prod.case option.case dn
    by (intro option.case_cong refl arg_cong2 [of _ _ _ _ ask] ext) (auto split: reply.split option.split)
qed

subsection \<open>Every registered waker fires once\<close>

definition waiting_wakers :: "u8 \<Rightarrow> u64 \<Rightarrow> (u8 \<times> u64 \<times> waker \<times> nat) list \<Rightarrow> waiter list" where
  "waiting_wakers k e rs = map (\<lambda>(_, _, x, _). Waker x True 0) (filter (\<lambda>(k2, e2, _). k2 = k \<and> e2 = e) rs)"

definition waker_books :: "(u8, drop_probe) tracked \<Rightarrow> waker_state \<Rightarrow> (u8, drop_probe) spec \<Rightarrow> bool" where
  "waker_books v s a \<longleftrightarrow>
     (\<forall>k e x b. (k, e, x, b) \<in> set (registered_wakers s) \<longrightarrow> (k, e) \<in> known v \<and> b = 0) \<and>
     distinct (map (\<lambda>(_, _, x, _). x) (registered_wakers s)) \<and>
     (\<forall>k e. (k, e) \<in> known v \<longrightarrow>
        queue v (k, e) = (if is_completed k e s then [] else waiting_wakers k e (registered_wakers s))) \<and>
     (\<forall>x. count_list (events a) (Woken x) =
        (if \<exists>k e b. (k, e, x, b) \<in> set (registered_wakers s) \<and> is_completed k e s then 1 else 0))"

lemma waker_booksD:
  assumes "waker_books v s a"
  shows "(k, e, x, b) \<in> set (registered_wakers s) \<Longrightarrow> (k, e) \<in> known v \<and> b = 0"
    and "distinct (map (\<lambda>(_, _, x, _). x) (registered_wakers s))"
    and "(k, e) \<in> known v \<Longrightarrow> queue v (k, e) = (if is_completed k e s then [] else waiting_wakers k e (registered_wakers s))"
    and "count_list (events a) (Woken x) =
        (if \<exists>k e b. (k, e, x, b) \<in> set (registered_wakers s) \<and> is_completed k e s then 1 else 0)"
  using assms unfolding waker_books_def by blast+

lemma waker_books_same:
  assumes "waker_books v s a" and "registered_wakers s' = registered_wakers s" and "completed_pairs s' = completed_pairs s"
    and "events a' = events a"
  shows "waker_books v s' a'"
  using assms by (simp add: waker_books_def is_completed_def)

lemma waker_books_register:
  assumes w: "waker_books v s a" and r: "drops_results v s" and new: "(key, e) \<notin> known v"
    and s': "registered_wakers s' = registered_wakers s" "completed_pairs s' = completed_pairs s" "events a' = events a"
  shows "waker_books (begun (key, e) g v) s' a'"
proof -
  have c: "is_completed k e' s' = is_completed k e' s" for k e' by (simp add: is_completed_def s')
  have none: "\<not> is_completed key e s" using drops_resultsD(3) [OF r new] by (simp add: is_completed_def)
  have "waiting_wakers key e (registered_wakers s) = []"
    using waker_booksD(1) [OF w] new by (fastforce simp: waiting_wakers_def filter_empty_conv)
  with waker_booksD [OF w] none show ?thesis
    unfolding waker_books_def c s' by (auto split: if_splits)
qed

lemma count_list_distinct: "distinct xs \<Longrightarrow> count_list xs x = (if x \<in> set xs then 1 else 0)"
  by (induction xs) auto

lemma event_of_waiting: "map event_of (waiting_wakers k e rs) = map Woken (map (\<lambda>(_, _, x, _). x) (filter (\<lambda>(k2, e2, _). k2 = k \<and> e2 = e) rs))"
  by (auto simp: waiting_wakers_def)

lemma distinct_filter_map: "distinct (map f xs) \<Longrightarrow> distinct (map f (filter P xs))"
  by (induction xs) auto

lemma waker_books_complete:
  assumes w: "waker_books v s a" and ke: "(key, e) \<in> known v" and pending: "\<not> is_completed key e s"
    and s': "registered_wakers s' = registered_wakers s" "completed_pairs s' = (completed_pairs s)((key, e) \<mapsto> True)"
    and a': "events a' = events a @ map event_of (queue v (key, e))"
  shows "waker_books (v\<lparr>result := r, queue := (queue v)((key, e) := [])\<rparr>) s' a'"
proof -
  let ?rs = "registered_wakers s"
  have c: "is_completed k e' s' \<longleftrightarrow> is_completed k e' s \<or> (k, e') = (key, e)" for k e'
    by (cases "(k, e') = (key, e)") (simp add: is_completed_def s', auto simp: is_completed_def s')
  have q: "queue v (key, e) = waiting_wakers key e ?rs" using waker_booksD(3) [OF w ke] pending by simp
  have one: "count_list (map event_of (queue v (key, e))) (Woken x)
      = (if \<exists>b. (key, e, x, b) \<in> set ?rs then 1 else 0)" for x
  proof -
    let ?xs = "map (\<lambda>(_, _, x, _). x) (filter (\<lambda>(k2, e2, _). k2 = key \<and> e2 = e) ?rs)"
    have "distinct ?xs" by (rule distinct_filter_map [OF waker_booksD(2) [OF w]])
    then have "distinct (map Woken ?xs)" by (simp add: distinct_map inj_on_def)
    moreover have "Woken x \<in> set (map Woken ?xs) \<longleftrightarrow> (\<exists>b. (key, e, x, b) \<in> set ?rs)" by force
    ultimately show ?thesis unfolding q event_of_waiting by (simp add: count_list_distinct)
  qed
  have same: "(k, e') = (key, e)" if "(k, e', x, b) \<in> set ?rs" "(key, e, x, b') \<in> set ?rs" for k e' x b b'
    using waker_booksD(2) [OF w] that by (auto simp: distinct_map inj_on_def)
  have "count_list (events a') (Woken x) = (if \<exists>k e b. (k, e, x, b) \<in> set ?rs \<and> is_completed k e s' then 1 else 0)" for x
  proof (cases "\<exists>b. (key, e, x, b) \<in> set ?rs")
    case True
    then obtain b where b: "(key, e, x, b) \<in> set ?rs" by blast
    have "\<not> (\<exists>k e b. (k, e, x, b) \<in> set ?rs \<and> is_completed k e s)" using same [OF _ b] pending by blast
    moreover have "\<exists>k e b. (k, e, x, b) \<in> set ?rs \<and> is_completed k e s'" using b c by blast
    ultimately show ?thesis using waker_booksD(4) [OF w, of x] one [of x] True by (simp add: a')
  next
    case False
    then have "(\<exists>k e b. (k, e, x, b) \<in> set ?rs \<and> is_completed k e s') \<longleftrightarrow> (\<exists>k e b. (k, e, x, b) \<in> set ?rs \<and> is_completed k e s)"
      using c by auto
    with waker_booksD(4) [OF w, of x] one [of x] False show ?thesis by (simp add: a')
  qed
  moreover have "((queue v)((key, e) := [])) (k, e') = (if is_completed k e' s' then [] else waiting_wakers k e' ?rs)"
    if "(k, e') \<in> known v" for k e'
    using waker_booksD(3) [OF w that] c by auto
  ultimately show ?thesis using waker_booksD(1,2) [OF w] unfolding waker_books_def s' by simp
qed

lemma direct_registered_new: "x \<notin> set (wakers_of ws) \<Longrightarrow> direct_registered x ws = ws @ [Waker x True 0]"
proof -
  assume "x \<notin> set (wakers_of ws)"
  then have "mark_persistent x ws = None" by (induction x ws rule: mark_persistent.induct) auto
  then show ?thesis by (simp add: direct_registered_def)
qed

lemma wakers_of_waiting: "set (wakers_of (waiting_wakers k e rs)) \<subseteq> set (map (\<lambda>(_, _, x, _). x) rs)"
  unfolding waiting_wakers_def by (induction rs) auto

lemma waker_books_registered:
  assumes w: "waker_books v s a" and ke: "(k, e) \<in> known v" and x: "x \<notin> set (map (\<lambda>(_, _, x, _). x) (registered_wakers s))"
    and pending: "\<not> is_completed k e s" and same: "same_history a a'"
  shows "waker_books (v\<lparr>queue := (queue v)((k, e) := waiting_wakers k e (registered_wakers s) @ [Waker x True 0])\<rparr>)
    (s\<lparr>registered_wakers := registered_wakers s @ [(k, e, x, 0)]\<rparr>) a'" (is "waker_books ?v' ?s a'")
proof -
  let ?rs = "registered_wakers s"
  have c: "is_completed k e' ?s = is_completed k e' s" for k e' by (simp add: is_completed_def)
  have "waiting_wakers k' e' (registered_wakers ?s) = (if (k', e') = (k, e)
      then waiting_wakers k e ?rs @ [Waker x True 0] else waiting_wakers k' e' ?rs)" for k' e'
    by (auto simp: waiting_wakers_def)
  moreover have "count_list (events a') (Woken z) =
      (if \<exists>k e b. (k, e, z, b) \<in> set (registered_wakers ?s) \<and> is_completed k e ?s then 1 else 0)" for z
  proof -
    have "(\<exists>k e b. (k, e, z, b) \<in> set (registered_wakers ?s) \<and> is_completed k e s)
        \<longleftrightarrow> (\<exists>k e b. (k, e, z, b) \<in> set ?rs \<and> is_completed k e s)"
      using pending by auto
    with waker_booksD(4) [OF w, of z] show ?thesis unfolding c same_historyD(3) [OF same] by simp
  qed
  moreover have "(k', e') \<in> known ?v' \<and> b = 0" if "(k', e', z, b) \<in> set (registered_wakers ?s)" for k' e' z b
    using waker_booksD(1) [OF w, of k' e' z b] ke that by auto
  moreover have "distinct (map (\<lambda>(_, _, x, _). x) (registered_wakers ?s))"
    using waker_booksD(2) [OF w] x by simp
  ultimately show ?thesis
    using waker_booksD(3) [OF w] pending unfolding waker_books_def c by simp
qed

lemma waker_register_ok:
  assumes d: "drops_ok v n s a" and w: "waker_books v s a" and alloc: "fresh_addresses alloc"
  shows "\<exists>s' a'. on_contract (waker_register alloc s) a = Some (s', a') \<and> (\<exists>v. drops_ok v (Suc n) s' a' \<and> waker_books v s' a')"
proof (cases "observations_of s" rule: rev_cases)
  case Nil
  then show ?thesis using drops_later [OF d, of "Suc n"] w by (auto simp: waker_register_def)
next
  case (snoc rest y)
  obtain k e h where y: "y = (k, e, h)" by (cases y)
  note b = drops_okD(1) [OF d] and r = drops_okD(2) [OF d]
  have mem: "(k, e, h) \<in> set (observations_of s)" using snoc y by simp
  note ke = books_known(1) [OF b mem]
  let ?rs = "registered_wakers s"
  define x where "x = alloc (map (\<lambda>(_, _, x, _). x) ?rs)"
  have x: "x \<notin> set (map (\<lambda>(_, _, x, _). x) ?rs)" using alloc unfolding fresh_addresses_def x_def by blast
  let ?v = "if result v (k, e) \<noteq> None then v else v\<lparr>queue := (queue v)((k, e) := direct_registered x (queue v (k, e)))\<rparr>"
  obtain a' where a': "spec_exec (\<lambda>_. False) (RegisterWaker h x) a = Some (Ret (Flag (result v (k, e) \<noteq> None)), a')"
    "tracks ?v (live_of s) (observations_of s) [] n a'" "same_history a a'"
    by (rule tracks_register_waker [OF books_okD(1) [OF b] mem])
  have flag: "result v (k, e) \<noteq> None \<longleftrightarrow> is_completed k e s" using drops_resultsD(1) [OF r ke] by simp
  have "(k', e', x, b') \<notin> set ?rs" for k' e' b' using x by force
  then have fires: "spec_fires x a = 0" using waker_booksD(4) [OF w, of x] unfolding spec_fires_def by simp
  show ?thesis
  proof (cases "is_completed k e s")
    case True
    then have "on_contract (waker_register alloc s) a = Some (s, a')"
      using a'(1) snoc y flag by (simp add: waker_register_def new_probe_def Let_def x_def)
    moreover have "books_ok v n s a'" using a'(2) b True flag by (simp add: books_ok_def)
    then have "drops_ok v (Suc n) s a'" using drops_later [OF drops_moved [OF d _ a'(3)], of s "Suc n"] by simp
    moreover have "waker_books v s a'" by (rule waker_books_same [OF w]) (simp_all add: same_historyD [OF a'(3)])
    ultimately show ?thesis by blast
  next
    case False
    let ?s = "s\<lparr>registered_wakers := ?rs @ [(k, e, x, 0)]\<rparr>"
    have "x \<notin> set (wakers_of (queue v (k, e)))"
      using waker_booksD(3) [OF w ke] False wakers_of_waiting [of k e ?rs] x by auto
    then have q: "direct_registered x (queue v (k, e)) = waiting_wakers k e ?rs @ [Waker x True 0]"
      using waker_booksD(3) [OF w ke] False by (simp add: direct_registered_new)
    let ?v' = "v\<lparr>queue := (queue v)((k, e) := waiting_wakers k e ?rs @ [Waker x True 0])\<rparr>"
    have t: "tracks ?v' (live_of s) (observations_of s) [] n a'" using a'(2) flag False q by simp
    have "on_contract (waker_register alloc s) a = Some (?s, a')"
      using a'(1) snoc y flag False fires by (simp add: waker_register_def new_probe_def Let_def x_def)
    moreover have "books_ok ?v' n s a'" using t b by (simp add: books_ok_def)
    then have "books_ok ?v' n ?s a'" by (rule books_same) simp_all
    moreover have "drops_results ?v' ?s" using r by (simp add: drops_results_def is_completed_def)
    moreover have "drops_counted n ?s a'"
      using drops_okD(3) [OF d] by (simp add: drops_counted_def same_historyD [OF a'(3)])
    ultimately have "on_contract (waker_register alloc s) a = Some (?s, a')" and "drops_ok ?v' (Suc n) ?s a'"
      using drops_later [of ?v' n ?s a' "Suc n"] by (simp_all add: drops_ok_def)
    moreover have "waker_books ?v' ?s a'" by (rule waker_books_registered [OF w ke x False a'(3)])
    ultimately show ?thesis by blast
  qed
qed

lemma more_wakers: "drops_state.more s' = drops_state.more s \<Longrightarrow> registered_wakers s' = registered_wakers (s :: waker_state)"
  by (cases s; cases s') simp

definition waker_inv :: "nat \<Rightarrow> waker_state \<Rightarrow> (u8, drop_probe) spec \<Rightarrow> bool" where
  "waker_inv n s a \<longleftrightarrow> (\<exists>v. drops_ok v n s a \<and> waker_books v s a)"

lemma waker_quiet:
  assumes w: "waker_books v s a" and q: "quiet_arm v n s a m"
  shows "\<exists>s' a'. on_contract m a = Some (s', a') \<and> waker_inv (Suc n) s' a'"
proof -
  obtain s' a' where s': "on_contract m a = Some (s', a')" "drops_ok v (Suc n) s' a'"
    "completed_pairs s' = completed_pairs s" "drops_state.more s' = drops_state.more s" "events a' = events a"
    using q unfolding quiet_arm_def by blast
  have "waker_books v s' a'" by (rule waker_books_same [OF w more_wakers [OF s'(4)] s'(3,5)])
  with s' show ?thesis unfolding waker_inv_def by blast
qed

lemma waker_step_ok:
  assumes i: "waker_inv n s a" and n: "n + 2 < 2 ^ 64" and alloc: "fresh_addresses alloc"
  shows "\<exists>s' a'. on_contract (waker_step alloc pair s) a = Some (s', a') \<and> waker_inv (Suc n) s' a'"
proof -
  obtain v where d: "drops_ok v n s a" and w: "waker_books v s a" using i unfolding waker_inv_def by blast
  have stay: "waker_inv (Suc n) s a" using drops_later [OF d, of "Suc n"] w unfolding waker_inv_def by auto
  have register: "\<exists>s' a'. on_contract (fuzz_register id key s) a = Some (s', a') \<and> waker_inv (Suc n) s' a'" for key
  proof (rule drops_register_ok [OF d n, of key])
    fix e s' a' assume c: "on_contract (fuzz_register id key s) a = Some (s', a')" and new: "(key, e) \<notin> known v"
      and d': "drops_ok (begun (key, e) (generations a) v) (Suc n) s' a'" and h: "same_history a a'"
      and cp: "completed_pairs s' = completed_pairs s"
      and s': "\<exists>h. s' = s\<lparr>epochs_of := (epochs_of s)(key \<mapsto> e), subjects_of := (subjects_of s)(key \<mapsto> h)\<rparr>"
    have "registered_wakers s' = registered_wakers s" using s' by auto
    from waker_books_register [OF w drops_okD(2) [OF d] new this cp same_historyD(3) [OF h]] c d'
    show ?thesis unfolding waker_inv_def by blast
  qed (use stay in blast)
  have complete: "\<exists>s' a'. on_contract (promotion_complete key s) a = Some (s', a') \<and> waker_inv (Suc n) s' a'" for key
  proof (rule drops_complete_ok [OF d n, of key])
    fix e s' a' assume c: "on_contract (promotion_complete key s) a = Some (s', a')" and ke: "(key, e) \<in> known v"
      and pending: "\<not> is_completed key e s" and cp: "completed_pairs s' = (completed_pairs s)((key, e) \<mapsto> True)"
      and s': "\<exists>c. s' = s\<lparr>completed_pairs := (completed_pairs s)((key, e) \<mapsto> True), created_of := c\<rparr>"
      and d': "drops_ok (v\<lparr>result := (result v)((key, e) \<mapsto> with_counter (encode e key) 0), queue := (queue v)((key, e) := [])\<rparr>) (Suc n) s' a'"
      and ev: "events a' = events a @ map event_of (queue v (key, e))"
    have "registered_wakers s' = registered_wakers s" using s' by auto
    from waker_books_complete [OF w ke pending this cp ev] c d' show ?thesis unfolding waker_inv_def by blast
  qed (use stay in blast)
  note arms = drops_observe_ok [OF d] drops_retire_ok [OF d] drops_drop_ok [OF d] drops_try_get_ok [OF d n]
    drops_into_outcome_ok [OF d]
  show ?thesis
    using register complete arms [THEN waker_quiet [OF w]] waker_register_ok [OF d w alloc, folded waker_inv_def]
    by (simp add: waker_step_def waker_try_get_same waker_into_outcome_same Let_def)
qed

lemma check_wakers_ok:
  assumes w: "waker_books v s a"
  shows "on_contract (check_wakers s) a = Some (s, a)"
proof -
  have "on_contract (each (\<lambda>(k, e, probe) s. wakes probe (\<lambda>n.
     if n = (if is_completed k e s then 1 else 0) then Finish s else Fails)) rs s) a = Some (s, a)"
    if "set rs \<subseteq> set (registered_wakers s)" for rs
    using that
  proof (induction rs)
    case (Cons p rs)
    obtain k e x b where p: "p = (k, e, x, b)" by (cases p) auto
    have mem: "(k, e, x, b) \<in> set (registered_wakers s)" using Cons.prems p by simp
    have same: "(k', e') = (k, e)" if "(k', e', x, b') \<in> set (registered_wakers s)" for k' e' b'
      using waker_booksD(2) [OF w] that mem by (auto simp: distinct_map inj_on_def)
    then have "(\<exists>k e b. (k, e, x, b) \<in> set (registered_wakers s) \<and> is_completed k e s) \<longleftrightarrow> is_completed k e s"
      using mem by blast
    then have "spec_fires x a = (if is_completed k e s then 1 else 0)"
      using waker_booksD(4) [OF w, of x] unfolding spec_fires_def by simp
    with Cons p waker_booksD(1) [OF w mem] show ?case by (simp add: interp_chain wakes_def)
  qed simp
  then show ?thesis by (simp add: check_wakers_def)
qed

text \<open>
  C33: the fuzz target \<open>waker_ops\<close> has no crash artifact.  For every input, a registration reports
  whether its generation is completed, every registered waker has fired exactly once if its
  generation completed and never otherwise, also when its slot was recycled, and every value has
  been dropped exactly once.  The allocator is assumed to give a new probe an address that no live
  probe has.
\<close>

theorem waker_target_never_crashes:
  assumes "visits_each_once order" and "fresh_addresses alloc"
  shows "\<exists>s w. waker_target alloc order data = Some (s, w) \<and> all_freed w"
proof -
  let ?loop = "each (waker_step alloc) (take 256 (pairs data)) waker_new"
  let ?closing = "\<lambda>s. chain (check_wakers s) (teardown order)"
  have start: "waker_inv 0 waker_new spec_new"
    using nothing_tracked_drops [of waker_new]
    by (auto simp: waker_inv_def waker_new_def waker_books_def nothing_tracked_def spec_new_def intro!: exI [of _ nothing_tracked])
  have step: "\<exists>s' a'. on_contract (waker_step alloc p s) a = Some (s', a') \<and> waker_inv (Suc n) s' a'"
    if "waker_inv n s a" "n < 256" for n p s a
    by (rule waker_step_ok [OF that(1) _ assms(2)]) (use that(2) in simp)
  obtain s a n where loop: "on_contract ?loop spec_new = Some (s, a)" "waker_inv n s a"
    using interp_each [where I = waker_inv and N = 256 and step = "waker_step alloc" and
      bs = "take 256 (pairs data)", OF step start] by auto
  then obtain v where v: "drops_ok v n s a" "waker_books v s a" unfolding waker_inv_def by blast
  from teardown_ok [OF drops_okD(1) [OF v(1)] assms(1)] obtain a' where
    t: "on_contract (teardown order s) a = Some (s, a')" "nothing_owned a'" "same_history a a'" by blast
  from loop(1) t check_wakers_ok [OF v(2)] have "on_contract (chain ?loop ?closing) spec_new = Some (s, a')"
    by (simp add: interp_chain)
  from crate_freed [OF this t(2)] obtain w where w: "on_crate (chain ?loop ?closing) space_new = Some (s, w)"
    "all_freed w" "created w = published a'" "moved w = taken a'" "mset (created w) = mset (dropped w) + mset (moved w)" .
  have "drops_counted n s a'" using drops_okD(3) [OF v(1)] same_historyD [OF t(3)] by (simp add: drops_counted_def)
  from all_counted [OF this w(3-5)] w(1,2) show ?thesis by (simp add: waker_target_def counted_def)
qed

definition next_address :: "waker list \<Rightarrow> waker" where
  "next_address alive = \<lparr>wdata = Suc (sum_list (map wdata alive)), wvtable = 0\<rparr>"

lemma next_address_fresh: "fresh_addresses next_address"
proof -
  have "wdata x < Suc (sum_list (map wdata alive))" if "x \<in> set alive" for x alive
    using member_le_sum_list [of "wdata x" "map wdata alive"] that by simp
  then show ?thesis by (fastforce simp: fresh_addresses_def next_address_def)
qed

theorem waker_target_never_crashes_witness:
  "\<exists>s w. waker_target next_address keys_in_order [0, 1, 2, 1, 5, 1, 1, 1, 5, 1, 4, 1, 6, 0] = Some (s, w) \<and> all_freed w"
  by (rule waker_target_never_crashes [OF every_key_once next_address_fresh])

end
