(* ===== verification/Fuzz_Future.thy ===== *)
theory Fuzz_Future
  imports Fuzz_Waker
begin

section \<open>The fuzz target \<open>future_ops\<close>\<close>

text \<open>
  \<open>fuzz_targets/future_ops.rs\<close>: two keys, futures, polls with a new waker each, and cancellation.
  The keys index arrays; the epoch of a key is 0 before its first registration.  The probes are
  those of \<open>waker_ops\<close>.
\<close>

record fut =
  future_of :: handle
  fut_key :: u8
  fut_epoch :: u64
  fut_wakers :: "(waker \<times> nat) list"
  fut_cancelled :: bool

record future_state =
  subject_list :: "handle option list"
  completed_flags :: "bool list"
  epoch_counts :: "u64 list"
  futures_of :: "fut list"
  retired_flags :: "u8 \<times> u64 \<rightharpoonup> bool"
  cancelled_probes :: "((waker \<times> nat) \<times> nat) list"

definition FUTURE_KEYS :: u8 where "FUTURE_KEYS = 2"

definition future_new :: future_state where
  "future_new = \<lparr>subject_list = [None, None], completed_flags = [False, False], epoch_counts = [0, 0],
     futures_of = [], retired_flags = Map.empty, cancelled_probes = []\<rparr>"

text \<open>An index expression: it panics outside the array.\<close>

definition at :: "'b list \<Rightarrow> nat \<Rightarrow> ('b \<Rightarrow> ('o, 'x) target) \<Rightarrow> ('o, 'x) target" where
  "at xs i k = (if i < length xs then k (xs ! i) else Fails)"

definition future_register :: "u8 \<Rightarrow> future_state \<Rightarrow> (u64, future_state) target" where
  "future_register key s = (let k = unat key in ask (MakeSubject key) (\<lambda>r. case r of
       NewHandle h \<Rightarrow> at (epoch_counts s) k (\<lambda>e. case checked_inc e of
           None \<Rightarrow> Fails
         | Some e' \<Rightarrow> at (completed_flags s) k (\<lambda>_. at (subject_list s) k (\<lambda>old.
             let s' = s\<lparr>epoch_counts := (epoch_counts s)[k := e'], completed_flags := (completed_flags s)[k := False],
                  subject_list := (subject_list s)[k := Some h]\<rparr> in
             case old of None \<Rightarrow> Finish s' | Some h' \<Rightarrow> ask (DropSubject h') (\<lambda>_. Finish s'))))
     | SubjectExists _ \<Rightarrow> Finish s
     | _ \<Rightarrow> Fails))"

text \<open>After a completion: every waker of a live future of the generation has fired once.\<close>

definition check_fired :: "u8 \<Rightarrow> u64 \<Rightarrow> fut list \<Rightarrow> 'x \<Rightarrow> (u64, 'x) target" where
  "check_fired key e = each (\<lambda>f s.
     if fut_key f = key \<and> fut_epoch f = e \<and> \<not> fut_cancelled f
     then each (\<lambda>probe s. wakes probe (\<lambda>n. if n = 1 then Finish s else Fails)) (fut_wakers f) s
     else Finish s)"

definition future_complete :: "u8 \<Rightarrow> future_state \<Rightarrow> (u64, future_state) target" where
  "future_complete key s = (let k = unat key in at (subject_list s) k (\<lambda>subject. case subject of
       None \<Rightarrow> Finish s
     | Some h \<Rightarrow> at (completed_flags s) k (\<lambda>c.
         if c then Finish s
         else at (epoch_counts s) k (\<lambda>e. ask (Complete h (push_bit 8 e OR ucast key)) (\<lambda>_.
           check_fired key e (futures_of s) (s\<lparr>completed_flags := (completed_flags s)[k := True]\<rparr>))))))"

definition future_observe :: "u8 \<Rightarrow> future_state \<Rightarrow> (u64, future_state) target" where
  "future_observe key s = ask (Observe key) (\<lambda>r. case r of
       NewHandle h \<Rightarrow> ask (IntoFuture h) (\<lambda>r. case r of
           NewHandle h' \<Rightarrow> at (epoch_counts s) (unat key) (\<lambda>e.
             Finish (s\<lparr>futures_of := futures_of s @ [\<lparr>future_of = h', fut_key = key, fut_epoch = e, fut_wakers = [], fut_cancelled = False\<rparr>]\<rparr>))
         | _ \<Rightarrow> Fails)
     | UnknownSubject _ \<Rightarrow> Finish s
     | _ \<Rightarrow> Fails)"

text \<open>The probes that are alive: those of the futures and of the cancelled ones.\<close>

definition alive_probes :: "future_state \<Rightarrow> waker list" where
  "alive_probes s = concat (map (\<lambda>f. map fst (fut_wakers f)) (futures_of s)) @ map (\<lambda>(p, _). fst p) (cancelled_probes s)"

definition future_poll_last :: "(waker list \<Rightarrow> waker) \<Rightarrow> future_state \<Rightarrow> (u64, future_state) target" where
  "future_poll_last alloc s = (if futures_of s = [] then Finish s
     else let f = last (futures_of s) in
       if fut_cancelled f then Finish s
       else new_probe alloc (alive_probes s) (\<lambda>probe. let k2 = unat (fut_key f) in
         at (epoch_counts s) k2 (\<lambda>e. at (completed_flags s) k2 (\<lambda>c.
           let expected = (if e = fut_epoch f then c else retired_flags s (fut_key f, fut_epoch f) = Some True) in
           ask (Poll (future_of f) (fst probe)) (\<lambda>r. case r of
               Polled (Ready _) \<Rightarrow> if expected then Finish s else Fails
             | Polled Pending \<Rightarrow>
                 if \<not> expected
                 then Finish (s\<lparr>futures_of := butlast (futures_of s) @ [f\<lparr>fut_wakers := fut_wakers f @ [probe]\<rparr>]\<rparr>)
                 else Fails
             | _ \<Rightarrow> Fails)))))"

definition future_retire :: "u8 \<Rightarrow> future_state \<Rightarrow> (u64, future_state) target" where
  "future_retire key s = (let k = unat key in at (subject_list s) k (\<lambda>subject. case subject of
       None \<Rightarrow> Finish s
     | Some h \<Rightarrow> at (epoch_counts s) k (\<lambda>e. at (completed_flags s) k (\<lambda>c.
         ask (DropSubject h) (\<lambda>_. Finish (s\<lparr>subject_list := (subject_list s)[k := None],
           retired_flags := (retired_flags s)((key, e) \<mapsto> c)\<rparr>))))))"

definition future_cancel :: "future_state \<Rightarrow> (u64, future_state) target" where
  "future_cancel s = (case pop (futures_of s) of
       (None, _) \<Rightarrow> Finish s
     | (Some f, rest) \<Rightarrow>
         chain (each (\<lambda>probe s. wakes probe (\<lambda>n. Finish (s\<lparr>cancelled_probes := cancelled_probes s @ [(probe, n)]\<rparr>)))
           (fut_wakers f) (s\<lparr>futures_of := rest\<rparr>)) (\<lambda>s.
         ask (DropFuture (future_of f)) (\<lambda>_. Finish s)))"

definition future_step :: "(waker list \<Rightarrow> waker) \<Rightarrow> u8 \<times> u8 \<Rightarrow> future_state \<Rightarrow> (u64, future_state) target" where
  "future_step alloc pair s = (let op = fst pair mod 6; key = snd pair mod FUTURE_KEYS in
     if op = 0 then future_register key s
     else if op = 1 then future_complete key s
     else if op = 2 then future_observe key s
     else if op = 3 then future_poll_last alloc s
     else if op = 4 then future_retire key s
     else future_cancel s)"

definition check_cancelled :: "future_state \<Rightarrow> (u64, future_state) target" where
  "check_cancelled s = each (\<lambda>(probe, at_cancel) s. wakes probe (\<lambda>n. if n = at_cancel then Finish s else Fails))
     (cancelled_probes s) s"

text \<open>The end of the target drops the futures, the subjects and the space.\<close>

definition future_teardown :: "future_state \<Rightarrow> (u64, future_state) target" where
  "future_teardown s =
     chain (each (\<lambda>f s. ask (DropFuture (future_of f)) (\<lambda>_. Finish s)) (futures_of s) s) (\<lambda>s.
     chain (each (\<lambda>subject s. case subject of None \<Rightarrow> Finish s | Some h \<Rightarrow> ask (DropSubject h) (\<lambda>_. Finish s)) (subject_list s) s) (\<lambda>s.
     ask (DropSpace 0) (\<lambda>_. Finish s)))"

definition future_target :: "(waker list \<Rightarrow> waker) \<Rightarrow> u8 list \<Rightarrow> (u64, future_state) target" where
  "future_target alloc data = chain (each (future_step alloc) (take 128 (pairs data)) future_new)
     (\<lambda>s. chain (check_cancelled s) future_teardown)"

subsection \<open>The books\<close>

definition live_key :: "future_state \<Rightarrow> u8 \<rightharpoonup> handle \<times> u64" where
  "live_key s k = (if unat k < 2 then map_option (\<lambda>h. (h, epoch_counts s ! unat k)) (subject_list s ! unat k) else None)"

definition awaited_of :: "fut \<Rightarrow> u8 awaited" where
  "awaited_of f = (fut_key f, fut_epoch f, future_of f, map fst (fut_wakers f))"

definition completed_pair :: "u8 \<Rightarrow> u64 \<Rightarrow> future_state \<Rightarrow> bool" where
  "completed_pair k e s = (if epoch_counts s ! unat k = e then completed_flags s ! unat k else retired_flags s (k, e) = Some True)"

definition wakers_for :: "u8 \<Rightarrow> u64 \<Rightarrow> fut list \<Rightarrow> waker list" where
  "wakers_for k e fs = concat (map (\<lambda>f. map fst (fut_wakers f)) (filter (\<lambda>f. fut_key f = k \<and> fut_epoch f = e) fs))"

definition arrays_ok :: "nat \<Rightarrow> future_state \<Rightarrow> bool" where
  "arrays_ok n s \<longleftrightarrow> length (subject_list s) = 2 \<and> length (completed_flags s) = 2 \<and> length (epoch_counts s) = 2 \<and>
     (\<forall>i<2. unat (epoch_counts s ! i) \<le> n) \<and>
     (\<forall>k. unat k < 2 \<longrightarrow> (if subject_list s ! unat k = None
        then epoch_counts s ! unat k = 0 \<or> retired_flags s (k, epoch_counts s ! unat k) = Some (completed_flags s ! unat k)
        else epoch_counts s ! unat k \<noteq> 0))"

definition generations_known :: "(u8, u64) tracked \<Rightarrow> future_state \<Rightarrow> bool" where
  "generations_known v s \<longleftrightarrow> known v = {(k, e). unat k < 2 \<and> e \<noteq> 0 \<and> e \<le> epoch_counts s ! unat k} \<and>
     (\<forall>k e. (k, e) \<in> known v \<longrightarrow> (result v (k, e) \<noteq> None \<longleftrightarrow> completed_pair k e s) \<and>
        queue v (k, e) = (if completed_pair k e s then [] else map (\<lambda>x. Waker x False 1) (wakers_for k e (futures_of s))))"

definition fires_ok :: "future_state \<Rightarrow> (u8, u64) spec \<Rightarrow> bool" where
  "fires_ok s a \<longleftrightarrow> distinct (alive_probes s) \<and> (\<forall>x. x \<notin> set (alive_probes s) \<longrightarrow> spec_fires x a = 0) \<and>
     (\<forall>f\<in>set (futures_of s). \<not> fut_cancelled f \<and>
        (\<forall>(x, b)\<in>set (fut_wakers f). b = 0 \<and> spec_fires x a = (if completed_pair (fut_key f) (fut_epoch f) s then 1 else 0))) \<and>
     (\<forall>((x, b), c)\<in>set (cancelled_probes s). b = 0 \<and> spec_fires x a = c)"

definition futures_ok :: "(u8, u64) tracked \<Rightarrow> nat \<Rightarrow> future_state \<Rightarrow> (u8, u64) spec \<Rightarrow> bool" where
  "futures_ok v n s a \<longleftrightarrow> tracks v (live_key s) [] (map awaited_of (futures_of s)) n a \<and> arrays_ok n s \<and>
     generations_known v s \<and> fires_ok s a"

lemma futures_okD:
  assumes "futures_ok v n s a"
  shows "tracks v (live_key s) [] (map awaited_of (futures_of s)) n a" "arrays_ok n s" "generations_known v s" "fires_ok s a"
  using assms by (simp_all add: futures_ok_def)

lemma arrays_okD:
  assumes "arrays_ok n s"
  shows "length (subject_list s) = 2" "length (completed_flags s) = 2" "length (epoch_counts s) = 2"
    "i < 2 \<Longrightarrow> unat (epoch_counts s ! i) \<le> n"
    "unat k < 2 \<Longrightarrow> subject_list s ! unat k = None \<Longrightarrow> epoch_counts s ! unat k = 0 \<or>
       retired_flags s (k, epoch_counts s ! unat k) = Some (completed_flags s ! unat k)"
    "unat k < 2 \<Longrightarrow> subject_list s ! unat k = Some h \<Longrightarrow> epoch_counts s ! unat k \<noteq> 0"
  using assms by (auto simp: arrays_ok_def)

lemma generations_knownD:
  assumes "generations_known v s"
  shows "(k, e) \<in> known v \<longleftrightarrow> unat k < 2 \<and> e \<noteq> 0 \<and> e \<le> epoch_counts s ! unat k"
    and "(k, e) \<in> known v \<Longrightarrow> result v (k, e) \<noteq> None \<longleftrightarrow> completed_pair k e s"
    and "(k, e) \<in> known v \<Longrightarrow> queue v (k, e) =
      (if completed_pair k e s then [] else map (\<lambda>x. Waker x False 1) (wakers_for k e (futures_of s)))"
  using assms unfolding generations_known_def by auto

lemma fires_okD:
  assumes "fires_ok s a"
  shows "distinct (alive_probes s)" "x \<notin> set (alive_probes s) \<Longrightarrow> spec_fires x a = 0"
    "f \<in> set (futures_of s) \<Longrightarrow> \<not> fut_cancelled f"
    "f \<in> set (futures_of s) \<Longrightarrow> (x, b) \<in> set (fut_wakers f) \<Longrightarrow>
       b = 0 \<and> spec_fires x a = (if completed_pair (fut_key f) (fut_epoch f) s then 1 else 0)"
    "((x, b), c) \<in> set (cancelled_probes s) \<Longrightarrow> b = 0 \<and> spec_fires x a = c"
  using assms unfolding fires_ok_def by blast+

lemma fires_okI:
  assumes "distinct (alive_probes s)" and "\<And>x. x \<notin> set (alive_probes s) \<Longrightarrow> spec_fires x a = 0"
    and "\<And>f. f \<in> set (futures_of s) \<Longrightarrow> \<not> fut_cancelled f"
    and "\<And>f x b. f \<in> set (futures_of s) \<Longrightarrow> (x, b) \<in> set (fut_wakers f) \<Longrightarrow>
       b = 0 \<and> spec_fires x a = (if completed_pair (fut_key f) (fut_epoch f) s then 1 else 0)"
    and "\<And>x b c. ((x, b), c) \<in> set (cancelled_probes s) \<Longrightarrow> b = 0 \<and> spec_fires x a = c"
  shows "fires_ok s a"
  unfolding fires_ok_def
proof (intro conjI ballI allI impI)
  fix f p assume "f \<in> set (futures_of s)" "p \<in> set (fut_wakers f)"
  then show "case p of (x, b) \<Rightarrow> b = 0 \<and> spec_fires x a = (if completed_pair (fut_key f) (fut_epoch f) s then 1 else 0)"
    using assms(4) by (cases p) simp
next
  fix p assume p: "p \<in> set (cancelled_probes s)"
  obtain x b c where "p = ((x, b), c)" by (metis surj_pair)
  with p show "case p of (x, c) \<Rightarrow> (case x of (x, b) \<Rightarrow> \<lambda>c. b = 0 \<and> spec_fires x a = c) c"
    using assms(5) by simp
qed (use assms(1-3) in blast)+

lemma futures_later: "futures_ok v n s a \<Longrightarrow> n \<le> m \<Longrightarrow> futures_ok v m s a"
  unfolding futures_ok_def arrays_ok_def using tracks_later order_trans by fast

lemma key_small: "unat (c mod FUTURE_KEYS) < 2"
  by (simp add: FUTURE_KEYS_def unat_mod_distrib)

lemma at_small [simp]: "i < length xs \<Longrightarrow> at xs i k = k (xs ! i)"
  by (simp add: at_def)

lemma fires_ok_same:
  assumes f: "fires_ok s a" and s': "futures_of s' = futures_of s" "cancelled_probes s' = cancelled_probes s" "events a' = events a"
    and c: "\<And>f. f \<in> set (futures_of s) \<Longrightarrow> completed_pair (fut_key f) (fut_epoch f) s' = completed_pair (fut_key f) (fut_epoch f) s"
  shows "fires_ok s' a'"
proof -
  have a: "alive_probes s' = alive_probes s" by (simp add: alive_probes_def s')
  have e: "spec_fires x a' = spec_fires x a" for x by (simp add: spec_fires_def s')
  show ?thesis
    by (rule fires_okI; unfold a e s') (rule fires_okD [OF f]; assumption | simp add: c fires_okD(4) [OF f])+
qed

lemma future_known:
  assumes "futures_ok v n s a" and "f \<in> set (futures_of s)"
  shows "(fut_key f, fut_epoch f) \<in> known v"
proof (rule known_okD(4) [OF tracksD(5) [OF futures_okD(1) [OF assms(1)]]])
  show "(fut_key f, fut_epoch f, future_of f, map fst (fut_wakers f)) \<in> set (map awaited_of (futures_of s))"
    using assms(2) by (auto simp: awaited_of_def)
qed

lemma unat_other: "k \<noteq> k' \<Longrightarrow> unat k \<noteq> unat (k' :: u8)"
  by (simp add: word_unat_eq_iff)

lemma live_key_small: "unat k < 2 \<Longrightarrow> live_key s k = map_option (\<lambda>h. (h, epoch_counts s ! unat k)) (subject_list s ! unat k)"
  by (simp add: live_key_def)

abbreviation registered_state :: "u8 \<Rightarrow> handle \<Rightarrow> future_state \<Rightarrow> future_state" where
  "registered_state key h s \<equiv> s\<lparr>epoch_counts := (epoch_counts s)[unat key := epoch_counts s ! unat key + 1],
     completed_flags := (completed_flags s)[unat key := False], subject_list := (subject_list s)[unat key := Some h]\<rparr>"

text \<open>The arrays after a registration, and the generations known before it.\<close>

lemma arrays_ok_registered:
  assumes arr: "arrays_ok n s" and k: "unat key < 2" and u: "unat (epoch_counts s ! unat key + 1) = unat (epoch_counts s ! unat key) + 1"
  shows "arrays_ok (Suc n) (registered_state key h s)" (is "arrays_ok (Suc n) ?s")
  unfolding arrays_ok_def
proof (intro conjI allI impI)
  note arr = arrays_okD [OF arr]
  have nz: "epoch_counts s ! unat key + 1 \<noteq> 0" using u by (auto simp: word_unat_eq_iff)
  fix i :: nat assume "i < 2"
  then show "unat (epoch_counts ?s ! i) \<le> Suc n"
    using arr(3) arr(4) [of i] arr(4) [OF k] u by (cases "i = unat key") simp_all
next
  note arr = arrays_okD [OF arr]
  have nz: "epoch_counts s ! unat key + 1 \<noteq> 0" using u by (auto simp: word_unat_eq_iff)
  fix k' :: u8 assume "unat k' < 2"
  then show "if subject_list ?s ! unat k' = None
      then epoch_counts ?s ! unat k' = 0 \<or> retired_flags ?s (k', epoch_counts ?s ! unat k') = Some (completed_flags ?s ! unat k')
      else epoch_counts ?s ! unat k' \<noteq> 0"
    using arr(1-3) arr(5,6) [of k'] nz unat_other [of k' key] by (cases "k' = key") auto
qed (simp_all add: arrays_okD [OF arr])

lemma completed_pair_registered:
  assumes arr: "arrays_ok n s" and k: "unat key < 2" and free: "subject_list s ! unat key = None"
    and e': "e' \<noteq> 0" "e' \<le> epoch_counts s ! unat k'"
    and u: "unat (epoch_counts s ! unat key + 1) = unat (epoch_counts s ! unat key) + 1"
  shows "completed_pair k' e' (registered_state key h s) = completed_pair k' e' s"
proof (cases "k' = key")
  case False
  note arr = arrays_okD [OF arr]
  from False show ?thesis using arr(2,3) unat_other [OF False] by (simp add: completed_pair_def)
next
  case True
  note arr = arrays_okD [OF arr]
  have "e' \<noteq> epoch_counts s ! unat key + 1" using e'(2) u True by (auto simp: word_le_nat_alt)
  moreover have "retired_flags s (key, epoch_counts s ! unat key) = Some (completed_flags s ! unat key)"
    if "e' = epoch_counts s ! unat key"
    using arr(5) [OF k free] e'(1) that by simp
  ultimately show ?thesis using True k arr(2,3) by (auto simp: completed_pair_def)
qed

lemma generations_known_registered:
  assumes f: "futures_ok v n s a" and k: "unat key < 2" and free: "subject_list s ! unat key = None"
    and u: "unat (epoch_counts s ! unat key + 1) = unat (epoch_counts s ! unat key) + 1"
    and new: "(key, epoch_counts s ! unat key + 1) \<notin> known v"
  shows "generations_known (begun (key, epoch_counts s ! unat key + 1) g v) (registered_state key h s)" (is "generations_known ?v ?s")
  unfolding generations_known_def
proof (intro conjI allI impI)
  note arr = arrays_okD [OF futures_okD(2) [OF f]] and g = generations_knownD [OF futures_okD(3) [OF f]]
  define e where "e = epoch_counts s ! unat key"
  have le: "e' \<le> e + 1 \<longleftrightarrow> e' = e + 1 \<or> e' \<le> e" for e'
    using u by (auto simp: e_def word_le_nat_alt word_unat_eq_iff le_Suc_eq)
  have nz: "e + 1 \<noteq> 0" using u by (auto simp: e_def word_unat_eq_iff)
  show "known ?v = {(k, e). unat k < 2 \<and> e \<noteq> 0 \<and> e \<le> epoch_counts ?s ! unat k}"
  proof (intro set_eqI)
    fix p :: "u8 \<times> u64" obtain k' e' where p: "p = (k', e')" by (cases p)
    show "p \<in> known ?v \<longleftrightarrow> p \<in> {(k, e). unat k < 2 \<and> e \<noteq> 0 \<and> e \<le> epoch_counts ?s ! unat k}"
      using g(1) [of k' e'] le [of e'] nz k arr(3) unat_other [of k' key] by (cases "k' = key") (auto simp: p e_def)
  qed
  have c: "completed_pair k' e' ?s = completed_pair k' e' s" if "(k', e') \<in> known v" for k' e'
    by (rule completed_pair_registered [OF futures_okD(2) [OF f] k free _ _ u]) (use that g(1) [of k' e'] in auto)
  have np: "\<not> completed_pair key (e + 1) ?s" using k arr(2,3) by (simp add: completed_pair_def e_def)
  have nw: "wakers_for key (e + 1) (futures_of s) = []"
    using future_known [OF f] new by (force simp: wakers_for_def filter_empty_conv e_def)
  fix k' e' assume ke: "(k', e') \<in> known ?v"
  show "result ?v (k', e') \<noteq> None \<longleftrightarrow> completed_pair k' e' ?s"
    using ke g(2) [of k' e'] c [of k' e'] np by (cases "(k', e') = (key, e + 1)") (auto simp: e_def)
  show "queue ?v (k', e') = (if completed_pair k' e' ?s then [] else map (\<lambda>x. Waker x False 1) (wakers_for k' e' (futures_of ?s)))"
    using ke g(3) [of k' e'] c [of k' e'] nw by (cases "(k', e') = (key, e + 1)") (auto simp: e_def completed_pair_def arr k)
qed

lemma future_register_ok:
  assumes f: "futures_ok v n s a" and k: "unat key < 2" and n: "n + 2 < 2 ^ 64"
  shows "\<exists>s' a'. on_contract (future_register key s) a = Some (s', a') \<and> (\<exists>v. futures_ok v (Suc n) s' a')"
proof (cases "subject_list s ! unat key")
  case (Some h)
  then have "live_key s key = Some (h, epoch_counts s ! unat key)" by (simp add: live_key_small [OF k])
  from tracks_register_live [OF futures_okD(1) [OF f] this, of "\<lambda>_. False"] futures_later [OF f, of "Suc n"]
  show ?thesis by (auto simp: future_register_def Let_def)
next
  case None
  note t = futures_okD(1) [OF f] and arr = arrays_okD [OF futures_okD(2) [OF f]] and g = generations_knownD [OF futures_okD(3) [OF f]]
  define e where "e = epoch_counts s ! unat key"
  have inc: "checked_inc e = Some (e + 1)"
    using arr(4) [OF k] n by (intro checked_inc_small) (simp add: e_def)
  note u = checked_inc_Some [OF inc]
  have new: "(key, e + 1) \<notin> known v" using u by (simp add: g(1) e_def word_le_nat_alt)
  have live: "live_key s key = None" by (simp add: live_key_small [OF k] None)
  obtain a' where a': "spec_exec (\<lambda>_. False) (MakeSubject key) a = Some (Ret (NewHandle (names a)), a')"
    "tracks (begun (key, e + 1) (generations a) v) ((live_key s)(key \<mapsto> (names a, e + 1))) [] (map awaited_of (futures_of s)) (Suc n) a'"
    "same_history a a'"
    using tracks_register [OF t live new n, of "\<lambda>_. False"] unfolding begun_def by blast
  let ?s = "registered_state key (names a) s"
  let ?v = "begun (key, e + 1) (generations a) v"
  have run: "on_contract (future_register key s) a = Some (?s, a')"
    using a'(1) inc None arr(1-3) k by (simp add: future_register_def Let_def e_def)
  have live': "live_key ?s = (live_key s)(key \<mapsto> (names a, e + 1))"
  proof
    fix k' show "live_key ?s k' = ((live_key s)(key \<mapsto> (names a, e + 1))) k'"
      using k arr(1,3) unat_other [of k' key] by (cases "k' = key") (auto simp: live_key_def e_def)
  qed
  have c: "completed_pair k' e' ?s = completed_pair k' e' s" if "(k', e') \<in> known v" for k' e'
    by (rule completed_pair_registered [OF futures_okD(2) [OF f] k None _ _ u [unfolded e_def]]) (use that g(1) [of k' e'] in auto)
  have "fires_ok ?s a'"
    by (rule fires_ok_same [OF futures_okD(4) [OF f]]) (simp_all add: same_historyD [OF a'(3)] c [OF future_known [OF f]])
  moreover have "arrays_ok (Suc n) ?s" by (rule arrays_ok_registered [OF futures_okD(2) [OF f] k u [unfolded e_def]])
  moreover have "generations_known ?v ?s"
    unfolding e_def by (rule generations_known_registered [OF f k None u [unfolded e_def] new [unfolded e_def]])
  ultimately have "futures_ok ?v (Suc n) ?s a'" using a'(2) live' by (simp add: futures_ok_def)
  with run show ?thesis by blast
qed

lemma distinct_concat_filter: "distinct (concat (map g fs)) \<Longrightarrow> distinct (concat (map g (filter P fs)))"
  by (induction fs) auto

lemma distinct_concat_same:
  "distinct (concat (map g fs)) \<Longrightarrow> f \<in> set fs \<Longrightarrow> f' \<in> set fs \<Longrightarrow> x \<in> set (g f) \<Longrightarrow> x \<in> set (g f') \<Longrightarrow> f = f'"
  by (induction fs) (auto simp: disjoint_iff)

lemma in_wakers_for: "x \<in> set (wakers_for k e fs) \<longleftrightarrow>
    (\<exists>f\<in>set fs. fut_key f = k \<and> fut_epoch f = e \<and> x \<in> set (map fst (fut_wakers f)))"
  by (auto simp: wakers_for_def)

lemma wakers_for_alive: "set (wakers_for k e (futures_of s)) \<subseteq> set (alive_probes s)"
  by (auto simp: wakers_for_def alive_probes_def)

lemma publication_fires:
  assumes f: "fires_ok s a" and ev: "events a' = events a @ map Woken (wakers_for key e (futures_of s))"
  shows "spec_fires x a' = spec_fires x a + (if x \<in> set (wakers_for key e (futures_of s)) then 1 else 0)"
    and "g \<in> set (futures_of s) \<Longrightarrow> (x, b) \<in> set (fut_wakers g) \<Longrightarrow>
      x \<in> set (wakers_for key e (futures_of s)) \<longleftrightarrow> fut_key g = key \<and> fut_epoch g = e"
    and "((x, b), c) \<in> set (cancelled_probes s) \<Longrightarrow> x \<notin> set (wakers_for key e (futures_of s))"
proof -
  let ?g = "\<lambda>f. map fst (fut_wakers f)"
  have d: "distinct (concat (map ?g (futures_of s)))"
    using fires_okD(1) [OF f] by (simp add: alive_probes_def)
  have "distinct (wakers_for key e (futures_of s))" unfolding wakers_for_def by (rule distinct_concat_filter [OF d])
  then have "distinct (map Woken (wakers_for key e (futures_of s)))" by (simp add: distinct_map inj_on_def)
  from count_list_distinct [OF this, of "Woken x"]
  show "spec_fires x a' = spec_fires x a + (if x \<in> set (wakers_for key e (futures_of s)) then 1 else 0)"
    by (auto simp: spec_fires_def ev)
  show "x \<in> set (wakers_for key e (futures_of s)) \<longleftrightarrow> fut_key g = key \<and> fut_epoch g = e"
    if g: "g \<in> set (futures_of s)" "(x, b) \<in> set (fut_wakers g)"
  proof
    assume "x \<in> set (wakers_for key e (futures_of s))"
    then obtain g' where g': "g' \<in> set (futures_of s)" "fut_key g' = key" "fut_epoch g' = e" "x \<in> set (?g g')"
      unfolding in_wakers_for by blast
    have "x \<in> set (?g g)" using g(2) by force
    from distinct_concat_same [OF d g'(1) g(1) g'(4) this] g'(2,3) show "fut_key g = key \<and> fut_epoch g = e" by simp
  next
    assume "fut_key g = key \<and> fut_epoch g = e"
    then show "x \<in> set (wakers_for key e (futures_of s))" using g unfolding in_wakers_for by force
  qed
  show "x \<notin> set (wakers_for key e (futures_of s))" if "((x, b), c) \<in> set (cancelled_probes s)"
  proof
    assume "x \<in> set (wakers_for key e (futures_of s))"
    then have "x \<in> set (concat (map ?g (futures_of s)))" by (auto simp: in_wakers_for)
    moreover have "x \<in> set (map (\<lambda>(p, _). fst p) (cancelled_probes s))" using that by force
    ultimately show False
      using fires_okD(1) [OF f] unfolding alive_probes_def distinct_append by blast
  qed
qed

lemma check_fired_ok:
  assumes "\<And>f x b. f \<in> set fs \<Longrightarrow> fut_key f = key \<Longrightarrow> fut_epoch f = e \<Longrightarrow> (x, b) \<in> set (fut_wakers f) \<Longrightarrow> b = 0 \<and> spec_fires x a = 1"
  shows "on_contract (check_fired key e fs s) a = Some (s, a)"
proof -
  have wakers: "on_contract (each (\<lambda>probe s. wakes probe (\<lambda>n. if n = 1 then Finish s else Fails)) ps s) a = Some (s, a)"
    if "\<forall>(x, b)\<in>set ps. b = 0 \<and> spec_fires x a = 1" for ps and s :: 'a
    using that by (induction ps) (auto simp: interp_chain wakes_def)
  have "\<forall>f\<in>set fs. fut_key f = key \<and> fut_epoch f = e \<longrightarrow> (\<forall>(x, b)\<in>set (fut_wakers f). b = 0 \<and> spec_fires x a = 1)"
    using assms by blast
  then show ?thesis
    unfolding check_fired_def by (induction fs) (auto simp: interp_chain wakers simp del: One_nat_def)
qed

lemma completed_pair_published:
  assumes "length (completed_flags s) = 2" and "unat key < 2" and "unat k' < 2"
  shows "completed_pair k' e' (s\<lparr>completed_flags := (completed_flags s)[unat key := True]\<rparr>) \<longleftrightarrow>
    completed_pair k' e' s \<or> (k', e') = (key, epoch_counts s ! unat key)"
  using assms unat_other [of k' key] by (cases "k' = key") (auto simp: completed_pair_def)

lemma fires_ok_published:
  assumes fo: "fires_ok s a" and len: "length (completed_flags s) = 2" and k: "unat key < 2"
    and small: "\<And>f'. f' \<in> set (futures_of s) \<Longrightarrow> unat (fut_key f') < 2"
    and np: "\<not> completed_pair key (epoch_counts s ! unat key) s"
    and ev: "events a' = events a @ map Woken (wakers_for key (epoch_counts s ! unat key) (futures_of s))"
  shows "fires_ok (s\<lparr>completed_flags := (completed_flags s)[unat key := True]\<rparr>) a'"
proof (rule fires_okI)
  let ?s = "s\<lparr>completed_flags := (completed_flags s)[unat key := True]\<rparr>" and ?e = "epoch_counts s ! unat key"
  note fires = publication_fires [OF fo ev]
  show "distinct (alive_probes ?s)" using fires_okD(1) [OF fo] by (simp add: alive_probes_def)
  show "spec_fires x a' = 0" if "x \<notin> set (alive_probes ?s)" for x
  proof -
    have x: "x \<notin> set (alive_probes s)" using that by (simp add: alive_probes_def)
    then have "x \<notin> set (wakers_for key ?e (futures_of s))" using wakers_for_alive by blast
    with fires(1) fires_okD(2) [OF fo x] show ?thesis by simp
  qed
  show "\<not> fut_cancelled f'" if "f' \<in> set (futures_of ?s)" for f' using fires_okD(3) [OF fo] that by simp
  show "b = 0 \<and> spec_fires x a' = (if completed_pair (fut_key f') (fut_epoch f') ?s then 1 else 0)"
    if "f' \<in> set (futures_of ?s)" "(x, b) \<in> set (fut_wakers f')" for f' x b
  proof -
    have f': "f' \<in> set (futures_of s)" using that(1) by simp
    from fires(1) [of x] fires(2) [OF f' that(2)] fires_okD(4) [OF fo f' that(2)]
      completed_pair_published [OF len k small [OF f']] np
    show ?thesis by auto
  qed
  show "b = 0 \<and> spec_fires x a' = m" if "((x, b), m) \<in> set (cancelled_probes ?s)" for x b m
  proof -
    have m: "((x, b), m) \<in> set (cancelled_probes s)" using that by simp
    from fires(1) [of x] fires(3) [OF m] fires_okD(5) [OF fo m] show ?thesis by simp
  qed
qed

lemma future_complete_pending_ok:
  assumes f: "futures_ok v n s a" and k: "unat key < 2" and h: "subject_list s ! unat key = Some h"
    and pend: "\<not> completed_flags s ! unat key"
  shows "\<exists>s' a'. on_contract (future_complete key s) a = Some (s', a') \<and> (\<exists>v. futures_ok v (Suc n) s' a')"
proof -
  note t = futures_okD(1) [OF f] and arr = arrays_okD [OF futures_okD(2) [OF f]] and g = generations_knownD [OF futures_okD(3) [OF f]]
  define e where "e = epoch_counts s ! unat key"
  have live: "live_key s key = Some (h, e)" by (simp add: live_key_small [OF k] h e_def)
  have ke: "(key, e) \<in> known v" by (rule known_okD(2) [OF tracksD(5) [OF t] live])
  have np: "\<not> completed_pair key e s" using pend by (simp add: completed_pair_def e_def)
  then have pending: "result v (key, e) = None" using g(2) [OF ke] by simp
  let ?x = "push_bit 8 e OR ucast key"
  let ?v = "v\<lparr>result := (result v)((key, e) \<mapsto> ?x), queue := (queue v)((key, e) := [])\<rparr>"
  obtain a' where a': "spec_exec (\<lambda>_. False) (Complete h ?x) a = Some (Ret Done, a')"
    "tracks ?v (live_key s) [] (map awaited_of (futures_of s)) n a'"
    "events a' = events a @ map event_of (queue v (key, e))"
    using tracks_complete [OF t live pending] by blast
  let ?s = "s\<lparr>completed_flags := (completed_flags s)[unat key := True]\<rparr>"
  have ev: "events a' = events a @ map Woken (wakers_for key e (futures_of s))"
    using a'(3) g(3) [OF ke] np by (simp add: comp_def)
  have c: "completed_pair k' e' ?s \<longleftrightarrow> completed_pair k' e' s \<or> (k', e') = (key, e)" if "unat k' < 2" for k' e'
    using completed_pair_published [OF arr(2) k that] by (simp add: e_def)
  have fo': "fires_ok ?s a'"
    by (rule fires_ok_published [OF futures_okD(4) [OF f] arr(2) k _ np [unfolded e_def] ev [unfolded e_def]])
      (use future_known [OF f] g(1) in blast)
  have "on_contract (check_fired key e (futures_of s) ?s) a' = Some (?s, a')"
  proof (rule check_fired_ok)
    fix f' x b assume f': "f' \<in> set (futures_of s)" "fut_key f' = key" "fut_epoch f' = e" "(x, b) \<in> set (fut_wakers f')"
    from fires_okD(4) [OF fo', of f' x b] f' c [OF k, of e] show "b = 0 \<and> spec_fires x a' = 1" by simp
  qed
  then have run: "on_contract (future_complete key s) a = Some (?s, a')"
    using a'(1) h pend arr(1-3) k by (simp add: future_complete_def Let_def e_def)
  have live': "live_key ?s = live_key s" by (simp add: live_key_def fun_eq_iff)
  have "arrays_ok n ?s"
    unfolding arrays_ok_def
  proof (intro conjI allI impI)
    fix k' :: u8 assume "unat k' < 2"
    then show "if subject_list ?s ! unat k' = None
        then epoch_counts ?s ! unat k' = 0 \<or> retired_flags ?s (k', epoch_counts ?s ! unat k') = Some (completed_flags ?s ! unat k')
        else epoch_counts ?s ! unat k' \<noteq> 0"
      using arr(2) arr(5,6) [of k'] h unat_other [of k' key] by (cases "k' = key") auto
  qed (simp_all add: arr)
  moreover have "generations_known ?v ?s"
    unfolding generations_known_def
  proof (intro conjI allI impI)
    show "known ?v = {(k, e). unat k < 2 \<and> e \<noteq> 0 \<and> e \<le> epoch_counts ?s ! unat k}" using g(1) by auto
    fix k' e' assume "(k', e') \<in> known ?v"
    then have ke': "(k', e') \<in> known v" by simp
    have s': "unat k' < 2" using ke' g(1) by blast
    show "result ?v (k', e') \<noteq> None \<longleftrightarrow> completed_pair k' e' ?s"
      using g(2) [OF ke'] c [OF s', of e'] by auto
    show "queue ?v (k', e') = (if completed_pair k' e' ?s then [] else map (\<lambda>x. Waker x False 1) (wakers_for k' e' (futures_of ?s)))"
      using g(3) [OF ke'] c [OF s', of e'] by auto
  qed
  ultimately have "futures_ok ?v n ?s a'" using a'(2) live' fo' by (simp add: futures_ok_def)
  then have "futures_ok ?v (Suc n) ?s a'" by (rule futures_later) simp
  with run show ?thesis by blast
qed

lemma future_complete_ok:
  assumes f: "futures_ok v n s a" and k: "unat key < 2"
  shows "\<exists>s' a'. on_contract (future_complete key s) a = Some (s', a') \<and> (\<exists>v. futures_ok v (Suc n) s' a')"
proof (cases "subject_list s ! unat key = None \<or> completed_flags s ! unat key")
  case True
  then have "on_contract (future_complete key s) a = Some (s, a)"
    using arrays_okD(1,2) [OF futures_okD(2) [OF f]] k by (auto simp: future_complete_def Let_def split: option.split)
  with futures_later [OF f, of "Suc n"] show ?thesis by auto
qed (use future_complete_pending_ok [OF assms] in auto)

lemma future_observe_ok:
  assumes f: "futures_ok v n s a" and k: "unat key < 2"
  shows "\<exists>s' a'. on_contract (future_observe key s) a = Some (s', a') \<and> (\<exists>v. futures_ok v (Suc n) s' a')"
proof -
  note t = futures_okD(1) [OF f] and arr = arrays_okD [OF futures_okD(2) [OF f]] and fo = futures_okD(4) [OF f]
  show ?thesis
  proof (cases "subject_list s ! unat key")
    case None
    then have "live_key s key = None" by (simp add: live_key_small [OF k])
    from tracks_observe_none [OF t this, of "\<lambda>_. False"] futures_later [OF f, of "Suc n"]
    show ?thesis by (auto simp: future_observe_def)
  next
    case (Some h)
    let ?e = "epoch_counts s ! unat key"
    have live: "live_key s key = Some (h, ?e)" by (simp add: live_key_small [OF k] Some)
    obtain a1 where a1: "spec_exec (\<lambda>_. False) (Observe key) a = Some (Ret (NewHandle (names a)), a1)"
      "tracks v (live_key s) ([] @ [(key, ?e, names a)]) (map awaited_of (futures_of s)) n a1" "same_history a a1"
      by (rule tracks_observe [OF t live])
    obtain a2 where a2: "spec_exec (\<lambda>_. False) (IntoFuture (names a)) a1 = Some (Ret (NewHandle (names a)), a2)"
      "tracks v (live_key s) [] (map awaited_of (futures_of s) @ [(key, ?e, names a, [])]) n a2" "same_history a1 a2"
      by (rule tracks_into_future [OF a1(2)])
    let ?f = "\<lparr>future_of = names a, fut_key = key, fut_epoch = ?e, fut_wakers = [], fut_cancelled = False\<rparr>"
    let ?s = "s\<lparr>futures_of := futures_of s @ [?f]\<rparr>"
    have c: "completed_pair k' e' ?s = completed_pair k' e' s" for k' e' by (simp add: completed_pair_def)
    have "live_key ?s = live_key s" by (simp add: live_key_def fun_eq_iff)
    then have "tracks v (live_key ?s) [] (map awaited_of (futures_of ?s)) n a2"
      using a2(2) by (simp add: awaited_of_def)
    moreover have "arrays_ok n ?s" using futures_okD(2) [OF f] by (simp add: arrays_ok_def)
    moreover have "generations_known v ?s"
      using futures_okD(3) [OF f] unfolding generations_known_def c by (simp add: wakers_for_def)
    moreover have "fires_ok ?s a2"
    proof (rule fires_okI)
      have al: "alive_probes ?s = alive_probes s" by (simp add: alive_probes_def)
      have ev: "spec_fires x a2 = spec_fires x a" for x
        by (simp add: spec_fires_def same_historyD [OF a1(3)] same_historyD [OF a2(3)])
      show "distinct (alive_probes ?s)" "x \<notin> set (alive_probes ?s) \<Longrightarrow> spec_fires x a2 = 0" for x
        unfolding al ev by (rule fires_okD [OF fo]; assumption)+
      show "((x, b), m) \<in> set (cancelled_probes ?s) \<Longrightarrow> b = 0 \<and> spec_fires x a2 = m" for x b m
        unfolding ev using fires_okD(5) [OF fo] by simp
      show "f' \<in> set (futures_of ?s) \<Longrightarrow> \<not> fut_cancelled f'" for f' using fires_okD(3) [OF fo] by auto
      show "b = 0 \<and> spec_fires x a2 = (if completed_pair (fut_key f') (fut_epoch f') ?s then 1 else 0)"
        if "f' \<in> set (futures_of ?s)" "(x, b) \<in> set (fut_wakers f')" for f' x b
        unfolding ev c using fires_okD(4) [OF fo, of f' x b] that by auto
    qed
    ultimately have "futures_ok v n ?s a2" by (simp add: futures_ok_def)
    then have "futures_ok v (Suc n) ?s a2" by (rule futures_later) simp
    moreover have "on_contract (future_observe key s) a = Some (?s, a2)"
      using a1(1) a2(1) arr(3) k by (simp add: future_observe_def)
    ultimately show ?thesis by blast
  qed
qed

lemma future_retire_ok:
  assumes f: "futures_ok v n s a" and k: "unat key < 2"
  shows "\<exists>s' a'. on_contract (future_retire key s) a = Some (s', a') \<and> (\<exists>v. futures_ok v (Suc n) s' a')"
proof -
  note t = futures_okD(1) [OF f] and arr = arrays_okD [OF futures_okD(2) [OF f]] and fo = futures_okD(4) [OF f]
  show ?thesis
  proof (cases "subject_list s ! unat key")
    case None
    then have "on_contract (future_retire key s) a = Some (s, a)"
      using arr(1) k by (simp add: future_retire_def Let_def)
    with futures_later [OF f, of "Suc n"] show ?thesis by auto
  next
    case (Some h)
    let ?e = "epoch_counts s ! unat key"
    have live: "live_key s key = Some (h, ?e)" by (simp add: live_key_small [OF k] Some)
    obtain a' where a': "spec_exec (\<lambda>_. False) (DropSubject h) a = Some (Ret Done, a')"
      "tracks v ((live_key s)(key := None)) [] (map awaited_of (futures_of s)) n a'" "same_history a a'"
      by (rule tracks_retire [OF t live])
    let ?s = "s\<lparr>subject_list := (subject_list s)[unat key := None],
      retired_flags := (retired_flags s)((key, ?e) \<mapsto> completed_flags s ! unat key)\<rparr>"
    have c: "completed_pair k' e' ?s = completed_pair k' e' s" for k' e' by (simp add: completed_pair_def)
    have "live_key ?s = (live_key s)(key := None)"
    proof
      fix k' show "live_key ?s k' = ((live_key s)(key := None)) k'"
        using k arr(1) unat_other [of k' key] by (cases "k' = key") (auto simp: live_key_def)
    qed
    with a'(2) have "tracks v (live_key ?s) [] (map awaited_of (futures_of ?s)) n a'" by simp
    moreover have "arrays_ok n ?s"
      unfolding arrays_ok_def
    proof (intro conjI allI impI)
      fix k' :: u8 assume "unat k' < 2"
      then show "if subject_list ?s ! unat k' = None
          then epoch_counts ?s ! unat k' = 0 \<or> retired_flags ?s (k', epoch_counts ?s ! unat k') = Some (completed_flags ?s ! unat k')
          else epoch_counts ?s ! unat k' \<noteq> 0"
        using arr(1) arr(5,6) [of k'] unat_other [of k' key] by (cases "k' = key") auto
    qed (simp_all add: arr)
    moreover have "generations_known v ?s"
      using futures_okD(3) [OF f] unfolding generations_known_def c by simp
    moreover have "fires_ok ?s a'"
      by (rule fires_ok_same [OF fo]) (simp_all add: same_historyD [OF a'(3)] c)
    ultimately have "futures_ok v n ?s a'" by (simp add: futures_ok_def)
    then have "futures_ok v (Suc n) ?s a'" by (rule futures_later) simp
    moreover have "on_contract (future_retire key s) a = Some (?s, a')"
      using a'(1) Some arr(1-3) k by (simp add: future_retire_def Let_def)
    ultimately show ?thesis by blast
  qed
qed

lemma wakers_for_snoc: "wakers_for k e (fs @ [f]) = wakers_for k e fs @
    (if fut_key f = k \<and> fut_epoch f = e then map fst (fut_wakers f) else [])"
  by (simp add: wakers_for_def)

lemma fires_ok_polled:
  assumes fo: "fires_ok s a" and snoc: "futures_of s = rest @ [g]" and x: "x \<notin> set (alive_probes s)"
    and np: "\<not> completed_pair (fut_key g) (fut_epoch g) s" and same: "same_history a a'"
  shows "fires_ok (s\<lparr>futures_of := rest @ [g\<lparr>fut_wakers := fut_wakers g @ [(x, 0)]\<rparr>]\<rparr>) a'"
proof (rule fires_okI)
  let ?g = "g\<lparr>fut_wakers := fut_wakers g @ [(x, 0)]\<rparr>"
  let ?s = "s\<lparr>futures_of := rest @ [?g]\<rparr>"
  have mem: "g \<in> set (futures_of s)" using snoc by simp
  have zero: "spec_fires x a = 0" by (rule fires_okD(2) [OF fo x])
  have c: "completed_pair k' e' ?s = completed_pair k' e' s" for k' e' by (simp add: completed_pair_def)
  have al: "mset (alive_probes ?s) = add_mset x (mset (alive_probes s))" by (simp add: alive_probes_def snoc)
  then have set: "set (alive_probes ?s) = insert x (set (alive_probes s))" by (metis set_mset_add_mset_insert set_mset_mset)
  have ev: "spec_fires y a' = spec_fires y a" for y by (simp add: spec_fires_def same_historyD [OF same])
  show "distinct (alive_probes ?s)"
    using fires_okD(1) [OF fo] x mset_eq_imp_distinct_iff [of "alive_probes ?s" "x # alive_probes s"] al by simp
  show "spec_fires y a' = 0" if "y \<notin> set (alive_probes ?s)" for y
    using that fires_okD(2) [OF fo, of y] unfolding set ev by blast
  show "\<not> fut_cancelled f'" if "f' \<in> set (futures_of ?s)" for f'
    using that fires_okD(3) [OF fo, of f'] fires_okD(3) [OF fo mem] snoc by auto
  show "b = 0 \<and> spec_fires y a' = (if completed_pair (fut_key f') (fut_epoch f') ?s then 1 else 0)"
    if fm: "f' \<in> set (futures_of ?s)" and fb: "(y, b) \<in> set (fut_wakers f')" for f' y b
  proof -
    consider "f' \<in> set (futures_of s)" | "f' = ?g" "(y, b) \<in> set (fut_wakers g)" | "f' = ?g" "y = x" "b = 0"
      using fm fb snoc by auto
    then show ?thesis unfolding c ev
      by cases (use fires_okD(4) [OF fo _ fb] fires_okD(4) [OF fo mem, of y b] np zero in simp_all)
  qed
  show "b = 0 \<and> spec_fires y a' = m" if "((y, b), m) \<in> set (cancelled_probes ?s)" for y b m
    unfolding ev using that fires_okD(5) [OF fo] by simp
qed

lemma future_poll_pending_ok:
  assumes f: "futures_ok v n s a" and alloc: "fresh_addresses alloc" and snoc: "futures_of s = rest @ [g]"
    and None: "result v (fut_key g, fut_epoch g) = None"
  shows "\<exists>s' a'. on_contract (future_poll_last alloc s) a = Some (s', a') \<and> (\<exists>v. futures_ok v (Suc n) s' a')"
proof -
  note t = futures_okD(1) [OF f] and arr = arrays_okD [OF futures_okD(2) [OF f]] and fo = futures_okD(4) [OF f]
  note gk = generations_knownD [OF futures_okD(3) [OF f]]
  have mem: "g \<in> set (futures_of s)" using snoc by simp
  let ?k = "fut_key g" and ?e = "fut_epoch g" and ?ws = "map fst (fut_wakers g)"
  define x where "x = alloc (alive_probes s)"
  have x: "x \<notin> set (alive_probes s)" using alloc unfolding fresh_addresses_def x_def by blast
  note ke = future_known [OF f mem]
  have k: "unat ?k < 2" using ke gk(1) by blast
  have t': "tracks v (live_key s) [] (map awaited_of rest @ [(?k, ?e, future_of g, ?ws)]) n a"
    using t snoc by (simp add: awaited_of_def)
  have np: "\<not> completed_pair ?k ?e s" using gk(2) [OF ke] None by simp
  have q: "queue v (?k, ?e) = map (\<lambda>x. Waker x False 1) (wakers_for ?k ?e (futures_of s))" using gk(3) [OF ke] np by simp
  have new: "x \<notin> set ?ws" "x \<notin> set (wakers_of (queue v (?k, ?e)))"
  proof -
    show "x \<notin> set ?ws" using x mem unfolding alive_probes_def by auto
    have "wakers_of (map (\<lambda>x. Waker x False 1) xs) = xs" for xs by (induction xs) simp_all
    then show "x \<notin> set (wakers_of (queue v (?k, ?e)))" using x wakers_for_alive unfolding q by fastforce
  qed
  let ?v = "v\<lparr>queue := (queue v)((?k, ?e) := queue v (?k, ?e) @ [Waker x False 1])\<rparr>"
  obtain a' where a': "spec_exec (\<lambda>_. False) (Poll (future_of g) x) a = Some (Ret (Polled Pending), a')"
    "tracks ?v (live_key s) [] (map awaited_of rest @ [(?k, ?e, future_of g, ?ws @ [x])]) n a'" "same_history a a'"
    by (rule tracks_poll_pending [OF t' None new])
  let ?s = "s\<lparr>futures_of := rest @ [g\<lparr>fut_wakers := fut_wakers g @ [(x, 0)]\<rparr>]\<rparr>"
  have run: "on_contract (future_poll_last alloc s) a = Some (?s, a')"
    using a'(1) snoc fires_okD(3) [OF fo mem] k arr(2,3) np fires_okD(2) [OF fo x]
    by (simp add: future_poll_last_def new_probe_def Let_def x_def [symmetric] completed_pair_def)
  have "live_key ?s = live_key s" by (simp add: live_key_def fun_eq_iff)
  then have "tracks ?v (live_key ?s) [] (map awaited_of (futures_of ?s)) n a'" using a'(2) by (simp add: awaited_of_def)
  moreover have "arrays_ok n ?s" using futures_okD(2) [OF f] by (simp add: arrays_ok_def)
  moreover have "generations_known ?v ?s"
    unfolding generations_known_def
  proof (intro conjI allI impI)
    show "known ?v = {(k, e). unat k < 2 \<and> e \<noteq> 0 \<and> e \<le> epoch_counts ?s ! unat k}" using gk(1) by auto
    fix k' e' assume "(k', e') \<in> known ?v"
    then have ke': "(k', e') \<in> known v" by simp
    have c: "completed_pair k' e' ?s = completed_pair k' e' s" by (simp add: completed_pair_def)
    show "result ?v (k', e') \<noteq> None \<longleftrightarrow> completed_pair k' e' ?s" unfolding c using gk(2) [OF ke'] by simp
    show "queue ?v (k', e') = (if completed_pair k' e' ?s then [] else map (\<lambda>x. Waker x False 1) (wakers_for k' e' (futures_of ?s)))"
      unfolding c using gk(3) [OF ke'] np q snoc by (auto simp: wakers_for_snoc)
  qed
  ultimately have "futures_ok ?v n ?s a'" using fires_ok_polled [OF fo snoc x np a'(3)] by (simp add: futures_ok_def)
  then have "futures_ok ?v (Suc n) ?s a'" by (rule futures_later) simp
  with run show ?thesis by blast
qed

lemma future_poll_last_ok:
  assumes f: "futures_ok v n s a" and alloc: "fresh_addresses alloc"
  shows "\<exists>s' a'. on_contract (future_poll_last alloc s) a = Some (s', a') \<and> (\<exists>v. futures_ok v (Suc n) s' a')"
proof (cases "futures_of s" rule: rev_cases)
  case Nil
  then show ?thesis using futures_later [OF f, of "Suc n"] by (auto simp: future_poll_last_def)
next
  case (snoc rest g)
  note t = futures_okD(1) [OF f] and arr = arrays_okD [OF futures_okD(2) [OF f]] and fo = futures_okD(4) [OF f]
  note gk = generations_knownD [OF futures_okD(3) [OF f]]
  have mem: "g \<in> set (futures_of s)" using snoc by simp
  let ?k = "fut_key g" and ?e = "fut_epoch g"
  note ke = future_known [OF f mem]
  have k: "unat ?k < 2" using ke gk(1) by blast
  show ?thesis
  proof (cases "result v (?k, ?e)")
    case (Some y)
    have "(?k, ?e, future_of g, map fst (fut_wakers g)) \<in> set (map awaited_of (futures_of s))" using mem by (auto simp: awaited_of_def)
    from tracks_poll_ready [OF t this Some, of "\<lambda>_. False" "alloc (alive_probes s)"]
    have "on_contract (future_poll_last alloc s) a = Some (s, a)"
      using snoc fires_okD(3) [OF fo mem] k arr(2,3) gk(2) [OF ke] Some
      by (simp add: future_poll_last_def new_probe_def Let_def completed_pair_def)
    with futures_later [OF f, of "Suc n"] show ?thesis by auto
  qed (rule future_poll_pending_ok [OF f alloc snoc])
qed

lemma cancel_own:
  assumes "set xs \<inter> set mine = {}"
  shows "cancelled mine (map (\<lambda>x. Waker x False 1) (xs @ mine)) = map (\<lambda>x. Waker x False 1) xs"
proof -
  have keep: "cancel mine (map (\<lambda>x. Waker x False 1) ys) = Inr (map (\<lambda>x. Waker x False 1) (filter (\<lambda>x. x \<notin> set mine) ys))" for ys
    by (induction ys) (auto simp: Let_def list_ex_iff)
  have "filter (\<lambda>x. x \<notin> set mine) (xs @ mine) = xs"
    using assms by (auto simp: filter_id_conv filter_empty_conv disjoint_iff)
  with keep [of "xs @ mine"] show ?thesis by (simp add: cancelled_def del: map_append)
qed

lemma cancelled_nothing [simp]: "cancelled mine [] = []"
  by (simp add: cancelled_def)

lemma record_cancelled:
  "on_contract (each (\<lambda>probe s. wakes probe (\<lambda>n. Finish (s\<lparr>cancelled_probes := cancelled_probes s @ [(probe, n)]\<rparr>))) ps s) a
     = Some (s\<lparr>cancelled_probes := cancelled_probes s @ map (\<lambda>(x, b). ((x, b), spec_fires x a - b)) ps\<rparr>, a)"
proof (induction ps arbitrary: s)
  case (Cons p ps)
  then show ?case by (cases p) (simp add: interp_chain wakes_def)
qed simp

lemma fires_ok_cancelled:
  assumes fo: "fires_ok s a" and snoc: "futures_of s = rest @ [g]" and same: "same_history a a'"
  shows "fires_ok (s\<lparr>futures_of := rest,
    cancelled_probes := cancelled_probes s @ map (\<lambda>(x, b). ((x, b), spec_fires x a - b)) (fut_wakers g)\<rparr>) a'" (is "fires_ok ?s a'")
proof (rule fires_okI)
  have mem: "g \<in> set (futures_of s)" using snoc by simp
  have c: "completed_pair k' e' ?s = completed_pair k' e' s" for k' e' by (simp add: completed_pair_def)
  have ev: "spec_fires y a' = spec_fires y a" for y by (simp add: spec_fires_def same_historyD [OF same])
  have al: "mset (alive_probes ?s) = mset (alive_probes s)" by (simp add: alive_probes_def snoc comp_def case_prod_unfold)
  note set = mset_eq_setD [OF al]
  show "distinct (alive_probes ?s)" using fires_okD(1) [OF fo] mset_eq_imp_distinct_iff [OF al] by simp
  show "spec_fires y a' = 0" if "y \<notin> set (alive_probes ?s)" for y
    using that fires_okD(2) [OF fo, of y] unfolding set ev by blast
  show "\<not> fut_cancelled f'" if "f' \<in> set (futures_of ?s)" for f' using that fires_okD(3) [OF fo, of f'] snoc by simp
  show "b = 0 \<and> spec_fires y a' = (if completed_pair (fut_key f') (fut_epoch f') ?s then 1 else 0)"
    if "f' \<in> set (futures_of ?s)" "(y, b) \<in> set (fut_wakers f')" for f' y b
    unfolding c ev using fires_okD(4) [OF fo _ that(2)] that(1) snoc by simp
  show "b = 0 \<and> spec_fires y a' = m" if m: "((y, b), m) \<in> set (cancelled_probes ?s)" for y b m
  proof (cases "((y, b), m) \<in> set (cancelled_probes s)")
    case True
    then show ?thesis unfolding ev by (rule fires_okD(5) [OF fo])
  next
    case False
    with m have "(y, b) \<in> set (fut_wakers g)" "m = spec_fires y a - b" by auto
    with fires_okD(4) [OF fo mem this(1)] show ?thesis unfolding ev by simp
  qed
qed

lemma future_cancel_ok:
  assumes f: "futures_ok v n s a"
  shows "\<exists>s' a'. on_contract (future_cancel s) a = Some (s', a') \<and> (\<exists>v. futures_ok v (Suc n) s' a')"
proof (cases "futures_of s" rule: rev_cases)
  case Nil
  then show ?thesis using futures_later [OF f, of "Suc n"] by (auto simp: future_cancel_def pop_def)
next
  case (snoc rest g)
  note t = futures_okD(1) [OF f] and arr = arrays_okD [OF futures_okD(2) [OF f]] and fo = futures_okD(4) [OF f]
  note gk = generations_knownD [OF futures_okD(3) [OF f]]
  have mem: "g \<in> set (futures_of s)" using snoc by simp
  let ?k = "fut_key g" and ?e = "fut_epoch g" and ?ws = "map fst (fut_wakers g)"
  note ke = future_known [OF f mem]
  have t': "tracks v (live_key s) [] (map awaited_of rest @ (?k, ?e, future_of g, ?ws) # []) n a"
    using t snoc by (simp add: awaited_of_def)
  let ?v = "v\<lparr>queue := (queue v)((?k, ?e) := cancelled ?ws (queue v (?k, ?e)))\<rparr>"
  obtain a' where a': "spec_exec (\<lambda>_. False) (DropFuture (future_of g)) a = Some (Ret Done, a')"
    "tracks ?v (live_key s) [] (map awaited_of rest @ []) n a'" "same_history a a'"
    by (rule tracks_drop_future [OF t'])
  let ?new = "map (\<lambda>(x, b). ((x, b), spec_fires x a - b)) (fut_wakers g)"
  let ?s = "s\<lparr>futures_of := rest, cancelled_probes := cancelled_probes s @ ?new\<rparr>"
  have run: "on_contract (future_cancel s) a = Some (?s, a')"
    using a'(1) snoc by (simp add: future_cancel_def pop_def interp_chain record_cancelled)
  have c: "completed_pair k' e' ?s = completed_pair k' e' s" for k' e' by (simp add: completed_pair_def)
  have apart: "set (wakers_for ?k ?e rest) \<inter> set ?ws = {}"
  proof -
    have "set (wakers_for ?k ?e rest) \<subseteq> set (concat (map (\<lambda>f. map fst (fut_wakers f)) rest))"
      by (auto simp: wakers_for_def)
    moreover have "set (concat (map (\<lambda>f. map fst (fut_wakers f)) rest)) \<inter> set ?ws = {}"
      using fires_okD(1) [OF fo] unfolding alive_probes_def snoc map_append concat_append distinct_append by simp
    ultimately show ?thesis by blast
  qed
  have q: "cancelled ?ws (queue v (?k, ?e)) = (if completed_pair ?k ?e s then [] else map (\<lambda>x. Waker x False 1) (wakers_for ?k ?e rest))"
    using gk(3) [OF ke] cancel_own [OF apart] by (simp add: snoc wakers_for_snoc)
  have "live_key ?s = live_key s" by (simp add: live_key_def fun_eq_iff)
  then have "tracks ?v (live_key ?s) [] (map awaited_of (futures_of ?s)) n a'" using a'(2) by simp
  moreover have "arrays_ok n ?s" using futures_okD(2) [OF f] by (simp add: arrays_ok_def)
  moreover have "generations_known ?v ?s"
    unfolding generations_known_def c
  proof (intro conjI allI impI)
    show "known ?v = {(k, e). unat k < 2 \<and> e \<noteq> 0 \<and> e \<le> epoch_counts ?s ! unat k}" using gk(1) by auto
    fix k' e' assume "(k', e') \<in> known ?v"
    then have ke': "(k', e') \<in> known v" by simp
    show "result ?v (k', e') \<noteq> None \<longleftrightarrow> completed_pair k' e' s" using gk(2) [OF ke'] by simp
    show "queue ?v (k', e') = (if completed_pair k' e' s then [] else map (\<lambda>x. Waker x False 1) (wakers_for k' e' (futures_of ?s)))"
      using gk(3) [OF ke'] q by (cases "(k', e') = (?k, ?e)") (auto simp: snoc wakers_for_snoc)
  qed
  moreover have "fires_ok ?s a'" by (rule fires_ok_cancelled [OF fo snoc a'(3)])
  ultimately have "futures_ok ?v n ?s a'" by (simp add: futures_ok_def)
  then have "futures_ok ?v (Suc n) ?s a'" by (rule futures_later) simp
  with run show ?thesis by blast
qed

subsection \<open>No input is a crash\<close>

lemma future_step_ok:
  assumes "\<exists>v. futures_ok v n s a" and n: "n + 2 < 2 ^ 64" and alloc: "fresh_addresses alloc"
  shows "\<exists>s' a'. on_contract (future_step alloc pair s) a = Some (s', a') \<and> (\<exists>v. futures_ok v (Suc n) s' a')"
proof -
  obtain v where f: "futures_ok v n s a" using assms(1) by blast
  show ?thesis
    using future_register_ok [OF f key_small n] future_complete_ok [OF f key_small] future_observe_ok [OF f key_small]
      future_poll_last_ok [OF f alloc] future_retire_ok [OF f key_small] future_cancel_ok [OF f]
    by (simp add: future_step_def Let_def)
qed

lemma check_cancelled_ok:
  assumes f: "fires_ok s a"
  shows "on_contract (check_cancelled s) a = Some (s, a)"
proof -
  have "\<forall>((x, b), c)\<in>set (cancelled_probes s). b = 0 \<and> spec_fires x a = c" using f unfolding fires_ok_def by blast
  then have "on_contract (each (\<lambda>(probe, at_cancel) s. wakes probe (\<lambda>n. if n = at_cancel then Finish s else Fails)) ps s) a = Some (s, a)"
    if "set ps \<subseteq> set (cancelled_probes s)" for ps
    using that by (induction ps) (auto simp: interp_chain wakes_def)
  then show ?thesis by (simp add: check_cancelled_def)
qed

lemma drop_futures:
  "tracks v live [] (map awaited_of fs) n a \<Longrightarrow>
    \<exists>v' a'. on_contract (each (\<lambda>f s. ask (DropFuture (future_of f)) (\<lambda>_. Finish s)) fs s) a = Some (s, a')
      \<and> tracks v' live [] [] n a'"
proof (induction fs arbitrary: v a)
  case Nil
  then show ?case by auto
next
  case (Cons f fs)
  have "tracks v live [] ([] @ (fut_key f, fut_epoch f, future_of f, map fst (fut_wakers f)) # map awaited_of fs) n a"
    using Cons.prems by (simp add: awaited_of_def [of f])
  then obtain a1 where a1: "spec_exec (\<lambda>_. False) (DropFuture (future_of f)) a = Some (Ret Done, a1)"
    "tracks (v\<lparr>queue := (queue v)((fut_key f, fut_epoch f) := cancelled (map fst (fut_wakers f)) (queue v (fut_key f, fut_epoch f)))\<rparr>)
      live [] ([] @ map awaited_of fs) n a1"
    by (rule tracks_drop_future)
  from Cons.IH [OF a1(2) [unfolded append_Nil]] obtain v' a' where
    "on_contract (each (\<lambda>f s. ask (DropFuture (future_of f)) (\<lambda>_. Finish s)) fs s) a1 = Some (s, a')"
    "tracks v' live [] [] n a'" by blast
  with a1(1) show ?case by (auto simp: interp_chain)
qed

lemma drop_subject_option:
  assumes "tracks v live [] [] n a" and "subject = map_option fst (live k)"
  shows "\<exists>a'. on_contract (case subject of None \<Rightarrow> Finish s | Some h \<Rightarrow> ask (DropSubject h) (\<lambda>_. Finish s)) a = Some (s, a')
    \<and> tracks v (live(k := None)) [] [] n a'"
proof (cases "live k")
  case None
  then have "live(k := None) = live" by (simp add: fun_eq_iff)
  with None assms show ?thesis by simp
next
  case (Some y)
  obtain h e where y: "y = (h, e)" by (cases y)
  from tracks_retire [OF assms(1) Some [unfolded y], of "\<lambda>_. False"] obtain a' where
    "spec_exec (\<lambda>_. False) (DropSubject h) a = Some (Ret Done, a')" "tracks v (live(k := None)) [] [] n a'" by blast
  with assms(2) Some y show ?thesis by simp
qed

lemma future_teardown_ok:
  assumes f: "futures_ok v n s a"
  shows "\<exists>a'. on_contract (future_teardown s) a = Some (s, a') \<and> nothing_owned a'"
proof -
  note arr = arrays_okD [OF futures_okD(2) [OF f]]
  let ?drop = "\<lambda>subject s. case subject of None \<Rightarrow> Finish s | Some h \<Rightarrow> ask (DropSubject h) (\<lambda>_. Finish s)"
  obtain v1 a1 where a1: "on_contract (each (\<lambda>f s. ask (DropFuture (future_of f)) (\<lambda>_. Finish s)) (futures_of s) s) a = Some (s, a1)"
    "tracks v1 (live_key s) [] [] n a1"
    using drop_futures [OF futures_okD(1) [OF f], of s] by (elim exE conjE) (rule that)
  have two: "subject_list s = [subject_list s ! 0, subject_list s ! 1]"
    using arr(1) by (cases "subject_list s" rule: remdups_adj.cases) simp_all
  have s0: "subject_list s ! 0 = map_option fst (live_key s 0)" by (simp add: live_key_def option.map_comp comp_def option.map_ident)
  from drop_subject_option [OF a1(2) s0, of s] obtain a2 where a2:
    "on_contract (?drop (subject_list s ! 0) s) a1 = Some (s, a2)" "tracks v1 ((live_key s)(0 := None)) [] [] n a2" by blast
  have s1: "subject_list s ! 1 = map_option fst (((live_key s)(0 := None)) 1)"
    by (simp add: live_key_def option.map_comp comp_def option.map_ident)
  from drop_subject_option [OF a2(2) s1, of s] obtain a3 where a3:
    "on_contract (?drop (subject_list s ! 1) s) a2 = Some (s, a3)"
    "tracks v1 ((live_key s)(0 := None, 1 := None)) [] [] n a3" by blast
  have "(live_key s)(0 := None, 1 := None) = Map.empty"
  proof
    fix k :: u8
    have "unat k < 2 \<Longrightarrow> k = 0 \<or> k = 1" by (auto simp: less_2_cases_iff word_unat_eq_iff)
    then show "((live_key s)(0 := None, 1 := None)) k = None" by (auto simp: live_key_def)
  qed
  with a3(2) drop_space [of v1 n a3 s] obtain a4 where
    "on_contract (ask (DropSpace 0) (\<lambda>_. Finish s)) a3 = Some (s, a4)" "nothing_owned a4" by auto
  moreover have "on_contract (each ?drop (subject_list s) s) a1 = Some (s, a3)"
    by (subst two) (simp only: each.simps interp_chain a2(1) a3(1) option.case prod.case interp.simps)
  ultimately show ?thesis using a1(1) by (simp add: future_teardown_def interp_chain)
qed

text \<open>
  C34: the fuzz target \<open>future_ops\<close> has no crash artifact.  For every input, a poll is ready exactly
  when its generation has completed, also after it was retired and its slot recycled; a completion
  fires every waker of a live future of the generation exactly once; and the waker of a cancelled
  future never fires afterwards.
\<close>

theorem future_target_never_crashes:
  assumes "fresh_addresses alloc"
  shows "\<exists>s w. on_crate (future_target alloc data) space_new = Some (s, w) \<and> all_freed w"
proof -
  let ?loop = "each (future_step alloc) (take 128 (pairs data)) future_new"
  have start: "\<exists>v. futures_ok v 0 future_new spec_new"
  proof
    have "live_key future_new = Map.empty"
      by (auto simp: live_key_def future_new_def fun_eq_iff less_2_cases_iff)
    then have "tracks nothing_tracked (live_key future_new) [] (map awaited_of (futures_of future_new)) 0 spec_new"
      using nothing_tracked_new by (simp add: future_new_def)
    moreover have "arrays_ok 0 future_new"
      by (auto simp: arrays_ok_def future_new_def less_2_cases_iff)
    moreover have "epoch_counts future_new ! i = 0" if "i < 2" for i
      using that by (auto simp: future_new_def less_2_cases_iff)
    then have "generations_known nothing_tracked future_new"
      by (auto simp: generations_known_def nothing_tracked_def)
    moreover have "fires_ok future_new spec_new"
      by (simp add: fires_ok_def future_new_def alive_probes_def spec_fires_def spec_new_def)
    ultimately show "futures_ok nothing_tracked 0 future_new spec_new" by (simp add: futures_ok_def)
  qed
  have step: "\<exists>s' a'. on_contract (future_step alloc p s) a = Some (s', a') \<and> (\<exists>v. futures_ok v (Suc n) s' a')"
    if "\<exists>v. futures_ok v n s a" "n < 128" for n p s a
    by (rule future_step_ok [OF that(1) _ assms]) (use that(2) in simp)
  obtain s a v n where loop: "on_contract ?loop spec_new = Some (s, a)" "futures_ok v n s a"
    using interp_each [where I = "\<lambda>n s a. \<exists>v. futures_ok v n s a" and N = 128 and step = "future_step alloc" and
      bs = "take 128 (pairs data)", OF step start] by auto
  from future_teardown_ok [OF loop(2)] obtain a' where "on_contract (future_teardown s) a = Some (s, a')" "nothing_owned a'" by blast
  with loop(1) check_cancelled_ok [OF futures_okD(4) [OF loop(2)]]
  have "on_contract (future_target alloc data) spec_new = Some (s, a')" by (simp add: future_target_def interp_chain)
  from crate_freed [OF this \<open>nothing_owned a'\<close>] show ?thesis by metis
qed

theorem future_target_never_crashes_witness:
  "\<exists>s w. on_crate (future_target next_address [0, 1, 2, 1, 3, 0, 2, 1, 3, 0, 5, 0, 1, 1, 3, 0]) space_new = Some (s, w) \<and> all_freed w"
  by (rule future_target_never_crashes [OF next_address_fresh])

end
