(* ===== verification/Workloads.thy ===== *)
theory Workloads
  imports Fuzz
begin

section \<open>The workloads of the benchmark\<close>

text \<open>
  \<open>observe-perf/src/main.rs\<close>, the single-threaded workloads: what they ask of the crate, with every
  \<open>expect\<close> a failure when it does not hold, and the drops at the end of each iteration in the order
  of the language (last declared first).  The result of a run is what reached \<open>black_box\<close>.  The
  time measured is a parameter; \<open>on_crate\<close> runs them on the model of the crate.
\<close>

type_synonym 'x workload = "((u64, u64) op, (u64, u64) reply call, 'x) harness"

definition N :: nat where "N = 1000000"
definition N_LAT :: nat where "N_LAT = 200000"
definition M_FANOUT :: nat where "M_FANOUT = 100000"
definition N_ALLOC :: nat where "N_ALLOC = 200000"
definition M_RETAINED :: nat where "M_RETAINED = 10000"

definition keys_below :: "nat \<Rightarrow> u64 list" where
  "keys_below n = map of_nat [0..<n]"

definition expect :: "(u64, u64) op \<Rightarrow> (handle \<Rightarrow> 'x workload) \<Rightarrow> 'x workload" where
  "expect i k = ask i (\<lambda>r. case r of NewHandle h \<Rightarrow> k h | _ \<Rightarrow> Fails)"

definition read :: "handle \<Rightarrow> (u64 option \<Rightarrow> 'x workload) \<Rightarrow> 'x workload" where
  "read h k = ask (TryGet h) (\<lambda>r. case r of Value x \<Rightarrow> k x | _ \<Rightarrow> Fails)"

text \<open>One iteration, for each shape.\<close>

definition observe_first :: "u64 \<Rightarrow> u64 option list \<Rightarrow> u64 option list workload" where
  "observe_first key seen =
     expect (MakeSubject key) (\<lambda>subject.
     expect (Observe key) (\<lambda>observation.
     ask (Complete subject key) (\<lambda>_.
     read observation (\<lambda>x.
     ask (DropObservation observation) (\<lambda>_.
     ask (DropSubject subject) (\<lambda>_. Finish (seen @ [x])))))))"

definition complete_first :: "u64 \<Rightarrow> u64 option list \<Rightarrow> u64 option list workload" where
  "complete_first key seen =
     expect (MakeSubject key) (\<lambda>subject.
     ask (Complete subject key) (\<lambda>_.
     expect (Observe key) (\<lambda>observation.
     read observation (\<lambda>x.
     ask (DropObservation observation) (\<lambda>_.
     ask (DropSubject subject) (\<lambda>_. Finish (seen @ [x])))))))"

definition retire :: "u64 \<Rightarrow> u64 option list \<Rightarrow> u64 option list workload" where
  "retire key seen = expect (MakeSubject key) (\<lambda>subject. ask (DropSubject subject) (\<lambda>_. Finish seen))"

definition cancel_observer :: "u64 \<Rightarrow> u64 option list \<Rightarrow> u64 option list workload" where
  "cancel_observer key seen =
     expect (MakeSubject key) (\<lambda>subject.
     expect (Observe key) (\<lambda>observation.
     ask (DropObservation observation) (\<lambda>_.
     ask (Complete subject key) (\<lambda>_.
     ask (DropSubject subject) (\<lambda>_. Finish seen)))))"

text \<open>A workload: the loop, then the space is dropped.\<close>

definition over_keys :: "(u64 \<Rightarrow> 'x \<Rightarrow> 'x workload) \<Rightarrow> nat \<Rightarrow> 'x \<Rightarrow> 'x workload" where
  "over_keys round n x = chain (each round (keys_below n) x) (\<lambda>x. ask (DropSpace 0) (\<lambda>_. Finish x))"

definition seq_observe_first :: "u64 option list workload" where
  "seq_observe_first = over_keys observe_first N []"

definition seq_complete_first :: "u64 option list workload" where
  "seq_complete_first = over_keys complete_first N []"

definition seq_retire_recreate :: "u64 option list workload" where
  "seq_retire_recreate = over_keys retire N []"

definition seq_pool_reuse :: "u64 option list workload" where
  "seq_pool_reuse = over_keys (\<lambda>_. retire 0) N []"

definition seq_cancel_observer :: "u64 option list workload" where
  "seq_cancel_observer = over_keys cancel_observer N []"

definition fanout_round :: "nat \<Rightarrow> u64 \<Rightarrow> u64 option list \<Rightarrow> u64 option list workload" where
  "fanout_round observers key seen =
     expect (MakeSubject key) (\<lambda>subject.
     chain (each (\<lambda>_ observations. expect (Observe key) (\<lambda>h. Finish (observations @ [h]))) [0..<observers] []) (\<lambda>observations.
     ask (Complete subject key) (\<lambda>_.
     chain (each (\<lambda>h seen. read h (\<lambda>x. Finish (seen @ [x]))) observations seen) (\<lambda>seen.
     chain (each (\<lambda>h x. ask (DropObservation h) (\<lambda>_. Finish x)) observations seen) (\<lambda>seen.
     ask (DropSubject subject) (\<lambda>_. Finish seen))))))"

definition fanout :: "nat \<Rightarrow> u64 option list workload" where
  "fanout observers = over_keys (fanout_round observers) M_FANOUT []"

text \<open>
  The latency percentiles: \<open>latencies[len / 2]\<close> and \<open>latencies[len - len / 100]\<close> of the sorted
  durations, as nanoseconds.  A \<open>Duration\<close> is a number of seconds and of nanoseconds below the next
  second, with the derived order.
\<close>

datatype duration = Duration (secs: nat) (subsec_nanos: nat)

instantiation duration :: linorder
begin

fun less_eq_duration :: "duration \<Rightarrow> duration \<Rightarrow> bool" where
  "less_eq_duration (Duration s n) (Duration s' n') = (s < s' \<or> s = s' \<and> n \<le> n')"

definition less_duration :: "duration \<Rightarrow> duration \<Rightarrow> bool" where
  "less_duration d e = (d \<le> e \<and> \<not> e \<le> d)"

instance
proof
  fix a b c :: duration
  show "(a < b) = (a \<le> b \<and> \<not> b \<le> a)" by (rule less_duration_def)
  show "a \<le> a" by (cases a) simp
  show "a \<le> c" if "a \<le> b" "b \<le> c" using that by (cases a; cases b; cases c) auto
  show "a = b" if "a \<le> b" "b \<le> a" using that by (cases a; cases b) auto
  show "a \<le> b \<or> b \<le> a" by (cases a; cases b) auto
qed

end

definition as_nanos :: "duration \<Rightarrow> nat" where
  "as_nanos d = secs d * 1000000000 + subsec_nanos d"

definition duration_ok :: "duration \<Rightarrow> bool" where
  "duration_ok d \<longleftrightarrow> subsec_nanos d < 1000000000"

lemma as_nanos_mono: "d \<le> e \<Longrightarrow> duration_ok d \<Longrightarrow> as_nanos d \<le> as_nanos e"
  by (cases d; cases e) (auto simp: as_nanos_def duration_ok_def)

definition percentiles :: "duration list \<Rightarrow> (nat \<times> nat) option" where
  "percentiles ls = (let s = sort ls; len = length s in
     if len div 2 < len \<and> len - len div 100 < len
     then Some (as_nanos (s ! (len div 2)), as_nanos (s ! (len - len div 100))) else None)"

text \<open>The latency benchmark; \<open>clock key\<close> is what the clock measured for a key.\<close>

definition latency :: "(u64 \<Rightarrow> duration) \<Rightarrow> (nat \<times> nat) workload" where
  "latency clock = chain (each (\<lambda>key ls. chain (observe_first key []) (\<lambda>_. Finish (ls @ [clock key]))) (keys_below N_LAT) [])
     (\<lambda>ls. case percentiles ls of
         None \<Rightarrow> Fails
       | Some p \<Rightarrow> ask (DropSpace 0) (\<lambda>_. Finish p))"

text \<open>The two phases of \<open>allocation_and_retention\<close>, each on a space of its own.\<close>

definition allocation_phase :: "u64 option list workload" where
  "allocation_phase = over_keys observe_first N_ALLOC []"

definition retention_phase :: "(handle list \<times> handle list) workload" where
  "retention_phase =
     chain (each (\<lambda>key (subjects, observations).
         expect (MakeSubject key) (\<lambda>subject.
         expect (Observe key) (\<lambda>observation. Finish (subjects @ [subject], observations @ [observation]))))
       (keys_below M_RETAINED) ([], [])) (\<lambda>(subjects, observations).
     chain (each (\<lambda>h x. ask (DropSubject h) (\<lambda>_. Finish x)) subjects (subjects, observations)) (\<lambda>x.
     chain (each (\<lambda>h x. ask (DropObservation h) (\<lambda>_. Finish x)) observations x) (\<lambda>x.
     ask (DropSpace 0) (\<lambda>_. Finish x))))"

text \<open>The keys of a worker of \<open>contention\<close>.\<close>

definition contention_keys :: "nat \<Rightarrow> nat \<Rightarrow> u64 list" where
  "contention_keys workers worker = (let per_thread = N div workers; base = of_nat worker * of_nat per_thread in
     map (\<lambda>offset. base + offset) (keys_below per_thread))"

subsection \<open>One iteration\<close>

text \<open>Between two iterations the program owns the space and nothing else.\<close>

abbreviation idle :: "nat \<Rightarrow> (u64, u64) spec \<Rightarrow> bool" where
  "idle n a \<equiv> tracks nothing_tracked Map.empty [] [] n a"

lemma idle_again:
  assumes t: "tracks v Map.empty [] [] n a"
  shows "idle n a"
proof (rule tracksI)
  show "owners_ok nothing_tracked Map.empty [] [] a"
    using tracksD(4) [OF t] by (simp add: owners_ok_def)
qed (use tracksD [OF t] in \<open>simp_all add: known_ok_def generations_ok_def nothing_tracked_def\<close>)

lemma round_register:
  assumes "idle n a" and n: "n + 2 < 2 ^ 64"
  obtains v h a' where "spec_exec (\<lambda>_. False) (MakeSubject key) a = Some (Ret (NewHandle h), a')"
    and "tracks v [key \<mapsto> (h, 0)] [] [] (Suc n) a'" and "result v (key, 0) = None"
proof -
  have none: "Map.empty key = (None :: (handle \<times> u64) option)" by simp
  have new: "(key, 0) \<notin> known (nothing_tracked :: (u64, u64) tracked)" by (simp add: nothing_tracked_def)
  let ?t = "nothing_tracked :: (u64, u64) tracked"
  obtain a' where a':
    "spec_exec (\<lambda>_. False) (MakeSubject key) a = Some (Ret (NewHandle (names a)), a')"
    "tracks \<lparr>known = insert (key, 0) (known ?t), number = (number ?t)((key, 0) := generations a),
        result = (result ?t)((key, 0) := None), queue = (queue ?t)((key, 0) := [])\<rparr>
      [key \<mapsto> (names a, 0)] [] [] (Suc n) a'" "same_history a a'"
    by (rule tracks_register [OF assms(1) none new n, of "\<lambda>_. False"])
  from a'(1) a'(2) show ?thesis by (rule that) simp
qed

lemma round_complete:
  assumes "tracks v [key \<mapsto> (h, 0)] obs [] n a" and "result v (key, 0) = None"
  obtains v' a' where "spec_exec (\<lambda>_. False) (Complete h x) a = Some (Ret Done, a')"
    and "tracks v' [key \<mapsto> (h, 0)] obs [] n a'" and "result v' (key, 0) = Some x"
proof -
  have "[key \<mapsto> (h, 0 :: u64)] key = Some (h, 0)" by simp
  from tracks_complete [OF assms(1) this assms(2), of x] obtain a' where a':
    "spec_exec (\<lambda>_. False) (Complete h x) a = Some (Ret Done, a')"
    "tracks (v\<lparr>result := (result v)((key, 0) \<mapsto> x), queue := (queue v)((key, 0) := [])\<rparr>) [key \<mapsto> (h, 0)] obs [] n a'"
    by blast
  from a' show ?thesis by (rule that) simp
qed

lemma round_observe:
  assumes "tracks v [key \<mapsto> (h, 0)] obs [] n a"
  obtains m a' where "spec_exec (\<lambda>_. False) (Observe key) a = Some (Ret (NewHandle m), a')"
    and "tracks v [key \<mapsto> (h, 0)] (obs @ [(key, 0, m)]) [] n a'"
proof -
  have "[key \<mapsto> (h, 0 :: u64)] key = Some (h, 0)" by simp
  from tracks_observe [OF assms this, of "\<lambda>_. False"] that show ?thesis by blast
qed

lemma round_drop:
  assumes "tracks v live ((k, e, h) # obs) [] n a"
  obtains a' where "spec_exec (\<lambda>_. False) (DropObservation h) a = Some (Ret Done, a')" and "tracks v live obs [] n a'"
  using tracks_drop_observation [of v live "[]" k e h obs "[]" n a "\<lambda>_. False"] assms by auto

lemma round_retire:
  assumes "tracks v [key \<mapsto> (h, 0)] [] [] n a"
  obtains a' where "spec_exec (\<lambda>_. False) (DropSubject h) a = Some (Ret Done, a')" and "idle n a'"
proof -
  have "[key \<mapsto> (h, 0 :: u64)] key = Some (h, 0)" by simp
  from tracks_retire [OF assms this, of "\<lambda>_. False"] obtain a' where
    a': "spec_exec (\<lambda>_. False) (DropSubject h) a = Some (Ret Done, a')" "tracks v ([key \<mapsto> (h, 0)](key := None)) [] [] n a'"
    by blast
  have "[key \<mapsto> (h, 0 :: u64)](key := None) = Map.empty" by auto
  with idle_again a'(2) have "idle n a'" by simp
  with a'(1) show ?thesis by (rule that)
qed

lemmas interp_workload = expect_def read_def

lemma observe_first_ok:
  assumes "idle n a" and n: "n + 2 < 2 ^ 64"
  shows "\<exists>a'. on_contract (observe_first key seen) a = Some (seen @ [Some key], a') \<and> idle (Suc n) a'"
proof -
  obtain v h a1 where a1: "spec_exec (\<lambda>_. False) (MakeSubject key) a = Some (Ret (NewHandle h), a1)"
    "tracks v [key \<mapsto> (h, 0)] [] [] (Suc n) a1" "result v (key, 0) = None" by (rule round_register [OF assms])
  obtain m a2 where a2: "spec_exec (\<lambda>_. False) (Observe key) a1 = Some (Ret (NewHandle m), a2)"
    "tracks v [key \<mapsto> (h, 0)] [(key, 0, m)] [] (Suc n) a2" using round_observe [OF a1(2)] by auto
  obtain v' a3 where a3: "spec_exec (\<lambda>_. False) (Complete h key) a2 = Some (Ret Done, a3)"
    "tracks v' [key \<mapsto> (h, 0)] [(key, 0, m)] [] (Suc n) a3" "result v' (key, 0) = Some key"
    by (rule round_complete [OF a2(2) a1(3)])
  have get: "spec_exec (\<lambda>_. False) (TryGet m) a3 = Some (Ret (Value (result v' (key, 0))), a3)"
    by (rule tracks_try_get [OF a3(2)]) simp
  obtain a4 where a4: "spec_exec (\<lambda>_. False) (DropObservation m) a3 = Some (Ret Done, a4)"
    "tracks v' [key \<mapsto> (h, 0)] [] [] (Suc n) a4" by (rule round_drop [OF a3(2)])
  obtain a5 where a5: "spec_exec (\<lambda>_. False) (DropSubject h) a4 = Some (Ret Done, a5)" "idle (Suc n) a5"
    by (rule round_retire [OF a4(2)])
  show ?thesis using a5(2)
    by (simp add: observe_first_def interp_workload a1(1) a2(1) a3(1,3) get a4(1) a5(1) del: spec_exec.simps)
qed

lemma complete_first_ok:
  assumes "idle n a" and n: "n + 2 < 2 ^ 64"
  shows "\<exists>a'. on_contract (complete_first key seen) a = Some (seen @ [Some key], a') \<and> idle (Suc n) a'"
proof -
  obtain v h a1 where a1: "spec_exec (\<lambda>_. False) (MakeSubject key) a = Some (Ret (NewHandle h), a1)"
    "tracks v [key \<mapsto> (h, 0)] [] [] (Suc n) a1" "result v (key, 0) = None" by (rule round_register [OF assms])
  obtain v' a2 where a2: "spec_exec (\<lambda>_. False) (Complete h key) a1 = Some (Ret Done, a2)"
    "tracks v' [key \<mapsto> (h, 0)] [] [] (Suc n) a2" "result v' (key, 0) = Some key" by (rule round_complete [OF a1(2,3)])
  obtain m a3 where a3: "spec_exec (\<lambda>_. False) (Observe key) a2 = Some (Ret (NewHandle m), a3)"
    "tracks v' [key \<mapsto> (h, 0)] [(key, 0, m)] [] (Suc n) a3" using round_observe [OF a2(2)] by auto
  have get: "spec_exec (\<lambda>_. False) (TryGet m) a3 = Some (Ret (Value (result v' (key, 0))), a3)"
    by (rule tracks_try_get [OF a3(2)]) simp
  obtain a4 where a4: "spec_exec (\<lambda>_. False) (DropObservation m) a3 = Some (Ret Done, a4)"
    "tracks v' [key \<mapsto> (h, 0)] [] [] (Suc n) a4" by (rule round_drop [OF a3(2)])
  obtain a5 where a5: "spec_exec (\<lambda>_. False) (DropSubject h) a4 = Some (Ret Done, a5)" "idle (Suc n) a5"
    by (rule round_retire [OF a4(2)])
  show ?thesis using a5(2)
    by (simp add: complete_first_def interp_workload a1(1) a2(1,3) a3(1) get a4(1) a5(1) del: spec_exec.simps)
qed

lemma retire_ok:
  assumes "idle n a" and n: "n + 2 < 2 ^ 64"
  shows "\<exists>a'. on_contract (retire key seen) a = Some (seen, a') \<and> idle (Suc n) a'"
proof -
  obtain v h a1 where a1: "spec_exec (\<lambda>_. False) (MakeSubject key) a = Some (Ret (NewHandle h), a1)"
    "tracks v [key \<mapsto> (h, 0)] [] [] (Suc n) a1" by (rule round_register [OF assms])
  obtain a2 where a2: "spec_exec (\<lambda>_. False) (DropSubject h) a1 = Some (Ret Done, a2)" "idle (Suc n) a2"
    by (rule round_retire [OF a1(2)])
  show ?thesis using a2(2) by (simp add: retire_def interp_workload a1(1) a2(1) del: spec_exec.simps)
qed

lemma cancel_observer_ok:
  assumes "idle n a" and n: "n + 2 < 2 ^ 64"
  shows "\<exists>a'. on_contract (cancel_observer key seen) a = Some (seen, a') \<and> idle (Suc n) a'"
proof -
  obtain v h a1 where a1: "spec_exec (\<lambda>_. False) (MakeSubject key) a = Some (Ret (NewHandle h), a1)"
    "tracks v [key \<mapsto> (h, 0)] [] [] (Suc n) a1" "result v (key, 0) = None" by (rule round_register [OF assms])
  obtain m a2 where a2: "spec_exec (\<lambda>_. False) (Observe key) a1 = Some (Ret (NewHandle m), a2)"
    "tracks v [key \<mapsto> (h, 0)] [(key, 0, m)] [] (Suc n) a2" using round_observe [OF a1(2)] by auto
  obtain a3 where a3: "spec_exec (\<lambda>_. False) (DropObservation m) a2 = Some (Ret Done, a3)"
    "tracks v [key \<mapsto> (h, 0)] [] [] (Suc n) a3" by (rule round_drop [OF a2(2)])
  obtain v' a4 where a4: "spec_exec (\<lambda>_. False) (Complete h key) a3 = Some (Ret Done, a4)"
    "tracks v' [key \<mapsto> (h, 0)] [] [] (Suc n) a4" by (rule round_complete [OF a3(2) a1(3)])
  obtain a5 where a5: "spec_exec (\<lambda>_. False) (DropSubject h) a4 = Some (Ret Done, a5)" "idle (Suc n) a5"
    by (rule round_retire [OF a4(2)])
  show ?thesis using a5(2)
    by (simp add: cancel_observer_def interp_workload a1(1) a2(1) a3(1) a4(1) a5(1) del: spec_exec.simps)
qed

subsection \<open>Fan-out\<close>

lemma observe_loop:
  assumes "tracks v [key \<mapsto> (h, 0)] (map (\<lambda>m. (key, 0, m)) ms) [] n a"
  shows "\<exists>ms' a'. on_contract (each (\<lambda>_ ms. expect (Observe key) (\<lambda>m. Finish (ms @ [m]))) xs ms) a = Some (ms @ ms', a')
    \<and> length ms' = length xs \<and> tracks v [key \<mapsto> (h, 0)] (map (\<lambda>m. (key, 0, m)) (ms @ ms')) [] n a'"
  using assms
proof (induction xs arbitrary: ms a)
  case Nil
  then show ?case by simp
next
  case (Cons x xs)
  obtain m a1 where a1: "spec_exec (\<lambda>_. False) (Observe key) a = Some (Ret (NewHandle m), a1)"
    "tracks v [key \<mapsto> (h, 0)] (map (\<lambda>m. (key, 0, m)) ms @ [(key, 0, m)]) [] n a1" by (rule round_observe [OF Cons.prems])
  have "tracks v [key \<mapsto> (h, 0)] (map (\<lambda>m. (key, 0, m)) (ms @ [m])) [] n a1" using a1(2) by simp
  from Cons.IH [OF this] obtain ms' a' where
    "on_contract (each (\<lambda>_ ms. expect (Observe key) (\<lambda>m. Finish (ms @ [m]))) xs (ms @ [m])) a1 = Some ((ms @ [m]) @ ms', a')"
    "length ms' = length xs" "tracks v [key \<mapsto> (h, 0)] (map (\<lambda>m. (key, 0, m)) ((ms @ [m]) @ ms')) [] n a'" by blast
  with a1(1) show ?case
    by (intro exI [of _ "m # ms'"] exI [of _ a']) (simp add: interp_chain expect_def del: spec_exec.simps fun_upd_apply)
qed

lemma read_loop:
  assumes "tracks v live obs [] n a" and "\<forall>m\<in>set ms. (key, 0, m) \<in> set obs" and "result v (key, 0) = Some key"
  shows "on_contract (each (\<lambda>m seen. read m (\<lambda>x. Finish (seen @ [x]))) ms seen) a = Some (seen @ replicate (length ms) (Some key), a)"
  using assms(2)
proof (induction ms arbitrary: seen)
  case (Cons m ms)
  have "spec_exec (\<lambda>_. False) (TryGet m) a = Some (Ret (Value (Some key)), a)"
    using tracks_try_get [OF assms(1), of key 0 m] Cons.prems assms(3) by simp
  with Cons show ?case by (simp add: interp_chain read_def del: spec_exec.simps)
qed simp

lemma drop_loop:
  assumes "tracks v live (map (\<lambda>(k, m). (k, 0, m)) qs) [] n a"
  shows "\<exists>a'. on_contract (each (\<lambda>m x. ask (DropObservation m) (\<lambda>_. Finish x)) (map snd qs) x) a = Some (x, a')
    \<and> tracks v live [] [] n a'"
  using assms
proof (induction qs arbitrary: a)
  case (Cons q qs)
  obtain k m where q: "q = (k, m)" by (cases q)
  have "tracks v live ((k, 0, m) # map (\<lambda>(k, m). (k, 0, m)) qs) [] n a" using Cons.prems q by simp
  then obtain a1 where a1: "spec_exec (\<lambda>_. False) (DropObservation m) a = Some (Ret Done, a1)"
    "tracks v live (map (\<lambda>(k, m). (k, 0, m)) qs) [] n a1" by (rule round_drop)
  from Cons.IH [OF a1(2)] a1(1) q show ?case by (auto simp: interp_chain simp del: spec_exec.simps)
qed simp

lemma fanout_round_ok:
  assumes "idle n a" and n: "n + 2 < 2 ^ 64"
  shows "\<exists>a'. on_contract (fanout_round observers key seen) a = Some (seen @ replicate observers (Some key), a') \<and> idle (Suc n) a'"
proof -
  obtain v h a1 where a1: "spec_exec (\<lambda>_. False) (MakeSubject key) a = Some (Ret (NewHandle h), a1)"
    "tracks v [key \<mapsto> (h, 0)] [] [] (Suc n) a1" "result v (key, 0) = None" by (rule round_register [OF assms])
  have "tracks v [key \<mapsto> (h, 0)] (map (\<lambda>m. (key, 0, m)) []) [] (Suc n) a1" using a1(2) by simp
  from observe_loop [OF this, of "[0..<observers]"] obtain ms a2 where a2:
    "on_contract (each (\<lambda>_ ms. expect (Observe key) (\<lambda>m. Finish (ms @ [m]))) [0..<observers] []) a1 = Some (ms, a2)"
    "length ms = observers" "tracks v [key \<mapsto> (h, 0)] (map (\<lambda>m. (key, 0, m)) ms) [] (Suc n) a2" by auto
  obtain v' a3 where a3: "spec_exec (\<lambda>_. False) (Complete h key) a2 = Some (Ret Done, a3)"
    "tracks v' [key \<mapsto> (h, 0)] (map (\<lambda>m. (key, 0, m)) ms) [] (Suc n) a3" "result v' (key, 0) = Some key"
    by (rule round_complete [OF a2(3) a1(3)])
  have reads: "on_contract (each (\<lambda>m seen. read m (\<lambda>x. Finish (seen @ [x]))) ms seen) a3
      = Some (seen @ replicate observers (Some key), a3)"
    using read_loop [OF a3(2) _ a3(3), of ms seen] a2(2) by auto
  have "tracks v' [key \<mapsto> (h, 0)] (map (\<lambda>(k, m). (k, 0, m)) (map (Pair key) ms)) [] (Suc n) a3"
    using a3(2) by (simp add: comp_def)
  from drop_loop [OF this, of "seen @ replicate observers (Some key)"] obtain a4 where a4:
    "on_contract (each (\<lambda>m x. ask (DropObservation m) (\<lambda>_. Finish x)) ms (seen @ replicate observers (Some key))) a3
       = Some (seen @ replicate observers (Some key), a4)"
    "tracks v' [key \<mapsto> (h, 0)] [] [] (Suc n) a4" by (auto simp: comp_def)
  obtain a5 where a5: "spec_exec (\<lambda>_. False) (DropSubject h) a4 = Some (Ret Done, a5)" "idle (Suc n) a5"
    by (rule round_retire [OF a4(2)])
  show ?thesis using a5(2)
    by (simp add: fanout_round_def expect_def [of "MakeSubject key"] interp_chain a1(1) a2(1) a3(1) reads a4(1) a5(1) del: spec_exec.simps)
qed

subsection \<open>The loops\<close>

lemma rounds_ok:
  assumes step: "\<And>n a key x. idle n a \<Longrightarrow> n + 2 < 2 ^ 64 \<Longrightarrow>
      \<exists>a'. on_contract (round key x) a = Some (f key x, a') \<and> idle (Suc n) a'"
    and "idle n a" and "n + length ks + 2 < 2 ^ 64"
  shows "\<exists>a'. on_contract (each round ks x) a = Some (fold f ks x, a') \<and> idle (n + length ks) a'"
  using assms(2,3)
proof (induction ks arbitrary: n a x)
  case (Cons k ks)
  then have "n + 2 < 2 ^ 64" by simp
  from step [OF Cons.prems(1) this, of k x] obtain a1 where
    "on_contract (round k x) a = Some (f k x, a1)" "idle (Suc n) a1" by blast
  with Cons.IH [of "Suc n" a1 "f k x"] Cons.prems(2) show ?case by (simp add: interp_chain)
qed simp

lemma length_keys_below [simp]: "length (keys_below n) = n"
  by (simp add: keys_below_def)

lemma over_keys_ok:
  assumes step: "\<And>n a key x. idle n a \<Longrightarrow> n + 2 < 2 ^ 64 \<Longrightarrow>
      \<exists>a'. on_contract (round key x) a = Some (f key x, a') \<and> idle (Suc n) a'"
    and "m + 2 < 2 ^ 64"
  shows "\<exists>a. on_contract (over_keys round m x) spec_new = Some (fold f (keys_below m) x, a) \<and> nothing_owned a"
proof -
  from rounds_ok [of round f, OF step nothing_tracked_new, of "keys_below m" x] assms(2) obtain a where
    a: "on_contract (each round (keys_below m) x) spec_new = Some (fold f (keys_below m) x, a)" "idle m a" by auto
  from drop_space [OF a(2), of "fold f (keys_below m) x"] a(1) show ?thesis by (auto simp: over_keys_def interp_chain)
qed

lemma fold_snoc: "fold (\<lambda>k seen. seen @ g k) ks xs = xs @ concat (map g ks)"
  by (induction ks arbitrary: xs) simp_all

definition runs :: "'x workload \<Rightarrow> 'x \<Rightarrow> bool" where
  "runs m x \<longleftrightarrow> (\<exists>w. on_crate m space_new = Some (x, w) \<and> all_freed w)"

lemma runsI: "on_contract m spec_new = Some (x, a) \<Longrightarrow> nothing_owned a \<Longrightarrow> runs m x"
  unfolding runs_def by (rule crate_freed) blast+

lemma runs_over_keys:
  assumes "\<And>n a key seen. idle n a \<Longrightarrow> n + 2 < 2 ^ 64 \<Longrightarrow>
      \<exists>a'. on_contract (round key seen) a = Some (seen @ g key, a') \<and> idle (Suc n) a'"
    and "m + 2 < 2 ^ 64"
  shows "runs (over_keys round m []) (concat (map g (keys_below m)))"
proof -
  from over_keys_ok [of round "\<lambda>k seen. seen @ g k", OF assms(1) assms(2), of "[]"] obtain a where
    "on_contract (over_keys round m []) spec_new = Some (concat (map g (keys_below m)), a)" "nothing_owned a"
    by (auto simp: fold_snoc)
  then show ?thesis by (rule runsI)
qed

lemma concat_single: "concat (map (\<lambda>k. [f k]) ks) = map f ks"
  by (induction ks) simp_all

lemma concat_none: "concat (map (\<lambda>k. []) ks) = []"
  by (induction ks) simp_all

lemma bounds_small: "N + 2 < 2 ^ 64" "N_LAT + 2 < 2 ^ 64" "M_FANOUT + 2 < 2 ^ 64" "N_ALLOC + 2 < 2 ^ 64" "M_RETAINED + 2 < 2 ^ 64"
  by (simp_all add: N_def N_LAT_def M_FANOUT_def N_ALLOC_def M_RETAINED_def)

lemma runs_observe_first: "m + 2 < 2 ^ 64 \<Longrightarrow> runs (over_keys observe_first m []) (map Some (keys_below m))"
  using runs_over_keys [of observe_first "\<lambda>k. [Some k]" m] observe_first_ok by (simp add: concat_single)

lemma runs_silent:
  assumes "\<And>n a key seen. idle n a \<Longrightarrow> n + 2 < 2 ^ 64 \<Longrightarrow>
      \<exists>a'. on_contract (round key seen) a = Some (seen, a') \<and> idle (Suc n) a'"
    and "m + 2 < 2 ^ 64"
  shows "runs (over_keys round m []) []"
  using runs_over_keys [of round "\<lambda>_. []" m] assms by (simp add: concat_none)

subsection \<open>Latency percentiles\<close>

lemma percentiles_total:
  assumes "length ls \<ge> 100" and ok: "\<forall>d\<in>set ls. duration_ok d"
  obtains p50 p99 where "percentiles ls = Some (p50, p99)" and "p50 \<in> as_nanos ` set ls" and "p99 \<in> as_nanos ` set ls"
    and "p50 \<le> p99"
proof -
  let ?n = "length ls"
  have lt: "?n div 2 < ?n" "?n - ?n div 100 < ?n" "?n div 2 \<le> ?n - ?n div 100" using assms by linarith+
  show ?thesis
  proof
    let ?a = "sort ls ! (?n div 2)" and ?b = "sort ls ! (?n - ?n div 100)"
    show "percentiles ls = Some (as_nanos ?a, as_nanos ?b)" using lt by (simp add: percentiles_def Let_def)
    have mem: "?a \<in> set ls" "?b \<in> set ls" using lt(1,2) nth_mem [of _ "sort ls"] by simp_all
    then show "as_nanos ?a \<in> as_nanos ` set ls" "as_nanos ?b \<in> as_nanos ` set ls" by simp_all
    have "?a \<le> ?b" using lt by (intro sorted_nth_mono) simp_all
    then show "as_nanos ?a \<le> as_nanos ?b" by (rule as_nanos_mono) (use mem(1) ok in blast)
  qed
qed

lemma latency_ok:
  assumes "\<forall>key. duration_ok (clock key)"
  shows "\<exists>p50 p99. percentiles (map clock (keys_below N_LAT)) = Some (p50, p99) \<and> p50 \<le> p99 \<and> runs (latency clock) (p50, p99)"
proof -
  let ?round = "\<lambda>key ls. chain (observe_first key []) (\<lambda>_. Finish (ls @ [clock key]))"
  have step: "\<exists>a'. on_contract (?round key ls) a = Some (ls @ [clock key], a') \<and> idle (Suc n) a'"
    if "idle n a" "n + 2 < 2 ^ 64" for n a key ls
    using observe_first_ok [OF that, of key "[]"] by (auto simp: interp_chain)
  have small: "0 + length (keys_below N_LAT) + 2 < 2 ^ 64" using bounds_small(2) by simp
  from rounds_ok [of ?round "\<lambda>key ls. ls @ [clock key]", OF step nothing_tracked_new small, of "[]"] obtain a where
    a: "on_contract (each ?round (keys_below N_LAT) []) spec_new = Some (map clock (keys_below N_LAT), a)" "idle N_LAT a"
    by (auto simp: fold_snoc [of "\<lambda>k. [clock k]"] concat_single)
  have "length (map clock (keys_below N_LAT)) \<ge> 100" "\<forall>d\<in>set (map clock (keys_below N_LAT)). duration_ok d"
    using assms by (simp_all add: N_LAT_def)
  then obtain p50 p99 where p: "percentiles (map clock (keys_below N_LAT)) = Some (p50, p99)" "p50 \<le> p99"
    by (rule percentiles_total)
  from drop_space [OF a(2), of "(p50, p99)"] obtain a' where
    d: "on_contract (ask (DropSpace 0) (\<lambda>_. Finish (p50, p99))) a = Some ((p50, p99), a')" "nothing_owned a'" by blast
  have "on_contract (latency clock) spec_new = Some ((p50, p99), a')"
    by (simp add: latency_def interp_chain a(1) p(1) d(1) del: interp_ask)
  from runsI [OF this d(2)] p show ?thesis by blast
qed

subsection \<open>Retention\<close>

lemma map_of_keys: "k \<notin> fst ` set ps \<Longrightarrow> map_of (map (\<lambda>(k, h). (k, f h)) ps) k = None"
  by (induction ps) auto

lemma map_of_snoc: "k \<notin> fst ` set xs \<Longrightarrow> map_of (xs @ [(k, y)]) = (map_of xs)(k \<mapsto> y)"
  by (induction xs) (auto simp: fun_upd_twist)

lemma retain_loop:
  fixes ps qs :: "(u64 \<times> handle) list"
  assumes "tracks v (map_of (map (\<lambda>(k, h). (k, (h, 0))) ps)) (map (\<lambda>(k, m). (k, 0, m)) qs) [] n a"
    and "known v \<subseteq> (\<lambda>(k, h). (k, 0)) ` set ps" and "distinct (map fst ps @ ks)" and "n + length ks + 2 < 2 ^ 64"
  shows "\<exists>ps' qs' v' n' a'. on_contract (each (\<lambda>key (subjects, observations).
         expect (MakeSubject key) (\<lambda>subject.
         expect (Observe key) (\<lambda>observation. Finish (subjects @ [subject], observations @ [observation]))))
       ks (map snd ps, map snd qs)) a = Some ((map snd ps', map snd qs'), a')
     \<and> tracks v' (map_of (map (\<lambda>(k, h). (k, (h, 0))) ps')) (map (\<lambda>(k, m). (k, 0, m)) qs') [] n' a'
     \<and> map fst ps' = map fst ps @ ks \<and> map fst qs' = map fst qs @ ks"
  using assms
proof (induction ks arbitrary: ps qs v n a)
  case Nil
  then show ?case by (intro exI [of _ ps] exI [of _ qs] exI [of _ v] exI [of _ n] exI [of _ a]) simp
next
  case (Cons k ks)
  let ?live = "map_of (map (\<lambda>(k, h). (k, (h, 0 :: u64))) ps)"
  have fresh: "k \<notin> fst ` set ps" using Cons.prems(3) by auto
  note none = map_of_keys [OF fresh, of "\<lambda>h. (h, 0 :: u64)"]
  have new: "(k, 0) \<notin> known v" using Cons.prems(2) fresh by force
  have n: "n + 2 < 2 ^ 64" using Cons.prems(4) by simp
  let ?v = "\<lparr>known = insert (k, 0) (known v), number = (number v)((k, 0) := generations a),
        result = (result v)((k, 0) := None), queue = (queue v)((k, 0) := [])\<rparr>"
  obtain a1 where a1: "spec_exec (\<lambda>_. False) (MakeSubject k) a = Some (Ret (NewHandle (names a)), a1)"
    "tracks ?v (?live(k \<mapsto> (names a, 0))) (map (\<lambda>(k, m). (k, 0, m)) qs) [] (Suc n) a1" "same_history a a1"
    by (rule tracks_register [OF Cons.prems(1) none new n])
  have live: "(?live(k \<mapsto> (names a, 0))) k = Some (names a, 0)" by simp
  obtain a2 where a2: "spec_exec (\<lambda>_. False) (Observe k) a1 = Some (Ret (NewHandle (names a1)), a2)"
    "tracks ?v (?live(k \<mapsto> (names a, 0))) (map (\<lambda>(k, m). (k, 0, m)) qs @ [(k, 0, names a1)]) [] (Suc n) a2" "same_history a1 a2"
    by (rule tracks_observe [OF a1(2) live])
  let ?ps = "ps @ [(k, names a)]" and ?qs = "qs @ [(k, names a1)]"
  have "k \<notin> fst ` set (map (\<lambda>(k, h). (k, (h, 0 :: u64))) ps)" using none by (simp only: map_of_eq_None_iff not_False_eq_True)
  from map_of_snoc [OF this, of "(names a, 0)"]
  have "?live(k \<mapsto> (names a, 0)) = map_of (map (\<lambda>(k, h). (k, (h, 0))) ?ps)" by simp
  then have t: "tracks ?v (map_of (map (\<lambda>(k, h). (k, (h, 0))) ?ps)) (map (\<lambda>(k, m). (k, 0, m)) ?qs) [] (Suc n) a2"
    using a2(2) by simp
  have kn: "known ?v \<subseteq> (\<lambda>(k, h). (k, 0)) ` set ?ps" using Cons.prems(2) by auto
  have d: "distinct (map fst ?ps @ ks)" using Cons.prems(3) by auto
  have m: "Suc n + length ks + 2 < 2 ^ 64" using Cons.prems(4) by simp
  from Cons.IH [OF t kn d m] obtain ps' qs' v' n' a' where "on_contract (each (\<lambda>key (subjects, observations).
         expect (MakeSubject key) (\<lambda>subject.
         expect (Observe key) (\<lambda>observation. Finish (subjects @ [subject], observations @ [observation]))))
       ks (map snd ?ps, map snd ?qs)) a2 = Some ((map snd ps', map snd qs'), a')"
     "tracks v' (map_of (map (\<lambda>(k, h). (k, (h, 0))) ps')) (map (\<lambda>(k, m). (k, 0, m)) qs') [] n' a'"
     "map fst ps' = map fst ?ps @ ks" "map fst qs' = map fst ?qs @ ks" by blast
  with a1(1) a2(1) show ?case
    by (intro exI [of _ ps'] exI [of _ qs'] exI [of _ v'] exI [of _ n'] exI [of _ a'])
      (simp add: interp_chain expect_def del: spec_exec.simps)
qed

lemma retire_loop:
  fixes ps :: "(u64 \<times> handle) list"
  assumes "tracks v (map_of (map (\<lambda>(k, h). (k, (h, 0))) ps)) obs [] n a" and "distinct (map fst ps)"
  shows "\<exists>a'. on_contract (each (\<lambda>h x. ask (DropSubject h) (\<lambda>_. Finish x)) (map snd ps) x) a = Some (x, a')
    \<and> tracks v Map.empty obs [] n a'"
  using assms
proof (induction ps arbitrary: a)
  case Nil
  then show ?case by simp
next
  case (Cons p ps)
  obtain k h where p: "p = (k, h)" by (cases p)
  let ?live = "map_of (map (\<lambda>(k, h). (k, (h, 0 :: u64))) (p # ps))"
  have "?live k = Some (h, 0)" by (simp add: p)
  from tracks_retire [OF Cons.prems(1) this, of "\<lambda>_. False"] obtain a1 where
    a1: "spec_exec (\<lambda>_. False) (DropSubject h) a = Some (Ret Done, a1)" "tracks v (?live(k := None)) obs [] n a1" by blast
  have "k \<notin> fst ` set ps" using Cons.prems(2) p by auto
  then have "map_of (map (\<lambda>(k, h). (k, (h, 0 :: u64))) ps) k = None" by (rule map_of_keys)
  then have "?live(k := None) = map_of (map (\<lambda>(k, h). (k, (h, 0))) ps)" by (auto simp: p fun_eq_iff)
  with a1(2) have "tracks v (map_of (map (\<lambda>(k, h). (k, (h, 0))) ps)) obs [] n a1" by simp
  from Cons.IH [OF this] Cons.prems(2) a1(1) p show ?case by (auto simp: interp_chain simp del: spec_exec.simps)
qed

lemma distinct_keys_below: "n < 2 ^ 64 \<Longrightarrow> distinct (keys_below n)"
  unfolding keys_below_def distinct_map
  by (auto simp: inj_on_def word_of_nat_eq_iff take_bit_nat_eq_self)

lemma retention_phase_ok:
  "\<exists>subjects observations. length subjects = M_RETAINED \<and> length observations = M_RETAINED
     \<and> runs retention_phase (subjects, observations)"
proof -
  let ?ks = "keys_below M_RETAINED"
  have start: "tracks nothing_tracked (map_of (map (\<lambda>(k, h). (k, (h, 0))) [])) (map (\<lambda>(k, m). (k, 0, m)) []) [] 0 spec_new"
    using nothing_tracked_new by simp
  have kn: "known nothing_tracked \<subseteq> (\<lambda>(k, h). (k, 0)) ` set []" by (simp add: nothing_tracked_def)
  have d: "distinct (map fst [] @ ?ks)" using distinct_keys_below bounds_small(5) by simp
  have m: "0 + length ?ks + 2 < 2 ^ 64" using bounds_small(5) by simp
  from retain_loop [OF start kn d m] obtain ps qs v n a where a: "on_contract (each (\<lambda>key (subjects, observations).
         expect (MakeSubject key) (\<lambda>subject.
         expect (Observe key) (\<lambda>observation. Finish (subjects @ [subject], observations @ [observation]))))
       ?ks ([], [])) spec_new = Some ((map snd ps, map snd qs), a)"
     "tracks v (map_of (map (\<lambda>(k, h). (k, (h, 0))) ps)) (map (\<lambda>(k, m). (k, 0, m)) qs) [] n a"
     "map fst ps = ?ks" "map fst qs = ?ks" by auto
  let ?x = "(map snd ps, map snd qs)"
  have "distinct (map fst ps)" using a(3) d by simp
  from retire_loop [OF a(2) this, of ?x] obtain a1 where
    a1: "on_contract (each (\<lambda>h x. ask (DropSubject h) (\<lambda>_. Finish x)) (map snd ps) ?x) a = Some (?x, a1)"
    "tracks v Map.empty (map (\<lambda>(k, m). (k, 0, m)) qs) [] n a1" by blast
  from drop_loop [OF a1(2), of ?x] obtain a2 where
    a2: "on_contract (each (\<lambda>m x. ask (DropObservation m) (\<lambda>_. Finish x)) (map snd qs) ?x) a1 = Some (?x, a2)"
    "tracks v Map.empty [] [] n a2" by blast
  from drop_space [OF a2(2), of ?x] obtain a3 where
    a3: "on_contract (ask (DropSpace 0) (\<lambda>_. Finish ?x)) a2 = Some (?x, a3)" "nothing_owned a3" by blast
  have "on_contract retention_phase spec_new = Some (?x, a3)"
    by (simp add: retention_phase_def interp_chain a(1) a1(1) a2(1) a3(1) del: interp_ask)
  from runsI [OF this a3(2)] arg_cong [OF a(3), of length] arg_cong [OF a(4), of length] show ?thesis
    by (intro exI [of _ "map snd ps"] exI [of _ "map snd qs"]) simp
qed

text \<open>
  C36: every single-threaded workload of the benchmark runs to its end: no \<open>expect\<close> fails, every
  \<open>try_get\<close> after a completion reads the value of its own key, also when a million generations
  recycle one slot, all observers of a fan-out read it, and at the end everything is freed.
\<close>

theorem workloads_run:
  "runs seq_observe_first (map Some (keys_below N)) \<and> runs seq_complete_first (map Some (keys_below N)) \<and>
   runs seq_retire_recreate [] \<and> runs seq_pool_reuse [] \<and> runs seq_cancel_observer [] \<and>
   runs (fanout observers) (concat (map (\<lambda>key. replicate observers (Some key)) (keys_below M_FANOUT))) \<and>
   runs allocation_phase (map Some (keys_below N_ALLOC)) \<and>
   (\<exists>subjects observations. length subjects = M_RETAINED \<and> length observations = M_RETAINED
      \<and> runs retention_phase (subjects, observations))"
proof (intro conjI)
  show "runs seq_observe_first (map Some (keys_below N))" unfolding seq_observe_first_def by (rule runs_observe_first [OF bounds_small(1)])
  show "runs seq_complete_first (map Some (keys_below N))" unfolding seq_complete_first_def
    using runs_over_keys [of complete_first "\<lambda>k. [Some k]" N] complete_first_ok bounds_small(1) by (simp add: concat_single)
  show "runs seq_retire_recreate []" unfolding seq_retire_recreate_def by (rule runs_silent [OF retire_ok bounds_small(1)])
  show "runs seq_pool_reuse []" unfolding seq_pool_reuse_def by (rule runs_silent [OF retire_ok bounds_small(1)])
  show "runs seq_cancel_observer []" unfolding seq_cancel_observer_def by (rule runs_silent [OF cancel_observer_ok bounds_small(1)])
  show "runs (fanout observers) (concat (map (\<lambda>key. replicate observers (Some key)) (keys_below M_FANOUT)))"
    unfolding fanout_def by (rule runs_over_keys [OF fanout_round_ok bounds_small(3)])
  show "runs allocation_phase (map Some (keys_below N_ALLOC))" unfolding allocation_phase_def by (rule runs_observe_first [OF bounds_small(4)])
qed (rule retention_phase_ok)

text \<open>
  The latency benchmark does not index out of bounds, whatever the clock says: both percentiles
  exist, are latencies that were measured, and the median is at most the 99th percentile.
\<close>

lemma latency_percentiles_exist:
  assumes "\<forall>key. duration_ok (clock key)"
  shows "\<exists>p50 p99. percentiles (map clock (keys_below N_LAT)) = Some (p50, p99) \<and> p50 \<le> p99 \<and> runs (latency clock) (p50, p99)"
  by (rule latency_ok [OF assms])

subsection \<open>The key ranges of \<open>contention\<close>\<close>

lemma contention_keys_range: "contention_keys t w = map of_nat [w * (N div t)..<w * (N div t) + N div t]"
proof -
  have "map (\<lambda>i. of_nat (b + i)) [0..<p] = (map of_nat [b..<b + p] :: u64 list)" for b p
    by (induction p) simp_all
  from this [of "w * (N div t)" "N div t"] show ?thesis
    by (simp add: contention_keys_def keys_below_def Let_def comp_def)
qed

lemma concat_ranges: "concat (map (\<lambda>w. map f [w * p..<w * p + p]) [0..<t]) = map f [0..<t * p]"
proof (induction t)
  case (Suc t)
  have "[0..<Suc t * p] = [0..<t * p] @ [t * p..<t * p + p]"
    using upt_add_eq_append [of 0 "t * p" p] by (simp only: le0 mult_Suc add.commute)
  with Suc.IH show ?case by simp
qed simp

text \<open>
  The workers of the contention benchmark use disjoint ranges of keys that together are all keys,
  for each of its five thread counts.
\<close>

lemma contention_covers_keys:
  "map (\<lambda>workers. concat (map (contention_keys workers) [0..<workers])) [1, 2, 4, 8, 16] = replicate 5 (keys_below N)"
proof -
  have all: "concat (map (contention_keys t) [0..<t]) = keys_below N" if "t * (N div t) = N" for t
    using concat_ranges [of of_nat "N div t" t] that by (simp add: contention_keys_range [abs_def] keys_below_def)
  have "1 * (N div 1) = N" "2 * (N div 2) = N" "4 * (N div 4) = N" "8 * (N div 8) = N" "16 * (N div 16) = N"
    by (simp_all add: N_def)
  note covers = this [THEN all]
  have "replicate 5 ks = [ks, ks, ks, ks, ks]" for ks :: "u64 list" by (simp add: numeral_eq_Suc)
  then show ?thesis unfolding list.map covers by (rule sym)
qed

end
