(* ===== verification/Contention.thy ===== *)
theory Contention
  imports Workloads Ownership
begin

section \<open>The contention workload\<close>

text \<open>
  \<open>contention\<close> of \<open>observe-perf/src/main.rs\<close>: workers with disjoint key ranges race on one space.  The
  single-threaded workloads run on the contract; here a worker runs on the model of the
  crate itself, where dropping a subject has three phases, and between any two of its operations
  the other threads do what they like: any operations and phases, in any number, on any keys but
  the worker's.  Ownership is what protects the worker: the others cannot use its space handle, its
  subject or its observation.
\<close>

subsection \<open>The other threads\<close>

text \<open>
  A number of operations by other threads: each one that the program owns and that does not use the
  handles in \<open>mine\<close> happens.
\<close>

fun others :: "('k, 'o) arc_count \<Rightarrow> (waker \<Rightarrow> bool) \<Rightarrow> handle set \<Rightarrow> ('k, 'o) op list \<Rightarrow> ('k, 'o) world \<Rightarrow> ('k, 'o) world" where
  "others sc wp mine [] w = w"
| "others sc wp mine (op # ops) w = others sc wp mine ops
     (if owns op w \<and> (\<forall>x\<in>mine. \<not> uses op x)
      then (case exec sc wp op w of Inl f \<Rightarrow> w | Inr (r, w') \<Rightarrow> w') else w)"

text \<open>
  One iteration of a worker that owns the space handle \<open>space\<close>, up to \<open>try_get\<close>: \<open>None\<close> is a failed
  \<open>expect\<close>, a panic or a fault; the result says whether \<open>checked\<close> is incremented.  \<open>as\<close>, \<open>bs\<close> and \<open>cs\<close>
  are what the others do in between.
\<close>

definition contention_round :: "(u64, u64) arc_count \<Rightarrow> handle \<Rightarrow> u64 \<Rightarrow> (u64, u64) op list \<Rightarrow> (u64, u64) op list \<Rightarrow>
    (u64, u64) op list \<Rightarrow> (u64, u64) world \<Rightarrow> (bool \<times> handle \<times> handle \<times> (u64, u64) world) option" where
  "contention_round sc space key as bs cs w =
     (if map_of (spaces w) space = None then None else case exec sc (\<lambda>_. False) (MakeSubject key) w of
       Inr (Ret (NewHandle subject), w) \<Rightarrow>
         (let w = others sc (\<lambda>_. False) {space, subject} as w in
          if map_of (spaces w) space = None then None else case exec sc (\<lambda>_. False) (Observe key) w of
            Inr (Ret (NewHandle observation), w) \<Rightarrow>
              (let w = others sc (\<lambda>_. False) {space, subject, observation} bs w in
               case exec sc (\<lambda>_. False) (Complete subject key) w of
                 Inr (Ret Done, w) \<Rightarrow>
                   (let w = others sc (\<lambda>_. False) {space, subject, observation} cs w in
                    case exec sc (\<lambda>_. False) (TryGet observation) w of
                      Inr (Ret (Value x), w) \<Rightarrow> Some (x \<noteq> None, subject, observation, w)
                    | _ \<Rightarrow> None)
               | _ \<Rightarrow> None)
          | _ \<Rightarrow> None)
     | _ \<Rightarrow> None)"

text \<open>
  The end of an iteration drops the locals, last declared first, and a subject in three phases.  A
  worker's iteration has eight operations of its own; \<open>env t\<close> is what the others do before operation
  \<open>t\<close>.  \<open>contention_worker\<close> is the closure of a worker up to \<open>black_box\<close>: it returns \<open>checked\<close>.
\<close>

fun contention_drops :: "(u64, u64) arc_count \<Rightarrow> handle set \<Rightarrow> (nat \<Rightarrow> (u64, u64) op list) \<Rightarrow> nat \<Rightarrow> (u64, u64) op list \<Rightarrow>
    (u64, u64) world \<Rightarrow> (u64, u64) world option" where
  "contention_drops sc mine env t [] w = Some w"
| "contention_drops sc mine env t (op # ops) w =
     (case exec sc (\<lambda>_. False) op (others sc (\<lambda>_. False) mine (env t) w) of
        Inr (Ret Done, w) \<Rightarrow> contention_drops sc mine env (t + 1) ops w
      | _ \<Rightarrow> None)"

definition contention_iteration :: "(u64, u64) arc_count \<Rightarrow> handle \<Rightarrow> (nat \<Rightarrow> (u64, u64) op list) \<Rightarrow> nat \<Rightarrow> u64 \<Rightarrow>
    nat \<Rightarrow> (u64, u64) world \<Rightarrow> (nat \<times> (u64, u64) world) option" where
  "contention_iteration sc space env t key checked w =
     (case contention_round sc space key (env (t + 1)) (env (t + 2)) (env (t + 3)) (others sc (\<lambda>_. False) {space} (env t) w) of
        None \<Rightarrow> None
      | Some (x, subject, observation, w) \<Rightarrow>
          map_option (\<lambda>w. (if x then checked + 1 else checked, w)) (contention_drops sc {space, subject, observation} env (t + 4)
            [DropObservation observation, DropSubject subject, DropSubjectInner subject, DropSubjectSlot subject] w))"

fun contention_loop :: "(u64, u64) arc_count \<Rightarrow> handle \<Rightarrow> (nat \<Rightarrow> (u64, u64) op list) \<Rightarrow> nat \<Rightarrow> u64 list \<Rightarrow>
    nat \<Rightarrow> (u64, u64) world \<Rightarrow> (nat \<times> (u64, u64) world) option" where
  "contention_loop sc space env t [] checked w = Some (checked, w)"
| "contention_loop sc space env t (key # keys) checked w =
     (case contention_iteration sc space env t key checked w of
        None \<Rightarrow> None
      | Some (checked, w) \<Rightarrow> contention_loop sc space env (t + 8) keys checked w)"

definition contention_worker :: "(u64, u64) arc_count \<Rightarrow> handle \<Rightarrow> (nat \<Rightarrow> (u64, u64) op list) \<Rightarrow> nat \<Rightarrow> nat \<Rightarrow>
    (u64, u64) world \<Rightarrow> (nat \<times> (u64, u64) world) option" where
  "contention_worker sc space env workers worker w = contention_loop sc space env 0 (contention_keys workers worker) 0 w"

subsection \<open>What the others cannot change\<close>

text \<open>Only a registration makes a key live, and only a registration draws a generation number.\<close>

definition live_keys :: "('k, 'o) world \<Rightarrow> 'k set" where
  "live_keys w = (\<lambda>x. subject_key (snd x)) ` set (subjects w)"

lemma key_live_keys: "key_live k w \<longleftrightarrow> k \<in> live_keys w"
  by (force simp: key_live_def live_keys_def)

lemma live_keys_same: "subjects w' = subjects w \<Longrightarrow> live_keys w' = live_keys w"
  by (simp add: live_keys_def)

lemma live_keys_update:
  assumes "map_of (subjects w) g = Some sub" and "subjects w' = AList.update g (sub\<lparr>subject_completed := c\<rparr>) (subjects w)"
  shows "live_keys w' \<subseteq> live_keys w"
proof -
  have "(\<lambda>x. subject_key (snd x)) ` set (AList.update g sub' xs) \<subseteq> insert (subject_key sub') ((\<lambda>x. subject_key (snd x)) ` set xs)"
    for sub' and xs :: "(handle \<times> 'a subject) list"
    by (induction xs) auto
  from this [of "sub\<lparr>subject_completed := c\<rparr>" "subjects w"]
  have "live_keys w' \<subseteq> insert (subject_key sub) (live_keys w)" by (simp add: live_keys_def assms(2))
  moreover have "subject_key sub \<in> live_keys w" using map_of_SomeD [OF assms(1)] by (force simp: live_keys_def)
  ultimately show ?thesis by blast
qed

lemma space_subject_subjects:
  "space_subject sc key w = Inr (r, w') \<Longrightarrow>
    subjects w' = subjects w \<or> (\<exists>h sub. subjects w' = subjects w @ [(h, sub)] \<and> subject_key sub = key)"
  by (auto simp: space_subject_def Let_def fresh_handle_def alloc_slot_def
      split: option.splits sum.splits prod.splits if_splits dest!: handle_frames [unfolded same_handles_def])

lemma exec_makes_live:
  assumes ex: "exec sc wp op w = Inr (r, w')" and "op \<noteq> MakeSubject k"
  shows "key_live k w' \<Longrightarrow> key_live k w"
proof (unfold key_live_keys, cases op)
  case (MakeSubject key)
  with ex have "live_keys w' \<subseteq> insert key (live_keys w)"
    by (auto simp: live_keys_def dest!: space_subject_subjects)
  with MakeSubject assms(2) show "k \<in> live_keys w' \<Longrightarrow> k \<in> live_keys w" by auto
next
  case (DropSubject g)
  with ex have "set (subjects w') \<subseteq> set (subjects w)" by (auto dest!: subject_drop_handles dest: in_deleteD)
  then show "k \<in> live_keys w' \<Longrightarrow> k \<in> live_keys w" by (auto simp: live_keys_def)
next
  case (Complete g v)
  then obtain sub where sub: "map_of (subjects w) g = Some sub"
    using ex by (auto simp: subject_complete_def split: option.splits)
  with Complete ex have "subjects w' = subjects w \<or> subjects w' = AList.update g (sub\<lparr>subject_completed := True\<rparr>) (subjects w)"
    by (auto simp: subject_complete_def Let_def split: sum.splits prod.splits if_splits
        dest!: handle_frames [unfolded same_handles_def])
  then show "k \<in> live_keys w' \<Longrightarrow> k \<in> live_keys w" using live_keys_same live_keys_update [OF sub] by blast
qed (use ex in \<open>auto simp: live_keys_def op_defs fresh_handle_def alloc_slot_def Let_def
      split: option.splits sum.splits prod.splits if_splits call.splits
      dest!: handle_frames [unfolded same_handles_def]\<close>)

text \<open>The generation counter: how many registrations are still possible.\<close>

definition drawn_at_most :: "nat \<Rightarrow> ('k, 'o) world \<Rightarrow> bool" where
  "drawn_at_most n w \<longleftrightarrow> (\<forall>i. inner w = Some i \<longrightarrow> unat (next_generation i) \<le> n)"

lemma drawn_at_most_same: "inner w' = inner w \<or> inner w' = None \<Longrightarrow> drawn_at_most n w \<Longrightarrow> drawn_at_most (Suc n) w'"
  by (auto simp: drawn_at_most_def le_SucI)

lemma exec_draws:
  assumes ex: "exec sc wp op w = Inr (r, w')" and "drawn_at_most n w"
  shows "drawn_at_most (Suc n) w'"
proof (cases op)
  case (MakeSubject key)
  have le: "unat (g + 1) \<le> Suc n" if "unat g \<le> n" for g :: usize
    using that unatSuc [of g] by (cases "1 + g = 0") (auto simp: add.commute)
  from MakeSubject ex assms(2) show ?thesis
    by (auto simp: drawn_at_most_def space_subject_def Let_def fresh_handle_def alloc_slot_def le
      split: option.splits sum.splits prod.splits if_splits dest!: inner_frames)
next
  case (DropSubject g)
  then obtain sub i where s: "map_of (subjects w) g = Some sub" "inner w = Some i"
    using ex by (auto simp: subject_drop_def split: option.splits)
  from DropSubject ex s have "inner w' = None \<or> (\<exists>es. inner w' = Some (i\<lparr>entries_of := es\<rparr>))"
    by (auto simp: subject_drop_def Let_def split: option.splits sum.splits prod.splits if_splits dest!: release_keeps_inner)
  with s(2) assms(2) show ?thesis by (auto simp: drawn_at_most_def le_SucI)
qed (use exec_keeps_inner [OF ex] drawn_at_most_same [OF _ assms(2)] in auto)

lemma others_keep:
  assumes "arc_sound sc"
  shows "reach sc w \<Longrightarrow> w' = others sc wp mine ops w \<Longrightarrow> reach sc w' \<and>
    (\<forall>x\<in>mine. (\<forall>u. map_of (spaces w) x = Some u \<longrightarrow> map_of (spaces w') x = Some u) \<and>
      (\<forall>sub. map_of (subjects w) x = Some sub \<longrightarrow> map_of (subjects w') x = Some sub) \<and>
      (\<forall>s. map_of (observations w) x = Some s \<longrightarrow> map_of (observations w') x = Some s) \<and>
      (\<forall>sub. map_of (retiring w) x = Some sub \<longrightarrow> map_of (retiring w') x = Some sub) \<and>
      (\<forall>s. map_of (dying w) x = Some s \<longrightarrow> map_of (dying w') x = Some s))"
proof (induction ops arbitrary: w)
  case (Cons op ops)
  show ?case
  proof (cases "owns op w \<and> (\<forall>x\<in>mine. \<not> uses op x)")
    case True
    then obtain r w1 where w1: "exec sc wp op w = Inr (r, w1)"
      using exec_wf [OF reach_wf [OF assms Cons.prems(1)] assms] by blast
    with True Cons.prems(2) have rest: "w' = others sc wp mine ops w1" by simp
    have "reach sc w1" using Cons.prems(1) True w1 by (blast intro: reach.step)
    from Cons.IH [OF this rest] show ?thesis
      using True exec_keeps_space [OF w1] exec_keeps_subject [OF w1] exec_keeps_observation [OF w1] uses_consumes
        exec_keeps_retiring [OF w1] exec_keeps_dying [OF w1] by blast
  next
    case False
    with Cons show ?thesis by auto
  qed
qed simp

lemma exec_keeps_value:
  assumes "wf w" and "arc_sound sc" and "owns op w" and ex: "exec sc wp op w = Inr (r, w')" and "\<not> consumes op m"
    and m: "map_of (observations w) m = Some s" and v: "value_at w s = Some v"
  shows "value_at w' s = Some v"
proof -
  note reader = observed_reader [OF m] observed_reader [OF exec_keeps_observation [OF ex assms(5) m]]
  have "completes op w \<noteq> Some (s, x)" for x
    using exec_value(2) [OF assms(1-3) reader(1) ex reader(2)] v by auto
  with exec_value(1) [OF assms(1-3) reader(1) ex reader(2)] v show ?thesis by (auto split: option.splits)
qed

lemma others_keep_value:
  assumes "arc_sound sc" and "m \<in> mine"
  shows "reach sc w \<Longrightarrow> map_of (observations w) m = Some s \<Longrightarrow> value_at w s = Some v \<Longrightarrow>
    value_at (others sc wp mine ops w) s = Some v"
proof (induction ops arbitrary: w)
  case (Cons op ops)
  show ?case
  proof (cases "owns op w \<and> (\<forall>x\<in>mine. \<not> uses op x)")
    case True
    note wf = reach_wf [OF assms(1) Cons.prems(1)]
    obtain r w1 where w1: "exec sc wp op w = Inr (r, w1)"
      using exec_wf [OF wf assms(1)] True by blast
    have keep: "\<not> consumes op m" using True assms(2) uses_consumes by blast
    have "reach sc w1" using Cons.prems(1) True w1 by (blast intro: reach.step)
    from Cons.IH [OF this exec_keeps_observation [OF w1 keep Cons.prems(2)]
        exec_keeps_value [OF wf assms(1) _ w1 keep Cons.prems(2,3)]] True w1
    show ?thesis by simp
  next
    case False
    with Cons.IH [OF Cons.prems] show ?thesis by auto
  qed
qed simp

subsection \<open>An iteration under contention\<close>

lemma register_own:
  assumes "arc_sound sc" and "reach sc w" and "inner w = Some i" and "\<not> key_live key w" and "next_generation i \<noteq> USIZE_MAX"
  obtains sub where "exec sc wp (MakeSubject key) w = Inr (Ret (NewHandle (next_handle w)), new_generation key i w)"
    and "subjects (new_generation key i w) = subjects w @ [(next_handle w, sub)]" and "subject_key sub = key"
    and "\<not> subject_completed sub" and "value_at (new_generation key i w) (subject_slot sub) = None"
proof -
  note wf = reach_wf [OF assms(1,2)]
  have "sm_get key (kmap (entries_of i)) = None" using assms(4) key_live_entry [OF wf assms(3)] by simp
  from space_subject_new [OF wf assms(3) this assms(5)] new_generation_subject [OF wf assms(3), of key]
  show ?thesis by (auto intro: that)
qed

lemma observe_own:
  assumes "arc_sound sc" and "reach sc w" and "spaces w \<noteq> []" and sub: "map_of (subjects w) h = Some sub"
  obtains w' where "exec sc wp (Observe (subject_key sub)) w = Inr (Ret (NewHandle (next_handle w)), w')"
    and "map_of (observations w') (next_handle w) = Some (subject_slot sub)" and "heap w' = heap w" and "subjects w' = subjects w"
proof -
  note wf = reach_wf [OF assms(1,2)]
  obtain i where i: "inner w = Some i" using space_inner [OF wf assms(3)] by blast
  note entry = subject_entry [OF wf i map_of_SomeD [OF sub]]
  have "map_of (observations w) (next_handle w) = None" by (rule next_handle_fresh [OF wf])
  with space_observe_eq(1) [OF wf i entry] show ?thesis
    by (intro that [of "w\<lparr>next_handle := next_handle w + 1, observations := observations w @ [(next_handle w, subject_slot sub)]\<rparr>"])
      (simp_all add: map_add_def)
qed

lemma complete_own:
  assumes "arc_sound sc" and "reach sc w" and sub: "map_of (subjects w) h = Some sub" "\<not> subject_completed sub"
    and m: "map_of (observations w) m = Some (subject_slot sub)"
  obtains w' where "exec sc (\<lambda>_. False) (Complete h v) w = Inr (Ret Done, w')"
    and "map_of (observations w') m = Some (subject_slot sub)" and "value_at w' (subject_slot sub) = Some v"
    and "map_of (subjects w') h = Some (sub\<lparr>subject_completed := True\<rparr>)"
proof -
  note wf = reach_wf [OF assms(1,2)]
  have own: "owns (Complete h v) w" using sub(1) by simp
  obtain r w' where ex: "exec sc (\<lambda>_. False) (Complete h v) w = Inr (r, w')" using exec_wf [OF wf assms(1) own] by blast
  have comp: "completes (Complete h v) w = Some (subject_slot sub, v)" using sub by simp
  have m': "map_of (observations w') m = Some (subject_slot sub)"
    by (rule exec_keeps_observation [OF ex _ m]) simp
  have "r = Ret Done" by (rule exec_publishes [OF wf assms(1) ex comp]) (simp add: drain_result_def)
  moreover have "value_at w' (subject_slot sub) = Some v"
    using exec_value(1) [OF wf assms(1) own observed_reader [OF m] ex observed_reader [OF m']] comp by simp
  moreover have "map_of (subjects w') h = Some (sub\<lparr>subject_completed := True\<rparr>)"
    using ex sub by (auto simp: subject_complete_def AList.update_conv' split: sum.splits prod.splits
      dest!: handle_frames [unfolded same_handles_def])
  ultimately show ?thesis using ex m' by (intro that [of w']) simp_all
qed

subsection \<open>What a worker relies on\<close>

text \<open>
  The worker has its space handle, the keys \<open>K\<close> it has still to register are not live, and at most \<open>n\<close>
  generation numbers were drawn.
\<close>

definition ready :: "('k, 'o) arc_count \<Rightarrow> handle \<Rightarrow> 'k set \<Rightarrow> nat \<Rightarrow> ('k, 'o) world \<Rightarrow> bool" where
  "ready sc space K n w \<longleftrightarrow> reach sc w \<and> map_of (spaces w) space \<noteq> None \<and> (\<forall>k\<in>K. \<not> key_live k w) \<and> drawn_at_most n w"

lemma readyD:
  assumes "ready sc space K n w"
  shows "reach sc w" and "map_of (spaces w) space \<noteq> None" and "k \<in> K \<Longrightarrow> \<not> key_live k w" and "drawn_at_most n w"
    and "spaces w \<noteq> []"
  using assms by (auto simp: ready_def)

lemma ready_less: "ready sc space K n w \<Longrightarrow> K' \<subseteq> K \<Longrightarrow> n \<le> m \<Longrightarrow> ready sc space K' m w"
  by (auto simp: ready_def drawn_at_most_def)

lemma exec_ready:
  assumes r: "ready sc space K n w" and "owns op w" and ex: "exec sc wp op w = Inr (r, w')" and "\<not> uses op space"
    and "\<forall>k\<in>K. op \<noteq> MakeSubject k"
  shows "ready sc space K (Suc n) w'"
proof -
  have "reach sc w'" by (rule reach.step [OF readyD(1) [OF r] assms(2) ex])
  moreover have "map_of (spaces w') space \<noteq> None" using exec_keeps_space [OF ex assms(4)] readyD(2) [OF r] by auto
  moreover have "\<forall>k\<in>K. \<not> key_live k w'" using exec_makes_live [OF ex] readyD(3) [OF r] assms(5) by blast
  ultimately show ?thesis using exec_draws [OF ex readyD(4) [OF r]] by (simp add: ready_def)
qed

lemma others_ready:
  assumes "arc_sound sc" and "space \<in> mine"
  shows "ready sc space K n w \<Longrightarrow> \<forall>k\<in>K. MakeSubject k \<notin> set ops \<Longrightarrow> ready sc space K (n + length ops) (others sc wp mine ops w)"
proof (induction ops arbitrary: n w)
  case (Cons op ops)
  show ?case
  proof (cases "owns op w \<and> (\<forall>x\<in>mine. \<not> uses op x)")
    case True
    then obtain r w1 where w1: "exec sc wp op w = Inr (r, w1)"
      using exec_wf [OF reach_wf [OF assms(1) readyD(1) [OF Cons.prems(1)]] assms(1)] by blast
    have "ready sc space K (Suc n) w1"
      by (rule exec_ready [OF Cons.prems(1) _ w1]) (use True assms(2) Cons.prems(2) in auto)
    from Cons.IH [OF this] Cons.prems(2) True w1 show ?thesis by simp
  next
    case False
    have "ready sc space K (Suc n) w" by (rule ready_less [OF Cons.prems(1)]) simp_all
    from Cons.IH [OF this] Cons.prems(2) False show ?thesis by auto
  qed
qed simp

lemma ready_register:
  assumes "arc_sound sc" and r: "ready sc space K n w" and "\<not> key_live key w" and "key \<notin> K" and "n < 2 ^ 64 - 1"
  obtains h sub w' where "exec sc (\<lambda>_. False) (MakeSubject key) w = Inr (Ret (NewHandle h), w')"
    and "ready sc space K (Suc n) w'" and "map_of (subjects w') h = Some sub" and "subject_key sub = key"
    and "\<not> subject_completed sub"
proof -
  note wf = reach_wf [OF assms(1) readyD(1) [OF r]]
  obtain i where i: "inner w = Some i" using space_inner [OF wf readyD(5) [OF r]] by blast
  have "next_generation i \<noteq> USIZE_MAX"
    using readyD(4) [OF r] i assms(5) by (auto simp: drawn_at_most_def unat_USIZE_MAX)
  from register_own [OF assms(1) readyD(1) [OF r] i assms(3) this] obtain sub where
    ex: "exec sc (\<lambda>_. False) (MakeSubject key) w = Inr (Ret (NewHandle (next_handle w)), new_generation key i w)"
    "subjects (new_generation key i w) = subjects w @ [(next_handle w, sub)]" "subject_key sub = key" "\<not> subject_completed sub"
    by blast
  have "ready sc space K (Suc n) (new_generation key i w)"
    by (rule exec_ready [OF r _ ex(1)]) (use readyD(5) [OF r] assms(4) in auto)
  moreover have "map_of (subjects (new_generation key i w)) (next_handle w) = Some sub"
    using ex(2) next_subject_fresh [OF wf] by (simp add: map_add_def)
  ultimately show ?thesis using that ex by blast
qed

lemma ready_observe:
  assumes "arc_sound sc" and r: "ready sc space K n w" and sub: "map_of (subjects w) h = Some sub" and "subject_key sub = key"
  obtains m w' where "exec sc (\<lambda>_. False) (Observe key) w = Inr (Ret (NewHandle m), w')"
    and "ready sc space K (Suc n) w'" and "map_of (subjects w') h = Some sub" and "map_of (observations w') m = Some (subject_slot sub)"
proof -
  obtain w' where w': "exec sc (\<lambda>_. False) (Observe key) w = Inr (Ret (NewHandle (next_handle w)), w')"
    "map_of (observations w') (next_handle w) = Some (subject_slot sub)" "subjects w' = subjects w"
    using observe_own [OF assms(1) readyD(1) [OF r] readyD(5) [OF r] sub, of "\<lambda>_. False"] assms(4) by blast
  have "ready sc space K (Suc n) w'" by (rule exec_ready [OF r _ w'(1)]) (use readyD(5) [OF r] in auto)
  with w' sub show ?thesis by (intro that [of "next_handle w" w']) simp_all
qed

lemma contention_round_ok:
  assumes "arc_sound sc" and r: "ready sc space K n w" and "\<not> key_live key w" and "key \<notin> K" and "n < 2 ^ 64 - 1"
    and quiet: "\<forall>k\<in>K. MakeSubject k \<notin> set as \<union> set bs \<union> set cs"
  obtains h m w' where "contention_round sc space key as bs cs w = Some (True, h, m, w')"
    and "ready sc space K (n + length as + length bs + length cs + 3) w'"
    and "map_of (subjects w') h \<noteq> None" and "map_of (observations w') m \<noteq> None"
proof -
  from ready_register [OF assms(1-5)] obtain h sub w1 where
    w1: "exec sc (\<lambda>_. False) (MakeSubject key) w = Inr (Ret (NewHandle h), w1)" "ready sc space K (Suc n) w1"
    "map_of (subjects w1) h = Some sub" "subject_key sub = key" "\<not> subject_completed sub" .
  define w2 where "w2 = others sc (\<lambda>_. False) {space, h} as w1"
  have r2: "ready sc space K (Suc n + length as) w2"
    unfolding w2_def by (rule others_ready [OF assms(1) _ w1(2)]) (use quiet in auto)
  have sub2: "map_of (subjects w2) h = Some sub" using others_keep [OF assms(1) readyD(1) [OF w1(2)] w2_def] w1(3) by simp
  from ready_observe [OF assms(1) r2 sub2 w1(4)] obtain m w3 where
    w3: "exec sc (\<lambda>_. False) (Observe key) w2 = Inr (Ret (NewHandle m), w3)" "ready sc space K (Suc (Suc n + length as)) w3"
    "map_of (subjects w3) h = Some sub" "map_of (observations w3) m = Some (subject_slot sub)" .
  let ?m = "{space, h, m}" and ?s = "subject_slot sub"
  define w4 where "w4 = others sc (\<lambda>_. False) ?m bs w3"
  have r4: "ready sc space K (Suc (Suc n + length as) + length bs) w4"
    unfolding w4_def by (rule others_ready [OF assms(1) _ w3(2)]) (use quiet in auto)
  have kept4: "map_of (subjects w4) h = Some sub" "map_of (observations w4) m = Some ?s"
    using others_keep [OF assms(1) readyD(1) [OF w3(2)] w4_def] w3(3,4) by simp_all
  obtain w5 where w5: "exec sc (\<lambda>_. False) (Complete h key) w4 = Inr (Ret Done, w5)" "map_of (observations w5) m = Some ?s"
    "value_at w5 ?s = Some key" "map_of (subjects w5) h = Some (sub\<lparr>subject_completed := True\<rparr>)"
    by (rule complete_own [OF assms(1) readyD(1) [OF r4] kept4(1) w1(5) kept4(2)])
  have "space \<noteq> h" using handles_apart(2) [OF reach_wf [OF assms(1) readyD(1) [OF r4]] readyD(2) [OF r4]] kept4(1) by auto
  then have r5: "ready sc space K (Suc (Suc (Suc n + length as) + length bs)) w5"
    by (intro exec_ready [OF r4 _ w5(1)]) (use kept4(1) in auto)
  define w6 where "w6 = others sc (\<lambda>_. False) ?m cs w5"
  have r6: "ready sc space K (Suc (Suc (Suc n + length as) + length bs) + length cs) w6"
    unfolding w6_def by (rule others_ready [OF assms(1) _ r5]) (use quiet in auto)
  have kept6: "map_of (subjects w6) h \<noteq> None" "map_of (observations w6) m = Some ?s"
    using others_keep [OF assms(1) readyD(1) [OF r5] w6_def] w5(2,4) by simp_all
  have val6: "value_at w6 ?s = Some key"
    unfolding w6_def by (rule others_keep_value [OF assms(1) _ readyD(1) [OF r5] w5(2,3)]) simp
  note wf6 = reach_wf [OF assms(1) readyD(1) [OF r6]]
  obtain sl where "heap w6 ?s = Some sl" using observed_slot [OF wf6 kept6(2)] .
  then have get: "exec sc (\<lambda>_. False) (TryGet m) w6 = Inr (Ret (Value (Some key)), w6)"
    using observation_try_get_eq [OF wf6 kept6(2)] val6 by (simp add: value_at_def)
  have "contention_round sc space key as bs cs w = Some (True, h, m, w6)"
    using readyD(2) [OF r] w1(1) readyD(2) [OF r2] w3(1) w5(1) get
    by (simp add: contention_round_def w2_def w4_def w6_def Let_def del: exec.simps)
  moreover have "ready sc space K (n + length as + length bs + length cs + 3) w6" by (rule ready_less [OF r6]) simp_all
  ultimately show ?thesis using that kept6 by simp
qed

text \<open>The four drops at the end of an iteration, one at a time.\<close>

lemma drop_observation_next:
  assumes "arc_sound sc" and r: "ready sc space K n w" and m: "map_of (observations w) m \<noteq> None"
  obtains w' where "exec sc (\<lambda>_. False) (DropObservation m) w = Inr (Ret Done, w')" and "ready sc space K (Suc n) w'"
    and "subjects w' = subjects w"
proof -
  note wf = reach_wf [OF assms(1) readyD(1) [OF r]]
  from m obtain s where s: "map_of (observations w) m = Some s" by auto
  let ?w = "released sc s (w\<lparr>observations := AList.delete m (observations w)\<rparr>)"
  have ex: "exec sc (\<lambda>_. False) (DropObservation m) w = Inr (Ret Done, ?w)" using observation_drop_eq(1) [OF wf assms(1) s] by simp
  have "m \<noteq> space" using handles_apart(1) [OF wf readyD(2) [OF r]] m by auto
  then have "ready sc space K (Suc n) ?w" by (intro exec_ready [OF r _ ex]) (use m in auto)
  with ex show ?thesis by (rule that) (simp add: released_def)
qed

lemma drop_subject_next:
  assumes "arc_sound sc" and r: "ready sc space K n w" and h: "map_of (subjects w) h \<noteq> None"
  obtains w' where "exec sc (\<lambda>_. False) (DropSubject h) w = Inr (Ret Done, w')" and "ready sc space K (Suc n) w'"
    and "map_of (retiring w') h \<noteq> None"
proof -
  note wf = reach_wf [OF assms(1) readyD(1) [OF r]]
  from h obtain sub where sub: "map_of (subjects w) h = Some sub" by auto
  obtain i where i: "inner w = Some i" using space_inner [OF wf readyD(5) [OF r]] by blast
  have ex: "exec sc (\<lambda>_. False) (DropSubject h) w = Inr (Ret Done, retired sc h sub i w)"
    using subject_drop_eq [OF wf assms(1) sub i] by simp
  have "h \<noteq> space" using handles_apart(2) [OF wf readyD(2) [OF r]] h by auto
  then have "ready sc space K (Suc n) (retired sc h sub i w)" by (intro exec_ready [OF r _ ex]) (use h in auto)
  with ex show ?thesis
    by (rule that) (simp add: retired_def Let_def map_add_def split: option.split)
qed

lemma drop_inner_next:
  assumes "arc_sound sc" and r: "ready sc space K n w" and h: "map_of (retiring w) h \<noteq> None"
  obtains w' where "exec sc (\<lambda>_. False) (DropSubjectInner h) w = Inr (Ret Done, w')" and "ready sc space K (Suc n) w'"
    and "map_of (dying w') h \<noteq> None"
proof -
  note wf = reach_wf [OF assms(1) readyD(1) [OF r]]
  from h obtain sub where sub: "map_of (retiring w) h = Some sub" by auto
  let ?w = "inner_released sc (w\<lparr>retiring := AList.delete h (retiring w), dying := dying w @ [(h, subject_slot sub)]\<rparr>)"
  have ex: "exec sc (\<lambda>_. False) (DropSubjectInner h) w = Inr (Ret Done, ?w)" using subject_drop_inner_eq(1) [OF wf assms(1) sub] by simp
  then have "map_of (dying ?w) h \<noteq> None"
    using sub by (auto simp: subject_drop_inner_def map_add_def split: sum.splits option.split
      dest!: handle_frames [unfolded same_handles_def])
  moreover have "h \<noteq> space" using handles_apart(3) [OF wf readyD(2) [OF r]] h by auto
  then have "ready sc space K (Suc n) ?w" by (intro exec_ready [OF r _ ex]) (use h in auto)
  ultimately show ?thesis using that ex by blast
qed

lemma drop_slot_next:
  assumes "arc_sound sc" and r: "ready sc space K n w" and h: "map_of (dying w) h \<noteq> None"
  obtains w' where "exec sc (\<lambda>_. False) (DropSubjectSlot h) w = Inr (Ret Done, w')" and "ready sc space K (Suc n) w'"
proof -
  note wf = reach_wf [OF assms(1) readyD(1) [OF r]]
  from h obtain s where s: "map_of (dying w) h = Some s" by auto
  let ?w = "released sc s (w\<lparr>dying := AList.delete h (dying w)\<rparr>)"
  have ex: "exec sc (\<lambda>_. False) (DropSubjectSlot h) w = Inr (Ret Done, ?w)" using subject_drop_slot_eq(1) [OF wf assms(1) s] by simp
  have "h \<noteq> space" using handles_apart(4) [OF wf readyD(2) [OF r]] h by auto
  then have "ready sc space K (Suc n) ?w" by (intro exec_ready [OF r _ ex]) (use h in auto)
  with ex show ?thesis by (rule that)
qed

lemma contention_drops_ok:
  assumes sound: "arc_sound sc" and r: "ready sc space K n w" and h: "map_of (subjects w) h \<noteq> None" and m: "map_of (observations w) m \<noteq> None"
    and quiet: "\<forall>i. \<forall>k\<in>K. MakeSubject k \<notin> set (env i)"
  obtains w' where "contention_drops sc {space, h, m} env t [DropObservation m, DropSubject h, DropSubjectInner h, DropSubjectSlot h] w = Some w'"
    and "ready sc space K (n + length (env t) + length (env (t + 1)) + length (env (t + 2)) + length (env (t + 3)) + 4) w'"
proof -
  let ?m = "{space, h, m}"
  note go = others_ready [OF sound, of space ?m, where wp = "\<lambda>_. False"]
  define v1 where "v1 = others sc (\<lambda>_. False) ?m (env t) w"
  have r1: "ready sc space K (n + length (env t)) v1" unfolding v1_def by (rule go [OF _ r]) (use quiet in auto)
  have "map_of (observations v1) m \<noteq> None" "map_of (subjects v1) h \<noteq> None"
    using others_keep [OF sound readyD(1) [OF r] v1_def] h m by auto
  from drop_observation_next [OF sound r1 this(1)] this(2) obtain w1 where
    w1: "exec sc (\<lambda>_. False) (DropObservation m) v1 = Inr (Ret Done, w1)" "ready sc space K (Suc (n + length (env t))) w1"
    "map_of (subjects w1) h \<noteq> None" by metis
  define v2 where "v2 = others sc (\<lambda>_. False) ?m (env (t + 1)) w1"
  have r2: "ready sc space K (Suc (n + length (env t)) + length (env (t + 1))) v2"
    unfolding v2_def by (rule go [OF _ w1(2)]) (use quiet in auto)
  have "map_of (subjects v2) h \<noteq> None" using others_keep [OF sound readyD(1) [OF w1(2)] v2_def] w1(3) by auto
  from drop_subject_next [OF sound r2 this] obtain w2 where
    w2: "exec sc (\<lambda>_. False) (DropSubject h) v2 = Inr (Ret Done, w2)"
    "ready sc space K (Suc (Suc (n + length (env t)) + length (env (t + 1)))) w2" "map_of (retiring w2) h \<noteq> None" .
  define v3 where "v3 = others sc (\<lambda>_. False) ?m (env (t + 2)) w2"
  have r3: "ready sc space K (Suc (Suc (n + length (env t)) + length (env (t + 1))) + length (env (t + 2))) v3"
    unfolding v3_def by (rule go [OF _ w2(2)]) (use quiet in auto)
  have "map_of (retiring v3) h \<noteq> None" using others_keep [OF sound readyD(1) [OF w2(2)] v3_def] w2(3) by auto
  from drop_inner_next [OF sound r3 this] obtain w3 where
    w3: "exec sc (\<lambda>_. False) (DropSubjectInner h) v3 = Inr (Ret Done, w3)"
    "ready sc space K (Suc (Suc (Suc (n + length (env t)) + length (env (t + 1))) + length (env (t + 2)))) w3"
    "map_of (dying w3) h \<noteq> None" .
  define v4 where "v4 = others sc (\<lambda>_. False) ?m (env (t + 3)) w3"
  have r4: "ready sc space K (Suc (Suc (Suc (n + length (env t)) + length (env (t + 1))) + length (env (t + 2))) + length (env (t + 3))) v4"
    unfolding v4_def by (rule go [OF _ w3(2)]) (use quiet in auto)
  have "map_of (dying v4) h \<noteq> None" using others_keep [OF sound readyD(1) [OF w3(2)] v4_def] w3(3) by auto
  from drop_slot_next [OF sound r4 this] obtain w4 where
    w4: "exec sc (\<lambda>_. False) (DropSubjectSlot h) v4 = Inr (Ret Done, w4)"
    "ready sc space K (Suc (Suc (Suc (Suc (n + length (env t)) + length (env (t + 1))) + length (env (t + 2))) + length (env (t + 3)))) w4" .
  have "contention_drops sc ?m env t [DropObservation m, DropSubject h, DropSubjectInner h, DropSubjectSlot h] w = Some w4"
    using w1(1) w2(1) w3(1) w4(1) by (simp add: v1_def v2_def v3_def v4_def numeral_eq_Suc del: exec.simps)
  moreover have "ready sc space K (n + length (env t) + length (env (t + 1)) + length (env (t + 2)) + length (env (t + 3)) + 4) w4"
    by (rule ready_less [OF w4(2)]) simp_all
  ultimately show ?thesis by (rule that)
qed

subsection \<open>A worker under contention\<close>

text \<open>The operations of all threads before the worker's operations \<open>t\<close> to \<open>t + m - 1\<close>, and those.\<close>

definition interference :: "(nat \<Rightarrow> (u64, u64) op list) \<Rightarrow> nat \<Rightarrow> nat \<Rightarrow> nat" where
  "interference env t m = sum_list (map (\<lambda>i. Suc (length (env i))) [t..<t + m])"

lemma interference_add: "interference env t (a + b) = interference env t a + interference env (t + a) b"
  using upt_add_eq_append [of t "t + a" b] by (simp add: interference_def add.assoc)

lemma interference_le: "\<forall>t. length (env t) \<le> c \<Longrightarrow> interference env t m \<le> Suc c * m"
proof (induction m)
  case (Suc m)
  have "length (env (t + m)) \<le> c" using Suc.prems by simp
  with Suc.IH [OF Suc.prems] show ?case by (simp add: interference_def)
qed (simp add: interference_def)

lemma interference_8: "interference env t 8 = length (env t) + length (env (t + 1)) + length (env (t + 2)) + length (env (t + 3))
    + length (env (t + 4)) + length (env (t + 5)) + length (env (t + 6)) + length (env (t + 7)) + 8"
  by (simp add: interference_def upt_rec [of "_ + _"] upt_rec numeral_eq_Suc)

lemma contention_iteration_ok:
  assumes sound: "arc_sound sc" and r: "ready sc space (insert key K) n w" and "key \<notin> K" and "n + interference env t 8 < 2 ^ 64 - 1"
    and quiet: "\<forall>i. \<forall>k\<in>insert key K. MakeSubject k \<notin> set (env i)"
  obtains w' where "contention_iteration sc space env t key checked w = Some (checked + 1, w')"
    and "ready sc space K (n + interference env t 8) w'"
proof -
  let ?w = "others sc (\<lambda>_. False) {space} (env t) w"
  have r0: "ready sc space (insert key K) (n + length (env t)) ?w"
    by (rule others_ready [OF sound _ r]) (use quiet in auto)
  then have r1: "ready sc space K (n + length (env t)) ?w" by (rule ready_less) auto
  have dead: "\<not> key_live key ?w" by (rule readyD(3) [OF r0]) simp
  have q: "\<forall>i. \<forall>k\<in>K. MakeSubject k \<notin> set (env i)" using quiet by auto
  note round = contention_round_ok [OF sound r1 dead assms(3), where as = "env (t + 1)" and bs = "env (t + 2)" and cs = "env (t + 3)"]
  obtain h m w1 where w1: "contention_round sc space key (env (t + 1)) (env (t + 2)) (env (t + 3)) ?w = Some (True, h, m, w1)"
    "ready sc space K (n + length (env t) + length (env (t + 1)) + length (env (t + 2)) + length (env (t + 3)) + 3) w1"
    "map_of (subjects w1) h \<noteq> None" "map_of (observations w1) m \<noteq> None"
    by (rule round) (use quiet assms(4) interference_8 [of env t] in auto)
  obtain w2 where w2: "contention_drops sc {space, h, m} env (t + 4) [DropObservation m, DropSubject h, DropSubjectInner h, DropSubjectSlot h] w1 = Some w2"
    "ready sc space K (n + length (env t) + length (env (t + 1)) + length (env (t + 2)) + length (env (t + 3)) + 3
       + length (env (t + 4)) + length (env (t + 4 + 1)) + length (env (t + 4 + 2)) + length (env (t + 4 + 3)) + 4) w2"
    by (rule contention_drops_ok [OF sound w1(2-4) q, of "t + 4"])
  have e: "t + 4 + 1 = t + 5" "t + 4 + 2 = t + 6" "t + 4 + 3 = t + 7" by simp_all
  have "ready sc space K (n + interference env t 8) w2"
    by (rule ready_less [OF w2(2) [unfolded e]]) (simp_all add: interference_8)
  moreover have "contention_iteration sc space env t key checked w = Some (checked + 1, w2)"
    using w1(1) w2(1) by (simp add: contention_iteration_def)
  ultimately show ?thesis using that by blast
qed

lemma contention_loop_ok:
  assumes sound: "arc_sound sc"
  shows "ready sc space (set keys) n w \<Longrightarrow> distinct keys \<Longrightarrow> n + interference env t (8 * length keys) < 2 ^ 64 - 1 \<Longrightarrow>
    \<forall>i. \<forall>k\<in>set keys. MakeSubject k \<notin> set (env i) \<Longrightarrow>
    \<exists>w'. contention_loop sc space env t keys checked w = Some (checked + length keys, w') \<and>
      ready sc space {} (n + interference env t (8 * length keys)) w'"
proof (induction keys arbitrary: n t checked w)
  case Nil
  then show ?case by (auto simp: interference_def)
next
  case (Cons key keys)
  have split: "interference env t (8 * length (key # keys)) = interference env t 8 + interference env (t + 8) (8 * length keys)"
    using interference_add [of env t 8 "8 * length keys"] by simp
  obtain w1 where w1: "contention_iteration sc space env t key checked w = Some (checked + 1, w1)"
    "ready sc space (set keys) (n + interference env t 8) w1"
    by (rule contention_iteration_ok [OF sound, of space key "set keys" n w env t checked])
      (use Cons.prems split in \<open>auto simp del: interference_def\<close>)
  have "n + interference env t 8 + interference env (t + 8) (8 * length keys) < 2 ^ 64 - 1"
    using Cons.prems(3) unfolding split by simp
  from Cons.IH [where checked = "checked + 1", OF w1(2) _ this] Cons.prems(2,4) obtain w' where
    "contention_loop sc space env (t + 8) keys (checked + 1) w1 = Some (checked + 1 + length keys, w')"
    "ready sc space {} (n + interference env t 8 + interference env (t + 8) (8 * length keys)) w'" by auto
  with w1(1) split show ?case by (simp add: add.assoc)
qed

lemma contention_keys_distinct:
  assumes "worker < workers"
  shows "distinct (contention_keys workers worker)" and "length (contention_keys workers worker) = N div workers"
proof -
  have "worker * (N div workers) + N div workers \<le> workers * (N div workers)"
    using mult_le_mono1 [of "Suc worker" workers "N div workers"] assms by simp
  also have "\<dots> \<le> N" by simp
  finally have "worker * (N div workers) + N div workers \<le> N" .
  then have "inj_on (of_nat :: nat \<Rightarrow> u64) {worker * (N div workers)..<worker * (N div workers) + N div workers}"
    by (auto simp: inj_on_def word_of_nat_eq_iff take_bit_nat_eq_self N_def)
  then show "distinct (contention_keys workers worker)" by (simp add: contention_keys_range distinct_map)
  show "length (contention_keys workers worker) = N div workers" by (simp add: contention_keys_range)
qed

text \<open>
  A worker of the contention benchmark succeeds whatever the other threads do between its
  operations, as long as they do not register the keys of its range.  Every registration returns a
  subject, every \<open>observe\<close> an observation, every publication returns and every \<open>try_get\<close> reads an
  outcome, so that \<open>checked\<close> is the number of its keys, also when the others retire subjects and
  recycle slots in between.
\<close>

lemma contention_worker_succeeds:
  assumes "arc_sound sc" and "reach sc w" and "map_of (spaces w) space \<noteq> None" and "worker < workers"
    and "\<forall>key\<in>set (contention_keys workers worker). \<not> key_live key w \<and> (\<forall>t. MakeSubject key \<notin> set (env t))"
    and "drawn_at_most n w" and "n + interference env 0 (8 * (N div workers)) < 2 ^ 64 - 1"
  shows "\<exists>w'. contention_worker sc space env workers worker w = Some (N div workers, w') \<and> reach sc w'"
proof -
  note keys = contention_keys_distinct [OF assms(4)]
  have "ready sc space (set (contention_keys workers worker)) n w" using assms by (simp add: ready_def)
  from contention_loop_ok [OF assms(1) this keys(1), of env 0 0] assms(5,7) keys(2) show ?thesis
    by (auto simp: contention_worker_def dest: readyD(1))
qed

text \<open>
  In the witness another thread registers, completes and retires key 6 in the middle of the first
  iterations of the second of two workers.
\<close>

lemma contention_worker_succeeds_witness:
  "\<exists>rs w w'. run handle_count (\<lambda>_. False) [CloneSpace] (space_new :: (u64, u64) world) = Inr (rs, w) \<and>
     contention_worker handle_count 1 (\<lambda>t. if t = 3 then [MakeSubject 6, Observe 6] else if t = 9 then [Complete 4 7, DropSubject 4] else [])
       2 1 w = Some (500000, w')"
proof -
  let ?env = "\<lambda>t. if t = 3 then [MakeSubject 6, Observe 6] else if t = 9 then [Complete 4 7, DropSubject 4] else []"
  have "run_ends (run handle_count (\<lambda>_. False) [CloneSpace] (space_new :: (u64, u64) world)) (\<lambda>rs w.
      map_of (spaces w) 1 \<noteq> None \<and> subjects w = [] \<and> map_option next_generation (inner w) = Some 1)" by code_simp
  then obtain rs w where w: "run handle_count (\<lambda>_. False) [CloneSpace] (space_new :: (u64, u64) world) = Inr (rs, w)"
    "map_of (spaces w) 1 \<noteq> None" "subjects w = []" "map_option next_generation (inner w) = Some 1"
    unfolding run_ends_iff by (elim exE conjE) (rule that)
  have six: "6 \<notin> set (contention_keys 2 1)"
  proof
    assume "6 \<in> set (contention_keys 2 1)"
    then obtain k where k: "1 * (N div 2) \<le> k" "k < 1 * (N div 2) + N div 2" "(6 :: u64) = of_nat k"
      unfolding contention_keys_range by auto
    then have le: "500000 \<le> k" "k < 1000000" by (simp_all add: N_def)
    then have "unat (of_nat k :: u64) = k" by (simp add: unat_of_nat take_bit_nat_eq_self)
    moreover have "unat (6 :: u64) = 6" by simp
    ultimately show False using k(3) le(1) by simp
  qed
  have quiet: "\<forall>key\<in>set (contention_keys 2 1). \<not> key_live key w \<and> (\<forall>t. MakeSubject key \<notin> set (?env t))"
    using w(3) six by (auto simp: key_live_def)
  have drawn: "drawn_at_most 1 w" using w(4) by (auto simp: drawn_at_most_def)
  have "interference ?env 0 (8 * (N div 2)) \<le> Suc 2 * (8 * (N div 2))" by (rule interference_le) simp
  then have small: "1 + interference ?env 0 (8 * (N div 2)) < 2 ^ 64 - 1" by (simp add: N_def)
  from contention_worker_succeeds [OF handle_count_sound run_reach [OF w(1) reach.start] w(2) _ quiet drawn small] w(1)
  show ?thesis by (auto simp: N_def)
qed

end
