(* ===== verification/Handshake.thy ===== *)
theory Handshake
  imports Contention
begin

section \<open>The wait latency workload\<close>

text \<open>
  \<open>wait_latency\<close> of \<open>observe-perf/src/main.rs\<close>: the main thread publishes round after round and a waiter
  thread blocks for each outcome.  The waiter spins until the key of the round is registered; the
  main thread spins until the waiter has stored that it holds its observation, so that no subject
  is retired before it was observed.  The two threads are interleaved step by step on the model of
  the crate: dropping a subject has three steps, \<open>wait\<close> may park, and a parked thread runs again when
  its token is set, or spuriously.
\<close>

definition ROUNDS :: nat where "ROUNDS = 50000"

datatype main_pc =
    Registers nat
  | Spins nat handle
  | Publishes nat handle
  | Retires nat handle
  | RetiresInner nat handle
  | RetiresSlot nat handle
  | Joins
  | Reports
  | Leaves
  | Left

datatype waiter_pc =
    Seeks nat
  | Signals nat handle
  | Waits nat handle
  | Parked nat handle
  | Checks nat handle u64
  | Closes
  | Gone

record rounds =
  crate :: "(u64, u64) world"
  main_at :: main_pc
  waiter_at :: waiter_pc
  observed :: u64
  token :: bool
  latencies :: "duration list"

text \<open>The main thread has handle 0 to the space; the waiter is spawned with a clone, handle 1.\<close>

definition rounds_new :: rounds where
  "rounds_new = \<lparr>crate = (case space_clone space_new of Inr (_, w) \<Rightarrow> w | Inl _ \<Rightarrow> space_new), main_at = Registers 0,
     waiter_at = Seeks 0, observed = 0, token = False, latencies = []\<rparr>"

text \<open>
  A step: a failed \<open>expect\<close> or assertion, a panic or a fault is a crash; a thread that spins, is
  parked or has ended stays.
\<close>

datatype 'a move = Stays | Crashes | Moves 'a

fun main_step :: "nat \<Rightarrow> (u64, u64) arc_count \<Rightarrow> main_pc \<Rightarrow> rounds \<Rightarrow> rounds move" where
  "main_step n sc (Registers k) s =
     (if k < n then (case exec sc (\<lambda>_. False) (MakeSubject (of_nat k)) (crate s) of
          Inr (Ret (NewHandle subject), w) \<Rightarrow> Moves (s\<lparr>crate := w, main_at := Spins k subject\<rparr>)
        | _ \<Rightarrow> Crashes)
      else Moves (s\<lparr>main_at := Joins\<rparr>))"
| "main_step n sc (Spins k subject) s =
     (if observed s < of_nat k + 1 then Stays else Moves (s\<lparr>main_at := Publishes k subject\<rparr>))"
| "main_step n sc (Publishes k subject) s = (case exec sc (\<lambda>_. False) (Complete subject (of_nat k)) (crate s) of
       Inr (Ret Done, w) \<Rightarrow> Moves (s\<lparr>crate := w, main_at := Retires k subject,
         token := token s \<or> Unparked 1 \<in> set (drop (length (woken (crate s))) (woken w))\<rparr>)
     | _ \<Rightarrow> Crashes)"
| "main_step n sc (Retires k subject) s = (case exec sc (\<lambda>_. False) (DropSubject subject) (crate s) of
       Inr (Ret Done, w) \<Rightarrow> Moves (s\<lparr>crate := w, main_at := RetiresInner k subject\<rparr>)
     | _ \<Rightarrow> Crashes)"
| "main_step n sc (RetiresInner k subject) s = (case exec sc (\<lambda>_. False) (DropSubjectInner subject) (crate s) of
       Inr (Ret Done, w) \<Rightarrow> Moves (s\<lparr>crate := w, main_at := RetiresSlot k subject\<rparr>)
     | _ \<Rightarrow> Crashes)"
| "main_step n sc (RetiresSlot k subject) s = (case exec sc (\<lambda>_. False) (DropSubjectSlot subject) (crate s) of
       Inr (Ret Done, w) \<Rightarrow> Moves (s\<lparr>crate := w, main_at := Registers (k + 1)\<rparr>)
     | _ \<Rightarrow> Crashes)"
| "main_step n sc Joins s = (if waiter_at s = Gone then Moves (s\<lparr>main_at := Reports\<rparr>) else Stays)"
| "main_step n sc Reports s = (case percentiles (latencies s) of
       None \<Rightarrow> Crashes
     | Some (p50, p99) \<Rightarrow> Moves (s\<lparr>main_at := Leaves\<rparr>))"
| "main_step n sc Leaves s = (case exec sc (\<lambda>_. False) (DropSpace 0) (crate s) of
       Inr (Ret Done, w) \<Rightarrow> Moves (s\<lparr>crate := w, main_at := Left\<rparr>)
     | _ \<Rightarrow> Crashes)"
| "main_step n sc Left s = Stays"

text \<open>\<open>clock k\<close> is what the clock of the waiter measures in round \<open>k\<close>.\<close>

fun waiter_step :: "nat \<Rightarrow> (nat \<Rightarrow> duration) \<Rightarrow> (u64, u64) arc_count \<Rightarrow> waiter_pc \<Rightarrow> rounds \<Rightarrow> rounds move" where
  "waiter_step n clock sc (Seeks k) s =
     (if k < n then (case exec sc (\<lambda>_. False) (Observe (of_nat k)) (crate s) of
          Inr (Ret (NewHandle observation), w) \<Rightarrow> Moves (s\<lparr>crate := w, waiter_at := Signals k observation\<rparr>)
        | Inr (Ret (UnknownSubject _), w) \<Rightarrow> Stays
        | _ \<Rightarrow> Crashes)
      else Moves (s\<lparr>waiter_at := Closes\<rparr>))"
| "waiter_step n clock sc (Signals k observation) s =
     Moves (s\<lparr>observed := of_nat k + 1, waiter_at := Waits k observation\<rparr>)"
| "waiter_step n clock sc (Waits k observation) s = (case exec sc (\<lambda>_. False) (Wait observation 1) (crate s) of
       Inr (Ret (Waited (Outcome v)), w) \<Rightarrow>
         Moves (s\<lparr>crate := w, latencies := latencies s @ [clock k], waiter_at := Checks k observation v\<rparr>)
     | Inr (Ret (Waited Parking), w) \<Rightarrow> Moves (s\<lparr>crate := w, waiter_at := Parked k observation\<rparr>)
     | _ \<Rightarrow> Crashes)"
| "waiter_step n clock sc (Parked k observation) s =
     (if token s then Moves (s\<lparr>token := False, waiter_at := Waits k observation\<rparr>) else Stays)"
| "waiter_step n clock sc (Checks k observation v) s =
     (if v \<noteq> of_nat k then Crashes
      else case exec sc (\<lambda>_. False) (DropObservation observation) (crate s) of
          Inr (Ret Done, w) \<Rightarrow> Moves (s\<lparr>crate := w, waiter_at := Seeks (k + 1)\<rparr>)
        | _ \<Rightarrow> Crashes)"
| "waiter_step n clock sc Closes s = (case exec sc (\<lambda>_. False) (DropSpace 1) (crate s) of
       Inr (Ret Done, w) \<Rightarrow> Moves (s\<lparr>crate := w, waiter_at := Gone\<rparr>)
     | _ \<Rightarrow> Crashes)"
| "waiter_step n clock sc Gone s = Stays"

inductive moves :: "nat \<Rightarrow> (nat \<Rightarrow> duration) \<Rightarrow> (u64, u64) arc_count \<Rightarrow> rounds \<Rightarrow> rounds \<Rightarrow> bool" for n clock sc where
  main: "main_step n sc (main_at s) s = Moves s' \<Longrightarrow> moves n clock sc s s'"
| waiter: "waiter_step n clock sc (waiter_at s) s = Moves s' \<Longrightarrow> moves n clock sc s s'"

inductive rounds_reach :: "nat \<Rightarrow> (nat \<Rightarrow> duration) \<Rightarrow> (u64, u64) arc_count \<Rightarrow> rounds \<Rightarrow> bool" for n clock sc where
  begins: "rounds_reach n clock sc rounds_new"
| moved: "rounds_reach n clock sc s \<Longrightarrow> moves n clock sc s s' \<Longrightarrow> rounds_reach n clock sc s'"
| woke: "rounds_reach n clock sc s \<Longrightarrow> waiter_at s = Parked k observation \<Longrightarrow>
    rounds_reach n clock sc (s\<lparr>waiter_at := Waits k observation\<rparr>)"

subsection \<open>What one operation does to a small state\<close>

definition view :: "(u64, u64) world \<Rightarrow> (handle \<times> unit) list \<Rightarrow> (handle \<times> u64 subject) list \<Rightarrow> (handle \<times> u64 subject) list \<Rightarrow>
    (handle \<times> slot_id) list \<Rightarrow> (handle \<times> slot_id) list \<Rightarrow> usize \<Rightarrow> bool" where
  "view w sp subs rets dys obs g \<longleftrightarrow> spaces w = sp \<and> subjects w = subs \<and> retiring w = rets \<and> dying w = dys
     \<and> observations w = obs \<and> (sp \<noteq> [] \<longrightarrow> map_option next_generation (inner w) = Some g)"

lemma inner_kept: "arc_sound sc \<Longrightarrow> spaces w \<noteq> [] \<Longrightarrow> inner_released sc w = w"
proof -
  assume *: "arc_sound sc" "spaces w \<noteq> []"
  then have "handle_count w InnerArc \<le> sc w InnerArc" unfolding arc_sound_def by blast
  with *(2) have "sc w InnerArc \<noteq> 0" by (cases "spaces w") auto
  then show ?thesis by (simp add: inner_released_def)
qed

lemma released_handles [simp]:
  "spaces (released sc s w) = spaces w" "subjects (released sc s w) = subjects w" "retiring (released sc s w) = retiring w"
  "dying (released sc s w) = dying w" "observations (released sc s w) = observations w" "inner (released sc s w) = inner w"
  by (simp_all add: released_def)

lemma view_register:
  assumes "arc_sound sc" and r: "reach sc w" and v: "view w sp [] rets dys obs g" and "sp \<noteq> []" and "g \<noteq> USIZE_MAX"
  shows "\<exists>h w' sub. exec sc (\<lambda>_. False) (MakeSubject key) w = Inr (Ret (NewHandle h), w') \<and> reach sc w'
    \<and> view w' sp [(h, sub)] rets dys obs (g + 1) \<and> subject_key sub = key \<and> \<not> subject_completed sub"
proof -
  note wf = reach_wf [OF assms(1) r]
  from v assms(4) obtain i where i: "inner w = Some i" "next_generation i = g" by (auto simp: view_def)
  have vac: "sm_get key (kmap (entries_of i)) = None"
    using v key_live_entry [OF wf i(1), of key] by (simp add: view_def key_live_def)
  have ex: "exec sc (\<lambda>_. False) (MakeSubject key) w = Inr (Ret (NewHandle (next_handle w)), new_generation key i w)"
    using space_subject_new [OF wf i(1) vac] i(2) assms(5) by simp
  have "reach sc (new_generation key i w)" by (rule reach.step [OF r _ ex]) (use v assms(4) in \<open>simp add: view_def\<close>)
  then show ?thesis using ex v i(2)
    by (auto simp: view_def new_generation_def acquired_def Let_def split: prod.splits if_splits)
qed

lemma view_observe_none:
  assumes "arc_sound sc" and r: "reach sc w" and v: "view w sp subs rets dys obs g" and "sp \<noteq> []"
    and "\<forall>(h, sub)\<in>set subs. subject_key sub \<noteq> key"
  shows "exec sc (\<lambda>_. False) (Observe key) w = Inr (Ret (UnknownSubject key), w)"
proof -
  note wf = reach_wf [OF assms(1) r]
  from v assms(4) obtain i where i: "inner w = Some i" by (auto simp: view_def)
  have "sm_get key (kmap (entries_of i)) = None"
    using v assms(5) key_live_entry [OF wf i, of key] by (auto simp: view_def key_live_def)
  then show ?thesis using space_observe_unknown [OF i] by simp
qed

lemma view_observe:
  assumes "arc_sound sc" and r: "reach sc w" and v: "view w sp [(h, sub)] rets dys [] g" and "sp \<noteq> []"
  shows "\<exists>w'. exec sc (\<lambda>_. False) (Observe (subject_key sub)) w = Inr (Ret (NewHandle (next_handle w)), w') \<and> reach sc w'
    \<and> view w' sp [(h, sub)] rets dys [(next_handle w, subject_slot sub)] g"
proof -
  note wf = reach_wf [OF assms(1) r]
  from v assms(4) obtain i where i: "inner w = Some i" by (auto simp: view_def)
  have "(h, sub) \<in> set (subjects w)" using v by (simp add: view_def)
  note entry = subject_entry [OF wf i this]
  from space_observe_eq(1) [OF wf i entry] have ex: "exec sc (\<lambda>_. False) (Observe (subject_key sub)) w = Inr (Ret (NewHandle (next_handle w)),
      w\<lparr>next_handle := next_handle w + 1, observations := observations w @ [(next_handle w, subject_slot sub)]\<rparr>)"
    by simp
  have "reach sc (w\<lparr>next_handle := next_handle w + 1, observations := observations w @ [(next_handle w, subject_slot sub)]\<rparr>)"
    by (rule reach.step [OF r _ ex]) (use v assms(4) in \<open>simp add: view_def\<close>)
  with ex v show ?thesis by (auto simp: view_def)
qed

lemma view_complete:
  assumes "arc_sound sc" and r: "reach sc w" and v: "view w sp [(h, sub)] rets dys [(m, subject_slot sub)] g"
    and "\<not> subject_completed sub"
  shows "\<exists>w'. exec sc (\<lambda>_. False) (Complete h x) w = Inr (Ret Done, w') \<and> reach sc w'
    \<and> view w' sp [(h, sub\<lparr>subject_completed := True\<rparr>)] rets dys [(m, subject_slot sub)] g
    \<and> woken w' = woken w @ map event_of (waiting_at w (subject_slot sub)) \<and> value_at w' (subject_slot sub) = Some x"
proof -
  note wf = reach_wf [OF assms(1) r]
  have h: "map_of (subjects w) h = Some sub" using v by (simp add: view_def)
  obtain sl where sl: "heap w (subject_slot sub) = Some sl"
    using subject_slot_heap [OF wf map_of_SomeD [OF h]] by blast
  let ?w = "w\<lparr>subjects := AList.update h (sub\<lparr>subject_completed := True\<rparr>) (subjects w),
        heap := (heap w)(subject_slot sub \<mapsto> published_slot x sl),
        created := created w @ [x], woken := woken w @ map event_of (registered sl)\<rparr>"
  from subject_complete_eq [OF wf h assms(4) sl, of "\<lambda>_. False" x]
  have ex: "exec sc (\<lambda>_. False) (Complete h x) w = Inr (Ret Done, ?w)" by (simp add: drain_result_def)
  have "reach sc ?w" by (rule reach.step [OF r _ ex]) (simp add: h)
  with ex v sl show ?thesis by (intro exI [of _ ?w]) (simp add: view_def waiting_at_def value_at_def)
qed

lemma view_drop:
  assumes "arc_sound sc" and r: "reach sc w" and v: "view w sp [(h, sub)] [] dys obs g" and "sp \<noteq> []"
  shows "\<exists>w'. exec sc (\<lambda>_. False) (DropSubject h) w = Inr (Ret Done, w') \<and> reach sc w' \<and> view w' sp [] [(h, sub)] dys obs g"
proof -
  note wf = reach_wf [OF assms(1) r]
  have h: "map_of (subjects w) h = Some sub" using v by (simp add: view_def)
  from v assms(4) obtain i where i: "inner w = Some i" by (auto simp: view_def)
  from subject_drop_eq [OF wf assms(1) h i]
  have ex: "exec sc (\<lambda>_. False) (DropSubject h) w = Inr (Ret Done, retired sc h sub i w)" by simp
  have "reach sc (retired sc h sub i w)" by (rule reach.step [OF r _ ex]) (simp add: h)
  with ex v i show ?thesis by (auto simp: view_def retired_def Let_def)
qed

lemma view_drop_inner:
  assumes "arc_sound sc" and r: "reach sc w" and v: "view w sp [] [(h, sub)] [] obs g" and "sp \<noteq> []"
  shows "\<exists>w'. exec sc (\<lambda>_. False) (DropSubjectInner h) w = Inr (Ret Done, w') \<and> reach sc w'
    \<and> view w' sp [] [] [(h, subject_slot sub)] obs g"
proof -
  note wf = reach_wf [OF assms(1) r]
  have h: "map_of (retiring w) h = Some sub" using v by (simp add: view_def)
  let ?w = "w\<lparr>retiring := AList.delete h (retiring w), dying := dying w @ [(h, subject_slot sub)]\<rparr>"
  have "inner_released sc ?w = ?w" by (rule inner_kept [OF assms(1)]) (use v assms(4) in \<open>simp add: view_def\<close>)
  with subject_drop_inner_eq(1) [OF wf assms(1) h]
  have ex: "exec sc (\<lambda>_. False) (DropSubjectInner h) w = Inr (Ret Done, ?w)" by simp
  have "reach sc ?w" by (rule reach.step [OF r _ ex]) (simp add: h)
  with ex v show ?thesis by (auto simp: view_def)
qed

lemma view_drop_slot:
  assumes "arc_sound sc" and r: "reach sc w" and v: "view w sp [] [] [(h, t)] obs g"
  shows "\<exists>w'. exec sc (\<lambda>_. False) (DropSubjectSlot h) w = Inr (Ret Done, w') \<and> reach sc w' \<and> view w' sp [] [] [] obs g"
proof -
  note wf = reach_wf [OF assms(1) r]
  have h: "map_of (dying w) h = Some t" using v by (simp add: view_def)
  let ?w = "released sc t (w\<lparr>dying := AList.delete h (dying w)\<rparr>)"
  from subject_drop_slot_eq(1) [OF wf assms(1) h]
  have ex: "exec sc (\<lambda>_. False) (DropSubjectSlot h) w = Inr (Ret Done, ?w)" by simp
  have "reach sc ?w" by (rule reach.step [OF r _ ex]) (simp add: h)
  with ex v show ?thesis by (auto simp: view_def)
qed

lemma view_drop_observation:
  assumes "arc_sound sc" and r: "reach sc w" and v: "view w sp subs rets dys [(m, t)] g"
  shows "\<exists>w'. exec sc (\<lambda>_. False) (DropObservation m) w = Inr (Ret Done, w') \<and> reach sc w' \<and> view w' sp subs rets dys [] g"
proof -
  note wf = reach_wf [OF assms(1) r]
  have m: "map_of (observations w) m = Some t" using v by (simp add: view_def)
  let ?w = "released sc t (w\<lparr>observations := AList.delete m (observations w)\<rparr>)"
  from observation_drop_eq(1) [OF wf assms(1) m]
  have ex: "exec sc (\<lambda>_. False) (DropObservation m) w = Inr (Ret Done, ?w)" by simp
  have "reach sc ?w" by (rule reach.step [OF r _ ex]) (simp add: m)
  with ex v show ?thesis by (auto simp: view_def)
qed

lemma view_drop_space:
  assumes "arc_sound sc" and r: "reach sc w" and v: "view w sp subs rets dys obs g" and "map_of sp x = Some u"
  shows "\<exists>w'. exec sc (\<lambda>_. False) (DropSpace x) w = Inr (Ret Done, w') \<and> reach sc w'
    \<and> view w' (AList.delete x sp) subs rets dys obs g"
proof -
  note wf = reach_wf [OF assms(1) r]
  have x: "map_of (spaces w) x = Some u" using v assms(4) by (simp add: view_def)
  let ?w = "w\<lparr>spaces := AList.delete x (spaces w)\<rparr>"
  from space_drop_eq(1) [OF wf assms(1) x]
  have ex: "exec sc (\<lambda>_. False) (DropSpace x) w = Inr (Ret Done, inner_released sc ?w)" by simp
  have reach: "reach sc (inner_released sc ?w)" by (rule reach.step [OF r _ ex]) (simp add: x)
  from space_drop_eq(1) [OF wf assms(1) x] have frame: "same_handles ?w (inner_released sc ?w)"
    using x by (auto simp: space_drop_def split: sum.splits dest: release_inner_handles)
  have "view (inner_released sc ?w) (AList.delete x sp) subs rets dys obs g"
    using v frame inner_kept [OF assms(1), of ?w] by (cases "AList.delete x sp = []") (auto simp: view_def same_handles_def)
  with ex reach show ?thesis by blast
qed

lemma view_wait:
  assumes "arc_sound sc" and r: "reach sc w" and v: "view w sp subs rets dys [(m, t)] g"
  shows "(case value_at w t of
      Some x \<Rightarrow> exec sc (\<lambda>_. False) (Wait m u) w = Inr (Ret (Waited (Outcome x)), w)
    | None \<Rightarrow> \<exists>w'. exec sc (\<lambda>_. False) (Wait m u) w = Inr (Ret (Waited Parking), w') \<and> reach sc w'
        \<and> view w' sp subs rets dys [(m, t)] g \<and> Thread u \<in> set (waiting_at w' t))"
proof -
  note wf = reach_wf [OF assms(1) r]
  have m: "map_of (observations w) m = Some t" using v by (simp add: view_def)
  obtain sl where sl: "heap w t = Some sl" "slot_ok sl" by (rule observed_slot [OF wf m])
  show ?thesis
  proof (cases "outcome sl")
    case (Some x)
    then show ?thesis using observation_wait_eq(1) [OF wf m sl(1), of u] sl by (simp add: value_at_def heap_same)
  next
    case None
    let ?w = "w\<lparr>heap := (heap w)(t \<mapsto> with_registry (push_thread u (registered sl)) sl)\<rparr>"
    have ex: "exec sc (\<lambda>_. False) (Wait m u) w = Inr (Ret (Waited Parking), ?w)"
      using None observation_wait_eq(1) [OF wf m sl(1), of u] sl by simp
    have "reach sc ?w" by (rule reach.step [OF r _ ex]) (simp add: m)
    moreover have "Thread u \<in> set (waiting_at ?w t)"
      by (auto simp: waiting_at_def push_thread_def) (metis last_in_set)
    ultimately show ?thesis using ex v None sl by (simp add: value_at_def view_def)
  qed
qed

subsection \<open>The invariant of the rounds\<close>

fun main_round :: "nat \<Rightarrow> main_pc \<Rightarrow> nat" where
  "main_round n (Registers k) = k"
| "main_round n (Spins k h) = k"
| "main_round n (Publishes k h) = k"
| "main_round n (Retires k h) = Suc k"
| "main_round n (RetiresInner k h) = Suc k"
| "main_round n (RetiresSlot k h) = Suc k"
| "main_round n _ = n"

fun registrations :: "nat \<Rightarrow> main_pc \<Rightarrow> nat" where
  "registrations n (Spins k h) = Suc k"
| "registrations n (Publishes k h) = Suc k"
| "registrations n m = main_round n m"

fun main_pc_ok :: "nat \<Rightarrow> main_pc \<Rightarrow> bool" where
  "main_pc_ok n (Registers k) = (k \<le> n)"
| "main_pc_ok n m = (main_round n m \<le> n \<and> registrations n m \<le> n)"

fun over :: "main_pc \<Rightarrow> bool" where
  "over Reports = True"
| "over Leaves = True"
| "over Left = True"
| "over _ = False"

fun about_to_publish :: "main_pc \<Rightarrow> bool" where
  "about_to_publish (Publishes k h) = True"
| "about_to_publish _ = False"

fun waiter_round :: "nat \<Rightarrow> waiter_pc \<Rightarrow> nat" where
  "waiter_round n (Seeks k) = k"
| "waiter_round n (Signals k m) = k"
| "waiter_round n (Waits k m) = k"
| "waiter_round n (Parked k m) = k"
| "waiter_round n (Checks k m v) = k"
| "waiter_round n _ = n"

fun waiter_pc_ok :: "nat \<Rightarrow> waiter_pc \<Rightarrow> bool" where
  "waiter_pc_ok n (Seeks k) = (k \<le> n)"
| "waiter_pc_ok n Closes = True"
| "waiter_pc_ok n Gone = True"
| "waiter_pc_ok n q = (waiter_round n q < n)"

fun signalled :: "waiter_pc \<Rightarrow> bool" where
  "signalled (Waits k m) = True"
| "signalled (Parked k m) = True"
| "signalled (Checks k m v) = True"
| "signalled _ = False"

fun measured :: "nat \<Rightarrow> waiter_pc \<Rightarrow> nat" where
  "measured n (Checks k m v) = Suc k"
| "measured n q = waiter_round n q"

text \<open>What the two threads own.\<close>

fun subject_in :: "main_pc \<Rightarrow> u64 subject \<Rightarrow> (handle \<times> u64 subject) list" where
  "subject_in (Spins k h) sub = [(h, sub)]"
| "subject_in (Publishes k h) sub = [(h, sub)]"
| "subject_in (Retires k h) sub = [(h, sub)]"
| "subject_in _ sub = []"

fun retiring_in :: "main_pc \<Rightarrow> u64 subject \<Rightarrow> (handle \<times> u64 subject) list" where
  "retiring_in (RetiresInner k h) sub = [(h, sub)]"
| "retiring_in _ sub = []"

fun dying_in :: "main_pc \<Rightarrow> u64 subject \<Rightarrow> (handle \<times> slot_id) list" where
  "dying_in (RetiresSlot k h) sub = [(h, subject_slot sub)]"
| "dying_in _ sub = []"

fun observed_in :: "waiter_pc \<Rightarrow> slot_id \<Rightarrow> (handle \<times> slot_id) list" where
  "observed_in (Signals k m) t = [(m, t)]"
| "observed_in (Waits k m) t = [(m, t)]"
| "observed_in (Parked k m) t = [(m, t)]"
| "observed_in (Checks k m v) t = [(m, t)]"
| "observed_in _ t = []"

definition spaces_in :: "main_pc \<Rightarrow> waiter_pc \<Rightarrow> (handle \<times> unit) list" where
  "spaces_in m q = (if m = Left then [] else [(0, ())]) @ (if q = Gone then [] else [(1, ())])"

fun subject_pending :: "main_pc \<Rightarrow> u64 subject \<Rightarrow> bool" where
  "subject_pending (Spins k h) sub = (subject_key sub = of_nat k \<and> \<not> subject_completed sub)"
| "subject_pending (Publishes k h) sub = (subject_key sub = of_nat k \<and> \<not> subject_completed sub)"
| "subject_pending (Retires k h) sub = (subject_key sub = of_nat k)"
| "subject_pending _ sub = True"

text \<open>
  How the threads are aligned.  A waiter that has stored its signal looks at the slot of the live
  subject, which is not completed yet, or at a slot with the outcome of its round; when it is parked
  it is registered, or its token is set.
\<close>

definition aligned :: "nat \<Rightarrow> nat \<Rightarrow> rounds \<Rightarrow> u64 subject \<Rightarrow> slot_id \<Rightarrow> bool" where
  "aligned n k s sub t \<longleftrightarrow> (if main_round n (main_at s) = k
     then (\<exists>h. main_at s = Spins k h \<or> main_at s = Publishes k h) \<and> t = subject_slot sub
     else main_round n (main_at s) = Suc k \<and> \<not> about_to_publish (main_at s) \<and> value_at (crate s) t = Some (of_nat k))"

fun linked :: "nat \<Rightarrow> waiter_pc \<Rightarrow> rounds \<Rightarrow> u64 subject \<Rightarrow> slot_id \<Rightarrow> bool" where
  "linked n (Seeks k) s sub t = (main_round n (main_at s) = k \<and> \<not> about_to_publish (main_at s))"
| "linked n (Signals k m) s sub t = ((\<exists>h. main_at s = Spins k h) \<and> t = subject_slot sub)"
| "linked n (Waits k m) s sub t = aligned n k s sub t"
| "linked n (Parked k m) s sub t = (aligned n k s sub t \<and>
     (if main_round n (main_at s) = k then Thread 1 \<in> set (waiting_at (crate s) t) else token s))"
| "linked n (Checks k m v) s sub t = (main_round n (main_at s) = Suc k \<and> \<not> about_to_publish (main_at s) \<and> v = of_nat k)"
| "linked n _ s sub t = (main_round n (main_at s) = n \<and> \<not> about_to_publish (main_at s))"

definition owned :: "nat \<Rightarrow> rounds \<Rightarrow> u64 subject \<Rightarrow> slot_id \<Rightarrow> bool" where
  "owned n s sub t \<longleftrightarrow> subject_pending (main_at s) sub \<and>
     view (crate s) (spaces_in (main_at s) (waiter_at s)) (subject_in (main_at s) sub) (retiring_in (main_at s) sub)
       (dying_in (main_at s) sub) (observed_in (waiter_at s) t) (of_nat (Suc (registrations n (main_at s))))"

definition counters_ok :: "nat \<Rightarrow> (nat \<Rightarrow> duration) \<Rightarrow> rounds \<Rightarrow> bool" where
  "counters_ok n clock s \<longleftrightarrow> main_pc_ok n (main_at s) \<and> waiter_pc_ok n (waiter_at s) \<and>
     (over (main_at s) \<longrightarrow> waiter_at s = Gone) \<and>
     observed s = of_nat (waiter_round n (waiter_at s) + (if signalled (waiter_at s) then 1 else 0)) \<and>
     latencies s = map clock [0..<measured n (waiter_at s)]"

definition rounds_inv :: "nat \<Rightarrow> (nat \<Rightarrow> duration) \<Rightarrow> (u64, u64) arc_count \<Rightarrow> rounds \<Rightarrow> bool" where
  "rounds_inv n clock sc s \<longleftrightarrow> counters_ok n clock s \<and> reach sc (crate s) \<and>
     (\<exists>sub t. owned n s sub t \<and> linked n (waiter_at s) s sub t)"

lemma rounds_invI: "counters_ok n clock s \<Longrightarrow> reach sc (crate s) \<Longrightarrow> owned n s sub t \<Longrightarrow> linked n (waiter_at s) s sub t \<Longrightarrow>
    rounds_inv n clock sc s"
  by (auto simp: rounds_inv_def)

lemma rounds_inv_new: "rounds_inv n clock sc rounds_new"
proof (rule rounds_invI [where sub = undefined and t = 0])
  have w: "crate rounds_new = space_new\<lparr>next_handle := 2, spaces := [(0, ()), (1, ())]\<rparr>"
    by (simp add: rounds_new_def space_clone_eq) (simp add: space_new_def)
  show "counters_ok n clock rounds_new" by (simp add: counters_ok_def rounds_new_def)
  have "exec sc (\<lambda>_. False) CloneSpace space_new = Inr (Ret (NewHandle 1), crate rounds_new)"
    by (simp add: space_clone_eq w) (simp add: space_new_def)
  then show "reach sc (crate rounds_new)" by (rule reach.step [OF reach.start, rotated]) (simp add: space_new_def)
  show "owned n rounds_new undefined 0" unfolding owned_def w by (simp add: rounds_new_def view_def spaces_in_def space_new_def)
  show "linked n (waiter_at rounds_new) rounds_new undefined 0" by (simp add: rounds_new_def)
qed

subsection \<open>The main thread\<close>

fun safe_move :: "('a \<Rightarrow> bool) \<Rightarrow> 'a move \<Rightarrow> bool" where
  "safe_move P Stays = True"
| "safe_move P Crashes = False"
| "safe_move P (Moves x) = P x"

lemma rounds_invD:
  assumes "rounds_inv n clock sc s"
  obtains sub t where "counters_ok n clock s" and "reach sc (crate s)" and "owned n s sub t" and "linked n (waiter_at s) s sub t"
  using assms unfolding rounds_inv_def by blast

lemma ownedD:
  assumes "owned n s sub t"
  shows "subject_pending (main_at s) sub"
    and "view (crate s) (spaces_in (main_at s) (waiter_at s)) (subject_in (main_at s) sub) (retiring_in (main_at s) sub)
       (dying_in (main_at s) sub) (observed_in (waiter_at s) t) (of_nat (Suc (registrations n (main_at s))))"
  using assms by (simp_all add: owned_def)

lemma counters_main:
  assumes "counters_ok n clock s" and "main_pc_ok n m" and "over m \<Longrightarrow> waiter_at s = Gone"
  shows "counters_ok n clock (s\<lparr>crate := w, main_at := m\<rparr>)" and "counters_ok n clock (s\<lparr>main_at := m\<rparr>)"
    and "counters_ok n clock (s\<lparr>crate := w, main_at := m, token := b\<rparr>)"
  using assms by (auto simp: counters_ok_def)

text \<open>A main thread that is not between its registration and its publication keeps the waiter where it is.\<close>

lemma linked_after:
  assumes "linked n q s sub t" and "\<nexists>k h. main_at s = Spins k h \<or> main_at s = Publishes k h"
    and "main_round n m = main_round n (main_at s)" and "\<not> about_to_publish m"
    and "\<And>x. observed_in q t \<noteq> [] \<Longrightarrow> value_at (crate s) t = Some x \<Longrightarrow> value_at w t = Some x"
  shows "linked n q (s\<lparr>crate := w, main_at := m\<rparr>) sub' t"
  using assms by (cases q) (auto simp: aligned_def split: if_splits)

lemma value_kept:
  assumes "arc_sound sc" and "reach sc w" and "owns op w" and ex: "exec sc (\<lambda>_. False) op w = Inr (r, w')"
    and "\<And>m. \<not> consumes op m" and "view w sp subs rets dys (observed_in q t) g"
  shows "observed_in q t \<noteq> [] \<Longrightarrow> value_at w t = Some x \<Longrightarrow> value_at w' t = Some x"
proof -
  assume *: "observed_in q t \<noteq> []" "value_at w t = Some x"
  then obtain m where "observed_in q t = [(m, t)]" by (cases q) auto
  then have "map_of (observations w) m = Some t" using assms(6) by (simp add: view_def)
  from exec_keeps_value [OF reach_wf [OF assms(1,2)] assms(1,3) ex assms(5) this *(2)] show ?thesis .
qed

lemma main_crate_step:
  assumes inv: "counters_ok n clock s" "linked n (waiter_at s) s sub t" "owned n s sub t" "reach sc (crate s)"
    and "arc_sound sc" and outside: "\<nexists>k h. main_at s = Spins k h \<or> main_at s = Publishes k h"
    and ex: "exec sc (\<lambda>_. False) op (crate s) = Inr (r, w)" and op: "owns op (crate s)" "\<And>m. \<not> consumes op m"
    and new: "main_pc_ok n m" "main_round n m = main_round n (main_at s)" "\<not> about_to_publish m" "over m \<Longrightarrow> waiter_at s = Gone"
    and v: "reach sc w" "subject_pending m sub'"
      "view w (spaces_in m (waiter_at s)) (subject_in m sub') (retiring_in m sub') (dying_in m sub') (observed_in (waiter_at s) t)
       (of_nat (Suc (registrations n m)))"
  shows "rounds_inv n clock sc (s\<lparr>crate := w, main_at := m\<rparr>)"
proof (rule rounds_invI [where sub = sub' and t = t])
  show "counters_ok n clock (s\<lparr>crate := w, main_at := m\<rparr>)" by (rule counters_main(1) [OF inv(1) new(1,4)])
  show "owned n (s\<lparr>crate := w, main_at := m\<rparr>) sub' t" using v(2,3) by (simp add: owned_def)
  have "linked n (waiter_at s) (s\<lparr>crate := w, main_at := m\<rparr>) sub' t"
    using linked_after [OF inv(2) outside new(2,3) value_kept [OF assms(5) inv(4) op(1) ex op(2) ownedD(2) [OF inv(3)]]] .
  then show "linked n (waiter_at (s\<lparr>crate := w, main_at := m\<rparr>)) (s\<lparr>crate := w, main_at := m\<rparr>) sub' t" by simp
qed (use v(1) in simp)

lemma main_local_step:
  assumes inv: "counters_ok n clock s" "linked n (waiter_at s) s sub t" "owned n s sub t" "reach sc (crate s)"
    and outside: "\<nexists>k h. main_at s = Spins k h \<or> main_at s = Publishes k h"
    and new: "main_pc_ok n m" "main_round n m = main_round n (main_at s)" "\<not> about_to_publish m" "over m \<Longrightarrow> waiter_at s = Gone"
    and same: "subject_pending m sub" "spaces_in m (waiter_at s) = spaces_in (main_at s) (waiter_at s)"
      "subject_in m sub = subject_in (main_at s) sub" "retiring_in m sub = retiring_in (main_at s) sub"
      "dying_in m sub = dying_in (main_at s) sub" "registrations n m = registrations n (main_at s)"
  shows "rounds_inv n clock sc (s\<lparr>main_at := m\<rparr>)"
proof (rule rounds_invI [where sub = sub and t = t])
  show "counters_ok n clock (s\<lparr>main_at := m\<rparr>)" by (rule counters_main(2) [OF inv(1) new(1,4)])
  show "owned n (s\<lparr>main_at := m\<rparr>) sub t" using inv(3) same by (simp add: owned_def)
  have "linked n (waiter_at s) (s\<lparr>crate := crate s, main_at := m\<rparr>) sub t"
    by (rule linked_after [OF inv(2) outside new(2,3)])
  then show "linked n (waiter_at (s\<lparr>main_at := m\<rparr>)) (s\<lparr>main_at := m\<rparr>) sub t" by simp
qed (use inv(4) in simp)

lemma unat_small: "j < 2 ^ 64 \<Longrightarrow> unat (of_nat j :: 64 word) = j"
  by (simp add: unat_of_nat take_bit_nat_eq_self)

lemma below_max: "j + 1 < 2 ^ 64 \<Longrightarrow> (of_nat j :: usize) \<noteq> USIZE_MAX"
proof
  assume "j + 1 < 2 ^ 64" and "(of_nat j :: usize) = USIZE_MAX"
  moreover from this(2) have "unat (of_nat j :: usize) = 2 ^ 64 - 1" by (simp add: USIZE_MAX_def)
  ultimately show False using unat_small [of j] by simp
qed

lemma main_registers:
  assumes "arc_sound sc" and inv: "rounds_inv n clock sc s" and at: "main_at s = Registers k" and n: "n + 1 < 2 ^ 64"
  shows "safe_move (rounds_inv n clock sc) (main_step n sc (main_at s) s)"
proof -
  from inv obtain sub t where *: "counters_ok n clock s" "reach sc (crate s)" "owned n s sub t" "linked n (waiter_at s) s sub t"
    by (rule rounds_invD)
  have out: "\<nexists>k h. main_at s = Spins k h \<or> main_at s = Publishes k h" by (simp add: at)
  show ?thesis
  proof (cases "k < n")
    case True
    have g: "(of_nat (Suc k) :: usize) \<noteq> USIZE_MAX" by (rule below_max) (use True n in simp)
    have sp: "spaces_in (main_at s) (waiter_at s) \<noteq> []" by (simp add: at spaces_in_def)
    have v: "view (crate s) (spaces_in (main_at s) (waiter_at s)) [] [] [] (observed_in (waiter_at s) t) (of_nat (Suc k))"
      using ownedD(2) [OF *(3)] by (simp add: at)
    from view_register [OF assms(1) *(2) v sp g, of "of_nat k"] obtain h w sub' where w: "exec sc (\<lambda>_. False) (MakeSubject (of_nat k)) (crate s) = Inr (Ret (NewHandle h), w)" "reach sc w"
      "view w (spaces_in (main_at s) (waiter_at s)) [(h, sub')] [] [] (observed_in (waiter_at s) t) (of_nat (Suc k) + 1)"
      "subject_key sub' = of_nat k" "\<not> subject_completed sub'" by blast
    have "rounds_inv n clock sc (s\<lparr>crate := w, main_at := Spins k h\<rparr>)"
    proof (rule main_crate_step [OF *(1,4,3,2) assms(1) out w(1)])
      show "owns (MakeSubject (of_nat k)) (crate s)" using ownedD(2) [OF *(3)] sp by (simp add: view_def)
    qed (use w True at in \<open>auto simp: spaces_in_def add.commute\<close>)
    with w(1) True show ?thesis by (simp add: at)
  next
    case False
    then have "k = n" using *(1) by (simp add: counters_ok_def at)
    moreover have "rounds_inv n clock sc (s\<lparr>main_at := Joins\<rparr>)"
      by (rule main_local_step [OF *(1,4,3,2) out]) (use \<open>k = n\<close> in \<open>simp_all add: at spaces_in_def\<close>)
    ultimately show ?thesis by (simp add: at)
  qed
qed

lemma main_retires:
  assumes "arc_sound sc" and inv: "rounds_inv n clock sc s"
    and at: "main_at s = Retires k h \<or> main_at s = RetiresInner k h \<or> main_at s = RetiresSlot k h"
  shows "safe_move (rounds_inv n clock sc) (main_step n sc (main_at s) s)"
proof -
  from inv obtain sub t where *: "counters_ok n clock s" "reach sc (crate s)" "owned n s sub t" "linked n (waiter_at s) s sub t"
    by (rule rounds_invD)
  have out: "\<nexists>k h. main_at s = Spins k h \<or> main_at s = Publishes k h" using at by auto
  have sp: "spaces_in (main_at s) (waiter_at s) \<noteq> []" using at by (auto simp: spaces_in_def)
  note v = ownedD(2) [OF *(3)]
  have less: "Suc k \<le> n" using *(1) at by (auto simp: counters_ok_def)
  note step = main_crate_step [OF *(1,4,3,2) assms(1) out]
  from at show ?thesis
  proof (elim disjE)
    assume at: "main_at s = Retires k h"
    have v': "view (crate s) (spaces_in (main_at s) (waiter_at s)) [(h, sub)] [] [] (observed_in (waiter_at s) t) (of_nat (Suc (Suc k)))"
      using v at by simp
    from view_drop [OF assms(1) *(2) v' sp] obtain w where
      w: "exec sc (\<lambda>_. False) (DropSubject h) (crate s) = Inr (Ret Done, w)" "reach sc w"
      "view w (spaces_in (main_at s) (waiter_at s)) [] [(h, sub)] [] (observed_in (waiter_at s) t) (of_nat (Suc (Suc k)))"
      by blast
    have "rounds_inv n clock sc (s\<lparr>crate := w, main_at := RetiresInner k h\<rparr>)"
      by (rule step [OF w(1), where sub' = sub]) (use v w at less in \<open>auto simp: spaces_in_def view_def\<close>)
    with w(1) show ?thesis by (simp add: at)
  next
    assume at: "main_at s = RetiresInner k h"
    have v': "view (crate s) (spaces_in (main_at s) (waiter_at s)) [] [(h, sub)] [] (observed_in (waiter_at s) t) (of_nat (Suc (Suc k)))"
      using v at by simp
    from view_drop_inner [OF assms(1) *(2) v' sp] obtain w where
      w: "exec sc (\<lambda>_. False) (DropSubjectInner h) (crate s) = Inr (Ret Done, w)" "reach sc w"
      "view w (spaces_in (main_at s) (waiter_at s)) [] [] [(h, subject_slot sub)] (observed_in (waiter_at s) t) (of_nat (Suc (Suc k)))"
      by blast
    have "rounds_inv n clock sc (s\<lparr>crate := w, main_at := RetiresSlot k h\<rparr>)"
      by (rule step [OF w(1), where sub' = sub]) (use v w at less in \<open>auto simp: spaces_in_def view_def\<close>)
    with w(1) show ?thesis by (simp add: at)
  next
    assume at: "main_at s = RetiresSlot k h"
    have v': "view (crate s) (spaces_in (main_at s) (waiter_at s)) [] [] [(h, subject_slot sub)] (observed_in (waiter_at s) t) (of_nat (Suc (Suc k)))"
      using v at by simp
    from view_drop_slot [OF assms(1) *(2) v'] obtain w where
      w: "exec sc (\<lambda>_. False) (DropSubjectSlot h) (crate s) = Inr (Ret Done, w)" "reach sc w"
      "view w (spaces_in (main_at s) (waiter_at s)) [] [] [] (observed_in (waiter_at s) t) (of_nat (Suc (Suc k)))"
      by blast
    have "rounds_inv n clock sc (s\<lparr>crate := w, main_at := Registers (k + 1)\<rparr>)"
      by (rule step [OF w(1), where sub' = sub]) (use v w at less in \<open>auto simp: spaces_in_def view_def\<close>)
    with w(1) show ?thesis by (simp add: at)
  qed
qed

lemma main_spins:
  assumes inv: "rounds_inv n clock sc s" and at: "main_at s = Spins k h" and n: "n + 1 < 2 ^ 64"
  shows "safe_move (rounds_inv n clock sc) (main_step n sc (main_at s) s)"
proof (cases "observed s < of_nat k + 1")
  case False
  from inv obtain sub t where *: "counters_ok n clock s" "reach sc (crate s)" "owned n s sub t" "linked n (waiter_at s) s sub t"
    by (rule rounds_invD)
  let ?r = "waiter_round n (waiter_at s) + (if signalled (waiter_at s) then 1 else 0)"
  have k: "k < n" using *(1) at by (simp add: counters_ok_def)
  have r: "?r \<le> n" using *(1) by (cases "waiter_at s") (auto simp: counters_ok_def)
  have "observed s = of_nat ?r" using *(1) by (simp add: counters_ok_def)
  with False have "\<not> (of_nat ?r :: u64) < of_nat (Suc k)" by (simp add: add.commute)
  with r k n have "Suc k \<le> ?r" by (simp add: word_less_nat_alt unat_small del: of_nat_Suc of_nat_add)
  with *(4) k at have "linked n (waiter_at s) (s\<lparr>main_at := Publishes k h\<rparr>) sub t"
    by (cases "waiter_at s") (auto simp: aligned_def split: if_splits)
  then have "rounds_inv n clock sc (s\<lparr>main_at := Publishes k h\<rparr>)"
    using * at k by (intro rounds_invI [where sub = sub and t = t]) (auto simp: counters_ok_def owned_def spaces_in_def)
  with False show ?thesis by (simp add: at)
qed (simp add: at)

lemma main_publishes:
  assumes "arc_sound sc" and inv: "rounds_inv n clock sc s" and at: "main_at s = Publishes k h"
  shows "safe_move (rounds_inv n clock sc) (main_step n sc (main_at s) s)"
proof -
  from inv obtain sub t where *: "counters_ok n clock s" "reach sc (crate s)" "owned n s sub t" "linked n (waiter_at s) s sub t"
    by (rule rounds_invD)
  have k: "k < n" using *(1) at by (simp add: counters_ok_def)
  from *(4) obtain m where q: "waiter_at s = Waits k m \<or> waiter_at s = Parked k m" and t: "t = subject_slot sub"
    and thread: "waiter_at s = Parked k m \<Longrightarrow> Thread 1 \<in> set (waiting_at (crate s) t)"
    by (cases "waiter_at s") (auto simp: at aligned_def k split: if_splits)
  have v: "view (crate s) (spaces_in (main_at s) (waiter_at s)) [(h, sub)] [] [] [(m, subject_slot sub)] (of_nat (Suc (Suc k)))"
    using ownedD(2) [OF *(3)] q t by (auto simp: at)
  have pending: "\<not> subject_completed sub" and key: "subject_key sub = of_nat k" using ownedD(1) [OF *(3)] by (simp_all add: at)
  let ?sub = "sub\<lparr>subject_completed := True\<rparr>"
  from view_complete [OF assms(1) *(2) v pending, of "of_nat k"] obtain w where
    w: "exec sc (\<lambda>_. False) (Complete h (of_nat k)) (crate s) = Inr (Ret Done, w)" "reach sc w"
    "view w (spaces_in (main_at s) (waiter_at s)) [(h, ?sub)] [] [] [(m, subject_slot sub)] (of_nat (Suc (Suc k)))"
    "woken w = woken (crate s) @ map event_of (waiting_at (crate s) t)" "value_at w t = Some (of_nat k)"
    unfolding t by blast
  let ?b = "token s \<or> Unparked 1 \<in> set (drop (length (woken (crate s))) (woken w))"
  have "?b" if "waiter_at s = Parked k m"
    using thread [OF that] w(4) by force
  then have "linked n (waiter_at s) (s\<lparr>crate := w, main_at := Retires k h, token := ?b\<rparr>) ?sub t"
    using q w(5) by (elim disjE) (simp_all add: aligned_def)
  moreover have "counters_ok n clock (s\<lparr>crate := w, main_at := Retires k h, token := ?b\<rparr>)"
    by (rule counters_main(3) [OF *(1)]) (use k in simp_all)
  ultimately have "rounds_inv n clock sc (s\<lparr>crate := w, main_at := Retires k h, token := ?b\<rparr>)"
    using w(2,3) q t key by (intro rounds_invI [where sub = ?sub and t = t]) (auto simp: owned_def at spaces_in_def)
  with w(1) show ?thesis by (simp add: at)
qed

lemma main_ends:
  assumes "arc_sound sc" and inv: "rounds_inv n clock sc s" and "n \<ge> 100" and clock: "\<forall>k. duration_ok (clock k)"
    and at: "main_at s = Joins \<or> main_at s = Reports \<or> main_at s = Leaves \<or> main_at s = Left"
  shows "safe_move (rounds_inv n clock sc) (main_step n sc (main_at s) s)"
proof -
  from inv obtain sub t where *: "counters_ok n clock s" "reach sc (crate s)" "owned n s sub t" "linked n (waiter_at s) s sub t"
    by (rule rounds_invD)
  have out: "\<nexists>k h. main_at s = Spins k h \<or> main_at s = Publishes k h" using at by auto
  note local_step = main_local_step [OF *(1,4,3,2) out]
  from at show ?thesis
  proof (elim disjE)
    assume at: "main_at s = Joins"
    have "rounds_inv n clock sc (s\<lparr>main_at := Reports\<rparr>)" if "waiter_at s = Gone"
      by (rule local_step) (use that in \<open>simp_all add: at spaces_in_def\<close>)
    then show ?thesis by (simp add: at)
  next
    assume at: "main_at s = Reports"
    have gone: "waiter_at s = Gone" using *(1) at by (simp add: counters_ok_def)
    then have ls: "latencies s = map clock [0..<n]" using *(1) by (simp add: counters_ok_def)
    then have "length (latencies s) \<ge> 100" "\<forall>d\<in>set (latencies s). duration_ok d" using assms(3) clock by simp_all
    then obtain p50 p99 where p: "percentiles (latencies s) = Some (p50, p99)" by (rule percentiles_total)
    have "rounds_inv n clock sc (s\<lparr>main_at := Leaves\<rparr>)"
      by (rule local_step) (use gone in \<open>simp_all add: at spaces_in_def\<close>)
    with p show ?thesis by (simp add: at)
  next
    assume at: "main_at s = Leaves"
    have gone: "waiter_at s = Gone" using *(1) at by (simp add: counters_ok_def)
    have "view (crate s) [(0, ())] [] [] [] [] (of_nat (Suc n))"
      using ownedD(2) [OF *(3)] gone by (simp add: at spaces_in_def)
    from view_drop_space [OF assms(1) *(2) this, of 0 "()"] obtain w where
      w: "exec sc (\<lambda>_. False) (DropSpace 0) (crate s) = Inr (Ret Done, w)" "reach sc w" "view w [] [] [] [] [] (of_nat (Suc n))"
      by auto
    have "rounds_inv n clock sc (s\<lparr>crate := w, main_at := Left\<rparr>)"
      using * w(2,3) gone by (intro rounds_invI [where sub = sub and t = t])
        (auto simp: counters_ok_def owned_def spaces_in_def at)
    with w(1) show ?thesis by (simp add: at)
  next
    assume "main_at s = Left"
    then show ?thesis by simp
  qed
qed

lemma main_safe:
  assumes "arc_sound sc" and "rounds_inv n clock sc s" and "100 \<le> n" and "n + 1 < 2 ^ 64" and "\<forall>k. duration_ok (clock k)"
  shows "safe_move (rounds_inv n clock sc) (main_step n sc (main_at s) s)"
  using main_registers [OF assms(1,2)] main_spins [OF assms(2)] main_publishes [OF assms(1,2)] main_retires [OF assms(1,2)]
    main_ends [OF assms(1,2,3,5)] assms(4)
  by (cases "main_at s") (simp_all del: main_step.simps)

subsection \<open>The waiter\<close>

lemma pending_value:
  assumes "arc_sound sc" and "reach sc w" and "view w sp [(h, sub)] rets dys obs g" and "\<not> subject_completed sub"
  shows "value_at w (subject_slot sub) = None"
proof -
  note wf = reach_wf [OF assms(1,2)]
  have h: "(h, sub) \<in> set (subjects w)" using assms(3) by (simp add: view_def)
  obtain sl where sl: "heap w (subject_slot sub) = Some sl" using subject_slot_heap [OF wf h] by blast
  have "\<not> completed sl" using wfD(6) [OF wf] h sl assms(4) by (auto simp: completion_inv_def)
  then show ?thesis using heap_slot_ok [OF wf sl] slot_ok_outcome [of sl] by (simp add: value_at_def sl)
qed

lemma waiter_seeks:
  assumes "arc_sound sc" and inv: "rounds_inv n clock sc s" and at: "waiter_at s = Seeks k" and n: "n + 1 < 2 ^ 64"
  shows "safe_move (rounds_inv n clock sc) (waiter_step n clock sc (waiter_at s) s)"
proof -
  from inv obtain sub t where *: "counters_ok n clock s" "reach sc (crate s)" "owned n s sub t" "linked n (waiter_at s) s sub t"
    by (rule rounds_invD)
  have p: "main_round n (main_at s) = k" "\<not> about_to_publish (main_at s)" using *(4) at by simp_all
  have v: "view (crate s) (spaces_in (main_at s) (waiter_at s)) (subject_in (main_at s) sub) (retiring_in (main_at s) sub)
       (dying_in (main_at s) sub) [] (of_nat (Suc (registrations n (main_at s))))"
    using ownedD(2) [OF *(3)] by (simp add: at)
  have sp: "spaces_in (main_at s) (waiter_at s) \<noteq> []" by (simp add: at spaces_in_def)
  show ?thesis
  proof (cases "k < n")
    case True
    show ?thesis
    proof (cases "\<exists>h. main_at s = Spins k h")
      case True
      then obtain h where m: "main_at s = Spins k h" ..
      have key: "subject_key sub = of_nat k" using ownedD(1) [OF *(3)] m by simp
      from view_observe [OF assms(1) *(2) v [unfolded m subject_in.simps] sp [unfolded m]] obtain w where
        w: "exec sc (\<lambda>_. False) (Observe (of_nat k)) (crate s) = Inr (Ret (NewHandle (next_handle (crate s))), w)" "reach sc w"
        "view w (spaces_in (main_at s) (waiter_at s)) [(h, sub)] [] [] [(next_handle (crate s), subject_slot sub)] (of_nat (Suc (Suc k)))"
        unfolding key by (auto simp: m)
      let ?s = "s\<lparr>crate := w, waiter_at := Signals k (next_handle (crate s))\<rparr>"
      have "rounds_inv n clock sc ?s"
        by (rule rounds_invI [where sub = sub and t = "subject_slot sub"])
          (use * w(2,3) m at \<open>k < n\<close> in \<open>auto simp: counters_ok_def owned_def spaces_in_def\<close>)
      with w(1) \<open>k < n\<close> show ?thesis by (simp add: at)
    next
      case False
      have "\<forall>(h, sub)\<in>set (subject_in (main_at s) sub). subject_key sub \<noteq> of_nat k"
      proof (cases "main_at s")
        case (Retires j h)
        then have j: "k = Suc j" "subject_key sub = of_nat j" using p ownedD(1) [OF *(3)] by simp_all
        have "(of_nat j :: u64) \<noteq> of_nat k"
          using unat_small [of j] unat_small [of k] j(1) \<open>k < n\<close> n by (metis Suc_lessD less_trans n_not_Suc_n add_lessD1)
        with Retires j(2) show ?thesis by simp
      qed (use False p in auto)
      from view_observe_none [OF assms(1) *(2) v sp this] \<open>k < n\<close> show ?thesis by (simp add: at)
    qed
  next
    case False
    have "k = n" using False *(1) by (simp add: counters_ok_def at)
    have "rounds_inv n clock sc (s\<lparr>waiter_at := Closes\<rparr>)"
      by (rule rounds_invI [where sub = sub and t = t])
        (use * at p \<open>k = n\<close> in \<open>auto simp: counters_ok_def owned_def spaces_in_def\<close>)
    with False show ?thesis by (simp add: at)
  qed
qed

lemma waiter_signals:
  assumes inv: "rounds_inv n clock sc s" and at: "waiter_at s = Signals k m"
  shows "safe_move (rounds_inv n clock sc) (waiter_step n clock sc (waiter_at s) s)"
proof -
  from inv obtain sub t where *: "counters_ok n clock s" "reach sc (crate s)" "owned n s sub t" "linked n (waiter_at s) s sub t"
    by (rule rounds_invD)
  have "rounds_inv n clock sc (s\<lparr>observed := of_nat k + 1, waiter_at := Waits k m\<rparr>)"
    by (rule rounds_invI [where sub = sub and t = t])
      (use * at in \<open>auto simp: counters_ok_def owned_def spaces_in_def aligned_def add.commute\<close>)
  then show ?thesis by (simp add: at)
qed

lemma waiter_waits:
  assumes "arc_sound sc" and inv: "rounds_inv n clock sc s" and at: "waiter_at s = Waits k m"
  shows "safe_move (rounds_inv n clock sc) (waiter_step n clock sc (waiter_at s) s)"
proof -
  from inv obtain sub t where *: "counters_ok n clock s" "reach sc (crate s)" "owned n s sub t" "linked n (waiter_at s) s sub t"
    by (rule rounds_invD)
  have al: "aligned n k s sub t" using *(4) at by simp
  have v: "view (crate s) (spaces_in (main_at s) (waiter_at s)) (subject_in (main_at s) sub) (retiring_in (main_at s) sub)
       (dying_in (main_at s) sub) [(m, t)] (of_nat (Suc (registrations n (main_at s))))"
    using ownedD(2) [OF *(3)] by (simp add: at)
  note wait = view_wait [OF assms(1) *(2) v, of 1]
  show ?thesis
  proof (cases "main_round n (main_at s) = k")
    case True
    with al obtain h where h: "main_at s = Spins k h \<or> main_at s = Publishes k h" and t: "t = subject_slot sub"
      by (auto simp: aligned_def)
    have "\<not> subject_completed sub" using h ownedD(1) [OF *(3)] by auto
    moreover have "subject_in (main_at s) sub = [(h, sub)]" using h by auto
    ultimately have "value_at (crate s) t = None" using pending_value [OF assms(1) *(2)] v unfolding t by metis
    with wait obtain w where w: "exec sc (\<lambda>_. False) (Wait m 1) (crate s) = Inr (Ret (Waited Parking), w)" "reach sc w"
      "view w (spaces_in (main_at s) (waiter_at s)) (subject_in (main_at s) sub) (retiring_in (main_at s) sub)
         (dying_in (main_at s) sub) [(m, t)] (of_nat (Suc (registrations n (main_at s))))" "Thread 1 \<in> set (waiting_at w t)"
      by auto
    have "rounds_inv n clock sc (s\<lparr>crate := w, waiter_at := Parked k m\<rparr>)"
      by (rule rounds_invI [where sub = sub and t = t])
        (use * at w True al in \<open>auto simp: counters_ok_def owned_def spaces_in_def aligned_def\<close>)
    with w(1) show ?thesis by (simp add: at)
  next
    case False
    with al have val: "value_at (crate s) t = Some (of_nat k)" by (simp add: aligned_def)
    have "rounds_inv n clock sc (s\<lparr>crate := crate s, latencies := latencies s @ [clock k], waiter_at := Checks k m (of_nat k)\<rparr>)"
      by (rule rounds_invI [where sub = sub and t = t])
        (use * at False al in \<open>auto simp: counters_ok_def owned_def spaces_in_def aligned_def\<close>)
    with wait val show ?thesis by (simp add: at)
  qed
qed

lemma parked_again:
  assumes inv: "rounds_inv n clock sc s" and at: "waiter_at s = Parked k m"
  shows "rounds_inv n clock sc (s\<lparr>waiter_at := Waits k m\<rparr>)" and "rounds_inv n clock sc (s\<lparr>token := b, waiter_at := Waits k m\<rparr>)"
proof -
  from inv obtain sub t where *: "counters_ok n clock s" "reach sc (crate s)" "owned n s sub t" "linked n (waiter_at s) s sub t"
    by (rule rounds_invD)
  show "rounds_inv n clock sc (s\<lparr>waiter_at := Waits k m\<rparr>)" "rounds_inv n clock sc (s\<lparr>token := b, waiter_at := Waits k m\<rparr>)"
    using * at by (auto intro!: rounds_invI [where sub = sub and t = t] simp: counters_ok_def owned_def spaces_in_def aligned_def
      split: if_splits)
qed

lemma waiter_checks:
  assumes "arc_sound sc" and inv: "rounds_inv n clock sc s" and at: "waiter_at s = Checks k m x"
  shows "safe_move (rounds_inv n clock sc) (waiter_step n clock sc (waiter_at s) s)"
proof -
  from inv obtain sub t where *: "counters_ok n clock s" "reach sc (crate s)" "owned n s sub t" "linked n (waiter_at s) s sub t"
    by (rule rounds_invD)
  have v: "view (crate s) (spaces_in (main_at s) (waiter_at s)) (subject_in (main_at s) sub) (retiring_in (main_at s) sub)
       (dying_in (main_at s) sub) [(m, t)] (of_nat (Suc (registrations n (main_at s))))"
    using ownedD(2) [OF *(3)] by (simp add: at)
  from view_drop_observation [OF assms(1) *(2) v] obtain w where
    w: "exec sc (\<lambda>_. False) (DropObservation m) (crate s) = Inr (Ret Done, w)" "reach sc w"
      "view w (spaces_in (main_at s) (waiter_at s)) (subject_in (main_at s) sub) (retiring_in (main_at s) sub)
       (dying_in (main_at s) sub) [] (of_nat (Suc (registrations n (main_at s))))" by blast
  have "rounds_inv n clock sc (s\<lparr>crate := w, waiter_at := Seeks (k + 1)\<rparr>)"
    by (rule rounds_invI [where sub = sub and t = t])
      (use * at w in \<open>auto simp: counters_ok_def owned_def spaces_in_def\<close>)
  with w(1) *(4) at show ?thesis by simp
qed

lemma waiter_closes:
  assumes "arc_sound sc" and inv: "rounds_inv n clock sc s" and at: "waiter_at s = Closes"
  shows "safe_move (rounds_inv n clock sc) (waiter_step n clock sc (waiter_at s) s)"
proof -
  from inv obtain sub t where *: "counters_ok n clock s" "reach sc (crate s)" "owned n s sub t" "linked n (waiter_at s) s sub t"
    by (rule rounds_invD)
  have left: "main_at s \<noteq> Left" using *(1) at by (auto simp: counters_ok_def)
  have v: "view (crate s) [(0, ()), (1, ())] (subject_in (main_at s) sub) (retiring_in (main_at s) sub)
       (dying_in (main_at s) sub) [] (of_nat (Suc (registrations n (main_at s))))"
    using ownedD(2) [OF *(3)] left by (simp add: at spaces_in_def)
  from view_drop_space [OF assms(1) *(2) v, of 1 "()"] obtain w where
    w: "exec sc (\<lambda>_. False) (DropSpace 1) (crate s) = Inr (Ret Done, w)" "reach sc w"
    "view w [(0, ())] (subject_in (main_at s) sub) (retiring_in (main_at s) sub)
       (dying_in (main_at s) sub) [] (of_nat (Suc (registrations n (main_at s))))" by auto
  have "rounds_inv n clock sc (s\<lparr>crate := w, waiter_at := Gone\<rparr>)"
    by (rule rounds_invI [where sub = sub and t = t])
      (use * at w left in \<open>auto simp: counters_ok_def owned_def spaces_in_def\<close>)
  with w(1) show ?thesis by (simp add: at)
qed

lemma waiter_safe:
  assumes "arc_sound sc" and "rounds_inv n clock sc s" and "n + 1 < 2 ^ 64"
  shows "safe_move (rounds_inv n clock sc) (waiter_step n clock sc (waiter_at s) s)"
proof (cases "waiter_at s")
  case (Parked k m)
  then show ?thesis using parked_again(2) [OF assms(2)] by simp
qed (use waiter_seeks [OF assms(1,2)] waiter_signals [OF assms(2)] waiter_waits [OF assms(1,2)] waiter_checks [OF assms(1,2)]
    waiter_closes [OF assms(1,2)] assms(3) in \<open>simp_all del: waiter_step.simps(1-6)\<close>)

lemma rounds_reach_inv:
  assumes "arc_sound sc" and "100 \<le> n" and "n + 1 < 2 ^ 64" and "\<forall>k. duration_ok (clock k)"
  shows "rounds_reach n clock sc s \<Longrightarrow> rounds_inv n clock sc s"
proof (induction rule: rounds_reach.induct)
  case (moved s s')
  from moved(2) main_safe [OF assms(1) moved.IH assms(2-4)] waiter_safe [OF assms(1) moved.IH assms(3)]
  show ?case by (auto elim!: moves.cases)
qed (use rounds_inv_new parked_again(1) in blast)+

subsection \<open>Both threads end\<close>

text \<open>
  The steps that are left.  A publication may set the token, which lets a parked waiter run once
  more without need; that is paid for by the step of the main thread.
\<close>

fun main_left :: "nat \<Rightarrow> main_pc \<Rightarrow> nat" where
  "main_left n (Registers k) = 9 * (n - k) + 4"
| "main_left n (Spins k h) = 9 * (n - k) + 3"
| "main_left n (Publishes k h) = 9 * (n - k) + 2"
| "main_left n (Retires k h) = 9 * (n - Suc k) + 7"
| "main_left n (RetiresInner k h) = 9 * (n - Suc k) + 6"
| "main_left n (RetiresSlot k h) = 9 * (n - Suc k) + 5"
| "main_left n Joins = 3"
| "main_left n Reports = 2"
| "main_left n Leaves = 1"
| "main_left n Left = 0"

fun waiter_left :: "nat \<Rightarrow> waiter_pc \<Rightarrow> nat" where
  "waiter_left n (Seeks k) = 5 * (n - k) + 2"
| "waiter_left n (Signals k m) = 5 * (n - k) + 1"
| "waiter_left n (Waits k m) = 5 * (n - k)"
| "waiter_left n (Parked k m) = 5 * (n - Suc k) + 4"
| "waiter_left n (Checks k m v) = 5 * (n - Suc k) + 3"
| "waiter_left n Closes = 1"
| "waiter_left n Gone = 0"

definition steps_left :: "nat \<Rightarrow> rounds \<Rightarrow> nat" where
  "steps_left n s = main_left n (main_at s) + waiter_left n (waiter_at s) + (if token s then 2 else 0)"

lemma main_step_less:
  assumes "counters_ok n clock s" and "main_step n sc (main_at s) s = Moves s'"
  shows "steps_left n s' < steps_left n s"
proof -
  have "main_pc_ok n (main_at s)" using assms(1) by (simp add: counters_ok_def)
  with assms(2) show ?thesis
    by (cases "main_at s") (auto simp: steps_left_def split: if_splits sum.splits prod.splits call.splits reply.splits option.splits)
qed

lemma waiter_step_less:
  assumes "counters_ok n clock s" and "waiter_step n clock sc (waiter_at s) s = Moves s'"
  shows "steps_left n s' < steps_left n s"
proof -
  have "waiter_pc_ok n (waiter_at s)" using assms(1) by (simp add: counters_ok_def)
  with assms(2) show ?thesis
    by (cases "waiter_at s") (auto simp: steps_left_def split: if_splits sum.splits prod.splits call.splits reply.splits wait_result.splits)
qed

lemma moves_less: "rounds_inv n clock sc s \<Longrightarrow> moves n clock sc s s' \<Longrightarrow> steps_left n s' < steps_left n s"
  by (auto elim!: moves.cases rounds_invD intro: main_step_less waiter_step_less)

lemma observes_live:
  assumes "arc_sound sc" and inv: "rounds_inv n clock sc s" and "waiter_at s = Seeks k" and "main_at s = Spins k h"
  shows "waiter_step n clock sc (waiter_at s) s \<noteq> Stays"
proof -
  from inv obtain sub t where *: "counters_ok n clock s" "reach sc (crate s)" "owned n s sub t" "linked n (waiter_at s) s sub t"
    by (rule rounds_invD)
  have v: "view (crate s) [(0, ()), (1, ())] [(h, sub)] [] [] [] (of_nat (Suc (Suc k)))"
    using ownedD(2) [OF *(3)] assms(3,4) by (simp add: spaces_in_def)
  have "subject_key sub = of_nat k" using ownedD(1) [OF *(3)] assms(4) by simp
  with view_observe [OF assms(1) *(2) v] assms(3) show ?thesis by auto
qed

lemma someone_moves:
  assumes "arc_sound sc" and inv: "rounds_inv n clock sc s" and "100 \<le> n" and "n + 1 < 2 ^ 64" and "\<forall>k. duration_ok (clock k)"
  shows "(\<exists>s'. moves n clock sc s s') \<or> main_at s = Left \<and> waiter_at s = Gone"
proof (rule ccontr)
  assume stuck: "\<not> ?thesis"
  have m: "main_step n sc (main_at s) s = Stays"
    using stuck main_safe [OF assms] moves.main [where clock = clock and n = n and sc = sc and s = s]
    by (cases "main_step n sc (main_at s) s") auto
  have q: "waiter_step n clock sc (waiter_at s) s = Stays"
    using stuck waiter_safe [OF assms(1,2,4)] moves.waiter [where clock = clock and n = n and sc = sc and s = s]
    by (cases "waiter_step n clock sc (waiter_at s) s") auto
  from inv obtain sub t where *: "counters_ok n clock s" "reach sc (crate s)" "owned n s sub t" "linked n (waiter_at s) s sub t"
    by (rule rounds_invD)
  have obs: "observed s = of_nat (waiter_round n (waiter_at s) + (if signalled (waiter_at s) then 1 else 0))"
    using *(1) by (simp add: counters_ok_def)
  consider (spins) k h where "main_at s = Spins k h" | (joins) "main_at s = Joins" "waiter_at s \<noteq> Gone" | (left) "main_at s = Left"
    using m by (cases "main_at s") (auto split: if_splits sum.splits prod.splits call.splits reply.splits option.splits)
  then show False
  proof cases
    case spins
    have k: "k < n" using *(1) spins by (simp add: counters_ok_def)
    show False
    proof (cases "waiter_at s")
      case (Seeks j)
      then have "j = k" using *(4) spins by simp
      with observes_live [OF assms(1) inv _ spins] Seeks q show False by simp
    next
      case (Parked j x)
      have "observed s < of_nat k + 1" using m spins by (simp split: if_splits)
      with obs Parked have "\<not> j = k" by (auto simp: add.commute)
      with *(4) Parked spins have "token s" by (auto simp: aligned_def split: if_splits)
      with q Parked show False by simp
    qed (use q *(4) spins k in \<open>auto split: if_splits sum.splits prod.splits call.splits reply.splits wait_result.splits\<close>)
  next
    case joins
    show False
    proof (cases "waiter_at s")
      case (Seeks j)
      then show False using q *(4) joins by simp
    next
      case (Parked j x)
      then show False using q *(1,4) joins by (auto simp: counters_ok_def aligned_def split: if_splits)
    qed (use q joins in \<open>auto split: if_splits sum.splits prod.splits call.splits reply.splits wait_result.splits\<close>)
  next
    case left
    then have "waiter_at s = Gone" using *(1) by (simp add: counters_ok_def)
    with left stuck show False by simp
  qed
qed

lemma moves_keep:
  assumes "arc_sound sc" and "100 \<le> n" and "n + 1 < 2 ^ 64" and "\<forall>k. duration_ok (clock k)"
    and "rounds_inv n clock sc s" and "moves n clock sc s s'"
  shows "rounds_inv n clock sc s'"
  using assms(6) main_safe [OF assms(1,5,2-4)] waiter_safe [OF assms(1,5,3)] by (auto elim!: moves.cases)

lemma moves_bound:
  assumes "arc_sound sc" and "100 \<le> n" and "n + 1 < 2 ^ 64" and "\<forall>k. duration_ok (clock k)"
  shows "rounds_inv n clock sc s \<Longrightarrow> (moves n clock sc ^^ m) s s' \<Longrightarrow> m \<le> steps_left n s"
proof (induction m arbitrary: s)
  case (Suc m)
  obtain s1 where s1: "moves n clock sc s s1" "(moves n clock sc ^^ m) s1 s'"
    using relpowp_Suc_D2 [OF Suc.prems(2)] by blast
  from Suc.IH [OF moves_keep [OF assms Suc.prems(1) s1(1)] s1(2)] moves_less [OF Suc.prems(1) s1(1)]
  show ?case by simp
qed simp

lemma moves_end:
  assumes "arc_sound sc" and "100 \<le> n" and "n + 1 < 2 ^ 64" and "\<forall>k. duration_ok (clock k)"
  shows "rounds_inv n clock sc s \<Longrightarrow> \<exists>s'. (moves n clock sc)\<^sup>*\<^sup>* s s' \<and> main_at s' = Left \<and> waiter_at s' = Gone \<and>
    latencies s' = map clock [0..<n]"
proof (induction "steps_left n s" arbitrary: s rule: less_induct)
  case less
  from someone_moves [OF assms(1) less.prems assms(2-4)] show ?case
  proof (elim disjE exE)
    fix s1
    assume s1: "moves n clock sc s s1"
    from less.hyps [OF moves_less [OF less.prems s1] moves_keep [OF assms less.prems s1]] s1
    show ?case by (meson converse_rtranclp_into_rtranclp)
  next
    assume "main_at s = Left \<and> waiter_at s = Gone"
    moreover from less.prems this have "latencies s = map clock [0..<n]" by (auto simp: counters_ok_def elim: rounds_invD)
    ultimately show ?case by blast
  qed
qed

text \<open>
  C40: the wait latency benchmark ends under every schedule and every number of spurious wake-ups.
  In every state it can reach, no \<open>expect\<close>, index or assertion fails (the waiter reads the outcome of
  its own round), the number of steps that are not spurious wake-ups or idle spins is bounded, and
  what can still run leads to the end of both threads, with one latency per round: no wake-up is
  lost, no subject is retired before the waiter has observed it, and neither thread waits for the
  other for ever.
\<close>

theorem wait_latency_completes:
  assumes "arc_sound sc" and "100 \<le> n" and "n + 1 < 2 ^ 64" and "\<forall>k. duration_ok (clock k)" and "rounds_reach n clock sc s"
  shows "main_step n sc (main_at s) s \<noteq> Crashes \<and> waiter_step n clock sc (waiter_at s) s \<noteq> Crashes \<and>
    (\<forall>m s'. (moves n clock sc ^^ m) s s' \<longrightarrow> m \<le> steps_left n s) \<and>
    (\<exists>s'. (moves n clock sc)\<^sup>*\<^sup>* s s' \<and> main_at s' = Left \<and> waiter_at s' = Gone \<and> latencies s' = map clock [0..<n])"
proof -
  note inv = rounds_reach_inv [OF assms]
  have "main_step n sc (main_at s) s \<noteq> Crashes" using main_safe [OF assms(1) inv assms(2-4)] by auto
  moreover have "waiter_step n clock sc (waiter_at s) s \<noteq> Crashes" using waiter_safe [OF assms(1) inv assms(3)] by auto
  ultimately show ?thesis using moves_bound [OF assms(1-4) inv] moves_end [OF assms(1-4) inv] by blast
qed

text \<open>
  In the witness the waiter observes the first subject while it is pending, parks, wakes up spuriously
  and parks again; the main thread has published and is between two phases of dropping its subject
  when the waiter reads.
\<close>

fun follows :: "nat \<Rightarrow> (nat \<Rightarrow> duration) \<Rightarrow> (u64, u64) arc_count \<Rightarrow> bool option list \<Rightarrow> rounds \<Rightarrow> rounds option" where
  "follows n clock sc [] s = Some s"
| "follows n clock sc (Some b # bs) s =
     (case if b then main_step n sc (main_at s) s else waiter_step n clock sc (waiter_at s) s of
        Moves s' \<Rightarrow> follows n clock sc bs s' | _ \<Rightarrow> None)"
| "follows n clock sc (None # bs) s = (case waiter_at s of
     Parked k m \<Rightarrow> follows n clock sc bs (s\<lparr>waiter_at := Waits k m\<rparr>) | _ \<Rightarrow> None)"

lemma follows_reach: "rounds_reach n clock sc s \<Longrightarrow> follows n clock sc bs s = Some s' \<Longrightarrow> rounds_reach n clock sc s'"
proof (induction n clock sc bs s rule: follows.induct)
  case (2 n clock sc b bs s)
  then show ?case by (auto split: if_splits move.splits intro: rounds_reach.moved moves.intros)
next
  case (3 n clock sc bs s)
  then show ?case by (auto split: waiter_pc.splits intro: rounds_reach.woke)
qed simp

theorem wait_latency_completes_witness:
  "\<exists>s. follows 100 (\<lambda>_. Duration 0 25) handle_count (map Some [True, False, False, False] @ None # map Some [False, True, True, True, False, False])
       rounds_new = Some s \<and> waiter_at s = Checks 0 3 0 \<and> main_at s = RetiresInner 0 2 \<and>
     (\<exists>s'. (moves 100 (\<lambda>_. Duration 0 25) handle_count)\<^sup>*\<^sup>* s s' \<and> main_at s' = Left \<and> length (latencies s') = 100) \<and>
     (\<exists>s'. (moves ROUNDS (\<lambda>_. Duration 0 25) handle_count)\<^sup>*\<^sup>* rounds_new s' \<and> main_at s' = Left \<and> length (latencies s') = ROUNDS)"
proof -
  let ?bs = "map Some [True, False, False, False] @ None # map Some [False, True, True, True, False, False]"
  let ?clock = "\<lambda>_. Duration 0 25"
  have "map_option (\<lambda>s. (waiter_at s, main_at s)) (follows 100 ?clock handle_count ?bs rounds_new) = Some (Checks 0 3 0, RetiresInner 0 2)"
    by code_simp
  then obtain s where s: "follows 100 ?clock handle_count ?bs rounds_new = Some s" "waiter_at s = Checks 0 3 0" "main_at s = RetiresInner 0 2"
    by auto
  have n: "100 \<le> (100::nat)" "(100::nat) + 1 < 2 ^ 64" "100 \<le> ROUNDS" "ROUNDS + 1 < 2 ^ 64" by (simp_all add: ROUNDS_def)
  have clock: "\<forall>k. duration_ok (?clock k)" by (simp add: duration_ok_def)
  from wait_latency_completes [OF handle_count_sound n(1,2) clock follows_reach [OF rounds_reach.begins s(1)]]
  have "\<exists>s'. (moves 100 ?clock handle_count)\<^sup>*\<^sup>* s s' \<and> main_at s' = Left \<and> length (latencies s') = 100"
    by (metis length_map length_upt diff_zero)
  moreover from wait_latency_completes [OF handle_count_sound n(3,4) clock rounds_reach.begins]
  have "\<exists>s'. (moves ROUNDS ?clock handle_count)\<^sup>*\<^sup>* rounds_new s' \<and> main_at s' = Left \<and> length (latencies s') = ROUNDS"
    by (metis length_map length_upt diff_zero)
  ultimately show ?thesis using s by blast
qed

end
