(* ===== verification/Contest.thy ===== *)
theory Contest
  imports Handshake
begin

section \<open>The contention workload with all its threads\<close>

text \<open>
  \<open>contention\<close> of \<open>observe-perf/src/main.rs\<close> as a whole: the main thread clones the space for each
  worker and spawns it, all meet at a barrier, the workers race through their key ranges, the scope
  joins them.  The threads are interleaved operation by operation on the model of the crate, with
  the three phases of dropping a subject.  \<open>std::sync::Barrier\<close> lets its threads through when as many
  as it was made for have arrived.

  \<open>amount\<close> is the constant \<open>N\<close> of the program.
\<close>

subsection \<open>The threads\<close>

definition key_range :: "nat \<Rightarrow> nat \<Rightarrow> nat \<Rightarrow> u64 list" where
  "key_range amount workers worker = (let per_thread = amount div workers; base = of_nat worker * of_nat per_thread in
     map (\<lambda>offset. base + offset) (keys_below per_thread))"

lemma key_range_contention: "key_range N = contention_keys"
  by (simp add: fun_eq_iff key_range_def contention_keys_def)

text \<open>
  Where a worker is, with its handle to the space, the keys it has still to register, \<open>checked\<close>, and
  the handles of its subject and its observation.
\<close>

datatype contender =
    Unspawned
  | Meets handle
  | Meeting handle
  | Loops handle "u64 list" u64
  | Observing handle u64 "u64 list" u64 handle
  | Completing handle u64 "u64 list" u64 handle handle
  | Reading handle u64 "u64 list" u64 handle handle
  | DroppingObservation handle "u64 list" u64 handle handle
  | DroppingSubject handle "u64 list" u64 handle
  | DroppingInner handle "u64 list" u64 handle
  | DroppingSlot handle "u64 list" u64 handle
  | Finishing handle u64
  | Finished u64

datatype chief =
    Spawning nat
  | Raising
  | Awaiting
  | Scoping
  | Leaving
  | Home

record contest =
  arena :: "(u64, u64) world"
  chief_at :: chief
  contenders :: "contender list"
  arrived :: nat

definition contest_new :: "nat \<Rightarrow> contest" where
  "contest_new workers = \<lparr>arena = space_new, chief_at = Spawning 0, contenders = replicate workers Unspawned, arrived = 0\<rparr>"

definition call_crate :: "(u64, u64) arc_count \<Rightarrow> (u64, u64) op \<Rightarrow> ((u64, u64) reply \<Rightarrow> contest \<Rightarrow> contest move) \<Rightarrow>
    contest \<Rightarrow> contest move" where
  "call_crate sc op k s = (case exec sc (\<lambda>_. False) op (arena s) of
       Inr (Ret r, w) \<Rightarrow> k r (s\<lparr>arena := w\<rparr>)
     | _ \<Rightarrow> Crashes)"

definition now_at :: "nat \<Rightarrow> contender \<Rightarrow> contest \<Rightarrow> contest" where
  "now_at i c s = s\<lparr>contenders := (contenders s)[i := c]\<rparr>"

fun contender_step :: "nat \<Rightarrow> nat \<Rightarrow> (u64, u64) arc_count \<Rightarrow> nat \<Rightarrow> contender \<Rightarrow> contest \<Rightarrow> contest move" where
  "contender_step amount workers sc i Unspawned s = Stays"
| "contender_step amount workers sc i (Meets x) s = Moves (now_at i (Meeting x) (s\<lparr>arrived := arrived s + 1\<rparr>))"
| "contender_step amount workers sc i (Meeting x) s =
     (if arrived s = workers + 1 then Moves (now_at i (Loops x (key_range amount workers i) 0) s) else Stays)"
| "contender_step amount workers sc i (Loops x [] checked) s = Moves (now_at i (Finishing x checked) s)"
| "contender_step amount workers sc i (Loops x (key # keys) checked) s = call_crate sc (MakeSubject key) (\<lambda>r s.
     case r of NewHandle h \<Rightarrow> Moves (now_at i (Observing x key keys checked h) s) | _ \<Rightarrow> Crashes) s"
| "contender_step amount workers sc i (Observing x key keys checked h) s = call_crate sc (Observe key) (\<lambda>r s.
     case r of NewHandle m \<Rightarrow> Moves (now_at i (Completing x key keys checked h m) s) | _ \<Rightarrow> Crashes) s"
| "contender_step amount workers sc i (Completing x key keys checked h m) s = call_crate sc (Complete h key) (\<lambda>r s.
     case r of Done \<Rightarrow> Moves (now_at i (Reading x key keys checked h m) s) | _ \<Rightarrow> Crashes) s"
| "contender_step amount workers sc i (Reading x key keys checked h m) s = call_crate sc (TryGet m) (\<lambda>r s.
     case r of Value v \<Rightarrow> Moves (now_at i (DroppingObservation x keys (if v \<noteq> None then checked + 1 else checked) h m) s)
     | _ \<Rightarrow> Crashes) s"
| "contender_step amount workers sc i (DroppingObservation x keys checked h m) s = call_crate sc (DropObservation m) (\<lambda>r s.
     case r of Done \<Rightarrow> Moves (now_at i (DroppingSubject x keys checked h) s) | _ \<Rightarrow> Crashes) s"
| "contender_step amount workers sc i (DroppingSubject x keys checked h) s = call_crate sc (DropSubject h) (\<lambda>r s.
     case r of Done \<Rightarrow> Moves (now_at i (DroppingInner x keys checked h) s) | _ \<Rightarrow> Crashes) s"
| "contender_step amount workers sc i (DroppingInner x keys checked h) s = call_crate sc (DropSubjectInner h) (\<lambda>r s.
     case r of Done \<Rightarrow> Moves (now_at i (DroppingSlot x keys checked h) s) | _ \<Rightarrow> Crashes) s"
| "contender_step amount workers sc i (DroppingSlot x keys checked h) s = call_crate sc (DropSubjectSlot h) (\<lambda>r s.
     case r of Done \<Rightarrow> Moves (now_at i (Loops x keys checked) s) | _ \<Rightarrow> Crashes) s"
| "contender_step amount workers sc i (Finishing x checked) s = call_crate sc (DropSpace x) (\<lambda>r s.
     case r of Done \<Rightarrow> Moves (now_at i (Finished checked) s) | _ \<Rightarrow> Crashes) s"
| "contender_step amount workers sc i (Finished checked) s = Stays"

fun is_finished :: "contender \<Rightarrow> bool" where
  "is_finished (Finished checked) = True"
| "is_finished c = False"

text \<open>The main thread; handle 0 is its own handle to the space.\<close>

fun chief_step :: "nat \<Rightarrow> (u64, u64) arc_count \<Rightarrow> chief \<Rightarrow> contest \<Rightarrow> contest move" where
  "chief_step workers sc (Spawning k) s =
     (if k < workers then call_crate sc CloneSpace (\<lambda>r s. case r of
          NewHandle x \<Rightarrow> Moves (now_at k (Meets x) (s\<lparr>chief_at := Spawning (k + 1)\<rparr>))
        | _ \<Rightarrow> Crashes) s
      else Moves (s\<lparr>chief_at := Raising\<rparr>))"
| "chief_step workers sc Raising s = Moves (s\<lparr>chief_at := Awaiting, arrived := arrived s + 1\<rparr>)"
| "chief_step workers sc Awaiting s = (if arrived s = workers + 1 then Moves (s\<lparr>chief_at := Scoping\<rparr>) else Stays)"
| "chief_step workers sc Scoping s = (if list_all is_finished (contenders s) then Moves (s\<lparr>chief_at := Leaving\<rparr>) else Stays)"
| "chief_step workers sc Leaving s = call_crate sc (DropSpace 0) (\<lambda>r s. case r of
       Done \<Rightarrow> Moves (s\<lparr>chief_at := Home\<rparr>)
     | _ \<Rightarrow> Crashes) s"
| "chief_step workers sc Home s = Stays"

inductive races :: "nat \<Rightarrow> nat \<Rightarrow> (u64, u64) arc_count \<Rightarrow> contest \<Rightarrow> contest \<Rightarrow> bool" for amount workers sc where
  chief: "chief_step workers sc (chief_at s) s = Moves s' \<Longrightarrow> races amount workers sc s s'"
| contender: "i < workers \<Longrightarrow> contender_step amount workers sc i (contenders s ! i) s = Moves s' \<Longrightarrow> races amount workers sc s s'"

subsection \<open>What a worker can rely on\<close>

text \<open>The handles of a worker.\<close>

fun held_by :: "contender \<Rightarrow> handle set" where
  "held_by (Meets x) = {x}"
| "held_by (Meeting x) = {x}"
| "held_by (Loops x keys n) = {x}"
| "held_by (Observing x key keys n h) = {x, h}"
| "held_by (Completing x key keys n h m) = {x, h, m}"
| "held_by (Reading x key keys n h m) = {x, h, m}"
| "held_by (DroppingObservation x keys n h m) = {x, h, m}"
| "held_by (DroppingSubject x keys n h) = {x, h}"
| "held_by (DroppingInner x keys n h) = {x, h}"
| "held_by (DroppingSlot x keys n h) = {x, h}"
| "held_by (Finishing x n) = {x}"
| "held_by c = {}"

text \<open>Which keys are done and how many were checked.\<close>

definition books :: "u64 list \<Rightarrow> u64 list \<Rightarrow> u64 \<Rightarrow> bool" where
  "books all keys n \<longleftrightarrow> (\<exists>done. all = done @ keys \<and> n = of_nat (length done))"

fun in_order :: "(u64, u64) arc_count \<Rightarrow> nat \<Rightarrow> u64 list \<Rightarrow> (u64, u64) world \<Rightarrow> contender \<Rightarrow> bool" where
  "in_order sc d all w Unspawned = (\<forall>k\<in>set all. \<not> key_live k w)"
| "in_order sc d all w (Meets x) = ready sc x (set all) d w"
| "in_order sc d all w (Meeting x) = ready sc x (set all) d w"
| "in_order sc d all w (Loops x keys n) = (ready sc x (set keys) d w \<and> books all keys n)"
| "in_order sc d all w (Observing x key keys n h) = (ready sc x (set keys) d w \<and> books all (key # keys) n
     \<and> (\<exists>sub. map_of (subjects w) h = Some sub \<and> subject_key sub = key \<and> \<not> subject_completed sub))"
| "in_order sc d all w (Completing x key keys n h m) = (ready sc x (set keys) d w \<and> books all (key # keys) n
     \<and> (\<exists>sub. map_of (subjects w) h = Some sub \<and> \<not> subject_completed sub \<and> map_of (observations w) m = Some (subject_slot sub)))"
| "in_order sc d all w (Reading x key keys n h m) = (ready sc x (set keys) d w \<and> books all (key # keys) n
     \<and> map_of (subjects w) h \<noteq> None \<and> (\<exists>t. map_of (observations w) m = Some t \<and> value_at w t = Some key))"
| "in_order sc d all w (DroppingObservation x keys n h m) = (ready sc x (set keys) d w \<and> books all keys n
     \<and> map_of (subjects w) h \<noteq> None \<and> map_of (observations w) m \<noteq> None)"
| "in_order sc d all w (DroppingSubject x keys n h) = (ready sc x (set keys) d w \<and> books all keys n \<and> map_of (subjects w) h \<noteq> None)"
| "in_order sc d all w (DroppingInner x keys n h) = (ready sc x (set keys) d w \<and> books all keys n \<and> map_of (retiring w) h \<noteq> None)"
| "in_order sc d all w (DroppingSlot x keys n h) = (ready sc x (set keys) d w \<and> books all keys n \<and> map_of (dying w) h \<noteq> None)"
| "in_order sc d all w (Finishing x n) = (ready sc x {} d w \<and> books all [] n)"
| "in_order sc d all w (Finished n) = books all [] n"

text \<open>It stays so while others work.\<close>

lemma in_order_kept:
  assumes "arc_sound sc" and "reach sc w" and own: "owns op w" and ex: "exec sc (\<lambda>_. False) op w = Inr (r, w')"
    and ok: "in_order sc d all w c" and quiet: "\<forall>x\<in>held_by c. \<not> uses op x" "\<forall>k\<in>set all. op \<noteq> MakeSubject k"
  shows "in_order sc (Suc d) all w' c"
proof -
  have sub: "set keys \<subseteq> set all" if "books all keys n" for keys n using that by (auto simp: books_def)
  have ready: "ready sc x K (Suc d) w'" if "ready sc x K d w" "x \<in> held_by c" "K \<subseteq> set all" for x K
    by (rule exec_ready [OF that(1) own ex]) (use that quiet in auto)
  note keeps = exec_keeps_subject [OF ex] exec_keeps_observation [OF ex] exec_keeps_retiring [OF ex] exec_keeps_dying [OF ex]
  have held: "value_at w' t = Some v" if "map_of (observations w) m = Some t" "value_at w t = Some v" "\<not> uses op m" for m t v
    using exec_keeps_value [OF reach_wf [OF assms(1,2)] assms(1) own ex _ that(1,2)] that(3) uses_consumes by blast
  show ?thesis
  proof (cases c)
    case Unspawned
    then show ?thesis using ok quiet(2) exec_makes_live [OF ex] by auto
  next
    case (Reading x key keys n h m)
    with ok quiet obtain t where t: "map_of (observations w) m = Some t" "value_at w t = Some key" "\<not> uses op m" by auto
    have "map_of (observations w') m = Some t" using keeps(2) [OF _ t(1)] t(3) uses_consumes by blast
    moreover note held [OF t]
    ultimately show ?thesis using Reading ok quiet ready [of x "set keys"] keeps(1) [of h] sub [of "key # keys" n] by auto
  next
    case (Completing x key keys n h m)
    with ok quiet obtain u where u: "map_of (subjects w) h = Some u" "\<not> subject_completed u"
      "map_of (observations w) m = Some (subject_slot u)" "\<not> uses op h" "\<not> uses op m" by auto
    have "map_of (observations w') m = Some (subject_slot u)" using keeps(2) [OF _ u(3)] u(5) uses_consumes by blast
    moreover note keeps(1) [OF u(4,1)]
    ultimately show ?thesis using Completing ok u(2) ready [of x "set keys"] sub [of "key # keys" n] by auto
  next
    case (DroppingObservation x keys n h m)
    with ok quiet obtain t where t: "map_of (observations w) m = Some t" "\<not> uses op m" by auto
    have "map_of (observations w') m = Some t" using keeps(2) [OF _ t(1)] t(2) uses_consumes by blast
    then show ?thesis using DroppingObservation ok quiet ready [of x "set keys"] keeps(1) [of h] sub [of keys n] by auto
  qed (use ok quiet ready sub keeps(1,3,4) in \<open>fastforce+\<close>)
qed

lemma in_order_later: "in_order sc d all w c \<Longrightarrow> d \<le> d' \<Longrightarrow> in_order sc d' all w c"
  using ready_less [OF _ subset_refl, of sc _ _ d w d'] by (cases c) auto

subsection \<open>The invariant\<close>

fun raised :: "contender \<Rightarrow> bool" where
  "raised Unspawned = False"
| "raised (Meets x) = False"
| "raised c = True"

fun crossed :: "contender \<Rightarrow> bool" where
  "crossed Unspawned = False"
| "crossed (Meets x) = False"
| "crossed (Meeting x) = False"
| "crossed c = True"

text \<open>The steps still to come: eight operations and the loop's own step make nine per key.\<close>

fun steps_ahead :: "nat \<Rightarrow> contender \<Rightarrow> nat" where
  "steps_ahead p Unspawned = 9 * p + 5"
| "steps_ahead p (Meets x) = 9 * p + 4"
| "steps_ahead p (Meeting x) = 9 * p + 3"
| "steps_ahead p (Loops x keys n) = 9 * length keys + 2"
| "steps_ahead p (Observing x key keys n h) = 9 * length keys + 9"
| "steps_ahead p (Completing x key keys n h m) = 9 * length keys + 8"
| "steps_ahead p (Reading x key keys n h m) = 9 * length keys + 7"
| "steps_ahead p (DroppingObservation x keys n h m) = 9 * length keys + 6"
| "steps_ahead p (DroppingSubject x keys n h) = 9 * length keys + 5"
| "steps_ahead p (DroppingInner x keys n h) = 9 * length keys + 4"
| "steps_ahead p (DroppingSlot x keys n h) = 9 * length keys + 3"
| "steps_ahead p (Finishing x n) = 1"
| "steps_ahead p (Finished n) = 0"

fun chief_ahead :: "nat \<Rightarrow> chief \<Rightarrow> nat" where
  "chief_ahead workers (Spawning k) = 5 + (workers - k)"
| "chief_ahead workers Raising = 4"
| "chief_ahead workers Awaiting = 3"
| "chief_ahead workers Scoping = 2"
| "chief_ahead workers Leaving = 1"
| "chief_ahead workers Home = 0"

definition race_left :: "nat \<Rightarrow> nat \<Rightarrow> contest \<Rightarrow> nat" where
  "race_left amount workers s =
     chief_ahead workers (chief_at s) + (\<Sum>c\<leftarrow>contenders s. steps_ahead (amount div workers) c)"

fun chief_raised :: "chief \<Rightarrow> bool" where
  "chief_raised (Spawning k) = False"
| "chief_raised Raising = False"
| "chief_raised m = True"

fun chief_ok :: "chief \<Rightarrow> contender list \<Rightarrow> bool" where
  "chief_ok (Spawning k) cs = (k \<le> length cs \<and> (\<forall>i<length cs. cs ! i = Unspawned \<longleftrightarrow> k \<le> i))"
| "chief_ok Leaving cs = list_all is_finished cs"
| "chief_ok Home cs = list_all is_finished cs"
| "chief_ok m cs = (Unspawned \<notin> set cs)"

definition barrier_ok :: "nat \<Rightarrow> contender list \<Rightarrow> chief \<Rightarrow> nat \<Rightarrow> bool" where
  "barrier_ok workers cs m n \<longleftrightarrow> n = length (filter raised cs) + (if chief_raised m then 1 else 0)
     \<and> ((\<exists>c\<in>set cs. crossed c) \<or> m \<in> {Scoping, Leaving, Home} \<longrightarrow> n = workers + 1)"

definition apart :: "contest \<Rightarrow> bool" where
  "apart s \<longleftrightarrow> (\<forall>i<length (contenders s). 0 \<notin> held_by (contenders s ! i) \<and> (\<forall>j<length (contenders s). i \<noteq> j \<longrightarrow>
     held_by (contenders s ! i) \<inter> held_by (contenders s ! j) = {}))"

text \<open>\<open>d\<close> bounds the generation numbers that were drawn.\<close>

definition contest_at :: "nat \<Rightarrow> nat \<Rightarrow> (u64, u64) arc_count \<Rightarrow> nat \<Rightarrow> contest \<Rightarrow> bool" where
  "contest_at amount workers sc d s \<longleftrightarrow> length (contenders s) = workers \<and> chief_ok (chief_at s) (contenders s)
     \<and> barrier_ok workers (contenders s) (chief_at s) (arrived s) \<and> apart s
     \<and> (chief_at s \<noteq> Home \<longrightarrow> map_of (spaces (arena s)) 0 \<noteq> None)
     \<and> d + race_left amount workers s < 2 ^ 64 - 1 \<and> reach sc (arena s) \<and> drawn_at_most d (arena s)
     \<and> (\<forall>i<workers. in_order sc d (key_range amount workers i) (arena s) (contenders s ! i))"

lemma contest_atD:
  assumes "contest_at amount workers sc d s"
  shows "length (contenders s) = workers" and "chief_ok (chief_at s) (contenders s)"
    and "barrier_ok workers (contenders s) (chief_at s) (arrived s)" and "apart s"
    and "chief_at s \<noteq> Home \<Longrightarrow> map_of (spaces (arena s)) 0 \<noteq> None" and "d + race_left amount workers s < 2 ^ 64 - 1"
    and "reach sc (arena s)" and "drawn_at_most d (arena s)"
    and "i < workers \<Longrightarrow> in_order sc d (key_range amount workers i) (arena s) (contenders s ! i)"
  using assms unfolding contest_at_def by blast+

lemma key_range_words: "key_range amount workers i = map of_nat [i * (amount div workers)..<i * (amount div workers) + amount div workers]"
proof -
  have "map (\<lambda>j. of_nat (b + j)) [0..<p] = (map of_nat [b..<b + p] :: u64 list)" for b p
    by (induction p) simp_all
  from this [of "i * (amount div workers)" "amount div workers"] show ?thesis
    by (simp add: key_range_def keys_below_def Let_def comp_def)
qed

lemma length_key_range [simp]: "length (key_range amount workers i) = amount div workers"
  by (simp add: key_range_words)

lemma range_below:
  assumes "(i :: nat) < workers"
  shows "i * (amount div workers) + amount div workers \<le> amount"
proof -
  have "i * (amount div workers) + amount div workers \<le> workers * (amount div workers)"
    using mult_le_mono1 [of "Suc i" workers "amount div workers"] assms by simp
  also have "\<dots> \<le> amount" by simp
  finally show ?thesis .
qed

lemma key_range_distinct:
  assumes "amount < 2 ^ 64" and "i < workers"
  shows "distinct (key_range amount workers i)"
proof -
  have "inj_on (of_nat :: nat \<Rightarrow> u64) {i * (amount div workers)..<i * (amount div workers) + amount div workers}"
    using range_below [OF assms(2), of amount] assms(1) by (auto simp: inj_on_def word_of_nat_eq_iff take_bit_nat_eq_self)
  then show ?thesis by (simp add: key_range_words distinct_map)
qed

lemma key_range_disjoint:
  assumes "amount < 2 ^ 64" and "i < workers" and "j < workers" and "i \<noteq> j"
  shows "set (key_range amount workers i) \<inter> set (key_range amount workers j) = {}"
proof -
  let ?p = "amount div workers"
  have "a = b" if "(of_nat a :: u64) = of_nat b" "a < amount" "b < amount" for a b
    using that assms(1) by (simp add: word_of_nat_eq_iff take_bit_nat_eq_self)
  then have same: "a = b" if "(of_nat a :: u64) = of_nat b" "a < i * ?p + ?p" "b < j * ?p + ?p" for a b
    using that range_below [OF assms(2), of amount] range_below [OF assms(3), of amount] by (meson less_le_trans)
  have apart: "i * ?p + ?p \<le> j * ?p \<or> j * ?p + ?p \<le> i * ?p"
    using mult_le_mono1 [of "Suc i" j ?p] mult_le_mono1 [of "Suc j" i ?p] assms(4) by (cases "i < j") auto
  show ?thesis
  proof (rule equals0I)
    fix k
    assume "k \<in> set (key_range amount workers i) \<inter> set (key_range amount workers j)"
    then obtain a b where "i * ?p \<le> a" "a < i * ?p + ?p" "j * ?p \<le> b" "b < j * ?p + ?p" "(of_nat a :: u64) = of_nat b"
      by (auto simp: key_range_words)
    with same [of a b] apart show False by auto
  qed
qed

lemma sum_at: "i < length cs \<Longrightarrow> (\<Sum>c\<leftarrow>cs[i := c]. f c) + f (cs ! i) = (\<Sum>c\<leftarrow>cs. f c) + (f c :: nat)"
proof (induction cs arbitrary: i)
  case (Cons a cs)
  then show ?case by (cases i) auto
qed simp

lemma filter_at:
  "i < length cs \<Longrightarrow> length (filter P (cs[i := c])) + (if P (cs ! i) then 1 else 0) = length (filter P cs) + (if P c then 1 else 0)"
proof (induction cs arbitrary: i)
  case (Cons a cs)
  then show ?case by (cases i) auto
qed simp

lemma held_below:
  assumes "arc_sound sc" and "reach sc w" and "in_order sc d all w c" and "x \<in> held_by c"
  shows "x < next_handle w"
proof -
  have less: "\<forall>h\<in>set (all_handles w). h < next_handle w"
    using wfD(3) [OF reach_wf [OF assms(1,2)]] by (simp add: handle_inv_def)
  have "map_of (spaces w) x \<noteq> None \<or> map_of (subjects w) x \<noteq> None \<or> map_of (observations w) x \<noteq> None
      \<or> map_of (retiring w) x \<noteq> None \<or> map_of (dying w) x \<noteq> None"
    using assms(3,4) by (cases c) (auto dest: readyD(2))
  then have "x \<in> set (all_handles w)" by (auto simp: all_handles_def map_of_eq_None_iff)
  with less show ?thesis by blast
qed

text \<open>A step of a worker, or of the main thread on a worker's behalf.\<close>

lemma contest_step:
  assumes sound: "arc_sound sc" and inv: "contest_at amount workers sc d s" and i: "i < workers" and small: "amount < 2 ^ 64"
    and effect: "w' = arena s \<or> (\<exists>op r. exec sc (\<lambda>_. False) op (arena s) = Inr (r, w') \<and> owns op (arena s)
        \<and> (\<forall>x. uses op x \<longrightarrow> x \<in> held_by (contenders s ! i)) \<and> (\<forall>k. op = MakeSubject k \<longrightarrow> k \<in> set (key_range amount workers i)))"
    and mine: "in_order sc (Suc d) (key_range amount workers i) w' c"
    and held: "held_by c \<subseteq> insert (next_handle (arena s)) (held_by (contenders s ! i))"
    and less: "steps_ahead (amount div workers) c < steps_ahead (amount div workers) (contenders s ! i)"
    and chief: "chief_ok m ((contenders s)[i := c])" "m = Home \<longleftrightarrow> chief_at s = Home" "chief_ahead workers m \<le> chief_ahead workers (chief_at s)"
    and barrier: "barrier_ok workers ((contenders s)[i := c]) m n"
  defines "s' \<equiv> s\<lparr>arena := w', chief_at := m, contenders := (contenders s)[i := c], arrived := n\<rparr>"
  shows "contest_at amount workers sc (Suc d) s'" and "race_left amount workers s' < race_left amount workers s"
proof -
  note len = contest_atD(1) [OF inv] and sep = contest_atD(4) [OF inv] and zero = contest_atD(5) [OF inv]
    and d = contest_atD(6) [OF inv] and r = contest_atD(7) [OF inv] and drawn = contest_atD(8) [OF inv] and order = contest_atD(9) [OF inv]
  show left: "race_left amount workers s' < race_left amount workers s"
    using sum_at [of i "contenders s" "steps_ahead (amount div workers)" c] i len less chief(3) by (simp add: s'_def race_left_def)
  have below: "x < next_handle (arena s)" if "x \<in> held_by (contenders s ! j)" "j < workers" for x j
    using held_below [OF sound r order [OF that(2)] that(1)] .
  have out: "\<not> uses op x" if "\<forall>x. uses op x \<longrightarrow> x \<in> held_by (contenders s ! i)" "j < workers" "j \<noteq> i" "x \<in> held_by (contenders s ! j)" for op x j
    using that sep i len unfolding apart_def by blast
  have others: "in_order sc (Suc d) (key_range amount workers j) w' (contenders s ! j)" if j: "j < workers" "j \<noteq> i" for j
    using effect
  proof (elim disjE exE conjE)
    assume "w' = arena s"
    then show ?thesis using in_order_later [OF order [OF j(1)]] by simp
  next
    fix op res
    assume op: "exec sc (\<lambda>_. False) op (arena s) = Inr (res, w')" "owns op (arena s)"
      "\<forall>x. uses op x \<longrightarrow> x \<in> held_by (contenders s ! i)" "\<forall>k. op = MakeSubject k \<longrightarrow> k \<in> set (key_range amount workers i)"
    show ?thesis
      by (rule in_order_kept [OF sound r op(2,1) order [OF j(1)]])
        (use out [OF op(3) j] op(4) key_range_disjoint [OF small i j(1)] j(2) in auto)
  qed
  have w': "reach sc w' \<and> drawn_at_most (Suc d) w' \<and> (m \<noteq> Home \<longrightarrow> map_of (spaces w') 0 \<noteq> None)"
    using effect
  proof (elim disjE exE conjE)
    assume "w' = arena s"
    then show ?thesis using r drawn zero chief(2) by (auto simp: drawn_at_most_def le_SucI)
  next
    fix op res
    assume op: "exec sc (\<lambda>_. False) op (arena s) = Inr (res, w')" "owns op (arena s)" "\<forall>x. uses op x \<longrightarrow> x \<in> held_by (contenders s ! i)"
    have "\<not> uses op 0" using op(3) sep i len unfolding apart_def by blast
    with exec_keeps_space [OF op(1)] zero chief(2) reach.step [OF r op(2,1)] exec_draws [OF op(1) drawn]
    show ?thesis by auto
  qed
  have "apart s'"
  proof -
    have "0 < next_handle (arena s)"
    proof (cases "chief_at s = Home")
      case False
      then have "0 \<in> set (all_handles (arena s))" using zero by (auto simp: all_handles_def map_of_eq_None_iff)
      then show ?thesis using wfD(3) [OF reach_wf [OF sound r]] by (auto simp: handle_inv_def)
    next
      case True
      then show ?thesis using less i len contest_atD(2) [OF inv] by (auto simp: list_all_length elim!: is_finished.elims)
    qed
    have zeros: "0 \<notin> held_by (contenders s ! j)" if "j < workers" for j using sep len that unfolding apart_def by blast
    have two: "held_by (contenders s ! j) \<inter> held_by (contenders s ! k) = {}" if "j < workers" "k < workers" "j \<noteq> k" for j k
      using sep len that unfolding apart_def by blast
    have no_zero: "0 \<notin> held_by c" using held zeros [OF i] \<open>0 < next_handle (arena s)\<close> by auto
    have one: "held_by c \<inter> held_by (contenders s ! j) = {}" if "j < workers" "j \<noteq> i" for j
      using held two [OF i that(1)] that below [of "next_handle (arena s)" j] by auto
    show ?thesis unfolding apart_def
    proof (intro allI impI conjI)
      fix j assume "j < length (contenders s')"
      then have j: "j < workers" by (simp add: s'_def len)
      show "0 \<notin> held_by (contenders s' ! j)" using zeros [OF j] no_zero i len by (simp add: s'_def nth_list_update)
      fix k assume "k < length (contenders s')" "j \<noteq> k"
      then have k: "k < workers" "j \<noteq> k" by (simp_all add: s'_def len)
      show "held_by (contenders s' ! j) \<inter> held_by (contenders s' ! k) = {}"
        using two [OF j k] one [OF j] one [OF k(1)] k(2) i len by (auto simp: s'_def nth_list_update)
    qed
  qed
  moreover have "barrier_ok workers (contenders s') (chief_at s') (arrived s')" using barrier by (simp add: s'_def)
  moreover have "in_order sc (Suc d) (key_range amount workers j) (arena s') (contenders s' ! j)" if "j < workers" for j
    using that others mine i len by (cases "j = i") (simp_all add: s'_def)
  moreover have "Suc d + race_left amount workers s' < 2 ^ 64 - 1" using left d by linarith
  ultimately show "contest_at amount workers sc (Suc d) s'"
    unfolding contest_at_def using w' chief(1) len by (simp add: s'_def)
qed

subsection \<open>The workers\<close>

definition lowers :: "nat \<Rightarrow> nat \<Rightarrow> (u64, u64) arc_count \<Rightarrow> contest \<Rightarrow> contest \<Rightarrow> bool" where
  "lowers amount workers sc s s' \<longleftrightarrow> (\<exists>d. contest_at amount workers sc d s') \<and> race_left amount workers s' < race_left amount workers s"

fun racing :: "contender \<Rightarrow> bool" where
  "racing Unspawned = False"
| "racing (Finished n) = False"
| "racing c = True"

lemma chief_ok_at:
  "chief_ok m cs \<Longrightarrow> i < length cs \<Longrightarrow> racing (cs ! i) \<Longrightarrow> c \<noteq> Unspawned \<Longrightarrow> chief_ok m (cs[i := c])"
proof (cases m)
  case (Spawning k)
  assume "chief_ok m cs" "i < length cs" "racing (cs ! i)" "c \<noteq> Unspawned"
  with Spawning show ?thesis by (auto simp: nth_list_update)
qed (auto simp: list_all_length in_set_conv_nth nth_list_update dest!: spec [of _ i] elim!: racing.elims)

lemma barrier_at:
  assumes "barrier_ok workers cs m n" and "i < length cs" and "raised (cs ! i)" "raised c"
    and "crossed c \<Longrightarrow> crossed (cs ! i) \<or> n = workers + 1"
  shows "barrier_ok workers (cs[i := c]) m n"
proof -
  have "n = workers + 1" if "\<exists>c\<in>set (cs[i := c]). crossed c"
  proof -
    from that set_update_subset_insert [of cs i c] have "crossed c \<or> (\<exists>c\<in>set cs. crossed c)" by blast
    with assms(1,2,5) show ?thesis unfolding barrier_ok_def by (metis nth_mem)
  qed
  with assms(1) filter_at [OF assms(2), of raised c] assms(3,4) show ?thesis by (auto simp: barrier_ok_def)
qed

lemma worker_step:
  assumes sound: "arc_sound sc" and inv: "contest_at amount workers sc d s" and i: "i < workers" and small: "amount < 2 ^ 64"
    and effect: "w' = arena s \<or> (\<exists>op r. exec sc (\<lambda>_. False) op (arena s) = Inr (r, w') \<and> owns op (arena s)
        \<and> (\<forall>x. uses op x \<longrightarrow> x \<in> held_by (contenders s ! i)) \<and> (\<forall>k. op = MakeSubject k \<longrightarrow> k \<in> set (key_range amount workers i)))"
    and mine: "in_order sc (Suc d) (key_range amount workers i) w' c"
    and held: "held_by c \<subseteq> insert (next_handle (arena s)) (held_by (contenders s ! i))"
    and less: "steps_ahead (amount div workers) c < steps_ahead (amount div workers) (contenders s ! i)"
    and c: "racing (contenders s ! i)" "raised (contenders s ! i)" "raised c" "crossed c \<Longrightarrow> crossed (contenders s ! i) \<or> arrived s = workers + 1"
  shows "lowers amount workers sc s (now_at i c (s\<lparr>arena := w'\<rparr>))"
proof -
  note len = contest_atD(1) [OF inv]
  have "c \<noteq> Unspawned" using c(3) by auto
  then have m: "chief_ok (chief_at s) ((contenders s)[i := c])" using contest_atD(2) [OF inv] c(1) i len by (simp add: chief_ok_at)
  have b: "barrier_ok workers ((contenders s)[i := c]) (chief_at s) (arrived s)"
    by (rule barrier_at [OF contest_atD(3) [OF inv]]) (use c i len in auto)
  have e: "now_at i c (s\<lparr>arena := w'\<rparr>) = s\<lparr>arena := w', chief_at := chief_at s, contenders := (contenders s)[i := c], arrived := arrived s\<rparr>"
    by (simp add: now_at_def)
  show ?thesis unfolding lowers_def e
    using contest_step [OF sound inv i small effect mine held less m _ _ b] by auto
qed

text \<open>A call of a worker that has crossed the barrier.\<close>

lemma call_safe:
  assumes "arc_sound sc" and "contest_at amount workers sc d s" and "i < workers" and "amount < 2 ^ 64"
    and "crossed (contenders s ! i)" "racing (contenders s ! i)"
    and ex: "exec sc (\<lambda>_. False) op (arena s) = Inr (Ret r, w')" and "owns op (arena s)"
    and "\<And>x. uses op x \<Longrightarrow> x \<in> held_by (contenders s ! i)" "\<And>k. op = MakeSubject k \<Longrightarrow> k \<in> set (key_range amount workers i)"
    and k: "k r (s\<lparr>arena := w'\<rparr>) = Moves (now_at i c (s\<lparr>arena := w'\<rparr>))"
    and "in_order sc (Suc d) (key_range amount workers i) w' c"
    and "held_by c \<subseteq> insert (next_handle (arena s)) (held_by (contenders s ! i))"
    and "steps_ahead (amount div workers) c < steps_ahead (amount div workers) (contenders s ! i)" and "raised c"
  shows "safe_move (lowers amount workers sc s) (call_crate sc op k s)"
proof -
  have "raised (contenders s ! i)" using assms(5) by (cases "contenders s ! i") auto
  then have "lowers amount workers sc s (now_at i c (s\<lparr>arena := w'\<rparr>))"
    using assms by (intro worker_step [where d = d]) blast+
  then show ?thesis by (simp add: call_crate_def ex k)
qed

lemma books_next: "books all (key # keys) n \<Longrightarrow> books all keys (n + 1)"
  unfolding books_def by (metis append.assoc append_Cons append_Nil length_append_singleton of_nat_Suc add.commute)

lemma booksD: "books all keys n \<Longrightarrow> set keys \<subseteq> set all" "books all keys n \<Longrightarrow> distinct all \<Longrightarrow> distinct keys"
  by (auto simp: books_def)

lemma registered_handle: "exec sc wp (MakeSubject key) w = Inr (Ret (NewHandle h), w') \<Longrightarrow> h = next_handle w"
  by (auto simp: space_subject_def Let_def fresh_handle_def alloc_slot_def
      split: option.splits sum.splits prod.splits if_splits dest!: handle_frames [unfolded same_handles_def])

lemma observed_handle: "exec sc wp (Observe key) w = Inr (Ret (NewHandle h), w') \<Longrightarrow> h = next_handle w"
  by (auto simp: space_observe_def Let_def fresh_handle_def split: option.splits)

lemma registers_safe:
  assumes sound: "arc_sound sc" and inv: "contest_at amount workers sc d s" and i: "i < workers" and small: "amount < 2 ^ 64"
    and at: "contenders s ! i = Loops x (key # keys) n"
  shows "safe_move (lowers amount workers sc s) (contender_step amount workers sc i (contenders s ! i) s)"
proof -
  let ?all = "key_range amount workers i"
  have ok: "ready sc x (set (key # keys)) d (arena s)" "books ?all (key # keys) n" using contest_atD(9) [OF inv i] at by simp_all
  have d: "d < 2 ^ 64 - 1" using contest_atD(6) [OF inv] by simp
  have key: "key \<notin> set keys" "key \<in> set ?all" using booksD [OF ok(2)] key_range_distinct [OF small i] by auto
  have r: "ready sc x (set keys) d (arena s)" and vacant: "\<not> key_live key (arena s)"
    using ready_less [OF ok(1)] readyD(3) [OF ok(1)] by auto
  obtain h sub w' where w': "exec sc (\<lambda>_. False) (MakeSubject key) (arena s) = Inr (Ret (NewHandle h), w')"
    "ready sc x (set keys) (Suc d) w'" "map_of (subjects w') h = Some sub" "subject_key sub = key" "\<not> subject_completed sub"
    by (rule ready_register [OF sound r vacant key(1) d])
  note h = registered_handle [OF w'(1)]
  show ?thesis unfolding at contender_step.simps
    by (rule call_safe [OF sound inv i small _ _ w'(1), where c = "Observing x key keys n h"])
      (use at w' ok(2) key(2) h readyD(5) [OF r] in auto)
qed

lemma observes_safe:
  assumes sound: "arc_sound sc" and inv: "contest_at amount workers sc d s" and i: "i < workers" and small: "amount < 2 ^ 64"
    and at: "contenders s ! i = Observing x key keys n h"
  shows "safe_move (lowers amount workers sc s) (contender_step amount workers sc i (contenders s ! i) s)"
proof -
  from contest_atD(9) [OF inv i] at obtain sub where ok: "ready sc x (set keys) d (arena s)" "books (key_range amount workers i) (key # keys) n"
    "map_of (subjects (arena s)) h = Some sub" "subject_key sub = key" "\<not> subject_completed sub" by auto
  obtain m w' where w': "exec sc (\<lambda>_. False) (Observe key) (arena s) = Inr (Ret (NewHandle m), w')" "ready sc x (set keys) (Suc d) w'"
    "map_of (subjects w') h = Some sub" "map_of (observations w') m = Some (subject_slot sub)"
    by (rule ready_observe [OF sound ok(1,3,4)])
  note m = observed_handle [OF w'(1)]
  show ?thesis unfolding at contender_step.simps
    by (rule call_safe [OF sound inv i small _ _ w'(1), where c = "Completing x key keys n h m"])
      (use at w' ok m readyD(5) [OF ok(1)] in auto)
qed

lemma completes_safe:
  assumes sound: "arc_sound sc" and inv: "contest_at amount workers sc d s" and i: "i < workers" and small: "amount < 2 ^ 64"
    and at: "contenders s ! i = Completing x key keys n h m"
  shows "safe_move (lowers amount workers sc s) (contender_step amount workers sc i (contenders s ! i) s)"
proof -
  from contest_atD(9) [OF inv i] at obtain sub where ok: "ready sc x (set keys) d (arena s)" "books (key_range amount workers i) (key # keys) n"
    "map_of (subjects (arena s)) h = Some sub" "\<not> subject_completed sub" "map_of (observations (arena s)) m = Some (subject_slot sub)" by auto
  obtain w' where w': "exec sc (\<lambda>_. False) (Complete h key) (arena s) = Inr (Ret Done, w')" "map_of (observations w') m = Some (subject_slot sub)"
    "value_at w' (subject_slot sub) = Some key" "map_of (subjects w') h = Some (sub\<lparr>subject_completed := True\<rparr>)"
    by (rule complete_own [OF sound contest_atD(7) [OF inv] ok(3-5)])
  have "x \<noteq> h" using handles_apart(2) [OF reach_wf [OF sound readyD(1) [OF ok(1)]] readyD(2) [OF ok(1)]] ok(3) by auto
  then have r: "ready sc x (set keys) (Suc d) w'" by (intro exec_ready [OF ok(1) _ w'(1)]) (use ok(3) in auto)
  show ?thesis unfolding at contender_step.simps
    by (rule call_safe [OF sound inv i small _ _ w'(1), where c = "Reading x key keys n h m"]) (use at w' ok r in auto)
qed

lemma reads_safe:
  assumes sound: "arc_sound sc" and inv: "contest_at amount workers sc d s" and i: "i < workers" and small: "amount < 2 ^ 64"
    and at: "contenders s ! i = Reading x key keys n h m"
  shows "safe_move (lowers amount workers sc s) (contender_step amount workers sc i (contenders s ! i) s)"
proof -
  from contest_atD(9) [OF inv i] at obtain t where ok: "ready sc x (set keys) d (arena s)" "books (key_range amount workers i) (key # keys) n"
    "map_of (subjects (arena s)) h \<noteq> None" "map_of (observations (arena s)) m = Some t" "value_at (arena s) t = Some key" by auto
  note wf = reach_wf [OF sound readyD(1) [OF ok(1)]]
  obtain sl where "heap (arena s) t = Some sl" using observed_slot [OF wf ok(4)] .
  then have get: "exec sc (\<lambda>_. False) (TryGet m) (arena s) = Inr (Ret (Value (Some key)), arena s)"
    using observation_try_get_eq [OF wf ok(4)] ok(5) by (simp add: value_at_def)
  have r: "ready sc x (set keys) (Suc d) (arena s)" by (rule ready_less [OF ok(1)]) simp_all
  show ?thesis unfolding at contender_step.simps
    by (rule call_safe [OF sound inv i small _ _ get, where c = "DroppingObservation x keys (n + 1) h m"])
      (use at ok r books_next [OF ok(2)] in auto)
qed

lemma drops_safe:
  assumes sound: "arc_sound sc" and inv: "contest_at amount workers sc d s" and i: "i < workers" and small: "amount < 2 ^ 64"
  shows "contenders s ! i = DroppingObservation x keys n h m \<Longrightarrow>
      safe_move (lowers amount workers sc s) (contender_step amount workers sc i (contenders s ! i) s)"
    and "contenders s ! i = DroppingSubject x keys n h \<Longrightarrow>
      safe_move (lowers amount workers sc s) (contender_step amount workers sc i (contenders s ! i) s)"
    and "contenders s ! i = DroppingInner x keys n h \<Longrightarrow>
      safe_move (lowers amount workers sc s) (contender_step amount workers sc i (contenders s ! i) s)"
    and "contenders s ! i = DroppingSlot x keys n h \<Longrightarrow>
      safe_move (lowers amount workers sc s) (contender_step amount workers sc i (contenders s ! i) s)"
    and "contenders s ! i = Finishing x n \<Longrightarrow>
      safe_move (lowers amount workers sc s) (contender_step amount workers sc i (contenders s ! i) s)"
proof -
  note order = contest_atD(9) [OF inv i] and call = call_safe [OF sound inv i small]
  show "safe_move (lowers amount workers sc s) (contender_step amount workers sc i (contenders s ! i) s)"
    if at: "contenders s ! i = DroppingObservation x keys n h m"
  proof -
    from order at have ok: "ready sc x (set keys) d (arena s)" "map_of (observations (arena s)) m \<noteq> None" by auto
    obtain w' where w': "exec sc (\<lambda>_. False) (DropObservation m) (arena s) = Inr (Ret Done, w')" "ready sc x (set keys) (Suc d) w'"
      "subjects w' = subjects (arena s)" by (rule drop_observation_next [OF sound ok])
    show ?thesis unfolding at contender_step.simps
      by (rule call [OF _ _ w'(1), where c = "DroppingSubject x keys n h"]) (use at w' order ok in auto)
  qed
  show "safe_move (lowers amount workers sc s) (contender_step amount workers sc i (contenders s ! i) s)"
    if at: "contenders s ! i = DroppingSubject x keys n h"
  proof -
    from order at have ok: "ready sc x (set keys) d (arena s)" "map_of (subjects (arena s)) h \<noteq> None" by auto
    obtain w' where w': "exec sc (\<lambda>_. False) (DropSubject h) (arena s) = Inr (Ret Done, w')" "ready sc x (set keys) (Suc d) w'"
      "map_of (retiring w') h \<noteq> None" by (rule drop_subject_next [OF sound ok])
    show ?thesis unfolding at contender_step.simps
      by (rule call [OF _ _ w'(1), where c = "DroppingInner x keys n h"]) (use at w' order ok in auto)
  qed
  show "safe_move (lowers amount workers sc s) (contender_step amount workers sc i (contenders s ! i) s)"
    if at: "contenders s ! i = DroppingInner x keys n h"
  proof -
    from order at have ok: "ready sc x (set keys) d (arena s)" "map_of (retiring (arena s)) h \<noteq> None" by auto
    obtain w' where w': "exec sc (\<lambda>_. False) (DropSubjectInner h) (arena s) = Inr (Ret Done, w')" "ready sc x (set keys) (Suc d) w'"
      "map_of (dying w') h \<noteq> None" by (rule drop_inner_next [OF sound ok])
    show ?thesis unfolding at contender_step.simps
      by (rule call [OF _ _ w'(1), where c = "DroppingSlot x keys n h"]) (use at w' order ok in auto)
  qed
  show "safe_move (lowers amount workers sc s) (contender_step amount workers sc i (contenders s ! i) s)"
    if at: "contenders s ! i = DroppingSlot x keys n h"
  proof -
    from order at have ok: "ready sc x (set keys) d (arena s)" "map_of (dying (arena s)) h \<noteq> None" by auto
    obtain w' where w': "exec sc (\<lambda>_. False) (DropSubjectSlot h) (arena s) = Inr (Ret Done, w')" "ready sc x (set keys) (Suc d) w'"
      by (rule drop_slot_next [OF sound ok])
    show ?thesis unfolding at contender_step.simps
      by (rule call [OF _ _ w'(1), where c = "Loops x keys n"]) (use at w' order ok in auto)
  qed
  show "safe_move (lowers amount workers sc s) (contender_step amount workers sc i (contenders s ! i) s)"
    if at: "contenders s ! i = Finishing x n"
  proof -
    from order at have ok: "ready sc x {} d (arena s)" "books (key_range amount workers i) [] n" by auto
    then obtain u where "map_of (spaces (arena s)) x = Some u" using readyD(2) by blast
    from space_drop_eq(1) [OF reach_wf [OF sound readyD(1) [OF ok(1)]] sound this]
    obtain w' where w': "exec sc (\<lambda>_. False) (DropSpace x) (arena s) = Inr (Ret Done, w')" by auto
    show ?thesis unfolding at contender_step.simps
      by (rule call [OF _ _ w', where c = "Finished n"]) (use at ok readyD(2) [OF ok(1)] in auto)
  qed
qed

lemma not_all_raised:
  assumes "barrier_ok workers cs m n" and "length cs = workers" and "i < workers" and "\<not> raised (cs ! i)"
  shows "n \<le> workers \<and> \<not> (\<exists>c\<in>set cs. crossed c) \<and> m \<notin> {Scoping, Leaving, Home}"
proof -
  have "length (filter raised cs) < length cs" using length_filter_less [of "cs ! i" cs raised] assms(2-4) by simp
  then show ?thesis using assms(1,2) unfolding barrier_ok_def by (auto split: if_splits)
qed

lemma meets_safe:
  assumes sound: "arc_sound sc" and inv: "contest_at amount workers sc d s" and i: "i < workers" and small: "amount < 2 ^ 64"
    and at: "contenders s ! i = Meets x"
  shows "safe_move (lowers amount workers sc s) (contender_step amount workers sc i (contenders s ! i) s)"
proof -
  note len = contest_atD(1) [OF inv]
  have ready: "in_order sc (Suc d) (key_range amount workers i) (arena s) (Meeting x)"
    using contest_atD(9) [OF inv i] at ready_less [of sc x _ d "arena s" _ "Suc d"] by simp
  have m: "chief_ok (chief_at s) ((contenders s)[i := Meeting x])"
    by (rule chief_ok_at [OF contest_atD(2) [OF inv]]) (use at i len in simp_all)
  have none: "\<not> (\<exists>c\<in>set (contenders s). crossed c) \<and> chief_at s \<notin> {Scoping, Leaving, Home}"
    using not_all_raised [OF contest_atD(3) [OF inv] len i] at by simp
  moreover have "\<not> (\<exists>c\<in>set ((contenders s)[i := Meeting x]). crossed c)"
    using none set_update_subset_insert [of "contenders s" i "Meeting x"] by auto
  ultimately have b: "barrier_ok workers ((contenders s)[i := Meeting x]) (chief_at s) (arrived s + 1)"
    using contest_atD(3) [OF inv] filter_at [of i "contenders s" raised "Meeting x"] at i len by (simp add: barrier_ok_def)
  have e: "now_at i (Meeting x) (s\<lparr>arrived := arrived s + 1\<rparr>) =
      s\<lparr>arena := arena s, chief_at := chief_at s, contenders := (contenders s)[i := Meeting x], arrived := arrived s + 1\<rparr>"
    by (simp add: now_at_def)
  have "lowers amount workers sc s (now_at i (Meeting x) (s\<lparr>arrived := arrived s + 1\<rparr>))"
    unfolding lowers_def e using contest_step [OF sound inv i small disjI1 [OF refl] ready _ _ m _ _ b] at by auto
  then show ?thesis by (simp add: at)
qed

lemma worker_safe:
  assumes sound: "arc_sound sc" and inv: "contest_at amount workers sc d s" and i: "i < workers" and small: "amount < 2 ^ 64"
  shows "safe_move (lowers amount workers sc s) (contender_step amount workers sc i (contenders s ! i) s)"
proof (cases "contenders s ! i")
  case (Meeting x)
  have ok: "ready sc x (set (key_range amount workers i)) d (arena s)" using contest_atD(9) [OF inv i] Meeting by simp
  have "lowers amount workers sc s (now_at i (Loops x (key_range amount workers i) 0) (s\<lparr>arena := arena s\<rparr>))" if "arrived s = workers + 1"
    by (rule worker_step [OF sound inv i small disjI1 [OF refl]])
      (use Meeting that ready_less [OF ok, of _ "Suc d"] in \<open>auto simp: books_def\<close>)
  then show ?thesis by (simp add: Meeting)
next
  case (Loops x keys n)
  show ?thesis
  proof (cases keys)
    case Nil
    have ok: "in_order sc d (key_range amount workers i) (arena s) (Finishing x n)" using contest_atD(9) [OF inv i] Loops Nil by simp
    have "lowers amount workers sc s (now_at i (Finishing x n) (s\<lparr>arena := arena s\<rparr>))"
      by (rule worker_step [OF sound inv i small disjI1 [OF refl] in_order_later [OF ok]]) (simp_all add: Loops Nil)
    then show ?thesis by (simp add: Loops Nil)
  next
    case (Cons key keys')
    with Loops show ?thesis using registers_safe [OF sound inv i small] by simp
  qed
qed (use meets_safe [OF assms] observes_safe [OF assms] completes_safe [OF assms] reads_safe [OF assms] drops_safe [OF assms] in simp_all)

subsection \<open>The main thread\<close>

lemma chief_moves:
  assumes inv: "contest_at amount workers sc d s" and "chief_ok m (contenders s)" and "barrier_ok workers (contenders s) m n"
    and "chief_at s \<noteq> Home" and "chief_ahead workers m < chief_ahead workers (chief_at s)"
  shows "lowers amount workers sc s (s\<lparr>chief_at := m, arrived := n\<rparr>)"
proof -
  let ?s = "s\<lparr>chief_at := m, arrived := n\<rparr>"
  have less: "race_left amount workers ?s < race_left amount workers s" using assms(5) by (simp add: race_left_def)
  have "d + race_left amount workers ?s < 2 ^ 64 - 1" using less contest_atD(6) [OF inv] by linarith
  then have "contest_at amount workers sc d ?s" unfolding contest_at_def using contest_atD [OF inv] assms(2-4) by (simp add: apart_def)
  with less show ?thesis unfolding lowers_def by blast
qed

lemma chief_moves_on:
  "contest_at amount workers sc d s \<Longrightarrow> chief_ok m (contenders s) \<Longrightarrow> barrier_ok workers (contenders s) m (arrived s) \<Longrightarrow>
    chief_at s \<noteq> Home \<Longrightarrow> chief_ahead workers m < chief_ahead workers (chief_at s) \<Longrightarrow>
    lowers amount workers sc s (s\<lparr>chief_at := m\<rparr>)"
  by (drule (4) chief_moves) simp

lemma spawns_safe:
  assumes sound: "arc_sound sc" and inv: "contest_at amount workers sc d s" and small: "amount < 2 ^ 64"
    and at: "chief_at s = Spawning k" and k: "k < workers"
  shows "safe_move (lowers amount workers sc s) (chief_step workers sc (chief_at s) s)"
proof -
  note len = contest_atD(1) [OF inv] and r = contest_atD(7) [OF inv]
  let ?x = "next_handle (arena s)" and ?all = "key_range amount workers k"
  let ?w = "(arena s)\<lparr>next_handle := ?x + 1, spaces := spaces (arena s) @ [(?x, ())]\<rparr>"
  have zero: "spaces (arena s) \<noteq> []" using contest_atD(5) [OF inv] at by auto
  then have ex: "exec sc (\<lambda>_. False) CloneSpace (arena s) = Inr (Ret (NewHandle ?x), ?w)" by (simp add: space_clone_eq)
  have un: "contenders s ! k = Unspawned" using contest_atD(2) [OF inv] at k len by simp
  have fresh: "\<forall>key\<in>set ?all. \<not> key_live key (arena s)" using contest_atD(9) [OF inv k] un by simp
  have "reach sc ?w" by (rule reach.step [OF r _ ex]) (use zero in simp)
  moreover have "map_of (spaces ?w) ?x \<noteq> None" by (simp add: map_add_def split: option.split)
  moreover have "\<forall>key\<in>set ?all. \<not> key_live key ?w" using fresh exec_makes_live [OF ex] by blast
  ultimately have ready: "in_order sc (Suc d) ?all ?w (Meets ?x)"
    using exec_draws [OF ex contest_atD(8) [OF inv]] by (simp add: ready_def)
  have effect: "?w = arena s \<or> (\<exists>op r. exec sc (\<lambda>_. False) op (arena s) = Inr (r, ?w) \<and> owns op (arena s)
        \<and> (\<forall>x. uses op x \<longrightarrow> x \<in> held_by (contenders s ! k)) \<and> (\<forall>key. op = MakeSubject key \<longrightarrow> key \<in> set ?all))"
    using ex zero by (intro disjI2 exI [of _ CloneSpace]) auto
  have m: "chief_ok (Spawning (k + 1)) ((contenders s)[k := Meets ?x])"
    using contest_atD(2) [OF inv] at k len by (auto simp: nth_list_update)
  have none: "\<not> (\<exists>c\<in>set (contenders s). crossed c)" using not_all_raised [OF contest_atD(3) [OF inv] len k] un by simp
  then have "\<not> (\<exists>c\<in>set ((contenders s)[k := Meets ?x]). crossed c)"
    using set_update_subset_insert [of "contenders s" k "Meets ?x"] by auto
  then have b: "barrier_ok workers ((contenders s)[k := Meets ?x]) (Spawning (k + 1)) (arrived s)"
    using contest_atD(3) [OF inv] filter_at [of k "contenders s" raised "Meets ?x"] at un k len by (simp add: barrier_ok_def)
  let ?s = "s\<lparr>arena := ?w, chief_at := Spawning (k + 1), contenders := (contenders s)[k := Meets ?x], arrived := arrived s\<rparr>"
  have "lowers amount workers sc s ?s"
    unfolding lowers_def using contest_step [OF sound inv k small effect ready _ _ m _ _ b] at un
    by (intro conjI exI [of _ "Suc d"]) simp_all
  then show ?thesis using at k ex by (simp add: call_crate_def now_at_def)
qed

lemma leaves_safe:
  assumes sound: "arc_sound sc" and inv: "contest_at amount workers sc d s" and at: "chief_at s = Leaving"
  shows "safe_move (lowers amount workers sc s) (chief_step workers sc (chief_at s) s)"
proof -
  note r = contest_atD(7) [OF inv]
  obtain u where u: "map_of (spaces (arena s)) 0 = Some u" using contest_atD(5) [OF inv] at by auto
  from space_drop_eq(1) [OF reach_wf [OF sound r] sound u]
  obtain w' where ex: "exec sc (\<lambda>_. False) (DropSpace 0) (arena s) = Inr (Ret Done, w')" by auto
  let ?s = "s\<lparr>arena := w', chief_at := Home\<rparr>"
  have less: "race_left amount workers ?s < race_left amount workers s" using at by (simp add: race_left_def)
  have over: "in_order sc (Suc d) (key_range amount workers i) w' (contenders s ! i)" if "i < workers" for i
  proof -
    have "is_finished (contenders s ! i)" using contest_atD(1,2) [OF inv] at that by (simp add: list_all_length)
    then show ?thesis using contest_atD(9) [OF inv that] by (cases "contenders s ! i") auto
  qed
  have "reach sc w'" by (rule reach.step [OF r _ ex]) (simp add: u)
  moreover have "Suc d + race_left amount workers ?s < 2 ^ 64 - 1" using less contest_atD(6) [OF inv] by linarith
  moreover have "barrier_ok workers (contenders s) Home (arrived s)" using contest_atD(3) [OF inv] at by (simp add: barrier_ok_def)
  ultimately have "contest_at amount workers sc (Suc d) ?s"
    unfolding contest_at_def using contest_atD(1,2,4) [OF inv] at over exec_draws [OF ex contest_atD(8) [OF inv]] by (simp add: apart_def)
  with less have "lowers amount workers sc s ?s" unfolding lowers_def by blast
  then show ?thesis by (simp add: at call_crate_def ex del: exec.simps)
qed

lemma chief_safe:
  assumes sound: "arc_sound sc" and inv: "contest_at amount workers sc d s" and small: "amount < 2 ^ 64"
  shows "safe_move (lowers amount workers sc s) (chief_step workers sc (chief_at s) s)"
proof (cases "chief_at s")
  case (Spawning k)
  show ?thesis
  proof (cases "k < workers")
    case True
    then show ?thesis by (rule spawns_safe [OF assms Spawning])
  next
    case False
    have "Unspawned \<notin> set (contenders s)"
      using contest_atD(1,2) [OF inv] Spawning False by (auto simp: in_set_conv_nth)
    moreover have "barrier_ok workers (contenders s) Raising (arrived s)" using contest_atD(3) [OF inv] Spawning by (auto simp: barrier_ok_def)
    ultimately have "lowers amount workers sc s (s\<lparr>chief_at := Raising\<rparr>)"
      using Spawning by (intro chief_moves_on [OF inv]) simp_all
    with False Spawning show ?thesis by simp
  qed
next
  case Raising
  have "\<not> (\<exists>c\<in>set (contenders s). crossed c)"
  proof
    assume "\<exists>c\<in>set (contenders s). crossed c"
    then have "length (filter raised (contenders s)) = workers + 1" using contest_atD(3) [OF inv] Raising by (simp add: barrier_ok_def)
    then show False using length_filter_le [of raised "contenders s"] contest_atD(1) [OF inv] by simp
  qed
  then have "barrier_ok workers (contenders s) Awaiting (arrived s + 1)"
    using contest_atD(3) [OF inv] Raising by (simp add: barrier_ok_def)
  then have "lowers amount workers sc s (s\<lparr>chief_at := Awaiting, arrived := arrived s + 1\<rparr>)"
    using contest_atD(2) [OF inv] Raising by (intro chief_moves [OF inv]) simp_all
  with Raising show ?thesis by simp
next
  case Awaiting
  have "lowers amount workers sc s (s\<lparr>chief_at := Scoping\<rparr>)" if "arrived s = workers + 1"
    using contest_atD(2,3) [OF inv] Awaiting that by (intro chief_moves_on [OF inv]) (simp_all add: barrier_ok_def)
  with Awaiting show ?thesis by simp
next
  case Scoping
  have "lowers amount workers sc s (s\<lparr>chief_at := Leaving\<rparr>)" if "list_all is_finished (contenders s)"
    using contest_atD(2,3) [OF inv] Scoping that by (intro chief_moves_on [OF inv]) (simp_all add: barrier_ok_def)
  with Scoping show ?thesis by simp
next
  case Leaving
  then show ?thesis by (rule leaves_safe [OF sound inv])
qed simp

subsection \<open>Every schedule\<close>

lemma contest_begins:
  assumes "0 < workers" and "workers < 2 ^ 32" and "amount < 2 ^ 32"
  shows "contest_at amount workers sc 1 (contest_new workers)"
proof -
  let ?p = "amount div workers"
  define q where "q = workers * ?p"
  have "q \<le> amount" by (simp add: q_def)
  moreover have "workers * (9 * ?p + 5) = 9 * q + 5 * workers" by (simp add: q_def algebra_simps)
  ultimately have "1 + (5 + workers + workers * (9 * ?p + 5)) < 2 ^ 64 - 1" using assms(2,3) by simp
  moreover have "race_left amount workers (contest_new workers) = 5 + workers + workers * (9 * ?p + 5)"
    by (simp add: race_left_def contest_new_def sum_list_replicate)
  moreover have "filter raised (replicate workers Unspawned) = []" by (simp add: filter_empty_conv)
  moreover have "arena (contest_new workers) = space_new" by (simp add: contest_new_def)
  moreover have "map_of (spaces (space_new :: (u64, u64) world)) 0 \<noteq> None" "drawn_at_most 1 (space_new :: (u64, u64) world)"
    "\<not> key_live k (space_new :: (u64, u64) world)" for k by (simp_all add: space_new_def drawn_at_most_def key_live_def)
  ultimately show ?thesis
    using reach.start [of sc] by (simp add: contest_at_def barrier_ok_def apart_def) (simp add: contest_new_def)
qed

lemma races_keep:
  assumes "arc_sound sc" and "amount < 2 ^ 64" and "contest_at amount workers sc d s" and "races amount workers sc s s'"
  shows "lowers amount workers sc s s'"
  using assms(4)
proof cases
  case chief
  with chief_safe [OF assms(1,3,2)] show ?thesis by simp
next
  case (contender i)
  with worker_safe [OF assms(1,3) contender(1) assms(2)] show ?thesis by simp
qed

lemma races_bound:
  assumes "arc_sound sc" and "amount < 2 ^ 64"
  shows "contest_at amount workers sc d s \<Longrightarrow> (races amount workers sc ^^ m) s s' \<Longrightarrow> m + race_left amount workers s' \<le> race_left amount workers s"
proof (induction m arbitrary: s d)
  case (Suc m)
  obtain s1 where s1: "races amount workers sc s s1" "(races amount workers sc ^^ m) s1 s'"
    using relpowp_Suc_D2 [OF Suc.prems(2)] by blast
  from races_keep [OF assms Suc.prems(1) s1(1)] obtain d' where "contest_at amount workers sc d' s1"
    "race_left amount workers s1 < race_left amount workers s" unfolding lowers_def by blast
  with Suc.IH [OF this(1) s1(2)] show ?case by simp
qed simp

lemma someone_races:
  assumes sound: "arc_sound sc" and inv: "contest_at amount workers sc d s" and small: "amount < 2 ^ 64" and "chief_at s \<noteq> Home"
  shows "\<exists>s'. races amount workers sc s s'"
proof -
  note len = contest_atD(1) [OF inv]
  have chief: ?thesis if "chief_step workers sc (chief_at s) s \<noteq> Stays"
    using chief_safe [OF sound inv small] that by (cases "chief_step workers sc (chief_at s) s") (auto intro: races.chief)
  have worker: ?thesis if "i < workers" "contender_step amount workers sc i (contenders s ! i) s \<noteq> Stays" for i
    using worker_safe [OF sound inv that(1) small] that
    by (cases "contender_step amount workers sc i (contenders s ! i) s") (auto intro: races.contender)
  have runs: "contender_step amount workers sc i c s \<noteq> Stays"
    if "racing c" "arrived s = workers + 1 \<or> c \<in> range Meets" for i c
    using that by (cases "(amount, workers, sc, i, c, s)" rule: contender_step.cases)
      (auto simp: call_crate_def split: sum.splits prod.splits call.splits reply.splits)
  show ?thesis
  proof (cases "chief_at s")
    case Awaiting
    show ?thesis
    proof (cases "list_all raised (contenders s)")
      case True
      then have "arrived s = workers + 1" using contest_atD(3) [OF inv] Awaiting len by (simp add: barrier_ok_def list_all_iff)
      then show ?thesis using Awaiting by (intro chief) simp
    next
      case False
      then obtain i where i: "i < workers" "\<not> raised (contenders s ! i)" using len by (auto simp: list_all_length)
      moreover have "contenders s ! i \<noteq> Unspawned" using contest_atD(2) [OF inv] Awaiting i(1) len by (metis chief_ok.simps(5) nth_mem)
      ultimately obtain x where "contenders s ! i = Meets x" by (cases "contenders s ! i") auto
      then show ?thesis using worker [OF i(1)] by simp
    qed
  next
    case Scoping
    have all: "arrived s = workers + 1" using contest_atD(3) [OF inv] Scoping by (simp add: barrier_ok_def)
    show ?thesis
    proof (cases "list_all is_finished (contenders s)")
      case True
      then show ?thesis using Scoping by (intro chief) simp
    next
      case False
      then obtain i where i: "i < workers" "\<not> is_finished (contenders s ! i)" using len by (auto simp: list_all_length)
      moreover have "contenders s ! i \<noteq> Unspawned" using contest_atD(2) [OF inv] Scoping i(1) len by (metis chief_ok.simps(6) nth_mem)
      ultimately have "racing (contenders s ! i)" by (cases "contenders s ! i") auto
      then show ?thesis using worker [OF i(1)] runs all by blast
    qed
  qed (use assms(4) in \<open>auto intro!: chief simp: call_crate_def split: sum.splits prod.splits call.splits reply.splits if_splits\<close>)
qed

lemma finished_checked:
  assumes "contest_at amount workers sc d s" and "chief_at s = Home"
  shows "contenders s = replicate workers (Finished (of_nat (amount div workers)))"
proof (rule nth_equalityI)
  show "length (contenders s) = length (replicate workers (Finished (of_nat (amount div workers))))" using contest_atD(1) [OF assms(1)] by simp
  fix i assume "i < length (contenders s)"
  then have i: "i < workers" and fin: "is_finished (contenders s ! i)"
    using contest_atD(1,2) [OF assms(1)] assms(2) by (simp_all add: list_all_length)
  from fin obtain n where n: "contenders s ! i = Finished n" by (cases "contenders s ! i") auto
  with contest_atD(9) [OF assms(1) i] have "n = of_nat (length (key_range amount workers i))" by (auto simp: books_def)
  then show "contenders s ! i = replicate workers (Finished (of_nat (amount div workers))) ! i" using i n by simp
qed

lemma races_end:
  assumes "arc_sound sc" and "amount < 2 ^ 64"
  shows "contest_at amount workers sc d s \<Longrightarrow> \<exists>s'. (races amount workers sc)\<^sup>*\<^sup>* s s' \<and> chief_at s' = Home
    \<and> contenders s' = replicate workers (Finished (of_nat (amount div workers)))"
proof (induction "race_left amount workers s" arbitrary: s d rule: less_induct)
  case less
  show ?case
  proof (cases "chief_at s = Home")
    case True
    with finished_checked [OF less.prems] show ?thesis by blast
  next
    case False
    from someone_races [OF assms(1) less.prems assms(2) False] obtain s1 where s1: "races amount workers sc s s1" by blast
    from races_keep [OF assms less.prems s1] obtain d1 where "race_left amount workers s1 < race_left amount workers s"
      "contest_at amount workers sc d1 s1" unfolding lowers_def by blast
    from less.hyps [OF this] s1 show ?thesis by (meson converse_rtranclp_into_rtranclp)
  qed
qed

lemma races_reach:
  assumes "arc_sound sc" and "amount < 2 ^ 64"
  shows "(races amount workers sc)\<^sup>*\<^sup>* s0 s \<Longrightarrow> contest_at amount workers sc d s0 \<Longrightarrow> \<exists>d. contest_at amount workers sc d s"
proof (induction arbitrary: d rule: rtranclp_induct)
  case (step s s')
  with races_keep [OF assms] show ?case unfolding lowers_def by blast
qed blast

text \<open>
  C38: The contention benchmark, its main thread and all its workers interleaved in any way, fails no
  \<open>expect\<close>, and every schedule ends: in every state it can reach no thread crashes, at most
  \<open>race_left\<close> more steps are possible, and they can be made until the main thread has left; then
  every worker has read an outcome for each of its keys.  Nobody is left at the barrier.
\<close>

theorem contention_completes:
  assumes "arc_sound sc" and "0 < workers" and "workers < 2 ^ 32" and "amount < 2 ^ 32"
    and "(races amount workers sc)\<^sup>*\<^sup>* (contest_new workers) s"
  shows "chief_step workers sc (chief_at s) s \<noteq> Crashes
     \<and> (\<forall>i<workers. contender_step amount workers sc i (contenders s ! i) s \<noteq> Crashes)
     \<and> (\<forall>m s'. (races amount workers sc ^^ m) s s' \<longrightarrow> m \<le> race_left amount workers s)
     \<and> (\<exists>s'. (races amount workers sc)\<^sup>*\<^sup>* s s' \<and> chief_at s' = Home
          \<and> contenders s' = replicate workers (Finished (of_nat (amount div workers))))"
proof -
  have small: "amount < 2 ^ 64" using assms(4) by simp
  from races_reach [OF assms(1) small assms(5) contest_begins [OF assms(2-4)]] obtain d where
    inv: "contest_at amount workers sc d s" by blast
  have "chief_step workers sc (chief_at s) s \<noteq> Crashes" using chief_safe [OF assms(1) inv small] by auto
  moreover have "contender_step amount workers sc i (contenders s ! i) s \<noteq> Crashes" if "i < workers" for i
    using worker_safe [OF assms(1) inv that small] by auto
  moreover have "m \<le> race_left amount workers s" if "(races amount workers sc ^^ m) s s'" for m s'
    using races_bound [OF assms(1) small inv that] by simp
  ultimately show ?thesis using races_end [OF assms(1) small inv] by blast
qed

text \<open>
  In the witness two workers race on two keys: both have crossed the barrier, the second observes its
  subject while the first has not registered its own.  The program itself races on \<open>N\<close> keys.
\<close>

fun scheduled :: "nat \<Rightarrow> nat \<Rightarrow> (u64, u64) arc_count \<Rightarrow> nat option list \<Rightarrow> contest \<Rightarrow> contest option" where
  "scheduled amount workers sc [] s = Some s"
| "scheduled amount workers sc (None # is) s =
     (case chief_step workers sc (chief_at s) s of Moves s' \<Rightarrow> scheduled amount workers sc is s' | _ \<Rightarrow> None)"
| "scheduled amount workers sc (Some i # is) s = (if i < workers then
     (case contender_step amount workers sc i (contenders s ! i) s of Moves s' \<Rightarrow> scheduled amount workers sc is s' | _ \<Rightarrow> None) else None)"

lemma scheduled_races: "scheduled amount workers sc is s = Some s' \<Longrightarrow> (races amount workers sc)\<^sup>*\<^sup>* s s'"
proof (induction amount workers sc "is" s rule: scheduled.induct)
  case (2 amount workers sc "is" s)
  then show ?case by (auto split: move.splits intro: converse_rtranclp_into_rtranclp races.chief)
next
  case (3 amount workers sc i "is" s)
  then show ?case by (auto split: if_splits move.splits intro: converse_rtranclp_into_rtranclp races.contender)
qed simp

definition overtaking :: "nat option list" where
  "overtaking = [None, None, None, Some 1, None, Some 0, Some 1, None, Some 1, Some 1, Some 0]"

theorem contention_completes_witness:
  "\<exists>s. scheduled 2 2 handle_count overtaking (contest_new 2) = Some s
     \<and> contenders s = [Loops 1 [0] 0, Completing 2 1 [] 0 3 4]
     \<and> (\<exists>s'. (races 2 2 handle_count)\<^sup>*\<^sup>* s s' \<and> contenders s' = [Finished 1, Finished 1])
     \<and> (\<exists>s'. (races N 16 handle_count)\<^sup>*\<^sup>* (contest_new 16) s' \<and> contenders s' = replicate 16 (Finished 62500))"
proof -
  have "map_option contenders (scheduled 2 2 handle_count overtaking (contest_new 2)) = Some [Loops 1 [0] 0, Completing 2 1 [] 0 3 4]"
    by code_simp
  then obtain s where s: "scheduled 2 2 handle_count overtaking (contest_new 2) = Some s"
    "contenders s = [Loops 1 [0] 0, Completing 2 1 [] 0 3 4]" by auto
  have "0 < (2::nat)" "(2::nat) < 2 ^ 32" "0 < (16::nat)" "(16::nat) < 2 ^ 32" "N < 2 ^ 32" by (simp_all add: N_def)
  note n = this
  from contention_completes [OF handle_count_sound n(1,2,2) scheduled_races [OF s(1)]]
  have "\<exists>s'. (races 2 2 handle_count)\<^sup>*\<^sup>* s s' \<and> contenders s' = [Finished 1, Finished 1]" by (auto simp: numeral_eq_Suc)
  moreover from contention_completes [OF handle_count_sound n(3,4,5) rtranclp.rtrancl_refl]
  have "\<exists>s'. (races N 16 handle_count)\<^sup>*\<^sup>* (contest_new 16) s' \<and> contenders s' = replicate 16 (Finished 62500)" by (auto simp: N_def)
  ultimately show ?thesis using s by blast
qed

end
