(* ===== verification/Allocator.thy ===== *)
theory Allocator
  imports Workloads
begin

section \<open>The counting allocator of the benchmark\<close>

text \<open>
  \<open>CountingAllocator\<close> forwards every request to the system allocator and keeps four counters, all
  of 64 bits: wrapping additions, and \<open>expect\<close> where a size must fit \<open>i64\<close>.  What the system
  allocator answers is a parameter of each event; \<open>None\<close> is the null pointer.
\<close>

record snapshot =
  total_bytes :: u64
  total_blocks :: u64
  current_bytes :: "64 word"      \<comment> \<open>an \<open>i64\<close>, read with \<open>sint\<close>\<close>
  current_blocks :: u64

definition snapshot_new :: snapshot where
  "snapshot_new = \<lparr>total_bytes = 0, total_blocks = 0, current_bytes = 0, current_blocks = 0\<rparr>"

text \<open>\<open>i64::try_from(sz)\<close>.\<close>

definition as_i64 :: "u64 \<Rightarrow> 64 word option" where
  "as_i64 sz = (if unat sz < 2 ^ 63 then Some sz else None)"

definition counted_alloc :: "nat option \<Rightarrow> u64 \<Rightarrow> snapshot \<Rightarrow> snapshot option" where
  "counted_alloc ptr sz c = (case ptr of
     None \<Rightarrow> Some c
   | Some _ \<Rightarrow> map_option (\<lambda>i. c\<lparr>total_bytes := total_bytes c + sz, total_blocks := total_blocks c + 1,
       current_bytes := current_bytes c + i, current_blocks := current_blocks c + 1\<rparr>) (as_i64 sz))"

definition counted_dealloc :: "u64 \<Rightarrow> snapshot \<Rightarrow> snapshot option" where
  "counted_dealloc sz c = map_option (\<lambda>i. c\<lparr>current_bytes := current_bytes c - i,
     current_blocks := current_blocks c - 1\<rparr>) (as_i64 sz)"

definition counted_realloc :: "nat option \<Rightarrow> u64 \<Rightarrow> u64 \<Rightarrow> snapshot \<Rightarrow> snapshot option" where
  "counted_realloc new_ptr old_size new_size c = (case new_ptr of
     None \<Rightarrow> Some c
   | Some _ \<Rightarrow> (case (as_i64 new_size, as_i64 old_size) of
       (Some new, Some old) \<Rightarrow> Some (c\<lparr>total_bytes := total_bytes c + new_size, total_blocks := total_blocks c + 1,
          current_bytes := current_bytes c + (new - old)\<rparr>)
     | _ \<Rightarrow> None))"

definition emit_ratio :: "u64 \<Rightarrow> u64 \<Rightarrow> u64 option" where
  "emit_ratio amount n = (if n = 0 then None else Some (amount div n))"

subsection \<open>A run of the allocator\<close>

text \<open>
  The blocks that are live, with the size of their layout.  The contract of \<open>GlobalAlloc\<close>: a new
  block is at an address that is not live, the size of a layout is at most \<open>isize::MAX\<close>, and a block
  is freed or resized with the layout it was allocated with.
\<close>

datatype heap_event =
    Alloc "nat option" u64
  | Dealloc nat u64
  | Realloc "nat option" nat u64 u64

type_synonym blocks = "(nat \<times> u64) list"

definition layout_ok :: "u64 \<Rightarrow> bool" where
  "layout_ok sz \<longleftrightarrow> unat sz < 2 ^ 63"

fun allowed :: "heap_event \<Rightarrow> blocks \<Rightarrow> bool" where
  "allowed (Alloc ptr sz) bs = (layout_ok sz \<and> (case ptr of None \<Rightarrow> True | Some p \<Rightarrow> p \<notin> fst ` set bs))"
| "allowed (Dealloc p sz) bs = (map_of bs p = Some sz)"
| "allowed (Realloc ptr p old new) bs = (map_of bs p = Some old \<and> layout_ok new \<and>
     (case ptr of None \<Rightarrow> True | Some q \<Rightarrow> q \<notin> fst ` set (AList.delete p bs)))"

fun after_event :: "heap_event \<Rightarrow> blocks \<Rightarrow> blocks" where
  "after_event (Alloc ptr sz) bs = (case ptr of None \<Rightarrow> bs | Some p \<Rightarrow> (p, sz) # bs)"
| "after_event (Dealloc p sz) bs = AList.delete p bs"
| "after_event (Realloc ptr p old new) bs = (case ptr of None \<Rightarrow> bs | Some q \<Rightarrow> (q, new) # AList.delete p bs)"

fun count_event :: "heap_event \<Rightarrow> snapshot \<Rightarrow> snapshot option" where
  "count_event (Alloc ptr sz) c = counted_alloc ptr sz c"
| "count_event (Dealloc p sz) c = counted_dealloc sz c"
| "count_event (Realloc ptr p old new) c = counted_realloc ptr old new c"

text \<open>The bytes and blocks that an event hands out.\<close>

fun handed_out :: "heap_event \<Rightarrow> nat \<times> nat" where
  "handed_out (Alloc (Some p) sz) = (unat sz, 1)"
| "handed_out (Realloc (Some q) p old new) = (unat new, 1)"
| "handed_out _ = (0, 0)"

inductive heap_run :: "heap_event list \<Rightarrow> blocks \<Rightarrow> blocks \<Rightarrow> bool" where
  heap_done: "heap_run [] bs bs"
| heap_step: "allowed e bs \<Longrightarrow> heap_run es (after_event e bs) bs' \<Longrightarrow> heap_run (e # es) bs bs'"

inductive_simps heap_run_simps: "heap_run [] bs bs'" "heap_run (e # es) bs bs'"

fun count_events :: "heap_event list \<Rightarrow> snapshot \<Rightarrow> snapshot option" where
  "count_events [] c = Some c"
| "count_events (e # es) c = (case count_event e c of None \<Rightarrow> None | Some c' \<Rightarrow> count_events es c')"

definition live_bytes :: "blocks \<Rightarrow> nat" where
  "live_bytes bs = sum_list (map (unat \<circ> snd) bs)"

definition blocks_ok :: "blocks \<Rightarrow> bool" where
  "blocks_ok bs \<longleftrightarrow> distinct (map fst bs) \<and> (\<forall>(p, sz)\<in>set bs. layout_ok sz)"

definition counts :: "blocks \<Rightarrow> snapshot \<Rightarrow> bool" where
  "counts bs c \<longleftrightarrow> current_bytes c = of_nat (live_bytes bs) \<and> current_blocks c = of_nat (length bs)"

lemma live_bytes_simps [simp]: "live_bytes [] = 0" "live_bytes ((p, sz) # bs) = unat sz + live_bytes bs"
  by (simp_all add: live_bytes_def)

lemma sint_live_bytes:
  assumes "live_bytes bs < 2 ^ 63"
  shows "sint (of_nat (live_bytes bs) :: 64 word) = int (live_bytes bs)"
proof -
  have "int (live_bytes bs) < 2 ^ 63" using assms by (metis of_nat_less_iff of_nat_numeral of_nat_power)
  then have "signed_take_bit 63 (int (live_bytes bs)) = int (live_bytes bs)"
    by (intro signed_take_bit_int_eq_self) simp_all
  then show ?thesis by (simp add: signed_of_nat)
qed

lemma blocks_delete:
  assumes "blocks_ok bs" and "map_of bs p = Some sz"
  shows "blocks_ok (AList.delete p bs)" and "live_bytes bs = unat sz + live_bytes (AList.delete p bs)"
    and "length bs = Suc (length (AList.delete p bs))" and "layout_ok sz"
proof -
  show "blocks_ok (AList.delete p bs)" using assms(1) by (auto simp: blocks_ok_def distinct_map_delete dest: in_deleteD)
  show "layout_ok sz" using assms map_of_SomeD [OF assms(2)] by (auto simp: blocks_ok_def)
  have d: "distinct (map fst bs)" using assms(1) by (simp add: blocks_ok_def)
  note split = alist_split [OF d assms(2)]
  have m: "mset bs = add_mset (p, sz) (mset (AList.delete p bs))" using split by simp
  from arg_cong [OF m, of size] show "length bs = Suc (length (AList.delete p bs))" by simp
  have "live_bytes xs = sum_mset (image_mset (unat \<circ> snd) (mset xs))" for xs :: blocks
    by (simp add: live_bytes_def sum_mset_sum_list flip: mset_map)
  with m show "live_bytes bs = unat sz + live_bytes (AList.delete p bs)" by simp
qed

subsection \<open>The counters count\<close>

lemma as_i64_ok: "layout_ok sz \<Longrightarrow> as_i64 sz = Some sz"
  by (simp add: layout_ok_def as_i64_def)

lemma count_event_ok:
  assumes ok: "blocks_ok bs" and c: "counts bs c" and e: "allowed e bs"
  shows "\<exists>c'. count_event e c = Some c' \<and> blocks_ok (after_event e bs) \<and> counts (after_event e bs) c' \<and>
    total_bytes c' = total_bytes c + of_nat (fst (handed_out e)) \<and>
    total_blocks c' = total_blocks c + of_nat (snd (handed_out e))"
proof (cases e)
  case (Alloc ptr sz)
  then have "layout_ok sz" using e by simp
  note i = as_i64_ok [OF this]
  show ?thesis
  proof (cases ptr)
    case None
    with Alloc ok c show ?thesis by (simp add: counted_alloc_def)
  next
    case (Some p)
    with Alloc e ok c i show ?thesis by (simp add: counted_alloc_def counts_def blocks_ok_def)
  qed
next
  case (Dealloc p sz)
  then have "map_of bs p = Some sz" using e by simp
  note d = blocks_delete [OF ok this]
  from c d(2,3) have "counts (AList.delete p bs) (c\<lparr>current_bytes := current_bytes c - sz, current_blocks := current_blocks c - 1\<rparr>)"
    by (simp add: counts_def)
  with Dealloc d(1) as_i64_ok [OF d(4)] show ?thesis by (simp add: counted_dealloc_def)
next
  case (Realloc ptr p old new)
  then have m: "map_of bs p = Some old" "layout_ok new" using e by simp_all
  note d = blocks_delete [OF ok m(1)]
  show ?thesis
  proof (cases ptr)
    case None
    with Realloc ok c show ?thesis by (simp add: counted_realloc_def)
  next
    case (Some q)
    with Realloc e have q: "q \<notin> fst ` set (AList.delete p bs)" by simp
    have "blocks_ok ((q, new) # AList.delete p bs)" using d(1) q m(2) by (simp add: blocks_ok_def)
    with Realloc Some c d(2,3) as_i64_ok [OF d(4)] as_i64_ok [OF m(2)] show ?thesis
      by (simp add: counted_realloc_def counts_def)
  qed
qed

lemma heap_run_counts:
  assumes "heap_run es bs bs'" and "blocks_ok bs" and "counts bs c"
  shows "\<exists>c'. count_events es c = Some c' \<and> blocks_ok bs' \<and> counts bs' c' \<and>
    total_bytes c' = total_bytes c + of_nat (sum_list (map (fst \<circ> handed_out) es)) \<and>
    total_blocks c' = total_blocks c + of_nat (sum_list (map (snd \<circ> handed_out) es))"
  using assms
proof (induction arbitrary: c rule: heap_run.induct)
  case (heap_done bs)
  then show ?case by simp
next
  case (heap_step e bs es bs')
  from count_event_ok [OF heap_step.prems heap_step.hyps(1)] obtain c1 where
    c1: "count_event e c = Some c1" "blocks_ok (after_event e bs)" "counts (after_event e bs) c1"
    "total_bytes c1 = total_bytes c + of_nat (fst (handed_out e))"
    "total_blocks c1 = total_blocks c + of_nat (snd (handed_out e))" by blast
  from heap_step.IH [OF c1(2,3)] c1(1,4,5) show ?case by (auto simp: add.assoc)
qed

text \<open>
  C37: the counting allocator counts.  In every run that keeps the contract of \<open>GlobalAlloc\<close> no
  \<open>expect\<close> fails; the live counters are the number and the total size of the live blocks, null
  answers change nothing, the monotonic counters are the bytes and blocks handed out (modulo 2^64);
  and while the live bytes fit an \<open>i64\<close>, the value read is their exact number.
\<close>

theorem allocator_counters_exact:
  assumes "heap_run es [] bs"
  shows "\<exists>c. count_events es snapshot_new = Some c \<and> current_blocks c = of_nat (length bs) \<and>
    total_bytes c = of_nat (sum_list (map (fst \<circ> handed_out) es)) \<and>
    total_blocks c = of_nat (sum_list (map (snd \<circ> handed_out) es)) \<and>
    (live_bytes bs < 2 ^ 63 \<longrightarrow> sint (current_bytes c) = int (live_bytes bs))"
proof -
  have start: "blocks_ok []" "counts [] snapshot_new"
    by (simp_all add: blocks_ok_def counts_def snapshot_new_def)
  from heap_run_counts [OF assms start] obtain c where c: "count_events es snapshot_new = Some c" "counts bs c"
    "total_bytes c = of_nat (sum_list (map (fst \<circ> handed_out) es))"
    "total_blocks c = of_nat (sum_list (map (snd \<circ> handed_out) es))"
    by (auto simp: snapshot_new_def)
  with sint_live_bytes [of bs] show ?thesis by (auto simp: counts_def)
qed

theorem allocator_counters_exact_witness:
  "\<exists>c. count_events [Alloc (Some 1) 16, Alloc None 8, Realloc (Some 2) 1 16 40, Alloc (Some 1) 8, Dealloc 2 40] snapshot_new = Some c
     \<and> current_blocks c = 1 \<and> sint (current_bytes c) = 8"
proof -
  have "heap_run [Alloc (Some 1) 16, Alloc None 8, Realloc (Some 2) 1 16 40, Alloc (Some 1) 8, Dealloc 2 40] [] [(1, 8)]"
    by (simp add: heap_run_simps layout_ok_def)
  from allocator_counters_exact [OF this] show ?thesis by auto
qed

text \<open>
  The residue of \<open>allocation_and_retention\<close>: \<open>(after_drop.current_bytes - start.current_bytes).max(0)\<close>
  on \<open>i64\<close>, where a difference out of range panics.
\<close>

definition residue :: "snapshot \<Rightarrow> snapshot \<Rightarrow> int option" where
  "residue start after_drop = (let d = sint (current_bytes after_drop) - sint (current_bytes start) in
     if - (2 ^ 63) \<le> d \<and> d < 2 ^ 63 then Some (max 0 d) else None)"

text \<open>
  The residue the benchmark reports is what its run has left allocated: when the blocks at the
  end are those at the start and more, it is the total size of the others, and zero when there are
  none.
\<close>

lemma residue_is_the_leak:
  assumes "heap_run es [] bs" and "heap_run later bs bs'" and "mset bs' = mset bs + mset leaked" and "live_bytes bs' < 2 ^ 63"
  shows "\<exists>start after_drop. count_events es snapshot_new = Some start \<and> count_events later start = Some after_drop \<and>
    residue start after_drop = Some (int (live_bytes leaked))"
proof -
  have start: "blocks_ok []" "counts [] snapshot_new"
    by (simp_all add: blocks_ok_def counts_def snapshot_new_def)
  from heap_run_counts [OF assms(1) start] obtain c where c: "count_events es snapshot_new = Some c" "blocks_ok bs" "counts bs c" by blast
  from heap_run_counts [OF assms(2) c(2,3)] obtain d where d: "count_events later c = Some d" "counts bs' d" by blast
  have bytes: "live_bytes xs = sum_mset (image_mset (unat \<circ> snd) (mset xs))" for xs :: blocks
    by (simp add: live_bytes_def sum_mset_sum_list flip: mset_map)
  have sum: "live_bytes bs' = live_bytes bs + live_bytes leaked" by (simp add: bytes assms(3))
  then have "live_bytes bs < 2 ^ 63" using assms(4) by simp
  then have "sint (current_bytes c) = int (live_bytes bs)" "sint (current_bytes d) = int (live_bytes bs')"
    using c(3) d(2) sint_live_bytes assms(4) by (simp_all add: counts_def)
  moreover have "int (live_bytes leaked) < 2 ^ 63"
    using sum assms(4) of_nat_less_iff [of "live_bytes leaked" "2 ^ 63", where 'a = int] by simp
  ultimately have "residue c d = Some (int (live_bytes leaked))" by (simp add: residue_def sum)
  with c(1) d(1) show ?thesis by blast
qed

lemma residue_is_the_leak_witness:
  "\<exists>start after_drop. count_events [Alloc (Some 1) 16] snapshot_new = Some start \<and>
     count_events [Alloc (Some 2) 8, Alloc (Some 3) 24, Dealloc 2 8] start = Some after_drop \<and> residue start after_drop = Some 24"
proof -
  have "heap_run [Alloc (Some 1) 16] [] [(1, 16)]" "heap_run [Alloc (Some 2) 8, Alloc (Some 3) 24, Dealloc 2 8] [(1, 16)] [(3, 24), (1, 16)]"
    by (simp_all add: heap_run_simps layout_ok_def)
  from residue_is_the_leak [OF this, of "[(3, 24)]"] show ?thesis by simp
qed

end
