(* ===== verification/Benchmark.thy ===== *)
theory Benchmark
  imports Contest Allocator "HOL-Library.Monad_Syntax"
begin

section \<open>The benchmark program\<close>

text \<open>
  \<open>main\<close> of \<open>observe-perf/src/main.rs\<close>: the workloads one after the other, each on a space of its own,
  and the metrics it prints.  A rate is kept as the number of operations and the measured time (the
  program prints their quotient as a floating-point number); what the clock and the allocator
  answer are parameters.  The program as a whole is the step relation \<open>bench_step\<close>, which runs the threads
  of \<open>wait_latency\<close> and \<open>contention\<close> under any schedule, with any number of spurious wake-ups.
\<close>

subsection \<open>Metrics\<close>

datatype report =
    Rate (report_name: string) nat duration
  | Metric (report_name: string) int

fun decimal :: "nat \<Rightarrow> string" where
  "decimal n = (if n < 10 then [char_of (48 + n)] else decimal (n div 10) @ [char_of (48 + n mod 10)])"

declare decimal.simps [simp del]

definition emit_rate :: "string \<Rightarrow> nat \<Rightarrow> duration \<Rightarrow> report list" where
  "emit_rate name operations elapsed = [Rate name operations elapsed]"

definition print_ratio :: "string \<Rightarrow> u64 \<Rightarrow> nat \<Rightarrow> report list option" where
  "print_ratio name amount n = map_option (\<lambda>per. [Metric name (int (unat per))]) (emit_ratio amount (of_nat n))"

definition print_percentiles :: "string \<Rightarrow> duration list \<Rightarrow> report list option" where
  "print_percentiles name ls = map_option (\<lambda>(p50, p99). [Metric (name @ ''_p50_ns'') (int p50), Metric (name @ ''_p99_ns'') (int p99)])
     (percentiles ls)"

definition FANOUT_COUNTS :: "nat list" where "FANOUT_COUNTS = [1, 2, 4, 8]"

definition thread_counts :: "nat list" where "thread_counts = [1, 2, 4, 8, 16]"

subsection \<open>The parts of the program\<close>

text \<open>What the clock measures.\<close>

record timing =
  throughput_time :: "string \<Rightarrow> duration"
  fanout_time :: "nat \<Rightarrow> duration"
  hot_path :: "u64 \<Rightarrow> duration"
  wait_path :: "nat \<Rightarrow> duration"
  contention_time :: "nat \<Rightarrow> duration"

definition throughput :: "timing \<Rightarrow> string \<Rightarrow> u64 option list workload \<Rightarrow> report list option" where
  "throughput env name m = map_option (\<lambda>_. emit_rate name N (throughput_time env name)) (on_crate m space_new)"

definition fanout_report :: "timing \<Rightarrow> nat \<Rightarrow> report list option" where
  "fanout_report env n = map_option (\<lambda>_. emit_rate (''fanout_'' @ decimal n @ ''_observations_per_second'') (M_FANOUT * n) (fanout_time env n))
     (on_crate (fanout n) space_new)"

definition latency_report :: "timing \<Rightarrow> report list option" where
  "latency_report env = (case on_crate (latency (hot_path env)) space_new of
     None \<Rightarrow> None
   | Some ((p50, p99), w) \<Rightarrow> Some [Metric ''hot_path_p50_ns'' (int p50), Metric ''hot_path_p99_ns'' (int p99)])"

definition wait_latency_report :: "rounds \<Rightarrow> report list option" where
  "wait_latency_report s = print_percentiles ''wait_roundtrip'' (latencies s)"

definition contention_report :: "timing \<Rightarrow> nat \<Rightarrow> report list" where
  "contention_report env n = emit_rate (''contention_'' @ decimal n @ ''t_ops_per_second'') N (contention_time env n)"

text \<open>
  \<open>allocation_and_retention\<close>: what the allocator is asked before it and in its phases, between the
  snapshots.
\<close>

record phases =
  before_start :: "heap_event list"
  in_setup :: "heap_event list"
  in_operations :: "heap_event list"
  in_between :: "heap_event list"
  in_pairs :: "heap_event list"
  in_teardown :: "heap_event list"

text \<open>\<open>a - b\<close> on \<open>u64\<close>, and \<open>u64::try_from\<close> of a difference of \<open>i64\<close>.\<close>

definition sub_u64 :: "u64 \<Rightarrow> u64 \<Rightarrow> u64 option" where
  "sub_u64 a b = (if b \<le> a then Some (a - b) else None)"

definition grown :: "64 word \<Rightarrow> 64 word \<Rightarrow> u64 option" where
  "grown a b = (let d = sint a - sint b in if 0 \<le> d \<and> d < 2 ^ 63 then Some (word_of_int d) else None)"

definition allocation_and_retention :: "phases \<Rightarrow> report list option" where
  "allocation_and_retention ph = do {
     start \<leftarrow> count_events (before_start ph) snapshot_new;
     before \<leftarrow> count_events (in_setup ph) start;
     _ \<leftarrow> on_crate allocation_phase space_new;
     after \<leftarrow> count_events (in_operations ph) before;
     bytes \<leftarrow> sub_u64 (total_bytes after) (total_bytes before);
     bytes_per_op \<leftarrow> print_ratio ''alloc_bytes_per_op'' bytes N_ALLOC;
     blocks \<leftarrow> sub_u64 (total_blocks after) (total_blocks before);
     blocks_per_op \<leftarrow> print_ratio ''alloc_blocks_per_op'' blocks N_ALLOC;
     baseline \<leftarrow> count_events (in_between ph) after;
     _ \<leftarrow> on_crate retention_phase space_new;
     live \<leftarrow> count_events (in_pairs ph) baseline;
     retained \<leftarrow> grown (current_bytes live) (current_bytes baseline);
     retained_bytes \<leftarrow> print_ratio ''retained_bytes_per_subject_observer'' retained M_RETAINED;
     kept \<leftarrow> sub_u64 (current_blocks live) (current_blocks baseline);
     retained_blocks \<leftarrow> print_ratio ''retained_blocks_per_subject_observer'' kept M_RETAINED;
     after_drop \<leftarrow> count_events (in_teardown ph) live;
     leak \<leftarrow> residue start after_drop;
     Some (bytes_per_op @ blocks_per_op @ retained_bytes @ retained_blocks @ [Metric ''retained_after_drop_bytes'' leak]) }"

subsection \<open>The main function\<close>

fun in_sequence :: "report list option list \<Rightarrow> report list option" where
  "in_sequence [] = Some []"
| "in_sequence (p # ps) = (case p of None \<Rightarrow> None | Some rs \<Rightarrow> map_option ((@) rs) (in_sequence ps))"

definition single_threaded :: "timing \<Rightarrow> report list option" where
  "single_threaded env = in_sequence
    ([throughput env ''observations_per_second'' seq_observe_first,
      throughput env ''seq_observe_first_ops_per_second'' seq_observe_first,
      throughput env ''seq_complete_first_ops_per_second'' seq_complete_first,
      throughput env ''seq_retire_recreate_ops_per_second'' seq_retire_recreate,
      throughput env ''seq_pool_reuse_ops_per_second'' seq_pool_reuse,
      throughput env ''seq_cancel_observer_ops_per_second'' seq_cancel_observer]
     @ map (fanout_report env) FANOUT_COUNTS @ [latency_report env])"

text \<open>
  Where \<open>main\<close> is: before the single-threaded workloads, in \<open>wait_latency\<close>, in the contest of \<open>n\<close> workers
  with those of \<open>ns\<close> to come, before the accounting, or at its end; and what it has printed.
\<close>

datatype stage =
    Starting
  | Latency rounds
  | Contending nat "nat list" contest
  | Accounting
  | Ended

record bench =
  stage_at :: stage
  printed :: "report list"

definition bench_new :: bench where
  "bench_new = \<lparr>stage_at = Starting, printed = []\<rparr>"

fun next_contest :: "nat list \<Rightarrow> stage" where
  "next_contest [] = Accounting"
| "next_contest (n # ns) = Contending n ns (contest_new n)"

definition prints :: "report list \<Rightarrow> stage \<Rightarrow> bench \<Rightarrow> bench" where
  "prints rs m b = b\<lparr>stage_at := m, printed := printed b @ rs\<rparr>"

inductive bench_step :: "timing \<Rightarrow> phases \<Rightarrow> (u64, u64) arc_count \<Rightarrow> bench \<Rightarrow> bench \<Rightarrow> bool" for env ph sc where
  single: "stage_at b = Starting \<Longrightarrow> single_threaded env = Some rs \<Longrightarrow> bench_step env ph sc b (prints rs (Latency rounds_new) b)"
| waiting: "stage_at b = Latency s \<Longrightarrow> moves ROUNDS (wait_path env) sc s s' \<Longrightarrow> bench_step env ph sc b (prints [] (Latency s') b)"
| waited: "stage_at b = Latency s \<Longrightarrow> main_at s = Left \<Longrightarrow> wait_latency_report s = Some rs \<Longrightarrow>
    bench_step env ph sc b (prints rs (next_contest thread_counts) b)"
| contending: "stage_at b = Contending n ns c \<Longrightarrow> races N n sc c c' \<Longrightarrow> bench_step env ph sc b (prints [] (Contending n ns c') b)"
| contended: "stage_at b = Contending n ns c \<Longrightarrow> chief_at c = Home \<Longrightarrow>
    bench_step env ph sc b (prints (contention_report env n) (next_contest ns) b)"
| accounted: "stage_at b = Accounting \<Longrightarrow> allocation_and_retention ph = Some rs \<Longrightarrow> bench_step env ph sc b (prints rs Ended b)"

inductive bench_reach :: "timing \<Rightarrow> phases \<Rightarrow> (u64, u64) arc_count \<Rightarrow> bench \<Rightarrow> bool" for env ph sc where
  bench_starts: "bench_reach env ph sc bench_new"
| bench_steps: "bench_reach env ph sc b \<Longrightarrow> bench_step env ph sc b b' \<Longrightarrow> bench_reach env ph sc b'"
| bench_wakes: "bench_reach env ph sc b \<Longrightarrow> stage_at b = Latency s \<Longrightarrow> waiter_at s = Parked k observation \<Longrightarrow>
    bench_reach env ph sc (prints [] (Latency (s\<lparr>waiter_at := Waits k observation\<rparr>)) b)"

text \<open>An \<open>expect\<close>, an assertion, an index or a checked subtraction of the running part fails.\<close>

definition bench_crashes :: "timing \<Rightarrow> phases \<Rightarrow> (u64, u64) arc_count \<Rightarrow> bench \<Rightarrow> bool" where
  "bench_crashes env ph sc b \<longleftrightarrow> (case stage_at b of
     Starting \<Rightarrow> single_threaded env = None
   | Latency s \<Rightarrow> main_step ROUNDS sc (main_at s) s = Crashes \<or> waiter_step ROUNDS (wait_path env) sc (waiter_at s) s = Crashes
       \<or> main_at s = Left \<and> wait_latency_report s = None
   | Contending n ns c \<Rightarrow> chief_step n sc (chief_at c) c = Crashes \<or> (\<exists>i<n. contender_step N n sc i (contenders c ! i) c = Crashes)
   | Accounting \<Rightarrow> allocation_and_retention ph = None
   | Ended \<Rightarrow> False)"

definition metric_names :: "string list" where
  "metric_names = [''observations_per_second'', ''seq_observe_first_ops_per_second'', ''seq_complete_first_ops_per_second'',
     ''seq_retire_recreate_ops_per_second'', ''seq_pool_reuse_ops_per_second'', ''seq_cancel_observer_ops_per_second'',
     ''fanout_1_observations_per_second'', ''fanout_2_observations_per_second'', ''fanout_4_observations_per_second'',
     ''fanout_8_observations_per_second'', ''hot_path_p50_ns'', ''hot_path_p99_ns'', ''wait_roundtrip_p50_ns'',
     ''wait_roundtrip_p99_ns'', ''contention_1t_ops_per_second'', ''contention_2t_ops_per_second'', ''contention_4t_ops_per_second'',
     ''contention_8t_ops_per_second'', ''contention_16t_ops_per_second'', ''alloc_bytes_per_op'', ''alloc_blocks_per_op'',
     ''retained_bytes_per_subject_observer'', ''retained_blocks_per_subject_observer'', ''retained_after_drop_bytes'']"

subsection \<open>Everything is reported\<close>

lemma names_in_sequence:
  assumes "list_all2 (\<lambda>p ns. \<forall>rs. p = Some rs \<longrightarrow> map report_name rs = ns) ps nss" and "in_sequence ps = Some rs"
  shows "map report_name rs = concat nss"
  using assms by (induction arbitrary: rs rule: list_all2_induct) (auto split: option.splits)

lemma some_in_sequence: "\<forall>p\<in>set ps. p \<noteq> None \<Longrightarrow> in_sequence ps \<noteq> None"
  by (induction ps) (auto split: option.splits)

lemma runs_on_crate: "runs m x \<Longrightarrow> on_crate m space_new \<noteq> None"
  by (auto simp: runs_def)

lemma throughput_name: "throughput env name m = Some rs \<Longrightarrow> map report_name rs = [name]"
  by (auto simp: throughput_def emit_rate_def)

lemma fanout_name: "fanout_report env n = Some rs \<Longrightarrow> map report_name rs = [''fanout_'' @ decimal n @ ''_observations_per_second'']"
  by (auto simp: fanout_report_def emit_rate_def)

lemma latency_name: "latency_report env = Some rs \<Longrightarrow> map report_name rs = [''hot_path_p50_ns'', ''hot_path_p99_ns'']"
  by (auto simp: latency_report_def split: option.splits)

lemma single_threaded_reports:
  assumes "\<forall>key. duration_ok (hot_path env key)"
  shows "\<exists>rs. single_threaded env = Some rs"
proof -
  have runs: "throughput env name m \<noteq> None" if "runs m x" for name m x
    using runs_on_crate [OF that] by (simp add: throughput_def)
  have seq: "runs seq_observe_first (map Some (keys_below N))" "runs seq_complete_first (map Some (keys_below N))"
    "runs seq_retire_recreate []" "runs seq_pool_reuse []" "runs seq_cancel_observer []"
    using runs_observe_first [OF bounds_small(1)] runs_over_keys [of complete_first "\<lambda>k. [Some k]" N] complete_first_ok
      runs_silent [OF retire_ok bounds_small(1)] runs_silent [OF cancel_observer_ok bounds_small(1)] bounds_small(1)
    by (simp_all add: seq_observe_first_def seq_complete_first_def seq_retire_recreate_def seq_pool_reuse_def seq_cancel_observer_def concat_single)
  have fan: "fanout_report env n \<noteq> None" for n
  proof -
    have "runs (fanout n) (concat (map (\<lambda>key. replicate n (Some key)) (keys_below M_FANOUT)))"
      unfolding fanout_def by (rule runs_over_keys [OF fanout_round_ok bounds_small(3)])
    then show ?thesis using runs_on_crate by (simp add: fanout_report_def)
  qed
  obtain p50 p99 where "runs (latency (hot_path env)) (p50, p99)" using latency_ok [OF assms] by blast
  then have lat: "latency_report env \<noteq> None" by (auto simp: latency_report_def runs_def)
  have "single_threaded env \<noteq> None"
    unfolding single_threaded_def by (rule some_in_sequence) (use seq fan lat runs in auto)
  then show ?thesis by blast
qed

text \<open>What the allocator does in the phases, and how the counters read.\<close>

definition phases_ok :: "phases \<Rightarrow> blocks \<Rightarrow> blocks \<Rightarrow> blocks \<Rightarrow> blocks \<Rightarrow> blocks \<Rightarrow> blocks \<Rightarrow> bool" where
  "phases_ok ph b0 b1 b2 b3 b4 b5 \<longleftrightarrow> heap_run (before_start ph) [] b0 \<and> heap_run (in_setup ph) b0 b1 \<and> heap_run (in_operations ph) b1 b2
     \<and> heap_run (in_between ph) b2 b3 \<and> heap_run (in_pairs ph) b3 b4 \<and> heap_run (in_teardown ph) b4 b5"

definition out_bytes :: "heap_event list \<Rightarrow> nat" where
  "out_bytes es = sum_list (map (fst \<circ> handed_out) es)"

definition out_blocks :: "heap_event list \<Rightarrow> nat" where
  "out_blocks es = sum_list (map (snd \<circ> handed_out) es)"

lemma heap_counted:
  assumes "heap_run es bs bs'" and "blocks_ok bs" and "counts bs c"
  obtains c' where "count_events es c = Some c'" and "blocks_ok bs'" and "counts bs' c'"
    and "total_bytes c' = total_bytes c + of_nat (out_bytes es)" and "total_blocks c' = total_blocks c + of_nat (out_blocks es)"
  using heap_run_counts [OF assms] unfolding out_bytes_def out_blocks_def by blast

lemma sub_u64_added:
  assumes "unat a + n < 2 ^ 64"
  shows "sub_u64 (a + of_nat n) a = Some (of_nat n)"
proof -
  have "unat (of_nat n :: u64) = n" using assms by (simp add: unat_of_nat take_bit_nat_eq_self)
  then have "unat (a + of_nat n) = unat a + n" using assms by (simp add: unat_word_ariths)
  then have "a \<le> a + of_nat n" by (simp add: word_le_nat_alt)
  then show ?thesis by (simp add: sub_u64_def)
qed

lemma print_ratio_of_nat:
  assumes "a < 2 ^ 64" and "0 < n" and "n < 2 ^ 64"
  shows "print_ratio name (of_nat a) n = Some [Metric name (int (a div n))]"
proof -
  have w: "unat (of_nat a :: u64) = a" "unat (of_nat n :: u64) = n" using assms by (simp_all add: unat_of_nat take_bit_nat_eq_self)
  then have "(of_nat n :: u64) \<noteq> 0" using assms(2) by (metis less_irrefl unat_0)
  moreover have "unat ((of_nat a :: u64) div of_nat n) = a div n" by (simp add: unat_div w)
  ultimately show ?thesis by (simp only: print_ratio_def emit_ratio_def if_False option.map)
qed

lemma int_below: "n < 2 ^ 63 \<Longrightarrow> int n < 2 ^ 63"
  by (metis of_nat_less_iff of_nat_numeral of_nat_power)

lemma sint_counted: "counts bs c \<Longrightarrow> live_bytes bs < 2 ^ 63 \<Longrightarrow> sint (current_bytes c) = int (live_bytes bs)"
  by (simp add: counts_def sint_live_bytes)

lemma grown_live:
  assumes "counts bs c" and "counts bs' c'" and "live_bytes bs < 2 ^ 63" and "live_bytes bs' < 2 ^ 63"
  shows "grown (current_bytes c') (current_bytes c) =
    (if live_bytes bs \<le> live_bytes bs' then Some (of_nat (live_bytes bs' - live_bytes bs)) else None)"
proof (cases "live_bytes bs \<le> live_bytes bs'")
  case True
  note b = sint_counted [OF assms(1,3)] sint_counted [OF assms(2,4)]
  have d: "int (live_bytes bs') - int (live_bytes bs) = int (live_bytes bs' - live_bytes bs)" using True by simp
  have "int (live_bytes bs' - live_bytes bs) < 2 ^ 63" by (rule int_below) (use assms(4) in simp)
  then show ?thesis unfolding grown_def b d Let_def using True by simp
next
  case False
  then show ?thesis by (simp add: grown_def sint_counted [OF assms(1,3)] sint_counted [OF assms(2,4)])
qed

lemma residue_live:
  assumes "counts bs c" and "counts bs' c'" and "live_bytes bs < 2 ^ 63" and "live_bytes bs' < 2 ^ 63"
  shows "residue c c' = Some (max 0 (int (live_bytes bs') - int (live_bytes bs)))"
proof -
  note b = sint_counted [OF assms(1,3)] sint_counted [OF assms(2,4)]
  have "- (2 ^ 63) \<le> int (live_bytes bs') - int (live_bytes bs)" "int (live_bytes bs') - int (live_bytes bs) < 2 ^ 63"
    using int_below [OF assms(3)] int_below [OF assms(4)] by linarith+
  then show ?thesis unfolding residue_def b Let_def by simp
qed

lemma sub_u64_blocks:
  assumes "counts bs c" and "counts bs' c'" and "length bs < 2 ^ 64" and "length bs' < 2 ^ 64"
  shows "sub_u64 (current_blocks c') (current_blocks c) =
    (if length bs \<le> length bs' then Some (of_nat (length bs' - length bs)) else None)"
proof -
  have u: "unat (current_blocks c) = length bs" "unat (current_blocks c') = length bs'"
    using assms by (simp_all add: counts_def unat_of_nat take_bit_nat_eq_self)
  show ?thesis
  proof (cases "length bs \<le> length bs'")
    case True
    then have "current_blocks c' = current_blocks c + of_nat (length bs' - length bs)"
      using assms(1,2) by (simp add: counts_def flip: of_nat_add)
    moreover have "unat (current_blocks c) + (length bs' - length bs) < 2 ^ 64" using u(1) True assms(4) by simp
    ultimately have "sub_u64 (current_blocks c') (current_blocks c) = Some (of_nat (length bs' - length bs))"
      by (simp only: sub_u64_added)
    with True show ?thesis by simp
  next
    case False
    then show ?thesis by (simp add: sub_u64_def word_le_nat_alt u)
  qed
qed

text \<open>The bounds under which the counters do not overflow, and the growth that the program expects.\<close>

definition phases_fit :: "phases \<Rightarrow> blocks \<Rightarrow> blocks \<Rightarrow> blocks \<Rightarrow> blocks \<Rightarrow> bool" where
  "phases_fit ph b0 b3 b4 b5 \<longleftrightarrow> (\<forall>b\<in>{b0, b3, b4, b5}. live_bytes b < 2 ^ 63 \<and> length b < 2 ^ 63)
     \<and> out_bytes (before_start ph) + out_bytes (in_setup ph) + out_bytes (in_operations ph) < 2 ^ 64
     \<and> out_blocks (before_start ph) + out_blocks (in_setup ph) + out_blocks (in_operations ph) < 2 ^ 64"

definition heap_grows :: "blocks \<Rightarrow> blocks \<Rightarrow> bool" where
  "heap_grows b3 b4 \<longleftrightarrow> live_bytes b3 \<le> live_bytes b4 \<and> length b3 \<le> length b4"

lemma accounting_reported:
  assumes ph: "phases_ok ph b0 b1 b2 b3 b4 b5" and fit: "phases_fit ph b0 b3 b4 b5"
  shows "allocation_and_retention ph = (if heap_grows b3 b4 then Some
     [Metric ''alloc_bytes_per_op'' (int (out_bytes (in_operations ph) div N_ALLOC)),
      Metric ''alloc_blocks_per_op'' (int (out_blocks (in_operations ph) div N_ALLOC)),
      Metric ''retained_bytes_per_subject_observer'' (int ((live_bytes b4 - live_bytes b3) div M_RETAINED)),
      Metric ''retained_blocks_per_subject_observer'' (int ((length b4 - length b3) div M_RETAINED)),
      Metric ''retained_after_drop_bytes'' (max 0 (int (live_bytes b5) - int (live_bytes b0)))] else None)"
proof -
  have fits: "live_bytes b0 < 2 ^ 63" "live_bytes b3 < 2 ^ 63" "live_bytes b4 < 2 ^ 63" "live_bytes b5 < 2 ^ 63"
      "length b3 < 2 ^ 63" "length b4 < 2 ^ 63"
    and total: "out_bytes (before_start ph) + out_bytes (in_setup ph) + out_bytes (in_operations ph) < 2 ^ 64"
      "out_blocks (before_start ph) + out_blocks (in_setup ph) + out_blocks (in_operations ph) < 2 ^ 64"
    using fit by (simp_all add: phases_fit_def)
  have runs: "\<exists>x. on_crate allocation_phase space_new = Some x" "\<exists>x. on_crate retention_phase space_new = Some x"
    using runs_observe_first [OF bounds_small(4)] retention_phase_ok unfolding runs_def allocation_phase_def by blast+
  have new: "blocks_ok []" "counts [] snapshot_new" by (simp_all add: blocks_ok_def counts_def snapshot_new_def)
  note h = ph [unfolded phases_ok_def]
  obtain c0 where c0: "count_events (before_start ph) snapshot_new = Some c0" "blocks_ok b0" "counts b0 c0"
    "total_bytes c0 = total_bytes snapshot_new + of_nat (out_bytes (before_start ph))"
    "total_blocks c0 = total_blocks snapshot_new + of_nat (out_blocks (before_start ph))"
    by (rule heap_counted [OF _ new]) (use h in blast)
  obtain c1 where c1: "count_events (in_setup ph) c0 = Some c1" "blocks_ok b1" "counts b1 c1"
    "total_bytes c1 = total_bytes c0 + of_nat (out_bytes (in_setup ph))" "total_blocks c1 = total_blocks c0 + of_nat (out_blocks (in_setup ph))"
    by (rule heap_counted [OF _ c0(2,3)]) (use h in blast)
  obtain c2 where c2: "count_events (in_operations ph) c1 = Some c2" "blocks_ok b2" "counts b2 c2"
    "total_bytes c2 = total_bytes c1 + of_nat (out_bytes (in_operations ph))"
    "total_blocks c2 = total_blocks c1 + of_nat (out_blocks (in_operations ph))"
    by (rule heap_counted [OF _ c1(2,3)]) (use h in blast)
  obtain c3 where c3: "count_events (in_between ph) c2 = Some c3" "blocks_ok b3" "counts b3 c3"
    by (rule heap_counted [OF _ c2(2,3)]) (use h in blast)
  obtain c4 where c4: "count_events (in_pairs ph) c3 = Some c4" "blocks_ok b4" "counts b4 c4"
    by (rule heap_counted [OF _ c3(2,3)]) (use h in blast)
  obtain c5 where c5: "count_events (in_teardown ph) c4 = Some c5" "counts b5 c5"
    by (rule heap_counted [OF _ c4(2,3)]) (use h in blast)
  have "unat (total_bytes c1) + out_bytes (in_operations ph) < 2 ^ 64" "unat (total_blocks c1) + out_blocks (in_operations ph) < 2 ^ 64"
    using total by (simp_all add: c1(4,5) c0(4,5) snapshot_new_def unat_of_nat take_bit_nat_eq_self flip: of_nat_add)
  then have subs: "sub_u64 (total_bytes c2) (total_bytes c1) = Some (of_nat (out_bytes (in_operations ph)))"
    "sub_u64 (total_blocks c2) (total_blocks c1) = Some (of_nat (out_blocks (in_operations ph)))"
    unfolding c2(4,5) by (simp_all add: sub_u64_added)
  have "length b3 < 2 ^ 64" "length b4 < 2 ^ 64" using fits(5,6) by simp_all
  note kept = grown_live [OF c3(3) c4(3) fits(2,3)] sub_u64_blocks [OF c3(3) c4(3) this]
  have n: "0 < N_ALLOC" "N_ALLOC < 2 ^ 64" "0 < M_RETAINED" "M_RETAINED < 2 ^ 64" by (simp_all add: N_ALLOC_def M_RETAINED_def)
  have "out_bytes (in_operations ph) < 2 ^ 64" "out_blocks (in_operations ph) < 2 ^ 64" "live_bytes b4 - live_bytes b3 < 2 ^ 64"
    "length b4 - length b3 < 2 ^ 64" using total fits by simp_all
  note ratios = this [THEN print_ratio_of_nat]
  from runs obtain x y where xy: "on_crate allocation_phase space_new = Some x" "on_crate retention_phase space_new = Some y" by blast
  note steps = c0(1) c1(1) c2(1) c3(1) c4(1) c5(1) subs kept xy ratios n residue_live [OF c0(3) c5(2) fits(1,4)]
  show ?thesis
  proof (cases "heap_grows b3 b4")
    case True
    then have "live_bytes b3 \<le> live_bytes b4" "length b3 \<le> length b4" by (simp_all add: heap_grows_def)
    then show ?thesis
      unfolding allocation_and_retention_def by (simp only: steps True if_True Option.bind.bind_lunit append.simps Let_def)
  next
    case False
    then show ?thesis unfolding allocation_and_retention_def
      by (cases "live_bytes b3 \<le> live_bytes b4") (simp_all add: steps heap_grows_def del: One_nat_def)
  qed
qed

lemma single_threaded_names:
  assumes "single_threaded env = Some rs"
  shows "map report_name rs = take 12 metric_names"
proof -
  have one: "list_all2 (\<lambda>p ns. \<forall>rs. p = Some rs \<longrightarrow> map report_name rs = ns)
    ([throughput env ''observations_per_second'' seq_observe_first,
      throughput env ''seq_observe_first_ops_per_second'' seq_observe_first,
      throughput env ''seq_complete_first_ops_per_second'' seq_complete_first,
      throughput env ''seq_retire_recreate_ops_per_second'' seq_retire_recreate,
      throughput env ''seq_pool_reuse_ops_per_second'' seq_pool_reuse,
      throughput env ''seq_cancel_observer_ops_per_second'' seq_cancel_observer]
     @ map (fanout_report env) FANOUT_COUNTS @ [latency_report env])
    ([[''observations_per_second''], [''seq_observe_first_ops_per_second''], [''seq_complete_first_ops_per_second''],
      [''seq_retire_recreate_ops_per_second''], [''seq_pool_reuse_ops_per_second''], [''seq_cancel_observer_ops_per_second'']]
     @ map (\<lambda>n. [''fanout_'' @ decimal n @ ''_observations_per_second'']) FANOUT_COUNTS @ [[''hot_path_p50_ns'', ''hot_path_p99_ns'']])"
    by (simp add: FANOUT_COUNTS_def throughput_name fanout_name latency_name)
  show ?thesis
    unfolding names_in_sequence [OF one assms [unfolded single_threaded_def]] by code_simp
qed

subsection \<open>Every state of the program\<close>

lemma wait_names: "wait_latency_report s = Some rs \<Longrightarrow> map report_name rs = [''wait_roundtrip_p50_ns'', ''wait_roundtrip_p99_ns'']"
  by (auto simp: wait_latency_report_def print_percentiles_def)

definition contest_name :: "nat \<Rightarrow> string" where
  "contest_name n = ''contention_'' @ decimal n @ ''t_ops_per_second''"

lemma contest_names: "map report_name (contention_report env n) = [contest_name n]"
  by (simp add: contention_report_def emit_rate_def contest_name_def)

lemma all_names: "metric_names = take 14 metric_names @ map contest_name thread_counts @ drop 19 metric_names"
  by code_simp

text \<open>What has been printed, and what the threads of the part that runs can do.\<close>

definition bench_ok :: "timing \<Rightarrow> phases \<Rightarrow> (u64, u64) arc_count \<Rightarrow> bench \<Rightarrow> bool" where
  "bench_ok env ph sc b \<longleftrightarrow> (case stage_at b of
     Starting \<Rightarrow> printed b = []
   | Latency s \<Rightarrow> map report_name (printed b) = take 12 metric_names \<and> rounds_inv ROUNDS (wait_path env) sc s
   | Contending n ns c \<Rightarrow> (\<exists>past. thread_counts = past @ n # ns
       \<and> map report_name (printed b) = take 14 metric_names @ map contest_name past) \<and> (\<exists>d. contest_at N n sc d c)
   | Accounting \<Rightarrow> map report_name (printed b) = take 14 metric_names @ map contest_name thread_counts
   | Ended \<Rightarrow> \<exists>rs rs'. printed b = rs @ rs' \<and> map report_name rs = take 14 metric_names @ map contest_name thread_counts
       \<and> allocation_and_retention ph = Some rs')"

text \<open>The steps that are left, spurious wake-ups apart.\<close>

fun contests_left :: "nat list \<Rightarrow> nat" where
  "contests_left [] = 1"
| "contests_left (n # ns) = race_left N n (contest_new n) + 1 + contests_left ns"

definition bench_left :: "bench \<Rightarrow> nat" where
  "bench_left b = (case stage_at b of
     Starting \<Rightarrow> steps_left ROUNDS rounds_new + contests_left thread_counts + 2
   | Latency s \<Rightarrow> steps_left ROUNDS s + contests_left thread_counts + 1
   | Contending n ns c \<Rightarrow> race_left N n c + contests_left ns + 1
   | Accounting \<Rightarrow> 1
   | Ended \<Rightarrow> 0)"

lemma prints_simps [simp]: "stage_at (prints rs m b) = m" "printed (prints rs m b) = printed b @ rs"
  by (simp_all add: prints_def)

lemma rounds_fit: "100 \<le> ROUNDS" "ROUNDS + 1 < 2 ^ 64"
  by (simp_all add: ROUNDS_def)

lemma races_fit: "N < 2 ^ 32" "N < 2 ^ 64"
  by (simp_all add: N_def)

lemma threads_fit: "n \<in> set thread_counts \<Longrightarrow> 0 < n \<and> n < 2 ^ 32"
  by (auto simp: thread_counts_def)

lemma contests_left_next: "contests_left ns = bench_left (prints rs (next_contest ns) b)"
  by (cases ns) (simp_all add: bench_left_def)

lemma next_contest_ok:
  assumes "thread_counts = past @ ns" and "map report_name (printed b @ rs) = take 14 metric_names @ map contest_name past"
  shows "bench_ok env ph sc (prints rs (next_contest ns) b)"
proof (cases ns)
  case (Cons n ns')
  have "n \<in> set thread_counts" unfolding assms(1) Cons by simp
  from threads_fit [OF this] have "contest_at N n sc 1 (contest_new n)" by (intro contest_begins races_fit(1)) simp_all
  with Cons assms show ?thesis by (auto simp: bench_ok_def)
qed (use assms in \<open>simp add: bench_ok_def\<close>)

lemma bench_step_keeps:
  assumes "arc_sound sc" and "\<forall>k. duration_ok (wait_path env k)" and "bench_ok env ph sc b" and "bench_step env ph sc b b'"
  shows "bench_ok env ph sc b' \<and> bench_left b' < bench_left b"
  using assms(4)
proof cases
  case (single rs)
  have "rounds_inv ROUNDS (wait_path env) sc rounds_new" by (rule rounds_inv_new)
  with single single_threaded_names [OF single(3)] assms(3) show ?thesis by (simp add: bench_ok_def bench_left_def)
next
  case (waiting s s')
  then have inv: "rounds_inv ROUNDS (wait_path env) sc s" using assms(3) by (simp add: bench_ok_def)
  from moves_keep [OF assms(1) rounds_fit assms(2) inv waiting(3)] moves_less [OF inv waiting(3)] waiting assms(3)
  show ?thesis by (simp add: bench_ok_def bench_left_def)
next
  case (waited s rs)
  have "map report_name (printed b @ rs) = take 14 metric_names @ map contest_name []"
    using wait_names [OF waited(4)] assms(3) waited(2) by (simp add: bench_ok_def metric_names_def)
  from next_contest_ok [OF _ this] waited show ?thesis
    using contests_left_next [of thread_counts rs b] by (simp add: bench_left_def)
next
  case (contending n ns c c')
  then obtain d where d: "contest_at N n sc d c" using assms(3) by (auto simp: bench_ok_def)
  from races_keep [OF assms(1) races_fit(2) d contending(3)] contending assms(3) show ?thesis
    by (auto simp: bench_ok_def bench_left_def lowers_def)
next
  case (contended n ns c)
  then obtain past where past: "thread_counts = past @ n # ns"
    "map report_name (printed b) = take 14 metric_names @ map contest_name past" using assms(3) by (auto simp: bench_ok_def)
  have "map report_name (printed b @ contention_report env n) = take 14 metric_names @ map contest_name (past @ [n])"
    by (simp only: map_append past(2) contest_names list.map append_assoc)
  from next_contest_ok [OF _ this, of ns] past(1) contended show ?thesis
    using contests_left_next [of ns "contention_report env n" b] by (simp add: bench_left_def)
next
  case (accounted rs)
  then show ?thesis using assms(3) by (auto simp: bench_ok_def bench_left_def)
qed

lemma bench_reach_ok:
  assumes "arc_sound sc" and "\<forall>k. duration_ok (wait_path env k)"
  shows "bench_reach env ph sc b \<Longrightarrow> bench_ok env ph sc b"
proof (induction rule: bench_reach.induct)
  case bench_starts
  show ?case by (simp add: bench_ok_def bench_new_def)
next
  case (bench_steps b b')
  with bench_step_keeps [OF assms] show ?case by blast
next
  case (bench_wakes b s k observation)
  then show ?case using parked_again(1) by (auto simp: bench_ok_def)
qed

lemma bench_bound:
  assumes "arc_sound sc" and "\<forall>k. duration_ok (wait_path env k)"
  shows "bench_ok env ph sc b \<Longrightarrow> (bench_step env ph sc ^^ m) b b' \<Longrightarrow> m \<le> bench_left b"
proof (induction m arbitrary: b)
  case (Suc m)
  obtain b1 where b1: "bench_step env ph sc b b1" "(bench_step env ph sc ^^ m) b1 b'"
    using relpowp_Suc_D2 [OF Suc.prems(2)] by blast
  from bench_step_keeps [OF assms Suc.prems(1) b1(1)] Suc.IH [OF _ b1(2)] show ?case by fastforce
qed simp

lemma left_reported:
  assumes "\<forall>k. duration_ok (wait_path env k)" and "rounds_inv ROUNDS (wait_path env) sc s" and "main_at s = Left"
  shows "wait_latency_report s \<noteq> None"
proof -
  from assms(2) have "counters_ok ROUNDS (wait_path env) s" by (rule rounds_invD)
  then have l: "latencies s = map (wait_path env) [0..<ROUNDS]" using assms(3) by (auto simp: counters_ok_def)
  have "100 \<le> length (latencies s)" "\<forall>d\<in>set (latencies s). duration_ok d" using l rounds_fit assms(1) by simp_all
  then obtain p50 p99 where "percentiles (latencies s) = Some (p50, p99)" by (rule percentiles_total)
  then show ?thesis by (simp add: wait_latency_report_def print_percentiles_def)
qed

lemma safe_not_crash: "safe_move P m \<Longrightarrow> m \<noteq> Crashes"
  by auto

lemma bench_crashes_iff:
  assumes "arc_sound sc" and hot: "\<forall>key. duration_ok (hot_path env key)" and "\<forall>k. duration_ok (wait_path env k)"
    and "phases_ok ph b0 b1 b2 b3 b4 b5" and "phases_fit ph b0 b3 b4 b5" and ok: "bench_ok env ph sc b"
  shows "bench_crashes env ph sc b \<longleftrightarrow> stage_at b = Accounting \<and> \<not> heap_grows b3 b4"
proof (cases "stage_at b")
  case Starting
  then show ?thesis using single_threaded_reports [OF hot] by (auto simp: bench_crashes_def)
next
  case (Latency s)
  then have inv: "rounds_inv ROUNDS (wait_path env) sc s" using ok by (simp add: bench_ok_def)
  show ?thesis
    using Latency left_reported [OF assms(3) inv] safe_not_crash [OF main_safe [OF assms(1) inv rounds_fit assms(3)]]
      safe_not_crash [OF waiter_safe [OF assms(1) inv rounds_fit(2)]] by (simp add: bench_crashes_def)
next
  case (Contending n ns c)
  then obtain d where d: "contest_at N n sc d c" using ok by (auto simp: bench_ok_def)
  show ?thesis
    using Contending safe_not_crash [OF chief_safe [OF assms(1) d races_fit(2)]]
      safe_not_crash [OF worker_safe [OF assms(1) d _ races_fit(2)]] by (auto simp: bench_crashes_def)
next
  case Accounting
  then show ?thesis using accounting_reported [OF assms(4,5)] by (simp add: bench_crashes_def)
qed (simp add: bench_crashes_def)

lemma bench_moves:
  assumes "arc_sound sc" and wait: "\<forall>k. duration_ok (wait_path env k)" and ok: "bench_ok env ph sc b"
    and safe: "\<not> bench_crashes env ph sc b" and "stage_at b \<noteq> Ended"
  shows "\<exists>b'. bench_step env ph sc b b'"
proof (cases "stage_at b")
  case (Latency s)
  then have inv: "rounds_inv ROUNDS (wait_path env) sc s" using ok by (simp add: bench_ok_def)
  from someone_moves [OF assms(1) inv rounds_fit wait] show ?thesis
  proof
    assume "\<exists>s'. moves ROUNDS (wait_path env) sc s s'"
    with bench_step.waiting [OF Latency] show ?thesis by blast
  next
    assume "main_at s = Left \<and> waiter_at s = Gone"
    moreover from this left_reported [OF wait inv] obtain rs where "wait_latency_report s = Some rs" by auto
    ultimately show ?thesis using bench_step.waited [OF Latency] by blast
  qed
next
  case (Contending n ns c)
  then obtain d where d: "contest_at N n sc d c" using ok by (auto simp: bench_ok_def)
  show ?thesis
  proof (cases "chief_at c = Home")
    case True
    with bench_step.contended [OF Contending] show ?thesis by blast
  next
    case False
    with someone_races [OF assms(1) d races_fit(2)] bench_step.contending [OF Contending] show ?thesis by blast
  qed
next
  case Starting
  with safe obtain rs where "single_threaded env = Some rs" by (auto simp: bench_crashes_def)
  with bench_step.single [OF Starting] show ?thesis by blast
next
  case Accounting
  with safe obtain rs where "allocation_and_retention ph = Some rs" by (auto simp: bench_crashes_def)
  with bench_step.accounted [OF Accounting] show ?thesis by blast
qed (use assms(5) in simp)

lemma bench_end:
  assumes "arc_sound sc" and "\<forall>k. duration_ok (wait_path env k)"
  shows "bench_ok env ph sc b \<Longrightarrow> \<exists>b'. (bench_step env ph sc)\<^sup>*\<^sup>* b b' \<and> bench_ok env ph sc b' \<and> (stage_at b' = Ended \<or> bench_crashes env ph sc b')"
proof (induction "bench_left b" arbitrary: b rule: less_induct)
  case less
  show ?case
  proof (cases "stage_at b = Ended \<or> bench_crashes env ph sc b")
    case True
    with less.prems show ?thesis by blast
  next
    case False
    with bench_moves [OF assms less.prems] obtain b1 where b1: "bench_step env ph sc b b1" by blast
    from bench_step_keeps [OF assms less.prems this] less.hyps [of b1] b1 show ?thesis
      by (meson converse_rtranclp_into_rtranclp)
  qed
qed

text \<open>
  C39: The benchmark prints every metric of its matrix once, in order, whatever the clock measures and
  however the threads of its concurrent parts are scheduled and woken.  In every state it can reach no
  \<open>expect\<close>, assertion or index fails but one, that the live heap grew while pairs were held, and that one
  exactly when it did not grow (in bytes or, where the code subtracts, in blocks); at most \<open>bench_left\<close> more
  steps are possible apart from spurious wake-ups, and they can be made up to the end, or to that failure;
  and at its end it has printed the whole matrix, in which the accounting metrics are the bytes and
  blocks handed out per operation, those retained per pair, and what is left after dropping them.  The
  allocator is asked anything in the phases that keeps its counters from overflowing.
\<close>

theorem benchmark_prints_its_matrix:
  assumes "arc_sound sc" and "\<forall>key. duration_ok (hot_path env key)" and "\<forall>k. duration_ok (wait_path env k)"
    and "phases_ok ph b0 b1 b2 b3 b4 b5" and "phases_fit ph b0 b3 b4 b5" and "bench_reach env ph sc b"
  shows "(bench_crashes env ph sc b \<longleftrightarrow> stage_at b = Accounting \<and> \<not> heap_grows b3 b4)
     \<and> (\<forall>m b'. (bench_step env ph sc ^^ m) b b' \<longrightarrow> m \<le> bench_left b)
     \<and> (\<exists>b'. (bench_step env ph sc)\<^sup>*\<^sup>* b b' \<and> stage_at b' = (if heap_grows b3 b4 then Ended else Accounting))
     \<and> (stage_at b = Ended \<longrightarrow> map report_name (printed b) = metric_names \<and> drop 19 (printed b) =
         [Metric ''alloc_bytes_per_op'' (int (out_bytes (in_operations ph) div N_ALLOC)),
          Metric ''alloc_blocks_per_op'' (int (out_blocks (in_operations ph) div N_ALLOC)),
          Metric ''retained_bytes_per_subject_observer'' (int ((live_bytes b4 - live_bytes b3) div M_RETAINED)),
          Metric ''retained_blocks_per_subject_observer'' (int ((length b4 - length b3) div M_RETAINED)),
          Metric ''retained_after_drop_bytes'' (max 0 (int (live_bytes b5) - int (live_bytes b0)))])
     \<and> distinct metric_names"
proof -
  note ok = bench_reach_ok [OF assms(1,3,6)]
  note crash = bench_crashes_iff [OF assms(1-5)]
  note accounting = accounting_reported [OF assms(4,5)]
  obtain b' where b': "(bench_step env ph sc)\<^sup>*\<^sup>* b b'" "bench_ok env ph sc b'" "stage_at b' = Ended \<or> bench_crashes env ph sc b'"
    using bench_end [OF assms(1,3) ok] by blast
  have grown: "heap_grows b3 b4" if "bench_ok env ph sc e" "stage_at e = Ended" for e
    using that accounting by (auto simp: bench_ok_def split: if_splits)
  have "stage_at b' = (if heap_grows b3 b4 then Ended else Accounting)"
    using b'(3) crash [OF b'(2)] grown [OF b'(2)] by auto
  moreover have "map report_name (printed b) = metric_names \<and> drop 19 (printed b) = the (allocation_and_retention ph)"
    if ended: "stage_at b = Ended"
  proof -
    obtain rs rs' where rs: "printed b = rs @ rs'" "map report_name rs = take 14 metric_names @ map contest_name thread_counts"
      "allocation_and_retention ph = Some rs'" using ok ended by (auto simp: bench_ok_def)
    have "length rs = 19" using arg_cong [OF rs(2), of length] by (simp add: metric_names_def thread_counts_def)
    moreover have "map report_name rs' = drop 19 metric_names"
      using rs(3) grown [OF ok ended] unfolding accounting by (auto simp: metric_names_def)
    ultimately show ?thesis using rs all_names by simp
  qed
  moreover have "distinct metric_names" by code_simp
  ultimately show ?thesis
    using crash [OF ok] bench_bound [OF assms(1,3) ok] b'(1) grown [OF ok] unfolding accounting by auto
qed

text \<open>
  A heap of one block, a thousand bytes an operation, 16 bytes a pair, and one block left over; and
  another one, which shrinks while pairs are held.
\<close>

definition sample_phases :: phases where
  "sample_phases = \<lparr>before_start = [Alloc (Some 1) 64], in_setup = [Alloc (Some 2) 128],
     in_operations = [Alloc (Some 3) 200000000, Dealloc 3 200000000], in_between = [Dealloc 2 128, Alloc (Some 2) 128],
     in_pairs = [Alloc (Some 4) 160000], in_teardown = [Dealloc 4 160000]\<rparr>"

definition shrinking_phases :: phases where
  "shrinking_phases = sample_phases\<lparr>in_pairs := [Dealloc 2 128], in_teardown := []\<rparr>"

definition sample_timing :: timing where
  "sample_timing = \<lparr>throughput_time = \<lambda>_. Duration 1 0, fanout_time = \<lambda>_. Duration 1 0, hot_path = \<lambda>_. Duration 0 40,
     wait_path = \<lambda>_. Duration 0 900, contention_time = \<lambda>_. Duration 2 0\<rparr>"

lemma samples_ok:
  shows "\<forall>key. duration_ok (hot_path sample_timing key)" and "\<forall>k. duration_ok (wait_path sample_timing k)"
    and "phases_ok sample_phases [(1, 64)] [(2, 128), (1, 64)] [(2, 128), (1, 64)] [(2, 128), (1, 64)]
      [(4, 160000), (2, 128), (1, 64)] [(2, 128), (1, 64)]"
    and "phases_fit sample_phases [(1, 64)] [(2, 128), (1, 64)] [(4, 160000), (2, 128), (1, 64)] [(2, 128), (1, 64)]"
    and "phases_ok shrinking_phases [(1, 64)] [(2, 128), (1, 64)] [(2, 128), (1, 64)] [(2, 128), (1, 64)] [(1, 64)] [(1, 64)]"
    and "phases_fit shrinking_phases [(1, 64)] [(2, 128), (1, 64)] [(1, 64)] [(1, 64)]"
  by (simp_all add: sample_timing_def duration_ok_def phases_ok_def phases_fit_def sample_phases_def shrinking_phases_def
      heap_run_simps layout_ok_def out_bytes_def out_blocks_def)

lemma bench_reach_steps: "(bench_step env ph sc)\<^sup>*\<^sup>* b b' \<Longrightarrow> bench_reach env ph sc b \<Longrightarrow> bench_reach env ph sc b'"
  by (induction rule: rtranclp_induct) (auto intro: bench_reach.bench_steps)

theorem benchmark_prints_its_matrix_witness:
  "(\<exists>b. (bench_step sample_timing sample_phases handle_count)\<^sup>*\<^sup>* bench_new b \<and> stage_at b = Ended
     \<and> map report_name (printed b) = metric_names
     \<and> drop 19 (printed b) = [Metric ''alloc_bytes_per_op'' 1000, Metric ''alloc_blocks_per_op'' 0,
         Metric ''retained_bytes_per_subject_observer'' 16, Metric ''retained_blocks_per_subject_observer'' 0,
         Metric ''retained_after_drop_bytes'' 128])
   \<and> (\<exists>b. bench_reach sample_timing shrinking_phases handle_count b \<and> bench_crashes sample_timing shrinking_phases handle_count b)"
proof (rule conjI)
  note run = benchmark_prints_its_matrix [OF handle_count_sound samples_ok(1-4)]
  have grows: "heap_grows [(2, 128), (1, 64)] [(4, 160000), (2, 128), (1, 64)]" by (simp add: heap_grows_def)
  from run [OF bench_starts] grows obtain b where b: "(bench_step sample_timing sample_phases handle_count)\<^sup>*\<^sup>* bench_new b"
    "stage_at b = Ended" by auto
  have "out_bytes (in_operations sample_phases) = 200000000" "out_blocks (in_operations sample_phases) = 1"
    by (simp_all add: out_bytes_def out_blocks_def sample_phases_def)
  with run [OF bench_reach_steps [OF b(1) bench_starts]] b
  show "\<exists>b. (bench_step sample_timing sample_phases handle_count)\<^sup>*\<^sup>* bench_new b \<and> stage_at b = Ended
     \<and> map report_name (printed b) = metric_names
     \<and> drop 19 (printed b) = [Metric ''alloc_bytes_per_op'' 1000, Metric ''alloc_blocks_per_op'' 0,
         Metric ''retained_bytes_per_subject_observer'' 16, Metric ''retained_blocks_per_subject_observer'' 0,
         Metric ''retained_after_drop_bytes'' 128]"
    by (intro exI [of _ b]) (simp add: N_ALLOC_def M_RETAINED_def)
next
  note run = benchmark_prints_its_matrix [OF handle_count_sound samples_ok(1,2,5,6)]
  have shrinks: "\<not> heap_grows [(2, 128), (1, 64)] [(1, 64)]" by (simp add: heap_grows_def)
  from run [OF bench_starts] shrinks obtain b where b: "(bench_step sample_timing shrinking_phases handle_count)\<^sup>*\<^sup>* bench_new b"
    "stage_at b = Accounting" by auto
  from run [OF bench_reach_steps [OF b(1) bench_starts]] b shrinks bench_reach_steps [OF b(1) bench_starts]
  show "\<exists>b. bench_reach sample_timing shrinking_phases handle_count b \<and> bench_crashes sample_timing shrinking_phases handle_count b"
    by blast
qed

end
