(* ===== verification/Spec2Isabelle.thy ===== *)
theory Spec2Isabelle
  imports Fx_Hash Destructors Namespace_Guarantees Protocol_Refinement Fuzz_Ops Fuzz_Future Benchmark
begin

text \<open>
  The program is \<open>observe\<close> (\<open>crates/observe/src/lib.rs\<close>): single-assignment observations.  A
  \<open>Subject\<close> registered under a key in an \<open>ObservationSpace\<close> publishes at most one outcome; an
  \<open>Observation\<close> taken from the key reads it, blocks for it, registers wakers or becomes a future.
  Each registration is a generation: the key table maps a key to the generation and the slot of its
  live subject, slots are recycled through a pool, and \<open>ObservationSpace::pair\<close> makes a slot without a
  key.  Around the crate stand its probes (\<open>observe-tests/src/probe.rs\<close>), four fuzz targets
  (\<open>observe-tests/fuzz/fuzz_targets\<close>) and the benchmark (\<open>observe-perf/src/main.rs\<close>).

  The theories, and the code they model.

  \<^item> \<open>Prelude\<close>: 64-bit integers (\<open>usize\<close> is 64 bits wide), the three ways a call ends (it returns, it
    panics and has its effects, or it has undefined behaviour, which is \<open>Inl\<close> of a fault), the \<open>Vec\<close>
    operations the code calls, and the lemma collections.
  \<^item> \<open>Fx_Hash\<close>: \<open>FxHasher\<close>.  Byte keys of at most 8 bytes and equal length do not collide.
  \<^item> \<open>Key_Table\<close>: \<open>SlotEntry\<close>, \<open>SmallMap\<close>.  The inline and the hash representation with the promotion.
    The locale \<open>key_table\<close> is the interface \<open>ObservationSpace\<close> relies on, \<open>table\<close> its interpretation;
    it gives the equivalence with a finite map for every sequence of calls.
  \<^item> \<open>Slot\<close>: \<open>Slot<O>\<close>, that is the completion word and its bits, the outcome cell, the registry, \<open>complete\<close>
    with the notification, \<open>reset\<close> and \<open>drop\<close>, each run without interference.
  \<^item> \<open>Observer\<close>: what \<open>Observation\<close> and \<open>ObservationFuture\<close> do on their slot: \<open>try_get\<close>, \<open>wait\<close> and
    \<open>wait_timeout\<close> up to where they park, \<open>register_waker\<close>, \<open>poll\<close>, \<open>drop\<close>, \<open>into_outcome\<close>.
  \<^item> \<open>World\<close>, \<open>Space\<close>: the state of a program (a heap of slots, one namespace with its table, pool and
    generation counter, and every handle the program owns) and the public functions and
    destructors of \<open>ObservationSpace\<close>, \<open>Subject\<close>, \<open>Publisher\<close>, \<open>Observation\<close> and \<open>ObservationFuture\<close>.
    Dropping a subject is three operations (under the lock, the reference to the namespace, the
    reference to the slot), because other threads can run in between.
  \<^item> \<open>Invariant\<close>, \<open>Preservation\<close>, \<open>Operations\<close>, \<open>System\<close>: well-formedness, its preservation by every
    building block, the effect of each operation on every branch, and programs: \<open>owns\<close> is what
    the borrow checker guarantees, \<open>run\<close> a sequence of operations, \<open>reach\<close> the states.
  \<^item> \<open>Frame\<close>, \<open>Leak\<close>, \<open>Guarantees\<close>, \<open>Lifecycle\<close>: what no operation changes, slots that nothing holds,
    and the properties of all programs: an observation sees its own generation, a
    publication wakes exactly the waiters, nothing leaks, the rules of registering, observing,
    retiring and moving out.
  \<^item> \<open>Destructors\<close>: programs whose outcomes may have destructors that panic (\<open>reach_with\<close>).  Up to the first
    panic such a program is in the state of a program without them, so what the other theories prove
    of \<open>reach\<close> holds there; no operation is undefined and outcomes are accounted for, with the one exception
    that is proved too: a registration whose \<open>reset\<close> is left by a destructor's panic destroys the outcome twice.
  \<^item> \<open>Ownership\<close>, \<open>Namespace_Protocol\<close>, \<open>Namespace_Simulation\<close>, \<open>Namespace_Refinement\<close>,
    \<open>Namespace_Guarantees\<close>: threads on one namespace.  \<open>subject\<close>, \<open>observe\<close> and \<open>Drop for Subject\<close> as the
    accesses they make under the entries lock (\<open>subject_section\<close>, \<open>observe_section\<close>, \<open>retire_section\<close>),
    interleaved by any number of threads with each other and with all operations that take no
    entries lock (\<open>nstep\<close>).  The abstract specification is the atomic namespace (\<open>astep\<close>), where a call
    takes effect at one instant as the operation of \<open>Space\<close>; a forward simulation gives that the calls
    are linearizable, so that what is proved of sequences of operations holds of threads; the lock
    does not deadlock, and recycling a slot is exclusive.
  \<^item> \<open>Protocol\<close>, \<open>Protocol_Invariant\<close>, \<open>Protocol_Guarantees\<close>, \<open>Protocol_Progress\<close>, \<open>Protocol_Refinement\<close>: the
    same slot, with \<open>complete\<close>, \<open>try_get\<close>, \<open>wait\<close>, \<open>wait_timeout\<close>, \<open>register_waker\<close>, \<open>poll\<close> and the drop
    of a future taken apart into their atomic accesses, interleaved by any number of threads, with park
    tokens, spurious wake-ups, deadlines, the race to create the registry, and futures that move
    between threads.  \<open>cstep\<close> is the step relation; its invariant gives that all accesses are defined
    and that all observers agree; a measure gives that a publication settles; and the accesses of a
    thread that runs alone compute the operations of \<open>Slot\<close> and \<open>Observer\<close>.
  \<^item> \<open>Contract\<close>, \<open>Contract_Refinement\<close>: the abstract specification (numbered generations; no table, no
    pool, no slots, no counts) and the simulation from the contract to the crate for every
    operation.  It plays the part of the reference model in \<open>observe-tests/tests/model.rs\<close>.
  \<^item> \<open>Harness\<close>, \<open>Tracking\<close>: programs that call the crate, branch on the replies and assert.  The locale
    \<open>simulation\<close> carries a result of such a program from one implementation to another; its
    interpretation \<open>contract\<close> rests on the refinement, so the programs are proved on the contract
    and hold of the crate.
  \<^item> \<open>Probes\<close>: \<open>DropProbe\<close>, \<open>CountWake\<close> and \<open>ThreadWake\<close>, with the strong counts of the raw wakers.  The
    locale \<open>raw_waker\<close> is the contract of a \<open>RawWakerVTable\<close>, interpreted on both vtables.
  \<^item> \<open>Fuzz\<close>, \<open>Fuzz_Ops\<close>, \<open>Fuzz_Drops\<close>, \<open>Fuzz_Waker\<close>, \<open>Fuzz_Future\<close>: \<open>ops.rs\<close>, \<open>promotion_ops.rs\<close>,
    \<open>waker_ops.rs\<close> and \<open>future_ops.rs\<close>.  No input makes a target fail an assertion, an \<open>expect\<close> or an index.
  \<^item> \<open>Workloads\<close>, \<open>Contention\<close>, \<open>Handshake\<close>, \<open>Contest\<close>, \<open>Allocator\<close>, \<open>Benchmark\<close>: the benchmark.  The
    single-threaded workloads and a worker of \<open>contention\<close> (with arbitrary interference by the other
    threads) fail no \<open>expect\<close> and read what was published; \<open>wait_latency\<close>, its two threads interleaved
    (\<open>main_step\<close>, \<open>waiter_step\<close>), and \<open>contention\<close>, its main thread, barrier and workers interleaved
    (\<open>chief_step\<close>, \<open>contender_step\<close>), end under every schedule; the counting allocator's counters are
    exact.  \<open>bench_step\<close> is \<open>main\<close>: its parts in order, the two threaded ones under every schedule; it
    ends after boundedly many steps with each metric printed once, and the one thing that can
    stop it is the retention report, when the live heap it measures did not grow.

  Correspondence of the state.  A slot is a record with the fields of \<open>Slot<O>\<close>; its address is a key of
  \<open>heap\<close>.  A handle (a Rust value that owns a reference) is a number, and the lists \<open>spaces\<close>, \<open>subjects\<close>,
  \<open>publishers\<close>, \<open>observations\<close> and \<open>futures\<close> map it to its fields.  An \<open>Arc\<close> is freed when its count of
  owners is zero.  What leaves the crate is recorded: \<open>woken\<close> (wakers woken, threads unparked),
  and the outcomes published, destroyed and moved out.

  Parameters and hypotheses.

  \<^item> \<open>arc_count\<close>: the answer of \<open>Arc::strong_count\<close> and \<open>Arc::get_mut\<close>.  \<open>arc_sound\<close> says that it is at least
    the number of owners (another thread may be about to release one); \<open>handle_count\<close> is the exact one
    and the instance in the witnesses.
  \<^item> \<open>wp\<close>: which wakers panic when they are woken (\<open>wake_panics\<close> in \<open>Protocol\<close>).
  \<^item> \<open>drop_panics\<close>: which outcomes have a destructor that panics; none in \<open>space_new\<close>, those of \<open>dp\<close> in
    \<open>space_with dp\<close>.  A panic runs the operation's own unwinding (\<open>slot_reset\<close> and \<open>slot_drop\<close> return early, the
    popped \<open>Arc\<close> of \<open>subject\<close> is dropped, a second panic would abort) and, if that is defined, ends the run
    as \<open>Inl DestructorPanicked\<close>: what the program does after it has caught one is not followed.  In
    particular the box of a registry, which \<open>Drop for Slot\<close> reclaims after it has destroyed the outcome, leaks
    then.  \<open>reach\<close>, the fuzz targets, the workloads and the concurrent models are about outcomes whose
    destructors return; \<open>Destructors\<close> is about all.
  \<^item> The fuzz targets take the order in which a \<open>HashMap\<close> gives its keys (\<open>visits_each_once\<close>) and the
    addresses of new probes (\<open>fresh_addresses\<close>: no address in use); the workloads take the measured
    durations, and the allocator the answers of \<open>System\<close> (a fresh block or null).

  Bounds and fuel.  No definition runs on fuel: the loops recurse on lists (the registry, the input of
  a fuzz target, the keys of a workload), and the loops that may run forever (\<open>wait\<close>, the retry
  after a wake-up) are steps of \<open>cstep\<close>, with the measure \<open>work\<close> for their end; the
  spins of \<open>wait_latency\<close> are steps that change nothing, with the measure \<open>steps_left\<close> for the others;
  \<open>race_left\<close> is the measure of \<open>contention\<close>, \<open>bench_left\<close> that of the whole benchmark, \<open>remaining\<close> that of a call under the entries lock.  A fuzz target makes at most 256
  (or 128) iterations, so its epochs stay below \<open>2 ^ 56\<close>, where \<open>encode\<close> decodes, and its generations below
  \<open>2 ^ 64\<close>; the workloads make at most 1000000 registrations.  Elsewhere the generation counter wraps as
  the code's does, and the properties about numbers say that it is not at its end.

  Not modelled.

  \<^item> The memory model: accesses are sequentially consistent; the code's orderings (\<open>Acquire\<close>,
    \<open>Release\<close>) are not told apart.  A model of weaker memory would be one of the language, not
    of this code.
  \<^item> \<open>recover\<close> and the \<open>cfg(loom)\<close> variants.  The entries lock is the contract of an \<open>RwLock\<close> in
    \<open>Namespace_Protocol\<close>, a registry's mutex (\<open>lock\<close>) an access of \<open>Protocol\<close>.  The two are not interleaved
    in one model: a step of \<open>Namespace_Protocol\<close> on a slot is a whole operation of \<open>Observer\<close>, and
    \<open>Protocol\<close> takes it apart on one slot.
  \<^item> Panics of the user's other code, that is of a key's \<open>Eq\<close>, \<open>Hash\<close> and \<open>Clone\<close>, of an outcome's \<open>Clone\<close>, and of
    a waker's \<open>clone\<close> and \<open>drop\<close>, and failures to allocate.
  \<^item> The derived implementations of the two error types, and the tests that call the modelled
    functions on fixed schedules (unit, loom, integration).
  \<^item> Of the benchmark: the clock and the floating-point quotient in which \<open>emit_rate\<close> prints a rate, and
    the criterion bench \<open>benches/observation.rs\<close>, which times the same shapes.
\<close>

end
